(* ===== verification/Prelude.thy ===== *)
theory Prelude
  imports Main "HOL-Library.Word" "HOL-Library.List_Lexorder" "HOL-Library.Sublist"
begin

text \<open>
  Shared vocabulary of the development: the machine types of the Rust sources, big-endian
  encoding of machine words (\<^verbatim>\<open>to_be_bytes\<close> / \<^verbatim>\<open>from_be_bytes\<close>), and the generic facts on
  byte strings, their lexicographic order and their prefixes that every component uses.
  Byte strings are ordered as Rust orders \<^verbatim>\<open>[u8]\<close>: lexicographically, a proper prefix first,
  which is the order of \<^verbatim>\<open>HOL-Library.List_Lexorder\<close>.
\<close>

unbundle bit_operations_syntax

type_synonym byte = "8 word"
type_synonym bytes = "byte list"
type_synonym u8 = "8 word"
type_synonym u32 = "32 word"
type_synonym u64 = "64 word"

named_theorems be_simps \<open>lengths and inverses of the big-endian codecs\<close>
named_theorems layout \<open>definitions of byte layouts\<close>

section \<open>Results\<close>

text \<open>The errors of \<^verbatim>\<open>rhypedb-storage/src/error.rs\<close> and Rust's panics, as values.\<close>

datatype error =
    Io
  | WalCorrupted string
  | SstCorrupted string
  | NotFound
  | WriteConflict
  | TransactionAborted
  | DataDirLocked string
  | DataDirOwnershipLost string

text \<open>
  The outcome of code that can return an error or panic. Slicing or indexing out of range panics.
\<close>

datatype 'a outcome = Return 'a | Fail error | Panic

fun obind :: "'a outcome \<Rightarrow> ('a \<Rightarrow> 'b outcome) \<Rightarrow> 'b outcome" where
  "obind (Return x) f = f x"
| "obind (Fail e) f = Fail e"
| "obind Panic f = Panic"

text \<open>Code that returns a \<^verbatim>\<open>Result\<close> with errors of its own; \<open>rbind\<close> is the operator \<^verbatim>\<open>?\<close>.\<close>

fun rbind :: "'e + 'a \<Rightarrow> ('a \<Rightarrow> 'e + 'b) \<Rightarrow> 'e + 'b" where
  "rbind (Inl e) f = Inl e"
| "rbind (Inr x) f = f x"

lemma rbind_inr: "rbind x f = Inr y \<longleftrightarrow> (\<exists>z. x = Inr z \<and> f z = Inr y)"
  by (cases x) simp_all

lemma rbind_cong [fundef_cong]: "x = y \<Longrightarrow> (\<And>z. y = Inr z \<Longrightarrow> f z = g z) \<Longrightarrow> rbind x f = rbind y g"
  by (cases y) simp_all

section \<open>Big-endian bytes\<close>

fun be_bytes :: "nat \<Rightarrow> nat \<Rightarrow> bytes" where
  "be_bytes 0 n = []"
| "be_bytes (Suc k) n = be_bytes k (n div 256) @ [of_nat n]"

definition be_nat :: "bytes \<Rightarrow> nat" where
  "be_nat bs = foldl (\<lambda>a b. a * 256 + unat b) 0 bs"

definition u32_be :: "u32 \<Rightarrow> bytes" where
  "u32_be w = be_bytes 4 (unat w)"

definition u64_be :: "u64 \<Rightarrow> bytes" where
  "u64_be w = be_bytes 8 (unat w)"

definition be_u32 :: "bytes \<Rightarrow> u32" where
  "be_u32 bs = of_nat (be_nat bs)"

definition be_u64 :: "bytes \<Rightarrow> u64" where
  "be_u64 bs = of_nat (be_nat bs)"

lemma length_be_bytes [simp]: "length (be_bytes k n) = k"
  by (induction k arbitrary: n) auto

lemma be_nat_Nil [simp]: "be_nat [] = 0"
  by (simp add: be_nat_def)

lemma be_nat_snoc [simp]: "be_nat (bs @ [b]) = be_nat bs * 256 + unat b"
  by (simp add: be_nat_def)

lemma unat_of_nat_byte: "unat (of_nat n :: byte) = n mod 256"
  by (simp add: unat_of_nat)

lemma be_nat_be_bytes: "be_nat (be_bytes k n) = n mod 256 ^ k"
proof (induction k arbitrary: n)
  case (Suc k)
  have "be_nat (be_bytes (Suc k) n) = (n div 256) mod 256 ^ k * 256 + n mod 256"
    by (simp add: Suc unat_of_nat_byte)
  also have "\<dots> = n mod (256 * 256 ^ k)"
    by (simp add: mod_mult2_eq mult.commute)
  finally show ?case by simp
qed simp

lemma be_nat_less: "be_nat bs < 256 ^ length bs"
proof (induction bs rule: rev_induct)
  case (snoc b bs)
  have "unat b < 256" using unsigned_less [of b] by simp
  with snoc show ?case by simp
qed simp

lemma be_bytes_be_nat: "length bs = k \<Longrightarrow> be_bytes k (be_nat bs) = bs"
proof (induction bs arbitrary: k rule: rev_induct)
  case (snoc b bs)
  have "unat b < 256" using unsigned_less [of b] by simp
  then have "(be_nat bs * 256 + unat b) div 256 = be_nat bs" by simp
  moreover have "(of_nat (be_nat bs * 256 + unat b) :: byte) = b"
  proof (rule word_unat_eq_iff [THEN iffD2])
    show "unat (of_nat (be_nat bs * 256 + unat b) :: byte) = unat b"
      using \<open>unat b < 256\<close> by (simp only: unat_of_nat_byte) simp
  qed
  ultimately show ?case using snoc by (auto simp del: of_nat_add of_nat_mult)
qed simp

lemma be_bytes_inject:
  "n < 256 ^ k \<Longrightarrow> m < 256 ^ k \<Longrightarrow> be_bytes k n = be_bytes k m \<longleftrightarrow> n = m"
  by (metis be_nat_be_bytes mod_less)

lemma unat_u64_less: "unat (w :: u64) < 18446744073709551616"
  using unsigned_less [of w, where ?'a = nat] by simp

lemma unat_u32_less: "unat (w :: u32) < 4294967296"
  using unsigned_less [of w, where ?'a = nat] by simp

section \<open>Lexicographic order\<close>

lemma less_append_same [simp]: "(k @ xs :: 'a::linorder list) < k @ ys \<longleftrightarrow> xs < ys"
  by (induction k) auto

lemma le_append_same [simp]: "(k @ xs :: 'a::linorder list) \<le> k @ ys \<longleftrightarrow> xs \<le> ys"
  by (induction k) auto

lemma less_append_eqlen:
  "length xs = length (ys :: 'a::linorder list) \<Longrightarrow>
   xs @ as < ys @ bs \<longleftrightarrow> xs < ys \<or> xs = ys \<and> as < bs"
  by (induction xs ys rule: list_induct2) auto

lemma div_mod_less:
  "n div 256 < m div 256 \<or> n div 256 = m div 256 \<and> n mod 256 < m mod 256 \<longleftrightarrow> n < (m :: nat)"
proof -
  have "n mod 256 < 256" "m mod 256 < 256" by simp_all
  moreover have "n = n div 256 * 256 + n mod 256" "m = m div 256 * 256 + m mod 256" by simp_all
  ultimately show ?thesis by linarith
qed

lemma be_bytes_less:
  "n < 256 ^ k \<Longrightarrow> m < 256 ^ k \<Longrightarrow> be_bytes k n < be_bytes k m \<longleftrightarrow> n < m"
proof (induction k arbitrary: n m)
  case (Suc k)
  have d: "n div 256 < 256 ^ k" "m div 256 < 256 ^ k"
    using Suc.prems by (simp_all add: less_mult_imp_div_less mult.commute)
  have low: "(of_nat n :: byte) < of_nat m \<longleftrightarrow> n mod 256 < m mod 256"
    by (simp add: word_less_nat_alt unat_of_nat_byte)
  have "be_bytes (Suc k) n < be_bytes (Suc k) m \<longleftrightarrow>
        n div 256 < m div 256 \<or> n div 256 = m div 256 \<and> n mod 256 < m mod 256"
    using Suc.IH [OF d] be_bytes_inject [OF d] low
    by (auto simp: less_append_eqlen)
  also have "\<dots> \<longleftrightarrow> n < m" by (rule div_mod_less)
  finally show ?case .
qed simp

section \<open>Codecs of fixed width\<close>

text \<open>
  The contract of a fixed-width field of a key or record: what the encoder writes has the
  width the layout promises, and the decoder reads it back. The lemmas say what follows for a
  field at the head of a longer byte string.
\<close>

locale fixed_codec =
  fixes enc :: "'a \<Rightarrow> bytes" and dec :: "bytes \<Rightarrow> 'a" and width :: nat
  assumes enc_width: "length (enc x) = width"
    and dec_enc: "dec (enc x) = x"
begin

lemma enc_inject: "enc x = enc y \<longleftrightarrow> x = y"
  by (metis dec_enc)

lemma enc_append_inject: "enc x @ xs = enc y @ ys \<longleftrightarrow> x = y \<and> xs = ys"
  by (metis append_eq_append_conv enc_inject enc_width)

lemma take_enc: "take width (enc x @ xs) = enc x"
  by (simp add: enc_width)

lemma drop_enc: "drop width (enc x @ xs) = xs"
  by (simp add: enc_width)

lemma dec_take_enc: "dec (take width (enc x @ xs)) = x"
  by (simp only: take_enc dec_enc)

lemma prefix_enc: "prefix (enc x @ xs) (enc y @ ys) \<longleftrightarrow> x = y \<and> prefix xs ys"
proof
  assume "prefix (enc x @ xs) (enc y @ ys)"
  then obtain zs where eq: "enc y @ ys = enc x @ (xs @ zs)"
    by (auto simp: prefix_def)
  then show "x = y \<and> prefix xs ys"
    using enc_append_inject by (auto simp: prefix_def)
qed (auto simp: prefix_def)

lemma prefix_enc_self: "prefix (enc x) (enc y) \<longleftrightarrow> x = y"
  using prefix_enc [of x "[]" y "[]"] by simp

lemma prefix_enc_append: "prefix (enc x) (enc y @ ys) \<longleftrightarrow> x = y"
  using prefix_enc [of x "[]" y ys] by simp

lemma enc_neq_longer: "enc x \<noteq> enc y @ c # ys"
  using enc_append_inject [of x "[]" y "c # ys"] by simp

end

lemma length_u32_be [simp, be_simps]: "length (u32_be w) = 4"
  by (simp add: u32_be_def)

lemma length_u64_be [simp, be_simps]: "length (u64_be w) = 8"
  by (simp add: u64_be_def)

lemma be_u32_u32_be [simp, be_simps]: "be_u32 (u32_be w) = w"
proof -
  have "unat w < 256 ^ 4" using unsigned_less [of w] by simp
  then show ?thesis by (simp add: be_u32_def u32_be_def be_nat_be_bytes)
qed

lemma be_u64_u64_be [simp, be_simps]: "be_u64 (u64_be w) = w"
proof -
  have "unat w < 256 ^ 8" using unsigned_less [of w] by simp
  then show ?thesis by (simp add: be_u64_def u64_be_def be_nat_be_bytes)
qed

interpretation c32: fixed_codec u32_be be_u32 4
  by unfold_locales simp_all

interpretation c64: fixed_codec u64_be be_u64 8
  by unfold_locales simp_all

declare c32.enc_inject [simp] c64.enc_inject [simp]
  c32.enc_append_inject [simp] c64.enc_append_inject [simp]
  c32.prefix_enc [simp] c64.prefix_enc [simp]
  c32.prefix_enc_self [simp] c64.prefix_enc_self [simp]
  c32.prefix_enc_append [simp] c64.prefix_enc_append [simp]
  c32.enc_neq_longer [simp] c64.enc_neq_longer [simp]

lemma u64_be_be_u64: "length bs = 8 \<Longrightarrow> u64_be (be_u64 bs) = bs"
proof -
  assume l: "length bs = 8"
  then have "be_nat bs < 2 ^ 64" using be_nat_less [of bs] by simp
  then have "unat (be_u64 bs) = be_nat bs"
    by (simp add: be_u64_def unat_of_nat)
  with l show ?thesis by (simp add: u64_be_def be_bytes_be_nat)
qed

lemma u32_be_be_u32: "length bs = 4 \<Longrightarrow> u32_be (be_u32 bs) = bs"
proof -
  assume l: "length bs = 4"
  then have "be_nat bs < 2 ^ 32" using be_nat_less [of bs] by simp
  then have "unat (be_u32 bs) = be_nat bs"
    by (simp add: be_u32_def unat_of_nat)
  with l show ?thesis by (simp add: u32_be_def be_bytes_be_nat)
qed

lemma u64_be_less [simp]: "u64_be v < u64_be w \<longleftrightarrow> v < w"
proof -
  have "unat v < 256 ^ 8" "unat w < 256 ^ 8"
    using unsigned_less [of v] unsigned_less [of w] by simp_all
  then show ?thesis by (simp add: u64_be_def be_bytes_less word_less_nat_alt)
qed

lemma u64_be_le [simp]: "u64_be v \<le> u64_be w \<longleftrightarrow> v \<le> w"
  by (auto simp: le_less)

lemma u64_be_not_Nil [simp]: "u64_be w \<noteq> []" "u32_be x \<noteq> []"
  by (metis length_0_conv length_u64_be zero_neq_numeral)
     (metis length_0_conv length_u32_be zero_neq_numeral)

text \<open>The most significant byte comes first.\<close>

lemma be_bytes_Cons: "be_bytes (Suc k) n = of_nat (n div 256 ^ k) # be_bytes k n"
proof (induction k arbitrary: n)
  case (Suc k)
  have "be_bytes (Suc (Suc k)) n = be_bytes (Suc k) (n div 256) @ [of_nat n]"
    by (rule be_bytes.simps)
  also have "\<dots> = of_nat (n div 256 div 256 ^ k) # be_bytes k (n div 256) @ [of_nat n]"
    by (simp only: Suc append_Cons)
  also have "\<dots> = of_nat (n div 256 ^ Suc k) # be_bytes (Suc k) n"
    by (simp add: div_mult2_eq)
  finally show ?case .
qed simp

section \<open>Incomparable byte strings\<close>

lemma less_append_incomparable:
  "\<not> prefix xs ys \<Longrightarrow> \<not> prefix ys xs \<Longrightarrow> (xs @ as :: 'a::linorder list) < ys @ bs \<longleftrightarrow> xs < ys"
proof (induction xs arbitrary: ys)
  case (Cons x xs)
  then obtain y ys' where "ys = y # ys'" by (cases ys) auto
  with Cons show ?case by auto
qed simp

lemma prefix_le: "prefix xs ys \<Longrightarrow> (xs :: 'a::linorder list) \<le> ys"
proof (induction xs arbitrary: ys)
  case (Cons x xs)
  then obtain ys' where "ys = x # ys'" "prefix xs ys'" by (cases ys) auto
  with Cons.IH show ?case by simp
qed simp

lemma prefix_convex:
  "prefix p xs \<Longrightarrow> prefix p zs \<Longrightarrow> xs \<le> ys \<Longrightarrow> ys \<le> (zs :: 'a::linorder list) \<Longrightarrow> prefix p ys"
proof (induction p arbitrary: xs ys zs)
  case (Cons c p)
  then obtain xs' where xs: "xs = c # xs'" "prefix p xs'" by (cases xs) auto
  from Cons.prems obtain zs' where zs: "zs = c # zs'" "prefix p zs'" by (cases zs) auto
  from Cons.prems xs zs have "ys \<noteq> []" by auto
  then obtain y ys' where ys: "ys = y # ys'" by (cases ys) auto
  from Cons.prems(3,4) have y: "y = c" "xs' \<le> ys'" "ys' \<le> zs'"
    unfolding xs zs ys by (auto dest: order.strict_trans)
  from Cons.IH [OF xs(2) zs(2) y(2,3)] show ?case unfolding ys by (simp add: y(1))
qed simp

section \<open>Complement of a version\<close>

lemma uint_not_eq: "uint (NOT x) = 2 ^ LENGTH('a) - 1 - uint x" for x :: "'a::len word"
proof -
  have "uint (NOT x) = (- uint x - 1) mod 2 ^ LENGTH('a)"
    by (simp only: word_not_def not_int_def uint_word_of_int)
  also have "- uint x - 1 = (2 ^ LENGTH('a) - 1 - uint x) + (- 1) * 2 ^ LENGTH('a)"
    by simp
  also have "\<dots> mod 2 ^ LENGTH('a) = (2 ^ LENGTH('a) - 1 - uint x) mod 2 ^ LENGTH('a)"
    by (rule mod_mult_self1)
  also have "\<dots> = 2 ^ LENGTH('a) - 1 - uint x"
  proof (rule mod_pos_pos_trivial)
    show "0 \<le> 2 ^ LENGTH('a) - 1 - uint x"
      using uint_lt2p [of x] by simp
    have "0 \<le> uint x" by simp
    then show "2 ^ LENGTH('a) - 1 - uint x < 2 ^ LENGTH('a)" by linarith
  qed
  finally show ?thesis .
qed

lemma unat_not_eq: "unat (NOT x) = 2 ^ LENGTH('a) - 1 - unat x" for x :: "'a::len word"
proof -
  have "int (unat (NOT x) + unat x + 1) = 2 ^ LENGTH('a)"
    by (simp only: of_nat_add uint_nat [symmetric] uint_not_eq of_nat_1)
  then have "int (unat (NOT x) + unat x + 1) = int (2 ^ LENGTH('a))" by simp
  then have "unat (NOT x) + unat x + 1 = 2 ^ LENGTH('a)" by (simp only: of_nat_eq_iff)
  then show ?thesis by linarith
qed

lemma not_less_not [simp]: "NOT v < NOT w \<longleftrightarrow> w < (v :: 'a::len word)"
  by (simp only: word_less_def uint_not_eq) auto

lemma not_le_not [simp]: "NOT v \<le> NOT w \<longleftrightarrow> w \<le> (v :: 'a::len word)"
  using not_less_not [of w v] by (simp add: linorder_not_less [symmetric] del: not_less_not)

section \<open>Slices\<close>

definition slice :: "bytes \<Rightarrow> nat \<Rightarrow> nat \<Rightarrow> bytes outcome" where
  "slice d a b = (if a \<le> b \<and> b \<le> length d then Return (take (b - a) (drop a d)) else Panic)"

definition read_u32 :: "bytes \<Rightarrow> nat \<Rightarrow> nat outcome" where
  "read_u32 d p = obind (slice d p (p + 4)) (\<lambda>b. Return (unat (be_u32 b)))"

definition read_u64 :: "bytes \<Rightarrow> nat \<Rightarrow> nat outcome" where
  "read_u64 d p = obind (slice d p (p + 8)) (\<lambda>b. Return (unat (be_u64 b)))"

definition byte_at :: "bytes \<Rightarrow> nat \<Rightarrow> byte outcome" where
  "byte_at d p = (if p < length d then Return (d ! p) else Panic)"

section \<open>Floats\<close>

text \<open>
  The numeric order of IEEE-754 doubles that are not NaN, on bit patterns: sign and magnitude,
  with the two zeros equal.
\<close>

definition f64_order_key :: "u64 \<Rightarrow> int" where
  "f64_order_key bits =
     (if unat bits < 2 ^ 63 then int (unat bits) else - int (unat bits - 2 ^ 63))"

definition f64_nan :: "u64 \<Rightarrow> bool" where
  "f64_nan bits \<longleftrightarrow> unat (bits AND 0x7FFFFFFFFFFFFFFF) > 0x7FF0000000000000"

text \<open>\<^verbatim>\<open>==\<close> and \<^verbatim>\<open>partial_cmp\<close> of \<^verbatim>\<open>f64\<close>.\<close>

definition f64_eq :: "u64 \<Rightarrow> u64 \<Rightarrow> bool" where
  "f64_eq a b \<longleftrightarrow> \<not> f64_nan a \<and> \<not> f64_nan b \<and> f64_order_key a = f64_order_key b"

datatype ordering = Less | Equal | Greater

definition cmp_of :: "'a::linorder \<Rightarrow> 'a \<Rightarrow> ordering" where
  "cmp_of a b = (if a < b then Less else if a = b then Equal else Greater)"

definition f64_partial_cmp :: "u64 \<Rightarrow> u64 \<Rightarrow> ordering option" where
  "f64_partial_cmp a b = (if f64_nan a \<or> f64_nan b then None else Some (cmp_of (f64_order_key a) (f64_order_key b)))"

end
