(* ===== verification/Keys.thy ===== *)
theory Keys
  imports Prelude
begin

text \<open>
  The key layer, \<^verbatim>\<open>rhypedb-storage/src/key.rs\<close>: the internal key (user key and complemented
  version), the constructors of \<^verbatim>\<open>KeyBuilder\<close> for every logical store, their scan prefixes, the
  accessors that read a field back out of a key, and the arena variants that append to a shared
  buffer. A \<^verbatim>\<open>Bytes\<close> value is a byte list; \<^verbatim>\<open>put_u64\<close>/\<^verbatim>\<open>to_be_bytes\<close> are \<^const>\<open>u64_be\<close>; a
  \<^verbatim>\<open>&str\<close> is its UTF-8 byte list. The \<^verbatim>\<open>debug_assert!\<close>s on catalog names (no NUL, no
  separator) are not executed in release builds: they are hypotheses where a lemma needs them.
\<close>

section \<open>Prefix bytes\<close>

datatype KeyPrefix =
    Object | Edge | ReverseEdge | Vector | Unique | Queue | VectorState | FieldIndex
  | Generation | Catalog | Fulltext | FulltextDoc

fun prefix_byte :: "KeyPrefix \<Rightarrow> byte" where
  "prefix_byte Object = 111"
| "prefix_byte Edge = 101"
| "prefix_byte ReverseEdge = 114"
| "prefix_byte Vector = 118"
| "prefix_byte Unique = 117"
| "prefix_byte Queue = 113"
| "prefix_byte VectorState = 115"
| "prefix_byte FieldIndex = 105"
| "prefix_byte Generation = 103"
| "prefix_byte Catalog = 99"
| "prefix_byte Fulltext = 102"
| "prefix_byte FulltextDoc = 108"

definition SEPARATOR :: byte where
  "SEPARATOR = 58"

definition FULLTEXT_PREFIX_LEN :: nat where
  "FULLTEXT_PREFIX_LEN = 1 + 1 + 8 + 1 + 8 + 1 + 4 + 1"

definition put_fulltext_prefix :: "bytes \<Rightarrow> KeyPrefix \<Rightarrow> u64 \<Rightarrow> u64 \<Rightarrow> u32 \<Rightarrow> bytes" where
  [layout]: "put_fulltext_prefix buf p type_id field_id generation =
     buf @ [prefix_byte p, SEPARATOR] @ u64_be type_id @ [SEPARATOR] @ u64_be field_id
     @ [SEPARATOR] @ u32_be generation @ [SEPARATOR]"

definition push_fulltext_prefix :: "bytes \<Rightarrow> KeyPrefix \<Rightarrow> u64 \<Rightarrow> u64 \<Rightarrow> u32 \<Rightarrow> bytes" where
  [layout]: "push_fulltext_prefix buf p type_id field_id generation =
     buf @ [prefix_byte p, SEPARATOR] @ u64_be type_id @ [SEPARATOR] @ u64_be field_id
     @ [SEPARATOR] @ u32_be generation @ [SEPARATOR]"

section \<open>Internal keys\<close>

text \<open>
  \<^verbatim>\<open>InternalKey\<close> wraps its encoded bytes; the model is the byte string itself.
  \<^verbatim>\<open>user_key\<close> and \<^verbatim>\<open>version\<close> slice at \<^verbatim>\<open>len - 8\<close>, which panics on fewer than eight bytes;
  every caller checks the length first, and an \<^verbatim>\<open>InternalKey\<close> is only built by \<^verbatim>\<open>new\<close>.
\<close>

definition internal_key :: "bytes \<Rightarrow> u64 \<Rightarrow> bytes" where
  "internal_key user_key version = user_key @ u64_be (NOT version)"

definition ik_user_key :: "bytes \<Rightarrow> bytes" where
  "ik_user_key data = take (length data - 8) data"

definition ik_version :: "bytes \<Rightarrow> u64" where
  "ik_version data = NOT (be_u64 (drop (length data - 8) data))"

section \<open>Constructors of user keys\<close>

definition kb_object :: "u64 \<Rightarrow> u64 \<Rightarrow> bytes" where
  [layout]: "kb_object type_id object_id =
     [prefix_byte Object, SEPARATOR] @ u64_be type_id @ [SEPARATOR] @ u64_be object_id"

definition kb_edge :: "u64 \<Rightarrow> u64 \<Rightarrow> u64 \<Rightarrow> bytes" where
  [layout]: "kb_edge source_id rel_id target_id =
     [prefix_byte Edge, SEPARATOR] @ u64_be source_id @ [SEPARATOR] @ u64_be rel_id @ [SEPARATOR] @ u64_be target_id"

definition kb_reverse_edge :: "u64 \<Rightarrow> u64 \<Rightarrow> u64 \<Rightarrow> bytes" where
  [layout]: "kb_reverse_edge target_id rel_id source_id =
     [prefix_byte ReverseEdge, SEPARATOR] @ u64_be target_id @ [SEPARATOR] @ u64_be rel_id @ [SEPARATOR] @ u64_be source_id"

definition kb_vector :: "u64 \<Rightarrow> u64 \<Rightarrow> u64 \<Rightarrow> bytes" where
  [layout]: "kb_vector type_id object_id field_id =
     [prefix_byte Vector, SEPARATOR] @ u64_be type_id @ [SEPARATOR] @ u64_be object_id @ [SEPARATOR] @ u64_be field_id"

definition kb_all_objects_prefix :: "bytes" where
  [layout]: "kb_all_objects_prefix = [prefix_byte Object, SEPARATOR]"

definition kb_all_edges_prefix :: "bytes" where
  [layout]: "kb_all_edges_prefix = [prefix_byte Edge, SEPARATOR]"

definition kb_object_prefix :: "u64 \<Rightarrow> bytes" where
  [layout]: "kb_object_prefix type_id =
     [prefix_byte Object, SEPARATOR] @ u64_be type_id @ [SEPARATOR]"

definition kb_edge_prefix :: "u64 \<Rightarrow> u64 \<Rightarrow> bytes" where
  [layout]: "kb_edge_prefix source_id rel_id =
     [prefix_byte Edge, SEPARATOR] @ u64_be source_id @ [SEPARATOR] @ u64_be rel_id @ [SEPARATOR]"

definition kb_reverse_edge_prefix :: "u64 \<Rightarrow> u64 \<Rightarrow> bytes" where
  [layout]: "kb_reverse_edge_prefix target_id rel_id =
     [prefix_byte ReverseEdge, SEPARATOR] @ u64_be target_id @ [SEPARATOR] @ u64_be rel_id @ [SEPARATOR]"

definition kb_vector_prefix :: "u64 \<Rightarrow> bytes" where
  [layout]: "kb_vector_prefix type_id =
     [prefix_byte Vector, SEPARATOR] @ u64_be type_id @ [SEPARATOR]"

definition kb_unique_index :: "u64 \<Rightarrow> u64 \<Rightarrow> bytes \<Rightarrow> bytes" where
  [layout]: "kb_unique_index type_id field_id value_bytes =
     [prefix_byte Unique, SEPARATOR] @ u64_be type_id @ [SEPARATOR] @ u64_be field_id @ [SEPARATOR] @ value_bytes"

definition kb_field_index :: "u64 \<Rightarrow> u64 \<Rightarrow> bytes \<Rightarrow> u64 \<Rightarrow> bytes" where
  [layout]: "kb_field_index type_id field_id encoded_value object_id =
     [prefix_byte FieldIndex, SEPARATOR] @ u64_be type_id @ [SEPARATOR] @ u64_be field_id @ [SEPARATOR] @ encoded_value @ [SEPARATOR] @ u64_be object_id"

definition kb_field_index_prefix :: "u64 \<Rightarrow> u64 \<Rightarrow> bytes" where
  [layout]: "kb_field_index_prefix type_id field_id =
     [prefix_byte FieldIndex, SEPARATOR] @ u64_be type_id @ [SEPARATOR] @ u64_be field_id @ [SEPARATOR]"

definition kb_field_index_value_prefix :: "u64 \<Rightarrow> u64 \<Rightarrow> bytes \<Rightarrow> bytes" where
  [layout]: "kb_field_index_value_prefix type_id field_id encoded_value =
     [prefix_byte FieldIndex, SEPARATOR] @ u64_be type_id @ [SEPARATOR] @ u64_be field_id @ [SEPARATOR] @ encoded_value @ [SEPARATOR]"

definition kb_field_index_var :: "u64 \<Rightarrow> u64 \<Rightarrow> bytes \<Rightarrow> u64 \<Rightarrow> bytes" where
  [layout]: "kb_field_index_var type_id field_id encoded_value object_id =
     [prefix_byte FieldIndex, SEPARATOR] @ u64_be type_id @ [SEPARATOR] @ u64_be field_id @ [SEPARATOR] @ encoded_value @ u64_be object_id"

definition kb_field_index_var_value_prefix :: "u64 \<Rightarrow> u64 \<Rightarrow> bytes \<Rightarrow> bytes" where
  [layout]: "kb_field_index_var_value_prefix type_id field_id encoded_value =
     [prefix_byte FieldIndex, SEPARATOR] @ u64_be type_id @ [SEPARATOR] @ u64_be field_id @ [SEPARATOR] @ encoded_value"

definition kb_fulltext_posting :: "u64 \<Rightarrow> u64 \<Rightarrow> u32 \<Rightarrow> bytes \<Rightarrow> u64 \<Rightarrow> bytes" where
  [layout]: "kb_fulltext_posting type_id field_id generation encoded_term object_id =
     put_fulltext_prefix [] Fulltext type_id field_id generation @ encoded_term @ u64_be object_id"

definition kb_fulltext_term_prefix :: "u64 \<Rightarrow> u64 \<Rightarrow> u32 \<Rightarrow> bytes \<Rightarrow> bytes" where
  [layout]: "kb_fulltext_term_prefix type_id field_id generation encoded_term =
     put_fulltext_prefix [] Fulltext type_id field_id generation @ encoded_term"

definition kb_fulltext_field_prefix :: "u64 \<Rightarrow> u64 \<Rightarrow> u32 \<Rightarrow> bytes" where
  [layout]: "kb_fulltext_field_prefix type_id field_id generation =
     put_fulltext_prefix [] Fulltext type_id field_id generation"

definition kb_fulltext_field_all_generations_prefix :: "u64 \<Rightarrow> u64 \<Rightarrow> bytes" where
  [layout]: "kb_fulltext_field_all_generations_prefix type_id field_id =
     [prefix_byte Fulltext, SEPARATOR] @ u64_be type_id @ [SEPARATOR] @ u64_be field_id @ [SEPARATOR]"

definition kb_fulltext_doc :: "u64 \<Rightarrow> u64 \<Rightarrow> u32 \<Rightarrow> u64 \<Rightarrow> bytes" where
  [layout]: "kb_fulltext_doc type_id field_id generation object_id =
     put_fulltext_prefix [] FulltextDoc type_id field_id generation @ u64_be object_id"

definition kb_fulltext_doc_prefix :: "u64 \<Rightarrow> u64 \<Rightarrow> u32 \<Rightarrow> bytes" where
  [layout]: "kb_fulltext_doc_prefix type_id field_id generation =
     put_fulltext_prefix [] FulltextDoc type_id field_id generation"

definition kb_fulltext_doc_all_generations_prefix :: "u64 \<Rightarrow> u64 \<Rightarrow> bytes" where
  [layout]: "kb_fulltext_doc_all_generations_prefix type_id field_id =
     [prefix_byte FulltextDoc, SEPARATOR] @ u64_be type_id @ [SEPARATOR] @ u64_be field_id @ [SEPARATOR]"

definition kb_queue_entry :: "u64 \<Rightarrow> bytes" where
  [layout]: "kb_queue_entry job_id = [prefix_byte Queue, SEPARATOR] @ u64_be job_id"

definition kb_queue_prefix :: "bytes" where
  [layout]: "kb_queue_prefix = [prefix_byte Queue, SEPARATOR]"

definition kb_queue_window_prefix :: "u64 \<Rightarrow> bytes" where
  [layout]: "kb_queue_window_prefix window =
     [prefix_byte Queue, SEPARATOR] @ take 7 (u64_be (push_bit 8 window))"

definition kb_vector_state :: "u64 \<Rightarrow> u64 \<Rightarrow> u64 \<Rightarrow> bytes" where
  [layout]: "kb_vector_state type_id object_id field_id =
     [prefix_byte VectorState, SEPARATOR] @ u64_be type_id @ [SEPARATOR] @ u64_be object_id @ [SEPARATOR] @ u64_be field_id"

definition kb_vector_state_type_prefix :: "u64 \<Rightarrow> bytes" where
  [layout]: "kb_vector_state_type_prefix type_id =
     [prefix_byte VectorState, SEPARATOR] @ u64_be type_id @ [SEPARATOR]"

definition kb_object_version :: "u64 \<Rightarrow> u64 \<Rightarrow> bytes" where
  [layout]: "kb_object_version type_id object_id =
     [prefix_byte Generation, SEPARATOR] @ u64_be type_id @ [SEPARATOR] @ u64_be object_id"

definition kb_object_version_prefix :: "bytes" where
  [layout]: "kb_object_version_prefix = [prefix_byte Generation, SEPARATOR]"

definition kb_catalog_format :: "bytes" where
  [layout]: "kb_catalog_format = [prefix_byte Catalog, SEPARATOR, 70, SEPARATOR]"

definition kb_catalog_initialized :: "bytes" where
  [layout]: "kb_catalog_initialized = [prefix_byte Catalog, SEPARATOR, 73, SEPARATOR]"

definition kb_catalog_metadata :: "bytes" where
  [layout]: "kb_catalog_metadata = [prefix_byte Catalog, SEPARATOR, 77, SEPARATOR]"

definition kb_catalog_digest :: "bytes" where
  [layout]: "kb_catalog_digest = [prefix_byte Catalog, SEPARATOR, 68, SEPARATOR]"

definition kb_catalog_type :: "bytes \<Rightarrow> bytes" where
  [layout]: "kb_catalog_type type_name =
     [prefix_byte Catalog, SEPARATOR, 84, SEPARATOR] @ type_name"

definition kb_catalog_field :: "bytes \<Rightarrow> bytes \<Rightarrow> bytes" where
  [layout]: "kb_catalog_field type_name field_name =
     [prefix_byte Catalog, SEPARATOR, 69, SEPARATOR] @ type_name @ [0] @ field_name"

definition kb_catalog_rel :: "bytes \<Rightarrow> bytes \<Rightarrow> bytes" where
  [layout]: "kb_catalog_rel type_name field_name =
     [prefix_byte Catalog, SEPARATOR, 82, SEPARATOR] @ type_name @ [0] @ field_name"

definition kb_catalog_next_type :: "bytes" where
  [layout]: "kb_catalog_next_type = [prefix_byte Catalog, SEPARATOR, 78, SEPARATOR, 84]"

definition kb_catalog_next_field :: "bytes" where
  [layout]: "kb_catalog_next_field = [prefix_byte Catalog, SEPARATOR, 78, SEPARATOR, 69]"

definition kb_catalog_next_rel :: "bytes" where
  [layout]: "kb_catalog_next_rel = [prefix_byte Catalog, SEPARATOR, 78, SEPARATOR, 82]"

definition kb_catalog_prefix_type :: "bytes" where
  [layout]: "kb_catalog_prefix_type = [prefix_byte Catalog, SEPARATOR, 84, SEPARATOR]"

definition kb_catalog_prefix_field :: "bytes" where
  [layout]: "kb_catalog_prefix_field = [prefix_byte Catalog, SEPARATOR, 69, SEPARATOR]"

definition kb_catalog_prefix_rel :: "bytes" where
  [layout]: "kb_catalog_prefix_rel = [prefix_byte Catalog, SEPARATOR, 82, SEPARATOR]"

definition kb_catalog_prefix_all :: "bytes" where
  [layout]: "kb_catalog_prefix_all = [prefix_byte Catalog, SEPARATOR]"

definition kb_catalog_migration_version :: "bytes" where
  [layout]: "kb_catalog_migration_version = [prefix_byte Catalog, SEPARATOR, 86, SEPARATOR]"

definition kb_catalog_migration_log :: "u64 \<Rightarrow> bytes" where
  [layout]: "kb_catalog_migration_log ordinal =
     [prefix_byte Catalog, SEPARATOR, 71, SEPARATOR] @ u64_be ordinal"

definition kb_catalog_migration_log_prefix :: "bytes" where
  [layout]: "kb_catalog_migration_log_prefix = [prefix_byte Catalog, SEPARATOR, 71, SEPARATOR]"

definition kb_catalog_next_migration :: "bytes" where
  [layout]: "kb_catalog_next_migration = [prefix_byte Catalog, SEPARATOR, 78, SEPARATOR, 77]"

definition kb_catalog_migration_plan :: "u64 \<Rightarrow> bytes" where
  [layout]: "kb_catalog_migration_plan plan_id =
     [prefix_byte Catalog, SEPARATOR, 80, SEPARATOR] @ u64_be plan_id"

definition kb_catalog_migration_plan_prefix :: "bytes" where
  [layout]: "kb_catalog_migration_plan_prefix = [prefix_byte Catalog, SEPARATOR, 80, SEPARATOR]"

definition kb_catalog_partition_cursor :: "u64 \<Rightarrow> u8 \<Rightarrow> bytes" where
  [layout]: "kb_catalog_partition_cursor plan_id partition_idx =
     [prefix_byte Catalog, SEPARATOR, 83, SEPARATOR] @ u64_be plan_id @ [partition_idx]"

definition kb_catalog_partition_cursor_plan_prefix :: "u64 \<Rightarrow> bytes" where
  [layout]: "kb_catalog_partition_cursor_plan_prefix plan_id =
     [prefix_byte Catalog, SEPARATOR, 83, SEPARATOR] @ u64_be plan_id"

definition kb_catalog_partition_cursor_prefix :: "bytes" where
  [layout]: "kb_catalog_partition_cursor_prefix = [prefix_byte Catalog, SEPARATOR, 83, SEPARATOR]"

definition kb_catalog_fulltext_marker :: "u64 \<Rightarrow> u64 \<Rightarrow> bytes" where
  [layout]: "kb_catalog_fulltext_marker type_id field_id =
     [prefix_byte Catalog, SEPARATOR, 88, SEPARATOR] @ u64_be type_id @ u64_be field_id"

definition kb_catalog_fulltext_marker_prefix :: "bytes" where
  [layout]: "kb_catalog_fulltext_marker_prefix = [prefix_byte Catalog, SEPARATOR, 88, SEPARATOR]"

definition kb_catalog_quarantine :: "u64 \<Rightarrow> u64 \<Rightarrow> bytes" where
  [layout]: "kb_catalog_quarantine plan_id object_id =
     [prefix_byte Catalog, SEPARATOR, 81, SEPARATOR] @ u64_be plan_id @ u64_be object_id"

definition kb_catalog_quarantine_plan_prefix :: "u64 \<Rightarrow> bytes" where
  [layout]: "kb_catalog_quarantine_plan_prefix plan_id =
     [prefix_byte Catalog, SEPARATOR, 81, SEPARATOR] @ u64_be plan_id"

definition kb_catalog_quarantine_prefix :: "bytes" where
  [layout]: "kb_catalog_quarantine_prefix = [prefix_byte Catalog, SEPARATOR, 81, SEPARATOR]"

section \<open>Reading fields back\<close>

definition kb_fulltext_object_id :: "bytes \<Rightarrow> u64 option" where
  "kb_fulltext_object_id key =
     (if length key < FULLTEXT_PREFIX_LEN + 8 then None
      else Some (be_u64 (drop (length key - 8) key)))"

definition kb_fulltext_posting_term :: "bytes \<Rightarrow> bytes option" where
  "kb_fulltext_posting_term key =
     (if length key < FULLTEXT_PREFIX_LEN + 2 + 8 then None
      else let term = drop FULLTEXT_PREFIX_LEN (take (length key - 8) key)
           in if \<not> suffix [0, 0] term then None else Some term)"

definition kb_catalog_fulltext_marker_ids :: "bytes \<Rightarrow> (u64 \<times> u64) option" where
  "kb_catalog_fulltext_marker_ids key =
     (if length key \<noteq> 4 + 8 + 8 then None
      else Some (be_u64 (take 8 (drop 4 key)), be_u64 (take 8 (drop 12 key))))"

definition kb_fulltext_generation :: "bytes \<Rightarrow> u32 option" where
  "kb_fulltext_generation key =
     (if length key < FULLTEXT_PREFIX_LEN then None
      else Some (be_u32 (take 4 (drop 20 key))))"

section \<open>Arena encoders\<close>

text \<open>
  The \<^verbatim>\<open>*_into\<close> variants append to a caller-owned buffer and return the range they wrote, both
  ends cast to \<^verbatim>\<open>u32\<close> (which truncates past 4 GiB, as \<open>of_nat\<close> into \<^typ>\<open>u32\<close> does).
\<close>

definition arena_range :: "bytes \<Rightarrow> bytes \<Rightarrow> bytes \<times> u32 \<times> u32" where
  "arena_range buf buf' = (buf', of_nat (length buf), of_nat (length buf'))"

definition kb_object_into :: "bytes \<Rightarrow> u64 \<Rightarrow> u64 \<Rightarrow> bytes \<times> u32 \<times> u32" where
  "kb_object_into buf type_id object_id = arena_range buf
     (buf @ [prefix_byte Object, SEPARATOR] @ u64_be type_id @ [SEPARATOR] @ u64_be object_id)"

definition kb_edge_into :: "bytes \<Rightarrow> u64 \<Rightarrow> u64 \<Rightarrow> u64 \<Rightarrow> bytes \<times> u32 \<times> u32" where
  "kb_edge_into buf source_id rel_id target_id = arena_range buf
     (buf @ [prefix_byte Edge, SEPARATOR] @ u64_be source_id @ [SEPARATOR] @ u64_be rel_id @ [SEPARATOR] @ u64_be target_id)"

definition kb_reverse_edge_into :: "bytes \<Rightarrow> u64 \<Rightarrow> u64 \<Rightarrow> u64 \<Rightarrow> bytes \<times> u32 \<times> u32" where
  "kb_reverse_edge_into buf target_id rel_id source_id = arena_range buf
     (buf @ [prefix_byte ReverseEdge, SEPARATOR] @ u64_be target_id @ [SEPARATOR] @ u64_be rel_id @ [SEPARATOR] @ u64_be source_id)"

definition kb_object_version_into :: "bytes \<Rightarrow> u64 \<Rightarrow> u64 \<Rightarrow> bytes \<times> u32 \<times> u32" where
  "kb_object_version_into buf type_id object_id = arena_range buf
     (buf @ [prefix_byte Generation, SEPARATOR] @ u64_be type_id @ [SEPARATOR] @ u64_be object_id)"

definition kb_unique_index_into :: "bytes \<Rightarrow> u64 \<Rightarrow> u64 \<Rightarrow> bytes \<Rightarrow> bytes \<times> u32 \<times> u32" where
  "kb_unique_index_into buf type_id field_id value_bytes = arena_range buf
     (buf @ [prefix_byte Unique, SEPARATOR] @ u64_be type_id @ [SEPARATOR] @ u64_be field_id @ [SEPARATOR] @ value_bytes)"

definition kb_field_index_into :: "bytes \<Rightarrow> u64 \<Rightarrow> u64 \<Rightarrow> bytes \<Rightarrow> u64 \<Rightarrow> bytes \<times> u32 \<times> u32" where
  "kb_field_index_into buf type_id field_id encoded_value object_id = arena_range buf
     (buf @ [prefix_byte FieldIndex, SEPARATOR] @ u64_be type_id @ [SEPARATOR] @ u64_be field_id @ [SEPARATOR] @ encoded_value @ [SEPARATOR] @ u64_be object_id)"

definition kb_field_index_var_into :: "bytes \<Rightarrow> u64 \<Rightarrow> u64 \<Rightarrow> bytes \<Rightarrow> u64 \<Rightarrow> bytes \<times> u32 \<times> u32" where
  "kb_field_index_var_into buf type_id field_id encoded_value object_id = arena_range buf
     (buf @ [prefix_byte FieldIndex, SEPARATOR] @ u64_be type_id @ [SEPARATOR] @ u64_be field_id @ [SEPARATOR] @ encoded_value @ u64_be object_id)"

definition kb_fulltext_posting_into :: "bytes \<Rightarrow> u64 \<Rightarrow> u64 \<Rightarrow> u32 \<Rightarrow> bytes \<Rightarrow> u64 \<Rightarrow> bytes \<times> u32 \<times> u32" where
  "kb_fulltext_posting_into buf type_id field_id generation encoded_term object_id = arena_range buf
     (push_fulltext_prefix buf Fulltext type_id field_id generation @ encoded_term @ u64_be object_id)"

definition kb_fulltext_doc_into :: "bytes \<Rightarrow> u64 \<Rightarrow> u64 \<Rightarrow> u32 \<Rightarrow> u64 \<Rightarrow> bytes \<times> u32 \<times> u32" where
  "kb_fulltext_doc_into buf type_id field_id generation object_id = arena_range buf
     (push_fulltext_prefix buf FulltextDoc type_id field_id generation @ u64_be object_id)"

text \<open>The slice a caller takes out of the frozen arena with a returned range.\<close>

definition arena_slice :: "bytes \<times> u32 \<times> u32 \<Rightarrow> bytes" where
  "arena_slice r = (case r of (buf, s, e) \<Rightarrow> take (unat e - unat s) (drop (unat s) buf))"

section \<open>Internal keys: round trip and order\<close>

lemma length_internal_key [simp]: "length (internal_key k v) = length k + 8"
  by (simp add: internal_key_def)

lemma ik_user_key_internal_key [simp]: "ik_user_key (internal_key k v) = k"
  by (simp add: ik_user_key_def internal_key_def)

lemma ik_version_internal_key [simp]: "ik_version (internal_key k v) = v"
  by (simp add: ik_version_def internal_key_def)

lemma internal_key_collapse:
  assumes "8 \<le> length d"
  shows "internal_key (ik_user_key d) (ik_version d) = d"
proof -
  have "length (drop (length d - 8) d) = 8" using assms by simp
  then have "u64_be (be_u64 (drop (length d - 8) d)) = drop (length d - 8) d"
    by (rule u64_be_be_u64)
  then show ?thesis by (simp add: internal_key_def ik_user_key_def ik_version_def)
qed

lemma internal_key_inject [simp]: "internal_key k v = internal_key k' v' \<longleftrightarrow> k = k' \<and> v = v'"
  by (metis ik_user_key_internal_key ik_version_internal_key)

lemma internal_key_less_same [simp]: "internal_key k v < internal_key k w \<longleftrightarrow> w < v"
  by (simp add: internal_key_def)

lemma internal_key_le_same [simp]: "internal_key k v \<le> internal_key k w \<longleftrightarrow> w \<le> v"
  by (simp add: internal_key_def)

lemma internal_key_less_incomparable:
  "\<not> prefix k k' \<Longrightarrow> \<not> prefix k' k \<Longrightarrow> internal_key k v < internal_key k' w \<longleftrightarrow> k < k'"
  by (simp add: internal_key_def less_append_incomparable)

text \<open>
  Versions stay below \<open>2 ^ 56\<close> in any run shorter than \<open>7 \<cdot> 10 ^ 16\<close> commits; then the first byte
  of the complemented version is \<open>0xFF\<close>, and a longer user key whose next byte is smaller sorts
  \<^emph>\<open>before\<close> every version of the shorter key.
\<close>

lemma hd_inverted_version:
  assumes "v < 2 ^ 56"
  shows "\<exists>t. u64_be (NOT v) = 255 # t"
proof -
  have v: "unat v < 2 ^ 56"
    using assms by (simp add: word_less_nat_alt)
  have "unat (NOT v) = 18446744073709551615 - unat v"
    using unat_not_eq [of v] by simp
  with v have "72057594037927936 * 255 \<le> unat (NOT v)"
    "unat (NOT v) < 72057594037927936 * Suc 255" by simp_all
  then have "unat (NOT v) div 72057594037927936 = 255" by (rule div_nat_eqI)
  then have "be_bytes 8 (unat (NOT v)) = 255 # be_bytes 7 (unat (NOT v))"
    using be_bytes_Cons [of 7 "unat (NOT v)"] by simp
  then show ?thesis by (simp add: u64_be_def)
qed

lemma unat_numeral_byte_255: "unat (255 :: byte) = 255"
  by simp

text \<open>The order of all versions of two keys, one of which extends the other.\<close>

lemma internal_key_less_extension:
  assumes "v < 2 ^ 56" and "c \<noteq> 255"
  shows "internal_key (k @ c # s) w < internal_key k v"
proof -
  from assms(1) obtain t where "u64_be (NOT v) = 255 # t" using hd_inverted_version by blast
  moreover have "c < 255"
  proof -
    have "unat c < 256" using unsigned_less [of c, where ?'a = nat] by simp
    moreover have "unat c \<noteq> 255" using assms(2) by (metis unat_numeral_byte_255 word_unat_eq_iff)
    ultimately show ?thesis by (simp add: word_less_nat_alt)
  qed
  ultimately show ?thesis by (simp add: internal_key_def)
qed

section \<open>Properties\<close>

text \<open>an internal key determines its user key and version, and the versions of one user key
  sort newest first, so a forward scan meets the newest version first.\<close>

theorem internal_key_newest_first:
  "ik_user_key (internal_key k v) = k \<and> ik_version (internal_key k v) = v
   \<and> (internal_key k v < internal_key k w \<longleftrightarrow> w < v)"
  by simp

text \<open>the internal order of two different user keys does not depend on the versions unless
  one key is a prefix of the other; and then, for versions below \<open>2 ^ 56\<close> and a next byte other than
  \<open>0xFF\<close>, every version of the longer key sorts before every version of the shorter one, against
  the order of the user keys.\<close>

theorem internal_key_order_of_keys:
  "(\<not> prefix k k' \<and> \<not> prefix k' k \<longrightarrow> (internal_key k v < internal_key k' w \<longleftrightarrow> k < k'))
   \<and> (k' = k @ c # s \<and> c \<noteq> 255 \<and> v < 2 ^ 56 \<longrightarrow> internal_key k' w < internal_key k v \<and> k < k')"
  using internal_key_less_incomparable internal_key_less_extension
  by (auto simp: less_append_same [of k "[]", simplified])

theorem internal_key_order_of_keys_witness:
  "internal_key [97, 98] 3 < internal_key [97] 5 \<and> [97] < [97, 98 :: byte]"
  using internal_key_order_of_keys [of "[97]" "[97, 98]" 5 3 98 "[]"] by simp

end
