(* ===== verification/Index_Encoding.thy ===== *)
theory Index_Encoding
  imports Keys
begin

text \<open>
  The order-preserving value encodings of the engine's secondary, unique and zone indexes
  (\<^verbatim>\<open>rhypedb-engine/src/database.rs\<close>): the escaped variable-length encoding of strings and bytes,
  the sign-flipped integers, the transformed floats and the booleans, with the laws the key
  layer relies on. Signed integers and floats are kept as their bit patterns; \<^verbatim>\<open>serde_json\<close>'s
  serializer is a parameter.
\<close>

section \<open>Values\<close>

text \<open>\<^verbatim>\<open>Value\<close> of \<^verbatim>\<open>rhypedb-wire/src/object.rs\<close>. A \<^verbatim>\<open>String\<close> is its UTF-8 bytes, an \<^verbatim>\<open>f32\<close>/\<^verbatim>\<open>f64\<close>
  its bit pattern, an \<^verbatim>\<open>i32\<close>/\<^verbatim>\<open>i64\<close> the two's complement word.\<close>

datatype 'j Value =
    VString bytes | VU32 u32 | VU64 u64 | VI32 u32 | VI64 u64 | VF32 u32 | VF64 u64
  | VBool bool | VBytes bytes | VDateTime u64 | VJson 'j | VNull

definition value_to_index_bytes :: "('j \<Rightarrow> bytes) \<Rightarrow> 'j Value \<Rightarrow> bytes" where
  "value_to_index_bytes json_to_vec v = (case v of
       VString s \<Rightarrow> s
     | VU32 n \<Rightarrow> u32_be n
     | VU64 n \<Rightarrow> u64_be n
     | VI32 n \<Rightarrow> u32_be n
     | VI64 n \<Rightarrow> u64_be n
     | VF32 n \<Rightarrow> u32_be n
     | VF64 n \<Rightarrow> u64_be n
     | VBool b \<Rightarrow> [if b then 1 else 0]
     | VBytes b \<Rightarrow> b
     | VDateTime ms \<Rightarrow> u64_be ms
     | VJson j \<Rightarrow> json_to_vec j
     | VNull \<Rightarrow> [])"

section \<open>Escaped variable-length encoding\<close>

definition escape_byte :: "byte \<Rightarrow> bytes" where
  "escape_byte x = (if x = 0 then [0, 1] else [x])"

definition encode_bytes_for_index :: "bytes \<Rightarrow> bytes" where
  "encode_bytes_for_index b = concat (map escape_byte b) @ [0, 0]"

definition encode_str_for_index :: "bytes \<Rightarrow> bytes" where
  "encode_str_for_index s = encode_bytes_for_index s"

text \<open>The terms of the full-text index (\<^verbatim>\<open>fulltext/mod.rs\<close>), and the bytes every term with a given beginning starts with.\<close>

definition encode_term :: "bytes \<Rightarrow> bytes" where
  "encode_term t = encode_str_for_index t"

definition encode_term_prefix :: "bytes \<Rightarrow> bytes" where
  "encode_term_prefix p = (let bs = encode_term p in take (length bs - 2) bs)"

lemma encode_bytes_Nil [simp]: "encode_bytes_for_index [] = [0, 0]"
  by (simp add: encode_bytes_for_index_def)

lemma encode_bytes_Cons [simp]:
  "encode_bytes_for_index (x # xs) = escape_byte x @ encode_bytes_for_index xs"
  by (simp add: encode_bytes_for_index_def)

lemma byte_pos: "0 < (x :: byte) \<longleftrightarrow> x \<noteq> 0"
  by (auto simp: word_gt_0)

lemma escape_byte_less:
  "escape_byte x @ r < escape_byte y @ q \<longleftrightarrow> x < y \<or> x = y \<and> r < q"
  by (auto simp: escape_byte_def byte_pos)

lemma encode_bytes_less:
  "encode_bytes_for_index a < encode_bytes_for_index b \<longleftrightarrow> a < b"
proof (induction a arbitrary: b)
  case Nil
  then show ?case by (cases b) (auto simp: escape_byte_def byte_pos)
next
  case (Cons x a)
  show ?case
  proof (cases b)
    case Nil
    then show ?thesis by (auto simp: escape_byte_def)
  next
    case (Cons y b')
    then show ?thesis using Cons.IH [of b'] by (simp add: escape_byte_less)
  qed
qed

text \<open>The terminator delimits the value: an encoded value is never a prefix of another one.\<close>

lemma encode_bytes_prefix:
  "prefix (encode_bytes_for_index a) (encode_bytes_for_index b @ r) \<longleftrightarrow> a = b"
proof (induction a arbitrary: b)
  case Nil
  then show ?case by (cases b) (auto simp: escape_byte_def)
next
  case (Cons x a)
  show ?case
  proof (cases b)
    case Nil
    then show ?thesis by (auto simp: escape_byte_def)
  next
    case (Cons y b')
    then show ?thesis using Cons.IH [of b'] by (auto simp: escape_byte_def)
  qed
qed

lemma encode_term_prefix_escaped: "encode_term_prefix p = concat (map escape_byte p)"
  by (simp add: encode_term_prefix_def encode_term_def encode_str_for_index_def encode_bytes_for_index_def)

lemma escaped_prefix:
  "prefix (concat (map escape_byte p)) (encode_bytes_for_index b @ r) \<longleftrightarrow> prefix p b"
proof (induction p arbitrary: b)
  case (Cons x p)
  show ?case
  proof (cases b)
    case Nil
    then show ?thesis by (simp add: escape_byte_def)
  next
    case (Cons y b')
    then show ?thesis using Cons.IH [of b'] by (auto simp: escape_byte_def)
  qed
qed simp

lemma encode_bytes_inject [simp]:
  "encode_bytes_for_index a = encode_bytes_for_index b \<longleftrightarrow> a = b"
  using encode_bytes_prefix [of a b "[]"] encode_bytes_prefix [of b a "[]"] by auto

lemma suffix_encode_bytes: "suffix [0, 0] (encode_bytes_for_index a)"
  by (simp add: encode_bytes_for_index_def suffix_def)

section \<open>Integers, booleans and floats in eight bytes\<close>

text \<open>The constant \<^verbatim>\<open>0x8000_0000_0000_0000\<close>.\<close>

definition sign_bit64 :: u64 where
  "sign_bit64 = push_bit 63 1"

definition encode_int_for_zone :: "'j Value \<Rightarrow> bytes option" where
  "encode_int_for_zone v = (case v of
       VU32 n \<Rightarrow> Some (u64_be (ucast n))
     | VU64 n \<Rightarrow> Some (u64_be n)
     | VI32 n \<Rightarrow> Some (u64_be (scast n XOR sign_bit64))
     | VI64 n \<Rightarrow> Some (u64_be (n XOR sign_bit64))
     | VDateTime n \<Rightarrow> Some (u64_be (n XOR sign_bit64))
     | _ \<Rightarrow> None)"

definition encode_bool_for_index :: "'j Value \<Rightarrow> bytes option" where
  "encode_bool_for_index v = (case v of
       VBool b \<Rightarrow> Some ([0, 0, 0, 0, 0, 0, 0] @ [if b then 1 else 0])
     | _ \<Rightarrow> None)"

definition encode_f64_for_index :: "u64 \<Rightarrow> bytes" where
  "encode_f64_for_index bits =
     u64_be (if bits AND sign_bit64 \<noteq> 0 then NOT bits else bits XOR sign_bit64)"

text \<open>The top bit of a word as a comparison, and flipping it as an addition modulo \<open>2 ^ 64\<close>.\<close>

lemma bit63_iff: "bit w 63 \<longleftrightarrow> 2 ^ 63 \<le> unat w" for w :: u64
proof -
  have "unat w < 2 * 2 ^ 63" using unsigned_less [of w] by simp
  then have "unat w div 2 ^ 63 < 2" by (rule less_mult_imp_div_less)
  then have "odd (unat w div 2 ^ 63) \<longleftrightarrow> 1 \<le> unat w div 2 ^ 63"
    by (auto simp: less_2_cases_iff)
  also have "\<dots> \<longleftrightarrow> 2 ^ 63 \<le> unat w" by (simp add: Suc_le_eq div_greater_zero_iff)
  finally have "bit (unat w) 63 \<longleftrightarrow> 2 ^ 63 \<le> unat w" by (simp only: bit_iff_odd)
  then show ?thesis by (simp add: bit_unsigned_iff)
qed

lemma bit_sign_bit64: "bit sign_bit64 n \<longleftrightarrow> n = 63"
  unfolding sign_bit64_def by (auto simp only: bit_push_bit_iff bit_1_iff) simp_all

lemma unat_sign_bit64: "unat sign_bit64 = 2 ^ 63"
  by (simp add: sign_bit64_def)

lemma and_sign_bit: "w AND sign_bit64 = (if bit w 63 then sign_bit64 else 0)"
  by (rule bit_eqI) (auto simp: bit_and_iff bit_sign_bit64)

lemma xor_sign_bit: "w XOR sign_bit64 = w + sign_bit64"
proof (cases "bit w 63")
  case True
  then have "NOT w AND sign_bit64 = 0"
    by (intro bit_eqI) (auto simp: bit_and_iff bit_not_iff bit_sign_bit64)
  then have "w - sign_bit64 = w XOR sign_bit64"
    by (simp only: disjunctive_diff_eq_and_not disjunctive_and_not_eq_xor)
  moreover have "w - sign_bit64 = w + sign_bit64"
    by (simp add: sign_bit64_def)
  ultimately show ?thesis by simp
next
  case False
  then have "w AND sign_bit64 = 0" by (simp add: and_sign_bit)
  then show ?thesis by (rule disjunctive_add_eq_xor [symmetric])
qed

lemma unat_xor_sign_bit:
  "unat (w XOR sign_bit64) = (if unat w < 2 ^ 63 then unat w + 2 ^ 63 else unat w - 2 ^ 63)"
proof -
  have "unat (w XOR sign_bit64) = (unat w + 2 ^ 63) mod 2 ^ 64"
    by (simp add: xor_sign_bit unat_word_ariths unat_sign_bit64)
  moreover have "unat w < 2 ^ 64" using unsigned_less [of w] by simp
  ultimately show ?thesis by (simp add: mod_if)
qed

lemma sint_via_unat: "sint w = (if unat w < 2 ^ 63 then int (unat w) else int (unat w) - 2 ^ 64)"
  for w :: u64
proof -
  have neg: "sint w < 0 \<longleftrightarrow> 2 ^ 63 \<le> unat w"
    using bit63_iff [of w] bit_last_iff [of w] by simp
  have range: "- (2 ^ 63) \<le> sint w" "sint w < 2 ^ 63"
    using sint_greater_eq [of w] sint_less [of w] by simp_all
  have u: "int (unat w) = sint w mod 2 ^ 64"
    using uint_sint [of w] by (simp add: take_bit_eq_mod)
  show ?thesis
  proof (cases "sint w < 0")
    case True
    have "sint w mod 2 ^ 64 = (sint w + 2 ^ 64) mod 2 ^ 64" by simp
    also have "\<dots> = sint w + 2 ^ 64" using True range by (intro mod_pos_pos_trivial) auto
    finally show ?thesis using True neg u by simp
  next
    case False
    then have "sint w mod 2 ^ 64 = sint w" using range by (intro mod_pos_pos_trivial) auto
    then show ?thesis using False neg u by simp
  qed
qed

lemma flip_sign_order: "v XOR sign_bit64 < w XOR sign_bit64 \<longleftrightarrow> sint v < sint w" for v w :: u64
proof -
  obtain x y where xy: "unat v = x" "unat w = y" by blast
  have "x < 2 ^ 64" "y < 2 ^ 64"
    using unat_u64_less [of v] unat_u64_less [of w] xy by simp_all
  then show ?thesis
    by (simp only: word_less_nat_alt unat_xor_sign_bit sint_via_unat xy) auto
qed

lemma encode_f64_cases:
  "encode_f64_for_index a < encode_f64_for_index b \<longleftrightarrow>
     f64_order_key a < f64_order_key b \<or> (a = sign_bit64 \<and> b = 0)"
proof -
  obtain x y where xy: "unat a = x" "unat b = y" by blast
  have lim: "x < 2 ^ 64" "y < 2 ^ 64"
    using unat_u64_less [of a] unat_u64_less [of b] xy by simp_all
  have enc: "encode_f64_for_index w =
      u64_be (if unat w < 2 ^ 63 then w XOR sign_bit64 else NOT w)" for w
    using bit_sign_bit64 [of 63]
    by (auto simp: encode_f64_for_index_def and_sign_bit bit63_iff simp flip: linorder_not_less)
  have z: "a = sign_bit64 \<and> b = 0 \<longleftrightarrow> x = 2 ^ 63 \<and> y = 0"
    using unat_sign_bit64 xy by (metis word_unat_eq_iff unat_0)
  show ?thesis
    unfolding z enc f64_order_key_def using lim
    by (simp only: u64_be_less word_less_nat_alt xy unat_xor_sign_bit unat_not_eq if_distrib [of unat]) auto
qed

section \<open>Properties\<close>

text \<open>the variable-length index encoding keeps the byte order of the values, and the encoding of
  a value followed by anything starts with the encoding of another value only if the two are equal,
  so an equality scan by encoded prefix has no false positives.\<close>

theorem index_bytes_order_and_delimiter:
  "(encode_bytes_for_index a < encode_bytes_for_index b \<longleftrightarrow> a < b)
   \<and> (prefix (encode_bytes_for_index a) (encode_bytes_for_index b @ object_id) \<longleftrightarrow> a = b)
   \<and> encode_bytes_for_index [] \<le> encode_bytes_for_index b"
proof (intro conjI)
  have "[] \<le> b" by simp
  then show "encode_bytes_for_index [] \<le> encode_bytes_for_index b"
    using encode_bytes_less [of "[]" b] by (cases b) (auto simp del: encode_bytes_Nil encode_bytes_Cons)
qed (rule encode_bytes_less, rule encode_bytes_prefix)

text \<open>The integer a value stands for.\<close>

fun int_of_value :: "'j Value \<Rightarrow> int option" where
  "int_of_value (VU32 n) = Some (uint n)"
| "int_of_value (VU64 n) = Some (uint n)"
| "int_of_value (VI32 n) = Some (sint n)"
| "int_of_value (VI64 n) = Some (sint n)"
| "int_of_value (VDateTime n) = Some (sint n)"
| "int_of_value _ = None"

fun signed_kind :: "'j Value \<Rightarrow> bool" where
  "signed_kind (VI32 _) = True"
| "signed_kind (VI64 _) = True"
| "signed_kind (VDateTime _) = True"
| "signed_kind _ = False"

lemma sint_scast_up: "sint (scast n :: u64) = sint (n :: u32)"
  by (rule sint_up_scast) (simp add: is_up)

lemma uint_ucast_up: "uint (ucast n :: u64) = uint (n :: u32)"
  by (rule uint_up_ucast) (simp add: is_up)

text \<open>for integer and timestamp values of one signedness the eight encoded bytes sort as the
  integers do, so zone bounds and index ranges over encoded bytes are ranges over the numbers.\<close>

theorem int_zone_order:
  assumes "encode_int_for_zone a = Some x" and "encode_int_for_zone b = Some y"
    and "signed_kind a \<longleftrightarrow> signed_kind b"
  shows "x < y \<longleftrightarrow> the (int_of_value a) < the (int_of_value b)"
  using assms
  by (cases a; cases b)
     (auto simp: encode_int_for_zone_def flip_sign_order [unfolded word_less_def] sint_scast_up
       word_less_def uint_ucast_up)

theorem int_zone_order_witness:
  "u64_be ((- 1) XOR sign_bit64) < u64_be (1 XOR sign_bit64) \<longleftrightarrow>
   the (int_of_value (VI64 (- 1) :: nat Value)) < the (int_of_value (VI64 1 :: nat Value))"
  by (rule int_zone_order) (simp_all add: encode_int_for_zone_def)

text \<open>on doubles that are not NaN the encoded bytes sort as the numbers do, except that the two
  zeros, which compare equal as numbers, get different encodings, with \<open>-0.0\<close> first.\<close>

theorem f64_index_order:
  "encode_f64_for_index a < encode_f64_for_index b \<longleftrightarrow>
     f64_order_key a < f64_order_key b \<or> (a = sign_bit64 \<and> b = 0)"
  by (rule encode_f64_cases)

end
