(* ===== verification/Keyspace.thy ===== *)
theory Keyspace
  imports Index_Encoding
begin

text \<open>
  The contract of the key layer, over all its constructors at once. A logical key is a value of
  \<open>store_key\<close>; \<open>encode_key\<close> is the \<^verbatim>\<open>KeyBuilder\<close> constructor it is stored under; a scan is a
  value of \<open>store_scan\<close> with its prefix. The lemmas: distinct logical keys never collide, and a
  prefix scan matches exactly the logical keys it is meant to enumerate.
  A field is indexed either in the fixed-width or in the variable-length layout
  (\<^verbatim>\<open>IndexedKind\<close>); \<open>is_var\<close> says which, as the engine's schema does.
\<close>

section \<open>Logical keys and scans\<close>

datatype store_key =
    KObject u64 u64 | KEdge u64 u64 u64 | KReverseEdge u64 u64 u64 | KVector u64 u64 u64
  | KUnique u64 u64 bytes | KFieldIndex u64 u64 bytes u64 | KFieldIndexVar u64 u64 bytes u64
  | KPosting u64 u64 u32 bytes u64 | KDoc u64 u64 u32 u64 | KQueue u64
  | KVectorState u64 u64 u64 | KGeneration u64 u64
  | KCatFormat | KCatInitialized | KCatMetadata | KCatDigest
  | KCatType bytes | KCatField bytes bytes | KCatRel bytes bytes
  | KCatNextType | KCatNextField | KCatNextRel | KCatNextMigration | KCatMigrationVersion
  | KCatMigrationLog u64 | KCatMigrationPlan u64 | KCatCursor u64 u8
  | KCatFulltextMarker u64 u64 | KCatQuarantine u64 u64

fun encode_key :: "store_key \<Rightarrow> bytes" where
  "encode_key (KObject t i) = kb_object t i"
| "encode_key (KEdge s r t) = kb_edge s r t"
| "encode_key (KReverseEdge t r s) = kb_reverse_edge t r s"
| "encode_key (KVector t i f) = kb_vector t i f"
| "encode_key (KUnique t f v) = kb_unique_index t f v"
| "encode_key (KFieldIndex t f v i) = kb_field_index t f v i"
| "encode_key (KFieldIndexVar t f b i) = kb_field_index_var t f (encode_bytes_for_index b) i"
| "encode_key (KPosting t f g b i) = kb_fulltext_posting t f g (encode_bytes_for_index b) i"
| "encode_key (KDoc t f g i) = kb_fulltext_doc t f g i"
| "encode_key (KQueue j) = kb_queue_entry j"
| "encode_key (KVectorState t i f) = kb_vector_state t i f"
| "encode_key (KGeneration t i) = kb_object_version t i"
| "encode_key KCatFormat = kb_catalog_format"
| "encode_key KCatInitialized = kb_catalog_initialized"
| "encode_key KCatMetadata = kb_catalog_metadata"
| "encode_key KCatDigest = kb_catalog_digest"
| "encode_key (KCatType n) = kb_catalog_type n"
| "encode_key (KCatField n m) = kb_catalog_field n m"
| "encode_key (KCatRel n m) = kb_catalog_rel n m"
| "encode_key KCatNextType = kb_catalog_next_type"
| "encode_key KCatNextField = kb_catalog_next_field"
| "encode_key KCatNextRel = kb_catalog_next_rel"
| "encode_key KCatNextMigration = kb_catalog_next_migration"
| "encode_key KCatMigrationVersion = kb_catalog_migration_version"
| "encode_key (KCatMigrationLog n) = kb_catalog_migration_log n"
| "encode_key (KCatMigrationPlan p) = kb_catalog_migration_plan p"
| "encode_key (KCatCursor p i) = kb_catalog_partition_cursor p i"
| "encode_key (KCatFulltextMarker t f) = kb_catalog_fulltext_marker t f"
| "encode_key (KCatQuarantine p i) = kb_catalog_quarantine p i"

text \<open>
  Well-formed logical keys: fixed-width index values have eight bytes, a field uses one index
  layout, and a type name holds no NUL (the \<^verbatim>\<open>debug_assert!\<close> of \<^verbatim>\<open>catalog_field\<close>).
\<close>

fun wf_key :: "(u64 \<Rightarrow> u64 \<Rightarrow> bool) \<Rightarrow> store_key \<Rightarrow> bool" where
  "wf_key is_var (KFieldIndex t f v i) \<longleftrightarrow> length v = 8 \<and> \<not> is_var t f"
| "wf_key is_var (KFieldIndexVar t f b i) \<longleftrightarrow> is_var t f"
| "wf_key is_var (KCatField n m) \<longleftrightarrow> 0 \<notin> set n"
| "wf_key is_var (KCatRel n m) \<longleftrightarrow> 0 \<notin> set n"
| "wf_key is_var _ \<longleftrightarrow> True"

datatype store_scan =
    SAllObjects | SAllEdges | SObjects u64 | SEdges u64 u64 | SReverseEdges u64 u64 | SVectors u64
  | SField u64 u64 | SFieldValue u64 u64 bytes | SFieldVarValue u64 u64 bytes
  | STerm u64 u64 u32 bytes | STermPrefix u64 u64 u32 bytes | SPostings u64 u64 u32 | SPostingsAll u64 u64
  | SDocs u64 u64 u32 | SDocsAll u64 u64 | SQueue | SQueueWindow u64
  | SVectorStates u64 | SGenerations
  | SCatTypes | SCatFields | SCatRels | SCatAll | SCatMigrationLog | SCatMigrationPlans
  | SCatCursors | SCatCursorsOf u64 | SCatMarkers | SCatQuarantine | SCatQuarantineOf u64

fun scan_bytes :: "store_scan \<Rightarrow> bytes" where
  "scan_bytes SAllObjects = kb_all_objects_prefix"
| "scan_bytes SAllEdges = kb_all_edges_prefix"
| "scan_bytes (SObjects t) = kb_object_prefix t"
| "scan_bytes (SEdges s r) = kb_edge_prefix s r"
| "scan_bytes (SReverseEdges t r) = kb_reverse_edge_prefix t r"
| "scan_bytes (SVectors t) = kb_vector_prefix t"
| "scan_bytes (SField t f) = kb_field_index_prefix t f"
| "scan_bytes (SFieldValue t f v) = kb_field_index_value_prefix t f v"
| "scan_bytes (SFieldVarValue t f b) = kb_field_index_var_value_prefix t f (encode_bytes_for_index b)"
| "scan_bytes (STerm t f g b) = kb_fulltext_term_prefix t f g (encode_bytes_for_index b)"
| "scan_bytes (STermPrefix t f g p) = kb_fulltext_term_prefix t f g (encode_term_prefix p)"
| "scan_bytes (SPostings t f g) = kb_fulltext_field_prefix t f g"
| "scan_bytes (SPostingsAll t f) = kb_fulltext_field_all_generations_prefix t f"
| "scan_bytes (SDocs t f g) = kb_fulltext_doc_prefix t f g"
| "scan_bytes (SDocsAll t f) = kb_fulltext_doc_all_generations_prefix t f"
| "scan_bytes SQueue = kb_queue_prefix"
| "scan_bytes (SQueueWindow w) = kb_queue_window_prefix w"
| "scan_bytes (SVectorStates t) = kb_vector_state_type_prefix t"
| "scan_bytes SGenerations = kb_object_version_prefix"
| "scan_bytes SCatTypes = kb_catalog_prefix_type"
| "scan_bytes SCatFields = kb_catalog_prefix_field"
| "scan_bytes SCatRels = kb_catalog_prefix_rel"
| "scan_bytes SCatAll = kb_catalog_prefix_all"
| "scan_bytes SCatMigrationLog = kb_catalog_migration_log_prefix"
| "scan_bytes SCatMigrationPlans = kb_catalog_migration_plan_prefix"
| "scan_bytes SCatCursors = kb_catalog_partition_cursor_prefix"
| "scan_bytes (SCatCursorsOf p) = kb_catalog_partition_cursor_plan_prefix p"
| "scan_bytes SCatMarkers = kb_catalog_fulltext_marker_prefix"
| "scan_bytes SCatQuarantine = kb_catalog_quarantine_prefix"
| "scan_bytes (SCatQuarantineOf p) = kb_catalog_quarantine_plan_prefix p"

text \<open>What a scan is meant to enumerate.\<close>

fun is_catalog :: "store_key \<Rightarrow> bool" where
  "is_catalog (KObject _ _) = False"
| "is_catalog (KEdge _ _ _) = False"
| "is_catalog (KReverseEdge _ _ _) = False"
| "is_catalog (KVector _ _ _) = False"
| "is_catalog (KUnique _ _ _) = False"
| "is_catalog (KFieldIndex _ _ _ _) = False"
| "is_catalog (KFieldIndexVar _ _ _ _) = False"
| "is_catalog (KPosting _ _ _ _ _) = False"
| "is_catalog (KDoc _ _ _ _) = False"
| "is_catalog (KQueue _) = False"
| "is_catalog (KVectorState _ _ _) = False"
| "is_catalog (KGeneration _ _) = False"
| "is_catalog _ = True"

fun matches :: "store_scan \<Rightarrow> store_key \<Rightarrow> bool" where
  "matches SAllObjects k \<longleftrightarrow> (\<exists>t i. k = KObject t i)"
| "matches SAllEdges k \<longleftrightarrow> (\<exists>s r t. k = KEdge s r t)"
| "matches (SObjects t) k \<longleftrightarrow> (\<exists>i. k = KObject t i)"
| "matches (SEdges s r) k \<longleftrightarrow> (\<exists>t. k = KEdge s r t)"
| "matches (SReverseEdges t r) k \<longleftrightarrow> (\<exists>s. k = KReverseEdge t r s)"
| "matches (SVectors t) k \<longleftrightarrow> (\<exists>i f. k = KVector t i f)"
| "matches (SField t f) k \<longleftrightarrow> (\<exists>v i. k = KFieldIndex t f v i) \<or> (\<exists>b i. k = KFieldIndexVar t f b i)"
| "matches (SFieldValue t f v) k \<longleftrightarrow> (\<exists>i. k = KFieldIndex t f v i)"
| "matches (SFieldVarValue t f b) k \<longleftrightarrow> (\<exists>i. k = KFieldIndexVar t f b i)"
| "matches (STerm t f g b) k \<longleftrightarrow> (\<exists>i. k = KPosting t f g b i)"
| "matches (STermPrefix t f g p) k \<longleftrightarrow> (\<exists>b i. k = KPosting t f g b i \<and> prefix p b)"
| "matches (SPostings t f g) k \<longleftrightarrow> (\<exists>b i. k = KPosting t f g b i)"
| "matches (SPostingsAll t f) k \<longleftrightarrow> (\<exists>g b i. k = KPosting t f g b i)"
| "matches (SDocs t f g) k \<longleftrightarrow> (\<exists>i. k = KDoc t f g i)"
| "matches (SDocsAll t f) k \<longleftrightarrow> (\<exists>g i. k = KDoc t f g i)"
| "matches SQueue k \<longleftrightarrow> (\<exists>j. k = KQueue j)"
| "matches (SQueueWindow w) k \<longleftrightarrow> (\<exists>j. k = KQueue j \<and> unat j div 256 = unat w)"
| "matches (SVectorStates t) k \<longleftrightarrow> (\<exists>i f. k = KVectorState t i f)"
| "matches SGenerations k \<longleftrightarrow> (\<exists>t i. k = KGeneration t i)"
| "matches SCatTypes k \<longleftrightarrow> (\<exists>n. k = KCatType n)"
| "matches SCatFields k \<longleftrightarrow> (\<exists>n m. k = KCatField n m)"
| "matches SCatRels k \<longleftrightarrow> (\<exists>n m. k = KCatRel n m)"
| "matches SCatAll k \<longleftrightarrow> is_catalog k"
| "matches SCatMigrationLog k \<longleftrightarrow> (\<exists>n. k = KCatMigrationLog n)"
| "matches SCatMigrationPlans k \<longleftrightarrow> (\<exists>p. k = KCatMigrationPlan p)"
| "matches SCatCursors k \<longleftrightarrow> (\<exists>p i. k = KCatCursor p i)"
| "matches (SCatCursorsOf p) k \<longleftrightarrow> (\<exists>i. k = KCatCursor p i)"
| "matches SCatMarkers k \<longleftrightarrow> (\<exists>t f. k = KCatFulltextMarker t f)"
| "matches SCatQuarantine k \<longleftrightarrow> (\<exists>p i. k = KCatQuarantine p i)"
| "matches (SCatQuarantineOf p) k \<longleftrightarrow> (\<exists>i. k = KCatQuarantine p i)"

text \<open>A scan's own parameters: the value width, the index layout, a window that a job id can have.\<close>

fun wf_scan :: "(u64 \<Rightarrow> u64 \<Rightarrow> bool) \<Rightarrow> store_scan \<Rightarrow> bool" where
  "wf_scan is_var (SFieldValue t f v) \<longleftrightarrow> length v = 8 \<and> \<not> is_var t f"
| "wf_scan is_var (SFieldVarValue t f b) \<longleftrightarrow> is_var t f"
| "wf_scan is_var (SQueueWindow w) \<longleftrightarrow> unat w < 2 ^ 56"
| "wf_scan is_var _ \<longleftrightarrow> True"

section \<open>Distinct keys never collide\<close>

lemma nul_split:
  "0 \<notin> set a \<Longrightarrow> 0 \<notin> set b \<Longrightarrow> a @ 0 # x = b @ 0 # y \<longleftrightarrow> a = b \<and> x = (y :: bytes)"
  by (induction a arbitrary: b; case_tac b; auto)

lemma encode_bytes_id_inject:
  "encode_bytes_for_index a @ u64_be i = encode_bytes_for_index b @ u64_be j \<longleftrightarrow> a = b \<and> i = j"
  by (metis append_eq_append_conv c64.enc_inject encode_bytes_inject length_u64_be append_same_eq)

lemma encode_bytes_not_Nil [simp]: "encode_bytes_for_index b \<noteq> []"
  by (simp add: encode_bytes_for_index_def)

lemma encode_key_inject:
  "wf_key is_var a \<Longrightarrow> wf_key is_var b \<Longrightarrow> encode_key a = encode_key b \<Longrightarrow> a = b"
  by (cases a; cases b)
     (auto simp: layout SEPARATOR_def encode_bytes_id_inject nul_split)

section \<open>Scans are exact\<close>

lemma u64_be_snoc: "u64_be w = be_bytes 7 (unat w div 256) @ [of_nat (unat w)]"
proof -
  have "u64_be w = be_bytes (Suc 7) (unat w)" by (simp add: u64_be_def)
  then show ?thesis by (simp only: be_bytes.simps)
qed

lemma prefix_same_length: "length xs = length ys \<Longrightarrow> prefix xs (ys @ zs) \<longleftrightarrow> xs = ys"
  by (auto simp: prefix_def)

lemma queue_window_bytes:
  assumes "unat w < 2 ^ 56"
  shows "take 7 (u64_be (push_bit 8 w)) = be_bytes 7 (unat w)"
proof -
  have "unat (push_bit 8 w) = unat w * 256 mod 2 ^ 64"
    by (simp add: push_bit_eq_mult unat_word_ariths)
  also have "\<dots> = unat w * 256" using assms by simp
  finally have "unat (push_bit 8 w) div 256 = unat w" by simp
  then show ?thesis by (simp add: u64_be_snoc)
qed

lemma queue_window_matches:
  assumes "unat w < 2 ^ 56"
  shows "prefix (take 7 (u64_be (push_bit 8 w))) (u64_be j) \<longleftrightarrow> unat j div 256 = unat w"
proof -
  have "unat j div 256 < 256 ^ 7"
    using unat_u64_less [of j] by (simp add: less_mult_imp_div_less)
  with assms have "be_bytes 7 (unat w) = be_bytes 7 (unat j div 256) \<longleftrightarrow> unat w = unat j div 256"
    by (intro be_bytes_inject) simp_all
  moreover have "prefix (be_bytes 7 (unat w)) (be_bytes 7 (unat j div 256) @ [of_nat (unat j)]) \<longleftrightarrow>
      be_bytes 7 (unat w) = be_bytes 7 (unat j div 256)"
    by (rule prefix_same_length) simp
  ultimately show ?thesis
    by (simp only: queue_window_bytes [OF assms] u64_be_snoc [of j]) (rule eq_commute)
qed

lemma prefix_sep8:
  "length v = 8 \<Longrightarrow> length v' = 8 \<Longrightarrow> prefix (v @ c # xs) (v' @ c # ys) \<longleftrightarrow> v = v' \<and> prefix xs ys"
  by (auto simp: prefix_def)

lemma scan_exact_data:
  assumes "wf_key is_var k" and "wf_scan is_var sc"
  shows "prefix (scan_bytes sc) (encode_key k) \<longleftrightarrow> matches sc k"
  using assms
  by (cases sc; cases k)
     (auto simp: layout SEPARATOR_def encode_bytes_prefix encode_term_prefix_escaped escaped_prefix queue_window_matches prefix_sep8)

section \<open>Properties\<close>

text \<open>two well-formed logical keys of any of the stores (objects, edges, reverse edges, vectors,
  unique and field indexes, postings, queue, vector states, generations, catalog) have the same
  stored key only if they are the same logical key.\<close>

theorem keys_never_collide:
  assumes "wf_key is_var a" and "wf_key is_var b"
  shows "encode_key a = encode_key b \<longleftrightarrow> a = b"
  using assms encode_key_inject by blast

theorem keys_never_collide_witness:
  "encode_key (KCatField [85] [110]) = encode_key (KCatField [85, 110] []) \<longleftrightarrow>
   KCatField [85] [110] = KCatField [85, 110] []"
  by (rule keys_never_collide [where is_var = "\<lambda>_ _. False"]) simp_all

text \<open>C26: Every prefix that is scanned, the unterminated term prefix of a \<^verbatim>\<open>cam*\<close> search included, matches exactly the
  stored keys of the well-formed logical keys it is meant to enumerate: no key of another type, relation,
  field, term, generation, job window or catalog section is caught, and none of its own is missed.
  Well-formed means that a fixed-width index value has eight bytes, that a field is indexed in one of the two
  layouts, that type names in the catalog hold no NUL, and that a queue window is below \<open>2 ^ 56\<close>.\<close>

theorem scans_are_exact:
  assumes "wf_key is_var k" and "wf_scan is_var sc"
  shows "prefix (scan_bytes sc) (encode_key k) \<longleftrightarrow> matches sc k"
  using assms by (rule scan_exact_data)

theorem scans_are_exact_witness:
  "(prefix (scan_bytes (SQueueWindow 2)) (encode_key (KQueue 515)) \<longleftrightarrow> matches (SQueueWindow 2) (KQueue 515)) \<and>
   (prefix (scan_bytes (STermPrefix 1 2 0 [99, 97])) (encode_key (KPosting 1 2 0 [99, 97, 0] 7)) \<longleftrightarrow>
      matches (STermPrefix 1 2 0 [99, 97]) (KPosting 1 2 0 [99, 97, 0] 7))"
  using scans_are_exact [of "\<lambda>_ _. True" "KQueue 515" "SQueueWindow 2"]
    scans_are_exact [of "\<lambda>_ _. True" "KPosting 1 2 0 [99, 97, 0] 7" "STermPrefix 1 2 0 [99, 97]"] by simp

text \<open>The range an arena encoder returns, cut out of the arena, is what was appended.\<close>

lemma arena_slice_range:
  assumes "length buf + length k < 2 ^ 32"
  shows "arena_slice (arena_range buf (buf @ k)) = k"
proof -
  have "unat (of_nat (length buf) :: u32) = length buf"
    "unat (of_nat (length buf + length k) :: u32) = length buf + length k"
    using assms by (simp_all add: unat_of_nat del: of_nat_add)
  then show ?thesis by (simp add: arena_slice_def arena_range_def del: of_nat_add)
qed

lemma arena_slices:
  assumes "length buf + length value_bytes < 2 ^ 32 - 64"
  shows "arena_slice (kb_object_into buf t i) = kb_object t i"
    and "arena_slice (kb_edge_into buf t f i) = kb_edge t f i"
    and "arena_slice (kb_reverse_edge_into buf t f i) = kb_reverse_edge t f i"
    and "arena_slice (kb_object_version_into buf t i) = kb_object_version t i"
    and "arena_slice (kb_unique_index_into buf t f value_bytes) = kb_unique_index t f value_bytes"
    and "length value_bytes = 8 \<longrightarrow>
         arena_slice (kb_field_index_into buf t f value_bytes i) = kb_field_index t f value_bytes i"
    and "arena_slice (kb_field_index_var_into buf t f value_bytes i) = kb_field_index_var t f value_bytes i"
    and "arena_slice (kb_fulltext_posting_into buf t f g value_bytes i) =
         kb_fulltext_posting t f g value_bytes i"
    and "arena_slice (kb_fulltext_doc_into buf t f g i) = kb_fulltext_doc t f g i"
proof -
  have into: "kb_object_into buf t i = arena_range buf (buf @ kb_object t i)"
    "kb_edge_into buf t f i = arena_range buf (buf @ kb_edge t f i)"
    "kb_reverse_edge_into buf t f i = arena_range buf (buf @ kb_reverse_edge t f i)"
    "kb_object_version_into buf t i = arena_range buf (buf @ kb_object_version t i)"
    "kb_unique_index_into buf t f value_bytes = arena_range buf (buf @ kb_unique_index t f value_bytes)"
    "kb_field_index_into buf t f value_bytes i = arena_range buf (buf @ kb_field_index t f value_bytes i)"
    "kb_field_index_var_into buf t f value_bytes i =
       arena_range buf (buf @ kb_field_index_var t f value_bytes i)"
    "kb_fulltext_posting_into buf t f g value_bytes i =
       arena_range buf (buf @ kb_fulltext_posting t f g value_bytes i)"
    "kb_fulltext_doc_into buf t f g i = arena_range buf (buf @ kb_fulltext_doc t f g i)"
    by (simp_all add: layout kb_object_into_def kb_edge_into_def kb_reverse_edge_into_def
        kb_object_version_into_def kb_unique_index_into_def kb_field_index_into_def
        kb_field_index_var_into_def kb_fulltext_posting_into_def kb_fulltext_doc_into_def)
  note len = assms arena_slice_range
  show "arena_slice (kb_object_into buf t i) = kb_object t i"
    unfolding into using assms by (intro arena_slice_range) (simp add: layout)
  show "arena_slice (kb_edge_into buf t f i) = kb_edge t f i"
    unfolding into using assms by (intro arena_slice_range) (simp add: layout)
  show "arena_slice (kb_reverse_edge_into buf t f i) = kb_reverse_edge t f i"
    unfolding into using assms by (intro arena_slice_range) (simp add: layout)
  show "arena_slice (kb_object_version_into buf t i) = kb_object_version t i"
    unfolding into using assms by (intro arena_slice_range) (simp add: layout)
  show "arena_slice (kb_unique_index_into buf t f value_bytes) = kb_unique_index t f value_bytes"
    unfolding into using assms by (intro arena_slice_range) (simp add: layout)
  show "length value_bytes = 8 \<longrightarrow>
      arena_slice (kb_field_index_into buf t f value_bytes i) = kb_field_index t f value_bytes i"
    unfolding into using assms by (intro impI arena_slice_range) (simp add: layout)
  show "arena_slice (kb_field_index_var_into buf t f value_bytes i) = kb_field_index_var t f value_bytes i"
    unfolding into using assms by (intro arena_slice_range) (simp add: layout)
  show "arena_slice (kb_fulltext_posting_into buf t f g value_bytes i) =
      kb_fulltext_posting t f g value_bytes i"
    unfolding into using assms by (intro arena_slice_range) (simp add: layout)
  show "arena_slice (kb_fulltext_doc_into buf t f g i) = kb_fulltext_doc t f g i"
    unfolding into using assms by (intro arena_slice_range) (simp add: layout)
qed

text \<open>each arena encoder of the cascade-delete path writes the same bytes as the owned
  constructor of that key, and the range it returns cuts exactly that key out of the arena, as long
  as the arena stays below 4 GiB.\<close>

theorem arena_encoders_agree:
  assumes "length buf + length value_bytes < 2 ^ 32 - 72" and "length value8 = 8"
  shows "arena_slice (kb_object_into buf t i) = kb_object t i \<and>
    arena_slice (kb_edge_into buf t f i) = kb_edge t f i \<and>
    arena_slice (kb_reverse_edge_into buf t f i) = kb_reverse_edge t f i \<and>
    arena_slice (kb_object_version_into buf t i) = kb_object_version t i \<and>
    arena_slice (kb_unique_index_into buf t f value_bytes) = kb_unique_index t f value_bytes \<and>
    arena_slice (kb_field_index_into buf t f value8 i) = kb_field_index t f value8 i \<and>
    arena_slice (kb_field_index_var_into buf t f value_bytes i) = kb_field_index_var t f value_bytes i \<and>
    arena_slice (kb_fulltext_posting_into buf t f g value_bytes i) = kb_fulltext_posting t f g value_bytes i \<and>
    arena_slice (kb_fulltext_doc_into buf t f g i) = kb_fulltext_doc t f g i"
proof -
  have "length buf + length value_bytes < 2 ^ 32 - 64" "length buf + length value8 < 2 ^ 32 - 64"
    using assms by simp_all
  from arena_slices [OF this(1)] arena_slices(6) [OF this(2)] assms(2) show ?thesis by simp
qed

theorem arena_encoders_agree_witness:
  "arena_slice (kb_edge_into [1, 2, 3] 7 8 9) = kb_edge 7 8 9 \<and>
   arena_slice (kb_field_index_into [1, 2, 3] 7 8 (u64_be 5) 9) = kb_field_index 7 8 (u64_be 5) 9"
  using arena_encoders_agree [of "[1, 2, 3]" "[]" "u64_be 5" 7 9 8 0] by simp

lemma length_fulltext_head [simp]: "length (put_fulltext_prefix [] p t f g) = 25"
  by (simp add: put_fulltext_prefix_def)

lemma generation_fulltext_head [simp]:
  "take 4 (drop 20 (put_fulltext_prefix [] p t f g)) = u32_be g"
  by (simp add: put_fulltext_prefix_def drop_Cons')

lemma fulltext_posting_fields:
  assumes "suffix [0, 0] e"
  shows "kb_fulltext_object_id (kb_fulltext_posting t f g e i) = Some i"
    and "kb_fulltext_posting_term (kb_fulltext_posting t f g e i) = Some e"
    and "kb_fulltext_generation (kb_fulltext_posting t f g e i) = Some g"
proof -
  have "2 \<le> length e" using suffix_length_le [OF assms] by simp
  with assms show "kb_fulltext_object_id (kb_fulltext_posting t f g e i) = Some i"
    "kb_fulltext_posting_term (kb_fulltext_posting t f g e i) = Some e"
    "kb_fulltext_generation (kb_fulltext_posting t f g e i) = Some g"
    by (simp_all add: kb_fulltext_object_id_def kb_fulltext_posting_term_def Let_def
        kb_fulltext_generation_def FULLTEXT_PREFIX_LEN_def kb_fulltext_posting_def)
qed

text \<open>the accessors of full-text keys read back exactly what the constructors stored: the
  object id, the term with its terminator, and the index generation of a posting, the id and the
  generation of a document row, and the ids of a build marker; keys too short for the layout give
  no result.\<close>

theorem fulltext_accessors_roundtrip:
  shows "kb_fulltext_object_id (kb_fulltext_posting t f g (encode_bytes_for_index b) i) = Some i
    \<and> kb_fulltext_posting_term (kb_fulltext_posting t f g (encode_bytes_for_index b) i)
        = Some (encode_bytes_for_index b)
    \<and> kb_fulltext_generation (kb_fulltext_posting t f g (encode_bytes_for_index b) i) = Some g
    \<and> kb_fulltext_object_id (kb_fulltext_doc t f g i) = Some i
    \<and> kb_fulltext_generation (kb_fulltext_doc t f g i) = Some g
    \<and> kb_catalog_fulltext_marker_ids (kb_catalog_fulltext_marker t f) = Some (t, f)
    \<and> kb_fulltext_object_id (kb_object t i) = None"
proof (intro conjI)
  show "kb_fulltext_object_id (kb_fulltext_doc t f g i) = Some i"
    by (simp add: kb_fulltext_object_id_def FULLTEXT_PREFIX_LEN_def kb_fulltext_doc_def)
  show "kb_fulltext_generation (kb_fulltext_doc t f g i) = Some g"
    by (simp add: kb_fulltext_generation_def FULLTEXT_PREFIX_LEN_def kb_fulltext_doc_def)
  show "kb_catalog_fulltext_marker_ids (kb_catalog_fulltext_marker t f) = Some (t, f)"
    by (simp add: kb_catalog_fulltext_marker_ids_def kb_catalog_fulltext_marker_def)
  show "kb_fulltext_object_id (kb_object t i) = None"
    by (simp add: kb_fulltext_object_id_def FULLTEXT_PREFIX_LEN_def kb_object_def)
qed (rule fulltext_posting_fields [OF suffix_encode_bytes])+

end
