(* ===== verification/Versions.thy ===== *)
theory Versions
  imports Keys
begin

text \<open>
  The abstract specification of multi-version reads, shared by memtable, SST and LSM tree: a store
  holds entries (internal key, value or tombstone), and a read of a user key at a snapshot sees the
  entry of the newest version not above the snapshot. Also the conditions on user keys under which
  the sorted byte order of internal keys groups the versions of each key, and the interface
  (locale) through which the LSM tree reads a layer.
\<close>

text \<open>\<^verbatim>\<open>MemValue\<close>: \<open>None\<close> is a tombstone.\<close>

type_synonym memval = "bytes option"
type_synonym entry = "bytes \<times> memval"

section \<open>What a snapshot sees\<close>

fun newest :: "(u64 \<times> 'a) list \<Rightarrow> (u64 \<times> 'a) option" where
  "newest [] = None"
| "newest ((w, x) # r) = (case newest r of
      None \<Rightarrow> Some (w, x)
    | Some (w', x') \<Rightarrow> if w' \<le> w then Some (w, x) else Some (w', x'))"

definition versions_of :: "entry list \<Rightarrow> bytes \<Rightarrow> (u64 \<times> memval) list" where
  "versions_of es k = map (\<lambda>(ik, x). (ik_version ik, x))
     (filter (\<lambda>(ik, x). 8 \<le> length ik \<and> ik_user_key ik = k) es)"

definition visible :: "entry list \<Rightarrow> bytes \<Rightarrow> u64 \<Rightarrow> memval option" where
  "visible es k v = map_option snd (newest (filter (\<lambda>(w, x). w \<le> v) (versions_of es k)))"

lemma versions_of_append [simp]: "versions_of (a @ b) k = versions_of a k @ versions_of b k"
  by (simp add: versions_of_def)

lemma versions_of_Nil [simp]: "versions_of [] k = []"
  by (simp add: versions_of_def)

lemma newest_None [simp]: "newest xs = None \<longleftrightarrow> xs = []"
  by (cases xs) (auto split: option.splits)

lemma newest_Some: "newest xs = Some (w, x) \<Longrightarrow> (w, x) \<in> set xs \<and> (\<forall>(w', x') \<in> set xs. w' \<le> w)"
proof (induction xs arbitrary: w x)
  case (Cons a xs)
  obtain u y where a: "a = (u, y)" by (cases a)
  show ?case
  proof (cases "newest xs")
    case None
    with Cons.prems a show ?thesis by simp
  next
    case (Some b)
    obtain w' x' where b: "b = (w', x')" by (cases b)
    from Cons.IH [of w' x'] Some b have IH: "(w', x') \<in> set xs" "\<forall>(z, y) \<in> set xs. z \<le> w'"
      by auto
    show ?thesis using Cons.prems IH a b Some by (auto split: if_splits dest: order_trans)
  qed
qed simp

lemma newest_dominated:
  assumes "newest a = Some (w, x)" and "\<forall>(w', x') \<in> set b. w' \<le> w"
  shows "newest (a @ b) = Some (w, x)"
  using assms
proof (induction a)
  case (Cons p a)
  obtain u y where p: "p = (u, y)" by (cases p)
  show ?case
  proof (cases "newest a")
    case None
    then have "a = []" "w = u" "x = y" using Cons.prems(1) by (simp_all add: p)
    then show ?thesis using newest_Some [of b] Cons.prems(2) by (auto simp: p split: option.splits)
  next
    case (Some q)
    obtain w1 x1 where q: "q = (w1, x1)" by (cases q)
    show ?thesis
    proof (cases "w1 \<le> u")
      case True
      then have wx: "w = u" "x = y" using Cons.prems(1) Some by (simp_all add: p q)
      have "w2 \<le> u" if "newest (a @ b) = Some (w2, x2)" for w2 x2
        using newest_Some [OF that] newest_Some [of a w1 x1] Some q True Cons.prems(2) wx by fastforce
      then show ?thesis by (auto simp: p wx split: option.splits)
    next
      case False
      then have "newest (a @ b) = Some (w, x)" using Cons Some by (simp add: p q)
      moreover have "\<not> w \<le> u" using False Cons.prems(1) Some by (simp add: p q)
      ultimately show ?thesis by (simp add: p)
    qed
  qed
qed simp

text \<open>
  Probing the newer store first is reading the two together, when the newer store has every version
  of a key that is above one of its own versions of that key.
\<close>

lemma visible_append:
  assumes "\<And>w x w' x'. (w, x) \<in> set (versions_of a k) \<Longrightarrow> (w', x') \<in> set (versions_of b k) \<Longrightarrow> w < w' \<Longrightarrow>
    (w', x') \<in> set (versions_of a k)"
  shows "visible (a @ b) k v = (case visible a k v of Some x \<Rightarrow> Some x | None \<Rightarrow> visible b k v)"
proof (cases "newest (filter (\<lambda>(w, x). w \<le> v) (versions_of a k))")
  case None
  then show ?thesis by (simp add: visible_def)
next
  case (Some p)
  obtain w x where p: "p = (w, x)" by (cases p)
  let ?a = "filter (\<lambda>(w, x). w \<le> v) (versions_of a k)"
  note n = newest_Some [OF Some [unfolded p]]
  have "\<forall>(w', x') \<in> set (filter (\<lambda>(w, x). w \<le> v) (versions_of b k)). w' \<le> w"
  proof clarsimp
    fix w' x'
    assume b: "(w', x') \<in> set (versions_of b k)" "w' \<le> v"
    show "w' \<le> w"
    proof (rule ccontr)
      assume "\<not> w' \<le> w"
      then have "(w', x') \<in> set ?a" using assms [of w x w' x'] b n by auto
      with n \<open>\<not> w' \<le> w\<close> show False by fastforce
    qed
  qed
  from newest_dominated [OF Some [unfolded p] this] Some show ?thesis by (simp add: visible_def p)
qed

section \<open>Sorted entry lists\<close>

abbreviation sorted_entries :: "entry list \<Rightarrow> bool" where
  "sorted_entries es \<equiv> sorted_wrt (<) (map fst es)"

definition wanted :: "bytes \<Rightarrow> u64 \<Rightarrow> entry \<Rightarrow> bool" where
  "wanted k v e \<longleftrightarrow> 8 \<le> length (fst e) \<and> ik_user_key (fst e) = k \<and> ik_version (fst e) \<le> v"

lemma visible_Cons_other: "\<not> wanted k v e \<Longrightarrow> visible (e # es) k v = visible es k v"
  by (cases e) (auto simp: visible_def versions_of_def wanted_def)

lemma visible_Cons_wanted:
  assumes "wanted k v e" and "sorted_entries (e # es)"
  shows "visible (e # es) k v = Some (snd e)"
proof -
  obtain ik x where e: "e = (ik, x)" by (cases e)
  have ik: "ik = internal_key k (ik_version ik)" "8 \<le> length ik" "ik_user_key ik = k"
    using assms(1) internal_key_collapse [of ik] by (auto simp: wanted_def e)
  have older: "w \<le> ik_version ik" if "(w, y) \<in> set (versions_of es k)" for w y
  proof -
    from that obtain jk where jk: "(jk, y) \<in> set es" "8 \<le> length jk" "ik_user_key jk = k"
        "w = ik_version jk"
      by (auto simp: versions_of_def)
    then have "jk = internal_key k w" using internal_key_collapse [of jk] by simp
    moreover have "ik < jk" using assms(2) jk(1) by (force simp: e)
    ultimately have "w < ik_version ik" using ik(1) internal_key_less_same by metis
    then show ?thesis by simp
  qed
  have "newest ((ik_version ik, x) # filter (\<lambda>(w, x). w \<le> v) (versions_of es k)) =
        Some (ik_version ik, x)"
    using newest_dominated [of "[(ik_version ik, x)]" "ik_version ik" x "filter (\<lambda>(w, x). w \<le> v) (versions_of es k)"]
      older by fastforce
  then show ?thesis
    using assms(1) ik by (simp add: visible_def versions_of_def wanted_def e)
qed

text \<open>In a sorted store the visible entry is the first one a forward scan meets.\<close>

lemma visible_find:
  "sorted_entries es \<Longrightarrow> visible es k v = map_option snd (find (wanted k v) es)"
proof (induction es)
  case (Cons e es)
  then show ?case
    by (cases "wanted k v e") (auto simp: visible_Cons_wanted visible_Cons_other)
qed (simp add: visible_def)

text \<open>The same reading of a sorted store, by point lookups of its internal keys.\<close>

lemma visible_Some_iff:
  "sorted_entries es \<Longrightarrow> visible es k v = Some x \<longleftrightarrow>
    (\<exists>w \<le> v. map_of es (internal_key k w) = Some x \<and>
       (\<forall>u. w < u \<and> u \<le> v \<longrightarrow> map_of es (internal_key k u) = None))"
proof (induction es)
  case (Cons e es)
  obtain ik y where e: "e = (ik, y)" by (cases e)
  show ?case
  proof (cases "wanted k v e")
    case True
    let ?w = "ik_version ik"
    have ik: "ik = internal_key k ?w" "?w \<le> v"
      using True internal_key_collapse [of ik] by (auto simp: wanted_def e)
    have gone: "map_of (e # es) (internal_key k u) = None" if "?w < u" for u
    proof -
      have "internal_key k u < ik" using that ik(1) internal_key_less_same by metis
      moreover have "ik < jk" if "jk \<in> fst ` set es" for jk using Cons.prems that by (auto simp: e)
      ultimately show ?thesis by (auto simp: e map_of_eq_None_iff) (metis image_eqI fst_conv not_less_iff_gr_or_eq)
    qed
    have here: "map_of (e # es) (internal_key k ?w) = Some y" using ik(1) by (simp add: e)
    have "visible (e # es) k v = Some y" using visible_Cons_wanted [OF True Cons.prems] by (simp add: e)
    moreover have "w = ?w"
      if "map_of (e # es) (internal_key k w) = Some z" "w \<le> v"
        "\<forall>u. w < u \<and> u \<le> v \<longrightarrow> map_of (e # es) (internal_key k u) = None" for w z
      using that here gone ik(2) by (metis not_less_iff_gr_or_eq option.distinct(1))
    ultimately show ?thesis using here gone ik(2) by (metis option.inject)
  next
    case False
    have "map_of (e # es) (internal_key k u) = map_of es (internal_key k u)" if "u \<le> v" for u
      using False that by (auto simp: wanted_def e)
    then have "(\<exists>w \<le> v. map_of (e # es) (internal_key k w) = Some x \<and>
         (\<forall>u. w < u \<and> u \<le> v \<longrightarrow> map_of (e # es) (internal_key k u) = None)) \<longleftrightarrow>
       (\<exists>w \<le> v. map_of es (internal_key k w) = Some x \<and>
         (\<forall>u. w < u \<and> u \<le> v \<longrightarrow> map_of es (internal_key k u) = None))"
      by metis
    with False Cons show ?thesis by (simp add: visible_Cons_other)
  qed
qed (simp add: visible_def)

lemma visible_cong_map_of:
  assumes "sorted_entries es" and "sorted_entries es'"
    and "\<And>w. w \<le> v \<Longrightarrow> map_of es (internal_key k w) = map_of es' (internal_key k w)"
  shows "visible es k v = visible es' k v"
proof (rule option.expand)
  have eq: "visible es k v = Some x \<longleftrightarrow> visible es' k v = Some x" for x
    using assms(3) by (auto simp: visible_Some_iff [OF assms(1)] visible_Some_iff [OF assms(2)])
  then show "(visible es k v = None) = (visible es' k v = None)" by (metis not_None_eq)
  show "visible es k v \<noteq> None \<Longrightarrow> visible es' k v \<noteq> None \<Longrightarrow>
        the (visible es k v) = the (visible es' k v)"
    using eq by (metis option.exhaust_sel option.sel)
qed

section \<open>Keys whose versions stay together\<close>

text \<open>
  Two user keys are compatible when neither continues the other with the byte \<open>0xFF\<close>, the first
  byte of every complemented version below \<open>2 ^ 56\<close>. UTF-8 text never contains \<open>0xFF\<close>.
\<close>

definition ff_compat :: "bytes \<Rightarrow> bytes \<Rightarrow> bool" where
  "ff_compat k k' \<longleftrightarrow> \<not> prefix (k @ [255]) k' \<and> \<not> prefix (k' @ [255]) k"

definition entry_ok :: "entry \<Rightarrow> bool" where
  "entry_ok e \<longleftrightarrow> 8 \<le> length (fst e) \<and> ik_version (fst e) < 2 ^ 56"

lemma between_same_key:
  assumes ord: "internal_key k v \<le> internal_key j u" "internal_key j u \<le> internal_key k w"
    and lim: "v < 2 ^ 56" "u < 2 ^ 56" "w < 2 ^ 56" and ff: "ff_compat k j"
  shows "j = k"
proof (rule ccontr)
  assume "j \<noteq> k"
  obtain s t r where st: "u64_be (NOT v) = 255 # s" "u64_be (NOT w) = 255 # t" "u64_be (NOT u) = 255 # r"
    using lim hd_inverted_version by metis
  have "prefix k (internal_key k v)" "prefix k (internal_key k w)"
    by (simp_all add: internal_key_def)
  then have "prefix k (j @ 255 # r)"
    using prefix_convex [OF _ _ ord] by (simp add: internal_key_def st)
  then consider d where "j = k @ d" | d where "k = j @ d" "prefix d (255 # r)"
    by (auto simp: prefix_append prefix_def append_eq_append_conv2)
  then show False
  proof cases
    case (1 d)
    with \<open>j \<noteq> k\<close> obtain c d' where d: "j = k @ c # d'" by (cases d) auto
    have "255 # s \<le> c # d' @ 255 # r" "c # d' @ 255 # r \<le> 255 # t"
      using ord by (simp_all add: internal_key_def st d)
    then have "c = 255" by auto
    then show False using ff by (auto simp: ff_compat_def d prefix_def)
  next
    case (2 d)
    with \<open>j \<noteq> k\<close> obtain d' where "d = 255 # d'" by (cases d) auto
    then show False using ff 2 by (auto simp: ff_compat_def prefix_def)
  qed
qed

section \<open>Scans that keep the newest visible version of each key\<close>

text \<open>
  The reference scan: from a sorted list, the first visible entry of every run of equal user keys.
  Every scan of the storage layer remembers the user key it emitted last, as here.
\<close>

fun dedup_scan :: "u64 \<Rightarrow> bytes option \<Rightarrow> entry list \<Rightarrow> (bytes \<times> memval) list" where
  "dedup_scan v last_key [] = []"
| "dedup_scan v last_key ((ik, x) # es) =
     (if ik_version ik > v then dedup_scan v last_key es
      else if last_key = Some (ik_user_key ik) then dedup_scan v last_key es
      else (ik_user_key ik, x) # dedup_scan v (Some (ik_user_key ik)) es)"

definition user_keys :: "entry list \<Rightarrow> bytes list" where
  "user_keys es = map (\<lambda>e. ik_user_key (fst e)) es"

lemma user_keys_simps [simp]:
  "user_keys [] = []" "user_keys (e # es) = ik_user_key (fst e) # user_keys es"
  "user_keys (a @ b) = user_keys a @ user_keys b"
  by (simp_all add: user_keys_def)

definition long_keys :: "entry list \<Rightarrow> bool" where
  "long_keys es \<longleftrightarrow> (\<forall>e \<in> set es. 8 \<le> length (fst e))"

lemma long_keys_simps [simp]:
  "long_keys []" "long_keys (e # es) \<longleftrightarrow> 8 \<le> length (fst e) \<and> long_keys es"
  by (auto simp: long_keys_def)

lemma dedup_scan_keys: "k \<in> fst ` set (dedup_scan v l es) \<Longrightarrow> k \<in> set (user_keys es)"
  by (induction v l es rule: dedup_scan.induct) (auto split: if_splits)

lemma dedup_scan_lookup:
  "sorted_entries es \<Longrightarrow> long_keys es \<Longrightarrow> l \<noteq> Some k \<Longrightarrow>
   map_of (dedup_scan v l es) k = visible es k v"
proof (induction v l es rule: dedup_scan.induct)
  case (2 v l ik x es)
  have srt: "sorted_entries es" using "2.prems" by simp
  show ?case
  proof (cases "wanted k v (ik, x)")
    case True
    then show ?thesis
      using "2.prems" visible_Cons_wanted [OF True] by (auto simp: wanted_def)
  next
    case False
    then show ?thesis
      using "2.IH"(1-3) "2.prems" srt
      by (auto simp: visible_Cons_other wanted_def)
  qed
qed (simp add: visible_def)

text \<open>Runs of equal user keys: no key comes back after another one was seen.\<close>

fun grouped :: "'a list \<Rightarrow> bool" where
  "grouped [] = True"
| "grouped (k # ks) = (grouped ks \<and> (ks = [] \<or> hd ks = k \<or> k \<notin> set ks))"

lemma dedup_scan_distinct:
  "grouped (user_keys es) \<Longrightarrow>
   distinct (map fst (dedup_scan v l es)) \<and>
   (\<forall>k. l = Some k \<longrightarrow> (es = [] \<or> hd (user_keys es) = k \<or> k \<notin> set (user_keys es)) \<longrightarrow>
        k \<notin> fst ` set (dedup_scan v l es))"
proof (induction v l es rule: dedup_scan.induct)
  case (2 v l ik x es)
  let ?u = "ik_user_key ik"
  have g: "grouped (user_keys es)" "es = [] \<or> hd (user_keys es) = ?u \<or> ?u \<notin> set (user_keys es)"
    using "2.prems" by (auto simp: user_keys_def)
  have old: "k \<notin> fst ` set (dedup_scan v m es)" if "k \<notin> set (user_keys es)" for k m
    using that dedup_scan_keys by blast
  consider "ik_version ik > v" | "\<not> ik_version ik > v" "l = Some ?u"
    | "\<not> ik_version ik > v" "l \<noteq> Some ?u" by blast
  then show ?case
  proof cases
    case 1
    with "2.IH"(1) [OF 1 g(1)] g(2) old show ?thesis by (force simp: image_iff)
  next
    case 2
    with "2.IH"(2) [OF 2 g(1)] g(2) old show ?thesis by (force simp: image_iff)
  next
    case 3
    with "2.IH"(3) [OF 3 g(1)] g(2) old show ?thesis by (force simp: image_iff)
  qed
qed simp

definition compatible_keys :: "bytes list \<Rightarrow> bool" where
  "compatible_keys ks \<longleftrightarrow> (\<forall>k \<in> set ks. \<forall>j \<in> set ks. ff_compat k j)"

lemma grouped_sorted:
  assumes "sorted_entries es" and "\<forall>e \<in> set es. entry_ok e" and "compatible_keys (user_keys es)"
  shows "grouped (user_keys es)"
  using assms
proof (induction es)
  case (Cons e es)
  have IH: "grouped (user_keys es)"
    using Cons by (auto simp: compatible_keys_def)
  have "ik_user_key (fst (hd es)) = ik_user_key (fst e)"
    if ne: "es \<noteq> []" and again: "ik_user_key (fst e) \<in> set (user_keys es)"
  proof -
    obtain f where f: "f \<in> set es" "ik_user_key (fst f) = ik_user_key (fst e)"
      using again by (auto simp: user_keys_def)
    obtain h t where es: "es = h # t" using ne by (cases es) auto
    have ord: "fst e \<le> fst h" "fst h \<le> fst f"
      using Cons.prems(1) f(1) by (auto simp: es le_less)
    have ok: "entry_ok e" "entry_ok h" "entry_ok f" using Cons.prems(2) f(1) by (auto simp: es)
    have ff: "ff_compat (ik_user_key (fst e)) (ik_user_key (fst h))"
      using Cons.prems(3) by (auto simp: compatible_keys_def es user_keys_def)
    have "ik_user_key (fst h) = ik_user_key (fst e)"
    proof (rule between_same_key [OF _ _ _ _ _ ff])
      show "internal_key (ik_user_key (fst e)) (ik_version (fst e)) \<le>
            internal_key (ik_user_key (fst h)) (ik_version (fst h))"
        using ord ok by (simp add: internal_key_collapse entry_ok_def)
      show "internal_key (ik_user_key (fst h)) (ik_version (fst h)) \<le>
            internal_key (ik_user_key (fst e)) (ik_version (fst f))"
        using ord ok f(2) internal_key_collapse [of "fst f"]
        by (simp add: internal_key_collapse entry_ok_def)
    qed (use ok in \<open>simp_all add: entry_ok_def\<close>)
    then show ?thesis by (simp add: es)
  qed
  with IH show ?case by (cases es) auto
qed simp

lemma entry_ok_long: "\<forall>e \<in> set es. entry_ok e \<Longrightarrow> long_keys es"
  by (auto simp: long_keys_def entry_ok_def)

text \<open>Restricting a scan to some user keys, before or after.\<close>

abbreviation entry_key_pred :: "(bytes \<Rightarrow> bool) \<Rightarrow> entry \<Rightarrow> bool" where
  "entry_key_pred Q e \<equiv> Q (ik_user_key (fst e))"

lemma visible_filter:
  "visible (filter (entry_key_pred Q) es) k v = (if Q k then visible es k v else None)"
proof -
  have "versions_of (filter (entry_key_pred Q) es) k = (if Q k then versions_of es k else [])"
    by (induction es) (auto simp: versions_of_def)
  then show ?thesis by (simp add: visible_def)
qed

lemma dedup_scan_filter:
  "grouped (user_keys es) \<Longrightarrow>
   \<forall>k. l = Some k \<longrightarrow> es = [] \<or> hd (user_keys es) = k \<or> k \<notin> set (user_keys es) \<Longrightarrow>
   \<forall>k \<in> set (user_keys es). Q k \<longrightarrow> (l = Some k \<longleftrightarrow> l' = Some k) \<Longrightarrow>
   dedup_scan v l (filter (entry_key_pred Q) es) = filter (\<lambda>(k, x). Q k) (dedup_scan v l' es)"
proof (induction es arbitrary: l l')
  case (Cons e es)
  obtain ik x where e: "e = (ik, x)" by (cases e)
  let ?u = "ik_user_key ik"
  have g: "grouped (user_keys es)" "es = [] \<or> hd (user_keys es) = ?u \<or> ?u \<notin> set (user_keys es)"
    using Cons.prems(1) by (auto simp: user_keys_def e)
  have l: "\<forall>k. l = Some k \<longrightarrow> es = [] \<or> hd (user_keys es) = k \<or> k \<notin> set (user_keys es)"
    using Cons.prems(2) g(2) by (auto simp: e)
  have ll: "\<forall>k \<in> set (user_keys es). Q k \<longrightarrow> (l = Some k \<longleftrightarrow> l' = Some k)"
    using Cons.prems(3) by (simp add: e)
  show ?case
  proof (cases "Q ?u \<and> ik_version ik \<le> v \<and> l' \<noteq> Some ?u")
    case True
    then have "dedup_scan v (Some ?u) (filter (entry_key_pred Q) es) =
        filter (\<lambda>(k, x). Q k) (dedup_scan v (Some ?u) es)"
      using Cons.IH [OF g(1), of "Some ?u" "Some ?u"] g(2) by blast
    with True Cons.prems(3) show ?thesis by (auto simp: e dest: leD)
  next
    case False
    show ?thesis
    proof (cases "\<not> Q ?u \<and> ik_version ik \<le> v \<and> l' \<noteq> Some ?u")
      case True
      have "\<forall>k \<in> set (user_keys es). Q k \<longrightarrow> (l = Some k \<longleftrightarrow> Some ?u = Some k)"
        using Cons.prems(2) True by (auto simp: e)
      from Cons.IH [OF g(1) l this] True show ?thesis by (auto simp: e dest: leD)
    next
      case other: False
      with Cons.IH [OF g(1) l ll] False Cons.prems(3) show ?thesis by (auto simp: e not_le)
    qed
  qed
qed simp

end
