(* ===== verification/Bloom.thy ===== *)
theory Bloom
  imports Prelude
begin

text \<open>
  The bloom filter of \<^verbatim>\<open>rhypedb-storage/src/bloom.rs\<close>. The xxh3 hash comes from a third-party crate
  and is the parameter \<open>xxh3\<close> (key and seed to hash), of which no law is needed; FNV-1a is
  modelled. Indexing the bit array out of range panics in Rust, so \<open>add\<close> and \<open>contains\<close> return \<open>None\<close>
  then. The theorems: a filter never panics and has no false negatives, also after it was written
  to a file and read back.
\<close>

datatype HashAlgo = Fnv1a | Xxh3

definition hash_algo_from_byte :: "u8 \<Rightarrow> HashAlgo option" where
  "hash_algo_from_byte b = (if b = 0 then Some Fnv1a else if b = 1 then Some Xxh3 else None)"

fun hash_algo_to_byte :: "HashAlgo \<Rightarrow> u8" where
  "hash_algo_to_byte Fnv1a = 0"
| "hash_algo_to_byte Xxh3 = 1"

record bloom =
  bf_bits :: bytes
  bf_num_bits :: u32
  bf_k :: u8
  bf_mask :: "u32 option"
  bf_algo :: HashAlgo

definition DEFAULT_BITS_PER_ENTRY :: nat where
  "DEFAULT_BITS_PER_ENTRY = 10"

definition DEFAULT_K :: u8 where
  "DEFAULT_K = 7"

text \<open>\<^verbatim>\<open>usize::next_power_of_two\<close>\<close>

fun next_power_of_two :: "nat \<Rightarrow> nat" where
  "next_power_of_two n = (if n \<le> 1 then 1 else 2 * next_power_of_two ((n + 1) div 2))"

declare next_power_of_two.simps [simp del]

definition bf_with_params_and_algo :: "nat \<Rightarrow> nat \<Rightarrow> u8 \<Rightarrow> HashAlgo \<Rightarrow> bloom" where
  "bf_with_params_and_algo expected_entries bits_per_entry k algo =
     (let raw_bits = max (max expected_entries 1 * bits_per_entry) 1;
          num_bits = next_power_of_two raw_bits;
          num_bytes = (num_bits + 7) div 8
      in \<lparr>bf_bits = replicate num_bytes 0, bf_num_bits = of_nat num_bits, bf_k = k,
          bf_mask = Some (of_nat (num_bits - 1)), bf_algo = algo\<rparr>)"

definition bf_with_params :: "nat \<Rightarrow> nat \<Rightarrow> u8 \<Rightarrow> bloom" where
  "bf_with_params expected_entries bits_per_entry k =
     bf_with_params_and_algo expected_entries bits_per_entry k Xxh3"

definition bf_new :: "nat \<Rightarrow> bloom" where
  "bf_new expected_entries = bf_with_params expected_entries DEFAULT_BITS_PER_ENTRY DEFAULT_K"

section \<open>Hashing\<close>

definition fnv1a_64 :: "bytes \<Rightarrow> u64 \<Rightarrow> u64" where
  "fnv1a_64 data seed = foldl (\<lambda>h b. (h XOR ucast b) * 0x100000001b3) seed data"

definition fnv_double_hash :: "bytes \<Rightarrow> u64 \<times> u64" where
  "fnv_double_hash key = (fnv1a_64 key 0xcbf29ce484222325, fnv1a_64 key 0x9e3779b97f4a7c15 OR 1)"

definition xxh3_double_hash :: "(bytes \<Rightarrow> u64 \<Rightarrow> u64) \<Rightarrow> bytes \<Rightarrow> u64 \<times> u64" where
  "xxh3_double_hash xxh3 key = (xxh3 key 0xcbf29ce484222325, xxh3 key 0x9e3779b97f4a7c15 OR 1)"

definition combined_hash :: "u64 \<Rightarrow> u64 \<Rightarrow> nat \<Rightarrow> u64" where
  "combined_hash h1 h2 i = h1 + of_nat i * h2"

definition bf_double_hash :: "(bytes \<Rightarrow> u64 \<Rightarrow> u64) \<Rightarrow> bloom \<Rightarrow> bytes \<Rightarrow> u64 \<times> u64" where
  "bf_double_hash xxh3 f key = (case bf_algo f of
      Fnv1a \<Rightarrow> fnv_double_hash key | Xxh3 \<Rightarrow> xxh3_double_hash xxh3 key)"

section \<open>Bits\<close>

definition set_bit_at :: "bloom \<Rightarrow> nat \<Rightarrow> bloom option" where
  "set_bit_at f b =
     (if b div 8 < length (bf_bits f)
      then Some (f\<lparr>bf_bits := (bf_bits f)[b div 8 := bf_bits f ! (b div 8) OR push_bit (b mod 8) 1]\<rparr>)
      else None)"

definition get_bit_at :: "bloom \<Rightarrow> nat \<Rightarrow> bool option" where
  "get_bit_at f b =
     (if b div 8 < length (bf_bits f)
      then Some (bf_bits f ! (b div 8) AND push_bit (b mod 8) 1 \<noteq> 0) else None)"

text \<open>
  The bit of round \<open>i\<close>: the masked low word, or the remainder (which panics on zero) when there is
  no mask.
\<close>

definition bit_index :: "(bytes \<Rightarrow> u64 \<Rightarrow> u64) \<Rightarrow> bloom \<Rightarrow> bytes \<Rightarrow> nat \<Rightarrow> nat option" where
  "bit_index xxh3 f key i =
     (let (h1, h2) = bf_double_hash xxh3 f key in
      case bf_mask f of
        Some m \<Rightarrow> Some (unat ((ucast (combined_hash h1 h2 i) :: u32) AND m))
      | None \<Rightarrow> (if bf_num_bits f = 0 then None
                else Some (unat (combined_hash h1 h2 i mod ucast (bf_num_bits f)))))"

fun bf_add_loop :: "(bytes \<Rightarrow> u64 \<Rightarrow> u64) \<Rightarrow> bytes \<Rightarrow> nat list \<Rightarrow> bloom \<Rightarrow> bloom option" where
  "bf_add_loop xxh3 key [] f = Some f"
| "bf_add_loop xxh3 key (i # is) f = (case bit_index xxh3 f key i of
      None \<Rightarrow> None
    | Some b \<Rightarrow> (case set_bit_at f b of None \<Rightarrow> None | Some f' \<Rightarrow> bf_add_loop xxh3 key is f'))"

definition bf_add :: "(bytes \<Rightarrow> u64 \<Rightarrow> u64) \<Rightarrow> bloom \<Rightarrow> bytes \<Rightarrow> bloom option" where
  "bf_add xxh3 f key = bf_add_loop xxh3 key [0..<unat (bf_k f)] f"

fun bf_contains_loop :: "(bytes \<Rightarrow> u64 \<Rightarrow> u64) \<Rightarrow> bytes \<Rightarrow> nat list \<Rightarrow> bloom \<Rightarrow> bool option" where
  "bf_contains_loop xxh3 key [] f = Some True"
| "bf_contains_loop xxh3 key (i # is) f = (case bit_index xxh3 f key i of
      None \<Rightarrow> None
    | Some b \<Rightarrow> (case get_bit_at f b of
        None \<Rightarrow> None
      | Some x \<Rightarrow> if \<not> x then Some False else bf_contains_loop xxh3 key is f))"

definition bf_contains :: "(bytes \<Rightarrow> u64 \<Rightarrow> u64) \<Rightarrow> bloom \<Rightarrow> bytes \<Rightarrow> bool option" where
  "bf_contains xxh3 f key =
     (if bf_num_bits f = 0 then Some True else bf_contains_loop xxh3 key [0..<unat (bf_k f)] f)"

section \<open>The file format\<close>

definition bf_write_to :: "bloom \<Rightarrow> bytes" where
  "bf_write_to f = u32_be (bf_num_bits f) @ [bf_k f] @ bf_bits f"

definition is_power_of_two :: "u32 \<Rightarrow> bool" where
  "is_power_of_two n \<longleftrightarrow> n \<noteq> 0 \<and> next_power_of_two (unat n) = unat n"

text \<open>\<^verbatim>\<open>read_from\<close>: the filter and the bytes after it; a short read is an I/O error.\<close>

definition bf_read_from :: "bytes \<Rightarrow> HashAlgo \<Rightarrow> error + bloom \<times> bytes" where
  "bf_read_from r algo =
     (if length r < 4 then Inl Io
      else let num_bits = be_u32 (take 4 r); r = drop 4 r in
      if length r < 1 then Inl Io
      else let k = hd r; r = drop 1 r; num_bytes = (unat num_bits + 7) div 8 in
      if length r < num_bytes then Inl Io
      else Inr (\<lparr>bf_bits = take num_bytes r, bf_num_bits = num_bits, bf_k = k,
                 bf_mask = (if 0 < num_bits \<and> is_power_of_two num_bits then Some (num_bits - 1) else None),
                 bf_algo = algo\<rparr>, drop num_bytes r))"

section \<open>No panic, no false negative\<close>

definition bf_wf :: "bloom \<Rightarrow> bool" where
  "bf_wf f \<longleftrightarrow> (case bf_mask f of
      Some m \<Rightarrow> unat m < 8 * length (bf_bits f)
    | None \<Rightarrow> bf_num_bits f \<noteq> 0 \<and> unat (bf_num_bits f) \<le> 8 * length (bf_bits f))"

lemma div8_less: "b < 8 * n \<Longrightarrow> b div 8 < (n :: nat)"
  by linarith

lemma unat_and_le: "unat (a AND m) \<le> unat (m :: 'a::len word)"
  by (metis word_and_le1 word_le_nat_alt)

lemma bit_index_wf:
  assumes "bf_wf f"
  obtains b where "bit_index xxh3 f key i = Some b" "b < 8 * length (bf_bits f)"
proof -
  obtain h1 h2 where h: "bf_double_hash xxh3 f key = (h1, h2)" by (cases "bf_double_hash xxh3 f key")
  show ?thesis
  proof (cases "bf_mask f")
    case (Some m)
    then have "unat ((ucast (combined_hash h1 h2 i) :: u32) AND m) < 8 * length (bf_bits f)"
      using assms unat_and_le [of _ m] by (simp add: bf_wf_def) (meson le_less_trans)
    then show ?thesis using that Some h by (simp add: bit_index_def)
  next
    case None
    let ?n = "bf_num_bits f"
    have n: "?n \<noteq> 0" "unat ?n \<le> 8 * length (bf_bits f)" using assms None by (auto simp: bf_wf_def)
    have "unat (ucast ?n :: u64) = unat ?n"
      using unat_u32_less [of ?n] by (simp add: unsigned_ucast_eq take_bit_nat_eq_self)
    then have "unat (combined_hash h1 h2 i mod ucast ?n) < unat ?n"
      using n(1) by (simp add: unat_mod unat_gt_0)
    then show ?thesis using that None h n by (simp add: bit_index_def)
  qed
qed

text \<open>What adding keeps: the parameters, and every bit that is set.\<close>

definition grows :: "bloom \<Rightarrow> bloom \<Rightarrow> bool" where
  "grows f g \<longleftrightarrow> bf_num_bits g = bf_num_bits f \<and> bf_k g = bf_k f \<and> bf_mask g = bf_mask f \<and>
     bf_algo g = bf_algo f \<and> length (bf_bits g) = length (bf_bits f) \<and>
     (\<forall>b. get_bit_at f b = Some True \<longrightarrow> get_bit_at g b = Some True)"

lemma grows_refl: "grows f f"
  by (simp add: grows_def)

lemma grows_trans: "grows f g \<Longrightarrow> grows g h \<Longrightarrow> grows f h"
  by (auto simp: grows_def)

lemma grows_wf: "grows f g \<Longrightarrow> bf_wf f \<Longrightarrow> bf_wf g"
  by (simp add: grows_def bf_wf_def split: option.splits)

lemma grows_index: "grows f g \<Longrightarrow> bit_index xxh3 g key i = bit_index xxh3 f key i"
  by (auto simp: grows_def bit_index_def bf_double_hash_def split: prod.splits option.splits)

lemma get_bit_at_bit:
  "b div 8 < length (bf_bits f) \<Longrightarrow> get_bit_at f b = Some (bit (bf_bits f ! (b div 8)) (b mod 8))"
  by (simp add: get_bit_at_def bit_iff_and_push_bit_not_eq_0)

lemma set_bit_at_ok:
  assumes "b < 8 * length (bf_bits f)"
  obtains g where "set_bit_at f b = Some g" "grows f g" "get_bit_at g b = Some True"
proof -
  let ?g = "f\<lparr>bf_bits := (bf_bits f)[b div 8 := bf_bits f ! (b div 8) OR push_bit (b mod 8) 1]\<rparr>"
  have b: "b div 8 < length (bf_bits f)" using assms by (rule div8_less)
  have eight: "b mod 8 < 8" by simp
  have here: "get_bit_at ?g b = Some True"
    using b eight by (simp add: get_bit_at_bit bit_or_iff bit_exp_iff possible_bit_def)
  have keep: "get_bit_at ?g c = Some True" if c: "get_bit_at f c = Some True" for c
  proof -
    have l: "c div 8 < length (bf_bits f)" using c by (simp add: get_bit_at_def split: if_splits)
    then have "bit (bf_bits f ! (c div 8)) (c mod 8)" using c by (simp add: get_bit_at_bit)
    then have "bit (bf_bits ?g ! (c div 8)) (c mod 8)"
      using l by (cases "c div 8 = b div 8") (simp_all add: bit_or_iff)
    then show ?thesis using l get_bit_at_bit [of c ?g] by simp
  qed
  show ?thesis
    using that [of ?g] b here keep by (simp add: set_bit_at_def grows_def)
qed

lemma add_loop_ok:
  assumes "bf_wf f"
  shows "\<exists>g. bf_add_loop xxh3 key is f = Some g \<and> grows f g \<and> bf_contains_loop xxh3 key is g = Some True"
  using assms
proof (induction "is" arbitrary: f)
  case (Cons i "is")
  obtain b where b: "bit_index xxh3 f key i = Some b" "b < 8 * length (bf_bits f)"
    using Cons.prems by (rule bit_index_wf)
  obtain g where g: "set_bit_at f b = Some g" "grows f g" "get_bit_at g b = Some True"
    using b(2) by (rule set_bit_at_ok)
  obtain h where h: "bf_add_loop xxh3 key is g = Some h" "grows g h" "bf_contains_loop xxh3 key is h = Some True"
    using Cons.IH [OF grows_wf [OF g(2) Cons.prems]] by blast
  have "get_bit_at h b = Some True" using g(3) h(2) by (simp add: grows_def)
  moreover have "bit_index xxh3 h key i = Some b"
    using b(1) grows_index [OF grows_trans [OF g(2) h(2)]] by simp
  ultimately show ?case using b g h grows_trans [OF g(2) h(2)] by simp
qed (simp add: grows_refl)

lemma contains_grows:
  "bf_contains_loop xxh3 key is f = Some True \<Longrightarrow> grows f g \<Longrightarrow> bf_contains_loop xxh3 key is g = Some True"
proof (induction xxh3 key "is" f rule: bf_contains_loop.induct)
  case (2 xxh3 key i "is" f)
  then obtain b where b: "bit_index xxh3 f key i = Some b" "get_bit_at f b = Some True"
      "bf_contains_loop xxh3 key is f = Some True"
    by (auto split: option.splits if_splits)
  then have "get_bit_at g b = Some True" "bit_index xxh3 g key i = Some b"
    using "2.prems"(2) grows_index [OF "2.prems"(2)] by (simp_all add: grows_def)
  with 2 b show ?case by simp
qed simp

section \<open>Sizes\<close>

lemma next_power_of_two_ge: "n \<le> next_power_of_two n"
proof (induction n rule: next_power_of_two.induct)
  case (1 n)
  show ?case
  proof (cases "n \<le> 1")
    case False
    then show ?thesis using 1 by (subst next_power_of_two.simps) simp
  qed (simp add: next_power_of_two.simps)
qed

lemma next_power_of_two_pow: "\<exists>p. next_power_of_two n = 2 ^ p"
proof (induction n rule: next_power_of_two.induct)
  case (1 n)
  show ?case
  proof (cases "n \<le> 1")
    case True
    then show ?thesis by (subst next_power_of_two.simps) (auto intro: exI [of _ 0])
  next
    case False
    with 1 obtain p where "next_power_of_two ((n + 1) div 2) = 2 ^ p" by blast
    with False show ?thesis by (subst next_power_of_two.simps) (auto intro: exI [of _ "Suc p"])
  qed
qed

lemma next_power_of_two_fix: "next_power_of_two (2 ^ p) = 2 ^ p"
proof (induction p)
  case (Suc p)
  have "(2 ^ Suc p + 1) div 2 = (2 ^ p :: nat)" by simp
  moreover have "\<not> 2 ^ Suc p \<le> (1 :: nat)" using one_less_power [of "2 :: nat" "Suc p"] by simp
  ultimately show ?case using Suc by (subst next_power_of_two.simps) simp
qed (simp add: next_power_of_two.simps)

lemma next_power_of_two_mono: "n \<le> 2 ^ p \<Longrightarrow> next_power_of_two n \<le> 2 ^ p"
proof (induction n arbitrary: p rule: next_power_of_two.induct)
  case (1 n)
  show ?case
  proof (cases "n \<le> 1")
    case False
    then obtain q where q: "p = Suc q" using "1.prems" by (cases p) auto
    have "(n + 1) div 2 \<le> 2 ^ q" using "1.prems" by (simp add: q)
    with False "1.IH" show ?thesis by (subst next_power_of_two.simps) (simp add: q)
  qed (simp add: next_power_of_two.simps)
qed

lemma new_wf: "bf_wf (bf_with_params_and_algo n b k algo)"
proof -
  let ?m = "next_power_of_two (max (max n 1 * b) 1)"
  have pos: "1 \<le> ?m" using next_power_of_two_ge [of "max (max n 1 * b) 1"] by simp
  have "unat (of_nat (?m - 1) :: u32) \<le> ?m - 1" by (simp add: unat_of_nat)
  moreover have "?m - 1 < 8 * ((?m + 7) div 8)" using pos by linarith
  ultimately show ?thesis by (simp add: bf_wf_def bf_with_params_and_algo_def Let_def)
qed

fun bf_add_all :: "(bytes \<Rightarrow> u64 \<Rightarrow> u64) \<Rightarrow> bloom \<Rightarrow> bytes list \<Rightarrow> bloom option" where
  "bf_add_all xxh3 f [] = Some f"
| "bf_add_all xxh3 f (key # keys) = (case bf_add xxh3 f key of
      None \<Rightarrow> None | Some f' \<Rightarrow> bf_add_all xxh3 f' keys)"

lemma add_all_ok:
  assumes "bf_wf f"
  shows "\<exists>g. bf_add_all xxh3 f keys = Some g \<and> grows f g \<and>
    (\<forall>key \<in> set keys. bf_contains_loop xxh3 key [0..<unat (bf_k g)] g = Some True)"
  using assms
proof (induction keys arbitrary: f)
  case (Cons key keys)
  obtain g where g: "bf_add xxh3 f key = Some g" "grows f g"
      "bf_contains_loop xxh3 key [0..<unat (bf_k f)] g = Some True"
    using add_loop_ok [OF Cons.prems, of xxh3 key "[0..<unat (bf_k f)]"] by (auto simp: bf_add_def)
  obtain h where h: "bf_add_all xxh3 g keys = Some h" "grows g h"
      "\<forall>key \<in> set keys. bf_contains_loop xxh3 key [0..<unat (bf_k h)] h = Some True"
    using Cons.IH [OF grows_wf [OF g(2) Cons.prems]] by blast
  have k: "bf_k h = bf_k f" using g(2) h(2) by (simp add: grows_def)
  have "bf_contains_loop xxh3 key [0..<unat (bf_k f)] h = Some True"
    using contains_grows [OF g(3) h(2)] .
  with g h k grows_trans [OF g(2) h(2)] show ?case by simp
qed (simp add: grows_refl)

section \<open>Properties of the bloom filter\<close>

lemma read_write_eq:
  assumes "length (bf_bits f) = (unat (bf_num_bits f) + 7) div 8"
    and "bf_mask f = (if 0 < bf_num_bits f \<and> is_power_of_two (bf_num_bits f) then Some (bf_num_bits f - 1) else None)"
  shows "bf_read_from (bf_write_to f @ rest) (bf_algo f) = Inr (f, rest)"
  using assms by (simp add: bf_read_from_def bf_write_to_def Let_def)

lemma new_shape:
  assumes "max n 1 * DEFAULT_BITS_PER_ENTRY \<le> 2 ^ 31"
  shows "length (bf_bits (bf_new n)) = (unat (bf_num_bits (bf_new n)) + 7) div 8 \<and>
    bf_mask (bf_new n) = (if 0 < bf_num_bits (bf_new n) \<and> is_power_of_two (bf_num_bits (bf_new n))
      then Some (bf_num_bits (bf_new n) - 1) else None)"
proof -
  define m where "m = next_power_of_two (max (max n 1 * DEFAULT_BITS_PER_ENTRY) 1)"
  obtain p where p: "m = 2 ^ p" using next_power_of_two_pow m_def by blast
  have le: "m \<le> 2 ^ 31" unfolding m_def by (rule next_power_of_two_mono) (use assms in simp)
  have pos: "0 < m" by (simp add: p)
  have u: "unat (of_nat m :: u32) = m" using le by (simp add: unat_of_nat)
  have nz: "(of_nat m :: u32) \<noteq> 0" using u pos by (metis less_irrefl unat_0)
  have "is_power_of_two (of_nat m)" using nz next_power_of_two_fix [of p] by (simp add: is_power_of_two_def u p [symmetric])
  moreover have "(of_nat (m - 1) :: u32) = of_nat m - 1" using pos by (simp add: of_nat_diff)
  moreover have "0 < (of_nat m :: u32)" using nz by (simp add: word_gt_0)
  ultimately show ?thesis
    unfolding bf_new_def bf_with_params_def bf_with_params_and_algo_def Let_def m_def [symmetric]
    using u by simp
qed

text \<open>
  no false negatives and no panics. A filter built for any number of entries takes any keys
  without an out-of-range access and then reports every one of them as possibly present, for any
  hash function. Up to \<open>2 ^ 31\<close> bits, writing the filter and reading it back gives the same filter.
\<close>

theorem bloom_no_false_negatives:
  "\<exists>f. bf_add_all xxh3 (bf_new n) keys = Some f \<and>
     (\<forall>key \<in> set keys. bf_contains xxh3 f key = Some True) \<and>
     (max n 1 * DEFAULT_BITS_PER_ENTRY \<le> 2 ^ 31 \<longrightarrow>
        bf_read_from (bf_write_to f @ rest) Xxh3 = Inr (f, rest))"
proof -
  obtain f where f: "bf_add_all xxh3 (bf_new n) keys = Some f" "grows (bf_new n) f"
      "\<forall>key \<in> set keys. bf_contains_loop xxh3 key [0..<unat (bf_k f)] f = Some True"
    using add_all_ok [of "bf_new n" xxh3 keys] new_wf by (auto simp: bf_new_def bf_with_params_def)
  have algo: "bf_algo f = Xxh3"
    using f(2) by (simp add: grows_def bf_new_def bf_with_params_def bf_with_params_and_algo_def Let_def)
  have "bf_read_from (bf_write_to f @ rest) (bf_algo f) = Inr (f, rest)"
    if "max n 1 * DEFAULT_BITS_PER_ENTRY \<le> 2 ^ 31"
    using f(2) new_shape [OF that] by (intro read_write_eq) (simp_all add: grows_def)
  with f algo show ?thesis by (auto simp: bf_contains_def)
qed

theorem bloom_no_false_negatives_witness:
  "\<exists>f. bf_add_all (\<lambda>key seed. seed + of_nat (length key)) (bf_new 2) [[97], [98, 99]] = Some f \<and>
     bf_contains (\<lambda>key seed. seed + of_nat (length key)) f [97] = Some True \<and>
     bf_contains (\<lambda>key seed. seed + of_nat (length key)) f [98, 99] = Some True \<and>
     bf_read_from (bf_write_to f @ [5]) Xxh3 = Inr (f, [5])"
proof -
  have "max 2 1 * DEFAULT_BITS_PER_ENTRY \<le> 2 ^ 31" by (simp add: DEFAULT_BITS_PER_ENTRY_def)
  then show ?thesis
    using bloom_no_false_negatives [of "\<lambda>key seed. seed + of_nat (length key)" 2 "[[97], [98, 99]]" "[5]"]
    by auto
qed

end
