(* ===== verification/Zone.thy ===== *)
theory Zone
  imports Prelude
begin

text \<open>
  The per-block zone maps of \<^verbatim>\<open>rhypedb-storage/src/zone.rs\<close>: the minimum and maximum of integer
  fields in each block of an SST, their file format, and the test that lets a filtered scan skip a
  block. The theorems: the format round-trips, and a block is never skipped when it holds a value
  that satisfies the predicate.
\<close>

section \<open>Building\<close>

record zone_builder =
  zb_index :: "u32 \<rightharpoonup> nat"
  zb_field_ids :: "u32 list"
  zb_bounds :: "(u64 \<times> u64) list list"

definition zb_new :: zone_builder where
  "zb_new = \<lparr>zb_index = Map.empty, zb_field_ids = [], zb_bounds = []\<rparr>"

text \<open>\<^verbatim>\<open>(u64::MAX, u64::MIN)\<close>: no entry with this field yet.\<close>

definition no_data :: "u64 \<times> u64" where
  "no_data = (- 1, 0)"

definition zb_record_field :: "nat \<Rightarrow> zone_builder \<Rightarrow> u32 \<times> bytes \<Rightarrow> zone_builder" where
  "zb_record_field block_idx z fb = (case fb of (field_id, bs) \<Rightarrow>
     let (z', field_idx) = (case zb_index z field_id of
           Some idx \<Rightarrow> (z, idx)
         | None \<Rightarrow> (z\<lparr>zb_field_ids := zb_field_ids z @ [field_id],
                      zb_index := (zb_index z)(field_id \<mapsto> length (zb_field_ids z)),
                      zb_bounds := map (\<lambda>block. block @ [no_data]) (zb_bounds z)\<rparr>,
                    length (zb_field_ids z)));
         v = be_u64 bs;
         (cur_min, cur_max) = zb_bounds z' ! block_idx ! field_idx
     in z'\<lparr>zb_bounds := (zb_bounds z')[block_idx :=
            (zb_bounds z' ! block_idx)[field_idx := (min cur_min v, max cur_max v)]]\<rparr>)"

definition zb_record :: "zone_builder \<Rightarrow> nat \<Rightarrow> (u32 \<times> bytes) list \<Rightarrow> zone_builder" where
  "zb_record z block_idx zone_fields =
     (let grown = z\<lparr>zb_bounds := zb_bounds z @
            replicate (Suc block_idx - length (zb_bounds z)) (replicate (length (zb_field_ids z)) no_data)\<rparr>
      in foldl (zb_record_field block_idx) grown zone_fields)"

definition zb_write_to :: "zone_builder \<Rightarrow> bytes" where
  "zb_write_to z = u32_be (of_nat (length (zb_bounds z))) @ u32_be (of_nat (length (zb_field_ids z))) @
     concat (map u32_be (zb_field_ids z)) @
     concat (map (\<lambda>block. concat (map (\<lambda>(mn, mx). u64_be mn @ u64_be mx) block)) (zb_bounds z))"

section \<open>Reading\<close>

record zone_map =
  zm_index :: "u32 \<rightharpoonup> nat"
  zm_num_fields :: nat
  zm_bounds :: "u64 list"

definition zm_default :: zone_map where
  "zm_default = \<lparr>zm_index = Map.empty, zm_num_fields = 0, zm_bounds = []\<rparr>"

text \<open>\<^verbatim>\<open>read_exact\<close> of a fixed number of bytes: what was read and what is left.\<close>

definition zone_error :: error where
  "zone_error = SstCorrupted ''zone map''"

definition read_exact :: "nat \<Rightarrow> bytes \<Rightarrow> error + bytes \<times> bytes" where
  "read_exact n r = (if length r < n then Inl zone_error else Inr (take n r, drop n r))"

fun zm_read_ids :: "nat \<Rightarrow> nat \<Rightarrow> (u32 \<rightharpoonup> nat) \<Rightarrow> bytes \<Rightarrow> error + (u32 \<rightharpoonup> nat) \<times> bytes" where
  "zm_read_ids idx 0 m r = Inr (m, r)"
| "zm_read_ids idx (Suc n) m r = (case read_exact 4 r of
      Inl e \<Rightarrow> Inl e
    | Inr (buf4, r') \<Rightarrow> zm_read_ids (Suc idx) n (m(be_u32 buf4 \<mapsto> idx)) r')"

fun zm_read_bounds :: "nat \<Rightarrow> bytes \<Rightarrow> error + u64 list \<times> bytes" where
  "zm_read_bounds 0 r = Inr ([], r)"
| "zm_read_bounds (Suc n) r = (case read_exact 8 r of
      Inl e \<Rightarrow> Inl e
    | Inr (buf8, r') \<Rightarrow> (case zm_read_bounds n r' of
        Inl e \<Rightarrow> Inl e
      | Inr (bs, r'') \<Rightarrow> Inr (be_u64 buf8 # bs, r'')))"

definition zm_read_from :: "bytes \<Rightarrow> error + zone_map \<times> bytes" where
  "zm_read_from r = (case read_exact 4 r of
      Inl e \<Rightarrow> Inl e
    | Inr (b1, r1) \<Rightarrow> (case read_exact 4 r1 of
        Inl e \<Rightarrow> Inl e
      | Inr (b2, r2) \<Rightarrow>
          let num_blocks = unat (be_u32 b1); num_fields = unat (be_u32 b2)
          in case zm_read_ids 0 num_fields Map.empty r2 of
            Inl e \<Rightarrow> Inl e
          | Inr (index, r3) \<Rightarrow> (case zm_read_bounds (num_blocks * num_fields * 2) r3 of
              Inl e \<Rightarrow> Inl e
            | Inr (bs, r4) \<Rightarrow> Inr (\<lparr>zm_index = index, zm_num_fields = num_fields, zm_bounds = bs\<rparr>, r4))))"

definition zm_num_blocks :: "zone_map \<Rightarrow> nat" where
  "zm_num_blocks z = (if zm_num_fields z = 0 then length (zm_bounds z)
     else length (zm_bounds z) div (zm_num_fields z * 2))"

definition zm_bounds_of :: "zone_map \<Rightarrow> nat \<Rightarrow> u32 \<Rightarrow> (u64 \<times> u64) option" where
  "zm_bounds_of z block_idx field_id = (case zm_index z field_id of
      None \<Rightarrow> None
    | Some field_idx \<Rightarrow>
        let pos = (block_idx * zm_num_fields z + field_idx) * 2
        in if length (zm_bounds z) \<le> pos + 1 then None
           else Some (zm_bounds z ! pos, zm_bounds z ! (pos + 1)))"

datatype CompareOp = Eq | Ne | Lt | Le | Gt | Ge

record field_predicate =
  fp_field_id :: u32
  fp_op :: CompareOp
  fp_target :: u64

definition block_could_match :: "zone_map \<Rightarrow> nat \<Rightarrow> u32 \<Rightarrow> CompareOp \<Rightarrow> u64 \<Rightarrow> bool" where
  "block_could_match z block_idx field_id cmp target = (case zm_bounds_of z block_idx field_id of
      None \<Rightarrow> True
    | Some (mn, mx) \<Rightarrow>
        if mn > mx then True
        else (case cmp of
            Eq \<Rightarrow> target \<ge> mn \<and> target \<le> mx
          | Ne \<Rightarrow> True
          | Lt \<Rightarrow> mn < target
          | Le \<Rightarrow> mn \<le> target
          | Gt \<Rightarrow> mx > target
          | Ge \<Rightarrow> mx \<ge> target))"

section \<open>The format round-trips\<close>

definition zb_wf :: "zone_builder \<Rightarrow> bool" where
  "zb_wf z \<longleftrightarrow> distinct (zb_field_ids z) \<and>
     (\<forall>f i. zb_index z f = Some i \<longleftrightarrow> i < length (zb_field_ids z) \<and> zb_field_ids z ! i = f) \<and>
     (\<forall>block \<in> set (zb_bounds z). length block = length (zb_field_ids z))"

lemma read_exact_append [simp]: "length a = n \<Longrightarrow> read_exact n (a @ r) = Inr (a, r)"
  by (auto simp: read_exact_def)

lemma read_ids_concat:
  "distinct ids \<Longrightarrow> \<exists>m'. zm_read_ids i (length ids) m (concat (map u32_be ids) @ r) = Inr (m', r) \<and>
     (\<forall>j < length ids. m' (ids ! j) = Some (i + j)) \<and> (\<forall>f. f \<notin> set ids \<longrightarrow> m' f = m f)"
proof (induction ids arbitrary: i m)
  case (Cons f ids)
  then obtain m' where m': "zm_read_ids (Suc i) (length ids) (m(f \<mapsto> i)) (concat (map u32_be ids) @ r) = Inr (m', r)"
    "\<forall>j < length ids. m' (ids ! j) = Some (Suc i + j)" "\<forall>g. g \<notin> set ids \<longrightarrow> m' g = (m(f \<mapsto> i)) g"
    by (metis distinct.simps(2))
  have "m' ((f # ids) ! j) = Some (i + j)" if "j < length (f # ids)" for j
    using that m'(2,3) Cons.prems by (cases j) auto
  with m' show ?case by (intro exI [of _ m']) simp
qed simp

lemma read_bounds_concat: "zm_read_bounds (length ws) (concat (map u64_be ws) @ r) = Inr (ws, r)"
  by (induction ws) simp_all

definition flat_row :: "(u64 \<times> u64) list \<Rightarrow> u64 list" where
  "flat_row row = concat (map (\<lambda>(mn, mx). [mn, mx]) row)"

lemma length_flat_row [simp]: "length (flat_row row) = 2 * length row"
  by (induction row) (auto simp: flat_row_def)

lemma flat_row_nth:
  "i < length row \<Longrightarrow> flat_row row ! (2 * i) = fst (row ! i) \<and> flat_row row ! (2 * i + 1) = snd (row ! i)"
proof (induction row arbitrary: i)
  case (Cons p row)
  have c: "flat_row (p # row) = fst p # snd p # flat_row row" by (cases p) (simp add: flat_row_def)
  show ?case using Cons by (cases i) (simp_all add: c)
qed simp

lemma write_bounds_flat:
  "concat (map (\<lambda>block. concat (map (\<lambda>(mn, mx). u64_be mn @ u64_be mx) block)) bs) =
   concat (map u64_be (concat (map flat_row bs)))"
proof (induction bs)
  case (Cons b bs)
  have "concat (map (\<lambda>(mn, mx). u64_be mn @ u64_be mx) b) = concat (map u64_be (flat_row b))"
    by (induction b) (auto simp: flat_row_def)
  with Cons show ?case by simp
qed simp

lemma length_concat_const: "\<forall>xs \<in> set xss. length xs = n \<Longrightarrow> length (concat xss) = length xss * n"
  by (induction xss) auto

lemma concat_nth_const:
  "\<forall>xs \<in> set xss. length xs = n \<Longrightarrow> b < length xss \<Longrightarrow> j < n \<Longrightarrow> concat xss ! (b * n + j) = xss ! b ! j"
proof (induction xss arbitrary: b)
  case (Cons xs xss)
  then show ?case
  proof (cases b)
    case (Suc c)
    have "concat (xs # xss) ! (b * n + j) = concat xss ! (c * n + j)"
      using Cons.prems Suc by (simp add: nth_append)
    with Cons Suc show ?thesis by simp
  qed (simp add: nth_append)
qed simp

lemma zone_read_write:
  assumes wf: "zb_wf z" and small: "length (zb_bounds z) < 2 ^ 32" "length (zb_field_ids z) < 2 ^ 32"
  shows "\<exists>m. zm_read_from (zb_write_to z @ r) = Inr (m, r) \<and>
    zm_index m = zb_index z \<and> zm_num_fields m = length (zb_field_ids z) \<and>
    zm_bounds m = concat (map flat_row (zb_bounds z))"
proof -
  let ?flat = "concat (map flat_row (zb_bounds z))" and ?ids = "zb_field_ids z"
  have rows: "\<forall>xs \<in> set (map flat_row (zb_bounds z)). length xs = 2 * length ?ids"
    using wf by (auto simp: zb_wf_def)
  have len: "length ?flat = length (zb_bounds z) * length ?ids * 2"
    using length_concat_const [OF rows] by simp
  have dist: "distinct ?ids" using wf by (simp add: zb_wf_def)
  obtain index where index: "zm_read_ids 0 (length ?ids) Map.empty
        (concat (map u32_be ?ids) @ concat (map u64_be ?flat) @ r) = Inr (index, concat (map u64_be ?flat) @ r)"
      "\<forall>j < length ?ids. index (?ids ! j) = Some j" "\<forall>f. f \<notin> set ?ids \<longrightarrow> index f = None"
    using read_ids_concat [OF dist, of 0 Map.empty "concat (map u64_be ?flat) @ r"] by auto
  have "index f = zb_index z f" for f
  proof (cases "f \<in> set ?ids")
    case True
    then obtain j where j: "j < length ?ids" "?ids ! j = f" by (auto simp: in_set_conv_nth)
    then have "zb_index z f = Some j" using wf by (simp add: zb_wf_def)
    with index(2) j show ?thesis by auto
  next
    case False
    then have "zb_index z f = None" using wf by (auto simp: zb_wf_def) (metis nth_mem option.exhaust)
    with False index(3) show ?thesis by simp
  qed
  then have same: "index = zb_index z" by (rule ext)
  have n: "unat (of_nat (length (zb_bounds z)) :: u32) = length (zb_bounds z)"
    "unat (of_nat (length ?ids) :: u32) = length ?ids"
    using small by (simp_all add: unat_of_nat)
  have bs: "zm_read_bounds (length (zb_bounds z) * length ?ids * 2) (concat (map u64_be ?flat) @ r) = Inr (?flat, r)"
    using read_bounds_concat [of ?flat r] by (simp only: len)
  show ?thesis
    unfolding zb_write_to_def write_bounds_flat zm_read_from_def append_assoc
    using index(1) bs by (simp add: Let_def n same)
qed

text \<open>What the reader finds for a field in a block is what the builder had recorded.\<close>

lemma zone_bounds_read:
  assumes wf: "zb_wf z" and m: "zm_index m = zb_index z" "zm_num_fields m = length (zb_field_ids z)"
    "zm_bounds m = concat (map flat_row (zb_bounds z))"
    and b: "b < length (zb_bounds z)" and i: "zb_index z f = Some i"
  shows "zm_bounds_of m b f = Some (zb_bounds z ! b ! i)"
proof -
  let ?n = "length (zb_field_ids z)" and ?rows = "map flat_row (zb_bounds z)"
  have rows: "\<forall>xs \<in> set ?rows. length xs = 2 * ?n" using wf by (auto simp: zb_wf_def)
  have i': "i < ?n" using wf i by (auto simp: zb_wf_def)
  have row: "length (zb_bounds z ! b) = ?n" using wf b by (auto simp: zb_wf_def)
  have pos: "(b * ?n + i) * 2 = b * (2 * ?n) + 2 * i" by (simp add: algebra_simps)
  have at: "concat ?rows ! (b * (2 * ?n) + j) = flat_row (zb_bounds z ! b) ! j" if "j < 2 * ?n" for j
    using concat_nth_const [OF rows, of b j] b that by simp
  have "b * (2 * ?n) + 2 * ?n \<le> length (zb_bounds z) * (2 * ?n)"
    using b by (metis Suc_leI add.commute mult_Suc mult_le_mono1)
  then have "\<not> length (zm_bounds m) \<le> (b * ?n + i) * 2 + 1"
    using length_concat_const [OF rows] i' m(3) by (simp add: pos)
  moreover have "zm_bounds m ! ((b * ?n + i) * 2) = fst (zb_bounds z ! b ! i)"
    unfolding m(3) pos using at [of "2 * i"] flat_row_nth [of i "zb_bounds z ! b"] i' row by simp
  moreover have "zm_bounds m ! ((b * ?n + i) * 2 + 1) = snd (zb_bounds z ! b ! i)"
    unfolding m(3) pos using at [of "2 * i + 1"] flat_row_nth [of i "zb_bounds z ! b"] i' row by simp
  ultimately show ?thesis
    using i by (simp only: zm_bounds_of_def m(1,2) Let_def option.case if_False prod.collapse)
qed

section \<open>What the bounds cover\<close>

definition covers :: "zone_builder \<Rightarrow> nat \<Rightarrow> u32 \<Rightarrow> u64 \<Rightarrow> bool" where
  "covers z b f v \<longleftrightarrow> b < length (zb_bounds z) \<and>
     (\<exists>i. zb_index z f = Some i \<and> fst (zb_bounds z ! b ! i) \<le> v \<and> v \<le> snd (zb_bounds z ! b ! i))"

text \<open>Allocating a column for a new field.\<close>

definition with_column :: "zone_builder \<Rightarrow> u32 \<Rightarrow> zone_builder" where
  "with_column z f = (if zb_index z f = None
     then z\<lparr>zb_field_ids := zb_field_ids z @ [f], zb_index := (zb_index z)(f \<mapsto> length (zb_field_ids z)),
            zb_bounds := map (\<lambda>block. block @ [no_data]) (zb_bounds z)\<rparr>
     else z)"

lemma with_column_ok:
  assumes "zb_wf z"
  shows "zb_wf (with_column z f)" "\<exists>i. zb_index (with_column z f) f = Some i"
    "length (zb_bounds (with_column z f)) = length (zb_bounds z)"
    "covers z b g v \<Longrightarrow> covers (with_column z f) b g v"
proof -
  have new: "f \<notin> set (zb_field_ids z)" if "zb_index z f = None"
    using assms that by (auto simp: zb_wf_def in_set_conv_nth) (metis option.distinct(1))
  show "zb_wf (with_column z f)"
    using assms new by (auto simp: zb_wf_def with_column_def nth_append less_Suc_eq in_set_conv_nth)
  show "\<exists>i. zb_index (with_column z f) f = Some i"
    "length (zb_bounds (with_column z f)) = length (zb_bounds z)"
    by (auto simp: with_column_def)
  assume c: "covers z b g v"
  show "covers (with_column z f) b g v"
  proof (cases "zb_index z f")
    case None
    obtain i where i: "zb_index z g = Some i" "b < length (zb_bounds z)" using c by (auto simp: covers_def)
    then have "i < length (zb_bounds z ! b)" using assms by (auto simp: zb_wf_def)
    moreover have "g \<noteq> f" using i None by auto
    ultimately show ?thesis using c None i by (simp add: covers_def with_column_def nth_append)
  qed (use c in \<open>simp add: with_column_def\<close>)
qed

lemma record_field_eq:
  "zb_record_field b z (f, bs) =
   (let z' = with_column z f; i = the (zb_index z' f); cur = zb_bounds z' ! b ! i
    in z'\<lparr>zb_bounds := (zb_bounds z')[b := (zb_bounds z' ! b)[i := (min (fst cur) (be_u64 bs), max (snd cur) (be_u64 bs))]]\<rparr>)"
  by (auto simp: zb_record_field_def with_column_def Let_def split: option.splits prod.splits)

lemma record_field_ok:
  assumes "zb_wf z" and "b < length (zb_bounds z)"
  shows "zb_wf (zb_record_field b z (f, bs))"
    "length (zb_bounds (zb_record_field b z (f, bs))) = length (zb_bounds z)"
    "covers z c g v \<Longrightarrow> covers (zb_record_field b z (f, bs)) c g v"
    "covers (zb_record_field b z (f, bs)) b f (be_u64 bs)"
proof -
  define z' where "z' = with_column z f"
  obtain i where i: "zb_index z' f = Some i" and wf: "zb_wf z'"
    and len: "length (zb_bounds z') = length (zb_bounds z)" and keep: "\<And>c g v. covers z c g v \<Longrightarrow> covers z' c g v"
    using with_column_ok [OF assms(1)] unfolding z'_def by metis
  let ?cur = "zb_bounds z' ! b ! i"
  let ?new = "(min (fst ?cur) (be_u64 bs), max (snd ?cur) (be_u64 bs))"
  have rec: "zb_record_field b z (f, bs) =
      z'\<lparr>zb_bounds := (zb_bounds z')[b := (zb_bounds z' ! b)[i := ?new]]\<rparr>"
    using i by (simp add: record_field_eq z'_def [symmetric] Let_def)
  have b: "b < length (zb_bounds z')" using assms(2) len by simp
  have row: "length (zb_bounds z' ! b) = length (zb_field_ids z')" using wf b by (auto simp: zb_wf_def)
  have i': "i < length (zb_bounds z' ! b)" using wf i row by (auto simp: zb_wf_def)
  show "zb_wf (zb_record_field b z (f, bs))"
  proof -
    have "length block = length (zb_field_ids z')"
      if "block \<in> set ((zb_bounds z')[b := (zb_bounds z' ! b)[i := ?new]])" for block
      using set_update_subset_insert that wf row by (fastforce simp: zb_wf_def)
    then show ?thesis using wf by (auto simp: rec zb_wf_def)
  qed
  show "length (zb_bounds (zb_record_field b z (f, bs))) = length (zb_bounds z)" by (simp add: rec len)
  show "covers (zb_record_field b z (f, bs)) b f (be_u64 bs)"
    using b i i' by (simp add: rec covers_def)
  assume "covers z c g v"
  then have "covers z' c g v" by (rule keep)
  then obtain j where j: "c < length (zb_bounds z')" "zb_index z' g = Some j"
      "fst (zb_bounds z' ! c ! j) \<le> v" "v \<le> snd (zb_bounds z' ! c ! j)"
    by (auto simp: covers_def)
  show "covers (zb_record_field b z (f, bs)) c g v"
    using j i' b by (cases "c = b"; cases "j = i") (auto simp: rec covers_def min_le_iff_disj le_max_iff_disj)
qed

lemma record_fields_ok:
  "zb_wf z \<Longrightarrow> b < length (zb_bounds z) \<Longrightarrow>
   zb_wf (foldl (zb_record_field b) z fs) \<and>
   (\<forall>c g v. covers z c g v \<longrightarrow> covers (foldl (zb_record_field b) z fs) c g v) \<and>
   (\<forall>(f, bs) \<in> set fs. covers (foldl (zb_record_field b) z fs) b f (be_u64 bs))"
proof (induction fs arbitrary: z)
  case (Cons x fs)
  obtain f bs where x: "x = (f, bs)" by (cases x)
  note r = record_field_ok [OF Cons.prems, where f = f and bs = bs]
  have "b < length (zb_bounds (zb_record_field b z (f, bs)))" using r(2) Cons.prems by simp
  from Cons.IH [OF r(1) this] r(3,4) show ?case by (auto simp: x)
qed simp

lemma zb_record_ok:
  assumes "zb_wf z"
  shows "zb_wf (zb_record z b fs)" "covers z c g v \<Longrightarrow> covers (zb_record z b fs) c g v"
    "(f, bs) \<in> set fs \<Longrightarrow> covers (zb_record z b fs) b f (be_u64 bs)"
proof -
  define grown where "grown = z\<lparr>zb_bounds := zb_bounds z @
      replicate (Suc b - length (zb_bounds z)) (replicate (length (zb_field_ids z)) no_data)\<rparr>"
  have wf: "zb_wf grown" using assms by (auto simp: zb_wf_def grown_def)
  have b: "b < length (zb_bounds grown)" by (simp add: grown_def)
  have keep: "covers z c g v \<Longrightarrow> covers grown c g v" for c g v by (auto simp: covers_def grown_def nth_append)
  note r = record_fields_ok [OF wf b, of fs]
  have eq: "zb_record z b fs = foldl (zb_record_field b) grown fs" by (simp add: zb_record_def grown_def)
  show "zb_wf (zb_record z b fs)" using r by (simp add: eq)
  show "covers z c g v \<Longrightarrow> covers (zb_record z b fs) c g v" using r keep by (simp add: eq)
  show "(f, bs) \<in> set fs \<Longrightarrow> covers (zb_record z b fs) b f (be_u64 bs)" using r by (auto simp: eq)
qed

fun zb_record_all :: "zone_builder \<Rightarrow> (nat \<times> (u32 \<times> bytes) list) list \<Rightarrow> zone_builder" where
  "zb_record_all z [] = z"
| "zb_record_all z ((b, fs) # es) = zb_record_all (zb_record z b fs) es"

lemma record_all_ok:
  "zb_wf z \<Longrightarrow> zb_wf (zb_record_all z es) \<and>
   (\<forall>c g v. covers z c g v \<longrightarrow> covers (zb_record_all z es) c g v) \<and>
   (\<forall>(b, fs) \<in> set es. \<forall>(f, bs) \<in> set fs. covers (zb_record_all z es) b f (be_u64 bs))"
proof (induction es arbitrary: z)
  case (Cons e es)
  obtain b fs where e: "e = (b, fs)" by (cases e)
  note r = zb_record_ok [OF Cons.prems]
  note ih = Cons.IH [OF r(1) [of b fs]]
  have "covers (zb_record_all z (e # es)) b f (be_u64 bs)" if "(f, bs) \<in> set fs" for f bs
    using ih r(3) [OF that] by (simp add: e)
  moreover have "covers (zb_record_all z (e # es)) c g v" if "covers z c g v" for c g v
    using ih r(2) [OF that] by (simp add: e)
  ultimately show ?case using ih by (auto simp: e)
qed simp

fun satisfies :: "CompareOp \<Rightarrow> u64 \<Rightarrow> u64 \<Rightarrow> bool" where
  "satisfies Eq v t = (v = t)"
| "satisfies Ne v t = (v \<noteq> t)"
| "satisfies Lt v t = (v < t)"
| "satisfies Le v t = (v \<le> t)"
| "satisfies Gt v t = (v > t)"
| "satisfies Ge v t = (v \<ge> t)"

text \<open>
  block skipping is safe. Record any zone-field values into any blocks, write the zone map to
  the SST and read it back: the read succeeds, and for every recorded value that satisfies a
  predicate the test for its block and field answers that the block could match, so a filtered scan
  never skips a block that holds a match.
\<close>

theorem zone_skip_sound:
  assumes "length (zb_bounds (zb_record_all zb_new es)) < 2 ^ 32"
    and "length (zb_field_ids (zb_record_all zb_new es)) < 2 ^ 32"
    and "(b, fs) \<in> set es" and "(f, bs) \<in> set fs" and "satisfies cmp (be_u64 bs) target"
  shows "\<exists>m. zm_read_from (zb_write_to (zb_record_all zb_new es) @ r) = Inr (m, r) \<and>
    block_could_match m b f cmp target"
proof -
  let ?z = "zb_record_all zb_new es"
  have "zb_wf zb_new" by (simp add: zb_wf_def zb_new_def)
  then have wf: "zb_wf ?z" and cov: "covers ?z b f (be_u64 bs)"
    using record_all_ok [of zb_new es] assms(3,4) by auto
  obtain m where m: "zm_read_from (zb_write_to ?z @ r) = Inr (m, r)" "zm_index m = zb_index ?z"
      "zm_num_fields m = length (zb_field_ids ?z)" "zm_bounds m = concat (map flat_row (zb_bounds ?z))"
    using zone_read_write [OF wf assms(1,2)] by blast
  obtain i where i: "b < length (zb_bounds ?z)" "zb_index ?z f = Some i"
      "fst (zb_bounds ?z ! b ! i) \<le> be_u64 bs" "be_u64 bs \<le> snd (zb_bounds ?z ! b ! i)"
    using cov by (auto simp: covers_def)
  have look: "zm_bounds_of m b f = Some (zb_bounds ?z ! b ! i)"
    by (rule zone_bounds_read [OF wf m(2,3,4) i(1,2)])
  have "block_could_match m b f cmp target"
    using i(3,4) assms(5)
    by (cases cmp; cases "zb_bounds ?z ! b ! i") (auto simp: block_could_match_def look)
  with m(1) show ?thesis by blast
qed

theorem zone_skip_sound_witness:
  "\<exists>m. zm_read_from (zb_write_to (zb_record_all zb_new [(0, [(7, u64_be 5)]), (1, [(7, u64_be 9)])]) @ []) = Inr (m, []) \<and>
    block_could_match m 1 7 Gt 8"
  by (rule zone_skip_sound [where fs = "[(7, u64_be 9)]" and bs = "u64_be 9"])
     (simp_all add: zb_record_def zb_record_field_def zb_new_def no_data_def Let_def)

end
