(* ===== verification/Sst.thy ===== *)
theory Sst
  imports Versions Bloom Zone
begin

text \<open>
  The sorted table files of \<^verbatim>\<open>rhypedb-storage/src/sst.rs\<close>: the writer, the file format (versions 1 to
  6, version 6 with a compressed frame per block), and the reader with its point reads, scans and
  full walks. A file is its bytes. The third-party functions (xxh3, the LZ4 codec) are fields of the
  parameter record \<open>sst_lib\<close>. Slicing a byte string out of range panics in Rust, which is the outcome
  \<open>Panic\<close>. This theory holds the definitions; the theories that import it prove the format round
  trip and the reads correct.
\<close>

definition fail_if :: "bool \<Rightarrow> string \<Rightarrow> unit outcome" where
  "fail_if c m = (if c then Fail (SstCorrupted m) else Return ())"

section \<open>Constants\<close>

definition SST_MAGIC :: bytes where
  "SST_MAGIC = [82, 83, 83, 84]"

definition SST_VERSION_UNCOMPRESSED :: u32 where
  "SST_VERSION_UNCOMPRESSED = 5"

definition SST_VERSION_COMPRESSED :: u32 where
  "SST_VERSION_COMPRESSED = 6"

definition SST_VERSION_MAX :: u32 where
  "SST_VERSION_MAX = 6"

definition BLOCK_FRAME_HEADER :: nat where
  "BLOCK_FRAME_HEADER = 1 + 4 + 4"

definition BLOCK_FLAG_RAW :: u8 where
  "BLOCK_FLAG_RAW = 0"

definition BLOCK_FLAG_LZ4 :: u8 where
  "BLOCK_FLAG_LZ4 = 1"

definition MAX_BLOCK_UNCOMP_LEN :: nat where
  "MAX_BLOCK_UNCOMP_LEN = 64 * 1024 * 1024"

datatype SstCompression = NoCompression | Lz4

definition FOOTER_V1_SIZE :: nat where
  "FOOTER_V1_SIZE = 8 + 4 + 4"

definition FOOTER_V2_SIZE :: nat where
  "FOOTER_V2_SIZE = 8 + 4 + 8 + 4 + 4"

definition FOOTER_V4_SIZE :: nat where
  "FOOTER_V4_SIZE = 8 + 4 + FOOTER_V2_SIZE"

definition TOMBSTONE_MARKER :: u32 where
  "TOMBSTONE_MARKER = - 1"

definition ENTRIES_PER_BLOCK :: nat where
  "ENTRIES_PER_BLOCK = 16"

lemmas sst_constants = SST_MAGIC_def SST_VERSION_UNCOMPRESSED_def SST_VERSION_COMPRESSED_def
  SST_VERSION_MAX_def BLOCK_FRAME_HEADER_def BLOCK_FLAG_RAW_def BLOCK_FLAG_LZ4_def
  FOOTER_V1_SIZE_def FOOTER_V2_SIZE_def FOOTER_V4_SIZE_def ENTRIES_PER_BLOCK_def

section \<open>Third-party functions\<close>

record sst_lib =
  lib_xxh3 :: "bytes \<Rightarrow> u64 \<Rightarrow> u64"
  lib_lz4_compress :: "bytes \<Rightarrow> bytes"
  lib_lz4_decompress :: "bytes \<Rightarrow> nat \<Rightarrow> bytes option"

text \<open>The documented behaviour of the LZ4 block codec: decompression inverts compression.\<close>

definition lz4_ok :: "sst_lib \<Rightarrow> bool" where
  "lz4_ok lib \<longleftrightarrow> (\<forall>b. lib_lz4_decompress lib (lib_lz4_compress lib b) (length b) = Some b)"

type_synonym zone_extractor = "bytes \<Rightarrow> bytes \<Rightarrow> (u32 \<times> bytes) list"

section \<open>The writer\<close>

text \<open>\<open>sw_out\<close> is what was written to the temporary file so far.\<close>

record sst_writer =
  sw_out :: bytes
  sw_index :: "(bytes \<times> nat) list"
  sw_offset :: nat
  sw_count :: nat
  sw_user_keys :: "bytes list"
  sw_extractor :: "zone_extractor option"
  sw_zone :: zone_builder
  sw_compression :: SstCompression
  sw_buf :: bytes

record sst_meta =
  sm_entry_count :: nat
  sm_first_key :: "bytes option"
  sm_last_key :: "bytes option"

definition sw_new_with_options :: "zone_extractor option \<Rightarrow> SstCompression \<Rightarrow> sst_writer" where
  "sw_new_with_options extractor compression =
     (let version = (case compression of
            NoCompression \<Rightarrow> SST_VERSION_UNCOMPRESSED | Lz4 \<Rightarrow> SST_VERSION_COMPRESSED)
      in \<lparr>sw_out = SST_MAGIC @ u32_be version, sw_index = [], sw_offset = length SST_MAGIC + 4,
          sw_count = 0, sw_user_keys = [], sw_extractor = extractor, sw_zone = zb_new,
          sw_compression = compression, sw_buf = []\<rparr>)"

definition sw_new_with_zone_extractor :: "zone_extractor option \<Rightarrow> sst_writer" where
  "sw_new_with_zone_extractor extractor = sw_new_with_options extractor NoCompression"

definition sw_new :: sst_writer where
  "sw_new = sw_new_with_options None NoCompression"

text \<open>The bytes \<^verbatim>\<open>flush_block\<close> writes for the buffered block.\<close>

definition block_frame :: "sst_lib \<Rightarrow> SstCompression \<Rightarrow> bytes \<Rightarrow> bytes" where
  "block_frame lib compression buf = (case compression of
      NoCompression \<Rightarrow> buf
    | Lz4 \<Rightarrow>
        let uncomp_len = length buf;
            compressed = lib_lz4_compress lib buf
        in if length compressed < uncomp_len
           then [BLOCK_FLAG_LZ4] @ u32_be (of_nat uncomp_len) @ u32_be (of_nat (length compressed)) @ compressed
           else [BLOCK_FLAG_RAW] @ u32_be (of_nat uncomp_len) @ u32_be (of_nat uncomp_len) @ buf)"

definition flush_block :: "sst_lib \<Rightarrow> sst_writer \<Rightarrow> sst_writer" where
  "flush_block lib w =
     (if sw_buf w = [] then w
      else let fr = block_frame lib (sw_compression w) (sw_buf w)
           in w\<lparr>sw_out := sw_out w @ fr, sw_offset := sw_offset w + length fr, sw_buf := []\<rparr>)"

definition entry_bytes :: "bytes \<Rightarrow> memval \<Rightarrow> bytes" where
  "entry_bytes ik val =
     (let key_len = of_nat (length ik) :: u32;
          (value_len, value_bytes) = (case val of
             Some v \<Rightarrow> (of_nat (length v), v) | None \<Rightarrow> (TOMBSTONE_MARKER, []))
      in u32_be key_len @ u32_be value_len @ ik @ value_bytes)"

definition sst_add :: "sst_lib \<Rightarrow> sst_writer \<Rightarrow> bytes \<Rightarrow> memval \<Rightarrow> sst_writer" where
  "sst_add lib w ik val =
     (let w1 = (if sw_count w mod ENTRIES_PER_BLOCK = 0
                then let w' = flush_block lib w
                     in w'\<lparr>sw_index := sw_index w' @ [(ik, sw_offset w')]\<rparr>
                else w);
          w2 = (case (sw_extractor w1, val) of
                  (Some extractor, Some v) \<Rightarrow>
                    let zone_fields = extractor ik v
                    in if zone_fields \<noteq> []
                       then w1\<lparr>sw_zone := zb_record (sw_zone w1) (sw_count w1 div ENTRIES_PER_BLOCK) zone_fields\<rparr>
                       else w1
                | _ \<Rightarrow> w1);
          w3 = (if 8 \<le> length ik then
                  let user_key = take (length ik - 8) ik
                  in if sw_user_keys w2 = [] \<or> last (sw_user_keys w2) \<noteq> user_key
                     then w2\<lparr>sw_user_keys := sw_user_keys w2 @ [user_key]\<rparr> else w2
                else w2)
      in w3\<lparr>sw_buf := sw_buf w3 @ entry_bytes ik val, sw_count := sw_count w3 + 1\<rparr>)"

definition index_entry_bytes :: "bytes \<times> nat \<Rightarrow> bytes" where
  "index_entry_bytes e = u32_be (of_nat (length (fst e))) @ fst e @ u64_be (of_nat (snd e))"

text \<open>\<^verbatim>\<open>finish\<close>: the file and its metadata; \<open>None\<close> if adding to the bloom filter panicked.\<close>

definition sst_finish :: "sst_lib \<Rightarrow> sst_writer \<Rightarrow> (bytes \<times> sst_meta) option" where
  "sst_finish lib w0 =
     (let w = flush_block lib w0;
          index_offset = sw_offset w;
          index_bytes = concat (map index_entry_bytes (sw_index w));
          zonemap_offset = index_offset + length index_bytes;
          zone_buf = zb_write_to (sw_zone w)
      in case bf_add_all (lib_xxh3 lib) (bf_new (length (sw_user_keys w))) (sw_user_keys w) of
        None \<Rightarrow> None
      | Some bloom \<Rightarrow>
          let bloom_offset = zonemap_offset + unat (of_nat (length zone_buf) :: u32);
              bloom_buf = hash_algo_to_byte (bf_algo bloom) # bf_write_to bloom;
              footer = u64_be (of_nat zonemap_offset) @ u32_be (of_nat (length zone_buf)) @
                       u64_be (of_nat bloom_offset) @ u32_be (of_nat (length bloom_buf)) @
                       u64_be (of_nat index_offset) @ u32_be (of_nat (length (sw_index w))) @ SST_MAGIC
          in Some (sw_out w @ index_bytes @ zone_buf @ bloom_buf @ footer,
                   \<lparr>sm_entry_count = sw_count w,
                    sm_first_key = (case sw_index w of [] \<Rightarrow> None | e # _ \<Rightarrow> Some (fst e)),
                    sm_last_key = (if sw_index w = [] then None else Some (fst (last (sw_index w))))\<rparr>))"

text \<open>What a flush or a compaction does: a new writer, every entry, finish.\<close>

definition sst_write :: "sst_lib \<Rightarrow> zone_extractor option \<Rightarrow> SstCompression \<Rightarrow> entry list \<Rightarrow>
    (bytes \<times> sst_meta) option" where
  "sst_write lib extractor compression es =
     sst_finish lib (foldl (\<lambda>w (ik, x). sst_add lib w ik x) (sw_new_with_options extractor compression) es)"

section \<open>The reader\<close>

record sst_reader =
  sr_data :: bytes
  sr_index :: "(bytes \<times> nat) list"
  sr_bloom :: "bloom option"
  sr_data_end :: nat
  sr_first_user_key :: "bytes option"
  sr_last_user_key :: "bytes option"
  sr_zone_map :: "zone_map option"
  sr_version :: u32

text \<open>One entry of a block, as every loop of the reader decodes it.\<close>

datatype parsed =
    PEnd
  | PKeyPast
  | PValuePast bytes
  | PEntry bytes memval bytes

definition decode_entry :: "bytes \<Rightarrow> parsed" where
  "decode_entry b =
     (if length b < 8 then PEnd
      else let key_len = unat (be_u32 (take 4 b));
               value_len_raw = be_u32 (take 4 (drop 4 b));
               r = drop 8 b
      in if length r < key_len then PKeyPast
      else let key = take key_len r;
               r' = drop key_len r;
               is_tombstone = (value_len_raw = TOMBSTONE_MARKER);
               value_len = (if is_tombstone then 0 else unat value_len_raw)
      in if length r' < value_len then PValuePast key
      else PEntry key (if is_tombstone then None else Some (take value_len r')) (drop value_len r'))"

lemma decode_entry_shorter: "decode_entry b = PEntry key x rest \<Longrightarrow> length rest < length b"
  by (auto simp: decode_entry_def Let_def split: if_splits)

definition block_end_offset :: "sst_reader \<Rightarrow> nat \<Rightarrow> nat" where
  "block_end_offset r block_idx =
     (if block_idx + 1 < length (sr_index r) then snd (sr_index r ! (block_idx + 1)) else sr_data_end r)"

definition decompress_frame :: "sst_lib \<Rightarrow> sst_reader \<Rightarrow> nat \<Rightarrow> nat \<Rightarrow> error + bytes" where
  "decompress_frame lib r start stop =
     (if start + BLOCK_FRAME_HEADER > stop then Inl (SstCorrupted ''v6 block frame header truncated'')
      else let flag = sr_data r ! start;
               uncomp_len = unat (be_u32 (take 4 (drop (start + 1) (sr_data r))));
               payload_len = unat (be_u32 (take 4 (drop (start + 5) (sr_data r))));
               payload_start = start + BLOCK_FRAME_HEADER
      in if payload_start + payload_len > stop then Inl (SstCorrupted ''v6 block payload past frame end'')
      else if uncomp_len > MAX_BLOCK_UNCOMP_LEN
        then Inl (SstCorrupted ''v6 block uncompressed length exceeds cap'')
      else let payload = take payload_len (drop payload_start (sr_data r))
      in if flag = BLOCK_FLAG_RAW then
           if payload_len \<noteq> uncomp_len then Inl (SstCorrupted ''v6 raw block length mismatch'')
           else Inr payload
         else if flag = BLOCK_FLAG_LZ4 then
           (case lib_lz4_decompress lib payload uncomp_len of
              None \<Rightarrow> Inl (SstCorrupted ''v6 block lz4 decode'')
            | Some out \<Rightarrow> if length out \<noteq> uncomp_len
                then Inl (SstCorrupted ''v6 block decompressed length mismatch'') else Inr out)
         else Inl (SstCorrupted ''v6 block unknown flag''))"

definition sst_block :: "sst_lib \<Rightarrow> sst_reader \<Rightarrow> nat \<Rightarrow> error + bytes" where
  "sst_block lib r block_idx =
     (let start = snd (sr_index r ! block_idx);
          stop = block_end_offset r block_idx
      in if start > stop \<or> stop > sr_data_end r then Inl (SstCorrupted ''block bounds out of range'')
         else if sr_version r < SST_VERSION_COMPRESSED then Inr (take (stop - start) (drop start (sr_data r)))
         else decompress_frame lib r start stop)"

function last_user_key_loop :: "bytes \<Rightarrow> bytes option \<Rightarrow> bytes option" where
  "last_user_key_loop b last_uk = (case decode_entry b of
      PEntry key x rest \<Rightarrow>
        last_user_key_loop rest (if 8 \<le> length key then Some (take (length key - 8) key) else last_uk)
    | PValuePast key \<Rightarrow> (if 8 \<le> length key then Some (take (length key - 8) key) else last_uk)
    | _ \<Rightarrow> last_uk)"
  by pat_completeness auto
termination
  by (relation "measure (\<lambda>(b, l). length b)") (auto dest: decode_entry_shorter)

declare last_user_key_loop.simps [simp del]

definition compute_last_user_key :: "sst_lib \<Rightarrow> sst_reader \<Rightarrow> error + bytes option" where
  "compute_last_user_key lib r =
     (if sr_index r = [] then Inr None
      else case sst_block lib r (length (sr_index r) - 1) of
        Inl e \<Rightarrow> Inl e
      | Inr blk \<Rightarrow> Inr (last_user_key_loop blk None))"

section \<open>Opening a file\<close>

definition of_result :: "error + 'a \<Rightarrow> 'a outcome" where
  "of_result x = (case x of Inl e \<Rightarrow> Fail e | Inr a \<Rightarrow> Return a)"

definition read_bloom :: "bytes \<Rightarrow> HashAlgo \<Rightarrow> bloom outcome" where
  "read_bloom b algo = (case bf_read_from b algo of
      Inl e \<Rightarrow> Fail (SstCorrupted ''bloom'') | Inr (f, _) \<Rightarrow> Return f)"

definition read_tagged_bloom :: "string \<Rightarrow> bytes \<Rightarrow> bloom outcome" where
  "read_tagged_bloom missing b = (case b of
      [] \<Rightarrow> Fail (SstCorrupted missing)
    | t # rest \<Rightarrow> (case hash_algo_from_byte t of
        None \<Rightarrow> Fail (SstCorrupted ''unknown bloom algo byte'')
      | Some algo \<Rightarrow> read_bloom rest algo))"

type_synonym footer_info = "nat \<times> nat \<times> bloom option \<times> zone_map option"

definition sst_footer_v4 :: "bytes \<Rightarrow> u32 \<Rightarrow> footer_info outcome" where
  "sst_footer_v4 data version =
     obind (fail_if (length data < length SST_MAGIC + 4 + FOOTER_V4_SIZE) ''v4/v5/v6 footer truncated'') (\<lambda>_.
     let footer_start = length data - FOOTER_V4_SIZE in
     obind (fail_if (drop (footer_start + 36) data \<noteq> SST_MAGIC) ''bad v4/v5 footer magic'') (\<lambda>_.
     obind (read_u64 data footer_start) (\<lambda>zonemap_offset.
     obind (read_u32 data (footer_start + 8)) (\<lambda>zonemap_size.
     obind (read_u64 data (footer_start + 12)) (\<lambda>bloom_offset.
     obind (read_u32 data (footer_start + 20)) (\<lambda>bloom_size.
     obind (read_u64 data (footer_start + 24)) (\<lambda>index_offset.
     obind (read_u32 data (footer_start + 32)) (\<lambda>index_count.
     obind (fail_if (zonemap_offset + zonemap_size > footer_start) ''zonemap extends past footer'') (\<lambda>_.
     obind (if version \<ge> 5
            then obind (slice data zonemap_offset (zonemap_offset + zonemap_size)) (\<lambda>zone_slice.
                 obind (of_result (zm_read_from zone_slice)) (\<lambda>(zm, _). Return (Some zm)))
            else Return None) (\<lambda>zone_map.
     obind (fail_if (bloom_offset + bloom_size > footer_start) ''bloom block extends past footer'') (\<lambda>_.
     obind (slice data bloom_offset (bloom_offset + bloom_size)) (\<lambda>bloom_slice.
     obind (read_tagged_bloom ''v4/v5 bloom missing algo byte'' bloom_slice) (\<lambda>bloom.
     Return (index_offset, index_count, Some bloom, zone_map))))))))))))))"

definition sst_footer_v2 :: "bytes \<Rightarrow> u32 \<Rightarrow> footer_info outcome" where
  "sst_footer_v2 data version =
     obind (fail_if (length data < length SST_MAGIC + 4 + FOOTER_V2_SIZE) ''v2/v3 footer truncated'') (\<lambda>_.
     let footer_start = length data - FOOTER_V2_SIZE in
     obind (fail_if (drop (footer_start + 24) data \<noteq> SST_MAGIC) ''bad footer magic'') (\<lambda>_.
     obind (read_u64 data footer_start) (\<lambda>bloom_offset.
     obind (read_u32 data (footer_start + 8)) (\<lambda>bloom_size.
     obind (read_u64 data (footer_start + 12)) (\<lambda>index_offset.
     obind (read_u32 data (footer_start + 20)) (\<lambda>index_count.
     obind (fail_if (bloom_offset + bloom_size > footer_start) ''bloom block extends past footer'') (\<lambda>_.
     obind (slice data bloom_offset (bloom_offset + bloom_size)) (\<lambda>bloom_slice.
     obind (if version = 3 then read_tagged_bloom ''v3 bloom missing algo byte'' bloom_slice
            else read_bloom bloom_slice Fnv1a) (\<lambda>bloom.
     Return (index_offset, index_count, Some bloom, None))))))))))"

definition sst_footer_v1 :: "bytes \<Rightarrow> footer_info outcome" where
  "sst_footer_v1 data =
     (let footer_start = length data - FOOTER_V1_SIZE in
     obind (fail_if (drop (footer_start + 12) data \<noteq> SST_MAGIC) ''bad footer magic'') (\<lambda>_.
     obind (read_u64 data footer_start) (\<lambda>index_offset.
     obind (read_u32 data (footer_start + 8)) (\<lambda>index_count.
     Return (index_offset, index_count, None, None)))))"

fun parse_index :: "bytes \<Rightarrow> nat \<Rightarrow> nat \<Rightarrow> (bytes \<times> nat) list outcome" where
  "parse_index data pos 0 = Return []"
| "parse_index data pos (Suc n) =
     obind (fail_if (pos + 4 > length data) ''index truncated'') (\<lambda>_.
     obind (read_u32 data pos) (\<lambda>key_len.
     obind (slice data (pos + 4) (pos + 4 + key_len)) (\<lambda>key.
     obind (read_u64 data (pos + 4 + key_len)) (\<lambda>off.
     obind (parse_index data (pos + 4 + key_len + 8) n) (\<lambda>rest.
     Return ((key, off) # rest))))))"

definition sst_open :: "sst_lib \<Rightarrow> bytes \<Rightarrow> sst_reader outcome" where
  "sst_open lib data =
     obind (fail_if (length data < length SST_MAGIC + 4 + FOOTER_V1_SIZE) ''file too small'') (\<lambda>_.
     obind (fail_if (take 4 data \<noteq> SST_MAGIC) ''bad magic'') (\<lambda>_.
     let version = be_u32 (take 4 (drop 4 data)) in
     obind (fail_if (\<not> (1 \<le> version \<and> version \<le> SST_VERSION_MAX)) ''unsupported version'') (\<lambda>_.
     obind (if version \<ge> 4 then sst_footer_v4 data version
            else if version = 2 \<or> version = 3 then sst_footer_v2 data version
            else sst_footer_v1 data) (\<lambda>(index_offset, index_count, bloom, zone_map).
     obind (parse_index data index_offset index_count) (\<lambda>index.
     let first_user_key = (case index of [] \<Rightarrow> None
           | (key, _) # _ \<Rightarrow> if 8 \<le> length key then Some (take (length key - 8) key) else None);
         reader = \<lparr>sr_data = data, sr_index = index, sr_bloom = bloom, sr_data_end = index_offset,
                   sr_first_user_key = first_user_key, sr_last_user_key = None,
                   sr_zone_map = zone_map, sr_version = version\<rparr> in
     obind (of_result (compute_last_user_key lib reader)) (\<lambda>last_uk.
     Return (reader\<lparr>sr_last_user_key := last_uk\<rparr>)))))))"

section \<open>Seeking\<close>

text \<open>
  \<^verbatim>\<open>binary_search_by\<close> on the sparse index, whose keys are sorted: the position of the key (\<open>Inr\<close>), or
  where it would be inserted (\<open>Inl\<close>).
\<close>

definition index_search :: "(bytes \<times> nat) list \<Rightarrow> bytes \<Rightarrow> nat + nat" where
  "index_search index key =
     (let i = length (takeWhile (\<lambda>e. fst e < key) index)
      in if i < length index \<and> fst (index ! i) = key then Inr i else Inl i)"

definition seek_key :: "bytes \<Rightarrow> bytes" where
  "seek_key user_key = user_key @ replicate 8 0"

definition block_at_or_before :: "(bytes \<times> nat) list \<Rightarrow> bytes \<Rightarrow> nat" where
  "block_at_or_before index key = (case index_search index key of
      Inr i \<Rightarrow> i | Inl i \<Rightarrow> if i = 0 then 0 else i - 1)"

definition locate_block_from :: "sst_reader \<Rightarrow> bytes \<Rightarrow> nat \<Rightarrow> nat" where
  "locate_block_from r user_key start =
     start + block_at_or_before (drop start (sr_index r)) (seek_key user_key)"

definition prefix_start_block_from :: "sst_reader \<Rightarrow> bytes \<Rightarrow> nat \<Rightarrow> nat" where
  "prefix_start_block_from r p start =
     start + block_at_or_before (drop start (sr_index r)) (seek_key p)"

definition prefix_start_offset :: "sst_reader \<Rightarrow> bytes \<Rightarrow> nat" where
  "prefix_start_offset r p =
     (if sr_index r = [] then length SST_MAGIC + 4
      else snd (sr_index r ! block_at_or_before (sr_index r) (seek_key p)))"

definition user_key_start_offset :: "sst_reader \<Rightarrow> bytes \<Rightarrow> nat" where
  "user_key_start_offset r start_user_key =
     (if sr_index r = [] then length SST_MAGIC + 4
      else snd (sr_index r ! block_at_or_before (sr_index r) (seek_key start_user_key)))"

fun block_idx_loop :: "nat \<Rightarrow> (bytes \<times> nat) list \<Rightarrow> nat \<Rightarrow> nat option" where
  "block_idx_loop i [] off = None"
| "block_idx_loop i (e # es) off = (if snd e > off then Some (i - 1) else block_idx_loop (Suc i) es off)"

definition block_idx_for_offset :: "sst_reader \<Rightarrow> nat \<Rightarrow> nat" where
  "block_idx_for_offset r off = (case block_idx_loop 0 (sr_index r) off of
      Some i \<Rightarrow> i | None \<Rightarrow> length (sr_index r) - 1)"

section \<open>Range and bloom tests\<close>

definition range_overlaps_sorted :: "sst_reader \<Rightarrow> bytes list \<Rightarrow> bool" where
  "range_overlaps_sorted r keys =
     (if keys = [] then False
      else case (sr_first_user_key r, sr_last_user_key r) of
        (Some first, Some lst) \<Rightarrow>
          if hd keys > lst then False else if last keys < first then False else True
      | _ \<Rightarrow> False)"

definition prefix_range_overlaps_sorted :: "sst_reader \<Rightarrow> bytes list \<Rightarrow> bool" where
  "prefix_range_overlaps_sorted r ps =
     (if ps = [] then False
      else case (sr_first_user_key r, sr_last_user_key r) of
        (Some first, Some lst) \<Rightarrow>
          if hd ps > lst then False
          else if last ps < first \<and> \<not> prefix (last ps) first then False else True
      | _ \<Rightarrow> False)"

text \<open>\<^verbatim>\<open>might_contain\<close>: \<open>None\<close> if the filter's bit array is indexed out of range.\<close>

definition might_contain :: "sst_lib \<Rightarrow> sst_reader \<Rightarrow> bytes \<Rightarrow> bool option" where
  "might_contain lib r user_key = (case sr_bloom r of
      Some f \<Rightarrow> bf_contains (lib_xxh3 lib) f user_key | None \<Rightarrow> Some True)"

section \<open>Point reads\<close>

function get_loop :: "bytes \<Rightarrow> bytes \<Rightarrow> memval option" where
  "get_loop target b = (case decode_entry b of
      PEntry key x rest \<Rightarrow>
        if key = target then Some x else if key > target then None else get_loop target rest
    | _ \<Rightarrow> None)"
  by pat_completeness auto
termination
  by (relation "measure (\<lambda>(t, b). length b)") (auto dest: decode_entry_shorter)

declare get_loop.simps [simp del]

definition sst_get :: "sst_lib \<Rightarrow> sst_reader \<Rightarrow> bytes \<Rightarrow> memval option outcome" where
  "sst_get lib r target_key =
     obind (if 8 \<le> length target_key then
              (case might_contain lib r (take (length target_key - 8) target_key) of
                 None \<Rightarrow> Panic | Some b \<Rightarrow> Return b)
            else Return True) (\<lambda>may.
     if \<not> may then Return None
     else (let scan = (\<lambda>block_idx. obind (of_result (sst_block lib r block_idx)) (\<lambda>blk.
             Return (get_loop target_key blk)))
       in case index_search (sr_index r) target_key of
         Inr i \<Rightarrow> scan i
       | Inl i \<Rightarrow> if i = 0 then Return None else scan (i - 1)))"

text \<open>
  The scan of one block by \<^verbatim>\<open>get_versioned\<close>: \<open>Some r\<close> when it returns \<open>r\<close>, \<open>None\<close> when it goes on to the
  next block.
\<close>

function get_versioned_loop :: "bytes \<Rightarrow> u64 \<Rightarrow> bytes \<Rightarrow> memval option option" where
  "get_versioned_loop user_key version b = (case decode_entry b of
      PEntry key x rest \<Rightarrow>
        if 8 \<le> length key then
          let entry_user_key = take (length key - 8) key;
              entry_version = NOT (be_u64 (drop (length key - 8) key))
          in if entry_user_key = user_key then
               if entry_version \<le> version then Some (Some x)
               else get_versioned_loop user_key version rest
             else if entry_user_key > user_key then Some None
             else get_versioned_loop user_key version rest
        else get_versioned_loop user_key version rest
    | _ \<Rightarrow> None)"
  by pat_completeness auto
termination
  by (relation "measure (\<lambda>(k, v, b). length b)") (auto dest: decode_entry_shorter)

declare get_versioned_loop.simps [simp del]

function get_versioned_blocks :: "sst_lib \<Rightarrow> sst_reader \<Rightarrow> bytes \<Rightarrow> u64 \<Rightarrow> nat \<Rightarrow> error + memval option" where
  "get_versioned_blocks lib r user_key version bi =
     (if bi < length (sr_index r) then
        (case sst_block lib r bi of
           Inl e \<Rightarrow> Inl e
         | Inr blk \<Rightarrow> (case get_versioned_loop user_key version blk of
             Some res \<Rightarrow> Inr res
           | None \<Rightarrow> get_versioned_blocks lib r user_key version (bi + 1)))
      else Inr None)"
  by pat_completeness auto
termination
  by (relation "measure (\<lambda>(l, r, k, v, bi). length (sr_index r) - bi)") auto

declare get_versioned_blocks.simps [simp del]

definition sst_get_versioned :: "sst_lib \<Rightarrow> sst_reader \<Rightarrow> bytes \<Rightarrow> u64 \<Rightarrow> memval option outcome" where
  "sst_get_versioned lib r user_key version =
     (if sr_index r = [] then Return None
      else case might_contain lib r user_key of
        None \<Rightarrow> Panic
      | Some may \<Rightarrow>
          if \<not> may then Return None
          else of_result (get_versioned_blocks lib r user_key version
                 (block_at_or_before (sr_index r) (internal_key user_key (- 1)))))"

section \<open>Walks and scans\<close>

function for_each_loop :: "bytes \<Rightarrow> error + entry list" where
  "for_each_loop b = (case decode_entry b of
      PEnd \<Rightarrow> Inr []
    | PKeyPast \<Rightarrow> Inl (SstCorrupted ''entry key extends past block end'')
    | PValuePast key \<Rightarrow> Inl (SstCorrupted ''entry value extends past block end'')
    | PEntry key x rest \<Rightarrow> map_sum id (\<lambda>es. (key, x) # es) (for_each_loop rest))"
  by pat_completeness auto
termination
  by (relation "measure length") (auto dest: decode_entry_shorter)

declare for_each_loop.simps [simp del]

text \<open>\<^verbatim>\<open>try_for_each_entry\<close>, as the list of the entries the callback gets.\<close>

fun for_each_blocks :: "sst_lib \<Rightarrow> sst_reader \<Rightarrow> nat list \<Rightarrow> error + entry list" where
  "for_each_blocks lib r [] = Inr []"
| "for_each_blocks lib r (bi # bis) = (case sst_block lib r bi of
      Inl e \<Rightarrow> Inl e
    | Inr blk \<Rightarrow> (case for_each_loop blk of
        Inl e \<Rightarrow> Inl e
      | Inr es \<Rightarrow> map_sum id (\<lambda>rest. es @ rest) (for_each_blocks lib r bis)))"

definition try_for_each_entry :: "sst_lib \<Rightarrow> sst_reader \<Rightarrow> error + entry list" where
  "try_for_each_entry lib r = for_each_blocks lib r [0..<length (sr_index r)]"

definition sst_max_version :: "sst_lib \<Rightarrow> sst_reader \<Rightarrow> error + u64" where
  "sst_max_version lib r = map_sum id (\<lambda>es. foldl (\<lambda>m (key, x).
       if 8 \<le> length key then max m (NOT (be_u64 (drop (length key - 8) key))) else m) 0 es)
     (try_for_each_entry lib r)"

text \<open>
  The iterator over one block: its entries, and whether it went through to the end of the block (else
  the iteration is over).
\<close>

function iter_block :: "bytes \<Rightarrow> entry list \<times> bool" where
  "iter_block b = (if b = [] then ([], True)
     else case decode_entry b of
       PEntry key x rest \<Rightarrow> (case iter_block rest of (es, ok) \<Rightarrow> ((key, x) # es, ok))
     | _ \<Rightarrow> ([], False))"
  by pat_completeness auto
termination
  by (relation "measure length") (auto dest: decode_entry_shorter)

declare iter_block.simps [simp del]

function iter_rest :: "sst_lib \<Rightarrow> sst_reader \<Rightarrow> nat \<Rightarrow> entry list" where
  "iter_rest lib r bi =
     (if bi < length (sr_index r) then
        (case sst_block lib r bi of
           Inl e \<Rightarrow> []
         | Inr blk \<Rightarrow> (case iter_block blk of (es, ok) \<Rightarrow>
             es @ (if ok then iter_rest lib r (bi + 1) else [])))
      else [])"
  by pat_completeness auto
termination
  by (relation "measure (\<lambda>(l, r, bi). length (sr_index r) - bi)") auto

declare iter_rest.simps [simp del]

definition sst_iter_from :: "sst_lib \<Rightarrow> sst_reader \<Rightarrow> nat \<Rightarrow> entry list" where
  "sst_iter_from lib r start =
     (if sr_index r = [] \<or> start \<ge> sr_data_end r then []
      else let block_idx = block_idx_for_offset r start;
               block_start = snd (sr_index r ! block_idx)
      in case sst_block lib r block_idx of
        Inl e \<Rightarrow> []
      | Inr blk \<Rightarrow> (case iter_block (drop (start - block_start) blk) of (es, ok) \<Rightarrow>
          es @ (if ok then iter_rest lib r (block_idx + 1) else [])))"

definition sst_iter :: "sst_lib \<Rightarrow> sst_reader \<Rightarrow> entry list" where
  "sst_iter lib r = sst_iter_from lib r (length SST_MAGIC + 4)"

text \<open>The loop of \<^verbatim>\<open>scan_prefix_impl\<close> and \<^verbatim>\<open>scan_from_max\<close>; \<open>n\<close> is the number of entries pushed so far.\<close>

fun sst_scan_loop ::
    "bytes \<Rightarrow> bytes \<Rightarrow> u64 \<Rightarrow> nat \<Rightarrow> nat \<Rightarrow> bytes option \<Rightarrow> entry list \<Rightarrow> (bytes \<times> memval) list" where
  "sst_scan_loop p start version max_distinct n last_user_key [] = []"
| "sst_scan_loop p start version max_distinct n last_user_key ((key, x) # es) =
     (if length key < 8 then sst_scan_loop p start version max_distinct n last_user_key es
      else let user_key = take (length key - 8) key;
               entry_version = NOT (be_u64 (drop (length key - 8) key))
      in if user_key < start
        then sst_scan_loop p start version max_distinct n last_user_key es
      else if \<not> prefix p user_key then []
      else if entry_version > version
        then sst_scan_loop p start version max_distinct n last_user_key es
      else if last_user_key = Some user_key
        then sst_scan_loop p start version max_distinct n last_user_key es
      else (user_key, x) #
        (if max_distinct \<le> n + 1 then []
         else sst_scan_loop p start version max_distinct (n + 1) (Some user_key) es))"

definition sst_scan_prefix_impl :: "sst_lib \<Rightarrow> sst_reader \<Rightarrow> bytes \<Rightarrow> u64 \<Rightarrow> nat \<Rightarrow> (bytes \<times> memval) list" where
  "sst_scan_prefix_impl lib r p version max_distinct =
     (if max_distinct = 0 then []
      else sst_scan_loop p p version max_distinct 0 None (sst_iter_from lib r (prefix_start_offset r p)))"

definition sst_scan_prefix :: "sst_lib \<Rightarrow> sst_reader \<Rightarrow> bytes \<Rightarrow> u64 \<Rightarrow> (bytes \<times> memval) list" where
  "sst_scan_prefix lib r p version = sst_scan_prefix_impl lib r p version (2 ^ 64 - 1)"

definition sst_scan_prefix_max :: "sst_lib \<Rightarrow> sst_reader \<Rightarrow> bytes \<Rightarrow> u64 \<Rightarrow> nat \<Rightarrow> (bytes \<times> memval) list" where
  "sst_scan_prefix_max lib r p version max_distinct = sst_scan_prefix_impl lib r p version max_distinct"

definition sst_scan_from_max ::
    "sst_lib \<Rightarrow> sst_reader \<Rightarrow> bytes \<Rightarrow> bytes \<Rightarrow> u64 \<Rightarrow> nat \<Rightarrow> (bytes \<times> memval) list" where
  "sst_scan_from_max lib r p start version max_distinct =
     (if max_distinct = 0 \<or> \<not> prefix p start then []
      else sst_scan_loop p start version max_distinct 0 None
             (sst_iter_from lib r (user_key_start_offset r start)))"

text \<open>
  One block of the filtered scan of compressed files: what it pushes, the key pushed last, and
  whether the scan goes on.
\<close>

function filtered_block ::
    "bytes \<Rightarrow> u64 \<Rightarrow> bytes option \<Rightarrow> bytes \<Rightarrow> (bytes \<times> memval) list \<times> bytes option \<times> bool" where
  "filtered_block p version last_user_key b = (case decode_entry b of
      PEntry key x rest \<Rightarrow>
        if length key < 8 then filtered_block p version last_user_key rest
        else let user_key = take (length key - 8) key;
                 entry_version = NOT (be_u64 (drop (length key - 8) key))
        in if user_key < p then filtered_block p version last_user_key rest
        else if \<not> prefix p user_key then ([], last_user_key, False)
        else if entry_version > version then filtered_block p version last_user_key rest
        else if last_user_key = Some user_key then filtered_block p version last_user_key rest
        else (case filtered_block p version (Some user_key) rest of
            (es, l, go) \<Rightarrow> ((user_key, x) # es, l, go))
    | _ \<Rightarrow> ([], last_user_key, True))"
  by pat_completeness auto
termination
  by (relation "measure (\<lambda>(p, v, l, b). length b)") (auto dest: decode_entry_shorter)

declare filtered_block.simps [simp del]

function filtered_blocks :: "sst_lib \<Rightarrow> sst_reader \<Rightarrow> zone_map \<Rightarrow> field_predicate \<Rightarrow>
    bytes \<Rightarrow> u64 \<Rightarrow> bytes option \<Rightarrow> nat \<Rightarrow> (bytes \<times> memval) list" where
  "filtered_blocks lib r zm pred p version last_user_key bi =
     (if bi < length (sr_index r) then
        if \<not> block_could_match zm bi (fp_field_id pred) (fp_op pred) (fp_target pred)
        then filtered_blocks lib r zm pred p version None (bi + 1)
        else (case sst_block lib r bi of
            Inl e \<Rightarrow> []
          | Inr blk \<Rightarrow> (case filtered_block p version last_user_key blk of
              (es, l, go) \<Rightarrow> es @ (if go then filtered_blocks lib r zm pred p version l (bi + 1) else [])))
      else [])"
  by pat_completeness auto
termination
  by (relation "measure (\<lambda>(l, r, z, q, p, v, k, bi). length (sr_index r) - bi)") auto

declare filtered_blocks.simps [simp del]

definition scan_prefix_filtered_v6 ::
    "sst_lib \<Rightarrow> sst_reader \<Rightarrow> bytes \<Rightarrow> u64 \<Rightarrow> field_predicate \<Rightarrow> (bytes \<times> memval) list" where
  "scan_prefix_filtered_v6 lib r p version pred = (case sr_zone_map r of
      None \<Rightarrow> sst_scan_prefix lib r p version
    | Some zm \<Rightarrow> filtered_blocks lib r zm pred p version None
        (block_idx_for_offset r (prefix_start_offset r p)))"

end
