(* ===== verification/Sst_Format.thy ===== *)
theory Sst_Format
  imports Sst
begin

text \<open>
  The file format of SST files round-trips: opening what the writer wrote succeeds and gives a
  reader whose sparse index and blocks are those of the entries, for both data layouts. The relation
  \<open>sst_repr\<close> between a reader and an entry list is what the proofs about reads start from.
\<close>

section \<open>Entries and blocks\<close>

definition entry_fits :: "entry \<Rightarrow> bool" where
  "entry_fits e \<longleftrightarrow> length (fst e) < 2 ^ 32 \<and> (case snd e of Some v \<Rightarrow> length v < 2 ^ 32 - 1 | None \<Rightarrow> True)"

definition enc_block :: "entry list \<Rightarrow> bytes" where
  "enc_block es = concat (map (\<lambda>e. entry_bytes (fst e) (snd e)) es)"

lemma enc_block_simps [simp]:
  "enc_block [] = []" "enc_block (e # es) = entry_bytes (fst e) (snd e) @ enc_block es"
  "enc_block (a @ b) = enc_block a @ enc_block b"
  by (simp_all add: enc_block_def)

lemma length_entry_bytes:
  "length (entry_bytes ik x) = 8 + length ik + (case x of Some v \<Rightarrow> length v | None \<Rightarrow> 0)"
  by (simp add: entry_bytes_def Let_def split: option.splits)

lemma entry_bytes_not_Nil [simp]: "entry_bytes ik x \<noteq> []"
  using length_entry_bytes [of ik x] by (metis add_is_0 list.size(3) zero_neq_numeral)

lemma enc_block_eq_Nil [simp]: "enc_block es = [] \<longleftrightarrow> es = []"
  by (cases es) auto

lemma tombstone_neq: "length v < 2 ^ 32 - 1 \<Longrightarrow> (of_nat (length v) :: u32) \<noteq> TOMBSTONE_MARKER"
proof
  assume l: "length v < 2 ^ 32 - 1" and eq: "(of_nat (length v) :: u32) = TOMBSTONE_MARKER"
  have "unat (of_nat (length v) :: u32) = length v" using l by (simp add: unat_of_nat)
  moreover have "unat TOMBSTONE_MARKER = 2 ^ 32 - 1"
    by (simp add: TOMBSTONE_MARKER_def unsigned_minus_1_eq_mask mask_eq_exp_minus_1)
  ultimately show False using l eq by simp
qed

lemma decode_entry_bytes:
  assumes "entry_fits (ik, x)"
  shows "decode_entry (entry_bytes ik x @ rest) = PEntry ik x rest"
proof -
  have k: "unat (of_nat (length ik) :: u32) = length ik" using assms by (simp add: entry_fits_def unat_of_nat)
  show ?thesis
  proof (cases x)
    case None
    then show ?thesis by (simp add: decode_entry_def entry_bytes_def Let_def k)
  next
    case (Some v)
    then have v: "length v < 2 ^ 32 - 1" using assms by (simp add: entry_fits_def)
    then have "unat (of_nat (length v) :: u32) = length v" by (simp add: unat_of_nat)
    with Some v tombstone_neq [OF v] show ?thesis
      by (simp add: decode_entry_def entry_bytes_def Let_def k)
  qed
qed

lemma decode_entry_Nil [simp]: "decode_entry [] = PEnd"
  by (simp add: decode_entry_def)

lemma iter_block_enc: "\<forall>e \<in> set es. entry_fits e \<Longrightarrow> iter_block (enc_block es) = (es, True)"
proof (induction es)
  case (Cons e es)
  then have "decode_entry (enc_block (e # es)) = PEntry (fst e) (snd e) (enc_block es)"
    by (simp add: decode_entry_bytes)
  with Cons show ?case by (subst iter_block.simps) simp
qed (simp add: iter_block.simps)

lemma for_each_loop_enc: "\<forall>e \<in> set es. entry_fits e \<Longrightarrow> for_each_loop (enc_block es) = Inr es"
proof (induction es)
  case (Cons e es)
  then have "decode_entry (enc_block (e # es)) = PEntry (fst e) (snd e) (enc_block es)"
    by (simp add: decode_entry_bytes)
  with Cons show ?case by (subst for_each_loop.simps) simp
qed (simp add: for_each_loop.simps)

lemma last_user_key_loop_enc:
  "\<forall>e \<in> set es. entry_fits e \<Longrightarrow> long_keys es \<Longrightarrow>
   last_user_key_loop (enc_block es) l = (if es = [] then l else Some (ik_user_key (fst (last es))))"
proof (induction es arbitrary: l)
  case (Cons e es)
  then have "decode_entry (enc_block (e # es)) = PEntry (fst e) (snd e) (enc_block es)"
    by (simp add: decode_entry_bytes)
  with Cons show ?case by (subst last_user_key_loop.simps) (simp add: ik_user_key_def)
qed (simp add: last_user_key_loop.simps)

section \<open>The data region and its index\<close>

text \<open>The entries of a file are split into blocks \<open>cs\<close>, each written as one frame.\<close>

abbreviation frame_of :: "sst_lib \<Rightarrow> SstCompression \<Rightarrow> entry list \<Rightarrow> bytes" where
  "frame_of lib cmp c \<equiv> block_frame lib cmp (enc_block c)"

definition region :: "sst_lib \<Rightarrow> SstCompression \<Rightarrow> entry list list \<Rightarrow> bytes" where
  "region lib cmp cs = concat (map (frame_of lib cmp) cs)"

definition index_of :: "sst_lib \<Rightarrow> SstCompression \<Rightarrow> entry list list \<Rightarrow> (bytes \<times> nat) list" where
  "index_of lib cmp cs =
     map (\<lambda>i. (fst (hd (cs ! i)), 8 + length (region lib cmp (take i cs)))) [0..<length cs]"

lemma region_simps [simp]:
  "region lib cmp [] = []" "region lib cmp (a @ b) = region lib cmp a @ region lib cmp b"
  "region lib cmp [c] = frame_of lib cmp c"
  by (simp_all add: region_def)

lemma length_index_of [simp]: "length (index_of lib cmp cs) = length cs"
  by (simp add: index_of_def)

lemma index_of_nth:
  "i < length cs \<Longrightarrow> index_of lib cmp cs ! i = (fst (hd (cs ! i)), 8 + length (region lib cmp (take i cs)))"
  by (simp add: index_of_def)

lemma index_of_snoc:
  "index_of lib cmp (bs @ [c]) = index_of lib cmp bs @ [(fst (hd c), 8 + length (region lib cmp bs))]"
  by (simp add: index_of_def nth_append)

lemma index_of_Nil [simp]: "index_of lib cmp [] = []"
  by (simp add: index_of_def)

section \<open>What the writer has written\<close>

definition file_header :: "SstCompression \<Rightarrow> bytes" where
  "file_header cmp = SST_MAGIC @ u32_be (case cmp of
      NoCompression \<Rightarrow> SST_VERSION_UNCOMPRESSED | Lz4 \<Rightarrow> SST_VERSION_COMPRESSED)"

lemma length_file_header [simp]: "length (file_header cmp) = 8"
  by (simp add: file_header_def SST_MAGIC_def)

definition writer_inv :: "sst_lib \<Rightarrow> SstCompression \<Rightarrow> entry list \<Rightarrow> sst_writer \<Rightarrow> bool" where
  "writer_inv lib cmp es w \<longleftrightarrow> sw_count w = length es \<and> sw_compression w = cmp \<and>
     set (sw_user_keys w) = ik_user_key ` fst ` {e \<in> set es. 8 \<le> length (fst e)} \<and>
     length (sw_user_keys w) \<le> length es \<and> sw_offset w = length (sw_out w) \<and>
     (\<exists>bs c. es = concat bs @ c \<and> (\<forall>b \<in> set bs. length b = 16) \<and> length c \<le> 16 \<and>
        (c = [] \<longrightarrow> bs = []) \<and> sw_out w = file_header cmp @ region lib cmp bs \<and>
        sw_buf w = enc_block c \<and> sw_index w = index_of lib cmp (if c = [] then [] else bs @ [c]))"

lemma writer_inv_new: "writer_inv lib cmp [] (sw_new_with_options ext cmp)"
  by (auto simp: writer_inv_def sw_new_with_options_def Let_def file_header_def SST_MAGIC_def
      split: SstCompression.splits)

lemma block_frame_not_Nil: "b \<noteq> [] \<Longrightarrow> block_frame lib cmp b \<noteq> []"
  by (simp add: block_frame_def Let_def split: SstCompression.splits)

lemma flush_block_fields [simp]:
  "sw_count (flush_block lib w) = sw_count w" "sw_index (flush_block lib w) = sw_index w"
  "sw_user_keys (flush_block lib w) = sw_user_keys w" "sw_compression (flush_block lib w) = sw_compression w"
  "sw_zone (flush_block lib w) = sw_zone w" "sw_extractor (flush_block lib w) = sw_extractor w"
  "sw_buf (flush_block lib w) = []"
  by (simp_all add: flush_block_def Let_def)

lemma flush_block_out:
  "sw_out (flush_block lib w) =
   sw_out w @ (if sw_buf w = [] then [] else block_frame lib (sw_compression w) (sw_buf w))"
  "sw_offset w = length (sw_out w) \<Longrightarrow> sw_offset (flush_block lib w) = length (sw_out (flush_block lib w))"
  by (simp_all add: flush_block_def Let_def)

text \<open>The parts of \<^verbatim>\<open>add\<close> that do not touch the data region.\<close>

definition add_meta :: "sst_writer \<Rightarrow> bytes \<Rightarrow> memval \<Rightarrow> sst_writer" where
  "add_meta w1 ik val =
     (let w2 = (case (sw_extractor w1, val) of
                  (Some extractor, Some v) \<Rightarrow>
                    let zone_fields = extractor ik v
                    in if zone_fields \<noteq> []
                       then w1\<lparr>sw_zone := zb_record (sw_zone w1) (sw_count w1 div ENTRIES_PER_BLOCK) zone_fields\<rparr>
                       else w1
                | _ \<Rightarrow> w1)
      in if 8 \<le> length ik then
           let user_key = take (length ik - 8) ik
           in if sw_user_keys w2 = [] \<or> last (sw_user_keys w2) \<noteq> user_key
              then w2\<lparr>sw_user_keys := sw_user_keys w2 @ [user_key]\<rparr> else w2
         else w2)"

lemma add_meta_fields:
  "sw_count (add_meta w ik x) = sw_count w" "sw_index (add_meta w ik x) = sw_index w"
  "sw_compression (add_meta w ik x) = sw_compression w" "sw_buf (add_meta w ik x) = sw_buf w"
  "sw_out (add_meta w ik x) = sw_out w" "sw_offset (add_meta w ik x) = sw_offset w"
  by (simp_all add: add_meta_def Let_def split: option.splits)

lemma add_meta_user_keys:
  "set (sw_user_keys (add_meta w ik x)) =
     set (sw_user_keys w) \<union> (if 8 \<le> length ik then {ik_user_key ik} else {})"
  "length (sw_user_keys (add_meta w ik x)) \<le> Suc (length (sw_user_keys w))"
  by (auto simp: add_meta_def Let_def ik_user_key_def split: option.splits) (metis last_in_set)+

lemma sst_add_eq:
  "sst_add lib w ik x =
   (let w1 = (if sw_count w mod 16 = 0
              then (flush_block lib w)\<lparr>sw_index := sw_index w @ [(ik, sw_offset (flush_block lib w))]\<rparr> else w);
        w3 = add_meta w1 ik x
    in w3\<lparr>sw_buf := sw_buf w3 @ entry_bytes ik x, sw_count := sw_count w3 + 1\<rparr>)"
  by (simp only: sst_add_def add_meta_def Let_def flush_block_fields ENTRIES_PER_BLOCK_def)

lemma length_concat_16: "\<forall>b \<in> set bs. length b = 16 \<Longrightarrow> length (concat bs) = 16 * length bs"
  by (induction bs) auto

lemma writer_inv_add:
  assumes "writer_inv lib cmp es w"
  shows "writer_inv lib cmp (es @ [(ik, x)]) (sst_add lib w ik x)"
proof -
  obtain bs c where bc: "es = concat bs @ c" "\<forall>b \<in> set bs. length b = 16" "length c \<le> 16"
      "c = [] \<longrightarrow> bs = []" "sw_out w = file_header cmp @ region lib cmp bs"
      "sw_buf w = enc_block c" "sw_index w = index_of lib cmp (if c = [] then [] else bs @ [c])"
    and w: "sw_count w = length es" "sw_compression w = cmp" "sw_offset w = length (sw_out w)"
      "set (sw_user_keys w) = ik_user_key ` fst ` {e \<in> set es. 8 \<le> length (fst e)}"
      "length (sw_user_keys w) \<le> length es"
    using assms unfolding writer_inv_def by blast
  have cnt: "sw_count w mod 16 = 0 \<longleftrightarrow> c = [] \<or> length c = 16"
    using bc(1,3) length_concat_16 [OF bc(2)] w(1)
    by (cases "c = []") (auto simp: mod_eq_0_iff_dvd dest!: dvd_imp_le)
  let ?w' = "sst_add lib w ik x"
  define bs' where "bs' = (if sw_count w mod 16 = 0 then (if c = [] then [] else bs @ [c]) else bs)"
  define c' where "c' = (if sw_count w mod 16 = 0 then [(ik, x)] else c @ [(ik, x)])"
  have es: "es @ [(ik, x)] = concat bs' @ c'" using bc(1,4) by (auto simp: bs'_def c'_def)
  have len: "\<forall>b \<in> set bs'. length b = 16" "length c' \<le> 16" "c' \<noteq> []"
    using bc(2,3) cnt by (auto simp: bs'_def c'_def le_less)
  have out: "sw_out ?w' = file_header cmp @ region lib cmp bs'"
    using bc(4,5,6) w(2) by (auto simp: sst_add_eq Let_def add_meta_fields flush_block_out bs'_def)
  have off: "sw_offset ?w' = length (sw_out ?w')"
    using w(3) flush_block_out(2) [of w lib] by (simp add: sst_add_eq Let_def add_meta_fields)
  have buf: "sw_buf ?w' = enc_block c'"
    using bc(6) by (simp add: sst_add_eq Let_def add_meta_fields c'_def)
  have idx: "sw_index ?w' = index_of lib cmp (bs' @ [c'])"
  proof (cases "sw_count w mod 16 = 0")
    case True
    have "sw_offset (flush_block lib w) = 8 + length (region lib cmp bs')"
      using True out off by (simp add: sst_add_eq Let_def add_meta_fields)
    then show ?thesis
      using True bc(7) by (simp add: sst_add_eq Let_def add_meta_fields index_of_snoc bs'_def c'_def)
  next
    case False
    then have "c \<noteq> []" using cnt by auto
    then show ?thesis using False bc(7) by (simp add: sst_add_eq Let_def add_meta_fields index_of_snoc bs'_def c'_def)
  qed
  have keys: "set (sw_user_keys ?w') = ik_user_key ` fst ` {e \<in> set (es @ [(ik, x)]). 8 \<le> length (fst e)}"
  proof -
    have "{e \<in> set (es @ [(ik, x)]). 8 \<le> length (fst e)} =
        {e \<in> set es. 8 \<le> length (fst e)} \<union> (if 8 \<le> length ik then {(ik, x)} else {})" by auto
    then show ?thesis using w(4) by (simp add: sst_add_eq Let_def add_meta_user_keys image_Un)
  qed
  have "length (sw_user_keys ?w') \<le> length (es @ [(ik, x)])"
    using w(5) add_meta_user_keys(2) [of w ik x]
      add_meta_user_keys(2) [of "(flush_block lib w)\<lparr>sw_index := sw_index w @ [(ik, sw_offset (flush_block lib w))]\<rparr>" ik x]
    by (simp add: sst_add_eq Let_def)
  moreover have "sw_count ?w' = length (es @ [(ik, x)])" "sw_compression ?w' = cmp"
    using w(1,2) by (simp_all add: sst_add_eq Let_def add_meta_fields)
  moreover have "\<exists>bs c. es @ [(ik, x)] = concat bs @ c \<and> (\<forall>b \<in> set bs. length b = 16) \<and> length c \<le> 16 \<and>
      (c = [] \<longrightarrow> bs = []) \<and> sw_out ?w' = file_header cmp @ region lib cmp bs \<and>
      sw_buf ?w' = enc_block c \<and> sw_index ?w' = index_of lib cmp (if c = [] then [] else bs @ [c])"
    using es len out buf idx by (intro exI [of _ bs'] exI [of _ c']) simp
  ultimately show ?thesis
    unfolding writer_inv_def using off keys by blast
qed

lemma writer_inv_all:
  "writer_inv lib cmp es (foldl (\<lambda>w (ik, x). sst_add lib w ik x) (sw_new_with_options ext cmp) es)"
  by (induction es rule: rev_induct) (auto simp: writer_inv_new writer_inv_add)

section \<open>Reading a block\<close>

definition blocks_fit :: "SstCompression \<Rightarrow> entry list \<Rightarrow> bool" where
  "blocks_fit cmp es \<longleftrightarrow> (\<forall>e \<in> set es. entry_fits e \<and>
     (cmp = Lz4 \<longrightarrow> length (entry_bytes (fst e) (snd e)) \<le> MAX_BLOCK_UNCOMP_LEN div 16))"

lemma enc_block_bound:
  assumes "\<forall>e \<in> set c. length (entry_bytes (fst e) (snd e)) \<le> b"
  shows "length (enc_block c) \<le> length c * b"
  using assms by (induction c) auto

definition reader_shape :: "sst_lib \<Rightarrow> SstCompression \<Rightarrow> entry list list \<Rightarrow> sst_reader \<Rightarrow> bool" where
  "reader_shape lib cmp cs r \<longleftrightarrow> sr_index r = index_of lib cmp cs \<and>
     sr_data_end r = 8 + length (region lib cmp cs) \<and>
     (\<exists>rest. sr_data r = file_header cmp @ region lib cmp cs @ rest) \<and>
     (sr_version r < SST_VERSION_COMPRESSED \<longleftrightarrow> cmp = NoCompression)"

lemma u32_frame_fields:
  fixes a b :: u32
  assumes "d = pre @ (flag # u32_be a @ u32_be b @ payload) @ post"
  shows "d ! length pre = flag" "take 4 (drop (length pre + 1) d) = u32_be a"
    "take 4 (drop (length pre + 5) d) = u32_be b" "take (length payload) (drop (length pre + 9) d) = payload"
  using assms by (simp_all add: nth_append)

lemma frame_roundtrip:
  assumes lz4: "lz4_ok lib" and data: "sr_data r = pre @ block_frame lib Lz4 b @ post"
    and small: "length b \<le> MAX_BLOCK_UNCOMP_LEN"
  shows "decompress_frame lib r (length pre) (length pre + length (block_frame lib Lz4 b)) = Inr b"
proof -
  have l: "length b < 2 ^ 32" using small by (simp add: MAX_BLOCK_UNCOMP_LEN_def)
  then have ub: "unat (of_nat (length b) :: u32) = length b" by (simp add: unat_of_nat)
  have dec: "lib_lz4_decompress lib (lib_lz4_compress lib b) (length b) = Some b"
    using lz4 by (simp add: lz4_ok_def)
  show ?thesis
  proof (cases "length (lib_lz4_compress lib b) < length b")
    case True
    let ?z = "lib_lz4_compress lib b"
    have fr: "block_frame lib Lz4 b =
        BLOCK_FLAG_LZ4 # u32_be (of_nat (length b)) @ u32_be (of_nat (length ?z)) @ ?z"
      using True by (simp add: block_frame_def Let_def)
    have uz: "unat (of_nat (length ?z) :: u32) = length ?z" using True l by (simp add: unat_of_nat)
    note f = u32_frame_fields [OF data [unfolded fr]]
    show ?thesis
      unfolding fr decompress_frame_def Let_def f BLOCK_FRAME_HEADER_def
      using f(4) dec small by (simp add: ub uz BLOCK_FLAG_RAW_def BLOCK_FLAG_LZ4_def)
  next
    case False
    have fr: "block_frame lib Lz4 b =
        BLOCK_FLAG_RAW # u32_be (of_nat (length b)) @ u32_be (of_nat (length b)) @ b"
      using False by (simp add: block_frame_def Let_def)
    note f = u32_frame_fields [OF data [unfolded fr]]
    show ?thesis
      unfolding fr decompress_frame_def Let_def f BLOCK_FRAME_HEADER_def
      using f(4) small by (simp add: ub BLOCK_FLAG_RAW_def)
  qed
qed

lemma region_split:
  "i < length cs \<Longrightarrow> region lib cmp cs =
     region lib cmp (take i cs) @ frame_of lib cmp (cs ! i) @ region lib cmp (drop (Suc i) cs)"
proof -
  assume "i < length cs"
  then have "cs = take i cs @ [cs ! i] @ drop (Suc i) cs" by (simp add: id_take_nth_drop)
  then have "region lib cmp cs = region lib cmp (take i cs @ [cs ! i] @ drop (Suc i) cs)" by simp
  then show ?thesis by (simp only: region_simps)
qed

lemma sst_block_shape:
  assumes lz4: "lz4_ok lib" and shape: "reader_shape lib cmp cs r" and i: "i < length cs"
    and small: "cmp = Lz4 \<longrightarrow> length (enc_block (cs ! i)) \<le> MAX_BLOCK_UNCOMP_LEN"
  shows "sst_block lib r i = Inr (enc_block (cs ! i))"
proof -
  obtain rest where data: "sr_data r = file_header cmp @ region lib cmp cs @ rest"
    and idx: "sr_index r = index_of lib cmp cs" and de: "sr_data_end r = 8 + length (region lib cmp cs)"
    and ver: "sr_version r < SST_VERSION_COMPRESSED \<longleftrightarrow> cmp = NoCompression"
    using shape by (auto simp: reader_shape_def)
  let ?pre = "file_header cmp @ region lib cmp (take i cs)" and ?f = "frame_of lib cmp (cs ! i)"
  have start: "snd (sr_index r ! i) = length ?pre" using i by (simp add: idx index_of_nth)
  have stop: "block_end_offset r i = length ?pre + length ?f"
  proof (cases "i + 1 < length cs")
    case True
    then have "region lib cmp (take (Suc i) cs) = region lib cmp (take i cs) @ ?f"
      using i by (simp add: take_Suc_conv_app_nth)
    with True show ?thesis by (simp add: block_end_offset_def idx index_of_nth)
  next
    case False
    then show ?thesis using region_split [OF i, of lib cmp] i by (simp add: block_end_offset_def idx de)
  qed
  have d: "sr_data r = ?pre @ ?f @ region lib cmp (drop (Suc i) cs) @ rest"
    unfolding data by (subst region_split [OF i]) simp
  have bounds: "length ?pre + length ?f \<le> sr_data_end r"
    unfolding de by (subst region_split [OF i]) simp
  show ?thesis
  proof (cases cmp)
    case NoCompression
    then have "take (length ?f) (drop (length ?pre) (sr_data r)) = enc_block (cs ! i)"
      unfolding d by (simp add: block_frame_def)
    then show ?thesis
      using bounds NoCompression ver unfolding sst_block_def Let_def start stop by simp
  next
    case Lz4
    then have "decompress_frame lib r (length ?pre) (length ?pre + length ?f) = Inr (enc_block (cs ! i))"
      using frame_roundtrip [OF lz4, of r ?pre "enc_block (cs ! i)"] d small by blast
    then show ?thesis
      using bounds Lz4 ver unfolding sst_block_def Let_def start stop by simp
  qed
qed

section \<open>Opening a written file\<close>

lemma read_u64_at: "length a = p \<Longrightarrow> read_u64 (a @ u64_be w @ z) p = Return (unat w)"
  by (auto simp: read_u64_def slice_def)

lemma read_u32_at: "length a = p \<Longrightarrow> read_u32 (a @ u32_be w @ z) p = Return (unat w)"
  by (auto simp: read_u32_def slice_def)

lemma slice_at: "length a = p \<Longrightarrow> q = p + length b \<Longrightarrow> slice (a @ b @ z) p q = Return b"
  by (auto simp: slice_def)

lemma footer_fields:
  fixes z1 b1 i1 :: u64 and z2 b2 i2 :: u32
  assumes "d = body @ u64_be z1 @ u32_be z2 @ u64_be b1 @ u32_be b2 @ u64_be i1 @ u32_be i2 @ SST_MAGIC"
  shows "read_u64 d (length body) = Return (unat z1)" "read_u32 d (length body + 8) = Return (unat z2)"
    "read_u64 d (length body + 12) = Return (unat b1)" "read_u32 d (length body + 20) = Return (unat b2)"
    "read_u64 d (length body + 24) = Return (unat i1)" "read_u32 d (length body + 32) = Return (unat i2)"
    "drop (length body + 36) d = SST_MAGIC" "length d = length body + 40"
proof -
  show "read_u64 d (length body) = Return (unat z1)"
    unfolding assms by (rule read_u64_at) simp
  show "read_u32 d (length body + 8) = Return (unat z2)"
    using read_u32_at [of "body @ u64_be z1" "length body + 8" z2] by (simp add: assms)
  show "read_u64 d (length body + 12) = Return (unat b1)"
    using read_u64_at [of "body @ u64_be z1 @ u32_be z2" "length body + 12" b1] by (simp add: assms)
  show "read_u32 d (length body + 20) = Return (unat b2)"
    using read_u32_at [of "body @ u64_be z1 @ u32_be z2 @ u64_be b1" "length body + 20" b2] by (simp add: assms)
  show "read_u64 d (length body + 24) = Return (unat i1)"
    using read_u64_at [of "body @ u64_be z1 @ u32_be z2 @ u64_be b1 @ u32_be b2" "length body + 24" i1]
    by (simp add: assms)
  show "read_u32 d (length body + 32) = Return (unat i2)"
    using read_u32_at [of "body @ u64_be z1 @ u32_be z2 @ u64_be b1 @ u32_be b2 @ u64_be i1" "length body + 32" i2]
    by (simp add: assms)
  show "drop (length body + 36) d = SST_MAGIC" "length d = length body + 40"
    by (simp_all add: assms SST_MAGIC_def)
qed

lemma footer_v4_parse:
  fixes z1 b1 i1 :: u64 and z2 b2 i2 :: u32
  assumes d: "d = (front @ zb @ bb) @ u64_be z1 @ u32_be z2 @ u64_be b1 @ u32_be b2 @ u64_be i1 @ u32_be i2 @ SST_MAGIC"
    and z: "unat z1 = length front" "unat z2 = length zb"
    and b: "unat b1 = length front + length zb" "unat b2 = length bb"
    and zm: "zm_read_from zb = Inr (zm, [])"
    and bl: "read_tagged_bloom ''v4/v5 bloom missing algo byte'' bb = Return f"
    and ver: "5 \<le> ver" and front: "8 \<le> length front"
  shows "sst_footer_v4 d ver = Return (unat i1, unat i2, Some f, Some zm)"
proof -
  let ?body = "front @ zb @ bb"
  note ff = footer_fields [OF d]
  have sz: "slice d (length front) (length front + length zb) = Return zb"
    unfolding d by (simp add: slice_at)
  have sb: "slice d (length front + length zb) (length front + length zb + length bb) = Return bb"
    using slice_at [of "front @ zb" "length front + length zb" _ bb] by (simp add: d)
  have start: "length d - FOOTER_V4_SIZE = length ?body"
    using ff(8) by (simp add: FOOTER_V4_SIZE_def FOOTER_V2_SIZE_def)
  have big: "\<not> length d < length SST_MAGIC + 4 + FOOTER_V4_SIZE"
    using ff(8) front by (simp add: FOOTER_V4_SIZE_def FOOTER_V2_SIZE_def SST_MAGIC_def)
  show ?thesis
    unfolding sst_footer_v4_def Let_def start
    using big ff(1-7) ver z b sz sb zm bl by (simp add: fail_if_def of_result_def)
qed

lemma parse_index_bytes:
  "\<forall>e \<in> set ix. length (fst e) < 2 ^ 32 \<and> snd e < 2 ^ 64 \<Longrightarrow>
   d = pre @ concat (map index_entry_bytes ix) @ post \<Longrightarrow>
   parse_index d (length pre) (length ix) = Return ix"
proof (induction ix arbitrary: pre)
  case (Cons e ix)
  obtain k off where e: "e = (k, off)" by (cases e)
  have k: "unat (of_nat (length k) :: u32) = length k" and o: "unat (of_nat off :: u64) = off"
    using Cons.prems(1) by (simp_all add: e unat_of_nat)
  let ?rest = "concat (map index_entry_bytes ix) @ post"
  have d: "d = pre @ u32_be (of_nat (length k)) @ k @ u64_be (of_nat off) @ ?rest"
    using Cons.prems(2) index_entry_bytes_def [of "(k, off)"] by (simp add: e)
  have r1: "read_u32 d (length pre) = Return (length k)"
    unfolding d using read_u32_at [of pre "length pre" "of_nat (length k)"] k by simp
  have r2: "slice d (length pre + 4) (length pre + 4 + length k) = Return k"
    using slice_at [of "pre @ u32_be (of_nat (length k))" "length pre + 4" _ k] by (simp add: d)
  have r3: "read_u64 d (length pre + 4 + length k) = Return off"
    using read_u64_at [of "pre @ u32_be (of_nat (length k)) @ k" "length pre + 4 + length k" "of_nat off"] o
    by (simp add: d)
  have "parse_index d (length (pre @ u32_be (of_nat (length k)) @ k @ u64_be (of_nat off))) (length ix) = Return ix"
    by (rule Cons.IH) (use Cons.prems d in auto)
  then have r4: "parse_index d (length pre + 4 + length k + 8) (length ix) = Return ix"
    by (simp add: add.assoc)
  have len: "\<not> length d < length pre + 4" by (simp add: d)
  show ?case using len r1 r2 r3 r4 by (simp add: e fail_if_def)
qed simp

section \<open>The zone map of a file\<close>

lemma foldl_record_rows: "length (zb_bounds (foldl (zb_record_field b) z fs)) = length (zb_bounds z)"
  by (induction fs arbitrary: z) (auto simp: record_field_eq with_column_def Let_def)

lemma zb_record_rows: "length (zb_bounds (zb_record z b fs)) = max (length (zb_bounds z)) (Suc b)"
  by (simp add: zb_record_def Let_def foldl_record_rows max_def)

lemma add_meta_zone:
  "sw_zone (add_meta w ik x) = sw_zone w \<or>
   (\<exists>fs. sw_zone (add_meta w ik x) = zb_record (sw_zone w) (sw_count w div 16) fs)"
  by (auto simp: add_meta_def Let_def ENTRIES_PER_BLOCK_def split: option.splits)

lemma sst_add_zone:
  "sw_zone (sst_add lib w ik x) = sw_zone w \<or>
   (\<exists>fs. sw_zone (sst_add lib w ik x) = zb_record (sw_zone w) (sw_count w div 16) fs)"
  using add_meta_zone [of w ik x]
    add_meta_zone [of "(flush_block lib w)\<lparr>sw_index := sw_index w @ [(ik, sw_offset (flush_block lib w))]\<rparr>" ik x]
  by (simp add: sst_add_eq Let_def)

lemma zone_all:
  "let w = foldl (\<lambda>w (ik, x). sst_add lib w ik x) (sw_new_with_options ext cmp) es
   in zb_wf (sw_zone w) \<and> length (zb_bounds (sw_zone w)) \<le> length es \<and> sw_count w = length es"
proof (induction es rule: rev_induct)
  case Nil
  show ?case by (simp add: sw_new_with_options_def Let_def zb_new_def zb_wf_def)
next
  case (snoc e es)
  obtain ik x where e: "e = (ik, x)" by (cases e)
  let ?w = "foldl (\<lambda>w (ik, x). sst_add lib w ik x) (sw_new_with_options ext cmp) es"
  have IH: "zb_wf (sw_zone ?w)" "length (zb_bounds (sw_zone ?w)) \<le> length es" "sw_count ?w = length es"
    using snoc by (simp_all add: Let_def)
  have "sw_count (sst_add lib ?w ik x) = Suc (length es)"
    using IH(3) by (simp add: sst_add_eq Let_def add_meta_fields)
  moreover have "length es div 16 \<le> length es" by simp
  ultimately show ?case
    using sst_add_zone [of lib ?w ik x] IH zb_record_ok(1) [OF IH(1)] zb_record_rows
    by (auto simp: e Let_def)
qed

section \<open>Round trip\<close>

text \<open>What a reader of a file with the entries \<open>es\<close> gives the read operations.\<close>

definition sst_repr :: "sst_lib \<Rightarrow> entry list \<Rightarrow> sst_reader \<Rightarrow> bool" where
  "sst_repr lib es r \<longleftrightarrow> length es \<le> 2 ^ 27 \<and> (\<exists>cmp cs. concat cs = es \<and> (\<forall>c \<in> set cs. c \<noteq> []) \<and>
     (\<forall>e \<in> set es. entry_fits e) \<and> reader_shape lib cmp cs r \<and>
     (\<forall>i < length cs. sst_block lib r i = Inr (enc_block (cs ! i)))) \<and>
     (\<forall>k \<in> set (user_keys es). might_contain lib r k = Some True) \<and>
     (\<forall>k. might_contain lib r k \<noteq> None) \<and>
     (long_keys es \<and> es \<noteq> [] \<longrightarrow> sr_first_user_key r = Some (ik_user_key (fst (hd es))) \<and>
        sr_last_user_key r = Some (ik_user_key (fst (last es))))"

text \<open>
  The limits of the format: lengths are stored as 32-bit numbers, and with compression a block
  must stay under the reader's 64 MiB cap.
\<close>

definition sst_fits :: "SstCompression \<Rightarrow> entry list \<Rightarrow> bool" where
  "sst_fits cmp es \<longleftrightarrow> blocks_fit cmp es \<and> long_keys es \<and> length es \<le> 2 ^ 27"

lemma wf_contains:
  assumes "bf_wf f" shows "bf_contains xxh3 f key \<noteq> None"
proof -
  have "bf_contains_loop xxh3 key is f \<noteq> None" for "is"
  proof (induction "is")
    case (Cons i "is")
    obtain b where b: "bit_index xxh3 f key i = Some b" "b < 8 * length (bf_bits f)"
      using assms by (rule bit_index_wf)
    with Cons div8_less show ?case by (auto simp: get_bit_at_def)
  qed simp
  then show ?thesis by (auto simp: bf_contains_def)
qed

lemma hash_algo_roundtrip [simp]: "hash_algo_from_byte (hash_algo_to_byte a) = Some a"
  by (cases a) (simp_all add: hash_algo_from_byte_def)

lemma bloom_of_keys:
  assumes "length keys \<le> 2 ^ 27"
  obtains f where "bf_add_all xxh3 (bf_new (length keys)) keys = Some f"
    "\<forall>key \<in> set keys. bf_contains xxh3 f key = Some True" "\<forall>key. bf_contains xxh3 f key \<noteq> None"
    "read_tagged_bloom m (hash_algo_to_byte (bf_algo f) # bf_write_to f) = Return f"
proof -
  have wf: "bf_wf (bf_new (length keys))" by (simp add: bf_new_def bf_with_params_def new_wf)
  obtain f where f: "bf_add_all xxh3 (bf_new (length keys)) keys = Some f" "grows (bf_new (length keys)) f"
      "\<forall>key \<in> set keys. bf_contains_loop xxh3 key [0..<unat (bf_k f)] f = Some True"
    using add_all_ok [OF wf, of xxh3 keys] by blast
  have "max (length keys) 1 * DEFAULT_BITS_PER_ENTRY \<le> 2 ^ 31"
    using assms by (simp add: DEFAULT_BITS_PER_ENTRY_def)
  from new_shape [OF this] have "bf_read_from (bf_write_to f @ []) (bf_algo f) = Inr (f, [])"
    using f(2) by (intro read_write_eq) (simp_all add: grows_def)
  then have "read_tagged_bloom m (hash_algo_to_byte (bf_algo f) # bf_write_to f) = Return f"
    by (simp add: read_tagged_bloom_def read_bloom_def)
  with f wf_contains [OF grows_wf [OF f(2) wf]] show ?thesis using that by (auto simp: bf_contains_def)
qed

lemma version_of_header:
  "take 4 (file_header cmp @ z) = SST_MAGIC"
  "be_u32 (take 4 (drop 4 (file_header cmp @ z))) = (case cmp of NoCompression \<Rightarrow> 5 | Lz4 \<Rightarrow> 6)"
  by (auto simp: file_header_def SST_MAGIC_def SST_VERSION_UNCOMPRESSED_def SST_VERSION_COMPRESSED_def
      split: SstCompression.splits)

text \<open>The parts of a written file.\<close>

lemma sst_write_parts:
  assumes "length es \<le> 2 ^ 27"
  obtains cs zone f where
    "concat cs = es" "\<forall>c \<in> set cs. c \<noteq> [] \<and> length c \<le> 16"
    "zb_wf zone" "length (zb_bounds zone) \<le> length es"
    "\<forall>k \<in> ik_user_key ` fst ` {e \<in> set es. 8 \<le> length (fst e)}. bf_contains (lib_xxh3 lib) f k = Some True"
    "\<forall>k. bf_contains (lib_xxh3 lib) f k \<noteq> None"
    "\<And>m. read_tagged_bloom m (hash_algo_to_byte (bf_algo f) # bf_write_to f) = Return f"
    "\<exists>meta. sm_entry_count meta = length es \<and> sst_write lib ext cmp es = Some
      ((file_header cmp @ region lib cmp cs @ concat (map index_entry_bytes (index_of lib cmp cs)) @
        zb_write_to zone @ (hash_algo_to_byte (bf_algo f) # bf_write_to f)) @
       u64_be (of_nat (8 + length (region lib cmp cs) + length (concat (map index_entry_bytes (index_of lib cmp cs))))) @
       u32_be (of_nat (length (zb_write_to zone))) @
       u64_be (of_nat (8 + length (region lib cmp cs) + length (concat (map index_entry_bytes (index_of lib cmp cs))) +
         unat (of_nat (length (zb_write_to zone)) :: u32))) @
       u32_be (of_nat (length (hash_algo_to_byte (bf_algo f) # bf_write_to f))) @
       u64_be (of_nat (8 + length (region lib cmp cs))) @ u32_be (of_nat (length cs)) @ SST_MAGIC, meta)"
proof -
  define w where "w = foldl (\<lambda>w (ik, x). sst_add lib w ik x) (sw_new_with_options ext cmp) es"
  have inv: "writer_inv lib cmp es w" unfolding w_def by (rule writer_inv_all)
  have zone: "zb_wf (sw_zone w)" "length (zb_bounds (sw_zone w)) \<le> length es"
    using zone_all [of lib ext cmp es] by (simp_all add: w_def Let_def)
  obtain bs c where bc: "es = concat bs @ c" "\<forall>b \<in> set bs. length b = 16" "length c \<le> 16"
      "c = [] \<longrightarrow> bs = []" "sw_out w = file_header cmp @ region lib cmp bs"
      "sw_buf w = enc_block c" "sw_index w = index_of lib cmp (if c = [] then [] else bs @ [c])"
    and keys: "set (sw_user_keys w) = ik_user_key ` fst ` {e \<in> set es. 8 \<le> length (fst e)}"
      "length (sw_user_keys w) \<le> length es"
    and w: "sw_offset w = length (sw_out w)" "sw_compression w = cmp" "sw_count w = length es"
    using inv unfolding writer_inv_def by blast
  define cs where "cs = (if c = [] then [] else bs @ [c])"
  have cs: "concat cs = es" "\<forall>c \<in> set cs. c \<noteq> [] \<and> length c \<le> 16"
    using bc(1-4) by (auto simp: cs_def)
  have idx: "sw_index w = index_of lib cmp cs" using bc(7) by (simp add: cs_def)
  have out: "sw_out (flush_block lib w) = file_header cmp @ region lib cmp cs"
    using bc(4,5,6) w(2) by (auto simp: flush_block_out cs_def)
  have off: "sw_offset (flush_block lib w) = 8 + length (region lib cmp cs)"
    using flush_block_out(2) [OF w(1)] out by simp
  have "length (sw_user_keys w) \<le> 2 ^ 27" using keys(2) assms by simp
  then obtain f where f: "bf_add_all (lib_xxh3 lib) (bf_new (length (sw_user_keys w))) (sw_user_keys w) = Some f"
      "\<forall>key \<in> set (sw_user_keys w). bf_contains (lib_xxh3 lib) f key = Some True"
      "\<forall>key. bf_contains (lib_xxh3 lib) f key \<noteq> None"
      "read_tagged_bloom [] (hash_algo_to_byte (bf_algo f) # bf_write_to f) = Return f"
    using bloom_of_keys by blast
  have tag: "read_tagged_bloom m (hash_algo_to_byte (bf_algo f) # bf_write_to f) = Return f" for m
    using f(4) by (simp add: read_tagged_bloom_def)
  show ?thesis
    by (rule that [OF cs zone _ f(3) tag])
       (use f(1,2) keys(1) w(3) in \<open>simp_all add: sst_write_def w_def [symmetric] sst_finish_def Let_def idx out off\<close>)
qed

lemma length_concat_u32_be: "length (concat (map u32_be ws)) = 4 * length ws"
  by (induction ws) simp_all

lemma zone_ids_bound: "length (zb_field_ids z) \<le> length (zb_write_to z)"
  unfolding zb_write_to_def by (simp add: length_concat_u32_be)

lemma index_of_bounds:
  assumes "\<forall>c \<in> set cs. c \<noteq> []" and "\<forall>e \<in> set (concat cs). entry_fits e"
    and "8 + length (region lib cmp cs) < 2 ^ 64" and "e \<in> set (index_of lib cmp cs)"
  shows "length (fst e) < 2 ^ 32 \<and> snd e < 2 ^ 64"
proof -
  obtain i where i: "i < length cs" "e = (fst (hd (cs ! i)), 8 + length (region lib cmp (take i cs)))"
    using assms(4) by (auto simp: index_of_def)
  have "cs ! i \<in> set cs" using i(1) by simp
  then have "hd (cs ! i) \<in> set (concat cs)" using assms(1) hd_in_set by fastforce
  moreover have "length (region lib cmp (take i cs)) \<le> length (region lib cmp cs)"
    using arg_cong [OF region_split [OF i(1), of lib cmp], of length] by simp
  ultimately show ?thesis using assms(3) i(2) bspec [OF assms(2)] by (simp add: entry_fits_def)
qed

lemma last_concat: "\<forall>c \<in> set cs. c \<noteq> [] \<Longrightarrow> cs \<noteq> [] \<Longrightarrow> last (concat cs) = last (last cs)"
  by (induction cs rule: rev_induct) auto

lemma hd_concat': "\<forall>c \<in> set cs. c \<noteq> [] \<Longrightarrow> cs \<noteq> [] \<Longrightarrow> hd (concat cs) = hd (hd cs)"
  by (cases cs) auto

lemma length_le_concat: "\<forall>c \<in> set cs. c \<noteq> [] \<Longrightarrow> length cs \<le> length (concat cs)"
proof (induction cs)
  case (Cons c cs)
  then have "0 < length c" "length cs \<le> length (concat cs)" by simp_all
  then have "Suc (length cs) \<le> length c + length (concat cs)" by linarith
  then show ?case by simp
qed simp

lemma compute_last_user_key_shape:
  assumes idx: "sr_index r = index_of lib cmp cs" and ne: "\<forall>c \<in> set cs. c \<noteq> []"
    and fits: "\<forall>e \<in> set (concat cs). entry_fits e" and long: "long_keys (concat cs)"
    and blk: "\<forall>i < length cs. sst_block lib r i = Inr (enc_block (cs ! i))"
  shows "compute_last_user_key lib r =
    Inr (if cs = [] then None else Some (ik_user_key (fst (last (concat cs)))))"
proof (cases "cs = []")
  case True
  then show ?thesis by (simp add: compute_last_user_key_def idx)
next
  case False
  have l: "last cs \<in> set cs" "last cs = cs ! (length cs - 1)" using False by (simp_all add: last_conv_nth)
  have "last_user_key_loop (enc_block (last cs)) None = Some (ik_user_key (fst (last (last cs))))"
    using last_user_key_loop_enc [of "last cs" None] l(1) ne fits long by (fastforce simp: long_keys_def)
  moreover have "sst_block lib r (length cs - 1) = Inr (enc_block (last cs))"
    using blk False l(2) by simp
  moreover have "sr_index r \<noteq> []" using False idx by (metis length_0_conv length_index_of)
  ultimately show ?thesis
    using False by (simp add: compute_last_user_key_def idx last_concat [OF ne False])
qed

lemma first_user_key_index:
  assumes ne: "\<forall>c \<in> set cs. c \<noteq> []" and long: "long_keys (concat cs)"
  shows "(case index_of lib cmp cs of [] \<Rightarrow> None
           | (key, _) # _ \<Rightarrow> if 8 \<le> length key then Some (take (length key - 8) key) else None) =
    (if cs = [] then None else Some (ik_user_key (fst (hd (concat cs)))))"
proof (cases cs)
  case (Cons c cs')
  have "index_of lib cmp cs = index_of lib cmp cs ! 0 # tl (index_of lib cmp cs)"
    using Cons by (metis hd_Cons_tl hd_conv_nth length_0_conv length_index_of list.distinct(1))
  then have i: "index_of lib cmp cs = (fst (hd c), 8) # tl (index_of lib cmp cs)"
    using Cons by (simp add: index_of_nth)
  have "c \<noteq> []" using ne Cons by simp
  then have "8 \<le> length (fst (hd c))" using long Cons by (simp add: long_keys_def)
  then show ?thesis
    by (subst i) (simp add: Cons ik_user_key_def \<open>c \<noteq> []\<close>)
qed simp

lemma sst_fits_block:
  assumes fits: "blocks_fit cmp es" and cs: "concat cs = es" "\<forall>c \<in> set cs. c \<noteq> [] \<and> length c \<le> 16"
    and i: "i < length cs" and "cmp = Lz4"
  shows "length (enc_block (cs ! i)) \<le> MAX_BLOCK_UNCOMP_LEN"
proof -
  have c: "cs ! i \<in> set cs" using i by simp
  then have "\<forall>e \<in> set (cs ! i). length (entry_bytes (fst e) (snd e)) \<le> MAX_BLOCK_UNCOMP_LEN div 16"
    using fits cs(1) \<open>cmp = Lz4\<close> by (fastforce simp: blocks_fit_def)
  from enc_block_bound [OF this] have "length (enc_block (cs ! i)) \<le> length (cs ! i) * (MAX_BLOCK_UNCOMP_LEN div 16)" .
  also have "\<dots> \<le> 16 * (MAX_BLOCK_UNCOMP_LEN div 16)" using cs(2) c by (intro mult_le_mono1) auto
  finally show ?thesis by (simp add: MAX_BLOCK_UNCOMP_LEN_def)
qed

text \<open>Opening a img with given parts.\<close>

lemma sst_open_parts:
  assumes ib: "ib = concat (map index_entry_bytes (index_of lib cmp cs))" and lz4: "lz4_ok lib" and fits: "sst_fits cmp es"
    and cs: "concat cs = es" "\<forall>c \<in> set cs. c \<noteq> [] \<and> length c \<le> 16"
    and zone: "zb_wf zone" "length (zb_bounds zone) \<le> length es"
    and tag: "\<And>m. read_tagged_bloom m bb = Return f"
    and img: "img = (file_header cmp @ region lib cmp cs @ ib @ zb_write_to zone @ bb) @
       u64_be (of_nat (8 + length (region lib cmp cs) + length (ib))) @
       u32_be (of_nat (length (zb_write_to zone))) @
       u64_be (of_nat (8 + length (region lib cmp cs) + length (ib) + unat (of_nat (length (zb_write_to zone)) :: u32))) @
       u32_be (of_nat (length bb)) @
       u64_be (of_nat (8 + length (region lib cmp cs))) @ u32_be (of_nat (length cs)) @ SST_MAGIC"
    and small: "length img < 2 ^ 32"
  shows "\<exists>r. sst_open lib img = Return r \<and> reader_shape lib cmp cs r \<and> sr_bloom r = Some f \<and>
    (\<forall>i < length cs. sst_block lib r i = Inr (enc_block (cs ! i))) \<and>
    (es \<noteq> [] \<longrightarrow> sr_first_user_key r = Some (ik_user_key (fst (hd es))) \<and>
       sr_last_user_key r = Some (ik_user_key (fst (last es))))"
proof -
  let ?front = "file_header cmp @ region lib cmp cs @ ib"
  have len: "length img = 8 + length (region lib cmp cs) + length (ib) + length (zb_write_to zone) + length bb + 40"
    by (simp add: img SST_MAGIC_def)
  have fit_es: "\<forall>e \<in> set es. entry_fits e" and long: "long_keys es" and cnt: "length es \<le> 2 ^ 27"
    and bf: "blocks_fit cmp es"
    using fits by (auto simp: sst_fits_def blocks_fit_def)
  have ne: "\<forall>c \<in> set cs. c \<noteq> []" using cs(2) by blast
  have ncs: "length cs < 2 ^ 32" using length_le_concat [OF ne] cnt cs(1) by simp
  obtain zm where zm: "zm_read_from (zb_write_to zone @ []) = Inr (zm, [])"
    using zone_read_write [OF zone(1), of "[]"] zone(2) cnt zone_ids_bound [of zone] len small by auto
  let ?ver = "case cmp of NoCompression \<Rightarrow> 5 | Lz4 \<Rightarrow> (6 :: u32)"
  have u32: "unat (of_nat n :: u32) = n" if "n < 2 ^ 32" for n using that by (simp add: unat_of_nat)
  have u64: "unat (of_nat n :: u64) = n" if "n < 2 ^ 32" for n using that by (simp add: unat_of_nat)
  have foot: "sst_footer_v4 img ?ver = Return (8 + length (region lib cmp cs), length cs, Some f, Some zm)"
  proof -
    have "sst_footer_v4 img ?ver = Return (unat (of_nat (8 + length (region lib cmp cs)) :: u64),
        unat (of_nat (length cs) :: u32), Some f, Some zm)"
      by (rule footer_v4_parse [where front = ?front, OF _ _ _ _ _ _ tag])
         (use img zm len small ncs in \<open>auto simp del: of_nat_add simp: u32 u64 split: SstCompression.splits\<close>)
    then show ?thesis using len small ncs by (simp del: of_nat_add add: u32 u64)
  qed
  have idx: "parse_index img (8 + length (region lib cmp cs)) (length cs) = Return (index_of lib cmp cs)"
    using parse_index_bytes [of "index_of lib cmp cs" img "file_header cmp @ region lib cmp cs"]
      index_of_bounds [OF ne, of lib cmp] cs(1) fit_es len small by (auto simp: img ib)
  define r0 where "r0 = \<lparr>sr_data = img, sr_index = index_of lib cmp cs, sr_bloom = Some f,
      sr_data_end = 8 + length (region lib cmp cs),
      sr_first_user_key = (if cs = [] then None else Some (ik_user_key (fst (hd (concat cs))))),
      sr_last_user_key = None, sr_zone_map = Some zm, sr_version = ?ver\<rparr>"
  have shape: "reader_shape lib cmp cs (r0\<lparr>sr_last_user_key := l\<rparr>)" for l
    by (auto simp: reader_shape_def r0_def img SST_VERSION_COMPRESSED_def split: SstCompression.splits)
  have blk: "sst_block lib (r0\<lparr>sr_last_user_key := l\<rparr>) i = Inr (enc_block (cs ! i))" if "i < length cs" for i l
    using sst_block_shape [OF lz4 shape that] sst_fits_block [OF bf cs that] by blast
  have r0: "r0\<lparr>sr_last_user_key := None\<rparr> = r0" by (simp add: r0_def)
  have comp: "compute_last_user_key lib r0 =
      Inr (if cs = [] then None else Some (ik_user_key (fst (last (concat cs)))))"
    by (rule compute_last_user_key_shape [where cmp = cmp])
       (use ne fit_es long cs(1) blk [where l = None] in \<open>simp_all add: r0\<close>, simp add: r0_def)
  let ?r = "r0\<lparr>sr_last_user_key := (if cs = [] then None else Some (ik_user_key (fst (last (concat cs)))))\<rparr>"
  have hdr: "take 4 img = SST_MAGIC" "be_u32 (take 4 (drop 4 img)) = ?ver"
    unfolding img append_assoc by (rule version_of_header)+
  have v: "1 \<le> ?ver" "?ver \<le> SST_VERSION_MAX" "4 \<le> ?ver"
    by (auto simp: SST_VERSION_MAX_def split: SstCompression.splits)
  have "sst_open lib img = Return ?r"
    unfolding sst_open_def Let_def hdr
    using len v foot idx comp first_user_key_index [OF ne, of lib cmp] long cs(1)
    by (simp add: fail_if_def SST_MAGIC_def FOOTER_V1_SIZE_def of_result_def r0_def)
  moreover have "es \<noteq> [] \<Longrightarrow> cs \<noteq> []" using cs(1) by auto
  ultimately show ?thesis using shape blk cs(1) by (intro exI [of _ ?r]) (simp add: r0_def)
qed

lemma sst_write_open_repr:
  assumes "lz4_ok lib" and "sst_fits cmp es"
  obtains img meta where "sst_write lib ext cmp es = Some (img, meta)" "sm_entry_count meta = length es"
    "length img < 2 ^ 32 \<Longrightarrow> \<exists>r. sst_open lib img = Return r \<and> sst_repr lib es r"
proof -
  have cnt: "length es \<le> 2 ^ 27" and long: "long_keys es" and fit: "\<forall>e \<in> set es. entry_fits e"
    using assms(2) by (auto simp: sst_fits_def blocks_fit_def)
  have uk: "set (user_keys es) = ik_user_key ` fst ` {e \<in> set es. 8 \<le> length (fst e)}"
    using long by (auto simp: user_keys_def long_keys_def)
  show ?thesis
  proof (rule sst_write_parts [OF cnt, of lib ext cmp])
    fix cs zone f
    let ?ib = "concat (map index_entry_bytes (index_of lib cmp cs))"
    let ?bb = "hash_algo_to_byte (bf_algo f) # bf_write_to f"
    let ?img = "(file_header cmp @ region lib cmp cs @ ?ib @ zb_write_to zone @ ?bb) @
       u64_be (of_nat (8 + length (region lib cmp cs) + length ?ib)) @
       u32_be (of_nat (length (zb_write_to zone))) @
       u64_be (of_nat (8 + length (region lib cmp cs) + length ?ib + unat (of_nat (length (zb_write_to zone)) :: u32))) @
       u32_be (of_nat (length ?bb)) @
       u64_be (of_nat (8 + length (region lib cmp cs))) @ u32_be (of_nat (length cs)) @ SST_MAGIC"
    assume cs: "concat cs = es" "\<forall>c \<in> set cs. c \<noteq> [] \<and> length c \<le> 16"
      and zone: "zb_wf zone" "length (zb_bounds zone) \<le> length es"
      and bl: "\<forall>k \<in> ik_user_key ` fst ` {e \<in> set es. 8 \<le> length (fst e)}. bf_contains (lib_xxh3 lib) f k = Some True"
        "\<forall>k. bf_contains (lib_xxh3 lib) f k \<noteq> None" "\<And>m. read_tagged_bloom m ?bb = Return f"
      and wr: "\<exists>meta. sm_entry_count meta = length es \<and> sst_write lib ext cmp es = Some (?img, meta)"
    then obtain meta where meta: "sst_write lib ext cmp es = Some (?img, meta)" "sm_entry_count meta = length es"
      by blast
    show ?thesis
    proof (rule that [OF meta])
      assume small: "length ?img < 2 ^ 32"
      obtain r where r: "sst_open lib ?img = Return r" "reader_shape lib cmp cs r" "sr_bloom r = Some f"
        "\<forall>i < length cs. sst_block lib r i = Inr (enc_block (cs ! i))"
        "es \<noteq> [] \<longrightarrow> sr_first_user_key r = Some (ik_user_key (fst (hd es))) \<and>
           sr_last_user_key r = Some (ik_user_key (fst (last es)))"
        using sst_open_parts [OF refl assms cs zone bl(3) refl small] by blast
      have "sst_repr lib es r"
        unfolding sst_repr_def might_contain_def uk
        by (intro conjI exI [of _ cmp] exI [of _ cs]) (use r(2-5) cs bl(1,2) fit cnt in simp_all)
      with r(1) show "\<exists>r. sst_open lib ?img = Return r \<and> sst_repr lib es r" by blast
    qed
  qed
qed

end
