(* ===== verification/Memtable.thy ===== *)
theory Memtable
  imports Versions
begin

text \<open>
  The memtable of \<^verbatim>\<open>rhypedb-storage/src/memtable.rs\<close>. The skip list is an ordered map from internal
  keys to values; its contents are modelled as the sorted association list that iterating it
  yields, and the documented laws the code relies on (sorted iteration, insert replaces) are the
  locale \<open>ordered_map\<close>. Each read is the loop of the source over the entries from its seek key on.
  The theorems relate every read to the specification \<open>visible\<close> of theory Versions.
\<close>

section \<open>The ordered map\<close>

text \<open>Writing below a version that is present does not move the newest one.\<close>

lemma newest_unaffected:
  fixes f :: "u64 \<Rightarrow> 'a option"
  assumes "w < u \<and> u \<le> v \<and> f u \<noteq> None"
  shows "(\<exists>z \<le> v. (if z = w then Some x else f z) = Some y \<and>
            (\<forall>t. z < t \<and> t \<le> v \<longrightarrow> (if t = w then Some x else f t) = None)) \<longleftrightarrow>
         (\<exists>z \<le> v. f z = Some y \<and> (\<forall>t. z < t \<and> t \<le> v \<longrightarrow> f t = None))"
    (is "(\<exists>z \<le> v. ?P z) \<longleftrightarrow> (\<exists>z \<le> v. ?Q z)")
proof -
  have eq: "?P z \<longleftrightarrow> ?Q z" if "z \<le> v" for z
  proof (cases "u \<le> z")
    case True
    then have "z \<noteq> w" "\<And>t. z < t \<Longrightarrow> t \<noteq> w" using assms by force+
    then show ?thesis by simp
  next
    case False
    then have u: "z < u \<and> u \<le> v" "f u \<noteq> None" using assms by simp_all
    moreover have "u \<noteq> w" using assms by (metis less_irrefl)
    ultimately have w: "(if u = w then Some x else f u) \<noteq> None" by simp
    have "\<not> ?P z" using u(1) w by (intro notI) (elim conjE allE [of _ u], simp)
    moreover have "\<not> ?Q z" using u by (intro notI) (elim conjE allE [of _ u], simp)
    ultimately show ?thesis by blast
  qed
  show ?thesis by (rule ex_cong1, rule conj_cong [OF refl], rule eq)
qed

locale ordered_map =
  fixes contents :: "'m \<Rightarrow> entry list"
    and fresh :: 'm
    and insert_entry :: "bytes \<Rightarrow> memval \<Rightarrow> 'm \<Rightarrow> 'm"
    and valid :: "'m \<Rightarrow> bool"
  assumes fresh_valid: "valid fresh" and fresh_contents: "contents fresh = []"
    and insert_valid: "valid m \<Longrightarrow> valid (insert_entry ik x m)"
    and valid_sorted: "valid m \<Longrightarrow> sorted_entries (contents m)"
    and insert_lookup:
      "valid m \<Longrightarrow> map_of (contents (insert_entry ik x m)) = (map_of (contents m))(ik \<mapsto> x)"
begin

lemma insert_keys:
  assumes "valid m"
  shows "fst ` set (contents (insert_entry ik x m)) = insert ik (fst ` set (contents m))"
  using insert_lookup [OF assms, of ik x] by (metis dom_fun_upd dom_map_of_conv_image_fst option.distinct(1))

text \<open>What a snapshot sees after an insert: the new entry when it is the newest one in reach.\<close>

lemma insert_visible:
  assumes "valid m"
  shows "visible (contents (insert_entry (internal_key k w) x m)) j v =
    (if j = k \<and> w \<le> v \<and> (\<forall>u. w < u \<and> u \<le> v \<longrightarrow> map_of (contents m) (internal_key k u) = None)
     then Some x else visible (contents m) j v)"
proof -
  let ?new = "contents (insert_entry (internal_key k w) x m)"
  have old: "sorted_entries (contents m)" and new: "sorted_entries ?new"
    using assms insert_valid valid_sorted by blast+
  have lk: "map_of ?new (internal_key j u) =
      (if j = k \<and> u = w then Some x else map_of (contents m) (internal_key j u))" for u
    by (simp add: insert_lookup [OF assms])
  show ?thesis
  proof (cases "j = k \<and> w \<le> v")
    case False
    then have "visible ?new j v = visible (contents m) j v"
      by (intro visible_cong_map_of [OF new old]) (auto simp: lk)
    with False show ?thesis by auto
  next
    case True
    let ?newer = "\<lambda>u. w < u \<and> u \<le> v \<and> map_of (contents m) (internal_key k u) \<noteq> None"
    show ?thesis
    proof (cases "\<exists>u. ?newer u")
      case False
      have "visible ?new j v = Some x"
        unfolding visible_Some_iff [OF new] by (rule exI [of _ w]) (use True False lk in auto)
      with True False show ?thesis by auto
    next
      case True': True
      then obtain u where u: "?newer u" by blast
      have "visible ?new j v = Some y \<longleftrightarrow> visible (contents m) j v = Some y" for y
        unfolding visible_Some_iff [OF new] visible_Some_iff [OF old]
        using newest_unaffected [of w u v "\<lambda>u. map_of (contents m) (internal_key k u)" x y, OF u]
          True lk by (simp only: simp_thms)
      then have "visible ?new j v = visible (contents m) j v"
        by (metis not_None_eq)
      with True True' show ?thesis by auto
    qed
  qed
qed

end

text \<open>The contents of the skip list.\<close>

fun sm_insert :: "bytes \<Rightarrow> memval \<Rightarrow> entry list \<Rightarrow> entry list" where
  "sm_insert ik x [] = [(ik, x)]"
| "sm_insert ik x ((jk, y) # es) =
     (if ik < jk then (ik, x) # (jk, y) # es
      else if ik = jk then (ik, x) # es
      else (jk, y) # sm_insert ik x es)"

lemma sm_insert_set: "fst ` set (sm_insert ik x es) = insert ik (fst ` set es)"
  by (induction ik x es rule: sm_insert.induct) auto

lemma sm_insert_sorted: "sorted_entries es \<Longrightarrow> sorted_entries (sm_insert ik x es)"
proof (induction ik x es rule: sm_insert.induct)
  case (2 ik x jk y es)
  have "jk < z" if "ik \<noteq> jk" "\<not> ik < jk" "z \<in> fst ` set (sm_insert ik x es)" for z
    using 2 that by (auto simp: sm_insert_set)
  with 2 show ?case by (auto dest: order.strict_trans)
qed simp

lemma sm_insert_lookup:
  "sorted_entries es \<Longrightarrow> map_of (sm_insert ik x es) = (map_of es)(ik \<mapsto> x)"
proof (induction ik x es rule: sm_insert.induct)
  case (2 ik x jk y es)
  then show ?case by (auto simp: fun_eq_iff)
qed (simp add: fun_eq_iff)

interpretation sm: ordered_map "\<lambda>es. es" "[]" sm_insert "\<lambda>es. sorted_entries es"
  by unfold_locales (auto simp: sm_insert_sorted sm_insert_lookup)

section \<open>The memtable\<close>

text \<open>\<^verbatim>\<open>MemTable\<close>: \<^verbatim>\<open>size_bytes\<close> is an \<^verbatim>\<open>AtomicUsize\<close>, whose \<^verbatim>\<open>fetch_add\<close> wraps.\<close>

record memtable =
  mt_map :: "entry list"
  mt_size_bytes :: u64

definition mt_new :: memtable where
  "mt_new = \<lparr>mt_map = [], mt_size_bytes = 0\<rparr>"

definition mt_put :: "memtable \<Rightarrow> bytes \<Rightarrow> u64 \<Rightarrow> bytes \<Rightarrow> memtable" where
  "mt_put m user_key version val =
     (let key_bytes = internal_key user_key version;
          added = length key_bytes + length val
      in m\<lparr>mt_map := sm_insert key_bytes (Some val) (mt_map m),
           mt_size_bytes := mt_size_bytes m + of_nat added\<rparr>)"

definition mt_delete :: "memtable \<Rightarrow> bytes \<Rightarrow> u64 \<Rightarrow> memtable" where
  "mt_delete m user_key version =
     (let key_bytes = internal_key user_key version;
          added = length key_bytes
      in m\<lparr>mt_map := sm_insert key_bytes None (mt_map m),
           mt_size_bytes := mt_size_bytes m + of_nat added\<rparr>)"

text \<open>\<^verbatim>\<open>map.range(from..)\<close>\<close>

definition sm_range_from :: "bytes \<Rightarrow> entry list \<Rightarrow> entry list" where
  "sm_range_from from es = dropWhile (\<lambda>e. fst e < from) es"

fun mt_get_loop :: "bytes \<Rightarrow> entry list \<Rightarrow> memval option" where
  "mt_get_loop user_key [] = None"
| "mt_get_loop user_key ((entry_key, x) # es) =
     (if length entry_key < 8 then mt_get_loop user_key es
      else if take (length entry_key - 8) entry_key \<noteq> user_key then None
      else Some x)"

definition mt_get :: "memtable \<Rightarrow> bytes \<Rightarrow> u64 \<Rightarrow> memval option" where
  "mt_get m user_key version =
     mt_get_loop user_key (sm_range_from (internal_key user_key version) (mt_map m))"

definition mt_approximate_size :: "memtable \<Rightarrow> u64" where
  "mt_approximate_size m = mt_size_bytes m"

definition mt_is_empty :: "memtable \<Rightarrow> bool" where
  "mt_is_empty m \<longleftrightarrow> mt_map m = []"

definition mt_iter :: "memtable \<Rightarrow> entry list" where
  "mt_iter m = mt_map m"

text \<open>
  The scan loops: \<open>last_user_key\<close> is the user key pushed last, the result the entries pushed from
  here on; in the bounded loops \<open>n\<close> is \<^verbatim>\<open>results.len()\<close>.
\<close>

fun mt_scan_loop :: "bytes \<Rightarrow> u64 \<Rightarrow> bytes option \<Rightarrow> entry list \<Rightarrow> (bytes \<times> memval) list" where
  "mt_scan_loop p version last_user_key [] = []"
| "mt_scan_loop p version last_user_key ((key, x) # es) =
     (if length key < 8 then mt_scan_loop p version last_user_key es
      else let user_key = take (length key - 8) key;
               entry_version = NOT (be_u64 (drop (length key - 8) key))
      in if \<not> prefix p user_key then []
      else if entry_version > version then mt_scan_loop p version last_user_key es
      else if last_user_key = Some user_key then mt_scan_loop p version last_user_key es
      else (user_key, x) # mt_scan_loop p version (Some user_key) es)"

fun mt_scan_max_loop ::
    "bytes \<Rightarrow> u64 \<Rightarrow> nat \<Rightarrow> nat \<Rightarrow> bytes option \<Rightarrow> entry list \<Rightarrow> (bytes \<times> memval) list" where
  "mt_scan_max_loop p version max_distinct n last_user_key [] = []"
| "mt_scan_max_loop p version max_distinct n last_user_key ((key, x) # es) =
     (if length key < 8 then mt_scan_max_loop p version max_distinct n last_user_key es
      else let user_key = take (length key - 8) key;
               entry_version = NOT (be_u64 (drop (length key - 8) key))
      in if \<not> prefix p user_key then []
      else if entry_version > version
        then mt_scan_max_loop p version max_distinct n last_user_key es
      else if last_user_key = Some user_key
        then mt_scan_max_loop p version max_distinct n last_user_key es
      else (user_key, x) #
        (if max_distinct \<le> n + 1 then []
         else mt_scan_max_loop p version max_distinct (n + 1) (Some user_key) es))"

fun mt_scan_from_loop ::
    "bytes \<Rightarrow> bytes \<Rightarrow> u64 \<Rightarrow> nat \<Rightarrow> nat \<Rightarrow> bytes option \<Rightarrow> entry list \<Rightarrow> (bytes \<times> memval) list" where
  "mt_scan_from_loop p start version max_distinct n last_user_key [] = []"
| "mt_scan_from_loop p start version max_distinct n last_user_key ((key, x) # es) =
     (if length key < 8 then mt_scan_from_loop p start version max_distinct n last_user_key es
      else let user_key = take (length key - 8) key;
               entry_version = NOT (be_u64 (drop (length key - 8) key))
      in if user_key < start
        then mt_scan_from_loop p start version max_distinct n last_user_key es
      else if \<not> prefix p user_key then []
      else if entry_version > version
        then mt_scan_from_loop p start version max_distinct n last_user_key es
      else if last_user_key = Some user_key
        then mt_scan_from_loop p start version max_distinct n last_user_key es
      else (user_key, x) #
        (if max_distinct \<le> n + 1 then []
         else mt_scan_from_loop p start version max_distinct (n + 1) (Some user_key) es))"

definition mt_scan_prefix :: "memtable \<Rightarrow> bytes \<Rightarrow> u64 \<Rightarrow> (bytes \<times> memval) list" where
  "mt_scan_prefix m p version =
     mt_scan_loop p version None (sm_range_from (internal_key p (- 1)) (mt_map m))"

definition mt_scan_prefix_max :: "memtable \<Rightarrow> bytes \<Rightarrow> u64 \<Rightarrow> nat \<Rightarrow> (bytes \<times> memval) list" where
  "mt_scan_prefix_max m p version max_distinct =
     (if max_distinct = 0 then []
      else mt_scan_max_loop p version max_distinct 0 None
             (sm_range_from (internal_key p (- 1)) (mt_map m)))"

definition mt_scan_from_max ::
    "memtable \<Rightarrow> bytes \<Rightarrow> bytes \<Rightarrow> u64 \<Rightarrow> nat \<Rightarrow> (bytes \<times> memval) list" where
  "mt_scan_from_max m p start version max_distinct =
     (if max_distinct = 0 \<or> \<not> prefix p start then []
      else mt_scan_from_loop p start version max_distinct 0 None
             (sm_range_from (internal_key start (- 1)) (mt_map m)))"

definition mt_multi_get :: "memtable \<Rightarrow> bytes list \<Rightarrow> u64 \<Rightarrow> memval option list" where
  "mt_multi_get m keys version = map (\<lambda>k. mt_get m k version) keys"

definition mt_multi_scan_prefix ::
    "memtable \<Rightarrow> bytes list \<Rightarrow> u64 \<Rightarrow> (bytes \<times> memval) list list" where
  "mt_multi_scan_prefix m ps version = map (\<lambda>p. mt_scan_prefix m p version) ps"

section \<open>Reads see what the specification sees\<close>

text \<open>
  The memtable's invariant: the contents are sorted and every version is below \<open>2 ^ 56\<close> (the
  commit counter starts at zero and grows by one for each commit); the stored user keys are
  compatible when no one continues another with the byte \<open>0xFF\<close>.
\<close>

definition mt_inv :: "memtable \<Rightarrow> bool" where
  "mt_inv m \<longleftrightarrow> sorted_entries (mt_map m) \<and> (\<forall>e \<in> set (mt_map m). entry_ok e)"

definition mt_compat :: "memtable \<Rightarrow> bytes \<Rightarrow> bool" where
  "mt_compat m k \<longleftrightarrow> (\<forall>j \<in> set (user_keys (mt_map m)). ff_compat k j)"

lemma entry_ok_internal_key [simp]: "entry_ok (internal_key k w, x) \<longleftrightarrow> w < 2 ^ 56"
  by (simp add: entry_ok_def)

lemma mt_inv_new: "mt_inv mt_new"
  by (simp add: mt_inv_def mt_new_def)

lemma entry_ok_keys: "(\<forall>e \<in> set es. entry_ok e) \<longleftrightarrow>
    (\<forall>ik \<in> fst ` set es. 8 \<le> length ik \<and> ik_version ik < 2 ^ 56)"
  by (auto simp: entry_ok_def)

lemma mt_inv_insert:
  assumes "sorted_entries es" "\<forall>e \<in> set es. entry_ok e" "w < 2 ^ 56"
  shows "sorted_entries (sm_insert (internal_key k w) x es) \<and>
         (\<forall>e \<in> set (sm_insert (internal_key k w) x es). entry_ok e)"
  using assms by (simp add: sm_insert_sorted entry_ok_keys sm_insert_set)

lemma user_keys_image: "set (user_keys es) = ik_user_key ` fst ` set es"
  by (auto simp: user_keys_def)

lemma user_keys_insert:
  "set (user_keys (sm_insert (internal_key k w) x es)) = insert k (set (user_keys es))"
  by (simp add: user_keys_image sm_insert_set)

lemma dropWhile_below:
  "sorted_entries es \<Longrightarrow> dropWhile (\<lambda>e. fst e < b) es = filter (\<lambda>e. \<not> fst e < b) es"
proof (induction es)
  case (Cons e es)
  show ?case
  proof (cases "fst e < b")
    case False
    then have "\<forall>f \<in> set es. \<not> fst f < b" using Cons.prems by (auto simp: not_less dest: order.strict_trans1)
    then have "filter (\<lambda>e. \<not> fst e < b) es = es" by (simp add: filter_id_conv)
    with False show ?thesis by simp
  qed (use Cons in simp)
qed simp

lemma sm_range_from_sorted: "sorted_entries es \<Longrightarrow> sorted_entries (sm_range_from b es)"
  unfolding sm_range_from_def by (simp add: dropWhile_below sorted_wrt_map sorted_wrt_filter)

lemma sm_range_from_set:
  "sorted_entries es \<Longrightarrow> set (sm_range_from b es) = {e \<in> set es. b \<le> fst e}"
  by (auto simp: sm_range_from_def dropWhile_below)

lemma visible_range_from:
  assumes "sorted_entries es" and "\<And>e. wanted k v e \<Longrightarrow> b \<le> fst e"
  shows "visible (sm_range_from b es) k v = visible es k v"
proof -
  have "find (wanted k v) (filter (\<lambda>e. \<not> fst e < b) es) = find (wanted k v) es"
    using assms(2) by (induction es) (auto simp: not_less)
  then show ?thesis
    using visible_find [OF assms(1), of k v] visible_find [OF sm_range_from_sorted [OF assms(1)], of b k v]
    by (simp add: sm_range_from_def dropWhile_below [OF assms(1)])
qed

lemma wanted_internal_key: "wanted k v e \<Longrightarrow> fst e = internal_key k (ik_version (fst e)) \<and> ik_version (fst e) \<le> v"
  by (metis internal_key_collapse wanted_def)

lemma visible_no_wanted: "sorted_entries es \<Longrightarrow> \<forall>e \<in> set es. \<not> wanted k v e \<Longrightarrow> visible es k v = None"
  by (simp add: visible_find find_None_iff)

lemma mt_get_visible_aux:
  assumes inv: "mt_inv m" and ff: "mt_compat m k" and v: "v < 2 ^ 56"
  shows "mt_get m k v = visible (mt_map m) k v"
proof -
  let ?r = "sm_range_from (internal_key k v) (mt_map m)"
  have srt: "sorted_entries (mt_map m)" and ok: "\<forall>e \<in> set (mt_map m). entry_ok e"
    using inv by (auto simp: mt_inv_def)
  have vis: "visible ?r k v = visible (mt_map m) k v"
    by (rule visible_range_from [OF srt]) (metis internal_key_le_same wanted_internal_key)
  have sr: "sorted_entries ?r" and in_r: "set ?r = {e \<in> set (mt_map m). internal_key k v \<le> fst e}"
    using srt sm_range_from_sorted sm_range_from_set by auto
  have "mt_get_loop k ?r = visible ?r k v"
  proof (cases ?r)
    case (Cons e r)
    have e: "e \<in> set (mt_map m)" "internal_key k v \<le> fst e" using in_r Cons by auto
    have eok: "8 \<le> length (fst e)" "ik_version (fst e) < 2 ^ 56" "entry_ok e"
      using ok e by (auto simp: entry_ok_def)
    show ?thesis
    proof (cases "ik_user_key (fst e) = k")
      case True
      then have "wanted k v e"
        using e(2) eok internal_key_collapse [OF eok(1)] internal_key_le_same
        by (metis wanted_def)
      then have "visible ?r k v = Some (snd e)" using visible_Cons_wanted sr Cons by simp
      with True eok show ?thesis by (cases e) (simp add: Cons ik_user_key_def)
    next
      case False
      have "\<not> wanted k v f" if "f \<in> set r" for f
      proof
        assume w: "wanted k v f"
        have f: "f \<in> set (mt_map m)" "fst e \<le> fst f" using in_r Cons sr that by (auto simp: le_less)
        have "ik_user_key (fst e) = k"
        proof (rule between_same_key)
          show "internal_key k v \<le> internal_key (ik_user_key (fst e)) (ik_version (fst e))"
            using e eok by (simp add: internal_key_collapse)
          show "internal_key (ik_user_key (fst e)) (ik_version (fst e)) \<le> internal_key k (ik_version (fst f))"
            using f eok wanted_internal_key [OF w] by (simp add: internal_key_collapse)
          show "ff_compat k (ik_user_key (fst e))" using ff e by (auto simp: mt_compat_def user_keys_def)
        qed (use v eok ok f in \<open>auto simp: entry_ok_def\<close>)
        with False show False by simp
      qed
      moreover have "\<not> wanted k v e" using False by (simp add: wanted_def)
      ultimately have "visible ?r k v = None" using visible_no_wanted [OF sr] Cons by auto
      with False eok show ?thesis by (cases e) (simp add: Cons ik_user_key_def)
    qed
  qed (simp add: visible_def)
  then show ?thesis by (simp add: mt_get_def vis)
qed

section \<open>Scans\<close>

text \<open>No stored key reaches into the prefix by way of its version bytes.\<close>

definition scan_safe :: "entry list \<Rightarrow> bytes \<Rightarrow> bool" where
  "scan_safe es p \<longleftrightarrow> (\<forall>j \<in> set (user_keys es). \<not> prefix (j @ [255]) p)"

lemma scan_loop_dedup:
  "long_keys es \<Longrightarrow>
   mt_scan_loop p v l es = dedup_scan v l (takeWhile (entry_key_pred (prefix p)) es)"
  by (induction p v l es rule: mt_scan_loop.induct)
     (auto simp: Let_def ik_user_key_def ik_version_def)

lemma scan_max_loop_take:
  "n < mx \<Longrightarrow> mt_scan_max_loop p v mx n l es = take (mx - n) (mt_scan_loop p v l es)"
proof (induction p v mx n l es rule: mt_scan_max_loop.induct)
  case (2 p v mx n l key x es)
  have "mx - n = Suc (mx - (n + 1))" using 2 by simp
  with 2 show ?case by (auto simp: Let_def)
qed simp

lemma scan_from_loop_take:
  "n < mx \<Longrightarrow> long_keys es \<Longrightarrow> mt_scan_from_loop p start v mx n l es =
     take (mx - n) (mt_scan_loop p v l (filter (entry_key_pred (\<lambda>u. \<not> u < start)) es))"
proof (induction p start v mx n l es rule: mt_scan_from_loop.induct)
  case (2 p start v mx n l key x es)
  have "mx - n = Suc (mx - (n + 1))" using 2 by simp
  with 2 show ?case by (simp add: Let_def ik_user_key_def)
qed simp

lemma prefix_seek_le:
  assumes "prefix p (ik_user_key d)" and "8 \<le> length d"
  shows "internal_key p (- 1) \<le> d"
proof -
  obtain t where t: "ik_user_key d = p @ t" using assms(1) by (auto simp: prefix_def)
  have zero: "u64_be 0 \<le> xs" if "8 \<le> length xs" for xs
  proof -
    have "u64_be 0 \<le> u64_be (be_u64 (take 8 xs))" by (simp only: u64_be_le) simp
    also have "\<dots> = take 8 xs" using that by (simp add: u64_be_be_u64)
    also have "\<dots> \<le> xs" by (rule prefix_le) (rule take_is_prefix)
    finally show ?thesis .
  qed
  have d: "d = p @ t @ u64_be (NOT (ik_version d))"
    using internal_key_collapse [OF assms(2)] t by (simp add: internal_key_def)
  show ?thesis by (subst d) (simp add: internal_key_def zero)
qed

lemma prefix_window:
  assumes "internal_key p (- 1) \<le> d" "d \<le> f" "prefix p (ik_user_key f)"
    and "8 \<le> length d" "ik_version d < 2 ^ 56" "8 \<le> length f"
    and "\<not> prefix (ik_user_key d @ [255]) p"
  shows "prefix p (ik_user_key d)"
proof (rule ccontr)
  assume no: "\<not> prefix p (ik_user_key d)"
  obtain r where r: "u64_be (NOT (ik_version d)) = 255 # r" using assms(5) hd_inverted_version by metis
  have d: "d = ik_user_key d @ 255 # r"
    using internal_key_collapse [OF assms(4)] by (simp add: internal_key_def r)
  have f: "prefix p f"
    using internal_key_collapse [OF assms(6)] assms(3) by (metis internal_key_def prefix_prefix)
  have "prefix p (internal_key p (- 1))" by (simp add: internal_key_def)
  from prefix_convex [OF this f assms(1,2)] have "prefix p (ik_user_key d @ 255 # r)"
    by (subst (asm) d)
  with no obtain s where s: "p = ik_user_key d @ s" "prefix s (255 # r)" by (auto simp: prefix_append)
  with no obtain s' where "s = 255 # s'" by (cases s) auto
  with s assms(7) show False by (auto simp: prefix_def)
qed

lemma takeWhile_eq_filter:
  "(\<And>a b. a \<in> set xs \<Longrightarrow> b \<in> set xs \<Longrightarrow> R a b \<Longrightarrow> P b \<Longrightarrow> P a) \<Longrightarrow> sorted_wrt R xs \<Longrightarrow>
   takeWhile P xs = filter P xs"
proof (induction xs)
  case (Cons x xs)
  then have "takeWhile P xs = filter P xs" by (metis list.set_intros(2) sorted_wrt.simps(2))
  moreover have "filter P xs = []" if "\<not> P x"
    using Cons.prems that by (auto simp: filter_empty_conv)
  ultimately show ?case by simp
qed simp

lemma filter_range_from:
  assumes "sorted_entries es" and "\<And>e. e \<in> set es \<Longrightarrow> Q e \<Longrightarrow> b \<le> fst e"
  shows "filter Q (sm_range_from b es) = filter Q es"
proof -
  have "\<not> fst e < b" if "e \<in> set es" "Q e" for e using assms(2) [OF that] by (simp add: not_less)
  then show ?thesis
    by (auto simp: sm_range_from_def dropWhile_below [OF assms(1)] intro!: filter_cong)
qed

lemma sorted_wrt_entries: "sorted_entries es \<longleftrightarrow> sorted_wrt (\<lambda>a b. fst a < fst b) es"
  by (simp add: sorted_wrt_map)

lemma mt_scan_prefix_eq:
  assumes "mt_inv m" and "scan_safe (mt_map m) p"
  shows "mt_scan_prefix m p v = dedup_scan v None (filter (entry_key_pred (prefix p)) (mt_map m))"
proof -
  let ?r = "sm_range_from (internal_key p (- 1)) (mt_map m)"
  have srt: "sorted_entries (mt_map m)" and ok: "\<And>e. e \<in> set (mt_map m) \<Longrightarrow> entry_ok e"
    using assms(1) by (auto simp: mt_inv_def)
  have r: "set ?r = {e \<in> set (mt_map m). internal_key p (- 1) \<le> fst e}"
    by (rule sm_range_from_set [OF srt])
  have long: "long_keys ?r" using ok r by (auto simp: long_keys_def entry_ok_def)
  have "takeWhile (entry_key_pred (prefix p)) ?r = filter (entry_key_pred (prefix p)) ?r"
  proof (rule takeWhile_eq_filter)
    show "sorted_wrt (\<lambda>a b. fst a < fst b) ?r"
      using sm_range_from_sorted [OF srt] by (simp add: sorted_wrt_entries)
    fix a b assume a: "a \<in> set ?r" and b: "b \<in> set ?r" "fst a < fst b" "prefix p (ik_user_key (fst b))"
    show "prefix p (ik_user_key (fst a))"
    proof (rule prefix_window [of p "fst a" "fst b"])
      show "\<not> prefix (ik_user_key (fst a) @ [255]) p"
        using assms(2) a r by (auto simp: scan_safe_def user_keys_def)
    qed (use a b r ok in \<open>auto simp: entry_ok_def\<close>)
  qed
  also have "\<dots> = filter (entry_key_pred (prefix p)) (mt_map m)"
    by (rule filter_range_from [OF srt]) (use ok in \<open>auto simp: entry_ok_def intro: prefix_seek_le\<close>)
  finally show ?thesis by (simp add: mt_scan_prefix_def scan_loop_dedup [OF long])
qed

lemma filter_keeps [simp]:
  "sorted_entries es \<Longrightarrow> sorted_entries (filter Q es)"
  "long_keys es \<Longrightarrow> long_keys (filter Q es)"
  by (auto simp: sorted_wrt_map sorted_wrt_filter long_keys_def)

lemma prefix_less_seek:
  assumes "start \<le> ik_user_key d" and "8 \<le> length d"
  shows "internal_key start (- 1) \<le> d"
proof (cases "prefix start (ik_user_key d)")
  case True
  then show ?thesis using assms(2) by (rule prefix_seek_le)
next
  case False
  moreover from this have "\<not> prefix (ik_user_key d) start"
    using assms(1) prefix_le by (metis antisym prefix_order.refl)
  ultimately have "internal_key start (- 1) < internal_key (ik_user_key d) (ik_version d)"
    using assms(1) by (subst internal_key_less_incomparable) (auto simp: le_less)
  then show ?thesis using internal_key_collapse [OF assms(2)] by simp
qed

text \<open>Past the last key of a prefix no later entry belongs to it.\<close>

lemma start_window:
  assumes "prefix p start" "start \<le> ik_user_key d" "d < f" "prefix p (ik_user_key f)"
    and "8 \<le> length d" "8 \<le> length f"
  shows "prefix p (ik_user_key d)"
proof (rule ccontr)
  assume no: "\<not> prefix p (ik_user_key d)"
  have shorter: "\<not> prefix (ik_user_key d) p"
  proof
    assume "prefix (ik_user_key d) p"
    then have "prefix (ik_user_key d) start" using assms(1) by (rule prefix_order.trans)
    then have "ik_user_key d = start" using assms(2) prefix_le by (metis antisym)
    with no assms(1) show False by simp
  qed
  obtain s t where s: "start = p @ s" and t: "ik_user_key f = p @ t"
    using assms(1,4) by (auto simp: prefix_def)
  have "p @ s < ik_user_key d @ []"
    using assms(2) no s by (metis append.right_neutral le_less prefixI)
  then have "p < ik_user_key d" using no shorter less_append_incomparable by blast
  then have "p @ t @ u64_be (NOT (ik_version f)) < ik_user_key d @ u64_be (NOT (ik_version d))"
    using no shorter less_append_incomparable by blast
  then have "f < d"
    using internal_key_collapse [OF assms(5)] internal_key_collapse [OF assms(6)] t
    by (simp add: internal_key_def)
  with assms(3) show False by simp
qed

lemma filter_entries_cong:
  "(\<And>u. u \<in> set (user_keys es) \<Longrightarrow> P u = Q u) \<Longrightarrow>
   filter (entry_key_pred P) es = filter (entry_key_pred Q) es"
  by (rule filter_cong) (auto simp: user_keys_def)

lemma mt_scan_from_eq:
  assumes inv: "mt_inv m" and p: "prefix p start" and mx: "0 < mx"
  shows "mt_scan_from_max m p start v mx =
    take mx (dedup_scan v None (filter (entry_key_pred (\<lambda>u. \<not> u < start))
       (filter (entry_key_pred (prefix p)) (mt_map m))))"
proof -
  let ?r = "sm_range_from (internal_key start (- 1)) (mt_map m)"
  let ?f = "filter (entry_key_pred (\<lambda>u. \<not> u < start)) ?r"
  have srt: "sorted_entries (mt_map m)" and ok: "\<And>e. e \<in> set (mt_map m) \<Longrightarrow> 8 \<le> length (fst e)"
    using inv by (auto simp: mt_inv_def entry_ok_def)
  have r: "set ?r \<subseteq> set (mt_map m)" using sm_range_from_set [OF srt] by auto
  have long: "long_keys ?r" using ok r by (auto simp: long_keys_def)
  have tw: "takeWhile (entry_key_pred (prefix p)) ?f = filter (entry_key_pred (prefix p)) ?f"
  proof (rule takeWhile_eq_filter)
    show "sorted_wrt (\<lambda>a b. fst a < fst b) ?f"
      using sm_range_from_sorted [OF srt] by (simp add: sorted_wrt_entries sorted_wrt_filter)
    fix a b assume a: "a \<in> set ?f" and b: "b \<in> set ?f" "fst a < fst b" "prefix p (ik_user_key (fst b))"
    show "prefix p (ik_user_key (fst a))"
      by (rule start_window [OF p _ b(2,3)])
         (use a b long in \<open>auto simp: long_keys_def not_less\<close>)
  qed
  have f: "?f = filter (entry_key_pred (\<lambda>u. \<not> u < start)) (mt_map m)"
    by (rule filter_range_from [OF srt]) (use ok in \<open>auto simp: not_less intro: prefix_less_seek\<close>)
  have "mt_scan_from_max m p start v mx = take mx (mt_scan_loop p v None ?f)"
    using p mx long by (simp add: mt_scan_from_max_def scan_from_loop_take)
  also have "mt_scan_loop p v None ?f = dedup_scan v None (filter (entry_key_pred (prefix p)) ?f)"
    using long by (simp add: scan_loop_dedup tw)
  finally show ?thesis by (simp only: f filter_filter) (simp add: conj_commute)
qed

lemma user_keys_filter: "set (user_keys (filter Q es)) \<subseteq> set (user_keys es)"
  by (auto simp: user_keys_def)

section \<open>Properties of the memtable\<close>

text \<open>
  a point read of the memtable at a snapshot returns the newest stored version of the key that
  is not above the snapshot (a value or a tombstone), and nothing when there is none, for contents
  sorted by internal key and keys none of which continues another with the byte \<open>0xFF\<close>.
\<close>

theorem memtable_get_visible:
  assumes "mt_inv m" and "mt_compat m k" and "v < 2 ^ 56"
  shows "mt_get m k v = visible (mt_map m) k v"
  using assms by (rule mt_get_visible_aux)

theorem memtable_get_visible_witness:
  "mt_get (mt_put (mt_put mt_new [97] 3 [1]) [97] 5 [2]) [97] 4 =
   visible (mt_map (mt_put (mt_put mt_new [97] 3 [1]) [97] 5 [2])) [97] 4"
proof (rule memtable_get_visible)
  show "mt_inv (mt_put (mt_put mt_new [97] 3 [1]) [97] 5 [2])"
    using mt_inv_insert [of "[]" 3 "[97]" "Some [1]"]
      mt_inv_insert [of "sm_insert (internal_key [97] 3) (Some [1]) []" 5 "[97]" "Some [2]"]
    by (simp add: mt_inv_def mt_put_def mt_new_def Let_def del: sm_insert.simps)
  show "mt_compat (mt_put (mt_put mt_new [97] 3 [1]) [97] 5 [2]) [97]"
    by (simp add: mt_compat_def mt_put_def mt_new_def Let_def user_keys_insert ff_compat_def)
qed simp

text \<open>
  a put or delete keeps the memtable's invariant and changes what a snapshot reads exactly
  where it should: the written key, at snapshots from the written version on, unless a newer
  version in reach was already there; every other read is as before. The size counter grows by the
  bytes of the entry, modulo the machine word.
\<close>

theorem memtable_write_effect:
  assumes "mt_inv m" and "w < 2 ^ 56"
    and "\<forall>u. w < u \<and> u \<le> v \<longrightarrow> map_of (mt_map m) (internal_key k u) = None"
  shows "mt_inv (mt_put m k w x) \<and> mt_inv (mt_delete m k w) \<and>
    visible (mt_map (mt_put m k w x)) j v =
      (if j = k \<and> w \<le> v then Some (Some x) else visible (mt_map m) j v) \<and>
    visible (mt_map (mt_delete m k w)) j v =
      (if j = k \<and> w \<le> v then Some None else visible (mt_map m) j v) \<and>
    mt_approximate_size (mt_put m k w x) =
      mt_approximate_size m + of_nat (length k + 8 + length x) \<and>
    mt_approximate_size (mt_delete m k w) = mt_approximate_size m + of_nat (length k + 8)"
proof -
  have srt: "sorted_entries (mt_map m)" "\<forall>e \<in> set (mt_map m). entry_ok e"
    using assms(1) by (auto simp: mt_inv_def)
  have vis: "visible (sm_insert (internal_key k w) y (mt_map m)) j v =
      (if j = k \<and> w \<le> v then Some y else visible (mt_map m) j v)" for y
    using sm.insert_visible [OF srt(1), of k w y j v] assms(3) by auto
  show ?thesis
    using mt_inv_insert [OF srt assms(2)] vis
    by (simp add: mt_inv_def mt_put_def mt_delete_def Let_def mt_approximate_size_def)
qed

theorem memtable_write_effect_witness:
  "mt_inv (mt_put mt_new [97] 3 [1]) \<and> mt_inv (mt_delete mt_new [97] 3) \<and>
    visible (mt_map (mt_put mt_new [97] 3 [1])) [97] 7 =
      (if [97] = [97 :: byte] \<and> (3 :: u64) \<le> 7 then Some (Some [1]) else visible (mt_map mt_new) [97] 7) \<and>
    visible (mt_map (mt_delete mt_new [97] 3)) [97] 7 =
      (if [97] = [97 :: byte] \<and> (3 :: u64) \<le> 7 then Some None else visible (mt_map mt_new) [97] 7) \<and>
    mt_approximate_size (mt_put mt_new [97] 3 [1]) =
      mt_approximate_size mt_new + of_nat (length [97 :: byte] + 8 + length [1 :: byte]) \<and>
    mt_approximate_size (mt_delete mt_new [97] 3) = mt_approximate_size mt_new + of_nat (length [97 :: byte] + 8)"
  by (rule memtable_write_effect) (simp_all add: mt_inv_new, simp add: mt_new_def)

text \<open>
  a prefix scan returns every user key under the prefix at most once, with the value (or
  tombstone) a point read at the snapshot sees, and no other key; the bounded scan returns the
  first entries of the full scan, and a scan that starts at a given key (the resumption of a paged
  scan) returns the first entries of the full scan from that key on, nothing skipped or repeated.
\<close>

theorem memtable_scan_correct:
  assumes "mt_inv m" and "compatible_keys (user_keys (mt_map m))" and "scan_safe (mt_map m) p"
    and "prefix p start"
  shows "distinct (map fst (mt_scan_prefix m p v)) \<and>
    map_of (mt_scan_prefix m p v) k = (if prefix p k then visible (mt_map m) k v else None) \<and>
    mt_scan_prefix_max m p v n = take n (mt_scan_prefix m p v) \<and>
    mt_scan_from_max m p start v n =
      take n (filter (\<lambda>(u, x). start \<le> u) (mt_scan_prefix m p v))"
proof -
  let ?f = "filter (entry_key_pred (prefix p)) (mt_map m)"
  have srt: "sorted_entries (mt_map m)" and ok: "\<forall>e \<in> set (mt_map m). entry_ok e"
    using assms(1) by (auto simp: mt_inv_def)
  have scan: "mt_scan_prefix m p v = dedup_scan v None ?f"
    by (rule mt_scan_prefix_eq [OF assms(1,3)])
  have grp: "grouped (user_keys ?f)"
  proof (rule grouped_sorted)
    show "compatible_keys (user_keys ?f)"
      using assms(2) user_keys_filter [of "entry_key_pred (prefix p)" "mt_map m"]
      by (auto simp: compatible_keys_def)
  qed (use srt ok in simp_all)
  have d: "distinct (map fst (mt_scan_prefix m p v))"
    using dedup_scan_distinct [OF grp] by (simp add: scan)
  have l: "map_of (mt_scan_prefix m p v) k = (if prefix p k then visible (mt_map m) k v else None)"
    using dedup_scan_lookup [of ?f None k v] srt entry_ok_long [OF ok] by (simp add: scan visible_filter)
  have mx: "mt_scan_prefix_max m p v n = take n (mt_scan_prefix m p v)"
    by (simp add: mt_scan_prefix_max_def scan_max_loop_take mt_scan_prefix_def)
  have "mt_scan_from_max m p start v n = take n (filter (\<lambda>(u, x). \<not> u < start) (mt_scan_prefix m p v))"
  proof (cases "n = 0")
    case False
    then show ?thesis
      using dedup_scan_filter [OF grp, of None "\<lambda>u. \<not> u < start" None v]
      by (simp add: mt_scan_from_eq [OF assms(1,4)] scan)
  qed (simp add: mt_scan_from_max_def)
  with d l mx show ?thesis by (simp add: not_less)
qed

theorem memtable_scan_correct_witness:
  "distinct (map fst (mt_scan_prefix (mt_put mt_new [97, 98] 3 [1]) [97] 4)) \<and>
    map_of (mt_scan_prefix (mt_put mt_new [97, 98] 3 [1]) [97] 4) [97, 98] =
      (if prefix [97] [97, 98 :: byte] then visible (mt_map (mt_put mt_new [97, 98] 3 [1])) [97, 98] 4 else None) \<and>
    mt_scan_prefix_max (mt_put mt_new [97, 98] 3 [1]) [97] 4 1 =
      take 1 (mt_scan_prefix (mt_put mt_new [97, 98] 3 [1]) [97] 4) \<and>
    mt_scan_from_max (mt_put mt_new [97, 98] 3 [1]) [97] [97, 97] 4 1 =
      take 1 (filter (\<lambda>(u, x). [97, 97] \<le> u) (mt_scan_prefix (mt_put mt_new [97, 98] 3 [1]) [97] 4))"
proof (rule memtable_scan_correct)
  show "mt_inv (mt_put mt_new [97, 98] 3 [1])"
    by (simp add: mt_inv_def mt_put_def mt_new_def Let_def)
qed (simp_all add: compatible_keys_def scan_safe_def ff_compat_def mt_put_def mt_new_def Let_def)

end
