(* ===== verification/Sst_Read.thy ===== *)
theory Sst_Read
  imports Sst_Format Memtable
begin

text \<open>
  The reads of an SST file, proved from the relation \<open>sst_repr\<close> between a reader and the entries of its
  file: full walks return the entries, scans return what the reference scan returns, point reads
  return what a snapshot sees as long as no stored user key continues the key that is read. The
  last section shows that this condition is needed.
\<close>

section \<open>Blocks of a represented file\<close>

lemma sst_reprE:
  assumes "sst_repr lib es r"
  obtains cmp cs where "concat cs = es" "\<forall>c \<in> set cs. c \<noteq> []" "\<forall>e \<in> set es. entry_fits e"
    "sr_index r = index_of lib cmp cs" "sr_data_end r = 8 + length (region lib cmp cs)"
    "\<forall>i < length cs. sst_block lib r i = Inr (enc_block (cs ! i))"
  using assms unfolding sst_repr_def reader_shape_def by blast

lemma block_entries_fit:
  assumes "concat cs = es" "\<forall>e \<in> set es. entry_fits e" "i < length cs"
  shows "\<forall>e \<in> set (cs ! i). entry_fits e"
  using assms nth_mem by fastforce

lemma for_each_blocks_repr:
  assumes cs: "concat cs = es" "\<forall>e \<in> set es. entry_fits e"
    and blk: "\<forall>i < length cs. sst_block lib r i = Inr (enc_block (cs ! i))"
  shows "\<forall>i \<in> set bis. i < length cs \<Longrightarrow> for_each_blocks lib r bis = Inr (concat (map ((!) cs) bis))"
  by (induction bis) (use blk block_entries_fit [OF cs] for_each_loop_enc in auto)

lemma try_for_each_entry_repr: "sst_repr lib es r \<Longrightarrow> try_for_each_entry lib r = Inr es"
proof (erule sst_reprE)
  fix cmp cs
  assume "concat cs = es" "\<forall>e \<in> set es. entry_fits e" and i: "sr_index r = index_of lib cmp cs"
    and "\<forall>i < length cs. sst_block lib r i = Inr (enc_block (cs ! i))"
  then show ?thesis
    using for_each_blocks_repr [of cs es lib r "[0..<length cs]"]
    by (simp add: try_for_each_entry_def map_nth)
qed

lemma iter_rest_repr:
  assumes idx: "length (sr_index r) = length cs" and cs: "concat cs = es" "\<forall>e \<in> set es. entry_fits e"
    and blk: "\<forall>i < length cs. sst_block lib r i = Inr (enc_block (cs ! i))"
  shows "iter_rest lib r bi = concat (drop bi cs)"
proof (induction "length cs - bi" arbitrary: bi)
  case 0
  then show ?case by (subst iter_rest.simps) (simp add: idx)
next
  case (Suc n)
  then have bi: "bi < length cs" by simp
  have "iter_rest lib r (Suc bi) = concat (drop (Suc bi) cs)" using Suc by simp
  moreover have "drop bi cs = cs ! bi # drop (Suc bi) cs" using bi by (rule Cons_nth_drop_Suc [symmetric])
  ultimately show ?case
    using bi blk iter_block_enc [OF block_entries_fit [OF cs bi]]
    by (subst iter_rest.simps) (simp add: idx)
qed

lemma index_of_strict:
  assumes "\<forall>c \<in> set cs. c \<noteq> []" "i < j" "j < length cs"
  shows "snd (index_of lib cmp cs ! i) < snd (index_of lib cmp cs ! j)"
proof -
  have "take j cs = take i cs @ take (j - i) (drop i cs)"
    using assms(2) by (metis le_add_diff_inverse less_imp_le take_add)
  moreover have "take (j - i) (drop i cs) = cs ! i # take (j - i - 1) (drop (Suc i) cs)"
    using assms(2,3) by (simp add: take_Cons' Cons_nth_drop_Suc [symmetric])
  ultimately have "region lib cmp (take j cs) =
      region lib cmp (take i cs) @ frame_of lib cmp (cs ! i) @ region lib cmp (take (j - i - 1) (drop (Suc i) cs))"
    by (simp add: region_def)
  moreover have "frame_of lib cmp (cs ! i) \<noteq> []"
    using assms by (intro block_frame_not_Nil) simp
  ultimately show ?thesis using assms(2,3) by (simp add: index_of_nth)
qed

lemma block_idx_loop_spec:
  assumes "\<forall>j < length ix. (snd (ix ! j) > off) = (m < i + j)" and "m < i + length ix" and "i \<le> m"
  shows "block_idx_loop i ix off = (if m + 1 < i + length ix then Some m else None)"
  using assms
proof (induction ix arbitrary: i)
  case (Cons e ix)
  have e: "\<not> snd e > off" using Cons.prems(1) [rule_format, of 0] Cons.prems(3) by simp
  show ?case
  proof (cases "i = m")
    case False
    have "block_idx_loop (Suc i) ix off = (if m + 1 < Suc i + length ix then Some m else None)"
      using Cons.prems False by (intro Cons.IH) fastforce+
    with e show ?thesis by simp
  next
    case True
    show ?thesis
    proof (cases ix)
      case Nil
      then show ?thesis using e True by simp
    next
      case (Cons f ix')
      have "snd f > off" using Cons.prems(1) [rule_format, of 1] True Cons by simp
      with e True Cons show ?thesis by simp
    qed
  qed
qed simp

lemma sst_iter_from_block:
  assumes idx: "sr_index r = index_of lib cmp cs" and de: "sr_data_end r = 8 + length (region lib cmp cs)"
    and ne: "\<forall>c \<in> set cs. c \<noteq> []" and cs: "concat cs = es" "\<forall>e \<in> set es. entry_fits e"
    and blk: "\<forall>i < length cs. sst_block lib r i = Inr (enc_block (cs ! i))" and bi: "bi < length cs"
  shows "sst_iter_from lib r (snd (sr_index r ! bi)) = concat (drop bi cs)"
proof -
  let ?off = "snd (sr_index r ! bi)"
  have "(snd (sr_index r ! j) > ?off) = (bi < j)" if "j < length cs" for j
    using index_of_strict [OF ne, of bi j lib cmp] index_of_strict [OF ne, of j bi lib cmp] that bi
    by (cases bi j rule: linorder_cases) (auto simp: idx)
  then have "block_idx_for_offset r ?off = bi"
    using block_idx_loop_spec [of "sr_index r" ?off bi 0] bi by (auto simp: block_idx_for_offset_def idx)
  moreover have "?off < sr_data_end r"
  proof -
    have "frame_of lib cmp (cs ! bi) \<noteq> []" using ne bi by (intro block_frame_not_Nil) simp
    then show ?thesis
      using arg_cong [OF region_split [OF bi, of lib cmp], of length] bi by (simp add: idx de index_of_nth)
  qed
  moreover have "sr_index r \<noteq> []" using bi idx by (metis length_index_of less_nat_zero_code list.size(3))
  moreover have "concat (drop bi cs) = cs ! bi @ concat (drop (Suc bi) cs)"
    using bi by (simp add: Cons_nth_drop_Suc [symmetric])
  ultimately show ?thesis
    using bi blk iter_block_enc [OF block_entries_fit [OF cs bi]]
      iter_rest_repr [OF _ cs blk, of "Suc bi"] idx
    by (simp add: sst_iter_from_def Let_def)
qed

text \<open>The block a seek starts at: all earlier entries are below the key that is sought.\<close>

lemma index_keys:
  "map fst (index_of lib cmp cs) = map (\<lambda>c. fst (hd c)) cs"
  by (rule nth_equalityI) (simp_all add: index_of_nth)

lemma earlier_blocks_below:
  assumes srt: "sorted_entries (concat cs)" and ne: "\<forall>c \<in> set cs. c \<noteq> []" and bi: "bi < length cs"
    and e: "e \<in> set (concat (take bi cs))"
  shows "fst e < fst (hd (cs ! bi))"
proof -
  have "cs = take bi cs @ cs ! bi # drop (Suc bi) cs" using bi by (simp add: id_take_nth_drop)
  then have "concat cs = concat (take bi cs) @ cs ! bi @ concat (drop (Suc bi) cs)"
    by (metis concat.simps(2) concat_append)
  with srt have "sorted_wrt (<) (map fst (concat (take bi cs)) @ map fst (cs ! bi @ concat (drop (Suc bi) cs)))"
    by (metis map_append)
  moreover have "hd (cs ! bi) \<in> set (cs ! bi)" using ne bi by simp
  ultimately show ?thesis using e by (auto simp: sorted_wrt_append)
qed

lemma block_at_or_before_cases:
  obtains (found) i where "i = length (takeWhile (\<lambda>e. fst e < key) ix)" "i < length ix"
      "fst (ix ! i) = key" "block_at_or_before ix key = i"
    | (missing) i where "i = length (takeWhile (\<lambda>e. fst e < key) ix)" "i \<le> length ix"
      "block_at_or_before ix key = i - 1"
proof -
  define i where "i = length (takeWhile (\<lambda>e. fst e < key) ix)"
  have "i \<le> length ix" unfolding i_def by (rule length_takeWhile_le)
  moreover have "block_at_or_before ix key = (if i < length ix \<and> fst (ix ! i) = key then i else i - 1)"
    by (simp add: block_at_or_before_def index_search_def Let_def i_def [symmetric])
  ultimately show ?thesis
    using found [OF i_def] missing [OF i_def] by (auto split: if_splits)
qed

lemma block_at_or_before_less:
  assumes "ix \<noteq> []" shows "block_at_or_before ix key < length ix"
proof (cases rule: block_at_or_before_cases [where key = key and ix = ix])
  case (missing i)
  have "0 < length ix" using assms by simp
  with missing show ?thesis by linarith
qed simp

lemma block_at_or_before_le:
  assumes "0 < block_at_or_before ix key"
  shows "fst (ix ! block_at_or_before ix key) \<le> key"
proof (cases rule: block_at_or_before_cases [where key = key and ix = ix])
  case (missing i)
  let ?w = "takeWhile (\<lambda>e. fst e < key) ix"
  have lt: "i - 1 < length ?w" using missing assms by simp
  have "fst (?w ! (i - 1)) < key" using set_takeWhileD [OF nth_mem [OF lt]] by blast
  then show ?thesis using takeWhile_nth [OF lt] missing(3) by simp
qed simp

lemma seek_split:
  assumes srt: "sorted_entries (concat cs)" and ne: "\<forall>c \<in> set cs. c \<noteq> []" and nn: "cs \<noteq> []"
    and bi_def: "bi = block_at_or_before (index_of lib cmp cs) key"
  shows "bi < length cs" "concat cs = concat (take bi cs) @ concat (drop bi cs)"
    "e \<in> set (concat (take bi cs)) \<Longrightarrow> fst e < key"
proof -
  have "index_of lib cmp cs \<noteq> []" using nn by (metis length_0_conv length_index_of)
  from block_at_or_before_less [OF this, of key] show bi: "bi < length cs" by (simp add: bi_def)
  show "concat cs = concat (take bi cs) @ concat (drop bi cs)" by (metis append_take_drop_id concat_append)
  assume e: "e \<in> set (concat (take bi cs))"
  then have "0 < bi" by (cases bi) auto
  then have "fst (hd (cs ! bi)) \<le> key"
    using block_at_or_before_le [of "index_of lib cmp cs" key] bi by (simp add: bi_def index_of_nth)
  with earlier_blocks_below [OF srt ne bi e] show "fst e < key" by simp
qed

section \<open>Scans\<close>

lemma sst_scan_loop_eq: "sst_scan_loop p start v mx n l es = mt_scan_from_loop p start v mx n l es"
  by (induction p start v mx n l es rule: mt_scan_from_loop.induct) (simp_all add: Let_def)

lemma be_bytes_0: "be_bytes k 0 = replicate k 0"
  by (induction k) (simp_all add: replicate_append_same [symmetric])

lemma seek_key_eq: "seek_key k = internal_key k (- 1)"
  by (simp add: seek_key_def internal_key_def u64_be_def be_bytes_0)

lemma sst_iter_from_seek:
  assumes "sst_repr lib es r" and "sorted_entries es"
  obtains pre where "es = pre @ sst_iter_from lib r (prefix_start_offset r k)" "\<forall>e \<in> set pre. fst e < internal_key k (- 1)"
    "user_key_start_offset r k = prefix_start_offset r k"
proof (rule sst_reprE [OF assms(1)])
  fix cmp cs
  assume cs: "concat cs = es" "\<forall>c \<in> set cs. c \<noteq> []" "\<forall>e \<in> set es. entry_fits e"
    and idx: "sr_index r = index_of lib cmp cs" and de: "sr_data_end r = 8 + length (region lib cmp cs)"
    and blk: "\<forall>i < length cs. sst_block lib r i = Inr (enc_block (cs ! i))"
  have same: "user_key_start_offset r k = prefix_start_offset r k"
    by (simp add: user_key_start_offset_def prefix_start_offset_def)
  show ?thesis
  proof (cases "cs = []")
    case True
    then show ?thesis using that [of "[]"] cs idx same by (simp add: sst_iter_from_def)
  next
    case False
    let ?bi = "block_at_or_before (index_of lib cmp cs) (internal_key k (- 1))"
    have srt: "sorted_entries (concat cs)" using assms(2) cs(1) by simp
    note split = seek_split [OF srt cs(2) False, of ?bi lib cmp "internal_key k (- 1)", OF refl]
    have "sr_index r \<noteq> []" using False idx by (metis length_0_conv length_index_of)
    then have "prefix_start_offset r k = snd (sr_index r ! ?bi)"
      by (simp add: prefix_start_offset_def seek_key_eq idx)
    then have "sst_iter_from lib r (prefix_start_offset r k) = concat (drop ?bi cs)"
      using sst_iter_from_block [OF idx de cs(2) cs(1,3) blk split(1)] by simp
    with that [of "concat (take ?bi cs)"] split(2,3) cs(1) same show ?thesis by simp
  qed
qed

text \<open>Both scans: the part of the file from the sought block on, cut to the prefix.\<close>

lemma sst_scan_from_eq:
  assumes rep: "sst_repr lib es r" and srt: "sorted_entries es" and long: "long_keys es"
    and p: "prefix p start" and mx: "0 < mx"
  shows "sst_scan_loop p start v mx 0 None (sst_iter_from lib r (prefix_start_offset r start)) =
    take mx (dedup_scan v None (filter (entry_key_pred (\<lambda>u. prefix p u \<and> start \<le> u)) es))"
proof (rule sst_iter_from_seek [OF rep srt, of start])
  fix pre
  let ?r = "sst_iter_from lib r (prefix_start_offset r start)"
  let ?f = "filter (entry_key_pred (\<lambda>u. \<not> u < start)) ?r"
  assume es: "es = pre @ ?r" and pre: "\<forall>e \<in> set pre. fst e < internal_key start (- 1)"
  have lr: "long_keys ?r" using long es by (auto simp: long_keys_def)
  have sr: "sorted_wrt (\<lambda>a b. fst a < fst b) ?f"
    using srt unfolding sorted_wrt_entries by (subst (asm) es) (simp add: sorted_wrt_append sorted_wrt_filter)
  have tw: "takeWhile (entry_key_pred (prefix p)) ?f = filter (entry_key_pred (prefix p)) ?f"
  proof (rule takeWhile_eq_filter [OF _ sr])
    fix a b assume a: "a \<in> set ?f" and b: "b \<in> set ?f" "fst a < fst b" "prefix p (ik_user_key (fst b))"
    show "prefix p (ik_user_key (fst a))"
      by (rule start_window [OF p _ b(2,3)]) (use a b lr in \<open>auto simp: long_keys_def not_less\<close>)
  qed
  have "\<not> start \<le> ik_user_key (fst e)" if "e \<in> set pre" for e
  proof
    assume "start \<le> ik_user_key (fst e)"
    moreover have "8 \<le> length (fst e)" using long es that by (auto simp: long_keys_def)
    ultimately have "internal_key start (- 1) \<le> fst e" by (rule prefix_less_seek)
    with pre that show False by (metis not_less)
  qed
  then have "filter (entry_key_pred (\<lambda>u. prefix p u \<and> start \<le> u)) pre = []"
    by (simp add: filter_empty_conv)
  then have "filter (entry_key_pred (\<lambda>u. prefix p u \<and> start \<le> u)) es =
      filter (entry_key_pred (\<lambda>u. prefix p u \<and> start \<le> u)) ?r"
    by (subst es) simp
  also have "\<dots> = filter (entry_key_pred (prefix p)) ?f" by (simp add: not_less conj_commute)
  finally show ?thesis
    using lr mx by (simp add: sst_scan_loop_eq scan_from_loop_take scan_loop_dedup tw)
qed

lemma prefix_filter_start:
  "filter (entry_key_pred (\<lambda>u. prefix p u \<and> p \<le> u)) es = filter (entry_key_pred (prefix p)) es"
  by (rule filter_cong) (auto dest: prefix_le)

lemma dedup_scan_length: "length (dedup_scan v l es) \<le> length es"
  by (induction v l es rule: dedup_scan.induct) (auto intro: le_SucI)

lemma sst_scan_prefix_eq:
  assumes rep: "sst_repr lib es r" and "sorted_entries es" and "long_keys es"
  shows "sst_scan_prefix_impl lib r p v mx =
      take mx (dedup_scan v None (filter (entry_key_pred (prefix p)) es))"
    "sst_scan_prefix lib r p v = dedup_scan v None (filter (entry_key_pred (prefix p)) es)"
proof -
  show impl: "sst_scan_prefix_impl lib r p v mx =
      take mx (dedup_scan v None (filter (entry_key_pred (prefix p)) es))" for mx
    using sst_scan_from_eq [OF assms, of p p mx v]
    by (cases "mx = 0") (simp_all add: sst_scan_prefix_impl_def prefix_filter_start)
  have "length (dedup_scan v None (filter (entry_key_pred (prefix p)) es)) \<le> length es"
    using dedup_scan_length [of v None "filter (entry_key_pred (prefix p)) es"]
      length_filter_le [of "entry_key_pred (prefix p)" es] by linarith
  also have "\<dots> \<le> 2 ^ 27" using rep by (simp add: sst_repr_def)
  finally show "sst_scan_prefix lib r p v = dedup_scan v None (filter (entry_key_pred (prefix p)) es)"
    by (simp add: sst_scan_prefix_def impl)
qed

section \<open>Point reads\<close>

text \<open>The scan of \<^verbatim>\<open>get_versioned\<close> over entries instead of bytes.\<close>

fun gv_scan :: "bytes \<Rightarrow> u64 \<Rightarrow> entry list \<Rightarrow> memval option option" where
  "gv_scan k v [] = None"
| "gv_scan k v (e # es) =
     (if 8 \<le> length (fst e) then
        if ik_user_key (fst e) = k then
          if ik_version (fst e) \<le> v then Some (Some (snd e)) else gv_scan k v es
        else if ik_user_key (fst e) > k then Some None
        else gv_scan k v es
      else gv_scan k v es)"

lemma get_versioned_loop_enc:
  "\<forall>e \<in> set es. entry_fits e \<Longrightarrow> get_versioned_loop k v (enc_block es) = gv_scan k v es"
proof (induction es)
  case (Cons e es)
  then have "decode_entry (enc_block (e # es)) = PEntry (fst e) (snd e) (enc_block es)"
    by (simp add: decode_entry_bytes)
  with Cons show ?case
    by (subst get_versioned_loop.simps) (simp add: Let_def ik_user_key_def ik_version_def)
qed (simp add: get_versioned_loop.simps)

lemma gv_scan_append:
  "gv_scan k v (a @ b) = (case gv_scan k v a of Some res \<Rightarrow> Some res | None \<Rightarrow> gv_scan k v b)"
  by (induction a) auto

lemma get_versioned_blocks_repr:
  assumes idx: "length (sr_index r) = length cs" and cs: "concat cs = es" "\<forall>e \<in> set es. entry_fits e"
    and blk: "\<forall>i < length cs. sst_block lib r i = Inr (enc_block (cs ! i))"
  shows "get_versioned_blocks lib r k v bi =
    Inr (case gv_scan k v (concat (drop bi cs)) of Some res \<Rightarrow> res | None \<Rightarrow> None)"
proof (induction "length cs - bi" arbitrary: bi)
  case 0
  then show ?case by (subst get_versioned_blocks.simps) (simp add: idx)
next
  case (Suc n)
  then have bi: "bi < length cs" by simp
  have "get_versioned_blocks lib r k v (bi + 1) =
      Inr (case gv_scan k v (concat (drop (Suc bi) cs)) of Some res \<Rightarrow> res | None \<Rightarrow> None)"
    using Suc by simp
  moreover have "concat (drop bi cs) = cs ! bi @ concat (drop (Suc bi) cs)"
    using bi by (simp add: Cons_nth_drop_Suc [symmetric])
  ultimately show ?case
    using bi blk get_versioned_loop_enc [OF block_entries_fit [OF cs bi], of k v]
    by (subst get_versioned_blocks.simps) (simp add: idx gv_scan_append split: option.splits)
qed

text \<open>No stored user key continues \<open>k\<close>.\<close>

definition no_extension :: "entry list \<Rightarrow> bytes \<Rightarrow> bool" where
  "no_extension es k \<longleftrightarrow> (\<forall>j \<in> set (user_keys es). prefix k j \<longrightarrow> j = k)"

lemma greater_key_after:
  assumes "k < ik_user_key d" "\<not> prefix k (ik_user_key d)" "8 \<le> length d" "wanted k v f"
  shows "fst f < d"
proof -
  have "\<not> prefix (ik_user_key d) k" using assms(1) prefix_le by (metis leD)
  then have "internal_key k (ik_version (fst f)) < internal_key (ik_user_key d) (ik_version d)"
    using assms(1,2) by (simp add: internal_key_less_incomparable)
  then show ?thesis using wanted_internal_key [OF assms(4)] internal_key_collapse [OF assms(3)] by simp
qed

lemma gv_scan_visible:
  "sorted_entries es \<Longrightarrow> long_keys es \<Longrightarrow> no_extension es k \<Longrightarrow>
   (case gv_scan k v es of Some res \<Rightarrow> res | None \<Rightarrow> None) = map_option snd (find (wanted k v) es)"
proof (induction es)
  case (Cons e es)
  have IH: "(case gv_scan k v es of Some res \<Rightarrow> res | None \<Rightarrow> None) = map_option snd (find (wanted k v) es)"
    using Cons by (simp add: no_extension_def)
  have "find (wanted k v) (e # es) = None" if "ik_user_key (fst e) > k"
  proof -
    have "\<not> prefix k (ik_user_key (fst e))"
      using Cons.prems(3) that by (auto simp: no_extension_def)
    then have "\<not> wanted k v f" if "f \<in> set es" for f
      using greater_key_after [of k "fst e" v f] \<open>ik_user_key (fst e) > k\<close> Cons.prems that
      by (fastforce dest: less_imp_not_less)
    moreover have "\<not> wanted k v e" using that by (auto simp: wanted_def)
    ultimately show ?thesis by (auto simp: find_None_iff)
  qed
  moreover have "wanted k v e \<longleftrightarrow> ik_user_key (fst e) = k \<and> ik_version (fst e) \<le> v"
    using Cons.prems(2) by (simp add: wanted_def)
  ultimately show ?case using Cons.prems(2) IH by auto
qed simp

text \<open>A point read scans from the sought block on, unless the filter says the key is absent.\<close>

lemma sst_point_read_scan:
  assumes rep: "sst_repr lib es r" and srt: "sorted_entries es"
  obtains (absent) "sst_get_versioned lib r k v = Return None" "k \<notin> set (user_keys es)"
  | (scan) pre post where "es = pre @ post" "\<forall>e \<in> set pre. fst e < internal_key k (- 1)"
    "sst_get_versioned lib r k v = Return (case gv_scan k v post of Some res \<Rightarrow> res | None \<Rightarrow> None)"
proof (rule sst_reprE [OF rep])
  fix cmp cs
  assume cs: "concat cs = es" "\<forall>c \<in> set cs. c \<noteq> []" "\<forall>e \<in> set es. entry_fits e"
    and idx: "sr_index r = index_of lib cmp cs"
    and blk: "\<forall>i < length cs. sst_block lib r i = Inr (enc_block (cs ! i))"
  have bloom: "might_contain lib r k = Some True \<or> might_contain lib r k = Some False \<and> k \<notin> set (user_keys es)"
    using rep unfolding sst_repr_def by (metis (full_types) not_None_eq)
  show ?thesis
  proof (cases "cs = []")
    case True
    then show ?thesis using absent cs(1) idx by (auto simp: sst_get_versioned_def)
  next
    case False
    let ?bi = "block_at_or_before (index_of lib cmp cs) (internal_key k (- 1))"
    have "sorted_entries (concat cs)" using srt cs(1) by simp
    note split = seek_split [OF this cs(2) False, of ?bi lib cmp "internal_key k (- 1)", OF refl]
    have ne: "sr_index r \<noteq> []" using False idx by (metis length_0_conv length_index_of)
    show ?thesis
    proof (cases "might_contain lib r k = Some True")
      case True
      then have "sst_get_versioned lib r k v =
          Return (case gv_scan k v (concat (drop ?bi cs)) of Some res \<Rightarrow> res | None \<Rightarrow> None)"
        using get_versioned_blocks_repr [OF _ cs(1,3) blk, of k v ?bi] ne
        by (simp add: sst_get_versioned_def idx of_result_def)
      with scan [of "concat (take ?bi cs)" "concat (drop ?bi cs)"] split(2,3) cs(1) show ?thesis by simp
    next
      case False
      then show ?thesis using absent bloom ne by (simp add: sst_get_versioned_def)
    qed
  qed
qed

lemma wanted_seek: "wanted k v e \<Longrightarrow> internal_key k (- 1) \<le> fst e"
  using wanted_internal_key [of k v e] internal_key_le_same [of k "- 1" "ik_version (fst e)"]
  by (metis word_order.extremum)

lemma find_append: "find P (a @ b) = (case find P a of Some x \<Rightarrow> Some x | None \<Rightarrow> find P b)"
  by (induction a) auto

lemma no_wanted_absent: "k \<notin> set (user_keys es) \<Longrightarrow> e \<in> set es \<Longrightarrow> \<not> wanted k v e"
  by (auto simp: user_keys_def wanted_def)

lemma sst_get_versioned_visible:
  assumes rep: "sst_repr lib es r" and srt: "sorted_entries es" and long: "long_keys es"
    and ext: "no_extension es k"
  shows "sst_get_versioned lib r k v = Return (visible es k v)"
proof (rule sst_point_read_scan [OF rep srt, of k v])
  assume "sst_get_versioned lib r k v = Return None" "k \<notin> set (user_keys es)"
  then show ?thesis using visible_no_wanted [OF srt, of k v] no_wanted_absent by simp
next
  fix pre post
  assume scan: "es = pre @ post" "\<forall>e \<in> set pre. fst e < internal_key k (- 1)"
    "sst_get_versioned lib r k v = Return (case gv_scan k v post of Some res \<Rightarrow> res | None \<Rightarrow> None)"
  have post: "sorted_entries post" "long_keys post" "no_extension post k"
    using srt long ext by (auto simp: scan(1) sorted_wrt_append long_keys_def no_extension_def)
  have "find (wanted k v) pre = None"
    using scan(2) wanted_seek [of k v] by (auto simp: find_None_iff dest: leD)
  then have "find (wanted k v) es = find (wanted k v) post" by (simp add: scan(1) find_append)
  then show ?thesis using scan(3) gv_scan_visible [OF post] visible_find [OF srt] by simp
qed

text \<open>
  A key that continues \<open>k\<close> with a byte below \<open>0xFF\<close> sorts before every version of \<open>k\<close>, and ends the
  scan.
\<close>

lemma extension_before:
  assumes "ik_user_key d = k @ c # t" "c < 255" "8 \<le> length d" "wanted k v f" "entry_ok f"
  shows "d < fst f"
proof -
  obtain s where s: "u64_be (NOT (ik_version (fst f))) = 255 # s"
    using assms(5) hd_inverted_version by (metis entry_ok_def)
  have "d = k @ c # t @ u64_be (NOT (ik_version d))"
    using internal_key_collapse [OF assms(3)] assms(1) by (simp add: internal_key_def)
  moreover have "fst f = k @ 255 # s"
    using wanted_internal_key [OF assms(4)] by (simp add: internal_key_def s)
  ultimately show ?thesis using assms(2) by (metis Cons_less_Cons less_append_same)
qed

lemma gv_scan_blocked:
  "sorted_entries es \<Longrightarrow> \<forall>e \<in> set es. entry_ok e \<Longrightarrow> d \<in> set es \<Longrightarrow> ik_user_key (fst d) = k @ c # t \<Longrightarrow>
   c < 255 \<Longrightarrow> gv_scan k v es = Some None"
proof (induction es)
  case (Cons e es)
  have long: "8 \<le> length (fst e)" using Cons.prems(2) by (simp add: entry_ok_def)
  show ?case
  proof (cases "d = e")
    case True
    have "k < k @ c # t" using prefix_le [of k "k @ c # t"] by (simp add: less_le)
    then show ?thesis using long Cons.prems(4) by (simp add: True)
  next
    case False
    then have d: "d \<in> set es" "8 \<le> length (fst d)" using Cons.prems(2,3) by (auto simp: entry_ok_def)
    have "\<not> wanted k v e"
    proof
      assume "wanted k v e"
      from extension_before [OF Cons.prems(4,5) d(2) this] Cons.prems(1,2) d(1) show False by fastforce
    qed
    then show ?thesis using Cons d(1) long by (simp add: wanted_def)
  qed
qed simp

lemma sst_extension_hides:
  assumes rep: "sst_repr lib es r" and srt: "sorted_entries es" and ok: "\<forall>e \<in> set es. entry_ok e"
    and d: "d \<in> set es" "ik_user_key (fst d) = k @ c # t" "c < 255"
  shows "sst_get_versioned lib r k v = Return None"
proof (rule sst_point_read_scan [OF rep srt, of k v])
  fix pre post
  assume scan: "es = pre @ post" "\<forall>e \<in> set pre. fst e < internal_key k (- 1)"
    "sst_get_versioned lib r k v = Return (case gv_scan k v post of Some res \<Rightarrow> res | None \<Rightarrow> None)"
  have "8 \<le> length (fst d)" using ok d(1) by (simp add: entry_ok_def)
  then have "internal_key k (- 1) \<le> fst d" using prefix_seek_le [of k "fst d"] d(2) by simp
  then have "d \<in> set post" using scan(1,2) d(1) by (auto dest: leD)
  then have "gv_scan k v post = Some None"
    using gv_scan_blocked [of post d k c t v] srt ok d(2,3) by (auto simp: scan(1) sorted_wrt_append)
  then show ?thesis by (simp add: scan(3))
qed

section \<open>Written files\<close>

text \<open>The reader \<open>r\<close> was opened on the file a writer wrote for the entries \<open>es\<close>.\<close>

definition sst_opened ::
    "sst_lib \<Rightarrow> zone_extractor option \<Rightarrow> SstCompression \<Rightarrow> entry list \<Rightarrow> sst_reader \<Rightarrow> bool" where
  "sst_opened lib ext cmp es r \<longleftrightarrow> (\<exists>img meta. sst_write lib ext cmp es = Some (img, meta) \<and>
     length img < 2 ^ 32 \<and> sst_open lib img = Return r)"

lemma opened_repr:
  assumes "lz4_ok lib" "sst_fits cmp es" "sst_opened lib ext cmp es r"
  shows "sst_repr lib es r"
proof (rule sst_write_open_repr [OF assms(1,2), of ext])
  fix img meta
  assume "sst_write lib ext cmp es = Some (img, meta)"
    "length img < 2 ^ 32 \<Longrightarrow> \<exists>r. sst_open lib img = Return r \<and> sst_repr lib es r"
  with assms(3) show ?thesis by (auto simp: sst_opened_def)
qed

lemma sst_iter_repr:
  assumes "sst_repr lib es r"
  shows "sst_iter lib r = es"
proof (rule sst_reprE [OF assms])
  fix cmp cs
  assume cs: "concat cs = es" "\<forall>c \<in> set cs. c \<noteq> []" "\<forall>e \<in> set es. entry_fits e"
    and idx: "sr_index r = index_of lib cmp cs" and de: "sr_data_end r = 8 + length (region lib cmp cs)"
    and blk: "\<forall>i < length cs. sst_block lib r i = Inr (enc_block (cs ! i))"
  show ?thesis
  proof (cases "cs = []")
    case True
    then show ?thesis using cs(1) idx by (simp add: sst_iter_def sst_iter_from_def)
  next
    case False
    then have "0 < length cs" by simp
    from sst_iter_from_block [OF idx de cs(2) cs(1,3) blk this] show ?thesis
      using cs(1) idx \<open>0 < length cs\<close> by (simp add: sst_iter_def index_of_nth SST_MAGIC_def)
  qed
qed

lemma sst_max_version_repr:
  assumes "sst_repr lib es r" "long_keys es"
  shows "sst_max_version lib r = Inr (foldl max 0 (map (\<lambda>e. ik_version (fst e)) es))"
proof -
  have "foldl (\<lambda>m (key, x). if 8 \<le> length key then max m (NOT (be_u64 (drop (length key - 8) key))) else m) n es =
      foldl max n (map (\<lambda>e. ik_version (fst e)) es)" for n
    using assms(2) by (induction es arbitrary: n) (auto simp: ik_version_def)
  then show ?thesis using try_for_each_entry_repr [OF assms(1)] by (simp add: sst_max_version_def)
qed

text \<open>The size of a file, for concrete instances.\<close>

lemma sst_finish_length:
  assumes "sst_finish lib w = Some (img, meta)"
  shows "length img = length (sw_out (flush_block lib w)) + length (concat (map index_entry_bytes (sw_index w))) +
    length (zb_write_to (sw_zone w)) + 46 + length (bf_bits (bf_new (length (sw_user_keys w))))"
proof -
  have wf: "bf_wf (bf_new (length (sw_user_keys w)))" by (simp add: bf_new_def bf_with_params_def new_wf)
  obtain f where f: "bf_add_all (lib_xxh3 lib) (bf_new (length (sw_user_keys w))) (sw_user_keys w) = Some f"
      "length (bf_bits f) = length (bf_bits (bf_new (length (sw_user_keys w))))"
    using add_all_ok [OF wf, of "lib_xxh3 lib" "sw_user_keys w"] by (auto simp: grows_def)
  with assms show ?thesis
    by (auto simp: sst_finish_def Let_def bf_write_to_def SST_MAGIC_def)
qed

lemma next_power_of_two_bound: "2 \<le> n \<Longrightarrow> next_power_of_two n \<le> 2 * (n - 1)"
proof (induction n rule: next_power_of_two.induct)
  case (1 n)
  show ?case
  proof (cases "n = 2")
    case True
    have "next_power_of_two 1 = 1" by (subst next_power_of_two.simps) simp
    then show ?thesis by (subst next_power_of_two.simps) (simp add: True)
  next
    case False
    with 1 have "next_power_of_two ((n + 1) div 2) \<le> 2 * ((n + 1) div 2 - 1)" by simp
    with 1 show ?thesis by (subst next_power_of_two.simps) simp
  qed
qed

lemma bf_new_size: "length (bf_bits (bf_new n)) \<le> 3 * n + 4"
proof -
  have "next_power_of_two (max n 1 * 10) \<le> 2 * (max n 1 * 10 - 1)" by (rule next_power_of_two_bound) simp
  then show ?thesis
    by (auto simp: bf_new_def bf_with_params_def bf_with_params_and_algo_def DEFAULT_BITS_PER_ENTRY_def Let_def max_def
        split: if_splits)
qed

lemma index_size:
  "\<forall>c \<in> set cs. c \<noteq> [] \<Longrightarrow> length (concat (map index_entry_bytes (index_of lib cmp cs))) \<le>
     length (enc_block (concat cs)) + 4 * length (concat cs)"
proof (induction cs rule: rev_induct)
  case (snoc c cs)
  obtain e c' where c: "c = e # c'" using snoc.prems by (cases c) auto
  have "12 + length (fst (hd c)) \<le> length (enc_block c) + 4 * length c"
    by (simp add: c length_entry_bytes)
  with snoc show ?case by (simp add: index_of_snoc index_entry_bytes_def)
qed simp

lemma no_extractor_zone:
  "let w = foldl (\<lambda>w (ik, x). sst_add lib w ik x) (sw_new_with_options None cmp) es
   in sw_extractor w = None \<and> sw_zone w = zb_new"
proof (induction es rule: rev_induct)
  case (snoc e es)
  obtain ik x where e: "e = (ik, x)" by (cases e)
  have m: "sw_extractor (add_meta w ik x) = sw_extractor w" for w
    by (simp add: add_meta_def Let_def split: option.splits)
  have z: "sw_extractor w = None \<Longrightarrow> sw_zone (add_meta w ik x) = sw_zone w" for w
    by (simp add: add_meta_def Let_def)
  show ?case using snoc by (simp add: e Let_def sst_add_eq m z)
qed (simp add: sw_new_with_options_def Let_def)

lemma region_plain: "region lib NoCompression cs = enc_block (concat cs)"
  by (induction cs) (simp_all add: region_def block_frame_def)

lemma sst_opened_exists:
  assumes lz4: "lz4_ok lib" and fits: "sst_fits NoCompression es"
    and small: "2 * length (enc_block es) + 7 * length es < 2 ^ 31"
  obtains r where "sst_opened lib None NoCompression es r"
proof (rule sst_write_open_repr [OF lz4 fits, of None])
  fix img meta
  assume wr: "sst_write lib None NoCompression es = Some (img, meta)"
    and op: "length img < 2 ^ 32 \<Longrightarrow> \<exists>r. sst_open lib img = Return r \<and> sst_repr lib es r"
  define w where "w = foldl (\<lambda>w (ik, x). sst_add lib w ik x) (sw_new_with_options None NoCompression) es"
  have inv: "writer_inv lib NoCompression es w" unfolding w_def by (rule writer_inv_all)
  then obtain bs c where bc: "es = concat bs @ c" "\<forall>b \<in> set bs. length b = 16" "c = [] \<longrightarrow> bs = []"
      "sw_out w = file_header NoCompression @ region lib NoCompression bs" "sw_buf w = enc_block c"
      "sw_index w = index_of lib NoCompression (if c = [] then [] else bs @ [c])"
    unfolding writer_inv_def by blast
  have w: "length (sw_user_keys w) \<le> length es" "sw_compression w = NoCompression"
    using inv by (auto simp: writer_inv_def)
  have zone: "length (zb_write_to (sw_zone w)) = 8"
    using no_extractor_zone [of lib NoCompression es] by (simp add: w_def Let_def zb_write_to_def zb_new_def)
  define cs where "cs = (if c = [] then [] else bs @ [c])"
  have cs: "concat cs = es" "\<forall>c \<in> set cs. c \<noteq> []" using bc(1-3) by (auto simp: cs_def)
  have out: "length (sw_out (flush_block lib w)) = 8 + length (enc_block es)"
    using bc(1,4,5) w(2) by (auto simp: flush_block_out block_frame_def region_plain)
  have idx: "length (concat (map index_entry_bytes (sw_index w))) \<le> length (enc_block es) + 4 * length es"
    using index_size [OF cs(2), of lib NoCompression] bc(6) cs(1) by (simp add: cs_def)
  have "sst_finish lib w = Some (img, meta)" using wr by (simp add: sst_write_def w_def)
  from sst_finish_length [OF this] have "length img < 2 ^ 32"
    using out idx zone w(1) bf_new_size [of "length (sw_user_keys w)"] small by simp
  with op wr that show thesis by (auto simp: sst_opened_def)
qed

definition stored_codec :: sst_lib where
  "stored_codec = \<lparr>lib_xxh3 = (\<lambda>b s. of_nat (length b) + s), lib_lz4_compress = (\<lambda>b. b),
     lib_lz4_decompress = (\<lambda>b n. Some b)\<rparr>"

definition example_entries :: "entry list" where
  "example_entries = [(internal_key [97] 5, Some [1]), (internal_key [97] 3, None), (internal_key [98] 4, Some [2, 3])]"

lemma stored_codec_ok: "lz4_ok stored_codec"
  by (simp add: lz4_ok_def stored_codec_def)

lemma example_ok:
  "sst_fits cmp example_entries" "sorted_entries example_entries"
  "\<forall>e \<in> set example_entries. entry_ok e" "long_keys example_entries"
  "user_keys example_entries = [[97], [97], [98]]"
proof -
  have "internal_key [97] w < internal_key [98] u" for w u
    by (simp add: internal_key_less_incomparable)
  then show "sorted_entries example_entries" by (simp add: example_entries_def)
qed (simp_all add: sst_fits_def blocks_fit_def example_entries_def entry_fits_def
      length_entry_bytes MAX_BLOCK_UNCOMP_LEN_def entry_ok_def user_keys_def)

lemma example_opened:
  obtains r where "sst_opened stored_codec None NoCompression example_entries r"
  by (rule sst_opened_exists [OF stored_codec_ok example_ok(1)]) (simp_all add: example_entries_def length_entry_bytes)

section \<open>Properties of SST files\<close>

text \<open>
  C23: an SST file round-trips. For entries within the limits of the format the writer produces a
  file, and when it is shorter than 4 GiB opening it succeeds and the full walk (the input of
  compaction), the iterator and the largest version are those of the entries that were added, for
  the plain and the compressed layout and any zone extractor.
\<close>

theorem sst_write_open:
  assumes "lz4_ok lib" and "sst_fits cmp es"
  shows "\<exists>img meta. sst_write lib ext cmp es = Some (img, meta) \<and> sm_entry_count meta = length es \<and>
    (length img < 2 ^ 32 \<longrightarrow> (\<exists>r. sst_open lib img = Return r \<and> try_for_each_entry lib r = Inr es \<and>
       sst_iter lib r = es \<and> sst_max_version lib r = Inr (foldl max 0 (map (\<lambda>e. ik_version (fst e)) es))))"
proof (rule sst_write_open_repr [OF assms, of ext])
  fix img meta
  assume w: "sst_write lib ext cmp es = Some (img, meta)" "sm_entry_count meta = length es"
    and o: "length img < 2 ^ 32 \<Longrightarrow> \<exists>r. sst_open lib img = Return r \<and> sst_repr lib es r"
  have "long_keys es" using assms(2) by (simp add: sst_fits_def)
  with w o show ?thesis
    by (intro exI [of _ img] exI [of _ meta])
       (auto simp: try_for_each_entry_repr sst_iter_repr sst_max_version_repr)
qed

theorem sst_write_open_witness:
  "\<exists>img meta. sst_write stored_codec None Lz4 example_entries = Some (img, meta) \<and> sm_entry_count meta = 3"
  using sst_write_open [OF stored_codec_ok example_ok(1) [of Lz4], of None] by (auto simp: example_entries_def)

text \<open>
  a point read of an SST file at a snapshot returns the newest stored version of the key that is
  not above the snapshot, a value or a tombstone, and nothing when there is none, provided no stored
  user key properly continues the key. The sparse index, the bloom filter and the block boundaries
  never hide an entry.
\<close>

theorem sst_get_versioned_correct:
  assumes "lz4_ok lib" and "sst_fits cmp es" and "sst_opened lib ext cmp es r"
    and "sorted_entries es" and "no_extension es k"
  shows "sst_get_versioned lib r k v = Return (visible es k v)"
proof (rule sst_get_versioned_visible [OF opened_repr [OF assms(1-3)] assms(4) _ assms(5)])
  show "long_keys es" using assms(2) by (simp add: sst_fits_def)
qed

theorem sst_get_versioned_correct_witness:
  "\<exists>r. sst_opened stored_codec None NoCompression example_entries r \<and>
     sst_get_versioned stored_codec r [97] 4 = Return (visible example_entries [97] 4)"
proof (rule example_opened)
  fix r assume r: "sst_opened stored_codec None NoCompression example_entries r"
  have "no_extension example_entries [97]" by (simp add: no_extension_def example_ok(5))
  with sst_get_versioned_correct [OF stored_codec_ok example_ok(1) r example_ok(2)] r show ?thesis by blast
qed

text \<open>
  the scans of an SST file. A prefix scan returns what the reference scan over the stored
  entries under the prefix returns: the newest visible version of each run of equal user keys, in
  order. The bounded scan returns its first entries, and the scan that starts at a key returns the
  first entries from that key on.
\<close>

theorem sst_scan_correct:
  assumes "lz4_ok lib" and "sst_fits cmp es" and "sst_opened lib ext cmp es r"
    and "sorted_entries es" and "prefix p start"
  shows "sst_scan_prefix lib r p v = dedup_scan v None (filter (entry_key_pred (prefix p)) es) \<and>
    sst_scan_prefix_max lib r p v n = take n (sst_scan_prefix lib r p v) \<and>
    sst_scan_from_max lib r p start v n =
      take n (dedup_scan v None (filter (entry_key_pred (\<lambda>u. prefix p u \<and> start \<le> u)) es))"
proof -
  have rep: "sst_repr lib es r" by (rule opened_repr [OF assms(1-3)])
  have long: "long_keys es" using assms(2) by (simp add: sst_fits_def)
  have off: "user_key_start_offset r start = prefix_start_offset r start"
    by (simp add: user_key_start_offset_def prefix_start_offset_def)
  show ?thesis
    using sst_scan_prefix_eq [OF rep assms(4) long] sst_scan_from_eq [OF rep assms(4) long assms(5)] assms(5)
    by (cases "n = 0") (simp_all add: sst_scan_prefix_max_def sst_scan_from_max_def off)
qed

theorem sst_scan_correct_witness:
  "\<exists>r. sst_opened stored_codec None NoCompression example_entries r \<and>
     sst_scan_prefix stored_codec r [97] 4 =
       dedup_scan 4 None (filter (entry_key_pred (prefix [97])) example_entries) \<and>
     sst_scan_prefix_max stored_codec r [97] 4 1 = take 1 (sst_scan_prefix stored_codec r [97] 4) \<and>
     sst_scan_from_max stored_codec r [97] [97] 4 1 =
       take 1 (dedup_scan 4 None (filter (entry_key_pred (\<lambda>u. prefix [97] u \<and> [97] \<le> u)) example_entries))"
proof (rule example_opened)
  fix r assume r: "sst_opened stored_codec None NoCompression example_entries r"
  from sst_scan_correct [OF stored_codec_ok example_ok(1) r example_ok(2), of "[97]" "[97]" 4 1] r show ?thesis by auto
qed

text \<open>
  C30: the condition of the point read is needed. When the file stores a user key that continues the
  key with a byte other than \<open>0xFF\<close>, that key sorts between the seek position and every version of
  the key, the scan takes it for the end of the key's versions, and the read returns nothing even
  though the file holds a visible version.
\<close>

theorem sst_get_versioned_extension_bug:
  assumes "lz4_ok lib" and "sst_fits cmp es" and "sst_opened lib ext cmp es r"
    and "sorted_entries es" and "\<forall>e \<in> set es. entry_ok e"
    and "k @ c # t \<in> set (user_keys es)" and "c < 255"
  shows "sst_get_versioned lib r k v = Return None"
proof -
  obtain d where d: "d \<in> set es" "ik_user_key (fst d) = k @ c # t"
    using assms(6) by (auto simp: user_keys_def)
  show ?thesis
    by (rule sst_extension_hides [OF opened_repr [OF assms(1-3)] assms(4,5) d assms(7)])
qed

definition extension_entries :: "entry list" where
  "extension_entries = [(internal_key [97, 98] 4, Some [2]), (internal_key [97] 3, Some [1])]"

lemma extension_sorted: "sorted_entries extension_entries" "\<forall>e \<in> set extension_entries. entry_ok e"
proof -
  obtain s where "u64_be (NOT (3 :: u64)) = 255 # s" using hd_inverted_version [of 3] by auto
  then show "sorted_entries extension_entries" by (simp add: extension_entries_def internal_key_def)
qed (simp add: extension_entries_def entry_ok_def)

theorem sst_get_versioned_extension_bug_witness:
  "\<exists>r. sst_opened stored_codec None NoCompression extension_entries r \<and>
     sst_get_versioned stored_codec r [97] 9 = Return None \<and>
     visible extension_entries [97] 9 = Some (Some [1])"
proof -
  have fits: "sst_fits NoCompression extension_entries"
    by (simp add: sst_fits_def blocks_fit_def extension_entries_def entry_fits_def length_entry_bytes)
  show ?thesis
  proof (rule sst_opened_exists [OF stored_codec_ok fits])
    show "2 * length (enc_block extension_entries) + 7 * length extension_entries < 2 ^ 31"
      by (simp add: extension_entries_def length_entry_bytes)
    fix r assume r: "sst_opened stored_codec None NoCompression extension_entries r"
    have "sst_get_versioned stored_codec r [97] 9 = Return None"
      by (rule sst_get_versioned_extension_bug [OF stored_codec_ok fits r extension_sorted, of "[97]" 98 "[]"])
         (simp_all add: extension_entries_def)
    moreover have "visible extension_entries [97] 9 = Some (Some [1])"
      by (simp add: visible_def versions_of_def extension_entries_def)
    ultimately show ?thesis using r by blast
  qed
qed

end
