(* ===== verification/Layers.thy ===== *)
theory Layers
  imports Sst_Read
begin

text \<open>
  The interface between the LSM tree and its layers (memtables and SST files), as a locale: a layer
  has contents, its point read returns what a snapshot sees of them and its scans return the
  reference scan. The client lemmas of the LSM tree (probing layers from the newest on, merging the
  scans of all layers) are proved once in the locale or from its laws; the memtable and the SST
  reader are interpretations.
\<close>

section \<open>Well-formed contents\<close>

definition layer_wf :: "entry list \<Rightarrow> bool" where
  "layer_wf es \<longleftrightarrow> sorted_entries es \<and> (\<forall>e \<in> set es. entry_ok e) \<and> compatible_keys (user_keys es)"

text \<open>
  A user key can be read from a layer: no stored key properly continues it, and it does not continue
  a stored key with \<open>0xFF\<close>.
\<close>

definition readable :: "entry list \<Rightarrow> bytes \<Rightarrow> bool" where
  "readable es k \<longleftrightarrow> no_extension es k \<and> (\<forall>j \<in> set (user_keys es). ff_compat k j)"

lemma layer_wfD:
  assumes "layer_wf es"
  shows "sorted_entries es" "long_keys es" "e \<in> set es \<Longrightarrow> entry_ok e" "compatible_keys (user_keys es)"
  using assms entry_ok_long by (auto simp: layer_wf_def)

text \<open>
  The newer contents come first: \<open>a\<close> has every version in \<open>b\<close> that is above one of its own versions of
  the same key. Usually all versions in \<open>a\<close> are above those in \<open>b\<close>; after a crash a layer can also
  repeat entries of the layer below.
\<close>

definition newer_than :: "entry list \<Rightarrow> entry list \<Rightarrow> bool" where
  "newer_than a b \<longleftrightarrow> (\<forall>e \<in> set a. \<forall>f \<in> set b.
     ik_user_key (fst e) = ik_user_key (fst f) \<and> ik_version (fst e) < ik_version (fst f) \<longrightarrow> f \<in> set a)"

lemma newer_than_Nil [simp]: "newer_than [] b" "newer_than a []"
  by (simp_all add: newer_than_def)

lemma newer_than_append [simp]: "newer_than a (b @ c) \<longleftrightarrow> newer_than a b \<and> newer_than a c"
  by (auto simp: newer_than_def)

lemma newer_than_concat: "newer_than a (concat bs) \<longleftrightarrow> (\<forall>b \<in> set bs. newer_than a b)"
  by (induction bs) simp_all

lemma newer_than_concat_left: "\<forall>a \<in> set as. newer_than a b \<Longrightarrow> newer_than (concat as) b"
  by (fastforce simp: newer_than_def)

lemma newer_than_subset: "newer_than a b \<Longrightarrow> set b' \<subseteq> set b \<Longrightarrow> newer_than a b'"
  by (auto simp: newer_than_def)

lemma newer_than_layers:
  assumes "sorted_wrt newer_than (as @ bs)"
  shows "sorted_wrt newer_than as" "sorted_wrt newer_than bs" "newer_than (concat as) (concat bs)"
    "a \<in> set as \<Longrightarrow> newer_than a (concat bs)"
  using assms by (auto simp: sorted_wrt_append newer_than_concat intro: newer_than_concat_left)

lemma visible_newer:
  assumes "newer_than a b"
  shows "visible (a @ b) k v = (case visible a k v of Some x \<Rightarrow> Some x | None \<Rightarrow> visible b k v)"
proof (rule visible_append)
  fix w x w' x'
  assume "(w, x) \<in> set (versions_of a k)" "(w', x') \<in> set (versions_of b k)" "w < w'"
  with assms show "(w', x') \<in> set (versions_of a k)" by (fastforce simp: versions_of_def newer_than_def)
qed

section \<open>Probing and merging\<close>

text \<open>The loop of every layered point read: the first layer that has a visible version answers.\<close>

fun probe_layers :: "('l \<Rightarrow> memval option outcome) \<Rightarrow> 'l list \<Rightarrow> memval option outcome" where
  "probe_layers look [] = Return None"
| "probe_layers look (l # ls) = obind (look l) (\<lambda>r. case r of
      Some x \<Rightarrow> Return (Some x) | None \<Rightarrow> probe_layers look ls)"

text \<open>
  The merge of every layered scan, from the oldest layer to the newest, into a \<^verbatim>\<open>BTreeMap\<close> (kept as
  its sorted contents).
\<close>

fun merge_rows :: "(bytes \<times> memval) list list \<Rightarrow> (bytes \<times> memval) list" where
  "merge_rows rowss = foldl (foldl (\<lambda>merged (key, val). sm_insert key val merged)) [] rowss"

lemma insert_rows:
  assumes "sorted_entries m" and "distinct (map fst rows)"
  shows "sorted_entries (foldl (\<lambda>m (k, x). sm_insert k x m) m rows) \<and>
    map_of (foldl (\<lambda>m (k, x). sm_insert k x m) m rows) = map_of m ++ map_of rows"
  using assms
proof (induction rows arbitrary: m)
  case (Cons row rows)
  obtain k x where row: "row = (k, x)" by (cases row)
  have "(map_of m)(k \<mapsto> x) ++ map_of rows = map_of m ++ map_of ((k, x) # rows)"
    using Cons.prems(2) by (auto simp: row fun_eq_iff map_add_def map_of_eq_None_iff [symmetric] split: option.splits)
  with Cons show ?case
    by (simp add: row sm_insert_sorted sm_insert_lookup del: map_of.simps fun_upd_apply)
qed simp

text \<open>Later rows win; the result is sorted and has each key once.\<close>

fun last_row :: "(bytes \<times> memval) list list \<Rightarrow> bytes \<Rightarrow> memval option" where
  "last_row [] k = None"
| "last_row (rows # rowss) k = (case last_row rowss k of Some x \<Rightarrow> Some x | None \<Rightarrow> map_of rows k)"

lemma merge_rows_from:
  "sorted_entries m \<Longrightarrow> \<forall>rows \<in> set rowss. distinct (map fst rows) \<Longrightarrow>
   sorted_entries (foldl (foldl (\<lambda>m (k, x). sm_insert k x m)) m rowss) \<and>
   map_of (foldl (foldl (\<lambda>m (k, x). sm_insert k x m)) m rowss) = map_of m ++ last_row rowss"
proof (induction rowss arbitrary: m)
  case Nil
  then show ?case by (simp add: fun_eq_iff map_add_def)
next
  case (Cons rows rowss)
  note ins = insert_rows [OF Cons.prems(1), of rows]
  have "(map_of m ++ map_of rows) ++ last_row rowss = map_of m ++ last_row (rows # rowss)"
    by (auto simp: fun_eq_iff map_add_def split: option.splits)
  with Cons ins show ?case by (simp del: last_row.simps)
qed

lemma merge_rows_ok:
  assumes "\<forall>rows \<in> set rowss. distinct (map fst rows)"
  shows "sorted_entries (merge_rows rowss)" "map_of (merge_rows rowss) = last_row rowss"
  using merge_rows_from [of "[]" rowss] assms by simp_all

declare merge_rows.simps [simp del]

section \<open>The interface\<close>

locale versioned_layer =
  fixes contents :: "'l \<Rightarrow> entry list"
    and ok :: "'l \<Rightarrow> bool"
    and get :: "'l \<Rightarrow> bytes \<Rightarrow> u64 \<Rightarrow> memval option outcome"
    and scan :: "'l \<Rightarrow> bytes \<Rightarrow> u64 \<Rightarrow> (bytes \<times> memval) list"
    and scan_max :: "'l \<Rightarrow> bytes \<Rightarrow> u64 \<Rightarrow> nat \<Rightarrow> (bytes \<times> memval) list"
    and scan_from :: "'l \<Rightarrow> bytes \<Rightarrow> bytes \<Rightarrow> u64 \<Rightarrow> nat \<Rightarrow> (bytes \<times> memval) list"
  assumes ok_wf: "ok l \<Longrightarrow> layer_wf (contents l)"
    and get_law: "ok l \<Longrightarrow> readable (contents l) k \<Longrightarrow> v < 2 ^ 56 \<Longrightarrow> get l k v = Return (visible (contents l) k v)"
    and scan_law: "ok l \<Longrightarrow> scan_safe (contents l) p \<Longrightarrow>
      scan l p v = dedup_scan v None (filter (entry_key_pred (prefix p)) (contents l))"
    and scan_max_law: "ok l \<Longrightarrow> scan_safe (contents l) p \<Longrightarrow> scan_max l p v n = take n (scan l p v)"
    and scan_from_law: "ok l \<Longrightarrow> prefix p start \<Longrightarrow> scan_from l p start v n =
      take n (dedup_scan v None (filter (entry_key_pred (\<lambda>u. prefix p u \<and> start \<le> u)) (contents l)))"
begin

lemma probe_visible:
  assumes "\<forall>l \<in> set ls. ok l \<and> readable (contents l) k" and "v < 2 ^ 56"
    and "sorted_wrt newer_than (map contents ls)"
  shows "probe_layers (\<lambda>l. get l k v) ls = Return (visible (concat (map contents ls)) k v)"
  using assms
proof (induction ls)
  case (Cons l ls)
  have "newer_than (contents l) (concat (map contents ls))"
    using Cons.prems(3) by (simp add: newer_than_concat)
  then show ?case using Cons by (simp add: get_law visible_newer split: option.splits)
qed (simp add: visible_def)

text \<open>What every scan of a layer returns for the key predicate \<open>Q\<close>.\<close>

lemma rows_ok:
  assumes "ok l"
  shows "distinct (map fst (dedup_scan v None (filter (entry_key_pred Q) (contents l))))"
    "map_of (dedup_scan v None (filter (entry_key_pred Q) (contents l))) k =
       (if Q k then visible (contents l) k v else None)"
proof -
  note wf = layer_wfD [OF ok_wf [OF assms]]
  let ?f = "filter (entry_key_pred Q) (contents l)"
  have "grouped (user_keys ?f)"
  proof (rule grouped_sorted)
    show "compatible_keys (user_keys ?f)"
      using wf(4) user_keys_filter [of "entry_key_pred Q" "contents l"] by (auto simp: compatible_keys_def)
  qed (use wf(1,3) in auto)
  from dedup_scan_distinct [OF this] show "distinct (map fst (dedup_scan v None ?f))" by blast
  show "map_of (dedup_scan v None ?f) k = (if Q k then visible (contents l) k v else None)"
    using dedup_scan_lookup [of ?f None k v] wf(1,2) by (simp add: visible_filter)
qed

lemma scan_rows:
  assumes "ok l" "scan_safe (contents l) p"
  shows "distinct (map fst (scan l p v))"
    "map_of (scan l p v) k = (if prefix p k then visible (contents l) k v else None)"
  using rows_ok [OF assms(1)] by (simp_all add: scan_law [OF assms])

end

section \<open>Memtables\<close>

definition mem_ok :: "memtable \<Rightarrow> bool" where
  "mem_ok m \<longleftrightarrow> layer_wf (mt_map m)"

lemma mem_ok_inv: "mem_ok m \<Longrightarrow> mt_inv m"
  by (simp add: mem_ok_def layer_wf_def mt_inv_def)

interpretation mem: versioned_layer mt_map mem_ok "\<lambda>m k v. Return (mt_get m k v)"
  mt_scan_prefix mt_scan_prefix_max mt_scan_from_max
proof
  fix m k v p start n
  assume ok: "mem_ok m"
  then show "layer_wf (mt_map m)" by (simp add: mem_ok_def)
  show "readable (mt_map m) k \<Longrightarrow> v < 2 ^ 56 \<Longrightarrow> Return (mt_get m k v) = Return (visible (mt_map m) k v)"
    using mt_get_visible_aux [OF mem_ok_inv [OF ok]] by (auto simp: readable_def mt_compat_def)
  show "scan_safe (mt_map m) p \<Longrightarrow>
      mt_scan_prefix m p v = dedup_scan v None (filter (entry_key_pred (prefix p)) (mt_map m))"
    by (rule mt_scan_prefix_eq [OF mem_ok_inv [OF ok]])
  show "mt_scan_prefix_max m p v n = take n (mt_scan_prefix m p v)"
    by (simp add: mt_scan_prefix_max_def scan_max_loop_take mt_scan_prefix_def)
  show "prefix p start \<Longrightarrow> mt_scan_from_max m p start v n =
      take n (dedup_scan v None (filter (entry_key_pred (\<lambda>u. prefix p u \<and> start \<le> u)) (mt_map m)))"
    by (cases "n = 0")
       (simp_all add: mt_scan_from_max_def [of m p start v 0] mt_scan_from_eq [OF mem_ok_inv [OF ok]] not_less conj_commute)
qed

section \<open>SST files\<close>

definition sst_contents :: "sst_lib \<Rightarrow> sst_reader \<Rightarrow> entry list" where
  "sst_contents lib r = (case try_for_each_entry lib r of Inr es \<Rightarrow> es | Inl e \<Rightarrow> [])"

definition sst_ok :: "sst_lib \<Rightarrow> sst_reader \<Rightarrow> bool" where
  "sst_ok lib r \<longleftrightarrow> sst_repr lib (sst_contents lib r) r \<and> layer_wf (sst_contents lib r)"

lemma sst_contents_repr: "sst_repr lib es r \<Longrightarrow> sst_contents lib r = es"
  by (simp add: sst_contents_def try_for_each_entry_repr)

lemma sst_ok_repr: "sst_repr lib es r \<Longrightarrow> layer_wf es \<Longrightarrow> sst_ok lib r"
  by (simp add: sst_ok_def sst_contents_repr)

interpretation sst: versioned_layer "sst_contents lib" "sst_ok lib" "sst_get_versioned lib"
  "sst_scan_prefix lib" "sst_scan_prefix_max lib" "sst_scan_from_max lib" for lib
proof
  fix r k v p start n
  assume "sst_ok lib r"
  then have rep: "sst_repr lib (sst_contents lib r) r" and wf: "layer_wf (sst_contents lib r)"
    by (simp_all add: sst_ok_def)
  note w = layer_wfD [OF wf]
  show "layer_wf (sst_contents lib r)" by (rule wf)
  show "readable (sst_contents lib r) k \<Longrightarrow> sst_get_versioned lib r k v = Return (visible (sst_contents lib r) k v)"
    using sst_get_versioned_visible [OF rep w(1,2)] by (simp add: readable_def)
  show "sst_scan_prefix lib r p v = dedup_scan v None (filter (entry_key_pred (prefix p)) (sst_contents lib r))"
    by (rule sst_scan_prefix_eq(2) [OF rep w(1,2)])
  show "sst_scan_prefix_max lib r p v n = take n (sst_scan_prefix lib r p v)"
    using sst_scan_prefix_eq [OF rep w(1,2)] by (simp add: sst_scan_prefix_max_def)
  have off: "user_key_start_offset r start = prefix_start_offset r start"
    by (simp add: user_key_start_offset_def prefix_start_offset_def)
  show "prefix p start \<Longrightarrow> sst_scan_from_max lib r p start v n =
      take n (dedup_scan v None (filter (entry_key_pred (\<lambda>u. prefix p u \<and> start \<le> u)) (sst_contents lib r)))"
    using sst_scan_from_eq [OF rep w(1,2)] by (cases "n = 0") (simp_all add: sst_scan_from_max_def off)
qed

end
