(* ===== verification/Wal.thy ===== *)
theory Wal
  imports Versions
begin

text \<open>
  The write-ahead log of \<^verbatim>\<open>rhypedb-storage/src/wal.rs\<close>: record format, transaction framing, replay
  and the repair of a torn tail. A file is its bytes (\<open>None\<close> when it does not exist); the checksum
  \<^verbatim>\<open>crc32fast::hash\<close> is a third-party function and so a parameter \<open>crc\<close> of every definition that uses
  it; no law of it is needed. Failing system calls are explicit inputs (\<open>wal_io\<close>). The theorems show that
  replay returns exactly the transactions that are wholly in the file, for a file cut at any byte.
\<close>

section \<open>Records\<close>

datatype RecordType = Put | Delete | Commit

fun record_type_byte :: "RecordType \<Rightarrow> u8" where
  "record_type_byte Put = 1"
| "record_type_byte Delete = 2"
| "record_type_byte Commit = 3"

definition record_type_try_from :: "u8 \<Rightarrow> error + RecordType" where
  "record_type_try_from v =
     (if v = 1 then Inr Put else if v = 2 then Inr Delete else if v = 3 then Inr Commit
      else Inl (WalCorrupted ''unknown record type''))"

record wal_record =
  wr_type :: RecordType
  wr_key :: bytes
  wr_value :: bytes
  wr_version :: u64

definition HEADER_SIZE :: nat where
  "HEADER_SIZE = 4 + 8 + 1 + 4 + 4"

text \<open>\<^verbatim>\<open>encode_record_into\<close>: the bytes appended to the buffer; lengths are cast to \<^verbatim>\<open>u32\<close>.\<close>

definition encode_record_into ::
    "(bytes \<Rightarrow> u32) \<Rightarrow> bytes \<Rightarrow> RecordType \<Rightarrow> u64 \<Rightarrow> bytes \<Rightarrow> bytes \<Rightarrow> bytes" where
  "encode_record_into crc buf record_type version key val =
     (let body = u64_be version @ [record_type_byte record_type] @
                 u32_be (of_nat (length key)) @ u32_be (of_nat (length val)) @ key @ val
      in buf @ u32_be (crc body) @ body)"

text \<open>\<^verbatim>\<open>WalRecord::decode\<close>: the record and the number of bytes it takes.\<close>

definition wal_decode :: "(bytes \<Rightarrow> u32) \<Rightarrow> bytes \<Rightarrow> error + wal_record \<times> nat" where
  "wal_decode crc data =
     (if length data < HEADER_SIZE then Inl (WalCorrupted ''record too short'')
      else let stored_crc = be_u32 (take 4 data);
               version = be_u64 (take 8 (drop 4 data))
      in case record_type_try_from (data ! 12) of
        Inl e \<Rightarrow> Inl e
      | Inr record_type \<Rightarrow>
          let key_len = unat (be_u32 (take 4 (drop 13 data)));
              value_len = unat (be_u32 (take 4 (drop 17 data)));
              total = HEADER_SIZE + key_len + value_len
          in if length data < total then Inl (WalCorrupted ''record truncated'')
             else if stored_crc \<noteq> crc (take (total - 4) (drop 4 data))
               then Inl (WalCorrupted ''CRC mismatch'')
             else Inr (\<lparr>wr_type = record_type,
                        wr_key = take key_len (drop HEADER_SIZE data),
                        wr_value = take value_len (drop (HEADER_SIZE + key_len) data),
                        wr_version = version\<rparr>, total))"

section \<open>The log file\<close>

text \<open>\<^verbatim>\<open>b"RHYPWAL\x01"\<close>\<close>

definition WAL_MAGIC :: bytes where
  "WAL_MAGIC = [82, 72, 89, 80, 87, 65, 76, 1]"

text \<open>
  \<^verbatim>\<open>Wal\<close>: the bytes the operating system has, and the user-space buffer of the \<^verbatim>\<open>BufWriter\<close> (8 KiB).
\<close>

record wal =
  wal_file :: bytes
  wal_buf :: bytes

text \<open>
  The outcome of each system call: \<open>None\<close> succeeds, \<open>Some n\<close> fails after \<open>n\<close> bytes reached the file.
  \<open>io_spill\<close>: the write of the buffered bytes inside \<^verbatim>\<open>write_all\<close>; \<open>io_direct\<close>: the write of a
  batch that is larger than the buffer; \<open>io_flush\<close>: the flush; \<open>io_fsync\<close>: whether the fsync succeeds.
\<close>

record wal_io =
  io_spill :: "nat option"
  io_direct :: "nat option"
  io_flush :: "nat option"
  io_fsync :: bool

definition io_ok :: wal_io where
  "io_ok = \<lparr>io_spill = None, io_direct = None, io_flush = None, io_fsync = True\<rparr>"

definition BUF_CAPACITY :: nat where
  "BUF_CAPACITY = 8192"

text \<open>\<^verbatim>\<open>BufWriter::flush\<close>: on failure the unwritten bytes stay in the buffer.\<close>

definition bw_flush :: "nat option \<Rightarrow> wal \<Rightarrow> (error + unit) \<times> wal" where
  "bw_flush f w = (case f of
      None \<Rightarrow> (Inr (), w\<lparr>wal_file := wal_file w @ wal_buf w, wal_buf := []\<rparr>)
    | Some n \<Rightarrow> (Inl Io, w\<lparr>wal_file := wal_file w @ take n (wal_buf w), wal_buf := drop n (wal_buf w)\<rparr>))"

text \<open>\<^verbatim>\<open>BufWriter::write_all\<close>: buffer what fits, else spill the buffer and write large data directly.\<close>

definition bw_write_all :: "wal_io \<Rightarrow> wal \<Rightarrow> bytes \<Rightarrow> (error + unit) \<times> wal" where
  "bw_write_all io w data =
     (let spare = BUF_CAPACITY - length (wal_buf w) in
      if length data < spare then (Inr (), w\<lparr>wal_buf := wal_buf w @ data\<rparr>)
      else case (if spare < length data then bw_flush (io_spill io) w else (Inr (), w)) of
        (Inl e, w') \<Rightarrow> (Inl e, w')
      | (Inr _, w') \<Rightarrow>
          if BUF_CAPACITY \<le> length data then
            (case io_direct io of
               None \<Rightarrow> (Inr (), w'\<lparr>wal_file := wal_file w' @ data\<rparr>)
             | Some n \<Rightarrow> (Inl Io, w'\<lparr>wal_file := wal_file w' @ take n data\<rparr>))
          else (Inr (), w'\<lparr>wal_buf := wal_buf w' @ data\<rparr>))"

text \<open>
  \<^verbatim>\<open>Wal::open\<close>: an empty or missing file gets the magic. Its system calls succeed here; when one fails, the call that
  opens the tree returns the error and there is no tree.
\<close>

definition wal_open :: "bytes option \<Rightarrow> wal" where
  "wal_open f = (let file = (case f of None \<Rightarrow> [] | Some d \<Rightarrow> d) in
     \<lparr>wal_file = (if length file = 0 then WAL_MAGIC else file), wal_buf = []\<rparr>)"

definition file_is_legacy :: "bytes option \<Rightarrow> bool" where
  "file_is_legacy f = (case f of None \<Rightarrow> False
     | Some d \<Rightarrow> if 8 \<le> length d then take 8 d \<noteq> WAL_MAGIC else 0 < length d)"

definition write_record :: "bytes \<times> memval \<Rightarrow> u64 \<Rightarrow> wal_record" where
  "write_record w commit_version = (case w of
      (key, Some v) \<Rightarrow> \<lparr>wr_type = Put, wr_key = key, wr_value = v, wr_version = commit_version\<rparr>
    | (key, None) \<Rightarrow> \<lparr>wr_type = Delete, wr_key = key, wr_value = [], wr_version = commit_version\<rparr>)"

text \<open>The buffer \<^verbatim>\<open>append_txn\<close> builds: the data records, then the footer with their count.\<close>

definition txn_bytes :: "(bytes \<Rightarrow> u32) \<Rightarrow> (bytes \<times> memval) list \<Rightarrow> u64 \<Rightarrow> bytes" where
  "txn_bytes crc writes commit_version =
     (let buf = foldl (\<lambda>buf (key, val).
            let (record_type, v) = (case val of Some v \<Rightarrow> (Put, v) | None \<Rightarrow> (Delete, []))
            in encode_record_into crc buf record_type commit_version key v) [] writes
      in encode_record_into crc buf Commit commit_version [] (u64_be (of_nat (length writes))))"

definition append_txn ::
    "(bytes \<Rightarrow> u32) \<Rightarrow> wal_io \<Rightarrow> wal \<Rightarrow> (bytes \<times> memval) list \<Rightarrow> u64 \<Rightarrow> (error + unit) \<times> wal" where
  "append_txn crc io w writes commit_version =
     (if writes = [] then (Inr (), w)
      else case bw_write_all io w (txn_bytes crc writes commit_version) of
        (Inl e, w') \<Rightarrow> (Inl e, w')
      | (Inr _, w') \<Rightarrow> bw_flush (io_flush io) w')"

definition wal_sync :: "wal_io \<Rightarrow> wal \<Rightarrow> (error + unit) \<times> wal" where
  "wal_sync io w = (case bw_flush (io_flush io) w of
      (Inl e, w') \<Rightarrow> (Inl e, w')
    | (Inr _, w') \<Rightarrow> (if io_fsync io then Inr () else Inl Io, w'))"

text \<open>\<^verbatim>\<open>forget_unflushed_buffer\<close>: what a killed process leaves behind.\<close>

definition forget_unflushed_buffer :: "wal \<Rightarrow> wal" where
  "forget_unflushed_buffer w = w\<lparr>wal_buf := []\<rparr>"

section \<open>Replay\<close>

definition footer_count :: "wal_record \<Rightarrow> nat" where
  "footer_count r = (if length (wr_value r) = 8 then unat (be_u64 (take 8 (wr_value r))) else 2 ^ 64 - 1)"

lemma decode_size:
  "wal_decode crc data = Inr (r, n) \<Longrightarrow> HEADER_SIZE \<le> n \<and> n \<le> length data"
  by (auto simp: wal_decode_def Let_def split: if_splits sum.splits)

lemma HEADER_SIZE_eq: "HEADER_SIZE = 21"
  by (simp add: HEADER_SIZE_def)

function replay_loop :: "(bytes \<Rightarrow> u32) \<Rightarrow> bytes \<Rightarrow> nat \<Rightarrow> wal_record list \<Rightarrow> wal_record list \<Rightarrow> nat \<Rightarrow>
    error + wal_record list \<times> wal_record list \<times> nat \<times> nat" where
  "replay_loop crc data off records pending valid_len =
     (if \<not> off < length data then Inr (records, pending, off, valid_len)
      else case wal_decode crc (drop off data) of
        Inr (r, n) \<Rightarrow>
          if wr_type r = Commit then
            if footer_count r \<noteq> length pending then Inr (records, [], off + n, valid_len)
            else replay_loop crc data (off + n) (records @ pending) [] (off + n)
          else replay_loop crc data (off + n) records (pending @ [r]) valid_len
      | Inl (WalCorrupted m) \<Rightarrow> Inr (records, pending, off, valid_len)
      | Inl e \<Rightarrow> Inl e)"
  by pat_completeness auto

termination
  by (relation "measure (\<lambda>(crc, data, off, records, pending, valid_len). length data - off)")
     (auto dest!: decode_size simp: HEADER_SIZE_eq)

declare replay_loop.simps [simp del]

definition replay_with_valid_len ::
    "(bytes \<Rightarrow> u32) \<Rightarrow> bytes option \<Rightarrow> error + wal_record list \<times> nat" where
  "replay_with_valid_len crc f = (case f of None \<Rightarrow> Inr ([], 0)
     | Some data \<Rightarrow>
       let framed = (length WAL_MAGIC \<le> length data \<and> take (length WAL_MAGIC) data = WAL_MAGIC);
           off = (if framed then length WAL_MAGIC else 0)
       in case replay_loop crc data off [] [] off of
         Inl e \<Rightarrow> Inl e
       | Inr (records, pending, off, valid_len) \<Rightarrow>
           if pending \<noteq> [] \<and> \<not> framed then Inr (records @ pending, off)
           else Inr (records, valid_len))"

definition wal_replay :: "(bytes \<Rightarrow> u32) \<Rightarrow> bytes option \<Rightarrow> error + wal_record list" where
  "wal_replay crc f = map_sum id fst (replay_with_valid_len crc f)"

text \<open>\<^verbatim>\<open>File::set_len\<close> cuts the file or extends it with zero bytes.\<close>

definition truncate_to :: "bytes \<Rightarrow> nat \<Rightarrow> bytes" where
  "truncate_to d len = take len d @ replicate (len - length d) 0"

definition create_fresh :: wal where
  "create_fresh = \<lparr>wal_file = WAL_MAGIC, wal_buf = []\<rparr>"

text \<open>
  How \<^verbatim>\<open>create_fresh\<close> can end: with the fresh log, at the open, or after the file was truncated and \<open>n\<close>
  bytes of the magic were written. On an error the caller keeps the log it had, on the same file. A later append
  goes to the end of the file, as with the handle of \<^verbatim>\<open>open\<close>; a handle of \<^verbatim>\<open>create_fresh\<close> is not in append mode and would write at its
  old offset, after a hole of zeros, which is not modelled. No theorem is about appends after such an error.
\<close>

datatype fresh_io = Fresh_done | Fresh_unopened | Fresh_torn nat

definition recreate_wal :: "fresh_io \<Rightarrow> wal \<Rightarrow> (error + unit) \<times> wal" where
  "recreate_wal io w = (case io of
      Fresh_done \<Rightarrow> (Inr (), create_fresh)
    | Fresh_unopened \<Rightarrow> (Inl Io, w)
    | Fresh_torn n \<Rightarrow> (Inl Io, w\<lparr>wal_file := take n WAL_MAGIC\<rparr>))"

section \<open>Encoding and decoding\<close>

lemma length_WAL_MAGIC [simp]: "length WAL_MAGIC = 8" and WAL_MAGIC_not_Nil [simp]: "WAL_MAGIC \<noteq> []"
  by (simp_all add: WAL_MAGIC_def)

definition encode_record :: "(bytes \<Rightarrow> u32) \<Rightarrow> wal_record \<Rightarrow> bytes" where
  "encode_record crc r = encode_record_into crc [] (wr_type r) (wr_version r) (wr_key r) (wr_value r)"

definition fits :: "wal_record \<Rightarrow> bool" where
  "fits r \<longleftrightarrow> length (wr_key r) < 2 ^ 32 \<and> length (wr_value r) < 2 ^ 32"

lemma encode_record_into_append:
  "encode_record_into crc buf t v k x =
   buf @ encode_record crc \<lparr>wr_type = t, wr_key = k, wr_value = x, wr_version = v\<rparr>"
  by (simp add: encode_record_def encode_record_into_def Let_def)

lemma length_encode_record:
  "length (encode_record crc r) = 21 + length (wr_key r) + length (wr_value r)"
  by (simp add: encode_record_def encode_record_into_def Let_def)

lemma try_from_record_type_byte [simp]: "record_type_try_from (record_type_byte t) = Inr t"
  by (cases t) (simp_all add: record_type_try_from_def)

lemma unat_of_nat_u32: "n < 2 ^ 32 \<Longrightarrow> unat (of_nat n :: u32) = n"
  by (simp add: unat_of_nat)

text \<open>The fields of a record at the positions the decoder reads them.\<close>

lemma record_fields:
  fixes c :: u32 and v :: u64 and kl xl :: u32
  assumes "d = u32_be c @ u64_be v @ [t] @ u32_be kl @ u32_be xl @ rest"
  shows "take 4 d = u32_be c" "take 8 (drop 4 d) = u64_be v" "d ! 12 = t"
    "take 4 (drop 13 d) = u32_be kl" "take 4 (drop 17 d) = u32_be xl" "drop 21 d = rest"
    "drop 4 d = u64_be v @ [t] @ u32_be kl @ u32_be xl @ rest"
  using assms by (simp_all add: nth_append)

text \<open>A whole record at the front of the data is read back, whatever follows it.\<close>

lemma decode_encode:
  assumes "fits r"
  shows "wal_decode crc (encode_record crc r @ rest) = Inr (r, length (encode_record crc r))"
proof -
  let ?k = "wr_key r" and ?x = "wr_value r"
  let ?body = "u64_be (wr_version r) @ [record_type_byte (wr_type r)] @
      u32_be (of_nat (length ?k)) @ u32_be (of_nat (length ?x)) @ ?k @ ?x"
  define d where "d = encode_record crc r @ rest"
  have "d = u32_be (crc ?body) @ u64_be (wr_version r) @ [record_type_byte (wr_type r)] @
      u32_be (of_nat (length ?k)) @ u32_be (of_nat (length ?x)) @ (?k @ ?x @ rest)"
    by (simp add: d_def encode_record_def encode_record_into_def Let_def)
  note f = record_fields [OF this]
  have len: "21 + length ?k + length ?x \<le> length d" by (simp add: d_def length_encode_record)
  have kl: "unat (of_nat (length ?k) :: u32) = length ?k" and xl: "unat (of_nat (length ?x) :: u32) = length ?x"
    using assms by (simp_all only: fits_def unat_of_nat_u32)
  have body: "take (17 + (length ?k + length ?x)) (drop 4 d) = ?body"
  proof -
    have "drop 4 d = ?body @ rest" unfolding f(7) by simp
    moreover have "length ?body = 17 + (length ?k + length ?x)" by simp
    ultimately show ?thesis by (metis append_eq_conv_conj)
  qed
  have val: "drop (21 + length ?k) d = ?x @ rest"
    using f(6) by (metis add.commute append_eq_conv_conj drop_drop)
  show ?thesis
    unfolding d_def [symmetric] wal_decode_def Let_def f(1-5) HEADER_SIZE_eq
    using len by (simp add: kl xl length_encode_record val f(6) body add.assoc)
qed

text \<open>A record cut anywhere before its end is recognised as torn, whatever the checksum.\<close>

lemma take_take_drop: "a + m \<le> n \<Longrightarrow> take m (drop a (take n xs)) = take m (drop a xs)"
  by (simp add: drop_take min_def)

lemma decode_torn:
  assumes "fits r" and "n < length (encode_record crc r)"
  shows "\<exists>m. wal_decode crc (take n (encode_record crc r)) = Inl (WalCorrupted m)"
proof (cases "n < 21")
  case True
  then have "length (take n (encode_record crc r)) < HEADER_SIZE" by (simp add: HEADER_SIZE_eq)
  then show ?thesis unfolding wal_decode_def by (simp only: if_True) blast
next
  case False
  let ?k = "wr_key r" and ?x = "wr_value r"
  let ?d = "encode_record crc r"
  define c where "c = crc (u64_be (wr_version r) @ [record_type_byte (wr_type r)] @
      u32_be (of_nat (length ?k)) @ u32_be (of_nat (length ?x)) @ ?k @ ?x)"
  have d: "?d = u32_be c @ u64_be (wr_version r) @ [record_type_byte (wr_type r)] @
      u32_be (of_nat (length ?k)) @ u32_be (of_nat (length ?x)) @ (?k @ ?x)"
    by (simp add: encode_record_def encode_record_into_def Let_def c_def)
  note f = record_fields [OF d]
  have kl: "unat (of_nat (length ?k) :: u32) = length ?k" and xl: "unat (of_nat (length ?x) :: u32) = length ?x"
    using assms(1) by (simp_all only: fits_def unat_of_nat_u32)
  have t: "take n ?d ! 12 = record_type_byte (wr_type r)" using False f(3) by simp
  have kf: "take 4 (drop 13 (take n ?d)) = u32_be (of_nat (length ?k))"
    "take 4 (drop 17 (take n ?d)) = u32_be (of_nat (length ?x))"
    using False f(4,5) by (simp_all add: take_take_drop)
  show ?thesis
    using assms(2) False
    by (simp add: wal_decode_def Let_def HEADER_SIZE_eq t kf kl xl length_encode_record)
qed

section \<open>Replay of framed transactions\<close>

type_synonym txn = "(bytes \<times> memval) list \<times> u64"

definition txn_records :: "txn \<Rightarrow> wal_record list" where
  "txn_records t = map (\<lambda>w. write_record w (snd t)) (fst t)"

definition footer :: "txn \<Rightarrow> wal_record" where
  "footer t = \<lparr>wr_type = Commit, wr_key = [], wr_value = u64_be (of_nat (length (fst t))), wr_version = snd t\<rparr>"

abbreviation txn_enc :: "(bytes \<Rightarrow> u32) \<Rightarrow> txn \<Rightarrow> bytes" where
  "txn_enc crc t \<equiv> txn_bytes crc (fst t) (snd t)"

definition txn_ok :: "txn \<Rightarrow> bool" where
  "txn_ok t \<longleftrightarrow> list_all fits (txn_records t) \<and> length (fst t) < 2 ^ 64"

lemma txn_bytes_eq:
  "txn_enc crc t = concat (map (encode_record crc) (txn_records t)) @ encode_record crc (footer t)"
proof -
  have "foldl (\<lambda>buf (key, val).
            let (record_type, v) = (case val of Some v \<Rightarrow> (Put, v) | None \<Rightarrow> (Delete, []))
            in encode_record_into crc buf record_type v' key v) b ws =
        b @ concat (map (encode_record crc) (map (\<lambda>w. write_record w v') ws))" for b ws v'
    by (induction ws arbitrary: b)
       (auto simp: write_record_def encode_record_into_append split: option.splits)
  then show ?thesis
    by (simp add: txn_bytes_def txn_records_def footer_def encode_record_into_append)
qed

lemma length_txn_bytes:
  "length (txn_bytes crc ws v) =
   length (concat (map (encode_record crc) (map (\<lambda>w. write_record w v) ws))) + 29"
  using txn_bytes_eq [of crc "(ws, v)"] by (simp add: txn_records_def length_encode_record footer_def)

lemma fits_footer [simp]: "fits (footer t)"
  by (simp add: fits_def footer_def)

lemma footer_count_footer: "length (fst t) < 2 ^ 64 \<Longrightarrow> footer_count (footer t) = length (fst t)"
  by (simp add: footer_count_def footer_def unat_of_nat)

lemma data_record_type: "r \<in> set (txn_records t) \<Longrightarrow> wr_type r \<noteq> Commit"
  by (auto simp: txn_records_def write_record_def split: option.splits)

lemma encode_record_not_Nil: "encode_record crc r \<noteq> []"
  using length_encode_record [of crc r] by (metis add_is_0 list.size(3) zero_neq_numeral)

text \<open>One step of the loop over a whole record.\<close>

lemma replay_step:
  assumes "drop off data = encode_record crc r @ rest" and "fits r"
  shows "replay_loop crc data off records pending vl =
    (let off' = off + length (encode_record crc r) in
     if wr_type r = Commit then
       if footer_count r \<noteq> length pending then Inr (records, [], off', vl)
       else replay_loop crc data off' (records @ pending) [] off'
     else replay_loop crc data off' records (pending @ [r]) vl)"
    and "drop (off + length (encode_record crc r)) data = rest"
proof -
  have "off < length data"
    using assms(1) encode_record_not_Nil [of crc r] by (metis append_is_Nil_conv drop_all not_le)
  then show "replay_loop crc data off records pending vl =
    (let off' = off + length (encode_record crc r) in
     if wr_type r = Commit then
       if footer_count r \<noteq> length pending then Inr (records, [], off', vl)
       else replay_loop crc data off' (records @ pending) [] off'
     else replay_loop crc data off' records (pending @ [r]) vl)"
    by (subst replay_loop.simps) (simp add: assms(1) decode_encode [OF assms(2)] Let_def)
  show "drop (off + length (encode_record crc r)) data = rest"
    using assms(1) by (metis add.commute append_eq_conv_conj drop_drop)
qed

lemma replay_data_records:
  assumes "list_all fits rs" and "\<forall>r \<in> set rs. wr_type r \<noteq> Commit"
    and "drop off data = concat (map (encode_record crc) rs) @ rest"
  shows "replay_loop crc data off records pending vl =
      replay_loop crc data (off + length (concat (map (encode_record crc) rs))) records (pending @ rs) vl \<and>
    drop (off + length (concat (map (encode_record crc) rs))) data = rest"
  using assms
proof (induction rs arbitrary: off pending)
  case (Cons r rs)
  have d: "drop off data = encode_record crc r @ (concat (map (encode_record crc) rs) @ rest)"
    using Cons.prems(3) by simp
  have r: "fits r" "wr_type r \<noteq> Commit" using Cons.prems by auto
  note step = replay_step [OF d r(1)]
  have "replay_loop crc data off records pending vl =
      replay_loop crc data (off + length (encode_record crc r)) records (pending @ [r]) vl"
    using r(2) by (simp add: step(1) Let_def)
  with Cons.IH [OF _ _ step(2), of "pending @ [r]"] Cons.prems show ?case
    by (simp add: add.assoc)
qed simp

lemma replay_one_txn:
  assumes "txn_ok t" and "drop off data = txn_enc crc t @ rest"
  shows "replay_loop crc data off records [] vl =
      replay_loop crc data (off + length (txn_enc crc t)) (records @ txn_records t) []
        (off + length (txn_enc crc t)) \<and>
    drop (off + length (txn_enc crc t)) data = rest"
proof -
  let ?e = "concat (map (encode_record crc) (txn_records t))"
  have d: "drop off data = ?e @ (encode_record crc (footer t) @ rest)"
    using assms(2) by (simp add: txn_bytes_eq)
  have fits: "list_all fits (txn_records t)" and len: "length (fst t) < 2 ^ 64"
    using assms(1) by (auto simp: txn_ok_def)
  have a: "replay_loop crc data off records [] vl =
      replay_loop crc data (off + length ?e) records (txn_records t) vl"
    and d': "drop (off + length ?e) data = encode_record crc (footer t) @ rest"
    using replay_data_records [OF fits _ d, of records "[]" vl] data_record_type by auto
  have cnt: "footer_count (footer t) = length (txn_records t)" "wr_type (footer t) = Commit"
    using footer_count_footer [OF len] by (simp_all add: txn_records_def footer_def)
  show ?thesis
    using replay_step(1) [OF d' fits_footer, of records "txn_records t" vl]
      replay_step(2) [OF d' fits_footer] cnt
    by (simp add: a txn_bytes_eq Let_def add.assoc)
qed

lemma replay_whole_txns:
  assumes "\<forall>t \<in> set ts. txn_ok t" and "drop off data = concat (map (txn_enc crc) ts) @ rest"
  shows "replay_loop crc data off records [] off =
      replay_loop crc data (off + length (concat (map (txn_enc crc) ts)))
        (records @ concat (map txn_records ts)) [] (off + length (concat (map (txn_enc crc) ts))) \<and>
    drop (off + length (concat (map (txn_enc crc) ts))) data = rest"
  using assms
proof (induction ts arbitrary: off records)
  case (Cons t ts)
  have d: "drop off data = txn_enc crc t @ (concat (map (txn_enc crc) ts) @ rest)"
    using Cons.prems(2) by simp
  have t: "txn_ok t" using Cons.prems by simp
  have one: "replay_loop crc data off records [] off =
      replay_loop crc data (off + length (txn_enc crc t)) (records @ txn_records t) []
        (off + length (txn_enc crc t))"
    and rest: "drop (off + length (txn_enc crc t)) data = concat (map (txn_enc crc) ts) @ rest"
    using replay_one_txn [OF t d, of records off] by auto
  show ?case
    using Cons.IH [OF _ rest, of "records @ txn_records t"] Cons.prems(1) one
    by (simp add: add.assoc)
qed simp

text \<open>A transaction cut before its last byte contributes nothing.\<close>

lemma replay_torn_records:
  assumes "list_all fits rs" and "fits f" and "wr_type f = Commit" and "\<forall>r \<in> set rs. wr_type r \<noteq> Commit"
    and "drop off data = take n (concat (map (encode_record crc) rs) @ encode_record crc f)"
    and "n < length (concat (map (encode_record crc) rs) @ encode_record crc f)"
  shows "\<exists>p q. replay_loop crc data off records pending vl = Inr (records, p, q, vl)"
  using assms
proof (induction rs arbitrary: off pending n)
  case Nil
  then have d: "drop off data = take n (encode_record crc f)" "n < length (encode_record crc f)"
    by simp_all
  from decode_torn [OF Nil.prems(2) d(2)] obtain m where
    "wal_decode crc (drop off data) = Inl (WalCorrupted m)" by (auto simp: d(1))
  then show ?case by (subst replay_loop.simps) simp
next
  case (Cons r rs)
  have r: "fits r" "wr_type r \<noteq> Commit" using Cons.prems by auto
  show ?case
  proof (cases "n < length (encode_record crc r)")
    case True
    then have "drop off data = take n (encode_record crc r)" using Cons.prems(5) by simp
    with decode_torn [OF r(1) True] obtain m where
      "wal_decode crc (drop off data) = Inl (WalCorrupted m)" by auto
    then show ?thesis by (subst replay_loop.simps) simp
  next
    case False
    define m where "m = n - length (encode_record crc r)"
    have d: "drop off data = encode_record crc r @
        take m (concat (map (encode_record crc) rs) @ encode_record crc f)"
      using Cons.prems(5) False by (simp add: m_def)
    note step = replay_step [OF d r(1)]
    have "m < length (concat (map (encode_record crc) rs) @ encode_record crc f)"
      using Cons.prems(6) False by (simp add: m_def)
    with Cons.IH [OF _ Cons.prems(2,3) _ step(2)] Cons.prems show ?thesis
      using r(2) by (simp add: step(1) Let_def)
  qed
qed

section \<open>Properties of the log\<close>

text \<open>The transactions that are wholly inside the first \<open>n\<close> bytes after the header.\<close>

fun whole_txns :: "(bytes \<Rightarrow> u32) \<Rightarrow> nat \<Rightarrow> txn list \<Rightarrow> txn list" where
  "whole_txns crc n [] = []"
| "whole_txns crc n (t # ts) =
     (if length (txn_enc crc t) \<le> n then t # whole_txns crc (n - length (txn_enc crc t)) ts else [])"

lemma whole_txns_split:
  "\<exists>rest. take n (concat (map (txn_enc crc) ts)) = concat (map (txn_enc crc) (whole_txns crc n ts)) @ rest \<and>
    (rest = [] \<or> (\<exists>t \<in> set ts. \<exists>m < length (txn_enc crc t). rest = take m (txn_enc crc t)))"
proof (induction crc n ts rule: whole_txns.induct)
  case (2 crc n t ts)
  show ?case
  proof (cases "length (txn_enc crc t) \<le> n")
    case True
    with 2 show ?thesis by fastforce
  next
    case False
    then have "\<exists>m < length (txn_enc crc t). take n (txn_enc crc t) = take m (txn_enc crc t)"
      by (intro exI [of _ n]) simp
    with False show ?thesis by (intro exI [of _ "take n (txn_enc crc t)"]) simp
  qed
qed simp

lemma whole_txns_subset: "set (whole_txns crc n ts) \<subseteq> set ts"
  by (induction crc n ts rule: whole_txns.induct) auto

lemma replay_torn_log_aux:
  assumes "\<forall>t \<in> set ts. txn_ok t"
  shows "replay_with_valid_len crc (Some (WAL_MAGIC @ take n (concat (map (txn_enc crc) ts)))) =
    Inr (concat (map txn_records (whole_txns crc n ts)),
         8 + length (concat (map (txn_enc crc) (whole_txns crc n ts))))"
proof -
  let ?w = "whole_txns crc n ts"
  let ?e = "concat (map (txn_enc crc) ?w)"
  let ?data = "WAL_MAGIC @ take n (concat (map (txn_enc crc) ts))"
  obtain rest where split: "take n (concat (map (txn_enc crc) ts)) = ?e @ rest"
    and rest: "rest = [] \<or> (\<exists>t \<in> set ts. \<exists>m < length (txn_enc crc t). rest = take m (txn_enc crc t))"
    using whole_txns_split [of n crc ts] by auto
  have magic: "length WAL_MAGIC = 8" by (simp add: WAL_MAGIC_def)
  have ok: "\<forall>t \<in> set ?w. txn_ok t" using assms whole_txns_subset by blast
  have d: "drop 8 ?data = ?e @ rest" using split magic by simp
  have go: "replay_loop crc ?data 8 [] [] 8 =
      replay_loop crc ?data (8 + length ?e) (concat (map txn_records ?w)) [] (8 + length ?e)"
    and left: "drop (8 + length ?e) ?data = rest"
    using replay_whole_txns [OF ok d, of "[]"] by auto
  have "\<exists>p q. replay_loop crc ?data (8 + length ?e) (concat (map txn_records ?w)) [] (8 + length ?e) =
      Inr (concat (map txn_records ?w), p, q, 8 + length ?e)"
    using rest
  proof
    assume "rest = []"
    then show ?thesis using left by (subst replay_loop.simps) (auto simp: not_less)
  next
    assume "\<exists>t \<in> set ts. \<exists>m < length (txn_enc crc t). rest = take m (txn_enc crc t)"
    then obtain t m where t: "t \<in> set ts" "m < length (txn_enc crc t)" "rest = take m (txn_enc crc t)"
      by blast
    show ?thesis
    proof (rule replay_torn_records)
      show "list_all fits (txn_records t)" using assms t(1) by (auto simp: txn_ok_def)
    qed (use t left data_record_type in \<open>auto simp: txn_bytes_eq footer_def fits_def\<close>)
  qed
  then show ?thesis
    using magic by (auto simp: replay_with_valid_len_def Let_def go)
qed

text \<open>
  C21: crash recovery of the log. For a framed log holding any sequence of transactions, cut at
  any byte after the header, replay succeeds and returns exactly the records of the transactions
  that are wholly in the file, in order, and none of the torn one, and the valid length it reports
  is the end of the last whole transaction.
\<close>

theorem replay_torn_log:
  assumes "\<forall>t \<in> set ts. txn_ok t"
  shows "replay_with_valid_len crc (Some (WAL_MAGIC @ take n (concat (map (txn_enc crc) ts)))) =
    Inr (concat (map txn_records (whole_txns crc n ts)),
         8 + length (concat (map (txn_enc crc) (whole_txns crc n ts))))"
  by (rule replay_torn_log_aux [OF assms])

theorem replay_torn_log_witness:
  "replay_with_valid_len (\<lambda>bs. of_nat (length bs))
     (Some (WAL_MAGIC @ take 40 (concat (map (txn_enc (\<lambda>bs. of_nat (length bs)))
       [([([97], Some [1])], 5), ([([98], None)], 6)])))) =
   Inr (concat (map txn_records (whole_txns (\<lambda>bs. of_nat (length bs)) 40 [([([97], Some [1])], 5), ([([98], None)], 6)])),
        8 + length (concat (map (txn_enc (\<lambda>bs. of_nat (length bs)))
          (whole_txns (\<lambda>bs. of_nat (length bs)) 40 [([([97], Some [1])], 5), ([([98], None)], 6)]))))"
  by (rule replay_torn_log) (simp add: txn_ok_def txn_records_def write_record_def fits_def)

lemma whole_txns_all: "length (concat (map (txn_enc crc) ts)) \<le> n \<Longrightarrow> whole_txns crc n ts = ts"
  by (induction crc n ts rule: whole_txns.induct) auto

lemma replay_whole_log:
  assumes "\<forall>t \<in> set ts. txn_ok t"
  shows "replay_with_valid_len crc (Some (WAL_MAGIC @ concat (map (txn_enc crc) ts))) =
    Inr (concat (map txn_records ts), 8 + length (concat (map (txn_enc crc) ts)))"
proof -
  let ?d = "concat (map (txn_enc crc) ts)"
  have go: "replay_loop crc (WAL_MAGIC @ ?d) 8 [] [] 8 =
      replay_loop crc (WAL_MAGIC @ ?d) (8 + length ?d) (concat (map txn_records ts)) [] (8 + length ?d)"
    using replay_whole_txns [OF assms, of 8 "WAL_MAGIC @ ?d" crc "[]" "[]"] by (simp add: WAL_MAGIC_def)
  have magic: "length WAL_MAGIC = 8" by (simp add: WAL_MAGIC_def)
  have "replay_loop crc (WAL_MAGIC @ ?d) (8 + length ?d) (concat (map txn_records ts)) [] (8 + length ?d) =
      Inr (concat (map txn_records ts), [], 8 + length ?d, 8 + length ?d)"
    by (subst replay_loop.simps) (simp add: magic)
  then show ?thesis by (simp add: replay_with_valid_len_def Let_def go magic)
qed

text \<open>
  every record decodes to itself and its own length whatever bytes follow it, and every proper
  prefix of an encoded record is rejected as corrupt, for any checksum function, as long as key and
  value are shorter than \<open>2 ^ 32\<close> bytes (their lengths are stored as 32-bit numbers).
\<close>

theorem wal_record_roundtrip:
  assumes "fits r"
  shows "wal_decode crc (encode_record crc r @ rest) = Inr (r, length (encode_record crc r)) \<and>
    (n < length (encode_record crc r) \<longrightarrow>
       (\<exists>m. wal_decode crc (take n (encode_record crc r)) = Inl (WalCorrupted m)))"
  using decode_encode [OF assms] decode_torn [OF assms] by blast

theorem wal_record_roundtrip_witness:
  "let crc = (\<lambda>bs. of_nat (length bs));
       r = \<lparr>wr_type = Put, wr_key = [97], wr_value = [1, 2], wr_version = 9\<rparr> in
   wal_decode crc (encode_record crc r @ [7]) = Inr (r, length (encode_record crc r)) \<and>
   (\<exists>m. wal_decode crc (take 23 (encode_record crc r)) = Inl (WalCorrupted m))"
  using wal_record_roundtrip [of "\<lparr>wr_type = Put, wr_key = [97], wr_value = [1, 2], wr_version = 9\<rparr>"
    "\<lambda>bs. of_nat (length bs)" "[7]" 23]
  by (simp add: fits_def length_encode_record Let_def)

text \<open>With working I/O an append adds exactly its batch to the file.\<close>

lemma append_txn_ok:
  assumes "ws \<noteq> []" and "wal_buf w = []"
  shows "append_txn crc io_ok w ws v =
    (Inr (), \<lparr>wal_file = wal_file w @ txn_bytes crc ws v, wal_buf = []\<rparr>)"
  using assms
  by (cases w) (simp add: append_txn_def bw_write_all_def bw_flush_def io_ok_def BUF_CAPACITY_def Let_def)

text \<open>
  recovery leaves a log that keeps working. After the torn tail is cut at the reported valid
  length and the log is reopened, a transaction appended to it is replayed after the recovered
  ones: nothing recovered is lost and the new transaction is not swallowed by the torn one.
\<close>

theorem repaired_log_accepts_appends:
  assumes "\<forall>t \<in> set (t' # ts). txn_ok t" and "fst t' \<noteq> []"
  shows "\<exists>recs len w'.
    replay_with_valid_len crc (Some (WAL_MAGIC @ take n (concat (map (txn_enc crc) ts)))) = Inr (recs, len) \<and>
    append_txn crc io_ok
      (wal_open (Some (truncate_to (WAL_MAGIC @ take n (concat (map (txn_enc crc) ts))) len)))
      (fst t') (snd t') = (Inr (), w') \<and>
    wal_replay crc (Some (wal_file w')) =
      Inr (concat (map txn_records (whole_txns crc n ts)) @ txn_records t')"
proof -
  let ?w = "whole_txns crc n ts"
  let ?e = "concat (map (txn_enc crc) ?w)"
  have ok: "\<forall>t \<in> set (?w @ [t']). txn_ok t"
    using assms(1) whole_txns_subset [of crc n ts] by auto
  obtain rest where split: "take n (concat (map (txn_enc crc) ts)) = ?e @ rest"
    using whole_txns_split [of n crc ts] by auto
  have cut: "truncate_to (WAL_MAGIC @ take n (concat (map (txn_enc crc) ts))) (8 + length ?e) = WAL_MAGIC @ ?e"
    unfolding split by (simp add: truncate_to_def)
  have reopened: "wal_open (Some (WAL_MAGIC @ ?e)) = \<lparr>wal_file = WAL_MAGIC @ ?e, wal_buf = []\<rparr>"
    by (simp add: wal_open_def WAL_MAGIC_def)
  have all: "replay_with_valid_len crc (Some (WAL_MAGIC @ ?e @ txn_enc crc t')) =
      Inr (concat (map txn_records ?w) @ txn_records t', 8 + length (?e @ txn_enc crc t'))"
    using replay_whole_log [OF ok, of crc] by simp
  show ?thesis
    using replay_torn_log_aux [of ts crc n] assms all
    by (simp add: cut reopened append_txn_ok wal_replay_def)
qed

theorem repaired_log_accepts_appends_witness:
  "let crc = (\<lambda>bs. of_nat (length bs)); t' = ([([99], Some [3])], 7);
       ts = [([([97], Some [1])], 5), ([([98], None)], 6)] in
   \<exists>recs len w'.
    replay_with_valid_len crc (Some (WAL_MAGIC @ take 70 (concat (map (txn_enc crc) ts)))) = Inr (recs, len) \<and>
    append_txn crc io_ok
      (wal_open (Some (truncate_to (WAL_MAGIC @ take 70 (concat (map (txn_enc crc) ts))) len)))
      (fst t') (snd t') = (Inr (), w') \<and>
    wal_replay crc (Some (wal_file w')) =
      Inr (concat (map txn_records (whole_txns crc 70 ts)) @ txn_records t')"
  unfolding Let_def
  by (rule repaired_log_accepts_appends)
     (simp_all add: txn_ok_def txn_records_def write_record_def fits_def)

text \<open>
  C27: a commit that failed can come back. When the flush of a small batch fails, \<^verbatim>\<open>append_txn\<close> reports
  the error (so the transaction does not commit), but the batch stays in the writer's buffer and the
  next append writes both: a replay returns the records of the failed transaction too.
\<close>

theorem failed_append_is_replayed:
  assumes "txn_ok t1" and "txn_ok t2" and "fst t1 \<noteq> []" and "fst t2 \<noteq> []"
    and "length (txn_enc crc t1) + length (txn_enc crc t2) < BUF_CAPACITY"
  shows "\<exists>w1 w2.
    append_txn crc (io_ok\<lparr>io_flush := Some 0\<rparr>) create_fresh (fst t1) (snd t1) = (Inl Io, w1) \<and>
    append_txn crc io_ok w1 (fst t2) (snd t2) = (Inr (), w2) \<and>
    wal_replay crc (Some (wal_file w2)) = Inr (txn_records t1 @ txn_records t2)"
proof -
  have r: "replay_with_valid_len crc (Some (WAL_MAGIC @ txn_enc crc t1 @ txn_enc crc t2)) =
      Inr (txn_records t1 @ txn_records t2, 8 + length (txn_enc crc t1 @ txn_enc crc t2))"
    using replay_whole_log [of "[t1, t2]" crc] assms by simp
  have "append_txn crc (io_ok\<lparr>io_flush := Some 0\<rparr>) create_fresh (fst t1) (snd t1) =
      (Inl Io, \<lparr>wal_file = WAL_MAGIC, wal_buf = txn_enc crc t1\<rparr>)"
    using assms
    by (simp add: append_txn_def bw_write_all_def bw_flush_def io_ok_def create_fresh_def Let_def)
  moreover have "append_txn crc io_ok \<lparr>wal_file = WAL_MAGIC, wal_buf = txn_enc crc t1\<rparr> (fst t2) (snd t2) =
      (Inr (), \<lparr>wal_file = WAL_MAGIC @ txn_enc crc t1 @ txn_enc crc t2, wal_buf = []\<rparr>)"
    using assms by (simp add: append_txn_def bw_write_all_def bw_flush_def io_ok_def Let_def)
  ultimately show ?thesis using r by (simp add: wal_replay_def)
qed

theorem failed_append_is_replayed_witness:
  "let crc = (\<lambda>bs. of_nat (length bs)); t1 = ([([97], Some [1])], 5); t2 = ([([98], None)], 6) in
   \<exists>w1 w2.
    append_txn crc (io_ok\<lparr>io_flush := Some 0\<rparr>) create_fresh (fst t1) (snd t1) = (Inl Io, w1) \<and>
    append_txn crc io_ok w1 (fst t2) (snd t2) = (Inr (), w2) \<and>
    wal_replay crc (Some (wal_file w2)) = Inr (txn_records t1 @ txn_records t2)"
  unfolding Let_def
  by (rule failed_append_is_replayed)
     (simp_all add: txn_ok_def txn_records_def write_record_def fits_def length_txn_bytes
        length_encode_record BUF_CAPACITY_def)

text \<open>The first record of a log that begins inside a torn header.\<close>

lemma replay_undecodable:
  assumes "length d < 8 \<or> take 8 d \<noteq> WAL_MAGIC" and "wal_decode crc d = Inl (WalCorrupted m)"
  shows "replay_with_valid_len crc (Some d) = Inr ([], 0)"
proof -
  have "replay_loop crc d 0 [] [] 0 = Inr ([], [], 0, 0)"
    using assms(2) by (subst replay_loop.simps) simp
  then show ?thesis using assms(1) by (auto simp: replay_with_valid_len_def Let_def)
qed

text \<open>
  A batch behind a torn header: the decoder takes a byte of the commit version for the record type, and
  unless it is one, or the checksum happens to complete the header, nothing is replayed.
\<close>

lemma torn_header_replay:
  assumes "0 < n" "n < 8" "fst t \<noteq> []" "u64_be (snd t) ! (8 - n) \<notin> {1, 2, 3}" "take 8 (take n WAL_MAGIC @ txn_enc crc t) \<noteq> WAL_MAGIC"
  shows "replay_with_valid_len crc (Some (take n WAL_MAGIC @ txn_enc crc t)) = Inr ([], 0)"
proof -
  let ?h = "take n WAL_MAGIC"
  have n: "length ?h = n" using assms(2) by simp
  obtain r rs where rs: "txn_records t = r # rs" using assms(3) by (cases "fst t") (auto simp: txn_records_def)
  have ver: "wr_version r = snd t"
    using rs by (cases "fst t") (auto simp: txn_records_def write_record_def split: option.splits)
  obtain c rest where e: "txn_enc crc t = u32_be c @ u64_be (snd t) @ rest"
    unfolding txn_bytes_eq rs using ver by (auto simp: encode_record_def encode_record_into_def Let_def)
  have "(?h @ txn_enc crc t) ! 12 = (u32_be c @ u64_be (snd t) @ rest) ! (12 - n)"
    using assms(2) n unfolding e by (simp add: nth_append)
  also have "\<dots> = u64_be (snd t) ! (8 - n)"
  proof -
    have "\<not> 12 - n < 4" "12 - n - 4 = 8 - n" "8 - n < 8" using assms(1,2) by simp_all
    then show ?thesis by (simp add: nth_append)
  qed
  finally have "(?h @ txn_enc crc t) ! 12 = u64_be (snd t) ! (8 - n)" .
  moreover have "21 \<le> length (?h @ txn_enc crc t)" by (simp add: length_txn_bytes)
  ultimately have "wal_decode crc (?h @ txn_enc crc t) = Inl (WalCorrupted ''unknown record type'')"
    using assms(4) unfolding wal_decode_def by (simp add: HEADER_SIZE_eq Let_def record_type_try_from_def del: length_append)
  then show ?thesis by (rule replay_undecodable [rotated]) (use assms(5) in blast)
qed

lemma torn_header_only:
  assumes "n < 8"
  shows "replay_with_valid_len crc (Some (take n WAL_MAGIC)) = Inr ([], 0)"
proof (rule replay_undecodable)
  show "wal_decode crc (take n WAL_MAGIC) = Inl (WalCorrupted ''record too short'')"
    using assms by (simp add: wal_decode_def HEADER_SIZE_eq)
qed (use assms in simp)

end
