(* ===== verification/Mvcc.thy ===== *)
theory Mvcc
  imports Versions "HOL-Library.AList"
begin

text \<open>
  The transaction manager of \<^verbatim>\<open>rhypedb-storage/src/mvcc.rs\<close>: snapshots, buffered writes, the
  serialized commit with its conflict check, and the refcounted set of active snapshots that
  garbage collection depends on. A hash map read by its keys is an association list with distinct
  keys; the hash set of written keys is a set. \<^verbatim>\<open>commit\<close> takes the caller's \<^verbatim>\<open>apply\<close> callback as a
  function on the caller's own state. The transactions of a running system are a step relation;
  its invariants give first-committer-wins conflict detection and the safety of the snapshot floor.
\<close>

section \<open>Active snapshots\<close>

type_synonym active_snapshots = "(u64 \<times> u64) list"

definition release_hold :: "active_snapshots \<Rightarrow> u64 \<Rightarrow> active_snapshots" where
  "release_hold active snapshot = (case map_of active snapshot of
      Some count \<Rightarrow> (if count - 1 = 0 then AList.delete snapshot active
                     else AList.update snapshot (count - 1) active)
    | None \<Rightarrow> active)"

definition register_hold :: "active_snapshots \<Rightarrow> u64 \<Rightarrow> active_snapshots" where
  "register_hold active snapshot =
     AList.update snapshot ((case map_of active snapshot of Some c \<Rightarrow> c | None \<Rightarrow> 0) + 1) active"

definition min_key :: "active_snapshots \<Rightarrow> u64" where
  "min_key active = (if active = [] then - 1 else Min (set (map fst active)))"

section \<open>Transactions\<close>

text \<open>\<open>tx_hold\<close> is whether \<^verbatim>\<open>hold\<close> is still \<^verbatim>\<open>Some\<close>; the map it points to is the manager's.\<close>

record transaction =
  tx_snapshot :: u64
  tx_writes :: "(bytes \<times> memval) list"
  tx_index :: "bytes \<rightharpoonup> nat"
  tx_hold :: bool

definition upsert :: "transaction \<Rightarrow> bytes \<Rightarrow> memval \<Rightarrow> transaction" where
  "upsert t key val = (case tx_index t key of
      Some i \<Rightarrow> t\<lparr>tx_writes := (tx_writes t)[i := (fst (tx_writes t ! i), val)]\<rparr>
    | None \<Rightarrow> t\<lparr>tx_index := (tx_index t)(key \<mapsto> length (tx_writes t)),
               tx_writes := tx_writes t @ [(key, val)]\<rparr>)"

definition record_put :: "transaction \<Rightarrow> bytes \<Rightarrow> bytes \<Rightarrow> transaction" where
  "record_put t key val = upsert t key (Some val)"

definition record_delete :: "transaction \<Rightarrow> bytes \<Rightarrow> transaction" where
  "record_delete t key = upsert t key None"

definition tx_is_empty :: "transaction \<Rightarrow> bool" where
  "tx_is_empty t \<longleftrightarrow> tx_writes t = []"

section \<open>The manager\<close>

record committed_txn =
  ct_version :: u64
  ct_write_set :: "bytes set"

record manager =
  visible_version :: u64
  next_version :: u64
  committed_log :: "committed_txn list"
  active :: active_snapshots
  max_committed_log_size :: nat

definition tm_new :: manager where
  "tm_new = \<lparr>visible_version = 0, next_version = 1, committed_log = [], active = [],
             max_committed_log_size = 1024\<rparr>"

definition recover_at_version :: "u64 \<Rightarrow> manager" where
  "recover_at_version version =
     \<lparr>visible_version = version, next_version = version + 1, committed_log = [], active = [],
      max_committed_log_size = 1024\<rparr>"

text \<open>\<^verbatim>\<open>begin\<close> is two steps on shared state: the load of the version and the registration.\<close>

definition begin_load :: "manager \<Rightarrow> u64" where
  "begin_load m = visible_version m"

definition begin_register :: "manager \<Rightarrow> u64 \<Rightarrow> manager \<times> transaction" where
  "begin_register m snapshot =
     (m\<lparr>active := register_hold (active m) snapshot\<rparr>,
      \<lparr>tx_snapshot = snapshot, tx_writes = [], tx_index = Map.empty, tx_hold = True\<rparr>)"

definition tm_begin :: "manager \<Rightarrow> manager \<times> transaction" where
  "tm_begin m = begin_register m (begin_load m)"

definition tx_release :: "manager \<Rightarrow> transaction \<Rightarrow> manager \<times> transaction" where
  "tx_release m t =
     (if tx_hold t then (m\<lparr>active := release_hold (active m) (tx_snapshot t)\<rparr>, t\<lparr>tx_hold := False\<rparr>)
      else (m, t))"

definition conflicts :: "manager \<Rightarrow> transaction \<Rightarrow> bool" where
  "conflicts m t \<longleftrightarrow> list_ex (\<lambda>c. \<not> ct_version c \<le> tx_snapshot t \<and>
      list_ex (\<lambda>(key, _). key \<in> ct_write_set c) (tx_writes t)) (committed_log m)"

definition trim_log :: "u64 \<Rightarrow> nat \<Rightarrow> committed_txn list \<Rightarrow> committed_txn list" where
  "trim_log min_active max_size log =
     (let log' = dropWhile (\<lambda>c. ct_version c < min_active) log
      in drop (length log' - max_size) log')"

text \<open>
  \<^verbatim>\<open>commit\<close>: the result, the manager, the transaction and the caller's state after it.
\<close>

definition tm_commit ::
    "manager \<Rightarrow> transaction \<Rightarrow> (u64 \<Rightarrow> (bytes \<times> memval) list \<Rightarrow> 's \<Rightarrow> (error + unit) \<times> 's) \<Rightarrow> 's \<Rightarrow>
     (error + u64) \<times> manager \<times> transaction \<times> 's" where
  "tm_commit m t apply_writes s =
     (if tx_writes t = [] then
        let (m', t') = tx_release m t in (Inr (tx_snapshot t), m', t', s)
      else if conflicts m t then (Inl WriteConflict, m, t, s)
      else
        let commit_version = next_version m;
            m1 = m\<lparr>next_version := commit_version + 1\<rparr>
        in case apply_writes commit_version (tx_writes t) s of
          (Inl e, s') \<Rightarrow> (Inl e, m1, t, s')
        | (Inr _, s') \<Rightarrow>
            let log = committed_log m1 @
                  [\<lparr>ct_version = commit_version, ct_write_set = set (map fst (tx_writes t))\<rparr>];
                min_active = min_key (active m1);
                m2 = m1\<lparr>committed_log := trim_log min_active (max_committed_log_size m1) log,
                        visible_version := commit_version\<rparr>;
                (m3, t') = tx_release m2 t
            in (Inr commit_version, m3, t', s'))"

definition tm_abort :: "manager \<Rightarrow> transaction \<Rightarrow> manager \<times> transaction" where
  "tm_abort m t = tx_release m t"

text \<open>\<^verbatim>\<open>Drop for Transaction\<close>\<close>

definition tx_drop :: "manager \<Rightarrow> transaction \<Rightarrow> manager" where
  "tx_drop m t = fst (tx_release m t)"

definition min_active_snapshot :: "manager \<Rightarrow> u64" where
  "min_active_snapshot m = min_key (active m)"

definition active_snapshot_stats :: "manager \<Rightarrow> nat \<times> u64" where
  "active_snapshot_stats m = (length (active m), sum_list (map snd (active m)))"

definition current_version :: "manager \<Rightarrow> u64" where
  "current_version m = visible_version m"

section \<open>The write buffer\<close>

text \<open>The index points each buffered key at its only entry.\<close>

definition buffer_inv :: "transaction \<Rightarrow> bool" where
  "buffer_inv t \<longleftrightarrow> distinct (map fst (tx_writes t)) \<and>
     (\<forall>k i. tx_index t k = Some i \<longleftrightarrow> i < length (tx_writes t) \<and> fst (tx_writes t ! i) = k)"

lemma buffer_inv_fresh: "buffer_inv (snd (begin_register m s))"
  by (simp add: buffer_inv_def begin_register_def)

lemma map_of_update_nth:
  assumes "distinct (map fst xs)" and "i < length xs"
  shows "map_of (xs[i := (fst (xs ! i), y)]) = (map_of xs)(fst (xs ! i) \<mapsto> y)"
  using assms
proof (induction xs arbitrary: i)
  case (Cons p xs)
  show ?case
  proof (cases i)
    case (Suc j)
    then have "fst (xs ! j) \<noteq> fst p" using Cons.prems by (metis Suc_less_eq distinct.simps(2) image_eqI
      length_Cons list.simps(9) list.set_map nth_mem)
    with Cons Suc show ?thesis by (auto simp: fun_eq_iff)
  qed (cases p, simp add: fun_eq_iff)
qed simp

lemma map_of_snoc: "k \<notin> fst ` set xs \<Longrightarrow> map_of (xs @ [(k, x)]) = (map_of xs)(k \<mapsto> x)"
  by (induction xs) (auto simp: fun_eq_iff)

lemma upsert_inv:
  assumes "buffer_inv t"
  shows "buffer_inv (upsert t k x) \<and> map_of (tx_writes (upsert t k x)) = (map_of (tx_writes t))(k \<mapsto> x)"
proof (cases "tx_index t k")
  case None
  then have fresh: "k \<notin> fst ` set (tx_writes t)"
    using assms by (auto simp: buffer_inv_def in_set_conv_nth) (metis fst_conv option.distinct(1))
  moreover have "map_of (tx_writes t @ [(k, x)]) = (map_of (tx_writes t))(k \<mapsto> x)"
    using fresh by (rule map_of_snoc)
  ultimately show ?thesis
    using assms None by (auto simp: upsert_def buffer_inv_def nth_append less_Suc_eq)
next
  case (Some i)
  then have i: "i < length (tx_writes t)" "fst (tx_writes t ! i) = k" using assms by (auto simp: buffer_inv_def)
  have keys: "map fst ((tx_writes t)[i := (k, x)]) = map fst (tx_writes t)"
    using i by (simp add: map_update list_update_same_conv)
  have nth: "fst ((tx_writes t)[i := (k, x)] ! j) = fst (tx_writes t ! j)" if "j < length (tx_writes t)" for j
    using i that by (cases "j = i") auto
  have u: "upsert t k x = t\<lparr>tx_writes := (tx_writes t)[i := (k, x)]\<rparr>"
    using Some i by (simp add: upsert_def)
  have "map_of ((tx_writes t)[i := (k, x)]) = (map_of (tx_writes t))(k \<mapsto> x)"
    using map_of_update_nth [of "tx_writes t" i x] assms i by (simp add: buffer_inv_def)
  moreover have "buffer_inv (upsert t k x)"
    using assms nth keys by (auto simp: u buffer_inv_def)
  ultimately show ?thesis by (simp add: u)
qed

section \<open>Reference counts\<close>

definition hold_count :: "active_snapshots \<Rightarrow> u64 \<Rightarrow> nat" where
  "hold_count a s = (case map_of a s of None \<Rightarrow> 0 | Some c \<Rightarrow> unat c)"

definition active_inv :: "active_snapshots \<Rightarrow> bool" where
  "active_inv a \<longleftrightarrow> distinct (map fst a) \<and> (\<forall>(s, c) \<in> set a. c \<noteq> 0)"

lemma active_inv_lookup: "active_inv a \<Longrightarrow> map_of a s = Some c \<Longrightarrow> c \<noteq> 0"
  by (auto simp: active_inv_def dest: map_of_SomeD)

lemma active_inv_iff:
  "active_inv a \<longleftrightarrow> distinct (map fst a) \<and> (\<forall>s c. map_of a s = Some c \<longrightarrow> c \<noteq> 0)"
  by (auto simp: active_inv_def dest: map_of_SomeD map_of_is_SomeI)

lemma hold_count_pos: "active_inv a \<Longrightarrow> 0 < hold_count a s \<longleftrightarrow> s \<in> fst ` set a"
  by (auto simp: hold_count_def active_inv_def unat_gt_0 map_of_eq_None_iff split: option.splits
      dest: map_of_SomeD) (force simp: unat_gt_0)+

lemma register_hold_ok:
  assumes "active_inv a" and "Suc (hold_count a s) < 2 ^ 64"
  shows "active_inv (register_hold a s)"
    and "hold_count (register_hold a s) = (hold_count a)(s := Suc (hold_count a s))"
proof -
  define c where "c = (case map_of a s of Some c \<Rightarrow> c | None \<Rightarrow> 0)"
  have c: "unat c = hold_count a s" by (simp add: c_def hold_count_def split: option.splits)
  then have c1: "unat (c + 1) = Suc (hold_count a s)"
    using assms(2) by (simp add: unat_word_ariths)
  then have "c + 1 \<noteq> 0" by (metis nat.distinct(1) unat_0)
  then show "active_inv (register_hold a s)"
    using assms(1) by (auto simp: active_inv_iff register_hold_def c_def [symmetric] update_conv'
      distinct_update split: if_splits)
  show "hold_count (register_hold a s) = (hold_count a)(s := Suc (hold_count a s))"
    using c1 by (auto simp: hold_count_def register_hold_def c_def [symmetric] update_conv' fun_eq_iff)
qed

lemma release_hold_ok:
  assumes "active_inv a"
  shows "active_inv (release_hold a s)"
    and "hold_count (release_hold a s) = (hold_count a)(s := hold_count a s - 1)"
proof -
  have "active_inv (release_hold a s) \<and>
      hold_count (release_hold a s) = (hold_count a)(s := hold_count a s - 1)"
  proof (cases "map_of a s")
    case (Some c)
    have "c \<noteq> 0" using assms Some by (rule active_inv_lookup)
    then have c1: "unat (c - 1) = unat c - 1" by (metis unat_minus_one)
    then show ?thesis
      using assms Some
      by (auto simp: release_hold_def active_inv_iff hold_count_def fun_eq_iff update_conv'
          delete_conv' distinct_update distinct_delete simp del: map_of_eq_Some_iff split: if_splits)
  qed (use assms in \<open>simp add: release_hold_def hold_count_def fun_eq_iff\<close>)
  then show "active_inv (release_hold a s)"
    "hold_count (release_hold a s) = (hold_count a)(s := hold_count a s - 1)" by blast+
qed

lemma min_key_le: "s \<in> fst ` set a \<Longrightarrow> min_key a \<le> s"
  by (auto simp: min_key_def)

lemma min_key_in: "a \<noteq> [] \<Longrightarrow> min_key a \<in> fst ` set a"
  using Min_in [of "set (map fst a)"] by (auto simp: min_key_def)

section \<open>A running system\<close>

text \<open>
  The manager, the versions that calls of \<^verbatim>\<open>begin\<close> have loaded and not yet registered, every
  transaction registered so far, and two history variables: every successful commit, and for each
  transaction the version that was visible when it was registered. A step is the load or the
  registration of a begin (other steps may come between them), a buffered write, a commit of a
  transaction that still holds its snapshot (with any outcome of the \<^verbatim>\<open>apply\<close> callback), an abort or
  drop. The guards are the machine limits of the counters.
\<close>

record sys =
  sys_tm :: manager
  sys_txns :: "transaction list"
  sys_history :: "committed_txn list"
  sys_pending :: "u64 list"
  sys_registered :: "nat \<Rightarrow> u64"

definition commit_unit :: "manager \<Rightarrow> transaction \<Rightarrow> error + unit \<Rightarrow> (error + u64) \<times> manager \<times> transaction \<times> unit" where
  "commit_unit m t outcome = tm_commit m t (\<lambda>_ _ s. (outcome, s)) ()"

inductive step :: "sys \<Rightarrow> sys \<Rightarrow> bool" where
  step_load: "step S (S\<lparr>sys_pending := begin_load (sys_tm S) # sys_pending S\<rparr>)"
| step_register: "Suc (length (sys_txns S)) < 2 ^ 64 \<Longrightarrow> snapshot \<in> set (sys_pending S) \<Longrightarrow>
    begin_register (sys_tm S) snapshot = (m, t) \<Longrightarrow>
    step S (S\<lparr>sys_tm := m, sys_txns := sys_txns S @ [t], sys_pending := remove1 snapshot (sys_pending S),
      sys_registered := (sys_registered S)(length (sys_txns S) := visible_version (sys_tm S))\<rparr>)"
| step_put: "i < length (sys_txns S) \<Longrightarrow>
    step S (S\<lparr>sys_txns := (sys_txns S)[i := record_put (sys_txns S ! i) k x]\<rparr>)"
| step_delete: "i < length (sys_txns S) \<Longrightarrow>
    step S (S\<lparr>sys_txns := (sys_txns S)[i := record_delete (sys_txns S ! i) k]\<rparr>)"
| step_commit: "i < length (sys_txns S) \<Longrightarrow> tx_hold (sys_txns S ! i) \<Longrightarrow> next_version (sys_tm S) < - 1 \<Longrightarrow>
    commit_unit (sys_tm S) (sys_txns S ! i) outcome = (r, m, t, u) \<Longrightarrow>
    step S (S\<lparr>sys_tm := m, sys_txns := (sys_txns S)[i := t],
      sys_history := sys_history S @
        (if tx_writes (sys_txns S ! i) = [] \<or> Inr (next_version (sys_tm S)) \<noteq> r then []
         else [\<lparr>ct_version = next_version (sys_tm S),
                ct_write_set = set (map fst (tx_writes (sys_txns S ! i)))\<rparr>])\<rparr>)"
| step_finish: "i < length (sys_txns S) \<Longrightarrow> tx_release (sys_tm S) (sys_txns S ! i) = (m, t) \<Longrightarrow>
    step S (S\<lparr>sys_tm := m, sys_txns := (sys_txns S)[i := t]\<rparr>)"

definition initial :: "sys \<Rightarrow> bool" where
  "initial S \<longleftrightarrow> (\<exists>v < - 1. sys_tm S = recover_at_version v) \<and> sys_txns S = [] \<and> sys_history S = [] \<and>
     sys_pending S = []"

inductive reachable :: "sys \<Rightarrow> bool" where
  start: "initial S \<Longrightarrow> reachable S"
| more: "reachable S \<Longrightarrow> step S S' \<Longrightarrow> reachable S'"

definition holders :: "transaction list \<Rightarrow> u64 \<Rightarrow> nat" where
  "holders ts s = length (filter (\<lambda>t. tx_hold t \<and> tx_snapshot t = s) ts)"

definition newer_commits :: "committed_txn list \<Rightarrow> committed_txn \<Rightarrow> nat" where
  "newer_commits h c = length (filter (\<lambda>c'. ct_version c < ct_version c') h)"

definition counts_inv :: "sys \<Rightarrow> bool" where
  "counts_inv S \<longleftrightarrow> active_inv (active (sys_tm S)) \<and>
     (\<forall>s. hold_count (active (sys_tm S)) s = holders (sys_txns S) s) \<and> length (sys_txns S) < 2 ^ 64"

definition versions_inv :: "sys \<Rightarrow> bool" where
  "versions_inv S \<longleftrightarrow> (\<forall>t \<in> set (sys_txns S). tx_snapshot t \<le> visible_version (sys_tm S) \<and> buffer_inv t) \<and>
     (\<forall>i < length (sys_txns S). tx_snapshot (sys_txns S ! i) \<le> sys_registered S i \<and>
        sys_registered S i \<le> visible_version (sys_tm S)) \<and>
     (\<forall>p \<in> set (sys_pending S). p \<le> visible_version (sys_tm S)) \<and>
     visible_version (sys_tm S) < next_version (sys_tm S) \<and>
     sorted_wrt (\<lambda>a b. ct_version a < ct_version b) (sys_history S) \<and>
     (\<forall>c \<in> set (sys_history S). ct_version c \<le> visible_version (sys_tm S))"

text \<open>
  The log is a suffix of the history, and a commit missing from it was visible when each transaction
  that holds its snapshot was registered, or is one that 1024 later commits pushed out.
\<close>

definition forgotten_ok :: "transaction list \<Rightarrow> (nat \<Rightarrow> u64) \<Rightarrow> committed_txn list \<Rightarrow> committed_txn \<Rightarrow> bool" where
  "forgotten_ok ts reg h c \<longleftrightarrow> (\<forall>i < length ts. tx_hold (ts ! i) \<longrightarrow> ct_version c \<le> reg i) \<or> 1024 \<le> newer_commits h c"

definition log_inv :: "sys \<Rightarrow> bool" where
  "log_inv S \<longleftrightarrow> max_committed_log_size (sys_tm S) = 1024 \<and>
     (\<exists>d. sys_history S = d @ committed_log (sys_tm S) \<and>
          (\<forall>c \<in> set d. forgotten_ok (sys_txns S) (sys_registered S) (sys_history S) c))"

definition sys_inv :: "sys \<Rightarrow> bool" where
  "sys_inv S \<longleftrightarrow> counts_inv S \<and> versions_inv S \<and> log_inv S"

lemma holders_le: "holders ts s \<le> length ts"
  by (simp add: holders_def)

lemma holders_pos:
  "i < length ts \<Longrightarrow> tx_hold (ts ! i) \<and> tx_snapshot (ts ! i) = s \<Longrightarrow> 0 < holders ts s"
  by (auto simp: holders_def filter_empty_conv)

lemma holders_update:
  assumes "i < length ts"
  shows "holders (ts[i := t]) s = holders ts s
     - (if tx_hold (ts ! i) \<and> tx_snapshot (ts ! i) = s then 1 else 0)
     + (if tx_hold t \<and> tx_snapshot t = s then 1 else 0)"
  using assms
proof (induction ts arbitrary: i)
  case (Cons a ts)
  then show ?case
  proof (cases i)
    case (Suc j)
    then have "tx_hold (ts ! j) \<and> tx_snapshot (ts ! j) = s \<Longrightarrow> 0 < holders ts s"
      using Cons.prems by (auto simp: holders_def filter_empty_conv)
    with Cons Suc show ?thesis by (auto simp: holders_def)
  qed (simp add: holders_def)
qed simp

lemma upsert_keeps [simp]:
  "tx_hold (upsert t k x) = tx_hold t" "tx_snapshot (upsert t k x) = tx_snapshot t"
  by (simp_all add: upsert_def split: option.splits)

lemma forgotten_ok_mono:
  assumes "forgotten_ok ts reg h c" and "\<And>i. i < length ts' \<Longrightarrow> tx_hold (ts' ! i) \<Longrightarrow> i < length ts \<and> tx_hold (ts ! i)"
  shows "forgotten_ok ts' reg (h @ h') c"
  using assms unfolding forgotten_ok_def newer_commits_def by fastforce

lemma nth_update_if: "j < length ts \<Longrightarrow> ts[i := t] ! j = (if j = i then t else ts ! j)"
  by (cases "i < length ts") auto

lemma snapshots_update:
  assumes "tx_snapshot t = tx_snapshot (ts ! i)" "\<forall>j < length ts. tx_snapshot (ts ! j) \<le> reg j \<and> reg j \<le> v"
  shows "\<forall>j < length (ts[i := t]). tx_snapshot (ts[i := t] ! j) \<le> reg j \<and> reg j \<le> v"
  using assms by (auto simp: nth_update_if)

text \<open>A buffered write, seen by the invariants.\<close>

lemma write_inv:
  assumes "sys_inv S" and "i < length (sys_txns S)"
  shows "sys_inv (S\<lparr>sys_txns := (sys_txns S)[i := upsert (sys_txns S ! i) k x]\<rparr>)"
proof -
  let ?ts = "sys_txns S" and ?t = "upsert (sys_txns S ! i) k x"
  have mem: "\<exists>t' \<in> set ?ts. (tx_hold t \<longrightarrow> tx_hold t') \<and> tx_snapshot t' = tx_snapshot t \<and> (buffer_inv t' \<longrightarrow> buffer_inv t)"
    if t: "t \<in> set (?ts[i := ?t])" for t
  proof -
    consider "t \<in> set ?ts" | "t = ?t" using set_update_subset_insert [of ?ts i ?t] t by blast
    then show ?thesis
    proof cases
      case 2
      then show ?thesis using upsert_inv [of "?ts ! i" k x] nth_mem [OF assms(2)] by (intro bexI) auto
    qed blast
  qed
  have "holders (?ts[i := ?t]) s = holders ?ts s" for s
    using holders_pos [OF assms(2)] by (auto simp: holders_update [OF assms(2)])
  then have "counts_inv (S\<lparr>sys_txns := ?ts[i := ?t]\<rparr>)" using assms(1) by (simp add: sys_inv_def counts_inv_def)
  moreover have "versions_inv (S\<lparr>sys_txns := ?ts[i := ?t]\<rparr>)"
    using assms(1) mem snapshots_update [of ?t ?ts i "sys_registered S"] unfolding sys_inv_def versions_inv_def
    by (simp del: length_list_update) metis
  moreover have "log_inv (S\<lparr>sys_txns := ?ts[i := ?t]\<rparr>)"
  proof -
    have "forgotten_ok (?ts[i := ?t]) (sys_registered S) (sys_history S) c" if "forgotten_ok ?ts (sys_registered S) (sys_history S) c" for c
      by (rule forgotten_ok_mono [OF that, of _ "[]", simplified]) (auto simp: nth_update_if split: if_split_asm)
    then show ?thesis using assms(1) unfolding sys_inv_def log_inv_def by auto
  qed
  ultimately show ?thesis by (simp add: sys_inv_def)
qed

lemma load_inv:
  assumes "sys_inv S"
  shows "sys_inv (S\<lparr>sys_pending := begin_load (sys_tm S) # sys_pending S\<rparr>)"
  using assms by (simp add: sys_inv_def counts_inv_def versions_inv_def log_inv_def begin_load_def)

lemma register_inv:
  assumes "sys_inv S" and "Suc (length (sys_txns S)) < 2 ^ 64" and "s \<in> set (sys_pending S)"
    and "begin_register (sys_tm S) s = (m, t)"
  shows "sys_inv (S\<lparr>sys_tm := m, sys_txns := sys_txns S @ [t], sys_pending := remove1 s (sys_pending S),
      sys_registered := (sys_registered S)(length (sys_txns S) := visible_version (sys_tm S))\<rparr>)" (is "sys_inv ?S'")
proof -
  let ?a = "active (sys_tm S)" and ?v = "visible_version (sys_tm S)"
  have m: "m = (sys_tm S)\<lparr>active := register_hold ?a s\<rparr>"
    and t: "tx_hold t" "tx_snapshot t = s" "buffer_inv t"
    using assms(4) buffer_inv_fresh [of "sys_tm S" s] by (auto simp: begin_register_def)
  have s: "s \<le> ?v" using assms(1,3) by (simp add: sys_inv_def versions_inv_def)
  have a: "active_inv ?a" "hold_count ?a x = holders (sys_txns S) x" for x
    using assms(1) by (auto simp: sys_inv_def counts_inv_def)
  have "Suc (hold_count ?a s) < 2 ^ 64"
    using a(2) holders_le [of "sys_txns S" s] assms(2) by simp
  note r = register_hold_ok [OF a(1) this]
  have "counts_inv ?S'"
    using r a assms(2) t by (simp add: counts_inv_def m) (auto simp: holders_def)
  moreover have "versions_inv ?S'"
    using assms(1) t s by (auto simp: sys_inv_def versions_inv_def m nth_append dest: notin_set_remove1)
  moreover have "log_inv ?S'"
    using assms(1) t by (auto simp: sys_inv_def versions_inv_def log_inv_def m forgotten_ok_def nth_append less_Suc_eq)
  ultimately show ?thesis by (simp add: sys_inv_def)
qed

text \<open>Releasing a hold, with the history and the log as they are.\<close>

lemma release_inv:
  assumes "counts_inv S" "versions_inv S" and "i < length (sys_txns S)" and "tx_release (sys_tm S) (sys_txns S ! i) = (m, t)"
  shows "counts_inv (S\<lparr>sys_tm := m, sys_txns := (sys_txns S)[i := t]\<rparr>)"
    and "versions_inv (S\<lparr>sys_tm := m, sys_txns := (sys_txns S)[i := t]\<rparr>)"
    and "log_inv S \<Longrightarrow> log_inv (S\<lparr>sys_tm := m, sys_txns := (sys_txns S)[i := t]\<rparr>)"
proof -
  let ?ts = "sys_txns S" and ?o = "sys_txns S ! i" and ?a = "active (sys_tm S)"
  have t: "tx_snapshot t = tx_snapshot ?o" "\<not> tx_hold t" "buffer_inv t = buffer_inv ?o"
    and m: "m = (sys_tm S)\<lparr>active := (if tx_hold ?o then release_hold ?a (tx_snapshot ?o) else ?a)\<rparr>"
    using assms(4) by (auto simp: tx_release_def buffer_inv_def split: if_splits)
  have a: "active_inv ?a" "\<And>s. hold_count ?a s = holders ?ts s"
    using assms(1) by (auto simp: counts_inv_def)
  note r = release_hold_ok [OF a(1), of "tx_snapshot ?o"]
  show "counts_inv (S\<lparr>sys_tm := m, sys_txns := ?ts[i := t]\<rparr>)"
    using r a assms(1,3) t by (auto simp: counts_inv_def m holders_update)
  have mem: "\<exists>t' \<in> set ?ts. (tx_hold u \<longrightarrow> tx_hold t') \<and> tx_snapshot t' = tx_snapshot u \<and> (buffer_inv t' \<longrightarrow> buffer_inv u)"
    if u: "u \<in> set (?ts[i := t])" for u
  proof -
    consider "u \<in> set ?ts" | "u = t" using set_update_subset_insert [of ?ts i t] u by blast
    then show ?thesis
    proof cases
      case 2
      then show ?thesis using t nth_mem [OF assms(3)] by (intro bexI [of _ ?o]) auto
    qed blast
  qed
  show "versions_inv (S\<lparr>sys_tm := m, sys_txns := ?ts[i := t]\<rparr>)"
    using assms(2) mem snapshots_update [OF t(1), of "sys_registered S"] unfolding versions_inv_def m
    by (simp del: length_list_update) metis
  show "log_inv (S\<lparr>sys_tm := m, sys_txns := ?ts[i := t]\<rparr>)" if "log_inv S"
  proof -
    have "forgotten_ok (?ts[i := t]) (sys_registered S) (sys_history S) c" if "forgotten_ok ?ts (sys_registered S) (sys_history S) c" for c
      by (rule forgotten_ok_mono [OF that, of _ "[]", simplified]) (use t(2) in \<open>auto simp: nth_update_if split: if_split_asm\<close>)
    then show ?thesis using that unfolding log_inv_def m by auto
  qed
qed

text \<open>What trimming drops: commits below every active snapshot, or commits with 1024 newer ones.\<close>

lemma trim_log_split:
  "\<exists>d. log = d @ trim_log mn mx log \<and>
     (\<forall>c \<in> set d. ct_version c < mn \<or>
        (\<exists>e f. log = e @ c # f \<and> mx \<le> length f))"
proof -
  let ?l = "dropWhile (\<lambda>c. ct_version c < mn) log"
  let ?d = "takeWhile (\<lambda>c. ct_version c < mn) log"
  let ?n = "length ?l - mx"
  have split: "log = (?d @ take ?n ?l) @ trim_log mn mx log"
    by (simp add: trim_log_def Let_def)
  have old: "ct_version c < mn" if "c \<in> set ?d" for c using that by (auto dest: set_takeWhileD)
  have cap: "\<exists>e f. log = e @ c # f \<and> mx \<le> length f" if c: "c \<in> set (take ?n ?l)" for c
  proof -
    obtain x y where xy: "take ?n ?l = x @ c # y" using c by (meson split_list)
    have "log = (?d @ x) @ c # (y @ drop ?n ?l)" using split xy by (simp add: trim_log_def Let_def)
    moreover have "0 < ?n" using c by (cases ?n) auto
    then have "mx \<le> length (y @ drop ?n ?l)" by simp
    ultimately show ?thesis by blast
  qed
  show ?thesis using split old cap by (intro exI [of _ "?d @ take ?n ?l"]) auto
qed

lemma trim_log_set: "c \<in> set (trim_log mn mx log) \<Longrightarrow> c \<in> set log"
  by (auto simp: trim_log_def Let_def dest!: in_set_dropD set_dropWhileD)

lemma newer_after:
  assumes "sorted_wrt (\<lambda>a b. ct_version a < ct_version b) (e @ c # f)"
  shows "length f \<le> newer_commits (e @ c # f) c"
proof -
  have "filter (\<lambda>c'. ct_version c < ct_version c') f = f"
    using assms by (auto simp: sorted_wrt_append filter_id_conv)
  then show ?thesis by (simp add: newer_commits_def)
qed

lemma u64_Suc_less: "x < - 1 \<Longrightarrow> (x :: u64) < x + 1"
  by unat_arith

lemma held_in_active:
  assumes "counts_inv S" and "t \<in> set (sys_txns S)" and "tx_hold t"
  shows "tx_snapshot t \<in> fst ` set (active (sys_tm S))"
proof -
  have "0 < holders (sys_txns S) (tx_snapshot t)"
    using assms(2,3) by (auto simp: holders_def filter_empty_conv)
  then show ?thesis
    using assms(1) hold_count_pos [of "active (sys_tm S)" "tx_snapshot t"] by (simp add: counts_inv_def)
qed

lemma publish_inv:
  fixes ws :: "bytes set"
  assumes "sys_inv S" and "next_version (sys_tm S) < - 1"
  defines "v \<equiv> next_version (sys_tm S)"
  defines "c \<equiv> \<lparr>ct_version = v, ct_write_set = ws\<rparr>"
  defines "S' \<equiv> S\<lparr>sys_tm := (sys_tm S)\<lparr>next_version := v + 1,
       committed_log := trim_log (min_key (active (sys_tm S))) (max_committed_log_size (sys_tm S))
         (committed_log (sys_tm S) @ [c]),
       visible_version := v\<rparr>, sys_history := sys_history S @ [c]\<rparr>"
  shows "sys_inv S'"
proof -
  let ?log = "committed_log (sys_tm S) @ [c]" and ?mn = "min_key (active (sys_tm S))"
  have inv: "counts_inv S" "versions_inv S" "log_inv S" using assms(1) by (auto simp: sys_inv_def)
  have vis: "visible_version (sys_tm S) < v" using inv(2) by (simp add: versions_inv_def v_def)
  have nxt: "v < v + 1" using assms(2) by (simp add: v_def u64_Suc_less)
  have cnt: "counts_inv S'" using inv(1) by (simp add: counts_inv_def S'_def)
  have ver: "versions_inv S'"
    using inv(2) vis nxt by (fastforce simp: versions_inv_def S'_def c_def sorted_wrt_append)
  obtain d where d: "sys_history S = d @ committed_log (sys_tm S)"
    "\<forall>c \<in> set d. forgotten_ok (sys_txns S) (sys_registered S) (sys_history S) c" and mx: "max_committed_log_size (sys_tm S) = 1024"
    using inv(3) by (auto simp: log_inv_def)
  obtain d' where d': "?log = d' @ trim_log ?mn 1024 ?log"
    "\<forall>c \<in> set d'. ct_version c < ?mn \<or> (\<exists>e f. ?log = e @ c # f \<and> 1024 \<le> length f)"
    using trim_log_split [of ?log ?mn 1024] by blast
  have hist: "sys_history S' = (d @ d') @ committed_log (sys_tm S')"
    using d(1) d'(1) by (simp add: S'_def mx)
  have "forgotten_ok (sys_txns S) (sys_registered S) (sys_history S') x" if x: "x \<in> set (d @ d')" for x
  proof (cases "x \<in> set d")
    case True
    then show ?thesis using forgotten_ok_mono [of "sys_txns S" "sys_registered S" "sys_history S" x "sys_txns S" "[c]"] d(2)
      by (auto simp: S'_def)
  next
    case False
    then have "x \<in> set d'" using x by simp
    with d'(2) consider "ct_version x < ?mn" | e f where "?log = e @ x # f" "1024 \<le> length f" by blast
    then show ?thesis
    proof cases
      case 1
      have "ct_version x \<le> sys_registered S i" if "i < length (sys_txns S)" "tx_hold (sys_txns S ! i)" for i
      proof -
        have "?mn \<le> tx_snapshot (sys_txns S ! i)" using min_key_le [OF held_in_active [OF inv(1) nth_mem [OF that(1)] that(2)]] .
        also have "\<dots> \<le> sys_registered S i" using inv(2) that(1) by (simp add: versions_inv_def)
        finally show ?thesis using 1 by simp
      qed
      then show ?thesis by (simp add: forgotten_ok_def)
    next
      case 2
      have "sys_history S' = (d @ e) @ x # f" using d(1) 2(1) by (simp add: S'_def)
      moreover have "sorted_wrt (\<lambda>a b. ct_version a < ct_version b) (sys_history S')"
        using ver by (simp add: versions_inv_def)
      ultimately show ?thesis using newer_after [of "d @ e" x f] 2(2) by (simp add: forgotten_ok_def)
    qed
  qed
  then have "log_inv S'" using hist mx unfolding log_inv_def by (auto simp: S'_def)
  with cnt ver show ?thesis by (simp add: sys_inv_def)
qed

lemma commit_inv:
  assumes inv: "sys_inv S" and i: "i < length (sys_txns S)" and lim: "next_version (sys_tm S) < - 1"
    and com: "commit_unit (sys_tm S) (sys_txns S ! i) outcome = (r, m, t, u)"
  shows "sys_inv (S\<lparr>sys_tm := m, sys_txns := (sys_txns S)[i := t],
      sys_history := sys_history S @
        (if tx_writes (sys_txns S ! i) = [] \<or> Inr (next_version (sys_tm S)) \<noteq> r then []
         else [\<lparr>ct_version = next_version (sys_tm S),
                ct_write_set = set (map fst (tx_writes (sys_txns S ! i)))\<rparr>])\<rparr>)" (is "sys_inv ?S'")
proof -
  let ?t = "sys_txns S ! i" and ?m = "sys_tm S"
  have parts: "counts_inv S" "versions_inv S" "log_inv S" using inv by (auto simp: sys_inv_def)
  consider (empty) "tx_writes ?t = []" | (conflict) "tx_writes ?t \<noteq> []" "conflicts ?m ?t"
    | (failed) e where "tx_writes ?t \<noteq> []" "\<not> conflicts ?m ?t" "outcome = Inl e"
    | (success) "tx_writes ?t \<noteq> []" "\<not> conflicts ?m ?t" "outcome = Inr ()"
    by (cases outcome) auto
  then show ?thesis
  proof cases
    case empty
    then have rel: "tx_release ?m ?t = (m, t)" and S': "?S' = S\<lparr>sys_tm := m, sys_txns := (sys_txns S)[i := t]\<rparr>"
      using com by (auto simp: commit_unit_def tm_commit_def split: prod.splits)
    show ?thesis unfolding S' sys_inv_def using release_inv [OF parts(1,2) i rel] parts(3) by blast
  next
    case conflict
    then have "?S' = S" using com by (auto simp: commit_unit_def tm_commit_def)
    then show ?thesis using inv by simp
  next
    case failed
    then have "?S' = S\<lparr>sys_tm := ?m\<lparr>next_version := next_version ?m + 1\<rparr>\<rparr>"
      using com by (auto simp: commit_unit_def tm_commit_def Let_def)
    then show ?thesis
      using parts u64_Suc_less [OF lim]
      by (auto simp: sys_inv_def counts_inv_def versions_inv_def log_inv_def dest: order.strict_trans)
  next
    case success
    define c where "c = \<lparr>ct_version = next_version ?m, ct_write_set = set (map fst (tx_writes ?t))\<rparr>"
    define m2 where "m2 = ?m\<lparr>next_version := next_version ?m + 1,
       committed_log := trim_log (min_key (active ?m)) (max_committed_log_size ?m) (committed_log ?m @ [c]),
       visible_version := next_version ?m\<rparr>"
    define S1 where "S1 = S\<lparr>sys_tm := m2, sys_history := sys_history S @ [c]\<rparr>"
    have S1: "sys_inv S1"
      unfolding S1_def m2_def c_def by (rule publish_inv [OF inv lim])
    have rel: "tx_release (sys_tm S1) (sys_txns S1 ! i) = (m, t)"
      and S': "?S' = S1\<lparr>sys_tm := m, sys_txns := (sys_txns S1)[i := t]\<rparr>"
      using com success by (auto simp: commit_unit_def tm_commit_def Let_def S1_def m2_def c_def split: prod.splits)
    show ?thesis
      unfolding S' sys_inv_def using release_inv [of S1, OF _ _ _ rel] S1 i
      by (simp add: sys_inv_def) (simp add: S1_def)
  qed
qed

lemma sys_inv_reachable: "reachable S \<Longrightarrow> sys_inv S"
proof (induction rule: reachable.induct)
  case (start S)
  then obtain v where v: "v < - 1" "sys_tm S = recover_at_version v" "sys_txns S = []" "sys_history S = []" "sys_pending S = []"
    by (auto simp: initial_def)
  then show ?case
    using u64_Suc_less [OF v(1)]
    by (simp add: sys_inv_def counts_inv_def versions_inv_def log_inv_def recover_at_version_def
        active_inv_def hold_count_def holders_def)
next
  case (more S S')
  from more.hyps(2) show ?case
  proof cases
    case step_load
    then show ?thesis using load_inv [OF more.IH] by simp
  next
    case (step_register snapshot m t)
    then show ?thesis using register_inv [OF more.IH] by simp
  next
    case (step_put i k x)
    then show ?thesis using write_inv [OF more.IH] by (simp add: record_put_def)
  next
    case (step_delete i k)
    then show ?thesis using write_inv [OF more.IH] by (simp add: record_delete_def)
  next
    case (step_commit i outcome r m t u)
    show ?thesis unfolding step_commit(1) by (rule commit_inv [OF more.IH step_commit(2,4,5)])
  next
    case (step_finish i m t)
    have "counts_inv S" "versions_inv S" "log_inv S" using more.IH by (auto simp: sys_inv_def)
    then show ?thesis
      unfolding step_finish(1) sys_inv_def using release_inv [OF _ _ step_finish(2,3)] by blast
  qed
qed

section \<open>Properties of the transaction manager\<close>

definition write_keys :: "transaction \<Rightarrow> bytes set" where
  "write_keys t = fst ` set (tx_writes t)"

lemma conflicts_iff:
  "conflicts m t \<longleftrightarrow>
   (\<exists>c \<in> set (committed_log m). tx_snapshot t < ct_version c \<and> ct_write_set c \<inter> write_keys t \<noteq> {})"
  by (auto simp: conflicts_def list_ex_iff write_keys_def not_le) force+

lemma release_fields [simp]:
  "visible_version (fst (tx_release m t)) = visible_version m"
  "next_version (fst (tx_release m t)) = next_version m"
  by (simp_all add: tx_release_def)

text \<open>A begin that no other step interrupts.\<close>

lemma reachable_begin:
  assumes "reachable S" "Suc (length (sys_txns S)) < 2 ^ 64" "tm_begin (sys_tm S) = (m, t)"
  shows "reachable (S\<lparr>sys_tm := m, sys_txns := sys_txns S @ [t],
      sys_registered := (sys_registered S)(length (sys_txns S) := visible_version (sys_tm S))\<rparr>)"
  using reachable.more [OF reachable.more [OF assms(1) step_load] step_register [of _ "begin_load (sys_tm S)" m t]] assms(2,3)
  by (simp add: tm_begin_def)

text \<open>The conflict check sees every commit after the registration that 1024 later ones have not pushed out.\<close>

lemma recent_in_log:
  assumes "reachable S" "i < length (sys_txns S)" "tx_hold (sys_txns S ! i)"
    "c \<in> set (sys_history S)" "sys_registered S i < ct_version c" "newer_commits (sys_history S) c < 1024"
  shows "c \<in> set (committed_log (sys_tm S))"
proof -
  obtain d where d: "sys_history S = d @ committed_log (sys_tm S)"
      "\<forall>c \<in> set d. forgotten_ok (sys_txns S) (sys_registered S) (sys_history S) c"
    using sys_inv_reachable [OF assms(1)] by (auto simp: sys_inv_def log_inv_def)
  have "c \<notin> set d" using d(2) assms(2,3,5,6) unfolding forgotten_ok_def by (metis not_le)
  then show ?thesis using d(1) assms(4) by auto
qed

lemma recent_conflict:
  assumes "reachable S" "i < length (sys_txns S)" "tx_hold (sys_txns S ! i)"
    "c \<in> set (sys_history S)" "sys_registered S i < ct_version c" "newer_commits (sys_history S) c < 1024"
    "ct_write_set c \<inter> write_keys (sys_txns S ! i) \<noteq> {}"
  shows "conflicts (sys_tm S) (sys_txns S ! i)"
proof -
  have "tx_snapshot (sys_txns S ! i) \<le> sys_registered S i"
    using sys_inv_reachable [OF assms(1)] assms(2) by (simp add: sys_inv_def versions_inv_def)
  then have "tx_snapshot (sys_txns S ! i) < ct_version c" using assms(5) by (rule order.strict_trans1)
  then show ?thesis using recent_in_log [OF assms(1-6)] assms(7) unfolding conflicts_iff by blast
qed

text \<open>
  C22: first committer wins, with the two steps of begin apart. In every reachable state, a transaction
  that commits writes gets a version above every earlier commit and above the version visible at its registration,
  and that version becomes the visible one. A commit after the registration, with fewer than 1024 commits
  after it, that wrote one of the keys of the transaction makes the commit fail with a write conflict, with no
  write applied and the manager unchanged; and a conflict is only reported when some commit after the
  snapshot wrote one of the keys.
\<close>

theorem first_committer_wins:
  assumes "reachable S" and "i < length (sys_txns S)" and "tx_hold (sys_txns S ! i)"
    and "tx_writes (sys_txns S ! i) \<noteq> []"
    and "tm_commit (sys_tm S) (sys_txns S ! i) apply_writes s = (r, m', t', s')"
  shows "(r = Inr v \<longrightarrow> v = next_version (sys_tm S) \<and> visible_version m' = v \<and>
        sys_registered S i < v \<and> (\<forall>c \<in> set (sys_history S). ct_version c < v)) \<and>
    ((\<exists>c \<in> set (sys_history S). sys_registered S i < ct_version c \<and> newer_commits (sys_history S) c < 1024 \<and>
        ct_write_set c \<inter> write_keys (sys_txns S ! i) \<noteq> {}) \<longrightarrow>
      r = Inl WriteConflict \<and> m' = sys_tm S \<and> s' = s) \<and>
    (conflicts (sys_tm S) (sys_txns S ! i) \<longrightarrow> r = Inl WriteConflict \<and> m' = sys_tm S \<and> s' = s \<and>
        (\<exists>c \<in> set (sys_history S). tx_snapshot (sys_txns S ! i) < ct_version c \<and>
           ct_write_set c \<inter> write_keys (sys_txns S ! i) \<noteq> {}))"
proof (intro conjI impI)
  let ?t = "sys_txns S ! i" and ?m = "sys_tm S"
  have inv: "versions_inv S" "log_inv S"
    using sys_inv_reachable [OF assms(1)] by (simp_all add: sys_inv_def)
  have lost: "r = Inl WriteConflict \<and> m' = ?m \<and> s' = s" if "conflicts ?m ?t"
    using that assms(4,5) by (auto simp: tm_commit_def)
  {
    assume r: "r = Inr v"
    then have v: "v = next_version ?m \<and> visible_version m' = v"
      using assms(4,5) by (auto simp: tm_commit_def Let_def tx_release_def split: prod.splits sum.splits if_splits)
    have "sys_registered S i \<le> visible_version ?m" "visible_version ?m < next_version ?m"
      "\<forall>c \<in> set (sys_history S). ct_version c \<le> visible_version ?m"
      using inv(1) assms(2) by (auto simp: versions_inv_def)
    then show "v = next_version ?m" "visible_version m' = v" "sys_registered S i < v" "\<forall>c \<in> set (sys_history S). ct_version c < v"
      using v by (auto dest: order.strict_trans1)
  next
    assume "\<exists>c \<in> set (sys_history S). sys_registered S i < ct_version c \<and> newer_commits (sys_history S) c < 1024 \<and>
        ct_write_set c \<inter> write_keys ?t \<noteq> {}"
    then have "conflicts ?m ?t" using recent_conflict [OF assms(1-3)] by blast
    then show "r = Inl WriteConflict" "m' = ?m" "s' = s" using lost by blast+
  next
    assume c: "conflicts ?m ?t"
    then show "r = Inl WriteConflict" "m' = ?m" "s' = s" using lost by blast+
    show "\<exists>c \<in> set (sys_history S). tx_snapshot ?t < ct_version c \<and> ct_write_set c \<inter> write_keys ?t \<noteq> {}"
      using c inv(2) by (auto simp: conflicts_iff log_inv_def)
  }
qed

text \<open>Two transactions that both start at version 0 and write the same key.\<close>

definition two_writers :: sys where
  "two_writers =
     (let (m1, a) = tm_begin (recover_at_version 0); (m2, b) = tm_begin m1;
          b = record_put b [107] [2];
          (r, m3, a', u) = commit_unit m2 (record_put a [107] [1]) (Inr ())
      in \<lparr>sys_tm = m3, sys_txns = [a', b],
          sys_history = [\<lparr>ct_version = 1, ct_write_set = {[107]}\<rparr>], sys_pending = [], sys_registered = (\<lambda>_. 0)\<rparr>)"

lemma one_less_max: "(1 :: u64) < - 1"
  by (simp add: word_less_nat_alt unsigned_minus_1_eq_mask mask_eq_exp_minus_1)

lemma two_writers_reachable: "reachable two_writers"
proof -
  define S0 where "S0 = \<lparr>sys_tm = recover_at_version 0, sys_txns = [], sys_history = [], sys_pending = [], sys_registered = (\<lambda>_. 0)\<rparr>"
  define S1 where "S1 = S0\<lparr>sys_tm := fst (tm_begin (sys_tm S0)), sys_txns := sys_txns S0 @ [snd (tm_begin (sys_tm S0))]\<rparr>"
  define S2 where "S2 = S1\<lparr>sys_tm := fst (tm_begin (sys_tm S1)), sys_txns := sys_txns S1 @ [snd (tm_begin (sys_tm S1))]\<rparr>"
  define S3 where "S3 = S2\<lparr>sys_txns := (sys_txns S2)[0 := record_put (sys_txns S2 ! 0) [107] [1]]\<rparr>"
  define S4 where "S4 = S3\<lparr>sys_txns := (sys_txns S3)[1 := record_put (sys_txns S3 ! 1) [107] [2]]\<rparr>"
  note defs = S0_def S1_def S2_def S3_def S4_def tm_begin_def begin_load_def begin_register_def recover_at_version_def
  have zero: "(\<lambda>_. 0 :: u64)(n := 0) = (\<lambda>_. 0)" for n :: nat by auto
  have "reachable S0" by (rule reachable.start) (auto simp: initial_def S0_def word_gt_0 intro!: exI [of _ "0 :: u64"])
  from reachable_begin [OF this] have S1: "reachable S1" by (simp add: defs zero)
  from reachable_begin [OF this] have "reachable S2" by (simp add: defs zero)
  then have "reachable S3" by (rule reachable.more) (simp only: S3_def, rule step_put, simp add: S2_def S1_def)
  then have R4: "reachable S4" by (rule reachable.more) (simp only: S4_def, rule step_put, simp add: S3_def S2_def S1_def S0_def)
  obtain r m t u where com: "commit_unit (sys_tm S4) (sys_txns S4 ! 0) (Inr ()) = (r, m, t, u)"
    by (metis prod_cases4)
  have "step S4 (S4\<lparr>sys_tm := m, sys_txns := (sys_txns S4)[0 := t],
      sys_history := sys_history S4 @
        (if tx_writes (sys_txns S4 ! 0) = [] \<or> Inr (next_version (sys_tm S4)) \<noteq> r then []
         else [\<lparr>ct_version = next_version (sys_tm S4),
                ct_write_set = set (map fst (tx_writes (sys_txns S4 ! 0)))\<rparr>])\<rparr>)" (is "step S4 ?S5")
    by (rule step_commit [OF _ _ _ com]) (simp_all add: defs record_put_def upsert_def one_less_max)
  moreover have "two_writers = ?S5"
    using com
    by (auto simp: two_writers_def defs record_put_def upsert_def commit_unit_def tm_commit_def conflicts_def
        tx_release_def register_hold_def Let_def)
  ultimately show ?thesis using R4 reachable.more by metis
qed

lemmas two_writers_eval = two_writers_def tm_begin_def begin_load_def begin_register_def
  recover_at_version_def record_put_def upsert_def commit_unit_def tm_commit_def conflicts_def
  tx_release_def register_hold_def release_hold_def Let_def trim_log_def min_key_def

theorem first_committer_wins_witness:
  "\<exists>r m' t' s'. tm_commit (sys_tm two_writers) (sys_txns two_writers ! 1) (\<lambda>v ws s. (Inr (), s + 1)) (0 :: nat) =
      (r, m', t', s') \<and> r = Inl WriteConflict \<and> m' = sys_tm two_writers \<and> s' = 0"
proof -
  obtain r m' t' s' where com: "tm_commit (sys_tm two_writers) (sys_txns two_writers ! 1)
      (\<lambda>v ws s. (Inr (), s + 1)) (0 :: nat) = (r, m', t', s')"
    by (metis prod_cases4)
  have l: "1 < length (sys_txns two_writers)" and h: "tx_hold (sys_txns two_writers ! 1)"
    and w: "tx_writes (sys_txns two_writers ! 1) \<noteq> []"
    and c: "\<exists>c \<in> set (sys_history two_writers). sys_registered two_writers 1 < ct_version c \<and>
        newer_commits (sys_history two_writers) c < 1024 \<and> ct_write_set c \<inter> write_keys (sys_txns two_writers ! 1) \<noteq> {}"
    by (simp_all add: two_writers_eval newer_commits_def write_keys_def)
  have res: "r = Inl WriteConflict \<and> m' = sys_tm two_writers \<and> s' = 0"
    by (rule mp [OF conjunct1 [OF conjunct2 [OF first_committer_wins [OF two_writers_reachable l h w com]]] c])
  show ?thesis
    by (rule exI [of _ r], rule exI [of _ m'], rule exI [of _ t'], rule exI [of _ s'], rule conjI [OF com res])
qed

text \<open>
  the garbage-collection floor is safe and exact. In every reachable state
  \<^verbatim>\<open>min_active_snapshot\<close> is not above the snapshot of any transaction that still holds it, it is the
  snapshot of one of them when there is one, and it is \<^verbatim>\<open>u64::MAX\<close> when there is none: no finished or
  dropped transaction pins it, and none of several transactions at one version releases the others.
\<close>

theorem snapshot_floor_exact:
  assumes "reachable S"
  shows "(\<forall>t \<in> set (sys_txns S). tx_hold t \<longrightarrow> min_active_snapshot (sys_tm S) \<le> tx_snapshot t) \<and>
    (if \<exists>t \<in> set (sys_txns S). tx_hold t
     then \<exists>t \<in> set (sys_txns S). tx_hold t \<and> tx_snapshot t = min_active_snapshot (sys_tm S)
     else min_active_snapshot (sys_tm S) = - 1)"
proof -
  let ?a = "active (sys_tm S)"
  have inv: "counts_inv S" using sys_inv_reachable [OF assms] by (simp add: sys_inv_def)
  have held: "s \<in> fst ` set ?a \<longleftrightarrow> (\<exists>t \<in> set (sys_txns S). tx_hold t \<and> tx_snapshot t = s)" for s
    using inv hold_count_pos [of ?a s] by (auto simp: counts_inv_def holders_def filter_empty_conv)
  show ?thesis
  proof (cases "?a = []")
    case True
    then have "\<not> (\<exists>t \<in> set (sys_txns S). tx_hold t)" using held by auto
    with True show ?thesis by (auto simp: min_active_snapshot_def min_key_def)
  next
    case False
    with min_key_in [OF False] held min_key_le [of _ ?a] show ?thesis
      by (simp add: min_active_snapshot_def) metis
  qed
qed

theorem snapshot_floor_exact_witness:
  "\<exists>t \<in> set (sys_txns two_writers). tx_hold t \<and> tx_snapshot t = min_active_snapshot (sys_tm two_writers)"
proof -
  have "\<exists>t \<in> set (sys_txns two_writers). tx_hold t" by (simp add: two_writers_eval)
  then show ?thesis
    using conjunct2 [OF snapshot_floor_exact [OF two_writers_reachable]] by (simp only: if_True)
qed

definition buffer_all :: "transaction \<Rightarrow> (bytes \<times> memval) list \<Rightarrow> transaction" where
  "buffer_all t ops = foldl (\<lambda>t (k, x). case x of Some v \<Rightarrow> record_put t k v | None \<Rightarrow> record_delete t k) t ops"

lemma buffer_all_Nil [simp]: "buffer_all t [] = t"
  by (simp add: buffer_all_def)

lemma buffer_all_Cons: "buffer_all t ((k, x) # ops) = buffer_all (upsert t k x) ops"
  by (simp add: buffer_all_def record_put_def record_delete_def split: option.splits)

lemma buffer_all_inv:
  "buffer_inv t \<Longrightarrow> buffer_inv (buffer_all t ops) \<and> map_of (tx_writes (buffer_all t ops)) = map_of (tx_writes t) ++ map_of (rev ops)"
proof (induction ops arbitrary: t)
  case (Cons op ops)
  obtain k x where op: "op = (k, x)" by (cases op)
  have u: "buffer_inv (upsert t k x)" "map_of (tx_writes (upsert t k x)) = (map_of (tx_writes t))(k \<mapsto> x)"
    using upsert_inv [OF Cons.prems] by auto
  show ?case using Cons.IH [OF u(1)] unfolding op buffer_all_Cons u(2)
    by (auto simp: map_add_def fun_eq_iff split: option.splits)
qed simp

lemma buffer_all_keeps [simp]:
  "tx_hold (buffer_all t ops) = tx_hold t" "tx_snapshot (buffer_all t ops) = tx_snapshot t"
  by (induction ops arbitrary: t) (auto simp: buffer_all_Cons)

text \<open>
  the write buffer is last-write-wins. After any sequence of buffered puts and deletes the
  buffer holds each written key once, with the value (or tombstone) of its last write.
\<close>

theorem write_buffer_last_wins:
  "let t = buffer_all (snd (tm_begin m)) ops in
   distinct (map fst (tx_writes t)) \<and> map_of (tx_writes t) = map_of (rev ops)"
proof -
  have "buffer_inv (snd (tm_begin m))" "tx_writes (snd (tm_begin m)) = []"
    by (simp_all add: tm_begin_def buffer_inv_fresh) (simp add: begin_register_def)
  then show ?thesis using buffer_all_inv [of "snd (tm_begin m)" ops] by (simp add: buffer_inv_def Let_def)
qed

text \<open>Steps that publish no commit leave the visible version.\<close>

lemma step_quiet:
  assumes "step S S'" "sys_history S' = sys_history S"
  shows "visible_version (sys_tm S') = visible_version (sys_tm S)"
  using assms(1)
proof cases
  case (step_commit i outcome r m t u)
  then have "tx_writes (sys_txns S ! i) = [] \<or> Inr (next_version (sys_tm S)) \<noteq> r" using assms(2) by (auto split: if_split_asm)
  then show ?thesis using step_commit(1,5)
    by (auto simp: commit_unit_def tm_commit_def Let_def tx_release_def split: if_split_asm sum.split_asm prod.split_asm)
qed (auto simp: begin_register_def tx_release_def split: if_split_asm)

text \<open>
  a failed apply burns its version. When the callback fails, the commit returns its error, the
  visible version and the conflict log stay as they were, and the next commit version has moved on
  by one: no later transaction reuses the version of a batch that may already be in the log.
\<close>

theorem failed_apply_burns_version:
  assumes "tx_writes t \<noteq> []" and "\<not> conflicts m t" and "apply_writes (next_version m) (tx_writes t) s = (Inl e, s')"
  shows "tm_commit m t apply_writes s = (Inl e, m\<lparr>next_version := next_version m + 1\<rparr>, t, s')"
  using assms by (simp add: tm_commit_def Let_def)

theorem failed_apply_burns_version_witness:
  "let t = record_put (snd (tm_begin tm_new)) [107] [1] in
   tm_commit tm_new t (\<lambda>v ws s. (Inl Io, s)) (0 :: nat) =
     (Inl Io, tm_new\<lparr>next_version := next_version tm_new + 1\<rparr>, t, 0)"
  unfolding Let_def
  by (rule failed_apply_burns_version)
     (simp_all add: tm_new_def tm_begin_def begin_load_def begin_register_def record_put_def upsert_def conflicts_def)

section \<open>A begin that commits interrupt\<close>

text \<open>A transaction that begins, writes one key and commits.\<close>

definition write_one :: "manager \<Rightarrow> bytes \<Rightarrow> manager" where
  "write_one m k = (let (m1, t) = tm_begin m; (r, m2, t', u) = commit_unit m1 (record_put t k [0]) (Inr ()) in m2)"

text \<open>No transaction is active, and the log holds nothing newer than the visible version.\<close>

definition idle :: "manager \<Rightarrow> bool" where
  "idle m \<longleftrightarrow> active m = [] \<and> visible_version m < next_version m \<and>
     (\<forall>c \<in> set (committed_log m). ct_version c \<le> visible_version m) \<and> 2 \<le> max_committed_log_size m"

lemma write_one_idle:
  assumes "idle m" "next_version m < - 1"
  shows "write_one m k = m\<lparr>next_version := next_version m + 1, visible_version := next_version m,
      committed_log := trim_log (visible_version m) (max_committed_log_size m)
        (committed_log m @ [\<lparr>ct_version = next_version m, ct_write_set = {k}\<rparr>])\<rparr>"
    and "idle (write_one m k)"
proof -
  have "\<not> list_ex (\<lambda>c. \<not> ct_version c \<le> visible_version m \<and> k \<in> ct_write_set c) (committed_log m)"
    using assms(1) by (auto simp: idle_def list_ex_iff)
  then show e: "write_one m k = m\<lparr>next_version := next_version m + 1, visible_version := next_version m,
      committed_log := trim_log (visible_version m) (max_committed_log_size m)
        (committed_log m @ [\<lparr>ct_version = next_version m, ct_write_set = {k}\<rparr>])\<rparr>"
    using assms(1) by (simp add: write_one_def idle_def tm_begin_def begin_load_def begin_register_def register_hold_def record_put_def
        upsert_def commit_unit_def tm_commit_def conflicts_def Let_def tx_release_def release_hold_def min_key_def)
  show "idle (write_one m k)"
    using assms(1) u64_Suc_less [OF assms(2)] trim_log_set unfolding e idle_def by fastforce
qed

lemma unat_max: "unat (- 1 :: u64) = 18446744073709551615"
  by (simp add: unsigned_minus_1_eq_mask mask_eq_exp_minus_1)

lemma trim_log_snoc:
  assumes "\<not> ct_version c < mn" "1 \<le> mx"
  shows "\<exists>l. trim_log mn mx (log @ [c]) = l @ [c] \<and> set l \<subseteq> set log"
proof -
  have "\<exists>e. dropWhile (\<lambda>c. ct_version c < mn) (log @ [c]) = e @ [c] \<and> set e \<subseteq> set log"
    using assms(1) by (induction log) auto
  then obtain e where e: "dropWhile (\<lambda>c. ct_version c < mn) (log @ [c]) = e @ [c]" "set e \<subseteq> set log" by blast
  then show ?thesis using assms(2) set_drop_subset [of "Suc (length e) - mx" e] by (auto simp: trim_log_def Let_def)
qed

lemma trim_log_pair:
  assumes "\<forall>x \<in> set l. ct_version x < mn" "\<not> ct_version c < mn" "2 \<le> mx"
  shows "trim_log mn mx (l @ [c, c']) = [c, c']"
  using assms by (simp add: trim_log_def Let_def dropWhile_append2)

text \<open>
  C29: the two steps of \<^verbatim>\<open>begin\<close> are not atomic. Whatever the manager, when no transaction is active:
  a transaction that loads the visible version and is registered only after another one has committed a write to
  its key and two more have committed, of other keys, commits its own write to that key without a conflict. The entry it
  needed was trimmed from the log before it was registered.
\<close>

theorem begin_race_misses_conflict:
  assumes "idle m" "unat (next_version m) + 4 < 2 ^ 64" "k' \<noteq> k" "k'' \<noteq> k"
    "begin_register (write_one (write_one (write_one m k) k') k'') (begin_load m) = (m', t)"
    "commit_unit m' (record_put t k x) (Inr ()) = (r, m'', t', u)"
  shows "r = Inr (next_version m + 3)"
proof -
  let ?v = "next_version m"
  have lim: "?v < - 1" "?v + 1 < - 1" "?v + 1 + 1 < - 1" "?v < ?v + 1" "?v + 1 < ?v + 1 + 1"
    using assms(2) by (simp_all add: word_less_nat_alt unat_word_ariths unat_max)
  define m1 where "m1 = write_one m k"
  define m2 where "m2 = write_one m1 k'"
  define m3 where "m3 = write_one m2 k''"
  let ?c1 = "\<lparr>ct_version = ?v, ct_write_set = {k}\<rparr>" and ?c2 = "\<lparr>ct_version = ?v + 1, ct_write_set = {k'}\<rparr>"
  let ?c3 = "\<lparr>ct_version = ?v + 1 + 1, ct_write_set = {k''}\<rparr>"
  have old: "ct_version c < ?v" if "c \<in> set (committed_log m)" for c
    using assms(1) that by (auto simp: idle_def dest: order.strict_trans1)
  obtain l where l: "committed_log m1 = l @ [?c1]" "set l \<subseteq> set (committed_log m)"
    using write_one_idle(1) [OF assms(1) lim(1), of k] assms(1) trim_log_snoc [of ?c1 "visible_version m" "max_committed_log_size m" "committed_log m"]
    by (auto simp: m1_def idle_def dest: order.asym)
  have 1: "idle m1" "next_version m1 = ?v + 1" "visible_version m1 = ?v"
    using write_one_idle [OF assms(1) lim(1), of k] by (simp_all add: m1_def)
  have "committed_log m2 = trim_log ?v (max_committed_log_size m1) (l @ [?c1, ?c2])"
    using write_one_idle(1) [OF 1(1), of k'] 1 l(1) lim(2) by (simp add: m2_def)
  also have "\<dots> = [?c1, ?c2]" using l(2) old 1(1) by (intro trim_log_pair) (auto simp: idle_def)
  finally have 2: "committed_log m2 = [?c1, ?c2]" "idle m2" "next_version m2 = ?v + 1 + 1" "visible_version m2 = ?v + 1"
    using write_one_idle [OF 1(1), of k'] 1 lim(2) by (simp_all add: m2_def)
  have "committed_log m3 = trim_log (?v + 1) (max_committed_log_size m2) ([?c1] @ [?c2, ?c3])"
    using write_one_idle(1) [OF 2(2), of k''] 2 lim(3) by (simp add: m3_def)
  also have "\<dots> = [?c2, ?c3]" using lim(4) 2(2) by (intro trim_log_pair) (auto simp: idle_def)
  finally have 3: "committed_log m3 = [?c2, ?c3]" "next_version m3 = ?v + 1 + 1 + 1"
    using write_one_idle(1) [OF 2(2), of k''] 2 lim(3) by (simp_all add: m3_def)
  have "committed_log m' = [?c2, ?c3]" "next_version m' = ?v + 3" "tx_writes (record_put t k x) = [(k, Some x)]"
    using assms(5) 3 by (auto simp: m1_def [symmetric] m2_def [symmetric] m3_def [symmetric] begin_register_def record_put_def upsert_def)
  then show ?thesis using assms(3,4,6) by (auto simp: commit_unit_def tm_commit_def conflicts_def Let_def split: prod.splits)
qed

theorem begin_race_misses_conflict_witness:
  "\<exists>m' t r m'' t' u.
     begin_register (write_one (write_one (write_one tm_new [107]) [108]) [109]) (begin_load tm_new) = (m', t) \<and>
     commit_unit m' (record_put t [107] [1]) (Inr ()) = (r, m'', t', u) \<and> r = Inr (next_version tm_new + 3)"
proof -
  obtain m' t where b: "begin_register (write_one (write_one (write_one tm_new [107]) [108]) [109]) (begin_load tm_new) = (m', t)" by fastforce
  obtain r m'' t' u where c: "commit_unit m' (record_put t [107] [1]) (Inr ()) = (r, m'', t', u)" by (metis prod_cases4)
  have "r = Inr (next_version tm_new + 3)"
    by (rule begin_race_misses_conflict [OF _ _ _ _ b c]) (simp_all add: idle_def tm_new_def)
  then show ?thesis using b c by blast
qed

end
