(* ===== verification/Lock.thy ===== *)
theory Lock
  imports Prelude
begin

text \<open>
  The single-writer guard of \<^verbatim>\<open>rhypedb-storage/src/lock.rs\<close>: the owner token stamped into the \<^verbatim>\<open>LOCK\<close>
  file, its re-check at destructive boundaries and the poison flag. The advisory \<^verbatim>\<open>flock\<close>, the random
  token, the process id and the host name come from the operating system and are arguments; the
  file is its text (\<open>None\<close> when it cannot be read). \<^verbatim>\<open>trim\<close> is modelled on ASCII white space.
\<close>

type_synonym u128 = "128 word"

section \<open>The text of the lock file\<close>

definition hex_chars :: string where
  "hex_chars = ''0123456789abcdef''"

text \<open>\<^verbatim>\<open>{:0kx}\<close>: the last \<open>k\<close> hexadecimal digits.\<close>

fun hex_fixed :: "nat \<Rightarrow> nat \<Rightarrow> string" where
  "hex_fixed 0 n = []"
| "hex_fixed (Suc k) n = hex_fixed k (n div 16) @ [hex_chars ! (n mod 16)]"

definition lock_metadata :: "u128 \<Rightarrow> string \<Rightarrow> string \<Rightarrow> string" where
  "lock_metadata owner_id pid host =
     ''owner_id='' @ hex_fixed 32 (unat owner_id) @ [CHR 0x0A] @ ''pid='' @ pid @ [CHR 0x0A] @
     ''host='' @ host @ [CHR 0x0A]"

text \<open>\<^verbatim>\<open>str::lines\<close>: without the line terminators, a trailing carriage return is dropped.\<close>

definition strip_cr :: "string \<Rightarrow> string" where
  "strip_cr l = (if l \<noteq> [] \<and> last l = CHR 0x0D then butlast l else l)"

function str_lines :: "string \<Rightarrow> string list" where
  "str_lines s = (if s = [] then []
     else strip_cr (takeWhile (\<lambda>c. c \<noteq> CHR 0x0A) s) #
          str_lines (drop 1 (dropWhile (\<lambda>c. c \<noteq> CHR 0x0A) s)))"
  by pat_completeness auto
termination
proof (relation "measure length")
  fix s :: string assume "s \<noteq> []"
  then have "length (drop 1 (dropWhile (\<lambda>c. c \<noteq> CHR 0x0A) s)) < length s"
    using length_dropWhile_le [of "\<lambda>c. c \<noteq> CHR 0x0A" s] length_greater_0_conv [of s]
    unfolding length_drop by linarith
  then show "(drop 1 (dropWhile (\<lambda>c. c \<noteq> CHR 0x0A) s), s) \<in> measure length" by simp
qed simp

declare str_lines.simps [simp del]

definition is_whitespace :: "char \<Rightarrow> bool" where
  "is_whitespace c \<longleftrightarrow> c \<in> {CHR '' '', CHR 0x09, CHR 0x0A, CHR 0x0B, CHR 0x0C, CHR 0x0D}"

definition str_trim :: "string \<Rightarrow> string" where
  "str_trim s = rev (dropWhile is_whitespace (rev (dropWhile is_whitespace s)))"

definition strip_prefix_str :: "string \<Rightarrow> string \<Rightarrow> string option" where
  "strip_prefix_str p s = (if take (length p) s = p then Some (drop (length p) s) else None)"

text \<open>\<^verbatim>\<open>char::to_digit(16)\<close> and \<^verbatim>\<open>u128::from_str_radix(_, 16)\<close>\<close>

definition hex_value :: "char \<Rightarrow> nat option" where
  "hex_value c = (let n = of_char c :: nat in
     if 48 \<le> n \<and> n \<le> 57 then Some (n - 48)
     else if 97 \<le> n \<and> n \<le> 102 then Some (n - 87)
     else if 65 \<le> n \<and> n \<le> 70 then Some (n - 55)
     else None)"

fun parse_hex :: "nat \<Rightarrow> string \<Rightarrow> nat option" where
  "parse_hex acc [] = Some acc"
| "parse_hex acc (c # s) = (case hex_value c of
      None \<Rightarrow> None
    | Some d \<Rightarrow> if acc * 16 + d < 2 ^ 128 then parse_hex (acc * 16 + d) s else None)"

definition u128_from_str_radix16 :: "string \<Rightarrow> u128 option" where
  "u128_from_str_radix16 s = (if s = [] \<or> s = ''+'' \<or> s = ''-'' then None
     else map_option of_nat (parse_hex 0 (if hd s = CHR ''+'' then tl s else s)))"

fun find_owner_line :: "string list \<Rightarrow> u128 option" where
  "find_owner_line [] = None"
| "find_owner_line (l # ls) = (case strip_prefix_str ''owner_id='' l of
      Some rest \<Rightarrow> u128_from_str_radix16 (str_trim rest)
    | None \<Rightarrow> find_owner_line ls)"

definition read_owner_id :: "string option \<Rightarrow> u128 option" where
  "read_owner_id lock_file = (case lock_file of None \<Rightarrow> None | Some s \<Rightarrow> find_owner_line (str_lines s))"

fun holder_fields :: "string option \<times> string option \<Rightarrow> string list \<Rightarrow> string option \<times> string option" where
  "holder_fields ph [] = ph"
| "holder_fields ph (l # ls) = (case strip_prefix_str ''pid='' l of
      Some rest \<Rightarrow> holder_fields (Some (str_trim rest), snd ph) ls
    | None \<Rightarrow> (case strip_prefix_str ''host='' l of
        Some rest \<Rightarrow> holder_fields (fst ph, Some (str_trim rest)) ls
      | None \<Rightarrow> holder_fields ph ls))"

definition read_holder_summary :: "string option \<Rightarrow> string option" where
  "read_holder_summary lock_file = (case lock_file of None \<Rightarrow> None
     | Some s \<Rightarrow> (case holder_fields (None, None) (str_lines s) of
         (Some p, Some h) \<Rightarrow> Some (''held by pid '' @ p @ '' on host '' @ h)
       | (Some p, None) \<Rightarrow> Some (''held by pid '' @ p)
       | _ \<Rightarrow> None))"

section \<open>The guard\<close>

record data_dir_guard =
  g_owner_id :: u128
  g_fenced :: bool

text \<open>\<^verbatim>\<open>rand::random::<u128>() | 1\<close>\<close>

definition random_owner_id :: "u128 \<Rightarrow> u128" where
  "random_owner_id r = or r 1"

text \<open>
  \<^verbatim>\<open>acquire\<close>: the result and the text of the lock file afterwards. \<open>locked\<close> is the outcome of the
  \<^verbatim>\<open>flock\<close> call; \<open>write_failed\<close> is \<open>None\<close> when writing the metadata succeeds, else the text it leaves.
\<close>

definition guard_acquire ::
    "error + bool \<Rightarrow> string option \<Rightarrow> u128 \<Rightarrow> string \<Rightarrow> string \<Rightarrow> string option \<Rightarrow>
     (error + data_dir_guard) \<times> string option" where
  "guard_acquire locked write_failed rnd pid host lock_file = (case locked of
      Inl e \<Rightarrow> (Inl e, lock_file)
    | Inr False \<Rightarrow>
        (Inl (DataDirLocked (case read_holder_summary lock_file of
            Some d \<Rightarrow> d | None \<Rightarrow> ''held by another process'')), lock_file)
    | Inr True \<Rightarrow> (case write_failed of
        Some t \<Rightarrow> (Inl Io, Some t)
      | None \<Rightarrow> let owner_id = random_owner_id rnd
           in (Inr \<lparr>g_owner_id = owner_id, g_fenced = False\<rparr>, Some (lock_metadata owner_id pid host))))"

definition ownership_lost_err :: error where
  "ownership_lost_err = DataDirOwnershipLost ''another process stamped a different owner token''"

definition check_fenced :: "data_dir_guard \<Rightarrow> error + unit" where
  "check_fenced g = (if g_fenced g then Inl ownership_lost_err else Inr ())"

definition verify_owner :: "data_dir_guard \<Rightarrow> string option \<Rightarrow> (error + unit) \<times> data_dir_guard" where
  "verify_owner g lock_file =
     (if g_fenced g then (Inl ownership_lost_err, g)
      else if read_owner_id lock_file = Some (g_owner_id g) then (Inr (), g)
      else (Inl ownership_lost_err, g\<lparr>g_fenced := True\<rparr>))"

section \<open>The token round-trips\<close>

lemma hex_value_char: "d < 16 \<Longrightarrow> hex_value (hex_chars ! d) = Some d"
proof -
  assume "d < 16"
  then have "d \<in> set [0..<16]" by simp
  moreover have "\<forall>d \<in> set [0..<16]. hex_value (hex_chars ! d) = Some d" by code_simp
  ultimately show ?thesis by blast
qed

lemma hex_char_plain:
  "d < 16 \<Longrightarrow> hex_chars ! d \<noteq> CHR 0x0A \<and> hex_chars ! d \<noteq> CHR 0x0D \<and> \<not> is_whitespace (hex_chars ! d) \<and> hex_chars ! d \<noteq> CHR ''+''"
proof -
  assume "d < 16"
  moreover have "length hex_chars = 16" by (simp add: hex_chars_def)
  ultimately have "hex_chars ! d \<in> set hex_chars" by simp
  then show ?thesis by (auto simp: hex_chars_def is_whitespace_def)
qed

lemma length_hex_fixed [simp]: "length (hex_fixed k n) = k"
  by (induction k arbitrary: n) auto

lemma hex_fixed_chars:
  "c \<in> set (hex_fixed k n) \<Longrightarrow> c \<noteq> CHR 0x0A \<and> c \<noteq> CHR 0x0D \<and> \<not> is_whitespace c \<and> c \<noteq> CHR ''+''"
  by (induction k arbitrary: n) (auto simp: hex_char_plain)

lemma parse_hex_append:
  "parse_hex acc (a @ b) = (case parse_hex acc a of None \<Rightarrow> None | Some m \<Rightarrow> parse_hex m b)"
  by (induction acc a rule: parse_hex.induct) (auto split: option.splits)

lemma parse_hex_fixed:
  "n < 16 ^ k \<Longrightarrow> k \<le> 32 \<Longrightarrow> parse_hex 0 (hex_fixed k n) = Some n"
proof (induction k arbitrary: n)
  case (Suc k)
  have "n div 16 < 16 ^ k" using Suc.prems by (simp add: less_mult_imp_div_less mult.commute)
  with Suc have "parse_hex 0 (hex_fixed k (n div 16)) = Some (n div 16)" by simp
  moreover have "n div 16 * 16 + n mod 16 = n" by simp
  moreover have "n < 2 ^ 128"
  proof -
    have "n < (16 :: nat) ^ Suc k" using Suc.prems by simp
    also have "\<dots> \<le> 16 ^ 32" using Suc.prems(2) by (intro power_increasing) simp_all
    finally show ?thesis by simp
  qed
  ultimately show ?case by (simp add: parse_hex_append hex_value_char)
qed simp

lemma trim_id: "\<forall>c \<in> set s. \<not> is_whitespace c \<Longrightarrow> str_trim s = s"
proof -
  assume a: "\<forall>c \<in> set s. \<not> is_whitespace c"
  have id: "dropWhile is_whitespace xs = xs" if "\<forall>c \<in> set xs. \<not> is_whitespace c" for xs
    using that by (cases xs) auto
  show ?thesis using a id [of s] id [of "rev s"] by (simp add: str_trim_def)
qed

lemma first_line:
  assumes "\<forall>c \<in> set l. c \<noteq> CHR 0x0A \<and> c \<noteq> CHR 0x0D" "l \<noteq> []"
  shows "str_lines (l @ CHR 0x0A # rest) = l # str_lines rest"
proof -
  have "takeWhile (\<lambda>c. c \<noteq> CHR 0x0A) (l @ CHR 0x0A # rest) = l"
    "dropWhile (\<lambda>c. c \<noteq> CHR 0x0A) (l @ CHR 0x0A # rest) = CHR 0x0A # rest"
    using assms(1) by (induction l) auto
  moreover have "strip_cr l = l" using assms by (auto simp: strip_cr_def)
  ultimately show ?thesis by (subst str_lines.simps) simp
qed

lemma read_owner_stamp: "read_owner_id (Some (lock_metadata w pid host)) = Some w"
proof -
  let ?h = "hex_fixed 32 (unat w)" and ?l = "''owner_id='' @ hex_fixed 32 (unat w)"
  have chars: "\<forall>c \<in> set ?l. c \<noteq> CHR 0x0A \<and> c \<noteq> CHR 0x0D" using hex_fixed_chars by auto
  have "str_lines (lock_metadata w pid host) =
      ?l # str_lines (''pid='' @ pid @ [CHR 0x0A] @ ''host='' @ host @ [CHR 0x0A])"
    using first_line [OF chars] by (simp add: lock_metadata_def)
  moreover have "str_trim ?h = ?h" by (rule trim_id) (use hex_fixed_chars in blast)
  moreover have "u128_from_str_radix16 ?h = Some w"
  proof -
    have "unat w < 16 ^ 32" using unsigned_less [of w, where ?'a = nat] by simp
    then have p: "parse_hex 0 ?h = Some (unat w)" by (rule parse_hex_fixed) simp
    have ne: "?h \<noteq> []" "length ?h = 32" by (metis length_hex_fixed list.size(3) zero_neq_numeral) simp
    then have "hd ?h \<noteq> CHR ''+''" using hex_fixed_chars hd_in_set by blast
    moreover have "?h \<noteq> t" if "length t = 1" for t
    proof
      assume "?h = t"
      from arg_cong [OF this, of length] that show False by simp
    qed
    ultimately show ?thesis
      using ne(1) p unfolding u128_from_str_radix16_def by (simp del: hex_fixed.simps)
  qed
  ultimately show ?thesis by (simp add: read_owner_id_def strip_prefix_str_def)
qed

text \<open>
  the owner fence. Whatever random token, process id and host name a process stamps into the
  lock file, reading the file back gives the token; so a guard verifies as long as the file holds its
  own stamp, and once the file holds another token, or none, verification fails and stays failed:
  every later check and verification reports the loss, whatever the file says then.
\<close>

theorem owner_fence:
  assumes "guard_acquire (Inr True) None rnd pid host old = (Inr g, stamp)"
  shows "read_owner_id stamp = Some (g_owner_id g) \<and> verify_owner g stamp = (Inr (), g) \<and>
    (read_owner_id file_now \<noteq> Some (g_owner_id g) \<longrightarrow>
       (\<exists>g'. verify_owner g file_now = (Inl ownership_lost_err, g') \<and> check_fenced g' = Inl ownership_lost_err \<and>
          verify_owner g' later = (Inl ownership_lost_err, g')))"
  using assms read_owner_stamp
  by (auto simp: guard_acquire_def Let_def verify_owner_def check_fenced_def)

theorem owner_fence_witness:
  "\<exists>g stamp g'. guard_acquire (Inr True) None 7 ''12'' ''h'' None = (Inr g, stamp) \<and>
     verify_owner g stamp = (Inr (), g) \<and> verify_owner g None = (Inl ownership_lost_err, g') \<and>
     verify_owner g' stamp = (Inl ownership_lost_err, g')"
proof -
  obtain g stamp where g: "guard_acquire (Inr True) None 7 ''12'' ''h'' None = (Inr g, stamp)"
    by (simp add: guard_acquire_def Let_def)
  have "read_owner_id None \<noteq> Some (g_owner_id g)" by (simp add: read_owner_id_def)
  with owner_fence [OF g, of None stamp] g show ?thesis by auto
qed

end
