(* ===== verification/Lsm.thy ===== *)
theory Lsm
  imports Layers Wal Mvcc Lock "HOL-Library.Product_Lexorder"
begin

text \<open>
  The LSM tree of \<^verbatim>\<open>rhypedb-storage/src/lsm.rs\<close>: layered reads and scans, commit, flush, compaction,
  recovery and snapshots, composed from the memtable, SST, log, transaction and lock models. The
  state holds the files the tree owns on disk (\<open>l_dir\<close> for the SST files, the log file inside
  \<open>l_wal\<close>). Operating-system calls that can fail are inputs. A compaction is two steps, the read of the
  inputs and the installation of the merged file, because flushes run between them. This theory
  holds the definitions.
\<close>

section \<open>State\<close>

definition DEFAULT_MEMTABLE_FLUSH_SIZE :: u64 where
  "DEFAULT_MEMTABLE_FLUSH_SIZE = 4 * 1024 * 1024"

definition DEFAULT_COMPACT_TRIGGER_SSTS :: nat where
  "DEFAULT_COMPACT_TRIGGER_SSTS = 4"

record lsm_config =
  memtable_flush_size :: u64
  compact_trigger_ssts :: nat
  cfg_zone_extractor :: "zone_extractor option"
  sync_on_commit :: bool
  background_compaction :: bool
  block_compression :: SstCompression

definition config_new :: lsm_config where
  "config_new = \<lparr>memtable_flush_size = DEFAULT_MEMTABLE_FLUSH_SIZE,
     compact_trigger_ssts = DEFAULT_COMPACT_TRIGGER_SSTS, cfg_zone_extractor = None, sync_on_commit = True,
     background_compaction = True, block_compression = NoCompression\<rparr>"

record compaction_state =
  cs_pending :: bool
  cs_running :: bool
  cs_shutdown :: bool

text \<open>An SST file is named by its number, \<^verbatim>\<open>{sst_id:08}.sst\<close>.\<close>

type_synonym sst_dir = "u64 \<rightharpoonup> bytes"

record lsm =
  l_config :: lsm_config
  l_guard :: data_dir_guard
  l_active :: memtable
  l_immutables :: "memtable list"
  l_ssts :: "(u64 \<times> sst_reader) list"
  l_wal :: wal
  l_tm :: manager
  l_next_sst_id :: u64
  l_compaction :: compaction_state
  l_dir :: sst_dir

text \<open>
  What the operating system does to a flush or a compaction: the text of the lock file when it is
  read, and whether writing the SST file, mapping it and creating the new log succeed.
\<close>

record store_io =
  sio_lock :: "string option"
  sio_write :: bool
  sio_map :: bool
  sio_wal :: fresh_io
  sio_unlink :: "u64 \<Rightarrow> bool"

section \<open>Point reads\<close>

definition lsm_get_at :: "sst_lib \<Rightarrow> lsm \<Rightarrow> u64 \<Rightarrow> bytes \<Rightarrow> memval outcome" where
  "lsm_get_at lib s version user_key =
     obind (probe_layers (\<lambda>m. Return (mt_get m user_key version)) (l_active s # rev (l_immutables s))) (\<lambda>hit.
     case hit of
       Some val \<Rightarrow> Return val
     | None \<Rightarrow>
         obind (probe_layers (\<lambda>(_, r). sst_get_versioned lib r user_key version) (rev (l_ssts s))) (\<lambda>hit.
         Return (case hit of Some val \<Rightarrow> val | None \<Rightarrow> None)))"

definition lsm_read_snapshot :: "lsm \<Rightarrow> u64" where
  "lsm_read_snapshot s = current_version (l_tm s)"

definition lsm_get :: "sst_lib \<Rightarrow> lsm \<Rightarrow> transaction \<Rightarrow> bytes \<Rightarrow> memval outcome" where
  "lsm_get lib s txn user_key = lsm_get_at lib s (tx_snapshot txn) user_key"

section \<open>Scans\<close>

text \<open>The rows of all layers, from the oldest SST to the active memtable.\<close>

definition layer_rows ::
    "(sst_reader \<Rightarrow> (bytes \<times> memval) list) \<Rightarrow> (memtable \<Rightarrow> (bytes \<times> memval) list) \<Rightarrow> lsm \<Rightarrow> (bytes \<times> memval) list list" where
  "layer_rows sst_rows mem_rows s =
     map (\<lambda>(_, r). sst_rows r) (l_ssts s) @ map mem_rows (l_immutables s) @ [mem_rows (l_active s)]"

text \<open>\<^verbatim>\<open>filter_map(|(k, v)| v.map(|val| (k, val)))\<close>\<close>

definition live_rows :: "(bytes \<times> memval) list \<Rightarrow> (bytes \<times> bytes) list" where
  "live_rows rows = List.map_filter (\<lambda>(k, v). map_option (\<lambda>val. (k, val)) v) rows"

definition lsm_scan_prefix_at :: "sst_lib \<Rightarrow> lsm \<Rightarrow> u64 \<Rightarrow> bytes \<Rightarrow> (bytes \<times> bytes) list" where
  "lsm_scan_prefix_at lib s version p =
     live_rows (merge_rows (layer_rows (\<lambda>r. sst_scan_prefix lib r p version) (\<lambda>m. mt_scan_prefix m p version) s))"

definition lsm_scan_prefix :: "sst_lib \<Rightarrow> lsm \<Rightarrow> transaction \<Rightarrow> bytes \<Rightarrow> (bytes \<times> bytes) list" where
  "lsm_scan_prefix lib s txn p = lsm_scan_prefix_at lib s (tx_snapshot txn) p"

definition lsm_scan_prefix_at_limited :: "sst_lib \<Rightarrow> lsm \<Rightarrow> u64 \<Rightarrow> bytes \<Rightarrow> nat \<Rightarrow> (bytes \<times> bytes) list" where
  "lsm_scan_prefix_at_limited lib s version p max_distinct =
     (if max_distinct = 0 then []
      else take max_distinct (live_rows (merge_rows (layer_rows
        (\<lambda>r. sst_scan_prefix_max lib r p version max_distinct)
        (\<lambda>m. mt_scan_prefix_max m p version max_distinct) s))))"

definition lsm_scan_from_at_limited ::
    "sst_lib \<Rightarrow> lsm \<Rightarrow> u64 \<Rightarrow> bytes \<Rightarrow> bytes \<Rightarrow> nat \<Rightarrow> (bytes \<times> bytes) list" where
  "lsm_scan_from_at_limited lib s version p start max_distinct =
     (if max_distinct = 0 then []
      else take max_distinct (live_rows (merge_rows (layer_rows
        (\<lambda>r. sst_scan_from_max lib r p start version max_distinct)
        (\<lambda>m. mt_scan_from_max m p start version max_distinct) s))))"

record chunk_scan =
  ch_live :: "(bytes \<times> bytes) list"
  ch_high_water :: "bytes option"
  ch_more :: bool
  ch_visited :: nat

definition lsm_scan_chunk_raw :: "sst_lib \<Rightarrow> lsm \<Rightarrow> u64 \<Rightarrow> bytes \<Rightarrow> bytes \<Rightarrow> nat \<Rightarrow> chunk_scan" where
  "lsm_scan_chunk_raw lib s version p start max_distinct =
     (if max_distinct = 0 then \<lparr>ch_live = [], ch_high_water = None, ch_more = False, ch_visited = 0\<rparr>
      else let rowss = layer_rows (\<lambda>r. sst_scan_from_max lib r p start version max_distinct)
                         (\<lambda>m. mt_scan_from_max m p start version max_distinct) s;
               merged = merge_rows rowss;
               source_saturated = list_ex (\<lambda>rows. length rows = max_distinct) rowss;
               taken = take max_distinct merged
      in \<lparr>ch_live = live_rows taken,
          ch_high_water = (if taken = [] then None else Some (fst (last taken))),
          ch_more = (source_saturated \<or> length merged > max_distinct),
          ch_visited = length taken\<rparr>)"

definition lsm_count_prefix_at :: "sst_lib \<Rightarrow> lsm \<Rightarrow> u64 \<Rightarrow> bytes \<Rightarrow> nat" where
  "lsm_count_prefix_at lib s version p =
     length (filter (\<lambda>(k, v). v \<noteq> None)
       (merge_rows (layer_rows (\<lambda>r. sst_scan_prefix lib r p version) (\<lambda>m. mt_scan_prefix m p version) s)))"

section \<open>Writes and commits\<close>

definition lsm_begin_txn :: "lsm \<Rightarrow> lsm \<times> transaction" where
  "lsm_begin_txn s = (let (m, t) = tm_begin (l_tm s) in (s\<lparr>l_tm := m\<rparr>, t))"

definition lsm_put :: "transaction \<Rightarrow> bytes \<Rightarrow> bytes \<Rightarrow> transaction" where
  "lsm_put txn user_key val = record_put txn user_key val"

definition lsm_delete :: "transaction \<Rightarrow> bytes \<Rightarrow> transaction" where
  "lsm_delete txn user_key = record_delete txn user_key"

definition lsm_put_batch :: "transaction \<Rightarrow> (bytes \<times> bytes) list \<Rightarrow> transaction" where
  "lsm_put_batch txn entries = foldl (\<lambda>t (key, val). record_put t key val) txn entries"

definition lsm_delete_batch :: "transaction \<Rightarrow> bytes list \<Rightarrow> transaction" where
  "lsm_delete_batch txn keys = foldl record_delete txn keys"

definition lsm_abort :: "lsm \<Rightarrow> transaction \<Rightarrow> lsm \<times> transaction" where
  "lsm_abort s txn = (let (m, t) = tm_abort (l_tm s) txn in (s\<lparr>l_tm := m\<rparr>, t))"

definition mt_apply :: "memtable \<Rightarrow> u64 \<Rightarrow> (bytes \<times> memval) list \<Rightarrow> memtable" where
  "mt_apply m commit_version writes = foldl (\<lambda>m (key, val). case val of
      Some v \<Rightarrow> mt_put m key commit_version v | None \<Rightarrow> mt_delete m key commit_version) m writes"

text \<open>The closure \<^verbatim>\<open>commit\<close> passes to the transaction manager.\<close>

definition commit_apply ::
    "(bytes \<Rightarrow> u32) \<Rightarrow> wal_io \<Rightarrow> bool \<Rightarrow> u64 \<Rightarrow> (bytes \<times> memval) list \<Rightarrow> wal \<times> memtable \<Rightarrow>
     (error + unit) \<times> wal \<times> memtable" where
  "commit_apply crc io sync commit_version writes wm =
     (case append_txn crc io (fst wm) writes commit_version of
        (Inl e, w) \<Rightarrow> (Inl e, w, snd wm)
      | (Inr _, w) \<Rightarrow>
          (case (if sync then wal_sync io w else (Inr (), w)) of
             (Inl e, w') \<Rightarrow> (Inl e, w', snd wm)
           | (Inr _, w') \<Rightarrow> (Inr (), w', mt_apply (snd wm) commit_version writes)))"

section \<open>Flush\<close>

definition flush_locked :: "sst_lib \<Rightarrow> store_io \<Rightarrow> lsm \<Rightarrow> unit outcome \<times> lsm" where
  "flush_locked lib io s0 = (case verify_owner (l_guard s0) (sio_lock io) of
      (Inl e, g) \<Rightarrow> (Fail e, s0\<lparr>l_guard := g\<rparr>)
    | (Inr _, g) \<Rightarrow>
        let s = s0\<lparr>l_guard := g\<rparr>;
            old_memtable = l_active s;
            s1 = s\<lparr>l_active := mt_new\<rparr>
        in if mt_is_empty old_memtable then (Return (), s1)
        else let s2 = s1\<lparr>l_immutables := l_immutables s1 @ [old_memtable]\<rparr>;
                 sst_id = l_next_sst_id s2;
                 s3 = s2\<lparr>l_next_sst_id := sst_id + 1\<rparr>
        in if \<not> sio_write io then (Fail Io, s3)
        else (case sst_write lib (cfg_zone_extractor (l_config s3)) (block_compression (l_config s3)) (mt_iter old_memtable) of
            None \<Rightarrow> (Panic, s3)
          | Some (img, _) \<Rightarrow>
              let s4 = s3\<lparr>l_dir := (l_dir s3)(sst_id \<mapsto> img)\<rparr>
              in if \<not> sio_map io then (Fail Io, s4)
              else (case sst_open lib img of
                  Fail e \<Rightarrow> (Fail e, s4)
                | Panic \<Rightarrow> (Panic, s4)
                | Return reader \<Rightarrow>
                    let s5 = s4\<lparr>l_ssts := l_ssts s4 @ [(sst_id, reader)],
                                l_immutables := butlast (l_immutables s4)\<rparr>
                    in case recreate_wal (sio_wal io) (l_wal s5) of
                      (Inl e, w) \<Rightarrow> (Fail e, s5\<lparr>l_wal := w\<rparr>)
                    | (Inr _, w) \<Rightarrow> (Return (), s5\<lparr>l_wal := w\<rparr>))))"

definition lsm_flush :: "sst_lib \<Rightarrow> store_io \<Rightarrow> lsm \<Rightarrow> unit outcome \<times> lsm" where
  "lsm_flush lib io s = flush_locked lib io s"

section \<open>Compaction\<close>

text \<open>
  The versions a compaction keeps, from entries sorted by internal key: for each user key every
  version down to and including the newest one that is not above \<open>min_snapshot\<close>.
\<close>

fun compact_keep :: "u64 \<Rightarrow> bytes option \<Rightarrow> bool \<Rightarrow> entry list \<Rightarrow> entry list" where
  "compact_keep min_snapshot prev_user_key floor_kept [] = []"
| "compact_keep min_snapshot prev_user_key floor_kept ((key, val) # es) =
     (if length key < 8 then compact_keep min_snapshot prev_user_key floor_kept es
      else let user_key = take (length key - 8) key;
               version = NOT (be_u64 (drop (length key - 8) key));
               same_key = (prev_user_key = Some user_key);
               kept = (if same_key then floor_kept else False)
      in if \<not> kept then
           (key, val) # compact_keep min_snapshot (Some user_key) (version \<le> min_snapshot) es
         else compact_keep min_snapshot (Some user_key) kept es)"

fun read_all :: "sst_lib \<Rightarrow> (u64 \<times> sst_reader) list \<Rightarrow> error + entry list" where
  "read_all lib [] = Inr []"
| "read_all lib ((_, r) # rs) = (case try_for_each_entry lib r of
      Inl e \<Rightarrow> Inl e
    | Inr es \<Rightarrow> map_sum id (\<lambda>rest. es @ rest) (read_all lib rs))"

text \<open>What a compaction holds between its two steps.\<close>

record compaction_job =
  job_ids :: "u64 list"
  job_entries :: "entry list"
  job_min_snapshot :: u64

text \<open>The first step: the inputs, captured under the read lock (\<open>None\<close>: fewer than two files).\<close>

definition compact_read :: "sst_lib \<Rightarrow> store_io \<Rightarrow> lsm \<Rightarrow> compaction_job option outcome \<times> lsm" where
  "compact_read lib io s0 = (case verify_owner (l_guard s0) (sio_lock io) of
      (Inl e, g) \<Rightarrow> (Fail e, s0\<lparr>l_guard := g\<rparr>)
    | (Inr _, g) \<Rightarrow>
        let s = s0\<lparr>l_guard := g\<rparr>
        in if length (l_ssts s) < 2 then (Return None, s)
        else (case read_all lib (l_ssts s) of
            Inl e \<Rightarrow> (Fail e, s)
          | Inr all_entries \<Rightarrow>
              (Return (Some \<lparr>job_ids = map fst (l_ssts s), job_entries = all_entries,
                             job_min_snapshot = min_active_snapshot (l_tm s)\<rparr>), s)))"

text \<open>An error of \<^verbatim>\<open>remove_file\<close> is ignored: the file stays.\<close>

definition remove_files :: "(u64 \<Rightarrow> bool) \<Rightarrow> u64 list \<Rightarrow> sst_dir \<Rightarrow> sst_dir" where
  "remove_files removed ids d = (\<lambda>i. if i \<in> set ids \<and> removed i then None else d i)"

text \<open>The second step: write the merged file, swap it in, delete the inputs.\<close>

definition compact_install :: "sst_lib \<Rightarrow> store_io \<Rightarrow> compaction_job \<Rightarrow> lsm \<Rightarrow> unit outcome \<times> lsm" where
  "compact_install lib io job s =
     (let all_entries = sort_key fst (job_entries job);
          sst_id = l_next_sst_id s;
          s1 = s\<lparr>l_next_sst_id := sst_id + 1\<rparr>;
          kept_entries = compact_keep (job_min_snapshot job) None False all_entries
      in if \<not> sio_write io then (Fail Io, s1)
      else (case sst_write lib (cfg_zone_extractor (l_config s1)) (block_compression (l_config s1)) kept_entries of
          None \<Rightarrow> (Panic, s1)
        | Some (img, meta) \<Rightarrow>
            let s2 = s1\<lparr>l_dir := (l_dir s1)(sst_id \<mapsto> img)\<rparr>;
                kept = filter (\<lambda>(i, r). i \<notin> set (job_ids job)) (l_ssts s2)
            in if sm_entry_count meta = 0 then
                 (Return (), s2\<lparr>l_ssts := kept, l_dir := remove_files (sio_unlink io) (sst_id # job_ids job) (l_dir s2)\<rparr>)
               else if \<not> sio_map io then (Fail Io, s2)
               else (case sst_open lib img of
                   Fail e \<Rightarrow> (Fail e, s2)
                 | Panic \<Rightarrow> (Panic, s2)
                 | Return new_reader \<Rightarrow>
                     (Return (), s2\<lparr>l_ssts := (sst_id, new_reader) # kept,
                                    l_dir := remove_files (sio_unlink io) (job_ids job) (l_dir s2)\<rparr>))))"

definition compact_inner :: "sst_lib \<Rightarrow> store_io \<Rightarrow> lsm \<Rightarrow> unit outcome \<times> lsm" where
  "compact_inner lib io s = (case compact_read lib io s of
      (Return (Some job), s') \<Rightarrow> compact_install lib io job s'
    | (Return None, s') \<Rightarrow> (Return (), s')
    | (Fail e, s') \<Rightarrow> (Fail e, s')
    | (Panic, s') \<Rightarrow> (Panic, s'))"

definition lsm_compact :: "sst_lib \<Rightarrow> store_io \<Rightarrow> lsm \<Rightarrow> unit outcome \<times> lsm" where
  "lsm_compact lib io s = compact_inner lib io s"

definition signal_compaction :: "lsm \<Rightarrow> lsm" where
  "signal_compaction s = s\<lparr>l_compaction := (l_compaction s)\<lparr>cs_pending := True\<rparr>\<rparr>"

definition maybe_flush :: "sst_lib \<Rightarrow> store_io \<Rightarrow> store_io \<Rightarrow> lsm \<Rightarrow> unit outcome \<times> lsm" where
  "maybe_flush lib flush_io compact_io s =
     (if memtable_flush_size (l_config s) \<le> mt_approximate_size (l_active s) then
        (case lsm_flush lib flush_io s of
           (Return _, s') \<Rightarrow>
             if compact_trigger_ssts (l_config s') \<le> length (l_ssts s') then
               if background_compaction (l_config s') then (Return (), signal_compaction s')
               else lsm_compact lib compact_io s'
             else (Return (), s')
         | (r, s') \<Rightarrow> (r, s'))
      else (Return (), s))"

definition lsm_commit ::
    "sst_lib \<Rightarrow> (bytes \<Rightarrow> u32) \<Rightarrow> wal_io \<Rightarrow> store_io \<Rightarrow> store_io \<Rightarrow> lsm \<Rightarrow> transaction \<Rightarrow>
     u64 outcome \<times> lsm \<times> transaction" where
  "lsm_commit lib crc io flush_io compact_io s txn = (case check_fenced (l_guard s) of
      Inl e \<Rightarrow> (Fail e, s, txn)
    | Inr _ \<Rightarrow>
        (case tm_commit (l_tm s) txn (commit_apply crc io (sync_on_commit (l_config s))) (l_wal s, l_active s) of
           (r, m, txn', w, mt) \<Rightarrow>
             let s1 = s\<lparr>l_tm := m, l_wal := w, l_active := mt\<rparr>
             in case r of
               Inl e \<Rightarrow> (Fail e, s1, txn')
             | Inr version \<Rightarrow> (case maybe_flush lib flush_io compact_io s1 of
                 (Return _, s2) \<Rightarrow> (Return version, s2, txn')
               | (Fail e, s2) \<Rightarrow> (Fail e, s2, txn')
               | (Panic, s2) \<Rightarrow> (Panic, s2, txn'))))"

section \<open>Snapshots\<close>

record sst_snapshot_manifest =
  man_sst_ids :: "u64 list"
  man_max_version :: u64
  man_wal_bytes :: nat

fun snapshot_max_version :: "sst_lib \<Rightarrow> u64 \<Rightarrow> (u64 \<times> sst_reader) list \<Rightarrow> error + u64" where
  "snapshot_max_version lib mv [] = Inr mv"
| "snapshot_max_version lib mv ((_, r) # rs) = (case sst_max_version lib r of
      Inl e \<Rightarrow> Inl e
    | Inr v \<Rightarrow> snapshot_max_version lib (max mv v) rs)"

text \<open>\<^verbatim>\<open>snapshot_to\<close>: the manifest, the files of the new directory, and the tree after the flush.\<close>

definition lsm_snapshot_to ::
    "sst_lib \<Rightarrow> store_io \<Rightarrow> lsm \<Rightarrow> (sst_snapshot_manifest \<times> sst_dir \<times> bytes) outcome \<times> lsm" where
  "lsm_snapshot_to lib io s = (case flush_locked lib io s of
      (Fail e, s') \<Rightarrow> (Fail e, s')
    | (Panic, s') \<Rightarrow> (Panic, s')
    | (Return _, s') \<Rightarrow> (case snapshot_max_version lib 0 (l_ssts s') of
        Inl e \<Rightarrow> (Fail e, s')
      | Inr max_version \<Rightarrow>
          let ids = map fst (l_ssts s');
              wal_copy = wal_file (l_wal s')
          in (Return (\<lparr>man_sst_ids = ids, man_max_version = max_version, man_wal_bytes = length wal_copy\<rparr>,
                      l_dir s' |` set ids, wal_copy), s')))"

section \<open>Opening\<close>

fun open_ssts :: "sst_lib \<Rightarrow> (u64 \<times> bytes) list \<Rightarrow> (u64 \<times> u64 \<times> sst_reader) list outcome" where
  "open_ssts lib [] = Return []"
| "open_ssts lib ((i, data) # fs) =
     obind (sst_open lib data) (\<lambda>reader.
     obind (of_result (sst_max_version lib reader)) (\<lambda>sst_max_version.
     obind (open_ssts lib fs) (\<lambda>rest. Return ((i, sst_max_version, reader) # rest))))"

definition replay_into :: "memtable \<Rightarrow> wal_record list \<Rightarrow> memtable" where
  "replay_into m records = foldl (\<lambda>m r. case wr_type r of
      Put \<Rightarrow> mt_put m (wr_key r) (wr_version r) (wr_value r)
    | Delete \<Rightarrow> mt_delete m (wr_key r) (wr_version r)
    | Commit \<Rightarrow> m) m records"

text \<open>
  \<^verbatim>\<open>open\<close> on the files of a data directory (the SST files in directory order, the log), once the guard
  is acquired; left-over \<^verbatim>\<open>.sst.tmp\<close> files are dropped before. \<open>io\<close> is for the flush that converts a
  legacy log.
\<close>

definition lsm_open ::
    "sst_lib \<Rightarrow> (bytes \<Rightarrow> u32) \<Rightarrow> store_io \<Rightarrow> lsm_config \<Rightarrow> data_dir_guard \<Rightarrow> (u64 \<times> bytes) list \<Rightarrow> bytes option \<Rightarrow>
     lsm outcome" where
  "lsm_open lib crc io config guard sst_list wal_path =
     obind (open_ssts lib sst_list) (\<lambda>with_id.
     let max_sst_id = foldl max 0 (map fst sst_list);
         max_version0 = foldl max 0 (map (\<lambda>(_, v, _). v) with_id);
         sst_readers = map (\<lambda>(i, _, r). (i, r)) (sort_key (\<lambda>(i, v, _). (v, i)) with_id);
         wal_was_legacy = file_is_legacy wal_path
     in obind (of_result (replay_with_valid_len crc wal_path)) (\<lambda>(records, valid_wal_len).
     let max_version = foldl max max_version0 (map wr_version records);
         memtable = replay_into mt_new records;
         wal_path' = (case wal_path of None \<Rightarrow> None
           | Some d \<Rightarrow> Some (if \<not> wal_was_legacy \<and> valid_wal_len < length d then truncate_to d valid_wal_len else d));
         tree = \<lparr>l_config = config, l_guard = guard, l_active = memtable, l_immutables = [],
                 l_ssts = sst_readers, l_wal = wal_open wal_path', l_tm = recover_at_version max_version,
                 l_next_sst_id = max_sst_id + 1,
                 l_compaction = \<lparr>cs_pending = False, cs_running = False, cs_shutdown = False\<rparr>,
                 l_dir = map_of sst_list\<rparr>
     in if wal_was_legacy then
          (case lsm_flush lib io tree of
             (Return _, tree') \<Rightarrow> Return tree'
           | (Fail e, _) \<Rightarrow> Fail e
           | (Panic, _) \<Rightarrow> Panic)
        else Return tree))"

end
