(* ===== verification/Lsm_Read.thy ===== *)
theory Lsm_Read
  imports Lsm
begin

text \<open>
  Reads of the LSM tree: the layers read together are one store. A point read returns what the
  snapshot sees of all entries, a scan returns exactly the live keys under the prefix in order, and
  the chunked scan walks a range without skipping a key. The bounded scans that drop tombstones
  before their cut can return overwritten and deleted rows; the last section proves it.
\<close>

section \<open>The layers of a tree\<close>

text \<open>Contents from the newest layer to the oldest.\<close>

definition lsm_layers :: "sst_lib \<Rightarrow> lsm \<Rightarrow> entry list list" where
  "lsm_layers lib s = mt_map (l_active s) # map mt_map (rev (l_immutables s)) @
     map (\<lambda>(_, r). sst_contents lib r) (rev (l_ssts s))"

definition lsm_entries :: "sst_lib \<Rightarrow> lsm \<Rightarrow> entry list" where
  "lsm_entries lib s = concat (lsm_layers lib s)"

definition lsm_inv :: "sst_lib \<Rightarrow> lsm \<Rightarrow> bool" where
  "lsm_inv lib s \<longleftrightarrow> mem_ok (l_active s) \<and> (\<forall>m \<in> set (l_immutables s). mem_ok m) \<and>
     (\<forall>(i, r) \<in> set (l_ssts s). sst_ok lib r) \<and> sorted_wrt newer_than (lsm_layers lib s)"

lemma readable_subset: "readable es k \<Longrightarrow> set es' \<subseteq> set es \<Longrightarrow> readable es' k"
  by (auto simp: readable_def no_extension_def user_keys_def)

lemma scan_safe_subset: "scan_safe es p \<Longrightarrow> set es' \<subseteq> set es \<Longrightarrow> scan_safe es' p"
  by (auto simp: scan_safe_def user_keys_def)

lemma layer_subset: "l \<in> set (lsm_layers lib s) \<Longrightarrow> set l \<subseteq> set (lsm_entries lib s)"
  by (auto simp: lsm_entries_def)

lemma mem_layers:
  "m = l_active s \<or> m \<in> set (l_immutables s) \<Longrightarrow> mt_map m \<in> set (lsm_layers lib s)"
  "(i, r) \<in> set (l_ssts s) \<Longrightarrow> sst_contents lib r \<in> set (lsm_layers lib s)"
  by (force simp: lsm_layers_def)+

lemma lsm_get_at_visible:
  assumes inv: "lsm_inv lib s" and k: "readable (lsm_entries lib s) k" and v: "v < 2 ^ 56"
  shows "lsm_get_at lib s v k =
    Return (case visible (lsm_entries lib s) k v of Some x \<Rightarrow> x | None \<Rightarrow> None)"
proof -
  let ?mems = "l_active s # rev (l_immutables s)" and ?ssts = "rev (l_ssts s)"
  let ?c = "\<lambda>p. sst_contents lib (snd p)"
  have layers: "lsm_layers lib s = map mt_map ?mems @ map ?c ?ssts"
    by (simp add: lsm_layers_def case_prod_beta)
  have srt: "sorted_wrt newer_than (map mt_map ?mems)" "sorted_wrt newer_than (map ?c ?ssts)"
    and between: "newer_than (concat (map mt_map ?mems)) (concat (map ?c ?ssts))"
    using newer_than_layers [of "map mt_map ?mems" "map ?c ?ssts"] inv by (simp_all add: lsm_inv_def layers)
  have m_ok: "\<forall>m \<in> set ?mems. mem_ok m \<and> readable (mt_map m) k"
    using inv k mem_layers(1) layer_subset readable_subset by (force simp: lsm_inv_def)
  have "\<forall>p \<in> set ?ssts. sst_ok lib (snd p) \<and> readable (?c p) k"
    using inv k mem_layers(2) layer_subset readable_subset by (fastforce simp: lsm_inv_def)
  then have s_ok: "\<forall>r \<in> set (map snd ?ssts). sst_ok lib r \<and> readable (sst_contents lib r) k" by auto
  have p1: "probe_layers (\<lambda>m. Return (mt_get m k v)) ?mems = Return (visible (concat (map mt_map ?mems)) k v)"
    by (rule mem.probe_visible [OF m_ok v srt(1)])
  have "probe_layers (\<lambda>r. sst_get_versioned lib r k v) (map snd ?ssts) =
      Return (visible (concat (map (sst_contents lib) (map snd ?ssts))) k v)"
    by (rule sst.probe_visible [OF s_ok v]) (use srt(2) in \<open>simp add: o_def\<close>)
  moreover have "probe_layers f (map snd ps) = probe_layers (\<lambda>(_, r). f r) ps" for f and ps :: "(u64 \<times> sst_reader) list"
    by (induction ps) (auto intro!: arg_cong [of _ _ "obind _"] simp: fun_eq_iff split: option.splits)
  ultimately have p2: "probe_layers (\<lambda>(_, r). sst_get_versioned lib r k v) ?ssts =
      Return (visible (concat (map ?c ?ssts)) k v)"
    by (simp add: o_def)
  have "visible (lsm_entries lib s) k v = (case visible (concat (map mt_map ?mems)) k v of
      Some x \<Rightarrow> Some x | None \<Rightarrow> visible (concat (map ?c ?ssts)) k v)"
    using visible_newer [OF between, of k v] by (simp add: lsm_entries_def layers del: map_append)
  then show ?thesis by (simp add: lsm_get_at_def p1 p2 del: probe_layers.simps split: option.splits)
qed

section \<open>Scans\<close>

lemma last_row_append:
  "last_row (a @ b) k = (case last_row b k of Some x \<Rightarrow> Some x | None \<Rightarrow> last_row a k)"
  by (induction a) (auto split: option.splits)

text \<open>Rows that show what each layer has give, merged, what the layers have together.\<close>

lemma last_row_layers:
  assumes "sorted_wrt newer_than ls" and "length rows = length ls"
    and "\<And>i. i < length ls \<Longrightarrow> map_of (rows ! i) k = (if Q k then visible (ls ! i) k v else None)"
  shows "last_row (rev rows) k = (if Q k then visible (concat ls) k v else None)"
  using assms
proof (induction ls arbitrary: rows)
  case (Cons l ls)
  obtain row rows' where rows: "rows = row # rows'" using Cons.prems(2) by (cases rows) auto
  have IH: "last_row (rev rows') k = (if Q k then visible (concat ls) k v else None)"
  proof (rule Cons.IH)
    show "map_of (rows' ! i) k = (if Q k then visible (ls ! i) k v else None)" if "i < length ls" for i
      using Cons.prems(3) [of "Suc i"] that by (simp add: rows)
  qed (use Cons.prems rows in simp_all)
  have "newer_than l (concat ls)" using Cons.prems(1) by (simp add: newer_than_concat)
  then show ?case
    using IH Cons.prems(3) [of 0] by (simp add: rows last_row_append visible_newer split: option.splits)
qed (simp add: visible_def)

lemma layer_rows_rev:
  "layer_rows f g s = rev (g (l_active s) # map g (rev (l_immutables s)) @ map (\<lambda>(_, r). f r) (rev (l_ssts s)))"
  by (simp add: layer_rows_def rev_map)

text \<open>Every scan of the tree: rows per layer in, the merged view out.\<close>

lemma merged_scan:
  assumes inv: "lsm_inv lib s"
    and mem: "\<And>m. mem_ok m \<Longrightarrow> mt_map m \<in> set (lsm_layers lib s) \<Longrightarrow> distinct (map fst (g m)) \<and>
       (\<forall>k. map_of (g m) k = (if Q k then visible (mt_map m) k v else None))"
    and sst: "\<And>r. sst_ok lib r \<Longrightarrow> sst_contents lib r \<in> set (lsm_layers lib s) \<Longrightarrow> distinct (map fst (f r)) \<and>
       (\<forall>k. map_of (f r) k = (if Q k then visible (sst_contents lib r) k v else None))"
  shows "sorted_entries (merge_rows (layer_rows f g s))"
    "map_of (merge_rows (layer_rows f g s)) k = (if Q k then visible (lsm_entries lib s) k v else None)"
proof -
  let ?mems = "l_active s # rev (l_immutables s)" and ?ssts = "rev (l_ssts s)"
  let ?rows = "map g ?mems @ map (\<lambda>(_, r). f r) ?ssts"
  have layers: "lsm_layers lib s = map mt_map ?mems @ map (\<lambda>(_, r). sst_contents lib r) ?ssts"
    by (simp add: lsm_layers_def)
  have rev: "layer_rows f g s = rev ?rows" by (simp add: layer_rows_rev)
  have g: "distinct (map fst (g m)) \<and> (\<forall>k. map_of (g m) k = (if Q k then visible (mt_map m) k v else None))"
    if "m \<in> set ?mems" for m
    using mem [of m] mem_layers(1) inv that by (force simp: lsm_inv_def)
  have f: "distinct (map fst (f r)) \<and> (\<forall>k. map_of (f r) k = (if Q k then visible (sst_contents lib r) k v else None))"
    if "(i, r) \<in> set ?ssts" for i r
    using sst [of r] mem_layers(2) inv that by (fastforce simp: lsm_inv_def)
  have "\<forall>rows \<in> set (layer_rows f g s). distinct (map fst rows)"
    using f g unfolding rev by fastforce
  note merge = merge_rows_ok [OF this]
  show "sorted_entries (merge_rows (layer_rows f g s))" by (rule merge(1))
  have "map_of (?rows ! i) k = (if Q k then visible (lsm_layers lib s ! i) k v else None)"
    if i: "i < length (lsm_layers lib s)" for i
  proof (cases "i < length ?mems")
    case True
    then have "?rows ! i = g (?mems ! i)" "lsm_layers lib s ! i = mt_map (?mems ! i)"
      unfolding layers by (simp_all only: nth_append length_map nth_map if_True)
    moreover have "?mems ! i \<in> set ?mems" using True nth_mem by blast
    ultimately show ?thesis using g by presburger
  next
    case False
    define j where "j = i - length ?mems"
    have j: "j < length ?ssts" using False i unfolding layers j_def by simp
    have "?rows ! i = f (snd (?ssts ! j))" "lsm_layers lib s ! i = sst_contents lib (snd (?ssts ! j))"
      using False j unfolding layers by (simp_all only: nth_append length_map nth_map if_False j_def case_prod_beta)
    moreover have "(fst (?ssts ! j), snd (?ssts ! j)) \<in> set ?ssts" using nth_mem [OF j] by simp
    ultimately show ?thesis using f by presburger
  qed
  moreover have "sorted_wrt newer_than (lsm_layers lib s)" using inv by (simp add: lsm_inv_def)
  moreover have "length ?rows = length (lsm_layers lib s)" by (simp add: layers)
  ultimately have "last_row (rev ?rows) k = (if Q k then visible (lsm_entries lib s) k v else None)"
    unfolding lsm_entries_def by (intro last_row_layers) blast+
  then show "map_of (merge_rows (layer_rows f g s)) k = (if Q k then visible (lsm_entries lib s) k v else None)"
    using fun_cong [OF merge(2), of k] by (simp only: rev)
qed

lemma live_rows_simps [simp]:
  "live_rows [] = []" "live_rows ((k, v) # rows) = (case v of None \<Rightarrow> live_rows rows | Some x \<Rightarrow> (k, x) # live_rows rows)"
  by (simp_all add: live_rows_def map_filter_simps split: option.splits)

lemma live_rows_mem: "(k, x) \<in> set (live_rows rows) \<Longrightarrow> (k, Some x) \<in> set rows"
  by (induction rows) (auto split: option.splits)

lemma live_rows_ok:
  assumes "sorted_entries rows"
  shows "sorted_wrt (<) (map fst (live_rows rows))" "map_of (live_rows rows) k = Option.bind (map_of rows k) (\<lambda>x. x)"
    "length (live_rows rows) = length (filter (\<lambda>(k, v). v \<noteq> None) rows)"
proof -
  have "sorted_wrt (<) (map fst (live_rows rows)) \<and> map_of (live_rows rows) k = Option.bind (map_of rows k) (\<lambda>x. x) \<and>
      length (live_rows rows) = length (filter (\<lambda>(k, v). v \<noteq> None) rows)"
    using assms
  proof (induction rows)
    case (Cons row rows)
    obtain j x where row: "row = (j, x)" by (cases row)
    have above: "j < i" if "i \<in> fst ` set rows" for i using Cons.prems that by (auto simp: row)
    have "map_of rows j = None" using above by (auto simp: map_of_eq_None_iff)
    then show ?case
      using Cons above live_rows_mem [of _ _ rows] by (cases x) (force simp: row)+
  qed simp
  then show "sorted_wrt (<) (map fst (live_rows rows))" "map_of (live_rows rows) k = Option.bind (map_of rows k) (\<lambda>x. x)"
    "length (live_rows rows) = length (filter (\<lambda>(k, v). v \<noteq> None) rows)" by blast+
qed

lemma full_scan_rows:
  assumes inv: "lsm_inv lib s" and safe: "scan_safe (lsm_entries lib s) p"
    and rows_def: "rows = merge_rows (layer_rows (\<lambda>r. sst_scan_prefix lib r p v) (\<lambda>m. mt_scan_prefix m p v) s)"
  shows "sorted_entries rows" "map_of rows k = (if prefix p k then visible (lsm_entries lib s) k v else None)"
proof -
  have safe': "scan_safe l p" if "l \<in> set (lsm_layers lib s)" for l
    using scan_safe_subset [OF safe layer_subset [OF that]] .
  note m = merged_scan [OF inv, of "\<lambda>m. mt_scan_prefix m p v" "prefix p" v "\<lambda>r. sst_scan_prefix lib r p v"]
  show "sorted_entries rows" unfolding rows_def
    by (rule m(1)) (use mem.scan_rows sst.scan_rows safe' in \<open>auto simp: safe'\<close>)
  show "map_of rows k = (if prefix p k then visible (lsm_entries lib s) k v else None)" unfolding rows_def
    by (rule m(2)) (use mem.scan_rows sst.scan_rows safe' in \<open>auto simp: safe'\<close>)
qed

section \<open>Windows of sorted rows\<close>

text \<open>No stored key is a proper prefix of another; then rows come in the order of the user keys.\<close>

definition prefix_free_keys :: "bytes list \<Rightarrow> bool" where
  "prefix_free_keys ks \<longleftrightarrow> (\<forall>j \<in> set ks. \<forall>k \<in> set ks. prefix j k \<longrightarrow> j = k)"

lemma prefix_free_mono:
  "prefix_free_keys ks \<Longrightarrow> set ks' \<subseteq> set ks \<Longrightarrow> prefix_free_keys ks'"
  by (auto simp: prefix_free_keys_def)

lemma dedup_scan_sorted:
  "sorted_entries es \<Longrightarrow> long_keys es \<Longrightarrow> prefix_free_keys (user_keys es) \<Longrightarrow>
   \<forall>j. l = Some j \<longrightarrow> (\<forall>u \<in> set (user_keys es). j \<le> u) \<Longrightarrow>
   sorted_wrt (<) (map fst (dedup_scan v l es)) \<and> (\<forall>j. l = Some j \<longrightarrow> (\<forall>u \<in> fst ` set (dedup_scan v l es). j < u))"
proof (induction v l es rule: dedup_scan.induct)
  case (2 v l ik x es)
  let ?u = "ik_user_key ik"
  have above: "?u \<le> u" if "u \<in> set (user_keys es)" for u
  proof -
    obtain e where e: "e \<in> set es" "u = ik_user_key (fst e)" using \<open>u \<in> set (user_keys es)\<close> by (auto simp: user_keys_def)
    then have len: "8 \<le> length (fst e)" "8 \<le> length ik" and lt: "ik < fst e"
      using "2.prems"(1,2) by (auto simp: long_keys_def)
    show ?thesis
    proof (rule ccontr)
      assume "\<not> ?u \<le> u"
      then have "u < ?u" "\<not> prefix ?u u" "\<not> prefix u ?u"
        using "2.prems"(3) that prefix_le by (auto simp: prefix_free_keys_def)
      then have "internal_key u (ik_version (fst e)) < internal_key ?u (ik_version ik)"
        by (simp add: internal_key_less_incomparable)
      then show False using lt len internal_key_collapse e(2) by fastforce
    qed
  qed
  have pf: "prefix_free_keys (user_keys es)" by (rule prefix_free_mono [OF "2.prems"(3)]) auto
  have srt: "sorted_entries es" "long_keys es" using "2.prems"(1,2) by auto
  show ?case
  proof (cases "ik_version ik > v \<or> l = Some ?u")
    case True
    then have "dedup_scan v l ((ik, x) # es) = dedup_scan v l es" by auto
    moreover have "\<forall>j. l = Some j \<longrightarrow> (\<forall>u \<in> set (user_keys es). j \<le> u)" using "2.prems"(4) by simp
    ultimately show ?thesis using "2.IH"(1,2) srt pf True by (cases "ik_version ik > v") auto
  next
    case False
    then have IH: "sorted_wrt (<) (map fst (dedup_scan v (Some ?u) es)) \<and>
        (\<forall>u \<in> fst ` set (dedup_scan v (Some ?u) es). ?u < u)"
      using "2.IH"(3) srt pf above by auto
    have "j < ?u" if "l = Some j" for j using "2.prems"(4) that False by (auto simp: le_less)
    with IH False show ?thesis by (auto dest: order.strict_trans)
  qed
qed simp

text \<open>Sorted association lists are determined by their lookups.\<close>

lemma sorted_assoc_eq:
  "sorted_wrt (<) (map fst a) \<Longrightarrow> sorted_wrt (<) (map fst b) \<Longrightarrow> map_of a = map_of b \<Longrightarrow> a = b"
  for a b :: "('k::linorder \<times> 'v) list"
proof (induction a arbitrary: b)
  case Nil
  have "set b = {}" using Nil.prems(3) by (metis empty_iff equals0I map_of_eq_None_iff map_of.simps(1) prod.collapse image_eqI)
  then show ?case by simp
next
  case (Cons p a)
  obtain k x where p: "p = (k, x)" by (cases p)
  have kb: "map_of b k = Some x" using Cons.prems(3) [symmetric] by (simp add: p)
  then obtain q b' where b: "b = q # b'" by (cases b) auto
  obtain j y where q: "q = (j, y)" by (cases q)
  have "map_of (p # a) j = Some y" using fun_cong [OF Cons.prems(3), of j] by (simp add: b q)
  then have "k \<le> j" using Cons.prems(1) by (force simp: p split: if_splits dest: map_of_SomeD)
  moreover have "j \<le> k" using kb Cons.prems(2) by (force simp: b q split: if_splits dest: map_of_SomeD)
  ultimately have kj: "j = k" by simp
  have xy: "x = y" using kb by (simp add: b q kj)
  have "k \<notin> fst ` set a" "k \<notin> fst ` set b'" using Cons.prems(1,2) by (auto simp: p b q kj)
  then have "map_of a = map_of b'"
    using Cons.prems(3) unfolding p b q kj xy by (auto simp: fun_eq_iff map_of_eq_None_iff split: if_splits)
       (metis map_of_eq_None_iff)+
  then have "a = b'" using Cons by (simp add: b)
  then show ?case by (simp add: p b q kj xy)
qed

lemma take_sorted_eq:
  fixes a b :: "('k::linorder \<times> 'v) list"
  assumes "sorted_wrt (<) (map fst a)" "sorted_wrt (<) (map fst b)" "fst ` set b \<subseteq> fst ` set a"
    and "\<forall>(k, x) \<in> set (take n a). map_of b k = Some x"
  shows "take n b = take n a"
  using assms
proof (induction n arbitrary: a b)
  case (Suc n)
  show ?case
  proof (cases a)
    case Nil
    then show ?thesis using Suc.prems(3) by simp
  next
    case a: (Cons p a')
    obtain k x where p: "p = (k, x)" by (cases p)
    have kb: "map_of b k = Some x" using Suc.prems(4) by (simp add: a p)
    then obtain q b' where b: "b = q # b'" by (cases b) auto
    obtain j y where q: "q = (j, y)" by (cases q)
    have "k \<le> j" using Suc.prems(1,3) by (auto simp: a b p q)
    moreover have "j \<le> k" using kb Suc.prems(2) by (force simp: b q split: if_splits dest: map_of_SomeD)
    ultimately have kj: "j = k" by simp
    have "take n b' = take n a'"
    proof (rule Suc.IH)
      show "fst ` set b' \<subseteq> fst ` set a'" using Suc.prems(2,3) by (auto simp: a b p q kj)
      show "\<forall>(k, x) \<in> set (take n a'). map_of b' k = Some x"
      proof clarify
        fix i z assume iz: "(i, z) \<in> set (take n a')"
        then have "(i, z) \<in> set a'" by (rule in_set_takeD)
        then have "k < i" using Suc.prems(1) by (force simp: a p)
        moreover have "map_of b i = Some z" using Suc.prems(4) iz by (auto simp: a)
        ultimately show "map_of b' i = Some z" by (auto simp: b q kj split: if_splits)
      qed
    qed (use Suc.prems(1,2) in \<open>simp_all add: a b\<close>)
    then show ?thesis using kb by (simp add: a b p q kj)
  qed
qed simp

lemma sorted_rank:
  fixes xs :: "('k::linorder \<times> 'v) list"
  assumes "sorted_wrt (<) (map fst xs)" "j < length xs"
  shows "card {a \<in> fst ` set xs. a < fst (xs ! j)} = j"
proof -
  have less: "fst (xs ! i) < fst (xs ! i')" if "i < i'" "i' < length xs" for i i'
    using assms(1) that by (simp add: sorted_wrt_iff_nth_less)
  have "{a \<in> fst ` set xs. a < fst (xs ! j)} = fst ` set (take j xs)"
  proof (intro equalityI subsetI)
    fix a assume "a \<in> {a \<in> fst ` set xs. a < fst (xs ! j)}"
    then obtain i where i: "i < length xs" "a = fst (xs ! i)" "a < fst (xs ! j)"
      by (auto simp: in_set_conv_nth)
    have "i < j" using less [of j i] i by (cases i j rule: linorder_cases) auto
    then have "xs ! i \<in> set (take j xs)" using i(1) by (auto simp: in_set_conv_nth)
    with i(2) show "a \<in> fst ` set (take j xs)" by blast
  next
    fix a assume "a \<in> fst ` set (take j xs)"
    then obtain i where "i < j" "a = fst (xs ! i)" using assms(2) by (auto simp: in_set_conv_nth)
    with less [of i j] assms(2) show "a \<in> {a \<in> fst ` set xs. a < fst (xs ! j)}" by auto
  qed
  moreover have "distinct (map fst (take j xs))"
    using assms(1) by (simp add: strict_sorted_iff take_map [symmetric])
  ultimately show ?thesis using assms(2) distinct_card [of "map fst (take j xs)"] by simp
qed

lemma last_row_keys: "last_row rowss k \<noteq> None \<longleftrightarrow> (\<exists>rows \<in> set rowss. k \<in> fst ` set rows)"
proof (induction rowss)
  case (Cons rows rowss)
  have "map_of rows k \<noteq> None \<longleftrightarrow> k \<in> fst ` set rows" by (metis map_of_eq_None_iff)
  with Cons show ?case by (cases "last_row rowss k") auto
qed simp

lemma last_row_cong:
  "\<forall>rows \<in> set rowss. map_of (h rows) k = map_of rows k \<Longrightarrow> last_row (map h rowss) k = last_row rowss k"
  by (induction rowss) (auto split: option.splits)

text \<open>The first keys of the merge are those of the merge of the first keys of every source.\<close>

lemma merge_windows:
  assumes srt: "\<forall>rows \<in> set rowss. sorted_wrt (<) (map fst rows)"
  shows "take n (merge_rows (map (take n) rowss)) = take n (merge_rows rowss)"
proof -
  let ?m = "merge_rows rowss" and ?w = "merge_rows (map (take n) rowss)"
  have dist: "\<forall>rows \<in> set rowss. distinct (map fst rows)" using srt by (simp add: strict_sorted_iff)
  then have dist': "\<forall>rows \<in> set (map (take n) rowss). distinct (map fst rows)" by (auto simp: take_map [symmetric])
  note m = merge_rows_ok [OF dist] and w = merge_rows_ok [OF dist']
  have keys_m: "k \<in> fst ` set ?m \<longleftrightarrow> (\<exists>rows \<in> set rowss. k \<in> fst ` set rows)" for k
    using last_row_keys [of rowss k] m(2) by (metis map_of_eq_None_iff)
  have keys_w: "k \<in> fst ` set ?w \<longleftrightarrow> (\<exists>rows \<in> set rowss. k \<in> fst ` set (take n rows))" for k
    using last_row_keys [of "map (take n) rowss" k] w(2) by (metis (no_types, lifting) image_iff list.set_map map_of_eq_None_iff)
  have "map_of ?w k = Some x" if kx: "(k, x) \<in> set (take n ?m)" for k x
  proof -
    obtain j where j: "j < n" "j < length ?m" "?m ! j = (k, x)" using kx by (auto simp: in_set_conv_nth)
    have rank: "card {a \<in> fst ` set ?m. a < k} = j" using sorted_rank [OF m(1) j(2)] j(3) by simp
    have "map_of (take n rows) k = map_of rows k" if rows: "rows \<in> set rowss" for rows
    proof (cases "k \<in> fst ` set rows")
      case True
      then obtain i where i: "i < length rows" "fst (rows ! i) = k" by (auto simp: in_set_conv_nth)
      have "i = card {a \<in> fst ` set rows. a < k}" using sorted_rank [of rows i] srt rows i by simp
      also have "\<dots> \<le> card {a \<in> fst ` set ?m. a < k}" using keys_m rows by (intro card_mono) auto
      finally have "i < n" using rank j(1) by simp
      then have "rows ! i \<in> set (take n rows)" using i by (auto simp: in_set_conv_nth)
      then have "(k, snd (rows ! i)) \<in> set (take n rows)" "(k, snd (rows ! i)) \<in> set rows"
        using i by (metis prod.collapse, metis nth_mem prod.collapse)
      moreover have "distinct (map fst (take n rows))" "distinct (map fst rows)" using dist dist' rows by auto
      ultimately show ?thesis by (metis map_of_is_SomeI)
    next
      case False
      then have "k \<notin> fst ` set (take n rows)" using set_take_subset [of n rows] by blast
      with False show ?thesis by (simp add: map_of_eq_None_iff [THEN iffD2])
    qed
    then have "map_of ?w k = map_of ?m k" using last_row_cong [of rowss "take n" k] m(2) w(2) by simp
    moreover have "map_of ?m k = Some x"
      using m(1) in_set_takeD [OF kx] by (intro map_of_is_SomeI) (simp_all add: strict_sorted_iff)
    ultimately show ?thesis by simp
  qed
  moreover have "fst ` set ?w \<subseteq> fst ` set ?m"
  proof
    fix k assume "k \<in> fst ` set ?w"
    then obtain rows where "rows \<in> set rowss" "k \<in> fst ` set (take n rows)" using keys_w by blast
    then show "k \<in> fst ` set ?m" using keys_m set_take_subset [of n rows] by blast
  qed
  ultimately show ?thesis using m(1) w(1) by (intro take_sorted_eq) blast+
qed

section \<open>Example trees\<close>

definition plain_tree :: "memtable \<Rightarrow> memtable list \<Rightarrow> (u64 \<times> sst_reader) list \<Rightarrow> lsm" where
  "plain_tree act imms ssts = \<lparr>l_config = config_new, l_guard = \<lparr>g_owner_id = 1, g_fenced = False\<rparr>,
     l_active = act, l_immutables = imms, l_ssts = ssts, l_wal = create_fresh, l_tm = recover_at_version 9,
     l_next_sst_id = 7, l_compaction = \<lparr>cs_pending = False, cs_running = False, cs_shutdown = False\<rparr>,
     l_dir = Map.empty\<rparr>"

lemma plain_tree_fields [simp]:
  "l_active (plain_tree a i r) = a" "l_immutables (plain_tree a i r) = i" "l_ssts (plain_tree a i r) = r"
  by (simp_all add: plain_tree_def)

lemma key_order: "a < b \<Longrightarrow> length a = length b \<Longrightarrow> internal_key a v < internal_key b w"
  by (simp add: internal_key_def less_append_eqlen)

definition example_mem :: memtable where
  "example_mem = mt_put mt_new [97] 7 [9]"

lemma example_mem_map: "mt_map example_mem = [(internal_key [97] 7, Some [9])]"
  by (simp add: example_mem_def mt_put_def mt_new_def Let_def)

lemma example_tree_ok:
  assumes "sst_opened stored_codec None NoCompression example_entries r"
  shows "lsm_inv stored_codec (plain_tree example_mem [] [(1, r)])"
    "lsm_entries stored_codec (plain_tree example_mem [] [(1, r)]) = mt_map example_mem @ example_entries"
proof -
  have rep: "sst_repr stored_codec example_entries r" by (rule opened_repr [OF stored_codec_ok example_ok(1) assms])
  have wf: "layer_wf example_entries"
    using example_ok(2-5) by (simp add: layer_wf_def compatible_keys_def ff_compat_def)
  have "mem_ok example_mem"
    by (simp add: mem_ok_def example_mem_map layer_wf_def compatible_keys_def ff_compat_def)
  then show "lsm_inv stored_codec (plain_tree example_mem [] [(1, r)])"
    using sst_ok_repr [OF rep wf]
    by (simp add: lsm_inv_def lsm_layers_def sst_contents_repr [OF rep] example_mem_map newer_than_def example_entries_def)
  show "lsm_entries stored_codec (plain_tree example_mem [] [(1, r)]) = mt_map example_mem @ example_entries"
    by (simp add: lsm_entries_def lsm_layers_def sst_contents_repr [OF rep])
qed

section \<open>Properties of reads\<close>

text \<open>
  C9: a point read of the tree at a snapshot returns the value of the newest version not above the
  snapshot among the entries of all its layers together, and nothing when that version is a
  tombstone or there is none. The invariant says that every layer is well formed and no older layer
  holds a newer version of a key; the key neither is continued by a stored key nor continues one
  with \<open>0xFF\<close>.
\<close>

theorem lsm_get_at_correct:
  assumes "lsm_inv lib s" and "readable (lsm_entries lib s) k" and "v < 2 ^ 56"
  shows "lsm_get_at lib s v k =
    Return (case visible (lsm_entries lib s) k v of Some x \<Rightarrow> x | None \<Rightarrow> None)"
  using assms by (rule lsm_get_at_visible)

theorem lsm_get_at_correct_witness:
  "\<exists>r. lsm_get_at stored_codec (plain_tree example_mem [] [(1, r)]) 6 [97] = Return (Some [1])"
proof (rule example_opened)
  fix r assume r: "sst_opened stored_codec None NoCompression example_entries r"
  let ?s = "plain_tree example_mem [] [(1, r)]"
  have "readable (lsm_entries stored_codec ?s) [97]"
    using example_ok(5) by (simp add: example_tree_ok(2) [OF r] example_mem_map readable_def no_extension_def ff_compat_def)
  from lsm_get_at_correct [OF example_tree_ok(1) [OF r] this, of 6] show ?thesis
    by (auto simp: example_tree_ok(2) [OF r] example_mem_map example_entries_def visible_def versions_of_def)
qed

lemma lsm_scan_prefix_rows:
  assumes "lsm_inv lib s" and "scan_safe (lsm_entries lib s) p"
  shows "sorted_wrt (<) (map fst (lsm_scan_prefix_at lib s v p))"
    "map_of (lsm_scan_prefix_at lib s v p) k =
       (if prefix p k then Option.bind (visible (lsm_entries lib s) k v) (\<lambda>x. x) else None)"
    "lsm_count_prefix_at lib s v p = length (lsm_scan_prefix_at lib s v p)"
  using full_scan_rows [OF assms refl] live_rows_ok
  by (simp_all add: lsm_scan_prefix_at_def lsm_count_prefix_at_def)

text \<open>
  C12: a prefix scan of the tree returns the live keys under the prefix in ascending order, each once,
  with the newest value not above the snapshot among the entries of all layers, and no other key; the count of
  live keys is its length. The prefix does not continue a stored key with \<open>0xFF\<close>.
\<close>

theorem lsm_scan_prefix_correct:
  assumes "lsm_inv lib s" and "scan_safe (lsm_entries lib s) p"
  shows "sorted_wrt (<) (map fst (lsm_scan_prefix_at lib s v p)) \<and>
    map_of (lsm_scan_prefix_at lib s v p) k =
      (if prefix p k then Option.bind (visible (lsm_entries lib s) k v) (\<lambda>x. x) else None) \<and>
    lsm_count_prefix_at lib s v p = length (lsm_scan_prefix_at lib s v p)"
  using lsm_scan_prefix_rows [OF assms] by simp

theorem lsm_scan_prefix_correct_witness:
  "\<exists>r. map_of (lsm_scan_prefix_at stored_codec (plain_tree example_mem [] [(1, r)]) 9 [97]) [97] = Some [9]"
proof (rule example_opened)
  fix r assume r: "sst_opened stored_codec None NoCompression example_entries r"
  let ?s = "plain_tree example_mem [] [(1, r)]"
  have "scan_safe (lsm_entries stored_codec ?s) [97]"
    using example_ok(5) by (simp add: example_tree_ok(2) [OF r] example_mem_map scan_safe_def)
  from lsm_scan_prefix_correct [OF example_tree_ok(1) [OF r] this, of 9 "[97]"] show ?thesis
    by (auto simp: example_tree_ok(2) [OF r] example_mem_map example_entries_def visible_def versions_of_def)
qed

text \<open>The rows of every layer from a start key on, without a bound.\<close>

definition from_pred :: "bytes \<Rightarrow> bytes \<Rightarrow> entry \<Rightarrow> bool" where
  "from_pred p start = entry_key_pred (\<lambda>u. prefix p u \<and> start \<le> u)"

definition full_from_rows :: "sst_lib \<Rightarrow> lsm \<Rightarrow> u64 \<Rightarrow> bytes \<Rightarrow> bytes \<Rightarrow> (bytes \<times> memval) list list" where
  "full_from_rows lib s v p start = layer_rows
     (\<lambda>r. dedup_scan v None (filter (from_pred p start) (sst_contents lib r)))
     (\<lambda>m. dedup_scan v None (filter (from_pred p start) (mt_map m))) s"

lemma from_windows:
  assumes inv: "lsm_inv lib s" and p: "prefix p start"
  shows "layer_rows (\<lambda>r. sst_scan_from_max lib r p start v n) (\<lambda>m. mt_scan_from_max m p start v n) s =
    map (take n) (full_from_rows lib s v p start)"
proof -
  have m: "mt_scan_from_max m p start v n = take n (dedup_scan v None (filter (from_pred p start) (mt_map m)))"
    if "m = l_active s \<or> m \<in> set (l_immutables s)" for m
    using mem.scan_from_law [OF _ p] inv that by (auto simp: lsm_inv_def from_pred_def)
  have r: "sst_scan_from_max lib r p start v n = take n (dedup_scan v None (filter (from_pred p start) (sst_contents lib r)))"
    if "(i, r) \<in> set (l_ssts s)" for i r
    using sst.scan_from_law [OF _ p] inv that by (fastforce simp: lsm_inv_def from_pred_def)
  show ?thesis using m r by (auto simp: layer_rows_def full_from_rows_def o_def)
qed

lemma full_from_ok:
  assumes inv: "lsm_inv lib s" and pf: "prefix_free_keys (user_keys (lsm_entries lib s))"
  shows "\<forall>rows \<in> set (full_from_rows lib s v p start). sorted_wrt (<) (map fst rows)"
    "sorted_entries (merge_rows (full_from_rows lib s v p start))"
    "map_of (merge_rows (full_from_rows lib s v p start)) k =
       (if prefix p k \<and> start \<le> k then visible (lsm_entries lib s) k v else None)"
proof -
  have srt: "sorted_wrt (<) (map fst (dedup_scan v None (filter Q l)))"
    if "layer_wf l" "l \<in> set (lsm_layers lib s)" for l Q
  proof -
    have "prefix_free_keys (user_keys (filter Q l))"
      by (rule prefix_free_mono [OF pf]) (use layer_subset [OF that(2)] in \<open>auto simp: user_keys_def\<close>)
    then show ?thesis
      using dedup_scan_sorted [of "filter Q l" None v] layer_wfD(1,2) [OF that(1)] by simp
  qed
  show "\<forall>rows \<in> set (full_from_rows lib s v p start). sorted_wrt (<) (map fst rows)"
    using srt mem.ok_wf sst.ok_wf mem_layers inv by (fastforce simp: full_from_rows_def layer_rows_def lsm_inv_def)
  have g: "distinct (map fst (dedup_scan v None (filter (from_pred p start) (mt_map m)))) \<and>
      (\<forall>k. map_of (dedup_scan v None (filter (from_pred p start) (mt_map m))) k =
        (if prefix p k \<and> start \<le> k then visible (mt_map m) k v else None))" if "mem_ok m" for m
    using mem.rows_ok [OF that, where v = v and Q = "\<lambda>u. prefix p u \<and> start \<le> u"] unfolding from_pred_def by blast
  have f: "distinct (map fst (dedup_scan v None (filter (from_pred p start) (sst_contents lib r)))) \<and>
      (\<forall>k. map_of (dedup_scan v None (filter (from_pred p start) (sst_contents lib r))) k =
        (if prefix p k \<and> start \<le> k then visible (sst_contents lib r) k v else None))" if "sst_ok lib r" for r
    using sst.rows_ok [OF that, where v = v and Q = "\<lambda>u. prefix p u \<and> start \<le> u"] unfolding from_pred_def by blast
  note m = merged_scan [OF inv, of "\<lambda>m. dedup_scan v None (filter (from_pred p start) (mt_map m))"
      "\<lambda>k. prefix p k \<and> start \<le> k" v "\<lambda>r. dedup_scan v None (filter (from_pred p start) (sst_contents lib r))"]
  show "sorted_entries (merge_rows (full_from_rows lib s v p start))"
    unfolding full_from_rows_def by (rule m(1)) (use f g in blast)+
  show "map_of (merge_rows (full_from_rows lib s v p start)) k =
       (if prefix p k \<and> start \<le> k then visible (lsm_entries lib s) k v else None)"
    unfolding full_from_rows_def by (rule m(2)) (use f g in blast)+
qed

text \<open>
  the chunked scan is a sound cursor. Let \<open>rows\<close> be every key from the start on under the prefix
  with what the snapshot sees of it, tombstones included, in ascending order. A chunk takes the
  first \<open>n\<close> rows: its live entries, its count and its high-water mark are theirs, and when it does
  not report that there may be more, there are no other rows. Stored keys must be prefix-free.
\<close>

theorem scan_chunk_correct:
  assumes "lsm_inv lib s" and "prefix_free_keys (user_keys (lsm_entries lib s))" and "prefix p start" and "0 < n"
  shows "\<exists>rows. sorted_wrt (<) (map fst rows) \<and>
    (\<forall>k. map_of rows k = (if prefix p k \<and> start \<le> k then visible (lsm_entries lib s) k v else None)) \<and>
    lsm_scan_chunk_raw lib s v p start n =
      \<lparr>ch_live = live_rows (take n rows),
       ch_high_water = (if take n rows = [] then None else Some (fst (last (take n rows)))),
       ch_more = ch_more (lsm_scan_chunk_raw lib s v p start n), ch_visited = length (take n rows)\<rparr> \<and>
    (ch_more (lsm_scan_chunk_raw lib s v p start n) \<or> length rows \<le> n)"
proof -
  let ?full = "full_from_rows lib s v p start"
  let ?rows = "merge_rows ?full" and ?win = "merge_rows (map (take n) ?full)"
  note ok = full_from_ok [OF assms(1,2), of v p start]
  have win: "take n ?win = take n ?rows" by (rule merge_windows [OF ok(1)])
  have chunk: "lsm_scan_chunk_raw lib s v p start n =
      \<lparr>ch_live = live_rows (take n ?rows),
       ch_high_water = (if take n ?rows = [] then None else Some (fst (last (take n ?rows)))),
       ch_more = (list_ex (\<lambda>rows. length rows = n) (map (take n) ?full) \<or> n < length ?win),
       ch_visited = length (take n ?rows)\<rparr>"
    using assms(4) by (simp add: lsm_scan_chunk_raw_def from_windows [OF assms(1,3)] Let_def win del: length_take take_eq_Nil take_eq_Nil2)
  have "length ?rows \<le> n" if "\<not> ch_more (lsm_scan_chunk_raw lib s v p start n)"
  proof -
    have "length (take n rows) \<noteq> n" if "rows \<in> set ?full" for rows
      using \<open>\<not> ch_more _\<close> that by (auto simp: chunk list_ex_iff)
    then have "take n rows = rows" if "rows \<in> set ?full" for rows
      using that by (metis length_take min.absorb2 nle_le take_all)
    then have "map (take n) ?full = ?full" by (simp add: map_idI)
    with \<open>\<not> ch_more _\<close> show ?thesis by (simp add: chunk)
  qed
  with ok(2,3) chunk show ?thesis by (intro exI [of _ ?rows]) auto
qed

theorem scan_chunk_correct_witness:
  "\<exists>r rows. lsm_inv stored_codec (plain_tree example_mem [] [(1, r)]) \<and> map_of rows [97] = Some (Some [9]) \<and>
     ch_live (lsm_scan_chunk_raw stored_codec (plain_tree example_mem [] [(1, r)]) 9 [] [] 1) = live_rows (take 1 rows)"
proof (rule example_opened)
  fix r assume r: "sst_opened stored_codec None NoCompression example_entries r"
  let ?s = "plain_tree example_mem [] [(1, r)]"
  have "prefix_free_keys (user_keys (lsm_entries stored_codec ?s))"
    using example_ok(5) by (simp add: example_tree_ok(2) [OF r] example_mem_map prefix_free_keys_def)
  from scan_chunk_correct [OF example_tree_ok(1) [OF r] this, of "[]" "[]" 1 9] obtain rows where
      look: "\<forall>k. map_of rows k = (if prefix [] k \<and> [] \<le> k then visible (lsm_entries stored_codec ?s) k 9 else None)"
      and chunk: "lsm_scan_chunk_raw stored_codec ?s 9 [] [] 1 =
        \<lparr>ch_live = live_rows (take 1 rows),
         ch_high_water = (if take 1 rows = [] then None else Some (fst (last (take 1 rows)))),
         ch_more = ch_more (lsm_scan_chunk_raw stored_codec ?s 9 [] [] 1), ch_visited = length (take 1 rows)\<rparr>"
    using prefix_order.refl zero_less_one by blast
  have rows: "map_of rows [97] = visible (lsm_entries stored_codec ?s) [97] 9"
      "ch_live (lsm_scan_chunk_raw stored_codec ?s 9 [] [] 1) = live_rows (take 1 rows)"
    using look arg_cong [OF chunk, of ch_live] by simp_all
  have "visible (lsm_entries stored_codec ?s) [97] 9 = Some (Some [9])"
    by (simp add: example_tree_ok(2) [OF r] example_mem_map example_entries_def visible_def versions_of_def)
  with rows example_tree_ok(1) [OF r] show ?thesis by metis
qed

section \<open>Bounded scans return deleted rows\<close>

definition resurrecting_tree :: lsm where
  "resurrecting_tree = plain_tree (mt_delete (mt_delete mt_new [97, 1] 3) [97, 2] 4) [mt_put mt_new [97, 2] 2 [8]] []"

lemma resurrecting_maps:
  "mt_map (l_active resurrecting_tree) = [(internal_key [97, 1] 3, None), (internal_key [97, 2] 4, None)]"
  "l_immutables resurrecting_tree = [mt_put mt_new [97, 2] 2 [8]]" "l_ssts resurrecting_tree = []"
  "mt_map (mt_put mt_new [97, 2] 2 [8]) = [(internal_key [97, 2] 2, Some [8])]"
  using key_order [of "[97, 1]" "[97, 2]" 3 4]
  by (simp_all add: resurrecting_tree_def mt_delete_def mt_put_def mt_new_def Let_def not_less_iff_gr_or_eq)

lemma resurrecting_inv: "lsm_inv lib resurrecting_tree"
  using key_order [of "[97, 1]" "[97, 2]" 3 4]
  by (simp add: lsm_inv_def lsm_layers_def resurrecting_maps mem_ok_def layer_wf_def compatible_keys_def ff_compat_def
      newer_than_def)

text \<open>
  C31: the bounded scans are not sound across layers. In a reachable shape of the tree (a newer
  memtable holds two tombstones, an older one an overwritten row under the second) the full scan of
  the prefix is empty, but the scan bounded to one key returns the deleted row: the newer layer's
  window ends before the tombstone that hides it.
\<close>

theorem bounded_scan_resurrects:
  "lsm_inv lib resurrecting_tree \<and> lsm_scan_prefix_at lib resurrecting_tree 9 [97] = [] \<and>
   lsm_scan_prefix_at_limited lib resurrecting_tree 9 [97] 1 = [([97, 2], [8])] \<and>
   lsm_scan_from_at_limited lib resurrecting_tree 9 [97] [97] 1 = [([97, 2], [8])]"
proof -
  let ?a = "l_active resurrecting_tree" and ?i = "mt_put mt_new [97, 2] 2 [8]"
  have ok: "mem_ok ?a" "mem_ok ?i" using resurrecting_inv by (auto simp: lsm_inv_def resurrecting_maps)
  have safe: "scan_safe (mt_map ?a) [97]" "scan_safe (mt_map ?i) [97]"
    by (simp_all add: scan_safe_def resurrecting_maps)
  have scan: "mt_scan_prefix ?a [97] 9 = [([97, 1], None), ([97, 2], None)]" "mt_scan_prefix ?i [97] 9 = [([97, 2], Some [8])]"
    by (simp_all only: mem.scan_law [OF ok(1) safe(1)] mem.scan_law [OF ok(2) safe(2)] resurrecting_maps) simp_all
  have from1: "mt_scan_from_max ?a [97] [97] 9 1 = [([97, 1], None)]" "mt_scan_from_max ?i [97] [97] 9 1 = [([97, 2], Some [8])]"
    by (simp_all add: mem.scan_from_law [OF ok(1)] mem.scan_from_law [OF ok(2)] resurrecting_maps)
  have max1: "mt_scan_prefix_max ?a [97] 9 1 = [([97, 1], None)]" "mt_scan_prefix_max ?i [97] 9 1 = [([97, 2], Some [8])]"
    by (simp_all add: mem.scan_max_law [OF ok(1) safe(1)] mem.scan_max_law [OF ok(2) safe(2)] scan)
  show ?thesis
    by (simp add: resurrecting_inv lsm_scan_prefix_at_def lsm_scan_prefix_at_limited_def lsm_scan_from_at_limited_def
        layer_rows_def resurrecting_maps(2,3) scan from1 [unfolded One_nat_def] max1 [unfolded One_nat_def] merge_rows.simps)
qed

end
