(* ===== verification/Lsm_Maint.thy ===== *)
theory Lsm_Maint
  imports Lsm_Read "HOL-Library.Multiset"
begin

text \<open>
  Maintenance of the LSM tree: a flush changes no read, whatever system call fails; a compaction
  changes no read at a snapshot that is still active, with flushes running beside it. Two theorems
  show what goes wrong: a flush that follows a failed flush hides newer data behind older data, and
  a compaction removes versions that an unregistered snapshot still reads.
\<close>

section \<open>Flush\<close>

lemma mem_ok_new [simp]: "mem_ok mt_new"
  by (simp add: mem_ok_def mt_new_def layer_wf_def compatible_keys_def)

lemma mt_new_map [simp]: "mt_map mt_new = []"
  by (simp add: mt_new_def)

text \<open>The image of the active memtable fits the format.\<close>

definition flush_fits :: "sst_lib \<Rightarrow> lsm \<Rightarrow> bool" where
  "flush_fits lib s \<longleftrightarrow> sst_fits (block_compression (l_config s)) (mt_map (l_active s)) \<and>
     (\<forall>img meta. sst_write lib (cfg_zone_extractor (l_config s)) (block_compression (l_config s)) (mt_map (l_active s)) =
        Some (img, meta) \<longrightarrow> length img < 2 ^ 32)"

lemma flush_image:
  assumes "lz4_ok lib" "flush_fits lib s"
  obtains img meta r where
    "sst_write lib (cfg_zone_extractor (l_config s)) (block_compression (l_config s)) (mt_map (l_active s)) = Some (img, meta)"
    "sst_open lib img = Return r" "sst_repr lib (mt_map (l_active s)) r"
proof (rule sst_write_open_repr [OF assms(1), of "block_compression (l_config s)" "mt_map (l_active s)" "cfg_zone_extractor (l_config s)"])
  show "sst_fits (block_compression (l_config s)) (mt_map (l_active s))" using assms(2) by (simp add: flush_fits_def)
qed (use assms(2) that in \<open>auto simp: flush_fits_def\<close>)

text \<open>Every way a flush can end.\<close>

lemma flush_cases:
  assumes "lz4_ok lib" "flush_fits lib s"
  obtains (unchanged) e g where "flush_locked lib io s = (Fail e, s\<lparr>l_guard := g\<rparr>)"
  | (empty) g where "flush_locked lib io s = (Return (), s\<lparr>l_guard := g, l_active := mt_new\<rparr>)" "mt_map (l_active s) = []"
  | (rotated) e g d where "flush_locked lib io s = (Fail e, s\<lparr>l_guard := g, l_active := mt_new,
      l_immutables := l_immutables s @ [l_active s], l_next_sst_id := l_next_sst_id s + 1, l_dir := d\<rparr>)"
  | (written) res g w img meta r where "flush_locked lib io s = (res, s\<lparr>l_guard := g, l_active := mt_new,
      l_next_sst_id := l_next_sst_id s + 1, l_dir := (l_dir s)(l_next_sst_id s \<mapsto> img),
      l_ssts := l_ssts s @ [(l_next_sst_id s, r)], l_wal := w\<rparr>)"
      "sst_write lib (cfg_zone_extractor (l_config s)) (block_compression (l_config s)) (mt_map (l_active s)) = Some (img, meta)"
      "sst_open lib img = Return r" "sst_repr lib (mt_map (l_active s)) r"
      "res = Return () \<and> w = create_fresh \<or> res = Fail Io" "\<not> mt_is_empty (l_active s)"
proof -
  obtain img meta r where img: "sst_write lib (cfg_zone_extractor (l_config s)) (block_compression (l_config s)) (mt_map (l_active s)) = Some (img, meta)"
    "sst_open lib img = Return r" "sst_repr lib (mt_map (l_active s)) r"
    using flush_image [OF assms] by blast
  obtain v g where v: "verify_owner (l_guard s) (sio_lock io) = (v, g)" by (cases "verify_owner (l_guard s) (sio_lock io)")
  show ?thesis
  proof (cases v)
    case (Inl e)
    then show ?thesis using unchanged v by (simp add: flush_locked_def)
  next
    case (Inr u)
    note fl = flush_locked_def v Inr Let_def mt_iter_def img
    show ?thesis
    proof (cases "mt_is_empty (l_active s)")
      case True
      then show ?thesis using empty [where g = g] by (simp add: fl mt_is_empty_def)
    next
      case False
      show ?thesis
      proof (cases "sio_write io")
        case wr: True
        show ?thesis
        proof (cases "sio_map io")
          case True
          define res w where "res = (case sio_wal io of Fresh_done \<Rightarrow> Return () | _ \<Rightarrow> Fail Io)"
            and "w = snd (recreate_wal (sio_wal io) (l_wal s))"
          have "flush_locked lib io s = (res, s\<lparr>l_guard := g, l_active := mt_new,
              l_next_sst_id := l_next_sst_id s + 1, l_dir := (l_dir s)(l_next_sst_id s \<mapsto> img),
              l_ssts := l_ssts s @ [(l_next_sst_id s, r)], l_wal := w\<rparr>)"
            using False wr True by (simp add: fl res_def w_def recreate_wal_def split: fresh_io.split)
          moreover have "res = Return () \<and> w = create_fresh \<or> res = Fail Io"
            by (simp add: res_def w_def recreate_wal_def split: fresh_io.split)
          ultimately show ?thesis using written img False by blast
        next
          case False
          with \<open>\<not> mt_is_empty _\<close> wr show ?thesis
            using rotated [where e = Io and g = g and d = "(l_dir s)(l_next_sst_id s \<mapsto> img)"] by (simp add: fl)
        qed
      next
        case wr: False
        have "flush_locked lib io s = (Fail Io, s\<lparr>l_guard := g, l_active := mt_new,
            l_immutables := l_immutables s @ [l_active s], l_next_sst_id := l_next_sst_id s + 1, l_dir := l_dir s\<rparr>)"
          using False wr by (simp add: fl)
        then show ?thesis by (rule rotated)
      qed
    qed
  qed
qed

lemma flush_layers:
  assumes lz4: "lz4_ok lib" and fits: "flush_fits lib s" and imm: "l_immutables s = []" and inv: "lsm_inv lib s"
  shows "lsm_inv lib (snd (flush_locked lib io s)) \<and> lsm_entries lib (snd (flush_locked lib io s)) = lsm_entries lib s"
proof (cases rule: flush_cases [OF lz4 fits, of io])
  case 1
  then show ?thesis using inv by (simp add: lsm_inv_def lsm_entries_def lsm_layers_def)
next
  case 2
  then show ?thesis using inv imm by (simp add: lsm_inv_def lsm_entries_def lsm_layers_def)
next
  case 3
  then show ?thesis using inv imm by (simp add: lsm_inv_def lsm_entries_def lsm_layers_def)
next
  case (4 res g w img meta r)
  have "layer_wf (mt_map (l_active s))" using inv by (simp add: lsm_inv_def mem_ok_def)
  from sst_ok_repr [OF 4(4) this] 4 show ?thesis
    using inv imm by (simp add: lsm_inv_def lsm_entries_def lsm_layers_def sst_contents_repr [OF 4(4)])
qed

section \<open>What a compaction keeps\<close>

lemma compact_keep_subset: "set (compact_keep m p f es) \<subseteq> set es"
proof (induction es arbitrary: p f)
  case (Cons e es)
  obtain key val where e: "e = (key, val)" by (cases e)
  have IH: "set (compact_keep m p f es) \<subseteq> insert e (set es)" for p f using Cons.IH [of p f] by blast
  show ?case by (simp add: e Let_def) (use IH in \<open>auto simp: e\<close>)
qed simp

lemma compact_keep_sorted: "sorted_entries es \<Longrightarrow> sorted_entries (compact_keep m p f es)"
proof (induction es arbitrary: p f)
  case (Cons e es)
  obtain key val where e: "e = (key, val)" by (cases e)
  have "key < j" if "j \<in> fst ` set (compact_keep m p' f' es)" for j p' f'
    using that compact_keep_subset [of m p' f' es] Cons.prems by (auto simp: e)
  with Cons show ?case by (auto simp: e Let_def)
qed simp

text \<open>A snapshot at or above the floor, or above every version, finds what it found before.\<close>

lemma compact_keep_find:
  "m \<le> v \<or> (\<forall>e \<in> set es. ik_version (fst e) \<le> v) \<Longrightarrow> \<not> (p = Some k \<and> f) \<Longrightarrow>
   find (wanted k v) (compact_keep m p f es) = find (wanted k v) es"
proof (induction m p f es rule: compact_keep.induct)
  case (2 m p f key val es)
  let ?u = "take (length key - 8) key" and ?w = "NOT (be_u64 (drop (length key - 8) key))"
  show ?case
  proof (cases "length key < 8")
    case True
    then have "\<not> wanted k v (key, val)" by (simp add: wanted_def)
    moreover have "m \<le> v \<or> (\<forall>e \<in> set es. ik_version (fst e) \<le> v)" using "2.prems"(1) by auto
    ultimately show ?thesis using True "2.IH"(1) "2.prems"(2) by simp
  next
    case long: False
    have uw: "ik_user_key key = ?u" "ik_version key = ?w" by (simp_all add: ik_user_key_def ik_version_def)
    have cond: "m \<le> v \<or> (\<forall>e \<in> set es. ik_version (fst e) \<le> v)" using "2.prems"(1) by auto
    show ?thesis
    proof (cases "p = Some ?u \<and> f")
      case True
      then have "\<not> wanted k v (key, val)" "\<not> (Some ?u = Some k \<and> f)"
        using "2.prems"(2) uw by (auto simp: wanted_def)
      with True long "2.IH"(3) [OF long refl refl refl refl _ cond] show ?thesis by (simp add: Let_def)
    next
      case False
      show ?thesis
      proof (cases "wanted k v (key, val)")
        case True
        with False long show ?thesis by (simp add: Let_def)
      next
        case no: False
        have "\<not> (Some ?u = Some k \<and> ?w \<le> m)"
        proof
          assume a: "Some ?u = Some k \<and> ?w \<le> m"
          then have "?w \<le> v" using "2.prems"(1) uw(2) by (auto dest: order_trans)
          with a no long uw show False by (simp add: wanted_def)
        qed
        with False long no "2.IH"(2) [OF long refl refl refl refl _ cond] show ?thesis by (simp add: Let_def)
      qed
    qed
  qed
qed simp

lemma compact_keep_visible:
  assumes "sorted_entries es" and "m \<le> v \<or> (\<forall>e \<in> set es. ik_version (fst e) \<le> v)"
  shows "visible (compact_keep m None False es) k v = visible es k v"
  using visible_find [OF assms(1), of k v] visible_find [OF compact_keep_sorted [OF assms(1)], of m None False k v]
    compact_keep_find [OF assms(2), of None k False] by simp

text \<open>Visibility does not depend on the order of entries with distinct internal keys.\<close>

lemma newest_eq_Max:
  assumes "distinct (map fst xs)" "xs \<noteq> []"
  shows "newest xs = Some (Max (fst ` set xs), the (map_of xs (Max (fst ` set xs))))"
proof -
  obtain w x where n: "newest xs = Some (w, x)" using assms(2) by (cases "newest xs") auto
  note in_max = newest_Some [OF n]
  have "Max (fst ` set xs) = w" by (rule Max_eqI) (use in_max in force)+
  moreover have "map_of xs w = Some x" using in_max assms(1) by simp
  ultimately show ?thesis using n by simp
qed

lemma newest_perm:
  assumes "distinct (map fst xs)" "distinct (map fst ys)" "set xs = set ys"
  shows "newest xs = newest ys"
proof (cases "xs = []")
  case False
  moreover have "map_of xs = map_of ys"
    using assms map_of_inject_set by blast
  ultimately show ?thesis using newest_eq_Max [OF assms(1)] newest_eq_Max [OF assms(2)] assms(3) by fastforce
qed (use assms(3) in simp)

lemma versions_distinct:
  assumes "distinct (map fst es)" shows "distinct (map fst (versions_of es k))"
proof -
  let ?f = "filter (\<lambda>(ik, x). 8 \<le> length ik \<and> ik_user_key ik = k) es"
  have "inj_on ik_version (set (map fst ?f))"
    by (rule inj_onI) (auto, metis internal_key_collapse)
  moreover have "distinct (map fst ?f)" using assms by (simp add: distinct_map_filter)
  ultimately have "distinct (map ik_version (map fst ?f))" by (subst distinct_map) blast
  then show ?thesis by (simp add: versions_of_def o_def case_prod_beta)
qed

lemma visible_perm:
  assumes "distinct (map fst a)" "distinct (map fst b)" "set a = set b"
  shows "visible a k v = visible b k v"
proof -
  have "set (filter (\<lambda>(w, x). w \<le> v) (versions_of a k)) = set (filter (\<lambda>(w, x). w \<le> v) (versions_of b k))"
    using assms(3) by (auto simp: versions_of_def)
  moreover have "distinct (map fst (filter Q (versions_of es k)))" if "distinct (map fst es)" for Q es
    using versions_distinct [OF that] by (simp add: distinct_map_filter)
  ultimately show ?thesis using newest_perm assms(1,2) unfolding visible_def by metis
qed

section \<open>Compaction\<close>

lemma read_all_ok:
  "\<forall>(i, r) \<in> set rs. sst_ok lib r \<Longrightarrow> read_all lib rs = Inr (concat (map (\<lambda>(i, r). sst_contents lib r) rs))"
  by (induction rs) (auto simp: sst_ok_def try_for_each_entry_repr)

lemma sort_key_strict:
  assumes "distinct (map fst es)" shows "sorted_entries (sort_key fst es)"
proof -
  have "distinct (map fst (sort_key fst es))" using assms by (simp add: distinct_map)
  then show ?thesis using sorted_sort_key [of fst es] by (simp add: strict_sorted_iff)
qed

text \<open>Older layers replaced by one with the same visible versions.\<close>

lemma replace_old_layers:
  assumes ord: "newer_than new old" and sub: "set kept \<subseteq> set old" and vis: "visible kept k v = visible old k v"
  shows "visible (new @ kept) k v = visible (new @ old) k v"
  using visible_newer [OF ord, of k v] visible_newer [OF newer_than_subset [OF ord sub], of k v] vis
  by metis

definition compact_fits :: "sst_lib \<Rightarrow> lsm \<Rightarrow> compaction_job \<Rightarrow> bool" where
  "compact_fits lib s job \<longleftrightarrow>
     (let kept = compact_keep (job_min_snapshot job) None False (sort_key fst (job_entries job))
      in sst_fits (block_compression (l_config s)) kept \<and>
         (\<forall>img meta. sst_write lib (cfg_zone_extractor (l_config s)) (block_compression (l_config s)) kept =
            Some (img, meta) \<longrightarrow> length img < 2 ^ 32))"

text \<open>Every way the installation can end: the list of SST files is unchanged or swapped.\<close>

lemma install_cases:
  assumes lz4: "lz4_ok lib" and fits: "compact_fits lib s job"
    and kept: "kept = compact_keep (job_min_snapshot job) None False (sort_key fst (job_entries job))"
    and others: "others = filter (\<lambda>(i, r). i \<notin> set (job_ids job)) (l_ssts s)"
  obtains (failed) e d where "compact_install lib io job s = (Fail e, s\<lparr>l_next_sst_id := l_next_sst_id s + 1, l_dir := d\<rparr>)"
      "\<not> (sio_write io \<and> sio_map io)"
  | (emptied) d where "compact_install lib io job s =
      (Return (), s\<lparr>l_next_sst_id := l_next_sst_id s + 1, l_ssts := others, l_dir := d\<rparr>)" "kept = []"
  | (swapped) img r where "compact_install lib io job s =
      (Return (), s\<lparr>l_next_sst_id := l_next_sst_id s + 1, l_ssts := (l_next_sst_id s, r) # others,
         l_dir := remove_files (sio_unlink io) (job_ids job) ((l_dir s)(l_next_sst_id s \<mapsto> img))\<rparr>)"
      "sst_repr lib kept r" "sst_open lib img = Return r" "kept \<noteq> []"
proof -
  have f: "sst_fits (block_compression (l_config s)) kept" using fits by (simp add: compact_fits_def kept Let_def)
  obtain img meta where wr: "sst_write lib (cfg_zone_extractor (l_config s)) (block_compression (l_config s)) kept = Some (img, meta)"
      "sm_entry_count meta = length kept" "length img < 2 ^ 32 \<Longrightarrow> \<exists>r. sst_open lib img = Return r \<and> sst_repr lib kept r"
    using sst_write_open_repr [OF lz4 f, of "cfg_zone_extractor (l_config s)"] by blast
  have "length img < 2 ^ 32" using fits wr(1) by (simp add: compact_fits_def kept Let_def)
  then obtain r where r: "sst_open lib img = Return r" "sst_repr lib kept r" using wr(3) by blast
  note def = compact_install_def kept [symmetric] wr(1) r(1) Let_def others [symmetric]
  have z: "sm_entry_count meta = 0 \<longleftrightarrow> kept = []" using wr(2) by simp
  show ?thesis
  proof (cases "sio_write io")
    case False
    have "compact_install lib io job s = (Fail Io, s\<lparr>l_next_sst_id := l_next_sst_id s + 1, l_dir := l_dir s\<rparr>)"
      using False by (simp add: def)
    then show ?thesis by (rule failed) (simp add: False)
  next
    case wok: True
    show ?thesis
    proof (cases "kept = []")
      case True
      have "compact_install lib io job s = (Return (), s\<lparr>l_next_sst_id := l_next_sst_id s + 1, l_ssts := others,
          l_dir := remove_files (sio_unlink io) (l_next_sst_id s # job_ids job) ((l_dir s)(l_next_sst_id s \<mapsto> img))\<rparr>)"
        using wok z [THEN iffD2, OF True] by (simp add: def)
      then show ?thesis using emptied True by blast
    next
      case ne: False
      show ?thesis
      proof (cases "sio_map io")
        case True
        then show ?thesis
          using swapped [OF _ r(2,1) ne] wok ne z by (simp add: def)
      next
        case False
        then show ?thesis
          using failed [where e = Io and d = "(l_dir s)(l_next_sst_id s \<mapsto> img)"] wok ne z by (simp add: def)
      qed
    qed
  qed
qed

text \<open>The job a compaction read from \<open>old\<close>, and a state in which newer files were added since.\<close>

definition job_for :: "sst_lib \<Rightarrow> (u64 \<times> sst_reader) list \<Rightarrow> u64 \<Rightarrow> compaction_job" where
  "job_for lib old min_snapshot = \<lparr>job_ids = map fst old,
     job_entries = concat (map (\<lambda>(i, r). sst_contents lib r) old), job_min_snapshot = min_snapshot\<rparr>"

lemma compact_read_job:
  assumes "lsm_inv lib s" and "2 \<le> length (l_ssts s)" and "verify_owner (l_guard s) (sio_lock io) = (Inr u, g)"
  shows "compact_read lib io s =
    (Return (Some (job_for lib (l_ssts s) (min_active_snapshot (l_tm s)))), s\<lparr>l_guard := g\<rparr>)"
  using assms read_all_ok [of "l_ssts s" lib] by (simp add: compact_read_def job_for_def Let_def lsm_inv_def)

lemma compact_install_reads:
  assumes lz4: "lz4_ok lib" and inv: "lsm_inv lib s" and ssts: "l_ssts s = old @ extra"
    and ids: "fst ` set old \<inter> fst ` set extra = {}" and fits: "compact_fits lib s (job_for lib old m)"
    and dist: "distinct (map fst (job_entries (job_for lib old m)))"
    and compat: "compatible_keys (user_keys (job_entries (job_for lib old m)))"
  shows "lsm_inv lib (snd (compact_install lib io (job_for lib old m) s)) \<and>
    set (lsm_entries lib (snd (compact_install lib io (job_for lib old m) s))) \<subseteq> set (lsm_entries lib s) \<and>
    (m \<le> v \<or> (\<forall>e \<in> set (job_entries (job_for lib old m)). ik_version (fst e) \<le> v) \<longrightarrow>
      visible (lsm_entries lib (snd (compact_install lib io (job_for lib old m) s))) k v =
      visible (lsm_entries lib s) k v)"
proof -
  let ?c = "\<lambda>(i, r). sst_contents lib r" and ?job = "job_for lib old m"
  define all where "all = job_entries ?job"
  define kept where "kept = compact_keep (job_min_snapshot ?job) None False (sort_key fst (job_entries ?job))"
  define top where "top = mt_map (l_active s) # map mt_map (rev (l_immutables s)) @ map ?c (rev extra)"
  have all: "all = concat (map ?c old)" by (simp add: all_def job_for_def)
  have layers: "lsm_layers lib s = top @ map ?c (rev old)" by (simp add: lsm_layers_def ssts top_def)
  have srt: "sorted_wrt newer_than top" and ord: "newer_than (concat top) (concat (map ?c (rev old)))"
    and each: "\<And>a. a \<in> set top \<Longrightarrow> newer_than a (concat (map ?c (rev old)))"
    using newer_than_layers [of top "map ?c (rev old)"] inv by (simp_all add: lsm_inv_def layers)
  have sub: "set kept \<subseteq> set all" "set (concat (map ?c (rev old))) = set all"
    using compact_keep_subset [of m None False "sort_key fst all"] by (auto simp: kept_def all_def job_for_def)
  have strict: "sorted_entries (sort_key fst all)" by (rule sort_key_strict) (use dist in \<open>simp add: all_def\<close>)
  have dist_rev: "distinct (map fst (concat (map ?c (rev old))))"
  proof -
    have "mset (concat (map ?c (rev old))) = mset all" by (simp add: all mset_concat rev_map [symmetric] sum_list_rev)
    then have "mset (map fst (concat (map ?c (rev old)))) = mset (map fst all)" by (metis mset_map)
    then show ?thesis using dist mset_eq_imp_distinct_iff unfolding all_def by blast
  qed
  have vis: "visible kept k v = visible (concat (map ?c (rev old))) k v"
    if "m \<le> v \<or> (\<forall>e \<in> set all. ik_version (fst e) \<le> v)"
  proof -
    have "visible kept k v = visible (sort_key fst all) k v"
      using compact_keep_visible [OF strict, of m v k] that by (simp add: kept_def job_for_def all_def)
    also have "\<dots> = visible (concat (map ?c (rev old))) k v"
      by (rule visible_perm) (use dist dist_rev sub(2) in \<open>simp_all add: all_def distinct_map\<close>)
    finally show ?thesis .
  qed
  have wf: "layer_wf kept"
  proof -
    have "sorted_entries kept" unfolding kept_def by (rule compact_keep_sorted) (use strict in \<open>simp add: all_def\<close>)
    moreover have "entry_ok e" if e: "e \<in> set kept" for e
    proof -
      obtain i r where r: "(i, r) \<in> set old" "e \<in> set (sst_contents lib r)"
        using subsetD [OF sub(1) e] unfolding all by fastforce
      then have "sst_ok lib r" using inv by (auto simp: lsm_inv_def ssts)
      from layer_wfD(3) [OF sst.ok_wf [OF this] r(2)] show ?thesis .
    qed
    moreover have "compatible_keys (user_keys kept)"
      using compat sub(1) by (auto simp: compatible_keys_def user_keys_def all_def)
    ultimately show ?thesis by (simp add: layer_wf_def)
  qed
  have others: "extra = filter (\<lambda>(i, r). i \<notin> set (job_ids ?job)) (l_ssts s)"
  proof -
    have "filter (\<lambda>(i, r). i \<notin> fst ` set old) old = []" by (force simp: filter_empty_conv)
    moreover have "filter (\<lambda>(i, r). i \<notin> fst ` set old) extra = extra"
    proof (rule filter_True)
      show "\<forall>x \<in> set extra. case x of (i, r) \<Rightarrow> i \<notin> fst ` set old" using ids by force
    qed
    ultimately show ?thesis by (simp add: ssts job_for_def)
  qed
  show ?thesis
  proof (cases rule: install_cases [OF lz4 fits kept_def others, of io])
    case 1
    then show ?thesis using inv by (simp add: lsm_inv_def lsm_entries_def lsm_layers_def)
  next
    case (2 d)
    let ?s = "snd (compact_install lib io ?job s)"
    have l: "lsm_layers lib ?s = top" using 2 by (simp add: lsm_layers_def top_def)
    have "lsm_inv lib ?s" using inv srt unfolding lsm_inv_def l by (simp add: 2(1) ssts)
    moreover have "visible (concat top @ []) k v = visible (concat top @ concat (map ?c (rev old))) k v"
      if "m \<le> v \<or> (\<forall>e \<in> set all. ik_version (fst e) \<le> v)"
      by (rule replace_old_layers [OF ord]) (use vis [OF that] 2(2) in simp_all)
    ultimately show ?thesis by (auto simp: lsm_entries_def l layers all_def)
  next
    case (3 img r)
    let ?s = "snd (compact_install lib io ?job s)"
    have l: "lsm_layers lib ?s = top @ [kept]"
      using 3 by (simp add: lsm_layers_def top_def sst_contents_repr [OF 3(2)])
    have "\<forall>a \<in> set top. newer_than a kept" using each newer_than_subset sub by blast
    then have "sorted_wrt newer_than (top @ [kept])" using srt by (simp add: sorted_wrt_append)
    then have "lsm_inv lib ?s" using inv sst_ok_repr [OF 3(2) wf] unfolding lsm_inv_def l by (simp add: 3(1) ssts)
    moreover have "visible (concat top @ kept) k v = visible (concat top @ concat (map ?c (rev old))) k v"
      if "m \<le> v \<or> (\<forall>e \<in> set all. ik_version (fst e) \<le> v)"
      by (rule replace_old_layers [OF ord]) (use vis [OF that] sub in simp_all)
    moreover have "set kept \<subseteq> set (concat (map ?c (rev old)))" using sub by simp
    ultimately show ?thesis by (auto simp: lsm_entries_def l layers all_def)
  qed
qed

section \<open>Properties of maintenance\<close>

text \<open>
  C11: a flush loses nothing. From a tree without left-over immutable memtables, a flush keeps the
  invariant and the entries of all layers together, whether it succeeds, finds the directory taken over by another process, or fails when it
  writes or maps the file or re-creates the log.
\<close>

theorem flush_keeps_reads:
  assumes "lz4_ok lib" and "flush_fits lib s" and "lsm_inv lib s" and "l_immutables s = []"
  shows "lsm_inv lib (snd (lsm_flush lib io s)) \<and> lsm_entries lib (snd (lsm_flush lib io s)) = lsm_entries lib s"
  using flush_layers [OF assms(1,2,4,3)] by (simp add: lsm_flush_def)

definition good_io :: store_io where
  "good_io = \<lparr>sio_lock = Some (lock_metadata 1 [] []), sio_write = True, sio_map = True, sio_wal = Fresh_done,
     sio_unlink = (\<lambda>_. True)\<rparr>"

lemma small_flush_fits:
  assumes "mt_map (l_active s) = es" "l_config s = config_new" "long_keys es" "\<forall>e \<in> set es. entry_fits e"
    "2 * length (enc_block es) + 7 * length es < 2 ^ 20"
  shows "flush_fits stored_codec s"
proof -
  have fits: "sst_fits NoCompression es" using assms by (simp add: sst_fits_def blocks_fit_def)
  obtain r where "sst_opened stored_codec None NoCompression es r"
    using sst_opened_exists [OF stored_codec_ok fits] assms(5) by auto
  with fits show ?thesis by (auto simp: flush_fits_def assms(1,2) config_new_def sst_opened_def)
qed

theorem flush_keeps_reads_witness:
  "lsm_inv stored_codec (snd (lsm_flush stored_codec good_io (plain_tree example_mem [] []))) \<and>
   lsm_entries stored_codec (snd (lsm_flush stored_codec good_io (plain_tree example_mem [] []))) =
   lsm_entries stored_codec (plain_tree example_mem [] [])"
proof (rule flush_keeps_reads [OF stored_codec_ok])
  show "flush_fits stored_codec (plain_tree example_mem [] [])"
    by (rule small_flush_fits [where es = "[(internal_key [97] 7, Some [9])]"])
       (simp_all add: example_mem_map plain_tree_def [of example_mem] entry_fits_def length_entry_bytes)
  show "lsm_inv stored_codec (plain_tree example_mem [] [])"
    by (simp add: lsm_inv_def lsm_layers_def mem_ok_def example_mem_map layer_wf_def compatible_keys_def ff_compat_def)
qed simp

text \<open>
  C10: compaction is invisible to active snapshots. Let a compaction read the files \<open>old\<close> with the
  floor \<open>m\<close>, and let any files \<open>extra\<close> be flushed before it installs its result; the files it read hold each internal
  key once. Whatever system call fails, the installation keeps the tree's invariant and, at every snapshot at or
  above the floor, or at or above every version in the merged files, the newest version of every key that the
  entries of the tree hold (\<open>visible\<close>); and the point read of a key that no stored key continues returns what it returned before.
\<close>

theorem compaction_keeps_reads:
  assumes "lz4_ok lib" and "lsm_inv lib s" and "l_ssts s = old @ extra"
    and "fst ` set old \<inter> fst ` set extra = {}" and "compact_fits lib s (job_for lib old m)"
    and "distinct (map fst (job_entries (job_for lib old m)))"
    and "compatible_keys (user_keys (job_entries (job_for lib old m)))"
    and "m \<le> v \<or> (\<forall>e \<in> set (job_entries (job_for lib old m)). ik_version (fst e) \<le> v)"
  shows "lsm_inv lib (snd (compact_install lib io (job_for lib old m) s)) \<and>
    visible (lsm_entries lib (snd (compact_install lib io (job_for lib old m) s))) k v =
      visible (lsm_entries lib s) k v \<and>
    (readable (lsm_entries lib s) k \<and> v < 2 ^ 56 \<longrightarrow>
      lsm_get_at lib (snd (compact_install lib io (job_for lib old m) s)) v k = lsm_get_at lib s v k)"
proof -
  let ?s' = "snd (compact_install lib io (job_for lib old m) s)"
  have r: "lsm_inv lib ?s'" "set (lsm_entries lib ?s') \<subseteq> set (lsm_entries lib s)"
    "visible (lsm_entries lib ?s') k v = visible (lsm_entries lib s) k v"
    using compact_install_reads [OF assms(1-7)] assms(8) by blast+
  have "readable (lsm_entries lib s) k \<Longrightarrow> readable (lsm_entries lib ?s') k"
    using r(2) by (fastforce simp: readable_def no_extension_def user_keys_def)
  then show ?thesis using r lsm_get_at_visible [OF assms(2)] lsm_get_at_visible [OF r(1)] by simp
qed

text \<open>Two files with one version of a key each.\<close>

lemma two_files:
  obtains r1 r2 where "sst_repr stored_codec [(internal_key [97] 3, Some [1])] r1"
    "sst_repr stored_codec [(internal_key [97] 5, Some [2])] r2"
proof -
  have fits: "sst_fits NoCompression [(internal_key [97] w, Some [x])]" for w x
    by (simp add: sst_fits_def blocks_fit_def entry_fits_def length_entry_bytes)
  have "\<exists>r. sst_repr stored_codec [(internal_key [97] w, Some [x])] r" for w x
  proof (rule sst_opened_exists [OF stored_codec_ok fits [of w x]])
    fix r
    assume "sst_opened stored_codec None NoCompression [(internal_key [97] w, Some [x])] r"
    from opened_repr [OF stored_codec_ok fits this] show ?thesis by blast
  qed (simp add: length_entry_bytes)
  then show ?thesis using that by blast
qed

lemma two_files_tree:
  assumes r: "sst_repr stored_codec [(internal_key [97] 3, Some [1])] r1"
    "sst_repr stored_codec [(internal_key [97] 5, Some [2])] r2"
  shows "lsm_inv stored_codec (plain_tree mt_new [] [(1, r1), (2, r2)])"
    "lsm_entries stored_codec (plain_tree mt_new [] [(1, r1), (2, r2)]) =
       [(internal_key [97] 5, Some [2]), (internal_key [97] 3, Some [1])]"
    "job_entries (job_for stored_codec [(1, r1), (2, r2)] m) =
       [(internal_key [97] 3, Some [1]), (internal_key [97] 5, Some [2])]"
    "compact_fits stored_codec (plain_tree mt_new [] [(1, r1), (2, r2)]) (job_for stored_codec [(1, r1), (2, r2)] m)"
proof -
  have wf: "layer_wf [(internal_key [97] w, Some [x])]" if "w < 2 ^ 56" for w x
    using that by (simp add: layer_wf_def entry_ok_def compatible_keys_def ff_compat_def)
  have ok: "sst_ok stored_codec r1" "sst_ok stored_codec r2"
    using sst_ok_repr [OF r(1) wf] sst_ok_repr [OF r(2) wf] by simp_all
  note c = sst_contents_repr [OF r(1)] sst_contents_repr [OF r(2)]
  show "lsm_inv stored_codec (plain_tree mt_new [] [(1, r1), (2, r2)])"
    using ok by (simp add: lsm_inv_def lsm_layers_def c newer_than_def)
  show "lsm_entries stored_codec (plain_tree mt_new [] [(1, r1), (2, r2)]) =
       [(internal_key [97] 5, Some [2]), (internal_key [97] 3, Some [1])]"
    by (simp add: lsm_entries_def lsm_layers_def c)
  show e: "job_entries (job_for stored_codec [(1, r1), (2, r2)] m) =
       [(internal_key [97] 3, Some [1]), (internal_key [97] 5, Some [2])]"
    by (simp add: job_for_def c)
  let ?kept = "compact_keep m None False (sort_key fst (job_entries (job_for stored_codec [(1, r1), (2, r2)] m)))"
  have sub: "set ?kept \<subseteq> {(internal_key [97] 3, Some [1]), (internal_key [97] 5, Some [2])}"
    by (rule order_trans [OF compact_keep_subset]) (simp add: e)
  have srt: "sorted_entries ?kept" by (rule compact_keep_sorted [OF sort_key_strict]) (simp add: e)
  have len: "length ?kept \<le> 2"
  proof -
    have "distinct ?kept" using srt by (simp add: strict_sorted_iff distinct_map)
    then have "length ?kept = card (set ?kept)" by (simp add: distinct_card)
    also have "\<dots> \<le> card {(internal_key [97] 3, Some [1 :: byte]), (internal_key [97] 5, Some [2])}"
      by (rule card_mono [OF _ sub]) simp
    finally show ?thesis by (simp add: card_insert_if split: if_splits)
  qed
  have mem: "e \<in> set ?kept \<Longrightarrow> length (entry_bytes (fst e) (snd e)) \<le> 18 \<and> entry_fits e \<and> 8 \<le> length (fst e)" for e
    using sub by (auto simp: length_entry_bytes entry_fits_def)
  have fits: "sst_fits NoCompression ?kept"
    using mem len by (auto simp: sst_fits_def blocks_fit_def long_keys_def)
  have "length (enc_block ?kept) \<le> length ?kept * 18" by (rule enc_block_bound) (use mem in blast)
  then have "length (enc_block ?kept) \<le> 36" using len by linarith
  then obtain r where "sst_opened stored_codec None NoCompression ?kept r"
    using sst_opened_exists [OF stored_codec_ok fits] len by auto
  with fits show "compact_fits stored_codec (plain_tree mt_new [] [(1, r1), (2, r2)]) (job_for stored_codec [(1, r1), (2, r2)] m)"
    by (auto simp: compact_fits_def plain_tree_def config_new_def sst_opened_def Let_def job_for_def)
qed

theorem compaction_keeps_reads_witness:
  "\<exists>r1 r2. lsm_get_at stored_codec (snd (compact_install stored_codec good_io (job_for stored_codec [(1, r1), (2, r2)] 4)
        (plain_tree mt_new [] [(1, r1), (2, r2)]))) 4 [97] =
      lsm_get_at stored_codec (plain_tree mt_new [] [(1, r1), (2, r2)]) 4 [97] \<and>
    visible (lsm_entries stored_codec (snd (compact_install stored_codec good_io (job_for stored_codec [(1, r1), (2, r2)] 4)
        (plain_tree mt_new [] [(1, r1), (2, r2)])))) [97] 4 = Some (Some [1])"
proof (rule two_files)
  fix r1 r2
  assume r: "sst_repr stored_codec [(internal_key [97] 3, Some [1])] r1"
    "sst_repr stored_codec [(internal_key [97] 5, Some [2])] r2"
  note t = two_files_tree [OF r]
  have rd: "readable (lsm_entries stored_codec (plain_tree mt_new [] [(1, r1), (2, r2)])) [97]"
    by (simp add: t(2) readable_def no_extension_def ff_compat_def)
  let ?s' = "snd (compact_install stored_codec good_io (job_for stored_codec [(1, r1), (2, r2)] 4) (plain_tree mt_new [] [(1, r1), (2, r2)]))"
  have "visible (lsm_entries stored_codec ?s') [97] 4 = visible (lsm_entries stored_codec (plain_tree mt_new [] [(1, r1), (2, r2)])) [97] 4"
    "lsm_get_at stored_codec ?s' 4 [97] = lsm_get_at stored_codec (plain_tree mt_new [] [(1, r1), (2, r2)]) 4 [97]"
    using compaction_keeps_reads [OF stored_codec_ok t(1), of "[(1, r1), (2, r2)]" "[]" 4 4 good_io "[97]"] t(4) rd
    by (simp_all add: t(3) compatible_keys_def ff_compat_def)
  then show ?thesis by (intro exI [of _ r1] exI [of _ r2] conjI) (auto simp: t(2) visible_def versions_of_def)
qed

text \<open>
  the read-only fast path is not protected from compaction. A snapshot taken without registering
  a transaction does not hold the floor down; in a tree with two versions of a key a read between
  them returns the older one, and after a compaction with no active transaction the same read
  returns nothing.
\<close>

theorem unregistered_snapshot_loses_key:
  "\<exists>s. lsm_inv stored_codec s \<and> min_active_snapshot (l_tm s) = - 1 \<and>
     lsm_get_at stored_codec s 4 [97] = Return (Some [1]) \<and>
     lsm_get_at stored_codec (snd (lsm_compact stored_codec good_io s)) 4 [97] = Return None"
proof (rule two_files)
  fix r1 r2
  assume r: "sst_repr stored_codec [(internal_key [97] 3, Some [1])] r1"
    "sst_repr stored_codec [(internal_key [97] 5, Some [2])] r2"
  note t = two_files_tree [OF r]
  let ?s = "plain_tree mt_new [] [(1, r1), (2, r2)]" and ?old = "[(1, r1), (2, r2)]"
  have min: "min_active_snapshot (l_tm ?s) = - 1"
    by (simp add: plain_tree_def recover_at_version_def min_active_snapshot_def min_key_def)
  have "read_owner_id (sio_lock good_io) = Some 1" using read_owner_stamp [of 1 "[]" "[]"] by (simp add: good_io_def)
  then have ver: "verify_owner (l_guard ?s) (sio_lock good_io) = (Inr (), l_guard ?s)"
    by (simp add: verify_owner_def plain_tree_def)
  have guard: "?s\<lparr>l_guard := l_guard ?s\<rparr> = ?s" by simp
  have read: "compact_read stored_codec good_io ?s = (Return (Some (job_for stored_codec ?old (- 1))), ?s)"
    using compact_read_job [OF t(1) _ ver] by (simp add: min)
  let ?s' = "snd (compact_install stored_codec good_io (job_for stored_codec ?old (- 1)) ?s)"
  have inv': "lsm_inv stored_codec ?s'"
    using compact_install_reads [OF stored_codec_ok t(1), of ?old "[]" "- 1" good_io] t(4)
    by (simp add: t(3) compatible_keys_def ff_compat_def)
  have "sort_key fst [(internal_key [97] 3, Some [1 :: byte]), (internal_key [97] 5, Some [2])] =
      [(internal_key [97] 5, Some [2]), (internal_key [97] 3, Some [1])]"
    by (simp add: insort_key.simps)
  then have kept: "[(internal_key [97] 5, Some [2])] =
      compact_keep (job_min_snapshot (job_for stored_codec ?old (- 1))) None False (sort_key fst (job_entries (job_for stored_codec ?old (- 1))))"
    by (simp add: t(3)) (simp add: job_for_def Let_def internal_key_def)
  have oth: "[] = filter (\<lambda>(i, r). i \<notin> set (job_ids (job_for stored_codec ?old (- 1)))) (l_ssts ?s)"
    by (simp add: job_for_def)
  have ent: "lsm_entries stored_codec ?s' = [(internal_key [97] 5, Some [2])]"
  proof (cases rule: install_cases [OF stored_codec_ok t(4) kept oth, of good_io])
    case (3 img r)
    then show ?thesis by (simp add: lsm_entries_def lsm_layers_def sst_contents_repr [OF 3(2)])
  qed (simp_all add: good_io_def)
  have rd: "readable [(internal_key [97] 5, Some [2]), (internal_key [97] 3, Some [1])] [97]"
    "readable [(internal_key [97] 5, Some [2])] [97]"
    by (simp_all add: readable_def no_extension_def ff_compat_def)
  have "lsm_get_at stored_codec ?s 4 [97] = Return (Some [1])"
    using lsm_get_at_visible [OF t(1), of "[97]" 4] rd(1) by (simp add: t(2) visible_def versions_of_def)
  moreover have "lsm_get_at stored_codec ?s' 4 [97] = Return None"
    using lsm_get_at_visible [OF inv', of "[97]" 4] rd(2) by (simp add: ent visible_def versions_of_def)
  moreover have "snd (lsm_compact stored_codec good_io ?s) = ?s'"
    by (simp add: lsm_compact_def compact_inner_def read)
  ultimately show ?thesis using t(1) min by (intro exI [of _ ?s]) simp
qed

text \<open>
  C32: after a failed flush the next flush reverses the layers. A flush fails when it writes the file, which leaves its
  memtable behind as an immutable one; commits then put a newer version of a key in the active memtable, and a read returns
  it. The next flush succeeds and moves the newer version to an SST file, below the memtable that was left over, and the same
  read returns the older version.
\<close>

theorem flush_after_failed_flush_stale:
  assumes "l_immutables s0 = []" and "mt_get (l_active s0) k v = Some older"
    and "verify_owner (l_guard s0) (sio_lock io0) = (Inr (), g)" and "\<not> sio_write io0" and "lsm_flush lib io0 s0 = (r, s1)"
    and "l_immutables s2 = l_immutables s1" and "mt_get (l_active s2) k v = Some newer"
    and "lz4_ok lib" and "flush_fits lib s2" and "lsm_flush lib io s2 = (Return (), s3)"
  shows "r = Fail Io \<and> lsm_get_at lib s2 v k = Return newer \<and> lsm_get_at lib s3 v k = Return older"
proof -
  have ne: "mt_map (l_active s0) \<noteq> []" "mt_map (l_active s2) \<noteq> []"
    using assms(2,7) by (auto simp: mt_get_def sm_range_from_def)
  have failed: "r = Fail Io" "l_immutables s1 = [l_active s0]"
    using assms(1,3,4,5) ne(1) by (auto simp: lsm_flush_def flush_locked_def Let_def mt_is_empty_def)
  have "lsm_get_at lib s2 v k = Return newer" by (simp add: lsm_get_at_def assms(7))
  moreover have "lsm_get_at lib (snd (flush_locked lib io s2)) v k = Return older"
  proof (cases rule: flush_cases [OF assms(8,9), of io])
    case (4 res g w img meta r)
    have "mt_get mt_new k v = None" by (simp add: mt_get_def sm_range_from_def mt_new_def)
    with 4(1) assms(2,6) failed(2) show ?thesis by (simp add: lsm_get_at_def)
  qed (use assms(10) ne(2) in \<open>auto simp: lsm_flush_def\<close>)
  ultimately show ?thesis using failed(1) assms(10) by (simp add: lsm_flush_def)
qed

definition older_mem :: memtable where
  "older_mem = mt_put mt_new [97] 3 [1]"

text \<open>The tree after a flush that cannot write its file, and then a commit of a newer version.\<close>

definition failed_tree :: lsm where
  "failed_tree = (snd (lsm_flush stored_codec (good_io\<lparr>sio_write := False\<rparr>) (plain_tree older_mem [] [])))\<lparr>l_active := example_mem\<rparr>"

theorem flush_after_failed_flush_stale_witness:
  "\<exists>s3. lsm_flush stored_codec good_io failed_tree = (Return (), s3) \<and>
     lsm_get_at stored_codec failed_tree 9 [97] = Return (Some [9]) \<and> lsm_get_at stored_codec s3 9 [97] = Return (Some [1])"
proof -
  let ?s0 = "plain_tree older_mem [] []" and ?io = "good_io\<lparr>sio_write := False\<rparr>"
  obtain r s1 where s1: "lsm_flush stored_codec ?io ?s0 = (r, s1)" by fastforce
  have "read_owner_id (sio_lock good_io) = Some 1" using read_owner_stamp [of 1 "[]" "[]"] by (simp add: good_io_def)
  then have ver: "verify_owner (l_guard ?s0) (sio_lock good_io) = (Inr (), l_guard ?s0)"
    by (simp add: verify_owner_def plain_tree_def)
  have "snd (lsm_flush stored_codec ?io ?s0) = s1" using s1 by simp
  then have cfg: "l_config s1 = config_new" "l_guard s1 = l_guard ?s0"
    using ver by (auto simp: lsm_flush_def flush_locked_def Let_def plain_tree_def split: if_splits)
  have s2: "failed_tree = s1\<lparr>l_active := example_mem\<rparr>" by (simp add: failed_tree_def s1)
  have fits: "flush_fits stored_codec failed_tree"
    by (rule small_flush_fits [where es = "[(internal_key [97] 7, Some [9])]"])
       (simp_all add: s2 cfg example_mem_map entry_fits_def length_entry_bytes)
  have get: "mt_get m [97] 9 = Some x" if "mt_map m = [(internal_key [97] w, x)]" "w \<le> 9" for m w x
  proof -
    have "take (Suc 0) (internal_key [97] w) = [97]" by (simp add: internal_key_def)
    with that show ?thesis by (simp add: mt_get_def sm_range_from_def)
  qed
  have old: "mt_get (l_active ?s0) [97] 9 = Some (Some [1])"
    using get [of older_mem 3] by (simp add: older_mem_def mt_put_def mt_new_def Let_def plain_tree_def)
  have new: "mt_get (l_active failed_tree) [97] 9 = Some (Some [9])" using get [of example_mem 7] by (simp add: s2 example_mem_map)
  have "fst (lsm_flush stored_codec good_io failed_tree) = Return ()"
  proof (rule flush_image [OF stored_codec_ok fits])
    fix img meta r
    assume "sst_write stored_codec (cfg_zone_extractor (l_config failed_tree)) (block_compression (l_config failed_tree))
      (mt_map (l_active failed_tree)) = Some (img, meta)" "sst_open stored_codec img = Return r"
    with ver cfg(2) show ?thesis
      by (simp add: lsm_flush_def flush_locked_def Let_def mt_iter_def s2) (simp add: good_io_def recreate_wal_def)
  qed
  then obtain s3 where s3: "lsm_flush stored_codec good_io failed_tree = (Return (), s3)" by (metis prod.collapse)
  have "r = Fail Io \<and> lsm_get_at stored_codec failed_tree 9 [97] = Return (Some [9]) \<and> lsm_get_at stored_codec s3 9 [97] = Return (Some [1])"
  proof (rule flush_after_failed_flush_stale [OF _ old _ _ s1 _ new stored_codec_ok fits s3])
    show "verify_owner (l_guard ?s0) (sio_lock ?io) = (Inr (), l_guard ?s0)" using ver by simp
  qed (simp_all add: s2 plain_tree_def)
  then show ?thesis using s3 by blast
qed

end
