(* ===== verification/Lsm_Commit.thy ===== *)
theory Lsm_Commit
  imports Lsm_Maint
begin

text \<open>
  What a commit does to the tree, against a specification of the database as the history of its
  committed transactions: the state a snapshot sees is what replaying the transactions up to it
  leaves behind.
\<close>

section \<open>The specification\<close>

text \<open>The state after the transactions with a version not above \<open>v\<close>; \<open>Some None\<close> is a deleted key.\<close>

definition state_at :: "txn list \<Rightarrow> u64 \<Rightarrow> bytes \<rightharpoonup> memval" where
  "state_at H v = foldl (\<lambda>m (ws, w). if w \<le> v then m ++ map_of ws else m) Map.empty H"

lemma state_at_Nil [simp]: "state_at [] v = Map.empty"
  by (simp add: state_at_def)

lemma state_at_snoc [simp]:
  "state_at (H @ [(ws, w)]) v = (if w \<le> v then state_at H v ++ map_of ws else state_at H v)"
  by (simp add: state_at_def)

section \<open>Applying the writes of a transaction\<close>

definition txn_entries :: "txn \<Rightarrow> entry list" where
  "txn_entries t = map (\<lambda>(k, x). (internal_key k (snd t), x)) (fst t)"

lemma txn_entries_keys [simp]:
  "map fst (txn_entries (ws, w)) = map (\<lambda>k. internal_key k w) (map fst ws)"
  by (simp add: txn_entries_def o_def case_prod_beta)

lemma txn_entries_distinct: "distinct (map fst ws) \<Longrightarrow> distinct (map fst (txn_entries (ws, w)))"
  by (simp add: distinct_map inj_on_def)

lemma txn_entries_version: "e \<in> set (txn_entries t) \<Longrightarrow> ik_version (fst e) = snd t"
  by (auto simp: txn_entries_def)

lemma visible_txn_entries:
  "distinct (map fst ws) \<Longrightarrow> visible (txn_entries (ws, w)) k v = (if w \<le> v then map_of ws k else None)"
proof (induction ws)
  case (Cons p ws)
  obtain j x where p: "p = (j, x)" by (cases p)
  have e: "txn_entries ((j, x) # ws, w) = [(internal_key j w, x)] @ txn_entries (ws, w)"
    by (simp add: txn_entries_def)
  have other: "(u, y) \<in> set (versions_of (txn_entries (ws, w)) j) \<Longrightarrow> False" for u y
    using Cons.prems by (force simp: versions_of_def txn_entries_def p)
  have "visible ((txn_entries (p # ws, w))) k v =
      (case visible [(internal_key j w, x)] k v of Some y \<Rightarrow> Some y | None \<Rightarrow> visible (txn_entries (ws, w)) k v)"
    unfolding p e by (rule visible_append) (use other in \<open>auto simp: versions_of_def [of "[_]"] split: if_splits\<close>)
  also have "visible [(internal_key j w, x)] k v = (if j = k \<and> w \<le> v then Some x else None)"
    by (simp add: visible_def versions_of_def)
  finally show ?case using Cons by (simp add: p)
qed (simp add: visible_def versions_of_def txn_entries_def)

lemma mt_apply_map:
  "mt_map (mt_apply m w ws) = foldl (\<lambda>es (ik, x). sm_insert ik x es) (mt_map m) (txn_entries (ws, w))"
  by (induction ws arbitrary: m)
     (auto simp: mt_apply_def txn_entries_def mt_put_def mt_delete_def Let_def split: option.splits)

lemma mt_apply_append [simp]: "mt_apply m w (a @ b) = mt_apply (mt_apply m w a) w b"
  by (simp add: mt_apply_def)

lemma map_of_set_eq:
  assumes "distinct (map fst a)" "distinct (map fst b)" "map_of a = map_of b"
  shows "set a = set b"
  using assms map_of_inject_set by blast

text \<open>The memtable after the writes: the new entries beside the old ones.\<close>

lemma mt_apply_entries:
  assumes "sorted_entries (mt_map m)" and ws: "distinct (map fst ws)"
    and old: "\<forall>e \<in> set (mt_map m). ik_version (fst e) < w"
  shows "sorted_entries (mt_map (mt_apply m w ws))"
    "set (mt_map (mt_apply m w ws)) = set (txn_entries (ws, w)) \<union> set (mt_map m)"
    "visible (mt_map (mt_apply m w ws)) k v =
       (case visible (txn_entries (ws, w)) k v of Some x \<Rightarrow> Some x | None \<Rightarrow> visible (mt_map m) k v)"
proof -
  note ins = insert_rows [OF assms(1) txn_entries_distinct [OF ws, of w]]
  show srt: "sorted_entries (mt_map (mt_apply m w ws))" using ins by (simp add: mt_apply_map)
  have disj: "fst ` set (txn_entries (ws, w)) \<inter> fst ` set (mt_map m) = {}"
    using old txn_entries_version by fastforce
  have "distinct (map fst (mt_map m))" using assms(1) by (simp add: strict_sorted_iff)
  then have dist: "distinct (map fst (txn_entries (ws, w) @ mt_map m))"
    using txn_entries_distinct [OF ws, of w] disj by (simp del: txn_entries_keys)
  have "map_of (mt_map (mt_apply m w ws)) = map_of (txn_entries (ws, w) @ mt_map m)"
    using ins map_add_comm [of "map_of (mt_map m)" "map_of (txn_entries (ws, w))"] disj
    by (simp add: mt_apply_map dom_map_of_conv_image_fst Int_commute)
  moreover have dist': "distinct (map fst (mt_map (mt_apply m w ws)))" using srt by (simp add: strict_sorted_iff)
  ultimately have eq: "set (mt_map (mt_apply m w ws)) = set (txn_entries (ws, w) @ mt_map m)"
    using dist map_of_set_eq by blast
  then show "set (mt_map (mt_apply m w ws)) = set (txn_entries (ws, w)) \<union> set (mt_map m)" by simp
  have "newer_than (txn_entries (ws, w)) (mt_map m)"
    using old txn_entries_version by (fastforce simp: newer_than_def)
  then show "visible (mt_map (mt_apply m w ws)) k v =
       (case visible (txn_entries (ws, w)) k v of Some x \<Rightarrow> Some x | None \<Rightarrow> visible (mt_map m) k v)"
    using visible_perm [OF dist' dist eq, of k v] by (simp add: visible_newer)
qed

section \<open>The tree after a commit\<close>

lemma wal_sync_ok: "wal_buf w = [] \<Longrightarrow> wal_sync io_ok w = (Inr (), w)"
  by (cases w) (simp add: wal_sync_def bw_flush_def io_ok_def)

lemma commit_unit_ok:
  assumes "tx_writes t \<noteq> []" "\<not> conflicts m t"
  shows "\<exists>m' t'. commit_unit m t (Inr ()) = (Inr (next_version m), m', t', ())"
  using assms by (simp add: commit_unit_def tm_commit_def Let_def split: prod.split)

text \<open>
  The state between the transaction manager's commit and the check for a flush: the log has the
  transaction, the active memtable its entries.
\<close>

lemma commit_cases:
  fixes txn :: transaction
  assumes wal: "wal_buf (l_wal s) = []" and fenced: "check_fenced (l_guard s) = Inr ()"
  obtains (empty) m t where "tx_writes txn = []" "tx_release (l_tm s) txn = (m, t)"
      "lsm_commit lib crc io_ok fio cio s txn = (case maybe_flush lib fio cio (s\<lparr>l_tm := m\<rparr>) of
         (Return _, s') \<Rightarrow> (Return (tx_snapshot txn), s', t) | (Fail e, s') \<Rightarrow> (Fail e, s', t) | (Panic, s') \<Rightarrow> (Panic, s', t))"
  | (conflict) "lsm_commit lib crc io_ok fio cio s txn = (Fail WriteConflict, s, txn)"
  | (applied) m t where "tx_writes txn \<noteq> []" "\<not> conflicts (l_tm s) txn"
      "commit_unit (l_tm s) txn (Inr ()) = (Inr (next_version (l_tm s)), m, t, ())"
      "lsm_commit lib crc io_ok fio cio s txn = (case maybe_flush lib fio cio (s\<lparr>l_tm := m,
           l_wal := \<lparr>wal_file = wal_file (l_wal s) @ txn_bytes crc (tx_writes txn) (next_version (l_tm s)), wal_buf = []\<rparr>,
           l_active := mt_apply (l_active s) (next_version (l_tm s)) (tx_writes txn)\<rparr>) of
         (Return _, s') \<Rightarrow> (Return (next_version (l_tm s)), s', t) | (Fail e, s') \<Rightarrow> (Fail e, s', t)
       | (Panic, s') \<Rightarrow> (Panic, s', t))"
proof (cases "tx_writes txn = []")
  case True
  obtain m t where r: "tx_release (l_tm s) txn = (m, t)" by (cases "tx_release (l_tm s) txn")
  then show ?thesis
    using empty [of m t] True by (simp add: lsm_commit_def fenced tm_commit_def Let_def) 
next
  case ne: False
  show ?thesis
  proof (cases "conflicts (l_tm s) txn")
    case True
    then show ?thesis using conflict ne by (simp add: lsm_commit_def fenced tm_commit_def Let_def)
  next
    case False
    have app: "commit_apply crc io_ok b w ws (l_wal s, mt) =
        (Inr (), \<lparr>wal_file = wal_file (l_wal s) @ txn_bytes crc ws w, wal_buf = []\<rparr>, mt_apply mt w ws)"
      if "ws \<noteq> []" for b w ws mt
      by (simp add: commit_apply_def append_txn_ok [OF that wal] wal_sync_ok)
    obtain m t where r: "commit_unit (l_tm s) txn (Inr ()) = (Inr (next_version (l_tm s)), m, t, ())"
      using commit_unit_ok [OF ne False] by blast
    have "tm_commit (l_tm s) txn (commit_apply crc io_ok (sync_on_commit (l_config s))) (l_wal s, l_active s) =
        (Inr (next_version (l_tm s)), m, t, \<lparr>wal_file = wal_file (l_wal s) @ txn_bytes crc (tx_writes txn) (next_version (l_tm s)), wal_buf = []\<rparr>,
         mt_apply (l_active s) (next_version (l_tm s)) (tx_writes txn))"
      using ne False r by (auto simp: commit_unit_def tm_commit_def Let_def app split: prod.splits)
    then show ?thesis using applied [OF ne False r] by (simp add: lsm_commit_def fenced)
  qed
qed

end
