(* ===== verification/Store.thy ===== *)
theory Store
  imports Lsm_Commit "HOL-Library.Product_Lexorder"
begin

text \<open>
  The store as a running system: transactions, commits, flushes, compactions and crashes. The
  invariant ties the tree to the history of committed transactions and to its files; reopening the
  files after a crash rebuilds the tree.
\<close>

section \<open>The invariant of a store\<close>

text \<open>Every version in \<open>a\<close> is above every version in \<open>b\<close>.\<close>

definition later :: "entry list \<Rightarrow> entry list \<Rightarrow> bool" where
  "later a b \<longleftrightarrow> (\<forall>e \<in> set a. \<forall>f \<in> set b. ik_version (fst f) < ik_version (fst e))"

text \<open>The memtable that replaying transactions builds.\<close>

definition replayed :: "txn list \<Rightarrow> memtable" where
  "replayed ts = foldl (\<lambda>m t. mt_apply m (snd t) (fst t)) mt_new ts"

text \<open>The log holds the transactions of the active memtable.\<close>

definition wal_ok :: "(bytes \<Rightarrow> u32) \<Rightarrow> lsm \<Rightarrow> txn list \<Rightarrow> bool" where
  "wal_ok crc s ts \<longleftrightarrow> l_wal s = \<lparr>wal_file = WAL_MAGIC @ concat (map (txn_enc crc) ts), wal_buf = []\<rparr> \<and>
     (\<forall>t \<in> set ts. txn_ok t \<and> fst t \<noteq> []) \<and> l_active s = replayed ts"

text \<open>The directory holds the files of the tree and no others.\<close>

definition dir_ok :: "sst_lib \<Rightarrow> lsm \<Rightarrow> bool" where
  "dir_ok lib s \<longleftrightarrow> distinct (map fst (l_ssts s)) \<and> dom (l_dir s) = fst ` set (l_ssts s) \<and>
     (\<forall>(i, r) \<in> set (l_ssts s). i < l_next_sst_id s \<and> sst_contents lib r \<noteq> [] \<and>
        (\<exists>img. l_dir s i = Some img \<and> sst_open lib img = Return r))"

definition tree_ok :: "sst_lib \<Rightarrow> (bytes \<Rightarrow> u32) \<Rightarrow> bytes set \<Rightarrow> lsm \<Rightarrow> bool" where
  "tree_ok lib crc K s \<longleftrightarrow> lsm_inv lib s \<and> l_immutables s = [] \<and> sorted_wrt later (lsm_layers lib s) \<and>
     dir_ok lib s \<and> (\<exists>ts. wal_ok crc s ts) \<and>
     (\<forall>e \<in> set (lsm_entries lib s). ik_user_key (fst e) \<in> K \<and> ik_version (fst e) \<le> visible_version (l_tm s)) \<and>
     (visible_version (l_tm s) = 0 \<or> (\<exists>e \<in> set (lsm_entries lib s). ik_version (fst e) = visible_version (l_tm s)))"

text \<open>Reads at \<open>f\<close> and above are the states of the history.\<close>

definition tells :: "sst_lib \<Rightarrow> lsm \<Rightarrow> u64 \<Rightarrow> txn list \<Rightarrow> bool" where
  "tells lib s f H \<longleftrightarrow> (\<forall>t \<in> set H. snd t \<le> visible_version (l_tm s)) \<and>
     (\<forall>k v. f \<le> v \<longrightarrow> visible (lsm_entries lib s) k v = state_at H v k)"

section \<open>Layers\<close>

lemma later_Nil [simp]: "later [] b" "later a []"
  by (simp_all add: later_def)

lemma later_subset: "later a b \<Longrightarrow> set a' \<subseteq> set a \<Longrightarrow> set b' \<subseteq> set b \<Longrightarrow> later a' b'"
  by (auto simp: later_def)

lemma later_newer: "later a b \<Longrightarrow> newer_than a b"
  by (fastforce simp: later_def newer_than_def)

lemma sorted_later_newer: "sorted_wrt later ls \<Longrightarrow> sorted_wrt newer_than ls"
  by (rule sorted_wrt_mono_rel [of _ later]) (auto intro: later_newer)

lemma layers_no_imm:
  "l_immutables s = [] \<Longrightarrow> lsm_layers lib s = mt_map (l_active s) # map (\<lambda>(i, r). sst_contents lib r) (rev (l_ssts s))"
  by (simp add: lsm_layers_def)

lemma replay_into_txn: "replay_into m (txn_records t) = mt_apply m (snd t) (fst t)"
proof (cases t)
  case (Pair ws w)
  have "replay_into m (map (\<lambda>p. write_record p w) ws) = mt_apply m w ws"
    by (induction ws arbitrary: m) (auto simp: replay_into_def mt_apply_def write_record_def split: option.splits)
  then show ?thesis by (simp add: Pair txn_records_def)
qed

lemma replay_into_txns: "replay_into mt_new (concat (map txn_records ts)) = replayed ts"
proof -
  have "replay_into m (concat (map txn_records ts)) = foldl (\<lambda>m t. mt_apply m (snd t) (fst t)) m ts" for m
    by (induction ts arbitrary: m) (simp_all add: replay_into_txn [symmetric] replay_into_def)
  then show ?thesis by (simp add: replayed_def)
qed

lemma replayed_snoc [simp]: "replayed (ts @ [t]) = mt_apply (replayed ts) (snd t) (fst t)"
  by (simp add: replayed_def)

lemma foldl_insert_not_Nil: "es \<noteq> [] \<Longrightarrow> foldl (\<lambda>es (ik, x). sm_insert ik x es) es rows \<noteq> []"
proof (induction rows arbitrary: es)
  case (Cons row rows)
  obtain ik x where row: "row = (ik, x)" by (cases row)
  obtain jk y es' where es: "es = (jk, y) # es'" using Cons.prems by (cases es) auto
  show ?case using Cons.IH [of "sm_insert ik x es"] by (simp add: row es)
qed simp

lemma mt_apply_not_Nil: "ws \<noteq> [] \<Longrightarrow> mt_map (mt_apply m w ws) \<noteq> []"
proof -
  assume "ws \<noteq> []"
  then obtain k x ws' where ws: "ws = (k, x) # ws'" by (cases ws) auto
  have "sm_insert (internal_key k w) x es \<noteq> []" for es by (cases "(internal_key k w, x, es)" rule: sm_insert.cases) auto
  then show ?thesis unfolding mt_apply_map ws by (simp add: txn_entries_def foldl_insert_not_Nil)
qed

lemma replayed_Nil_iff: "\<forall>t \<in> set ts. fst t \<noteq> [] \<Longrightarrow> mt_map (replayed ts) = [] \<longleftrightarrow> ts = []"
  by (cases ts rule: rev_cases) (simp_all add: mt_apply_not_Nil, simp add: replayed_def)

section \<open>Flush\<close>

lemma u64_less_Suc: "i < (n :: u64) \<Longrightarrow> n < - 1 \<Longrightarrow> i < n + 1"
  by (rule order.strict_trans [OF _ u64_Suc_less])

lemma guard_irrelevant [simp]:
  "lsm_layers lib (s\<lparr>l_guard := g\<rparr>) = lsm_layers lib s" "lsm_entries lib (s\<lparr>l_guard := g\<rparr>) = lsm_entries lib s"
  "tree_ok lib crc K (s\<lparr>l_guard := g\<rparr>) = tree_ok lib crc K s" "tells lib (s\<lparr>l_guard := g\<rparr>) f H = tells lib s f H"
proof -
  show l: "lsm_layers lib (s\<lparr>l_guard := g\<rparr>) = lsm_layers lib s" by (simp add: lsm_layers_def)
  then show e: "lsm_entries lib (s\<lparr>l_guard := g\<rparr>) = lsm_entries lib s" by (simp add: lsm_entries_def)
  show "tree_ok lib crc K (s\<lparr>l_guard := g\<rparr>) = tree_ok lib crc K s"
    by (simp add: tree_ok_def lsm_inv_def dir_ok_def wal_ok_def l e)
  show "tells lib (s\<lparr>l_guard := g\<rparr>) f H = tells lib s f H" by (simp add: tells_def e)
qed

lemma flush_tree_ok:
  assumes lz4: "lz4_ok lib" and fits: "flush_fits lib s" and ok: "tree_ok lib crc K s"
    and id: "l_next_sst_id s < - 1" and res: "lsm_flush lib io s = (Return (), s')"
  shows "tree_ok lib crc K s'" "lsm_entries lib s' = lsm_entries lib s" "l_tm s' = l_tm s" "l_config s' = l_config s"
    "l_next_sst_id s' = l_next_sst_id s \<or> l_next_sst_id s' = l_next_sst_id s + 1"
proof -
  obtain ts where ts: "wal_ok crc s ts" using ok by (auto simp: tree_ok_def)
  have imm: "l_immutables s = []" and inv: "lsm_inv lib s" and dir: "dir_ok lib s"
    and srt: "sorted_wrt later (lsm_layers lib s)" using ok by (auto simp: tree_ok_def)
  note keeps = flush_layers [OF lz4 fits imm inv, of io]
  have s': "flush_locked lib io s = (Return (), s')" using res by (simp add: lsm_flush_def)
  show ent: "lsm_entries lib s' = lsm_entries lib s" using keeps s' by simp
  have inv': "lsm_inv lib s'" using keeps s' by simp
  have "tree_ok lib crc K s' \<and> l_tm s' = l_tm s \<and> l_config s' = l_config s \<and>
      (l_next_sst_id s' = l_next_sst_id s \<or> l_next_sst_id s' = l_next_sst_id s + 1)"
  proof (rule flush_cases [OF lz4 fits, of io])
    fix g
    assume e: "flush_locked lib io s = (Return (), s\<lparr>l_guard := g, l_active := mt_new\<rparr>)" "mt_map (l_active s) = []"
    have "ts = []" using ts e(2) replayed_Nil_iff [of ts] by (auto simp: wal_ok_def)
    then have "l_active s = mt_new" using ts by (simp add: wal_ok_def replayed_def)
    then have "s' = s\<lparr>l_guard := g\<rparr>" using e(1) s' by (cases s) simp
    then show ?thesis using ok by simp
  next
    fix r g w img meta rd
    assume w: "flush_locked lib io s = (r, s\<lparr>l_guard := g, l_active := mt_new,
        l_next_sst_id := l_next_sst_id s + 1, l_dir := (l_dir s)(l_next_sst_id s \<mapsto> img),
        l_ssts := l_ssts s @ [(l_next_sst_id s, rd)], l_wal := w\<rparr>)"
      "sst_open lib img = Return rd" "sst_repr lib (mt_map (l_active s)) rd"
      "r = Return () \<and> w = create_fresh \<or> r = Fail Io" "\<not> mt_is_empty (l_active s)"
    then have st: "s' = s\<lparr>l_guard := g, l_active := mt_new,
        l_next_sst_id := l_next_sst_id s + 1, l_dir := (l_dir s)(l_next_sst_id s \<mapsto> img),
        l_ssts := l_ssts s @ [(l_next_sst_id s, rd)], l_wal := create_fresh\<rparr>" using s' by auto
    have c: "sst_contents lib rd = mt_map (l_active s)" by (rule sst_contents_repr [OF w(3)])
    have fresh: "(l_next_sst_id s, x) \<notin> set (l_ssts s)" for x using dir by (auto simp: dir_ok_def)
    have "dir_ok lib s'"
      using dir fresh w(2,5) u64_less_Suc [OF _ id] u64_Suc_less [OF id]
      by (auto simp: dir_ok_def st c mt_is_empty_def image_iff)
    moreover have "sorted_wrt later (lsm_layers lib s')"
      using srt imm by (simp add: lsm_layers_def st c)
    moreover have "wal_ok crc s' []" by (simp add: wal_ok_def st create_fresh_def replayed_def)
    moreover have "l_tm s' = l_tm s" "l_config s' = l_config s" "l_immutables s' = []" "l_next_sst_id s' = l_next_sst_id s + 1"
      using imm by (simp_all add: st)
    ultimately show ?thesis using inv' ok unfolding tree_ok_def ent by metis
  qed (use s' in simp_all)
  then show "tree_ok lib crc K s'" "l_tm s' = l_tm s" "l_config s' = l_config s"
    "l_next_sst_id s' = l_next_sst_id s \<or> l_next_sst_id s' = l_next_sst_id s + 1" by simp_all
qed

section \<open>Compaction\<close>

lemma find_first: "(\<And>y. y \<in> set a \<Longrightarrow> \<not> P y) \<Longrightarrow> P x \<Longrightarrow> find P (a @ x # b) = Some x"
  by (induction a) auto

text \<open>An entry with the greatest version of all is kept, whatever the floor.\<close>

lemma compact_keep_top:
  assumes srt: "sorted_entries es" and e: "e \<in> set es" "8 \<le> length (fst e)"
    and top: "\<forall>f \<in> set es. ik_version (fst f) \<le> ik_version (fst e)"
  shows "e \<in> set (compact_keep m None False es)"
proof -
  let ?k = "ik_user_key (fst e)" and ?v = "ik_version (fst e)"
  have w: "wanted ?k ?v e" using e(2) by (simp add: wanted_def)
  have "f = e" if "f \<in> set es" "wanted ?k ?v f" "\<not> fst e < fst f" for f
  proof -
    have f: "fst f = internal_key ?k (ik_version (fst f))" "fst e = internal_key ?k ?v"
      using wanted_internal_key [OF that(2)] wanted_internal_key [OF w] by simp_all
    then have "ik_version (fst f) = ?v"
      using that(3) top [rule_format, OF that(1)] internal_key_less_same [of ?k ?v "ik_version (fst f)"] by force
    then have "fst f = fst e" using f by simp
    moreover have "distinct (map fst es)" using srt by (simp add: strict_sorted_iff)
    ultimately show "f = e" using that(1) e(1) by (metis eq_key_imp_eq_value prod.collapse)
  qed
  note only = this
  obtain a b where ab: "es = a @ e # b" using e(1) by (auto dest: split_list)
  have "\<not> wanted ?k ?v f" if "f \<in> set a" for f
  proof
    assume "wanted ?k ?v f"
    moreover have "fst f < fst e" using srt that by (auto simp: ab sorted_wrt_append)
    ultimately have "f = e" using only [of f] that by (auto simp: ab)
    with \<open>fst f < fst e\<close> show False by simp
  qed
  then have "find (wanted ?k ?v) es = Some e" unfolding ab using w find_first by metis
  then have "find (wanted ?k ?v) (compact_keep m None False es) = Some e"
    using compact_keep_find [of m ?v es None ?k False] top by simp
  then show ?thesis by (auto simp: find_Some_iff)
qed

lemma distinct_later:
  "sorted_wrt later ls \<Longrightarrow> \<forall>l \<in> set ls. distinct (map fst l) \<Longrightarrow> distinct (map fst (concat ls))"
proof (induction ls)
  case (Cons l ls)
  have "fst ` set l \<inter> fst ` set (concat ls) = {}"
    using Cons.prems(1) by (fastforce simp: later_def)
  with Cons show ?case by simp
qed simp

text \<open>The oldest snapshot that a compaction leaves readable.\<close>

definition compact_floor :: "lsm \<Rightarrow> u64" where
  "compact_floor s = min (min_active_snapshot (l_tm s)) (visible_version (l_tm s))"

definition next_job :: "sst_lib \<Rightarrow> lsm \<Rightarrow> compaction_job" where
  "next_job lib s = job_for lib (l_ssts s) (min_active_snapshot (l_tm s))"

lemma job_entries_set: "set (job_entries (job_for lib rs m)) = (\<Union>(i, r) \<in> set rs. set (sst_contents lib r))"
  by (auto simp: job_for_def)

lemma job_distinct:
  assumes "tree_ok lib crc K s"
  shows "distinct (map fst (job_entries (job_for lib (l_ssts s) m)))"
proof -
  let ?c = "\<lambda>(i, r). sst_contents lib r"
  have "sorted_wrt later (map ?c (rev (l_ssts s)))"
    using assms layers_no_imm [of s lib] by (auto simp: tree_ok_def)
  moreover have "\<forall>l \<in> set (map ?c (rev (l_ssts s))). distinct (map fst l)"
    using assms by (auto simp: tree_ok_def lsm_inv_def sst_ok_def layer_wf_def strict_sorted_iff)
  ultimately have d: "distinct (map fst (concat (map ?c (rev (l_ssts s)))))" by (rule distinct_later)
  have "mset (concat (map ?c (rev (l_ssts s)))) = mset (concat (map ?c (l_ssts s)))"
    by (simp add: mset_concat rev_map [symmetric] sum_list_rev)
  then have "mset (map fst (concat (map ?c (rev (l_ssts s))))) = mset (map fst (concat (map ?c (l_ssts s))))"
    by (metis mset_map)
  with d show ?thesis using mset_eq_imp_distinct_iff by (metis job_for_def compaction_job.select_convs(2))
qed

lemma install_tree_ok:
  assumes lz4: "lz4_ok lib" and ok: "tree_ok lib crc K s" and K: "\<forall>a \<in> K. \<forall>b \<in> K. ff_compat a b"
    and two: "2 \<le> length (l_ssts s)" and fits: "compact_fits lib s (next_job lib s)" and id: "l_next_sst_id s < - 1"
    and unl: "\<forall>i. sio_unlink io i" and res: "compact_install lib io (next_job lib s) s = (Return (), s')"
  shows "tree_ok lib crc K s' \<and> l_tm s' = l_tm s \<and> l_config s' = l_config s \<and>
    (tells lib s f H \<longrightarrow> f \<le> f' \<longrightarrow> compact_floor s \<le> f' \<longrightarrow> tells lib s' f' H)"
proof -
  let ?job = "next_job lib s" and ?m = "min_active_snapshot (l_tm s)"
  define all where "all = job_entries ?job"
  define kept where "kept = compact_keep (job_min_snapshot ?job) None False (sort_key fst (job_entries ?job))"
  have imm: "l_immutables s = []" and inv: "lsm_inv lib s" and dir: "dir_ok lib s"
    and srt: "sorted_wrt later (lsm_layers lib s)" using ok by (auto simp: tree_ok_def)
  have ent: "set (lsm_entries lib s) = set (mt_map (l_active s)) \<union> set all"
    by (auto simp: lsm_entries_def layers_no_imm [OF imm] all_def next_job_def job_entries_set)
  have dist: "distinct (map fst all)" unfolding all_def next_job_def by (rule job_distinct [OF ok])
  have compat: "compatible_keys (user_keys all)"
    using ok K ent by (auto simp: tree_ok_def compatible_keys_def user_keys_def)
  have strict: "sorted_entries (sort_key fst all)" by (rule sort_key_strict [OF dist])
  have sub: "set kept \<subseteq> set all" using compact_keep_subset [of _ None False "sort_key fst all"] by (auto simp: kept_def all_def)
  have ne: "all \<noteq> []" using two dir by (cases "l_ssts s") (auto simp: all_def next_job_def job_for_def dir_ok_def)
  have long: "8 \<le> length (fst e)" if e: "e \<in> set all" for e
  proof -
    obtain i r where r: "(i, r) \<in> set (l_ssts s)" "e \<in> set (sst_contents lib r)"
      using e by (auto simp: all_def next_job_def job_entries_set)
    then have "sst_ok lib r" using inv by (auto simp: lsm_inv_def)
    from layer_wfD(3) [OF sst.ok_wf [OF this] r(2)] show ?thesis by (simp add: entry_ok_def)
  qed
  have top_kept: "\<exists>t \<in> set kept. \<forall>e \<in> set all. ik_version (fst e) \<le> ik_version (fst t)"
  proof -
    have fin: "finite (ik_version ` fst ` set all)" "ik_version ` fst ` set all \<noteq> {}" using ne by simp_all
    from Max_in [OF fin] obtain t where t: "t \<in> set all" "ik_version (fst t) = Max (ik_version ` fst ` set all)"
      by (metis (no_types, lifting) imageE)
    then have "\<forall>e \<in> set all. ik_version (fst e) \<le> ik_version (fst t)" using fin(1) by simp
    moreover have "t \<in> set kept"
      unfolding kept_def by (rule compact_keep_top) (use strict t(1) long calculation in \<open>simp_all add: all_def [symmetric]\<close>)
    ultimately show ?thesis by blast
  qed
  have none: "[] = filter (\<lambda>(i, r). i \<notin> set (job_ids ?job)) (l_ssts s)"
    by (rule sym, rule filter_False) (auto simp: next_job_def job_for_def intro: rev_image_eqI)
  obtain img r where st: "s' = s\<lparr>l_next_sst_id := l_next_sst_id s + 1, l_ssts := [(l_next_sst_id s, r)],
         l_dir := remove_files (sio_unlink io) (job_ids ?job) ((l_dir s)(l_next_sst_id s \<mapsto> img))\<rparr>"
      "sst_repr lib kept r" "sst_open lib img = Return r" "kept \<noteq> []"
  proof (rule install_cases [OF lz4 fits kept_def none, of io])
    show ?thesis if "kept = []" using that top_kept by simp
  qed (use res that in auto)
  have c: "sst_contents lib r = kept" by (rule sst_contents_repr [OF st(2)])
  have reads: "lsm_inv lib s' \<and> set (lsm_entries lib s') \<subseteq> set (lsm_entries lib s) \<and> (?m \<le> v \<or> (\<forall>e \<in> set all. ik_version (fst e) \<le> v) \<longrightarrow>
      visible (lsm_entries lib s') k v = visible (lsm_entries lib s) k v)" for k v
    using compact_install_reads [OF lz4 inv, of "l_ssts s" "[]" ?m io v k] fits dist compat res
    by (simp add: next_job_def [symmetric] all_def [symmetric])
  have ent': "set (lsm_entries lib s') = set (mt_map (l_active s)) \<union> set kept"
    using imm by (simp add: lsm_entries_def lsm_layers_def st(1) c)
  have "later (mt_map (l_active s)) kept"
    using srt sub by (fastforce simp: layers_no_imm [OF imm] all_def next_job_def job_entries_set later_def)
  then have "sorted_wrt later (lsm_layers lib s')" using imm by (simp add: lsm_layers_def st(1) c)
  moreover have "dir_ok lib s'"
  proof -
    have ids: "set (job_ids ?job) = dom (l_dir s)" using dir by (simp add: dir_ok_def next_job_def job_for_def)
    have fresh: "l_next_sst_id s \<notin> dom (l_dir s)" using dir by (force simp: dir_ok_def)
    then have "dom (remove_files (sio_unlink io) (job_ids ?job) ((l_dir s)(l_next_sst_id s \<mapsto> img))) = {l_next_sst_id s}"
      using unl by (auto simp: remove_files_def ids split: if_splits)
    then show ?thesis using st(3,4) u64_Suc_less [OF id] fresh by (simp add: dir_ok_def st(1) c remove_files_def ids)
  qed
  moreover have "\<exists>ts. wal_ok crc s' ts" using ok by (simp add: tree_ok_def wal_ok_def st(1))
  moreover have "\<exists>e \<in> set (lsm_entries lib s'). ik_version (fst e) = visible_version (l_tm s)" if pos: "visible_version (l_tm s) \<noteq> 0"
  proof -
    obtain e where e: "e \<in> set (mt_map (l_active s)) \<union> set all" "visible_version (l_tm s) = ik_version (fst e)"
      using ok pos unfolding tree_ok_def ent by metis
    obtain x where x: "x \<in> set kept" "\<forall>e \<in> set all. ik_version (fst e) \<le> ik_version (fst x)" using top_kept by blast
    have "ik_version (fst x) \<le> visible_version (l_tm s)" using ok x(1) sub unfolding tree_ok_def ent by blast
    then have "e \<in> set all \<Longrightarrow> ik_version (fst x) = visible_version (l_tm s)" using x(2) e(2) by force
    then show ?thesis using e x(1) unfolding ent' by (metis UnCI UnE)
  qed
  moreover have "\<forall>e \<in> set (lsm_entries lib s'). ik_user_key (fst e) \<in> K \<and> ik_version (fst e) \<le> visible_version (l_tm s)"
    using ok sub unfolding tree_ok_def ent ent' by blast
  moreover have "lsm_inv lib s'" "l_immutables s' = []" "l_tm s' = l_tm s" using reads imm by (simp_all add: st(1))
  ultimately have "tree_ok lib crc K s'" unfolding tree_ok_def by metis
  moreover have "tells lib s' f' H" if H: "tells lib s f H" "f \<le> f'" "compact_floor s \<le> f'"
  proof -
    have below: "\<forall>e \<in> set all. ik_version (fst e) \<le> visible_version (l_tm s)" using ok ent by (auto simp: tree_ok_def)
    have "visible (lsm_entries lib s') k v = state_at H v k" if "f' \<le> v" for k v
      using reads [of v k] H that below by (auto simp: tells_def compact_floor_def min_def split: if_splits dest: order_trans)
    then show ?thesis using H(1) by (simp add: tells_def st(1))
  qed
  ultimately show ?thesis by (simp add: st(1))
qed

lemma compact_tree_ok:
  assumes lz4: "lz4_ok lib" and ok: "tree_ok lib crc K s" and K: "\<forall>a \<in> K. \<forall>b \<in> K. ff_compat a b"
    and fits: "compact_fits lib s (next_job lib s)" and id: "l_next_sst_id s < - 1"
    and unl: "\<forall>i. sio_unlink io i" and res: "lsm_compact lib io s = (Return (), s')"
  shows "tree_ok lib crc K s' \<and> l_tm s' = l_tm s \<and>
    (tells lib s f H \<longrightarrow> f \<le> f' \<longrightarrow> compact_floor s \<le> f' \<longrightarrow> tells lib s' f' H)"
proof -
  obtain v g where v: "verify_owner (l_guard s) (sio_lock io) = (v, g)" by (cases "verify_owner (l_guard s) (sio_lock io)")
  show ?thesis
  proof (cases v)
    case (Inl e)
    then show ?thesis using res v by (simp add: lsm_compact_def compact_inner_def compact_read_def)
  next
    case (Inr u)
    let ?s = "s\<lparr>l_guard := g\<rparr>"
    have tells_mono: "tells lib s f H \<Longrightarrow> f \<le> f' \<Longrightarrow> tells lib s f' H" by (auto simp: tells_def)
    have inv: "lsm_inv lib s" using ok by (simp add: tree_ok_def)
    show ?thesis
    proof (cases "length (l_ssts s) < 2")
      case True
      then have "s' = ?s" using res v Inr by (simp add: lsm_compact_def compact_inner_def compact_read_def)
      then show ?thesis using ok tells_mono by simp
    next
      case False
      have job: "next_job lib ?s = next_job lib s" "compact_floor ?s = compact_floor s"
        by (simp_all add: next_job_def compact_floor_def)
      have "compact_read lib io s = (Return (Some (next_job lib s)), ?s)"
        using compact_read_job [OF inv] False v Inr by (simp add: next_job_def)
      then have "compact_install lib io (next_job lib ?s) ?s = (Return (), s')"
        using res by (simp add: lsm_compact_def compact_inner_def job)
      from install_tree_ok [OF lz4 _ K _ _ _ unl this, of crc f H f'] show ?thesis
        using ok False fits id by (simp add: job compact_fits_def)
    qed
  qed
qed

lemma u64_room: "(x :: u64) < - 2 \<Longrightarrow> x < - 1 \<and> x + 1 < - 1"
proof -
  assume "x < - 2"
  then have "unat x < 2 ^ 64 - 2" by (simp add: word_less_nat_alt)
  then have "unat (x + 1) = unat x + 1" by (simp add: unat_word_ariths)
  with \<open>unat x < 2 ^ 64 - 2\<close> show ?thesis
    by (simp add: word_less_nat_alt unsigned_minus_1_eq_mask mask_eq_exp_minus_1)
qed

lemma maybe_flush_tree_ok:
  assumes lz4: "lz4_ok lib" and ok: "tree_ok lib crc K s" and K: "\<forall>a \<in> K. \<forall>b \<in> K. ff_compat a b"
    and fits: "flush_fits lib s" "\<forall>s1. lsm_flush lib fio s = (Return (), s1) \<longrightarrow> compact_fits lib s1 (next_job lib s1)"
    and id: "l_next_sst_id s < - 2" and unl: "\<forall>i. sio_unlink cio i" and res: "maybe_flush lib fio cio s = (Return (), s')"
  shows "tree_ok lib crc K s' \<and> l_tm s' = l_tm s \<and>
    (tells lib s f H \<longrightarrow> f \<le> f' \<longrightarrow> compact_floor s \<le> f' \<longrightarrow> tells lib s' f' H)"
proof (cases "memtable_flush_size (l_config s) \<le> mt_approximate_size (l_active s)")
  case False
  then have "s' = s" using res by (simp add: maybe_flush_def)
  then show ?thesis using ok by (auto simp: tells_def)
next
  case True
  obtain r s1 where fl: "lsm_flush lib fio s = (r, s1)" by (cases "lsm_flush lib fio s")
  have r: "r = Return ()" using res True by (cases r) (auto simp: maybe_flush_def fl)
  note f1 = flush_tree_ok [OF lz4 fits(1) ok _ fl [unfolded r]]
  have id1: "l_next_sst_id s < - 1" "l_next_sst_id s1 < - 1" using u64_room [OF id] f1(5) by auto
  have tells1: "tells lib s f H \<Longrightarrow> f \<le> f' \<Longrightarrow> tells lib s1 f' H"
    using f1(2,3) id1(1) by (auto simp: tells_def)
  have fl1: "compact_floor s1 = compact_floor s" using f1(3) id1(1) by (simp add: compact_floor_def)
  show ?thesis
  proof (cases "\<exists>c. s' = s1\<lparr>l_compaction := c\<rparr>")
    case True
    then obtain c where c: "s' = s1\<lparr>l_compaction := c\<rparr>" by blast
    then have "tree_ok lib crc K s' = tree_ok lib crc K s1" "tells lib s' f' H = tells lib s1 f' H"
      by (simp_all add: tree_ok_def lsm_inv_def dir_ok_def wal_ok_def tells_def lsm_entries_def lsm_layers_def)
    then show ?thesis using f1(1,3) id1(1) tells1 c by simp
  next
    case False
    have "s' \<noteq> s1" using False [simplified, rule_format, of "l_compaction s1"] by simp
    then have "lsm_compact lib cio s1 = (Return (), s')"
      using res True r fl False by (auto simp: maybe_flush_def signal_compaction_def split: if_splits)
    from compact_tree_ok [OF lz4 f1(1) K _ id1(2) unl this, of f' H f'] show ?thesis
      using fits(2) fl r id1(1) f1(3) tells1 fl1 by simp
  qed
qed

section \<open>Commit\<close>

text \<open>The tree once the log and the memtable have the transaction \<open>(ws, w)\<close>.\<close>

definition applied :: "(bytes \<Rightarrow> u32) \<Rightarrow> lsm \<Rightarrow> manager \<Rightarrow> (bytes \<times> memval) list \<Rightarrow> u64 \<Rightarrow> lsm" where
  "applied crc s m ws w = s\<lparr>l_tm := m, l_wal := \<lparr>wal_file = wal_file (l_wal s) @ txn_bytes crc ws w, wal_buf = []\<rparr>,
     l_active := mt_apply (l_active s) w ws\<rparr>"

lemma applied_fields [simp]:
  "l_tm (applied crc s m ws w) = m" "l_ssts (applied crc s m ws w) = l_ssts s" "l_dir (applied crc s m ws w) = l_dir s"
  "l_immutables (applied crc s m ws w) = l_immutables s" "l_next_sst_id (applied crc s m ws w) = l_next_sst_id s"
  "l_active (applied crc s m ws w) = mt_apply (l_active s) w ws"
  by (simp_all add: applied_def)

lemma applied_tree_ok:
  assumes ok: "tree_ok lib crc K s" and K: "\<forall>a \<in> K. \<forall>b \<in> K. ff_compat a b"
    and ws: "ws \<noteq> []" "distinct (map fst ws)" "fst ` set ws \<subseteq> K" "txn_ok (ws, w)"
    and w: "visible_version (l_tm s) < w" "w < 2 ^ 56" and m: "visible_version m = w"
  shows "tree_ok lib crc K (applied crc s m ws w)"
    "tells lib s f H \<Longrightarrow> tells lib (applied crc s m ws w) f (H @ [(ws, w)])"
proof -
  let ?s = "applied crc s m ws w" and ?rest = "concat (map (\<lambda>(i, r). sst_contents lib r) (rev (l_ssts s)))"
  have imm: "l_immutables s = []" and inv: "lsm_inv lib s" and srt: "sorted_wrt later (lsm_layers lib s)"
    using ok by (auto simp: tree_ok_def)
  have wf: "layer_wf (mt_map (l_active s))" using inv by (simp add: lsm_inv_def mem_ok_def)
  have ent: "lsm_entries lib s = mt_map (l_active s) @ ?rest" "lsm_entries lib ?s = mt_map (l_active ?s) @ ?rest"
    using imm by (simp_all add: lsm_entries_def lsm_layers_def)
  have below: "\<forall>e \<in> set (lsm_entries lib s). ik_version (fst e) < w" using ok w(1) by (auto simp: tree_ok_def)
  have act: "\<forall>e \<in> set (mt_map (l_active s)). ik_version (fst e) < w" using below ent by auto
  note app = mt_apply_entries [OF layer_wfD(1) [OF wf] ws(2) act]
  have new: "ik_version (fst e) = w \<and> ik_user_key (fst e) \<in> K \<and> entry_ok e" if "e \<in> set (txn_entries (ws, w))" for e
    using that ws(3) w(2) by (auto simp: txn_entries_def)
  have ent_set: "set (lsm_entries lib ?s) = set (txn_entries (ws, w)) \<union> set (lsm_entries lib s)"
    unfolding ent by (simp add: app(2) Un_assoc)
  have keys: "\<forall>e \<in> set (lsm_entries lib ?s). ik_user_key (fst e) \<in> K"
    unfolding ent_set using new ok unfolding tree_ok_def by blast
  have eok: "\<forall>e \<in> set (mt_map (l_active ?s)). entry_ok e"
    using new layer_wfD(3) [OF wf] by (auto simp: app(2))
  have "ik_user_key ` fst ` set (mt_map (l_active ?s)) \<subseteq> K" using keys ent(2) by auto
  then have "compatible_keys (user_keys (mt_map (l_active ?s)))"
    using K unfolding compatible_keys_def user_keys_image by blast
  then have "mem_ok (l_active ?s)" using app(1) eok by (simp add: mem_ok_def layer_wf_def)
  moreover have "later (mt_map (l_active ?s)) l" if l: "l \<in> set (map (\<lambda>(i, r). sst_contents lib r) (rev (l_ssts s)))" for l
  proof -
    have "later (mt_map (l_active s)) l" using srt l unfolding layers_no_imm [OF imm] sorted_wrt.simps by blast
    moreover have "later (txn_entries (ws, w)) l"
      unfolding later_def
    proof (intro ballI)
      fix e f
      assume e: "e \<in> set (txn_entries (ws, w))" and "f \<in> set l"
      then have "f \<in> set (lsm_entries lib s)" using l unfolding ent(1) by auto
      then show "ik_version (fst f) < ik_version (fst e)" using below new [OF e] by simp
    qed
    ultimately show ?thesis by (auto simp: later_def app(2))
  qed
  then have layers: "sorted_wrt later (lsm_layers lib ?s)" using srt by (simp add: layers_no_imm imm)
  moreover have inv': "lsm_inv lib ?s"
    using \<open>mem_ok (l_active ?s)\<close> inv imm sorted_later_newer [OF layers] by (simp add: lsm_inv_def)
  obtain ts where "wal_ok crc s ts" using ok by (auto simp: tree_ok_def)
  then have "wal_ok crc ?s (ts @ [(ws, w)])" using ws(1,4) by (auto simp: wal_ok_def applied_def)
  moreover have "dir_ok lib ?s" using ok by (simp add: tree_ok_def dir_ok_def)
  moreover have "\<forall>e \<in> set (lsm_entries lib ?s). ik_version (fst e) \<le> w"
    unfolding ent_set using new below by (metis UnE order.strict_implies_order order_refl)
  moreover have "\<exists>e \<in> set (lsm_entries lib ?s). ik_version (fst e) = w"
  proof -
    obtain k x ws' where "ws = (k, x) # ws'" using ws(1) by (cases ws) auto
    then show ?thesis unfolding ent_set by (intro bexI [of _ "(internal_key k w, x)"]) (auto simp: txn_entries_def)
  qed
  ultimately show "tree_ok lib crc K ?s"
    using inv' imm layers keys unfolding tree_ok_def applied_fields m by blast
  show "tells lib ?s f (H @ [(ws, w)])" if H: "tells lib s f H"
  proof -
    have newer: "newer_than (mt_map (l_active s)) ?rest" "newer_than (mt_map (l_active ?s)) ?rest"
      using sorted_later_newer [OF srt] sorted_later_newer [OF layers] imm
      by (simp_all add: layers_no_imm newer_than_concat)
    have "visible (lsm_entries lib ?s) k v = state_at (H @ [(ws, w)]) v k" if "f \<le> v" for k v
    proof -
      have "visible (lsm_entries lib ?s) k v = (case visible (txn_entries (ws, w)) k v of Some x \<Rightarrow> Some x
          | None \<Rightarrow> visible (lsm_entries lib s) k v)"
        using app(3) [of k v] unfolding ent visible_newer [OF newer(1)] visible_newer [OF newer(2)]
        by (simp split: option.split)
      then show ?thesis using H that visible_txn_entries [OF ws(2), of w k v]
        by (simp add: tells_def map_add_def split: option.split)
    qed
    moreover have old: "\<forall>t \<in> set H. snd t \<le> w" using H w(1) by (fastforce simp: tells_def)
    ultimately show ?thesis using m unfolding tells_def by simp
  qed
qed

end
