(* ===== verification/Recovery.thy ===== *)
theory Recovery
  imports Store
begin

text \<open>
  Opening the files of a store: the SST files come back in the order the tree had them, the log
  rebuilds the active memtable, and every read is what it was.
\<close>

section \<open>Greatest versions\<close>

lemma foldl_max:
  fixes a :: "'a :: linorder"
  shows "a \<le> foldl max a xs" "x \<in> set xs \<Longrightarrow> x \<le> foldl max a xs" "foldl max a xs = a \<or> foldl max a xs \<in> set xs"
proof -
  have ge: "a \<le> foldl max a xs" for a :: 'a and xs by (induction xs arbitrary: a) (auto dest: max.boundedE)
  then show "a \<le> foldl max a xs" .
  show "x \<in> set xs \<Longrightarrow> x \<le> foldl max a xs"
  proof (induction xs arbitrary: a)
    case (Cons y xs)
    have "y \<le> foldl max (max a y) xs" by (rule order_trans [OF max.cobounded2 ge])
    with Cons show ?case by auto
  qed simp
  show "foldl max a xs = a \<or> foldl max a xs \<in> set xs"
  proof (induction xs arbitrary: a)
    case (Cons x xs)
    show ?case using Cons [of "max a x"] by (auto simp: max_def split: if_splits)
  qed simp
qed

definition top_version :: "entry list \<Rightarrow> u64" where
  "top_version es = foldl max 0 (map (\<lambda>e. ik_version (fst e)) es)"

lemma top_version_ge: "e \<in> set es \<Longrightarrow> ik_version (fst e) \<le> top_version es"
  unfolding top_version_def by (rule foldl_max(2)) simp

lemma top_version_in: "es \<noteq> [] \<Longrightarrow> \<exists>e \<in> set es. ik_version (fst e) = top_version es"
proof -
  assume ne: "es \<noteq> []"
  show ?thesis
  proof (cases "top_version es \<in> set (map (\<lambda>e. ik_version (fst e)) es)")
    case True
    then show ?thesis by (metis (no_types, lifting) imageE list.set_map)
  next
    case False
    then have "top_version es = 0"
      using foldl_max(3) [of 0 "map (\<lambda>e. ik_version (fst e)) es"] by (simp add: top_version_def)
    moreover obtain e where "e \<in> set es" using ne by (cases es) auto
    ultimately show ?thesis using top_version_ge [of e es] by auto
  qed
qed

lemma later_top_version: "later a b \<Longrightarrow> a \<noteq> [] \<Longrightarrow> b \<noteq> [] \<Longrightarrow> top_version b < top_version a"
  using top_version_in [of a] top_version_in [of b] unfolding later_def by metis

section \<open>The files\<close>

lemma sst_max_version_ok: "sst_ok lib r \<Longrightarrow> sst_max_version lib r = Inr (top_version (sst_contents lib r))"
  using sst_max_version_repr [of lib "sst_contents lib r" r] by (simp add: sst_ok_def layer_wf_def entry_ok_long top_version_def)

lemma open_ssts_ok:
  assumes "\<forall>(i, img) \<in> set fs. sst_open lib img = Return (rd i) \<and> sst_ok lib (rd i)"
  shows "open_ssts lib fs = Return (map (\<lambda>(i, img). (i, top_version (sst_contents lib (rd i)), rd i)) fs)"
  using assms
proof (induction fs)
  case (Cons p fs)
  obtain i img where p: "p = (i, img)" by (cases p)
  show ?case using Cons by (simp add: p sst_max_version_ok of_result_def)
qed simp

text \<open>What opening relies on: whole files, in the order of their versions.\<close>

definition files_ok :: "sst_lib \<Rightarrow> lsm \<Rightarrow> bool" where
  "files_ok lib s \<longleftrightarrow> dir_ok lib s \<and> (\<forall>(i, r) \<in> set (l_ssts s). sst_ok lib r) \<and>
     sorted_wrt later (map (\<lambda>(i, r). sst_contents lib r) (rev (l_ssts s)))"

lemma tree_files_ok: "tree_ok lib crc K s \<Longrightarrow> files_ok lib s"
  using layers_no_imm [of s lib] by (auto simp: tree_ok_def files_ok_def lsm_inv_def)

text \<open>Sorting by greatest version and identifier restores the order of the tree.\<close>

lemma sorted_files:
  assumes ok: "files_ok lib s" and fs: "map_of fs = l_dir s" "distinct (map fst fs)"
    and rd: "\<And>i r. (i, r) \<in> set (l_ssts s) \<Longrightarrow> rd i = r"
  shows "map (\<lambda>(i, v, r). (i, r)) (sort_key (\<lambda>(i, v, r). (v, i))
      (map (\<lambda>(i, img). (i, top_version (sst_contents lib (rd i)), rd i)) fs)) = l_ssts s"
proof -
  let ?t = "\<lambda>r. top_version (sst_contents lib r)" and ?k = "\<lambda>(i, v, r). (v, i)"
  let ?ys = "map (\<lambda>(i, r). (i, ?t r, r)) (l_ssts s)" and ?xs = "map (\<lambda>(i, img). (i, ?t (rd i), rd i)) fs"
  have dir: "dir_ok lib s" and srt: "sorted_wrt later (map (\<lambda>(i, r). sst_contents lib r) (rev (l_ssts s)))"
    using ok by (simp_all add: files_ok_def)
  have ne: "(i, r) \<in> set (l_ssts s) \<Longrightarrow> sst_contents lib r \<noteq> []" for i r using dir by (auto simp: dir_ok_def)
  have "sorted_wrt (\<lambda>p q. later (sst_contents lib (snd q)) (sst_contents lib (snd p))) (l_ssts s)"
    using srt by (simp add: rev_map sorted_wrt_rev sorted_wrt_map case_prod_beta)
  then have "sorted_wrt (\<lambda>p q. ?k (fst p, ?t (snd p), snd p) < ?k (fst q, ?t (snd q), snd q)) (l_ssts s)"
    by (rule sorted_wrt_mono_rel [rotated]) (auto simp: less_prod_def' ne intro: later_top_version)
  then have ys: "sorted_wrt (<) (map ?k ?ys)" by (simp add: sorted_wrt_map case_prod_beta o_def)
  have "fst ` set fs = fst ` set (l_ssts s)"
    using fs(1) dir by (metis dir_ok_def dom_map_of_conv_image_fst)
  moreover have "set ?xs = (\<lambda>i. (i, ?t (rd i), rd i)) ` fst ` set fs" by (simp add: image_image case_prod_beta)
  ultimately have "set ?xs = (\<lambda>p. (fst p, ?t (rd (fst p)), rd (fst p))) ` set (l_ssts s)" by (simp add: image_image)
  also have "\<dots> = set ?ys" unfolding set_map by (rule image_cong) (use rd in auto)
  finally have set: "set ?xs = set ?ys" .
  have "distinct (map fst ?ys)" using dir by (simp add: dir_ok_def o_def case_prod_beta)
  moreover have "distinct (map fst ?xs)" using fs(2) by (simp add: o_def case_prod_beta)
  ultimately have "inj_on fst (set ?ys)" "distinct ?xs" by (simp_all only: distinct_map)
  then have inj: "inj_on ?k (set ?xs \<union> set ?ys)" "distinct ?xs"
    unfolding set Un_absorb by (simp_all only: inj_on_def split_beta fst_conv snd_conv prod.inject simp_thms) blast
  have "sort_key ?k ?xs = ?ys"
  proof (rule map_sorted_distinct_set_unique [where f = ?k])
    have "inj_on ?k (set ?xs)" using inj(1) by (rule inj_on_subset) blast
    then show "distinct (map ?k (sort_key ?k ?xs))"
      using inj(2) by (simp only: distinct_map [of ?k "sort_key ?k ?xs"] set_sort distinct_sort simp_thms)
    show "sorted (map ?k ?ys)" "distinct (map ?k ?ys)" using ys by (simp_all add: strict_sorted_iff)
  qed (use inj set in \<open>simp_all\<close>)
  then show ?thesis by (simp add: o_def case_prod_beta)
qed

section \<open>The log\<close>

lemma insert_rows_keys:
  "fst ` set (foldl (\<lambda>es (ik, x). sm_insert ik x es) es rows) = fst ` set rows \<union> fst ` set es"
proof (induction rows arbitrary: es)
  case (Cons row rows)
  obtain ik x where row: "row = (ik, x)" by (cases row)
  show ?case unfolding row foldl_Cons prod.case Cons.IH sm_insert_set by simp
qed simp

lemma replayed_versions: "\<forall>t \<in> set ts. fst t \<noteq> [] \<Longrightarrow>
  (\<lambda>e. ik_version (fst e)) ` set (mt_map (replayed ts)) = snd ` set ts"
proof (induction ts rule: rev_induct)
  case (snoc t ts)
  have "fst ` set (mt_map (replayed (ts @ [t]))) =
      (\<lambda>p. internal_key (fst p) (snd t)) ` set (fst t) \<union> fst ` set (mt_map (replayed ts))"
    unfolding replayed_snoc mt_apply_map insert_rows_keys
    by (cases t) (simp add: txn_entries_def image_image case_prod_beta)
  then have "ik_version ` fst ` set (mt_map (replayed (ts @ [t]))) =
      (\<lambda>p. snd t) ` set (fst t) \<union> ik_version ` fst ` set (mt_map (replayed ts))"
    by (simp add: image_Un image_image)
  moreover have "(\<lambda>p. snd t) ` set (fst t) = {snd t}" using snoc.prems by (simp add: image_constant_conv)
  ultimately show ?case using snoc by (simp add: image_image)
qed (simp add: replayed_def)

lemma record_versions: "\<forall>t \<in> set ts. fst t \<noteq> [] \<Longrightarrow> set (map wr_version (concat (map txn_records ts))) = snd ` set ts"
proof (induction ts)
  case (Cons t ts)
  have "wr_version (write_record p w) = w" for p w by (cases p) (auto simp: write_record_def split: option.splits)
  then have "wr_version ` set (txn_records t) = {snd t}" using Cons.prems by (simp add: txn_records_def image_image image_constant_conv)
  with Cons show ?case by auto
qed simp

lemma truncated_log:
  "truncate_to (WAL_MAGIC @ e @ junk) (8 + length e) = WAL_MAGIC @ e"
  by (simp add: truncate_to_def)

section \<open>Opening\<close>

text \<open>A tree whose volatile parts are fresh and whose manager is at version \<open>v\<close>.\<close>

definition reopened :: "lsm_config \<Rightarrow> data_dir_guard \<Rightarrow> u64 \<Rightarrow> u64 \<Rightarrow> lsm \<Rightarrow> lsm" where
  "reopened cfg g v i s = s\<lparr>l_config := cfg, l_guard := g, l_tm := recover_at_version v, l_next_sst_id := i,
     l_compaction := \<lparr>cs_pending = False, cs_running = False, cs_shutdown = False\<rparr>\<rparr>"

lemma open_result:
  assumes ok: "files_ok lib s" and imm: "l_immutables s = []" and wal: "wal_ok crc s ts"
    and fs: "map_of fs = l_dir s" "distinct (map fst fs)"
    and d: "d = WAL_MAGIC @ concat (map (txn_enc crc) ts) @ junk"
    and rp: "replay_with_valid_len crc (Some d) = Inr (concat (map txn_records ts), 8 + length (concat (map (txn_enc crc) ts)))"
  obtains v i where "lsm_open lib crc io cfg g fs (Some d) = Return (reopened cfg g v i s)"
    "\<forall>e \<in> set (lsm_entries lib s). ik_version (fst e) \<le> v" "v = 0 \<or> v \<in> (\<lambda>e. ik_version (fst e)) ` set (lsm_entries lib s)"
    "\<forall>p \<in> set (l_ssts s). fst p < i"
proof -
  define rd where "rd i = the (map_of (l_ssts s) i)" for i
  have dir: "dir_ok lib s" and inv: "\<forall>(i, r) \<in> set (l_ssts s). sst_ok lib r" using ok by (auto simp: files_ok_def)
  have rd: "rd i = r" if "(i, r) \<in> set (l_ssts s)" for i r
    using that dir by (simp add: rd_def dir_ok_def)
  have files: "\<forall>(i, img) \<in> set fs. sst_open lib img = Return (rd i) \<and> sst_ok lib (rd i)"
  proof clarify
    fix i img
    assume "(i, img) \<in> set fs"
    then have "l_dir s i = Some img" using fs by (metis map_of_is_SomeI)
    moreover obtain r where r: "(i, r) \<in> set (l_ssts s)" using dir calculation by (force simp: dir_ok_def)
    ultimately show "sst_open lib img = Return (rd i) \<and> sst_ok lib (rd i)"
      using dir inv rd [OF r] by (fastforce simp: dir_ok_def)
  qed
  let ?with_id = "map (\<lambda>(i, img). (i, top_version (sst_contents lib (rd i)), rd i)) fs"
  let ?v0 = "foldl max 0 (map (\<lambda>(_, v, _). v) ?with_id)"
  define v where "v = foldl max ?v0 (map wr_version (concat (map txn_records ts)))"
  have "ids": "set (map fst fs) = fst ` set (l_ssts s)"
    using fs dir by (metis dir_ok_def dom_map_of_conv_image_fst list.set_map)
  have tops: "set (map (\<lambda>(_, v, _). v) ?with_id) = (\<lambda>p. top_version (sst_contents lib (snd p))) ` set (l_ssts s)"
  proof -
    have "set (map (\<lambda>(_, v, _). v) ?with_id) = (\<lambda>i. top_version (sst_contents lib (rd i))) ` set (map fst fs)"
      by (simp add: image_image case_prod_beta)
    also have "\<dots> = (\<lambda>p. top_version (sst_contents lib (rd (fst p)))) ` set (l_ssts s)" unfolding ids by (simp add: image_image)
    also have "\<dots> = (\<lambda>p. top_version (sst_contents lib (snd p))) ` set (l_ssts s)"
      by (rule image_cong) (use rd in auto)
    finally show ?thesis .
  qed
  have ts: "\<forall>t \<in> set ts. fst t \<noteq> []" and act: "l_active s = replayed ts" using wal by (auto simp: wal_ok_def)
  have ent: "set (lsm_entries lib s) = set (mt_map (replayed ts)) \<union> (\<Union>p \<in> set (l_ssts s). set (sst_contents lib (snd p)))"
    using imm act by (auto simp: lsm_entries_def lsm_layers_def)
  have above: "ik_version (fst e) \<le> v" if "e \<in> set (lsm_entries lib s)" for e
    using that unfolding ent
  proof
    assume "e \<in> set (mt_map (replayed ts))"
    then have "ik_version (fst e) \<in> set (map wr_version (concat (map txn_records ts)))"
      using replayed_versions [OF ts] record_versions [OF ts] by blast
    then show ?thesis unfolding v_def by (rule foldl_max(2))
  next
    assume "e \<in> (\<Union>p \<in> set (l_ssts s). set (sst_contents lib (snd p)))"
    then obtain p where p: "p \<in> set (l_ssts s)" "e \<in> set (sst_contents lib (snd p))" by blast
    have "ik_version (fst e) \<le> top_version (sst_contents lib (snd p))" by (rule top_version_ge [OF p(2)])
    also have "\<dots> \<le> ?v0" by (rule foldl_max(2)) (use tops p(1) in blast)
    also have "\<dots> \<le> v" unfolding v_def by (rule foldl_max(1))
    finally show ?thesis .
  qed
  have v_in: "v = 0 \<or> v \<in> (\<lambda>e. ik_version (fst e)) ` set (lsm_entries lib s)"
  proof (cases "v = ?v0")
    case True
    show ?thesis
    proof (cases "v = 0")
      case False
      then have "v \<in> set (map (\<lambda>(_, v, _). v) ?with_id)" using foldl_max(3) [of 0 "map (\<lambda>(_, v, _). v) ?with_id"] True by metis
      then obtain p where p: "p \<in> set (l_ssts s)" "v = top_version (sst_contents lib (snd p))" unfolding tops by blast
      then have "sst_contents lib (snd p) \<noteq> []" using dir by (auto simp: dir_ok_def)
      from top_version_in [OF this] obtain e where "e \<in> set (sst_contents lib (snd p))" "v = ik_version (fst e)" using p(2) by auto
      then show ?thesis using p(1) unfolding ent by blast
    qed simp
  next
    case False
    then have "v \<in> snd ` set ts"
      using foldl_max(3) [of ?v0 "map wr_version (concat (map txn_records ts))"] record_versions [OF ts] by (metis v_def)
    then show ?thesis using replayed_versions [OF ts] unfolding ent by blast
  qed
  have "\<forall>p \<in> set (l_ssts s). fst p < foldl max 0 (map fst fs) + 1"
  proof
    fix p
    assume p: "p \<in> set (l_ssts s)"
    have lt: "i < - 1" if "i \<in> set (map fst fs)" for i
      using that dir unfolding ids by (force simp: dir_ok_def intro: order.strict_trans2)
    have m: "foldl max 0 (map fst fs) < - 1"
      using foldl_max(3) [of 0 "map fst fs"] lt one_less_max by (metis word_not_simps(1) word_neq_0_conv neg_equal_0_iff_equal one_neq_zero)
    have "fst p \<le> foldl max 0 (map fst fs)" by (rule foldl_max(2)) (use ids p in auto)
    then show "fst p < foldl max 0 (map fst fs) + 1" by (rule order.strict_trans1 [OF _ u64_Suc_less [OF m]])
  qed
  moreover have "lsm_open lib crc io cfg g fs (Some d) = Return (reopened cfg g v (foldl max 0 (map fst fs) + 1) s)"
  proof -
    have legacy: "\<not> file_is_legacy (Some d)" by (simp add: file_is_legacy_def d)
    have log: "wal_open (Some (if 8 + length (concat (map (txn_enc crc) ts)) < length d
        then truncate_to d (8 + length (concat (map (txn_enc crc) ts))) else d)) = l_wal s"
      using wal truncated_log [of "concat (map (txn_enc crc) ts)" junk] by (auto simp: d wal_ok_def wal_open_def)
    have state: "reopened cfg g u j s = \<lparr>l_config = cfg, l_guard = g, l_active = replayed ts, l_immutables = [],
        l_ssts = l_ssts s, l_wal = l_wal s, l_tm = recover_at_version u, l_next_sst_id = j,
        l_compaction = \<lparr>cs_pending = False, cs_running = False, cs_shutdown = False\<rparr>, l_dir = l_dir s\<rparr>" for u j
      using imm act by (cases s) (simp add: reopened_def)
    have srt: "map (\<lambda>(i, _, r). (i, r)) (sort_key (\<lambda>(i, v, _). (v, i)) ?with_id) = l_ssts s"
      by (rule sorted_files [OF ok fs rd])
    show ?thesis
      using legacy imm by (simp add: lsm_open_def open_ssts_ok [OF files] Let_def rp of_result_def replay_into_txns
          srt log state fs(1) v_def)
  qed
  ultimately show ?thesis using that above v_in by blast
qed

text \<open>A tree in its invariant is opened at the version it had.\<close>

lemma opened_version:
  assumes ok: "tree_ok lib crc K s" and above: "\<forall>e \<in> set (lsm_entries lib s). ik_version (fst e) \<le> v"
    and v_in: "v = 0 \<or> v \<in> (\<lambda>e. ik_version (fst e)) ` set (lsm_entries lib s)"
  shows "v = visible_version (l_tm s)"
proof (rule antisym)
  have "\<forall>e \<in> set (lsm_entries lib s). ik_version (fst e) \<le> visible_version (l_tm s)" using ok by (simp add: tree_ok_def)
  then show "v \<le> visible_version (l_tm s)" using v_in by auto
  have "visible_version (l_tm s) = 0 \<or> (\<exists>e \<in> set (lsm_entries lib s). ik_version (fst e) = visible_version (l_tm s))"
    using ok by (simp add: tree_ok_def)
  then show "visible_version (l_tm s) \<le> v"
  proof
    assume "\<exists>e \<in> set (lsm_entries lib s). ik_version (fst e) = visible_version (l_tm s)"
    then obtain e where "e \<in> set (lsm_entries lib s)" "ik_version (fst e) = visible_version (l_tm s)" by blast
    with above show ?thesis by metis
  qed simp
qed

lemma open_tree_ok:
  assumes ok: "tree_ok lib crc K s" and wal: "wal_ok crc s ts"
    and fs: "map_of fs = l_dir s" "distinct (map fst fs)"
    and d: "d = WAL_MAGIC @ concat (map (txn_enc crc) ts) @ junk"
    and rp: "replay_with_valid_len crc (Some d) = Inr (concat (map txn_records ts), 8 + length (concat (map (txn_enc crc) ts)))"
  obtains i where "lsm_open lib crc io cfg g fs (Some d) = Return (reopened cfg g (visible_version (l_tm s)) i s)"
    "\<forall>p \<in> set (l_ssts s). fst p < i"
proof (rule open_result [OF tree_files_ok [OF ok] _ wal fs d rp, of io cfg g])
  show "l_immutables s = []" using ok by (simp add: tree_ok_def)
  fix v i
  assume i: "lsm_open lib crc io cfg g fs (Some d) = Return (reopened cfg g v i s)" "\<forall>p \<in> set (l_ssts s). fst p < i"
    and above: "\<forall>e \<in> set (lsm_entries lib s). ik_version (fst e) \<le> v"
    and v_in: "v = 0 \<or> v \<in> (\<lambda>e. ik_version (fst e)) ` set (lsm_entries lib s)"
  have "v = visible_version (l_tm s)" by (rule opened_version [OF ok above v_in])
  with i that show ?thesis by simp
qed

lemma reopened_entries [simp]:
  "lsm_layers lib (reopened cfg g v i s) = lsm_layers lib s" "lsm_entries lib (reopened cfg g v i s) = lsm_entries lib s"
  "l_tm (reopened cfg g v i s) = recover_at_version v"
  by (simp_all add: lsm_entries_def lsm_layers_def reopened_def)

lemma reopened_ok:
  assumes ok: "tree_ok lib crc K s" and i: "\<forall>p \<in> set (l_ssts s). fst p < i"
  shows "tree_ok lib crc K (reopened cfg g (visible_version (l_tm s)) i s)"
    "tells lib s f H \<Longrightarrow> tells lib (reopened cfg g (visible_version (l_tm s)) i s) f H"
proof -
  let ?s = "reopened cfg g (visible_version (l_tm s)) i s"
  have "dir_ok lib ?s" "\<And>ts. wal_ok crc ?s ts = wal_ok crc s ts" "lsm_inv lib ?s = lsm_inv lib s"
    "l_immutables ?s = l_immutables s"
    using ok i by (force simp: tree_ok_def dir_ok_def wal_ok_def lsm_inv_def lsm_layers_def reopened_def)+
  then show "tree_ok lib crc K ?s" using ok by (simp add: tree_ok_def recover_at_version_def)
  show "tells lib ?s f H" if "tells lib s f H" using that by (simp add: tells_def recover_at_version_def)
qed

text \<open>A log that ends in a torn transaction: it is replayed when all its bytes are there.\<close>

lemma whole_txns_append:
  "whole_txns crc (length (concat (map (txn_enc crc) ts)) + n) (ts @ us) = ts @ whole_txns crc n us"
  by (induction ts) simp_all

lemma replay_in_flight:
  assumes "\<forall>t' \<in> set (ts @ [t]). txn_ok t'"
    and "whole = (if length (txn_enc crc t) \<le> n then ts @ [t] else ts)"
  shows "replay_with_valid_len crc (Some (WAL_MAGIC @ concat (map (txn_enc crc) ts) @ take n (txn_enc crc t))) =
    Inr (concat (map txn_records whole), 8 + length (concat (map (txn_enc crc) whole)))"
proof -
  let ?e = "concat (map (txn_enc crc) ts)"
  have "whole_txns crc (length ?e + n) (ts @ [t]) = whole" by (simp add: whole_txns_append assms(2))
  moreover have "take (length ?e + n) (concat (map (txn_enc crc) (ts @ [t]))) = ?e @ take n (txn_enc crc t)" by simp
  ultimately show ?thesis using replay_torn_log_aux [OF assms(1), of crc "length ?e + n"] by simp
qed

section \<open>A torn header\<close>

text \<open>Opening a directory whose log counts as legacy and replays to nothing.\<close>

lemma open_unreplayed:
  assumes "open_ssts lib fs = Return ssts" "verify_owner g (sio_lock io) = (Inr (), g)"
    "file_is_legacy (Some d)" "replay_with_valid_len crc (Some d) = Inr ([], 0)" "d \<noteq> []"
  shows "lsm_open lib crc io cfg g fs (Some d) = Return
    \<lparr>l_config = cfg, l_guard = g, l_active = mt_new, l_immutables = [],
     l_ssts = map (\<lambda>(i, _, r). (i, r)) (sort_key (\<lambda>(i, v, _). (v, i)) ssts), l_wal = \<lparr>wal_file = d, wal_buf = []\<rparr>,
     l_tm = recover_at_version (foldl max 0 (map (\<lambda>(_, v, _). v) ssts)), l_next_sst_id = foldl max 0 (map fst fs) + 1,
     l_compaction = \<lparr>cs_pending = False, cs_running = False, cs_shutdown = False\<rparr>, l_dir = map_of fs\<rparr>"
  using assms by (simp add: lsm_open_def of_result_def Let_def replay_into_def wal_open_def lsm_flush_def flush_locked_def mt_is_empty_def)

text \<open>
  C28: a log with a torn header loses later commits. A header of which only 1 to 7 bytes reached the file (a crash while the log
  is created or re-created) counts as a legacy log and replays to nothing. Opening the directory then has nothing to flush, so the log is not
  re-created: the tree that it returns appends to the torn file. A transaction that it appends without an error is not replayed when
  the directory is opened again, which gives the tree as it was before the transaction. This is so for every checksum
  function, unless the byte of the commit version that falls on the place of the record type is a record type, or the checksum completes the header.
\<close>

theorem torn_header_loses_commits:
  assumes "0 < n" "n < 8" "open_ssts lib fs = Return ssts" "verify_owner g (sio_lock io) = (Inr (), g)"
    "fst t \<noteq> []" "u64_be (snd t) ! (8 - n) \<notin> {1, 2, 3}" "take 8 (take n WAL_MAGIC @ txn_enc crc t) \<noteq> WAL_MAGIC"
  shows "\<exists>s w. lsm_open lib crc io cfg g fs (Some (take n WAL_MAGIC)) = Return s \<and> wal_file (l_wal s) = take n WAL_MAGIC \<and>
    append_txn crc io_ok (l_wal s) (fst t) (snd t) = (Inr (), w) \<and>
    lsm_open lib crc io cfg g fs (Some (wal_file w)) = Return (s\<lparr>l_wal := w\<rparr>)"
proof -
  let ?h = "take n WAL_MAGIC"
  have h: "?h \<noteq> []" "file_is_legacy (Some ?h)" using assms(1,2) by (simp_all add: file_is_legacy_def)
  have w: "?h @ txn_enc crc t \<noteq> []" "file_is_legacy (Some (?h @ txn_enc crc t))"
    using h(1) assms(7) by (auto simp: file_is_legacy_def)
  note o1 = open_unreplayed [OF assms(3,4) h(2) torn_header_only [OF assms(2)] h(1), where cfg = cfg]
  note o2 = open_unreplayed [OF assms(3,4) w(2) torn_header_replay [OF assms(1,2,5-7)] w(1), where cfg = cfg]
  have "append_txn crc io_ok \<lparr>wal_file = ?h, wal_buf = []\<rparr> (fst t) (snd t) = (Inr (), \<lparr>wal_file = ?h @ txn_enc crc t, wal_buf = []\<rparr>)"
    using assms(5) by (simp add: append_txn_ok)
  then show ?thesis using o1 o2 by simp
qed

theorem torn_header_loses_commits_witness:
  "\<exists>s w. lsm_open stored_codec (\<lambda>_. 0) good_io config_new \<lparr>g_owner_id = 1, g_fenced = False\<rparr> [] (Some (take 3 WAL_MAGIC)) = Return s \<and>
    wal_file (l_wal s) = take 3 WAL_MAGIC \<and> append_txn (\<lambda>_. 0) io_ok (l_wal s) [([97], Some [1])] 5 = (Inr (), w) \<and>
    lsm_open stored_codec (\<lambda>_. 0) good_io config_new \<lparr>g_owner_id = 1, g_fenced = False\<rparr> [] (Some (wal_file w)) = Return (s\<lparr>l_wal := w\<rparr>)"
proof -
  have "read_owner_id (sio_lock good_io) = Some 1" using read_owner_stamp [of 1 "[]" "[]"] by (simp add: good_io_def)
  then have ver: "verify_owner \<lparr>g_owner_id = 1, g_fenced = False\<rparr> (sio_lock good_io) = (Inr (), \<lparr>g_owner_id = 1, g_fenced = False\<rparr>)"
    by (simp add: verify_owner_def)
  have "u64_be 5 ! 5 \<notin> {1, 2, 3}" by code_simp
  moreover have "take 8 (take 3 WAL_MAGIC @ txn_enc (\<lambda>_. 0) ([([97], Some [1])], 5)) \<noteq> WAL_MAGIC"
    by code_simp
  ultimately show ?thesis
    using torn_header_loses_commits [of 3 stored_codec "[]" "[]", OF _ _ _ ver, of "([([97], Some [1])], 5)" "\<lambda>_. 0", where cfg = config_new] by simp
qed

end
