(* ===== verification/Store_System.thy ===== *)
theory Store_System
  imports Recovery
begin

text \<open>
  Every run of a store: begin, buffered writes, commits with the flush and compaction they trigger,
  aborts, explicit flushes and compactions, and crashes, between two calls or while the log is
  written. In every reachable state a transaction reads the state its snapshot had in the history of
  committed transactions.
\<close>

section \<open>Runs\<close>

text \<open>
  The tree, the transactions of the process, and the committed transactions, oldest first. The keys
  written are in \<open>K\<close>. A step is one call that succeeds or a commit refused with a conflict, and no other call runs in the
  middle of it: the two loads of a begin, the reading and the installing part of a compaction and the three layers that a read visits
  are taken together. A compaction removes its input files. The guards on lengths are the limits of the file formats.
\<close>

record store =
  st_tree :: lsm
  st_txns :: "transaction list"
  st_history :: "txn list"

definition commit_fits :: "sst_lib \<Rightarrow> (bytes \<Rightarrow> u32) \<Rightarrow> store_io \<Rightarrow> lsm \<Rightarrow> transaction \<Rightarrow> bool" where
  "commit_fits lib crc fio s txn \<longleftrightarrow> length (tx_writes txn) < 2 ^ 64 \<and> next_version (l_tm s) < 2 ^ 56 \<and> l_next_sst_id s < - 2 \<and>
     (case commit_unit (l_tm s) txn (Inr ()) of (_, m, _) \<Rightarrow>
        (let s1 = (if tx_writes txn = [] then s\<lparr>l_tm := m\<rparr> else applied crc s m (tx_writes txn) (next_version (l_tm s)))
         in flush_fits lib s1 \<and>
            (\<forall>s2. lsm_flush lib fio s1 = (Return (), s2) \<longrightarrow> compact_fits lib s2 (next_job lib s2))))"

inductive store_step :: "sst_lib \<Rightarrow> (bytes \<Rightarrow> u32) \<Rightarrow> bytes set \<Rightarrow> store \<Rightarrow> store \<Rightarrow> bool" for lib crc K where
  store_begin: "Suc (length (st_txns S)) < 2 ^ 64 \<Longrightarrow> lsm_begin_txn (st_tree S) = (s, t) \<Longrightarrow>
    store_step lib crc K S (S\<lparr>st_tree := s, st_txns := st_txns S @ [t]\<rparr>)"
| store_put: "i < length (st_txns S) \<Longrightarrow> k \<in> K \<Longrightarrow> length k < 2 ^ 32 \<Longrightarrow> length x < 2 ^ 32 \<Longrightarrow>
    store_step lib crc K S (S\<lparr>st_txns := (st_txns S)[i := lsm_put (st_txns S ! i) k x]\<rparr>)"
| store_delete: "i < length (st_txns S) \<Longrightarrow> k \<in> K \<Longrightarrow> length k < 2 ^ 32 \<Longrightarrow>
    store_step lib crc K S (S\<lparr>st_txns := (st_txns S)[i := lsm_delete (st_txns S ! i) k]\<rparr>)"
| store_abort: "i < length (st_txns S) \<Longrightarrow> lsm_abort (st_tree S) (st_txns S ! i) = (s, t) \<Longrightarrow>
    store_step lib crc K S (S\<lparr>st_tree := s, st_txns := (st_txns S)[i := t]\<rparr>)"
| store_commit: "i < length (st_txns S) \<Longrightarrow> tx_hold (st_txns S ! i) \<Longrightarrow> check_fenced (l_guard (st_tree S)) = Inr () \<Longrightarrow>
    commit_fits lib crc fio (st_tree S) (st_txns S ! i) \<Longrightarrow> (\<forall>i. sio_unlink cio i) \<Longrightarrow>
    lsm_commit lib crc io_ok fio cio (st_tree S) (st_txns S ! i) = (Return v, s, t) \<Longrightarrow>
    store_step lib crc K S (S\<lparr>st_tree := s, st_txns := (st_txns S)[i := t],
      st_history := st_history S @ (if tx_writes (st_txns S ! i) = [] then [] else [(tx_writes (st_txns S ! i), v)])\<rparr>)"
| store_conflict: "i < length (st_txns S) \<Longrightarrow> check_fenced (l_guard (st_tree S)) = Inr () \<Longrightarrow>
    conflicts (l_tm (st_tree S)) (st_txns S ! i) \<Longrightarrow> tx_writes (st_txns S ! i) \<noteq> [] \<Longrightarrow>
    lsm_commit lib crc io_ok fio cio (st_tree S) (st_txns S ! i) = (r, s, t) \<Longrightarrow>
    store_step lib crc K S (S\<lparr>st_tree := s, st_txns := (st_txns S)[i := t]\<rparr>)"
| store_flush: "flush_fits lib (st_tree S) \<Longrightarrow> l_next_sst_id (st_tree S) < - 1 \<Longrightarrow>
    lsm_flush lib fio (st_tree S) = (Return (), s) \<Longrightarrow> store_step lib crc K S (S\<lparr>st_tree := s\<rparr>)"
| store_compact: "compact_fits lib (st_tree S) (next_job lib (st_tree S)) \<Longrightarrow> l_next_sst_id (st_tree S) < - 1 \<Longrightarrow> (\<forall>i. sio_unlink cio i) \<Longrightarrow>
    lsm_compact lib cio (st_tree S) = (Return (), s) \<Longrightarrow> store_step lib crc K S (S\<lparr>st_tree := s\<rparr>)"
| store_crash: "map_of fs = l_dir (st_tree S) \<Longrightarrow> distinct (map fst fs) \<Longrightarrow>
    lsm_open lib crc io cfg g fs (Some (wal_file (l_wal (st_tree S)))) = Return s \<Longrightarrow>
    store_step lib crc K S (S\<lparr>st_tree := s, st_txns := []\<rparr>)"
| store_crash_commit: "i < length (st_txns S) \<Longrightarrow> tx_hold (st_txns S ! i) \<Longrightarrow> (ws, w) = (tx_writes (st_txns S ! i), next_version (l_tm (st_tree S))) \<Longrightarrow>
    ws \<noteq> [] \<Longrightarrow> \<not> conflicts (l_tm (st_tree S)) (st_txns S ! i) \<Longrightarrow> length ws < 2 ^ 64 \<Longrightarrow> w < 2 ^ 56 \<Longrightarrow>
    map_of fs = l_dir (st_tree S) \<Longrightarrow> distinct (map fst fs) \<Longrightarrow>
    lsm_open lib crc io cfg g fs (Some (wal_file (l_wal (st_tree S)) @ take n (txn_bytes crc ws w))) = Return s \<Longrightarrow>
    store_step lib crc K S (S\<lparr>st_tree := s, st_txns := [],
      st_history := st_history S @ (if length (txn_bytes crc ws w) \<le> n then [(ws, w)] else [])\<rparr>)"

text \<open>A new store: the tree that opening an empty directory gives.\<close>

definition store_new :: "sst_lib \<Rightarrow> (bytes \<Rightarrow> u32) \<Rightarrow> store \<Rightarrow> bool" where
  "store_new lib crc S \<longleftrightarrow> (\<exists>io cfg g. lsm_open lib crc io cfg g [] None = Return (st_tree S)) \<and>
     st_txns S = [] \<and> st_history S = []"

inductive store_reachable :: "sst_lib \<Rightarrow> (bytes \<Rightarrow> u32) \<Rightarrow> bytes set \<Rightarrow> store \<Rightarrow> bool" for lib crc K where
  store_start: "store_new lib crc S \<Longrightarrow> store_reachable lib crc K S"
| store_more: "store_reachable lib crc K S \<Longrightarrow> store_step lib crc K S S' \<Longrightarrow> store_reachable lib crc K S'"

section \<open>The invariant\<close>

definition buffer_ok :: "bytes set \<Rightarrow> transaction \<Rightarrow> bool" where
  "buffer_ok K t \<longleftrightarrow> (\<forall>(k, x) \<in> set (tx_writes t). k \<in> K \<and> length k < 2 ^ 32 \<and>
     (case x of Some v \<Rightarrow> length v < 2 ^ 32 | None \<Rightarrow> True))"

definition store_inv :: "sst_lib \<Rightarrow> (bytes \<Rightarrow> u32) \<Rightarrow> bytes set \<Rightarrow> store \<Rightarrow> bool" where
  "store_inv lib crc K S \<longleftrightarrow> tree_ok lib crc K (st_tree S) \<and>
     tells lib (st_tree S) (compact_floor (st_tree S)) (st_history S) \<and> (\<forall>t \<in> set (st_txns S). buffer_ok K t) \<and>
     (\<exists>h g. reachable \<lparr>sys_tm = l_tm (st_tree S), sys_txns = st_txns S, sys_history = h, sys_pending = [], sys_registered = g\<rparr>)"

lemma upsert_buffer_ok:
  assumes "buffer_ok K t" "buffer_inv t" "k \<in> K" "length k < 2 ^ 32" "case x of Some v \<Rightarrow> length v < 2 ^ 32 | None \<Rightarrow> True"
  shows "buffer_ok K (upsert t k x)"
proof -
  have inv: "distinct (map fst (tx_writes (upsert t k x)))" "distinct (map fst (tx_writes t))"
    using upsert_inv [OF assms(2), of k x] assms(2) by (simp_all add: buffer_inv_def)
  have "(j, y) \<in> set (tx_writes (upsert t k x)) \<Longrightarrow> (j, y) = (k, x) \<or> (j, y) \<in> set (tx_writes t)" for j y
    using upsert_inv [OF assms(2), of k x] inv by (metis map_of_is_SomeI map_of_SomeD fun_upd_apply option.inject)
  with assms show ?thesis by (fastforce simp: buffer_ok_def)
qed

lemma buffer_txn_ok: "buffer_ok K t \<Longrightarrow> length (tx_writes t) < 2 ^ 64 \<Longrightarrow> txn_ok (tx_writes t, w)"
  by (auto simp: txn_ok_def buffer_ok_def txn_records_def list_all_iff fits_def write_record_def split: option.splits prod.splits)

section \<open>The floor\<close>

lemma min_key_subset: "fst ` set a' \<subseteq> fst ` set a \<Longrightarrow> min_key a \<le> min_key a'"
proof (cases "a' = []")
  case False
  assume "fst ` set a' \<subseteq> fst ` set a"
  with min_key_in [OF False] min_key_le [of _ a] show ?thesis by blast
qed (simp add: min_key_def)

lemma min_key_register: "min (min_key a) s \<le> min_key (register_hold a s)"
proof -
  have ne: "register_hold a s \<noteq> []" by (simp add: register_hold_def update_nonempty)
  have "fst ` set (register_hold a s) \<subseteq> insert s (fst ` set a)"
    by (simp add: register_hold_def dom_update)
  then consider "min_key (register_hold a s) = s" | "min_key (register_hold a s) \<in> fst ` set a" using min_key_in [OF ne] by blast
  then show ?thesis by cases (simp, blast intro: min_key_le min.coboundedI1)
qed

lemma release_keys: "fst ` set (release_hold a s) \<subseteq> fst ` set a"
proof (cases "map_of a s")
  case (Some c)
  then have "s \<in> fst ` set a" by (force dest: map_of_SomeD)
  then show ?thesis using dom_delete_subset [of s a] by (simp add: release_hold_def Some dom_update)
qed (simp add: release_hold_def)

lemma release_floor: "min_key (active m) \<le> min_key (active (fst (tx_release m t)))"
  by (simp add: tx_release_def min_key_subset [OF release_keys])

lemma tells_mono:
  assumes "tells lib s f H" "lsm_entries lib s' = lsm_entries lib s" "visible_version (l_tm s) \<le> visible_version (l_tm s')" "f \<le> f'"
  shows "tells lib s' f' H"
  using assms by (auto simp: tells_def dest: order_trans)

section \<open>Every step keeps the invariant\<close>

lemma tm_irrelevant [simp]:
  "lsm_layers lib (s\<lparr>l_tm := m\<rparr>) = lsm_layers lib s" "lsm_entries lib (s\<lparr>l_tm := m\<rparr>) = lsm_entries lib s"
  by (simp_all add: lsm_entries_def lsm_layers_def)

lemma tree_ok_tm:
  "visible_version m = visible_version (l_tm s) \<Longrightarrow> tree_ok lib crc K s \<Longrightarrow> tree_ok lib crc K (s\<lparr>l_tm := m\<rparr>)"
  by (simp add: tree_ok_def lsm_inv_def dir_ok_def wal_ok_def)

lemma begin_store_inv:
  assumes inv: "store_inv lib crc K S" and n: "Suc (length (st_txns S)) < 2 ^ 64"
    and b: "lsm_begin_txn (st_tree S) = (s, t)"
  shows "store_inv lib crc K (S\<lparr>st_tree := s, st_txns := st_txns S @ [t]\<rparr>)"
proof -
  let ?m = "l_tm (st_tree S)"
  obtain m where m: "tm_begin ?m = (m, t)" "s = (st_tree S)\<lparr>l_tm := m\<rparr>"
    using b by (auto simp: lsm_begin_txn_def split: prod.splits)
  have vis: "visible_version m = visible_version ?m" and act: "active m = register_hold (active ?m) (visible_version ?m)"
    and t: "tx_writes t = []"
    using m(1) by (auto simp: tm_begin_def begin_register_def begin_load_def)
  obtain h g where "reachable \<lparr>sys_tm = ?m, sys_txns = st_txns S, sys_history = h, sys_pending = [], sys_registered = g\<rparr>" using inv by (auto simp: store_inv_def)
  from reachable_begin [OF this] n m(1)
  have "\<exists>h g. reachable \<lparr>sys_tm = m, sys_txns = st_txns S @ [t], sys_history = h, sys_pending = [], sys_registered = g\<rparr>" by auto
  moreover have "compact_floor (st_tree S) \<le> compact_floor s"
    using min_key_register [of "active ?m" "visible_version ?m"]
    by (simp add: compact_floor_def min_active_snapshot_def m(2) act vis)
  ultimately show ?thesis
    using inv vis t tree_ok_tm [OF vis, of lib crc K] tells_mono [of lib "st_tree S" _ "st_history S" s]
    by (auto simp: store_inv_def m(2) buffer_ok_def)
qed

lemma write_store_inv:
  assumes inv: "store_inv lib crc K S" and i: "i < length (st_txns S)" and k: "k \<in> K" "length k < 2 ^ 32"
    and x: "case x of Some v \<Rightarrow> length v < 2 ^ 32 | None \<Rightarrow> True"
  shows "store_inv lib crc K (S\<lparr>st_txns := (st_txns S)[i := upsert (st_txns S ! i) k x]\<rparr>)"
proof -
  obtain h g where r: "reachable \<lparr>sys_tm = l_tm (st_tree S), sys_txns = st_txns S, sys_history = h, sys_pending = [], sys_registered = g\<rparr>"
    using inv by (auto simp: store_inv_def)
  have "buffer_inv (st_txns S ! i)"
    using sys_inv_reachable [OF r] i by (auto simp: sys_inv_def versions_inv_def)
  then have "buffer_ok K (upsert (st_txns S ! i) k x)"
    using upsert_buffer_ok [OF _ _ k x] inv i by (auto simp: store_inv_def)
  then have "\<forall>t \<in> set ((st_txns S)[i := upsert (st_txns S ! i) k x]). buffer_ok K t"
    using inv set_update_subset_insert [of "st_txns S" i] by (fastforce simp: store_inv_def)
  moreover have "reachable \<lparr>sys_tm = l_tm (st_tree S), sys_txns = (st_txns S)[i := upsert (st_txns S ! i) k x], sys_history = h, sys_pending = [], sys_registered = g\<rparr>"
  proof (cases x)
    case None
    with reachable.more [OF r step_delete [of i _ k]] i show ?thesis by (simp add: record_delete_def)
  next
    case (Some v)
    with reachable.more [OF r step_put [of i _ k v]] i show ?thesis by (simp add: record_put_def)
  qed
  ultimately show ?thesis using inv by (auto simp: store_inv_def)
qed

lemma abort_store_inv:
  assumes inv: "store_inv lib crc K S" and i: "i < length (st_txns S)"
    and r: "tx_release (l_tm (st_tree S)) (st_txns S ! i) = (m, t)"
  shows "store_inv lib crc K (S\<lparr>st_tree := (st_tree S)\<lparr>l_tm := m\<rparr>, st_txns := (st_txns S)[i := t]\<rparr>)"
proof -
  let ?m = "l_tm (st_tree S)"
  have vis: "visible_version m = visible_version ?m" and fl: "min_key (active ?m) \<le> min_key (active m)"
    using r release_fields [of ?m "st_txns S ! i"] release_floor [of ?m "st_txns S ! i"] by simp_all
  have "tx_writes t = tx_writes (st_txns S ! i)" using r by (auto simp: tx_release_def split: if_splits)
  then have "buffer_ok K t" using inv i by (auto simp: store_inv_def buffer_ok_def)
  then have "\<forall>t \<in> set ((st_txns S)[i := t]). buffer_ok K t"
    using inv set_update_subset_insert [of "st_txns S" i t] by (fastforce simp: store_inv_def)
  moreover obtain h g where "reachable \<lparr>sys_tm = ?m, sys_txns = st_txns S, sys_history = h, sys_pending = [], sys_registered = g\<rparr>" using inv by (auto simp: store_inv_def)
  then have "reachable \<lparr>sys_tm = m, sys_txns = (st_txns S)[i := t], sys_history = h, sys_pending = [], sys_registered = g\<rparr>"
    using reachable.more [OF _ step_finish [of i "\<lparr>sys_tm = ?m, sys_txns = st_txns S, sys_history = h, sys_pending = [], sys_registered = g\<rparr>" m t]] i r by simp
  moreover have floor: "compact_floor (st_tree S) \<le> compact_floor ((st_tree S)\<lparr>l_tm := m\<rparr>)"
    using fl by (simp add: compact_floor_def min_active_snapshot_def vis min.coboundedI1)
  have "tells lib (st_tree S) (compact_floor (st_tree S)) (st_history S)" using inv by (simp add: store_inv_def)
  then have "tells lib ((st_tree S)\<lparr>l_tm := m\<rparr>) (compact_floor ((st_tree S)\<lparr>l_tm := m\<rparr>)) (st_history S)"
    by (rule tells_mono) (simp_all add: vis floor)
  ultimately show ?thesis using inv tree_ok_tm [OF vis] by (auto simp: store_inv_def)
qed

lemma maintain_store_inv:
  assumes "store_inv lib crc K S" and "tree_ok lib crc K s" and "l_tm s = l_tm (st_tree S)"
    and "tells lib s (compact_floor (st_tree S)) (st_history S)"
  shows "store_inv lib crc K (S\<lparr>st_tree := s\<rparr>)"
  using assms by (auto simp: store_inv_def compact_floor_def)

lemma after_commit:
  assumes lz4: "lz4_ok lib" and K: "\<forall>a \<in> K. \<forall>b \<in> K. ff_compat a b" and inv: "store_inv lib crc K S"
    and fits: "flush_fits lib (st_tree S)"
      "\<forall>s2. lsm_flush lib fio (st_tree S) = (Return (), s2) \<longrightarrow> compact_fits lib s2 (next_job lib s2)"
      "l_next_sst_id (st_tree S) < - 2" "\<forall>i. sio_unlink cio i"
    and mf: "(case maybe_flush lib fio cio (st_tree S) of (Return _, s') \<Rightarrow> (Return v', s', t') | (Fail e, s') \<Rightarrow> (Fail e, s', t')
      | (Panic, s') \<Rightarrow> (Panic, s', t')) = (Return v, s, t)"
  shows "store_inv lib crc K (S\<lparr>st_tree := s\<rparr>) \<and> v = v' \<and> t = t'"
proof -
  have r: "maybe_flush lib fio cio (st_tree S) = (Return (), s)" "v = v'" "t = t'"
    using mf by (auto split: prod.splits outcome.splits)
  have "tree_ok lib crc K (st_tree S)" "tells lib (st_tree S) (compact_floor (st_tree S)) (st_history S)"
    using inv by (simp_all add: store_inv_def)
  with maybe_flush_tree_ok [OF lz4 _ K fits r(1), of crc "compact_floor (st_tree S)" "st_history S" "compact_floor (st_tree S)"]
  show ?thesis using maintain_store_inv [OF inv, of s] r by simp
qed

lemma commit_fields:
  assumes "commit_unit m t (Inr ()) = (Inr (next_version m), m', t', ())" "tx_writes t \<noteq> []" "\<not> conflicts m t"
  shows "visible_version m' = next_version m" "min_key (active m) \<le> min_key (active m')" "tx_writes t' = tx_writes t"
  using assms release_keys [of "active m" "tx_snapshot t"]
  by (auto simp: commit_unit_def tm_commit_def Let_def tx_release_def min_key_subset split: if_splits)

lemma set_update_ball: "\<forall>x \<in> set xs. P x \<Longrightarrow> P y \<Longrightarrow> \<forall>x \<in> set (xs[i := y]). P x"
  using set_update_subset_insert [of xs i y] by auto

text \<open>The store once the log and the memtable have the transaction.\<close>

lemma applied_store_inv:
  assumes K: "\<forall>a \<in> K. \<forall>b \<in> K. ff_compat a b" and inv: "store_inv lib crc K S"
    and i: "i < length (st_txns S)" "tx_hold (st_txns S ! i)" and ne: "tx_writes (st_txns S ! i) \<noteq> []"
    and nc: "\<not> conflicts (l_tm (st_tree S)) (st_txns S ! i)"
    and len: "length (tx_writes (st_txns S ! i)) < 2 ^ 64" and w: "next_version (l_tm (st_tree S)) < 2 ^ 56"
    and cu: "commit_unit (l_tm (st_tree S)) (st_txns S ! i) (Inr ()) = (Inr (next_version (l_tm (st_tree S))), m, t, ())"
  shows "store_inv lib crc K \<lparr>st_tree = applied crc (st_tree S) m (tx_writes (st_txns S ! i)) (next_version (l_tm (st_tree S))),
    st_txns = (st_txns S)[i := t],
    st_history = st_history S @ [(tx_writes (st_txns S ! i), next_version (l_tm (st_tree S)))]\<rparr>"
proof -
  let ?s = "st_tree S" and ?t = "st_txns S ! i"
  let ?w = "next_version (l_tm ?s)" and ?ws = "tx_writes ?t"
  obtain h g where r: "reachable \<lparr>sys_tm = l_tm ?s, sys_txns = st_txns S, sys_history = h, sys_pending = [], sys_registered = g\<rparr>"
    using inv by (auto simp: store_inv_def)
  have vers: "visible_version (l_tm ?s) < ?w" and buf: "buffer_inv ?t"
    using sys_inv_reachable [OF r] i(1) by (auto simp: sys_inv_def versions_inv_def)
  note cf = commit_fields [OF cu ne nc]
  have bok: "buffer_ok K ?t" using inv i(1) by (auto simp: store_inv_def)
  have ws: "distinct (map fst ?ws)" "fst ` set ?ws \<subseteq> K" "txn_ok (?ws, ?w)"
    using buf bok buffer_txn_ok [OF bok len] by (auto simp: buffer_inv_def buffer_ok_def)
  have tok: "tree_ok lib crc K ?s" and tl: "tells lib ?s (compact_floor ?s) (st_history S)" using inv by (simp_all add: store_inv_def)
  note ap = applied_tree_ok [OF tok K ne ws vers w cf(1)]
  have "compact_floor ?s \<le> compact_floor (applied crc ?s m ?ws ?w)"
    using cf(1,2) order.strict_implies_order [OF vers] by (simp add: compact_floor_def min_active_snapshot_def min_le_iff_disj)
  then have "tells lib (applied crc ?s m ?ws ?w) (compact_floor (applied crc ?s m ?ws ?w)) (st_history S @ [(?ws, ?w)])"
    using ap(2) [OF tl] by (rule tells_mono [rotated -1]) simp_all
  moreover have "\<forall>x \<in> set ((st_txns S)[i := t]). buffer_ok K x"
    by (rule set_update_ball) (use inv bok cf(3) in \<open>auto simp: store_inv_def buffer_ok_def\<close>)
  moreover have "?w < - 1"
    using w by (simp add: word_less_nat_alt unsigned_minus_1_eq_mask mask_eq_exp_minus_1)
  then have "\<exists>h g. reachable \<lparr>sys_tm = m, sys_txns = (st_txns S)[i := t], sys_history = h, sys_pending = [], sys_registered = g\<rparr>"
    using reachable.more [OF r step_commit [of i _ "Inr ()" "Inr ?w" m t "()"]] i cu by auto
  ultimately show ?thesis using ap(1) by (simp add: store_inv_def)
qed

lemma commit_store_inv:
  assumes lz4: "lz4_ok lib" and K: "\<forall>a \<in> K. \<forall>b \<in> K. ff_compat a b" and inv: "store_inv lib crc K S"
    and i: "i < length (st_txns S)" "tx_hold (st_txns S ! i)" and fenced: "check_fenced (l_guard (st_tree S)) = Inr ()"
    and fits: "commit_fits lib crc fio (st_tree S) (st_txns S ! i)" and unl: "\<forall>i. sio_unlink cio i"
    and res: "lsm_commit lib crc io_ok fio cio (st_tree S) (st_txns S ! i) = (Return v, s, t)"
  shows "store_inv lib crc K (S\<lparr>st_tree := s, st_txns := (st_txns S)[i := t],
      st_history := st_history S @ (if tx_writes (st_txns S ! i) = [] then [] else [(tx_writes (st_txns S ! i), v)])\<rparr>)"
proof -
  let ?s = "st_tree S" and ?t = "st_txns S ! i"
  let ?w = "next_version (l_tm ?s)" and ?ws = "tx_writes ?t"
  obtain ts where "wal_ok crc ?s ts" using inv by (auto simp: store_inv_def tree_ok_def)
  then have buf: "wal_buf (l_wal ?s) = []" by (simp add: wal_ok_def)
  show ?thesis
  proof (rule commit_cases [OF buf fenced, of ?t lib crc fio cio])
    fix m t'
    assume e: "?ws = []" "tx_release (l_tm ?s) ?t = (m, t')"
      "lsm_commit lib crc io_ok fio cio ?s ?t = (case maybe_flush lib fio cio (?s\<lparr>l_tm := m\<rparr>) of
         (Return _, s') \<Rightarrow> (Return (tx_snapshot ?t), s', t') | (Fail e, s') \<Rightarrow> (Fail e, s', t') | (Panic, s') \<Rightarrow> (Panic, s', t'))"
    let ?S = "S\<lparr>st_tree := ?s\<lparr>l_tm := m\<rparr>, st_txns := (st_txns S)[i := t']\<rparr>"
    have "flush_fits lib (st_tree ?S)" "l_next_sst_id (st_tree ?S) < - 2"
      "\<forall>s2. lsm_flush lib fio (st_tree ?S) = (Return (), s2) \<longrightarrow> compact_fits lib s2 (next_job lib s2)"
      using fits e(1,2) by (simp_all add: commit_fits_def commit_unit_def tm_commit_def Let_def)
    from after_commit [where cio = cio and v' = "tx_snapshot ?t" and t' = t' and v = v and s = s and t = t,
        OF lz4 K abort_store_inv [OF inv i(1) e(2)] this(1,3,2) unl]
    show ?thesis using res e by (cases S) auto
  next
    fix m t'
    assume a: "?ws \<noteq> []" "\<not> conflicts (l_tm ?s) ?t" "commit_unit (l_tm ?s) ?t (Inr ()) = (Inr ?w, m, t', ())"
      "lsm_commit lib crc io_ok fio cio ?s ?t = (case maybe_flush lib fio cio (?s\<lparr>l_tm := m,
           l_wal := \<lparr>wal_file = wal_file (l_wal ?s) @ txn_bytes crc ?ws ?w, wal_buf = []\<rparr>,
           l_active := mt_apply (l_active ?s) ?w ?ws\<rparr>) of
         (Return _, s') \<Rightarrow> (Return ?w, s', t') | (Fail e, s') \<Rightarrow> (Fail e, s', t') | (Panic, s') \<Rightarrow> (Panic, s', t'))"
    let ?S = "\<lparr>st_tree = applied crc ?s m ?ws ?w, st_txns = (st_txns S)[i := t'], st_history = st_history S @ [(?ws, ?w)]\<rparr>"
    have f: "flush_fits lib (st_tree ?S)" "length ?ws < 2 ^ 64" "?w < 2 ^ 56" "l_next_sst_id (st_tree ?S) < - 2"
      "\<forall>s2. lsm_flush lib fio (st_tree ?S) = (Return (), s2) \<longrightarrow> compact_fits lib s2 (next_job lib s2)"
      using fits a(1,3) by (simp_all add: commit_fits_def Let_def)
    have "store_inv lib crc K ?S" by (rule applied_store_inv [OF K inv i a(1,2) f(2,3) a(3)])
    from after_commit [where cio = cio and v' = ?w and t' = t' and v = v and s = s and t = t, OF lz4 K this f(1,5,4) unl] have
      "store_inv lib crc K (?S\<lparr>st_tree := s\<rparr>)" "v = ?w" "t = t'"
      using res a(4) by (simp_all add: applied_def)
    then show ?thesis using a(1) by (cases S) simp
  qed (use res in simp)
qed

lemma conflict_store_inv:
  assumes inv: "store_inv lib crc K S" and i: "i < length (st_txns S)" and fenced: "check_fenced (l_guard (st_tree S)) = Inr ()"
    and c: "conflicts (l_tm (st_tree S)) (st_txns S ! i)" "tx_writes (st_txns S ! i) \<noteq> []"
    and res: "lsm_commit lib crc io_ok fio cio (st_tree S) (st_txns S ! i) = (r, s, t)"
  shows "S\<lparr>st_tree := s, st_txns := (st_txns S)[i := t]\<rparr> = S \<and> r = Fail WriteConflict"
proof -
  have "r = Fail WriteConflict" "s = st_tree S" "t = st_txns S ! i"
    using res c fenced by (simp_all add: lsm_commit_def tm_commit_def Let_def)
  then show ?thesis by (cases S) simp
qed

section \<open>Crashes\<close>

lemma recovered_version: "store_inv lib crc K S \<Longrightarrow> visible_version (l_tm (st_tree S)) < - 1"
proof -
  assume "store_inv lib crc K S"
  then obtain h g where r: "reachable \<lparr>sys_tm = l_tm (st_tree S), sys_txns = st_txns S, sys_history = h, sys_pending = [], sys_registered = g\<rparr>"
    by (auto simp: store_inv_def)
  have "visible_version (l_tm (st_tree S)) < next_version (l_tm (st_tree S))"
    using sys_inv_reachable [OF r] by (simp add: sys_inv_def versions_inv_def)
  also have "\<dots> \<le> - 1" by simp
  finally show ?thesis .
qed

lemma recover_floor: "compact_floor (reopened cfg g v i s) = v"
  by (simp add: compact_floor_def min_active_snapshot_def recover_at_version_def min_key_def)

lemma reopen_store_inv:
  assumes inv: "store_inv lib crc K S" and wal: "wal_ok crc (st_tree S) ts"
    and fs: "map_of fs = l_dir (st_tree S)" "distinct (map fst fs)"
    and d: "d = WAL_MAGIC @ concat (map (txn_enc crc) ts) @ junk"
    and rp: "replay_with_valid_len crc (Some d) = Inr (concat (map txn_records ts), 8 + length (concat (map (txn_enc crc) ts)))"
  shows "\<exists>s. lsm_open lib crc io cfg g fs (Some d) = Return s \<and>
    store_inv lib crc K \<lparr>st_tree = s, st_txns = [], st_history = st_history S\<rparr>"
proof -
  let ?s = "st_tree S" and ?v = "visible_version (l_tm (st_tree S))"
  have tok: "tree_ok lib crc K ?s" and tl: "tells lib ?s (compact_floor ?s) (st_history S)" using inv by (simp_all add: store_inv_def)
  obtain i where i: "lsm_open lib crc io cfg g fs (Some d) = Return (reopened cfg g ?v i ?s)" "\<forall>p \<in> set (l_ssts ?s). fst p < i"
    using open_tree_ok [OF tok wal fs d rp] by blast
  have "reachable \<lparr>sys_tm = recover_at_version ?v, sys_txns = [], sys_history = [], sys_pending = [], sys_registered = (\<lambda>_. 0)\<rparr>"
    by (rule reachable.start) (use recovered_version [OF inv] in \<open>auto simp: initial_def\<close>)
  moreover have "tells lib (reopened cfg g ?v i ?s) ?v (st_history S)"
    using reopened_ok(2) [OF tok i(2) tl] by (rule tells_mono) (simp_all add: compact_floor_def recover_at_version_def)
  ultimately show ?thesis
    using i(1) reopened_ok(1) [OF tok i(2)] by (auto simp: store_inv_def recover_floor)
qed

lemma log_file:
  "wal_ok crc s ts \<Longrightarrow> wal_file (l_wal s) = WAL_MAGIC @ concat (map (txn_enc crc) ts)"
  "wal_ok crc s ts \<Longrightarrow> t \<in> set ts \<Longrightarrow> txn_ok t"
  by (simp_all add: wal_ok_def)

lemma crash_store_inv:
  assumes inv: "store_inv lib crc K S" and fs: "map_of fs = l_dir (st_tree S)" "distinct (map fst fs)"
  shows "\<exists>s. lsm_open lib crc io cfg g fs (Some (wal_file (l_wal (st_tree S)))) = Return s \<and>
    store_inv lib crc K (S\<lparr>st_tree := s, st_txns := []\<rparr>)"
proof -
  obtain ts where ts: "wal_ok crc (st_tree S) ts" using inv by (auto simp: store_inv_def tree_ok_def)
  have "replay_with_valid_len crc (Some (wal_file (l_wal (st_tree S)))) =
      Inr (concat (map txn_records ts), 8 + length (concat (map (txn_enc crc) ts)))"
    unfolding log_file(1) [OF ts] by (rule replay_whole_log) (use log_file(2) [OF ts] in blast)
  from reopen_store_inv [OF inv ts fs _ this, of "[]" io cfg g] show ?thesis
    using log_file(1) [OF ts] by (cases S) simp
qed

lemma crash_commit_store_inv:
  assumes K: "\<forall>a \<in> K. \<forall>b \<in> K. ff_compat a b" and inv: "store_inv lib crc K S"
    and i: "i < length (st_txns S)" "tx_hold (st_txns S ! i)"
    and ws: "(ws, w) = (tx_writes (st_txns S ! i), next_version (l_tm (st_tree S)))"
      "ws \<noteq> []" "\<not> conflicts (l_tm (st_tree S)) (st_txns S ! i)" "length ws < 2 ^ 64" "w < 2 ^ 56"
    and fs: "map_of fs = l_dir (st_tree S)" "distinct (map fst fs)"
  shows "\<exists>s. lsm_open lib crc io cfg g fs (Some (wal_file (l_wal (st_tree S)) @ take n (txn_bytes crc ws w))) = Return s \<and>
    store_inv lib crc K (S\<lparr>st_tree := s, st_txns := [],
      st_history := st_history S @ (if length (txn_bytes crc ws w) \<le> n then [(ws, w)] else [])\<rparr>)"
proof -
  let ?s = "st_tree S" and ?t = "st_txns S ! i"
  obtain ts where ts: "wal_ok crc ?s ts" using inv by (auto simp: store_inv_def tree_ok_def)
  have eq: "ws = tx_writes ?t" "w = next_version (l_tm ?s)" using ws(1) by simp_all
  have "buffer_ok K ?t" using inv i(1) by (auto simp: store_inv_def)
  then have ok: "\<forall>t' \<in> set (ts @ [(ws, w)]). txn_ok t'" using buffer_txn_ok ws(4) log_file(2) [OF ts] by (auto simp: eq)
  define d where "d = WAL_MAGIC @ concat (map (txn_enc crc) ts) @ take n (txn_bytes crc ws w)"
  have on_disk: "wal_file (l_wal ?s) @ take n (txn_bytes crc ws w) = d" by (simp add: d_def log_file(1) [OF ts])
  note rp = replay_in_flight [OF ok refl, of crc n, simplified, folded d_def]
  show ?thesis
  proof (cases "length (txn_bytes crc ws w) \<le> n")
    case False
    with rp have "replay_with_valid_len crc (Some d) = Inr (concat (map txn_records ts), 8 + length (concat (map (txn_enc crc) ts)))"
      by simp
    from reopen_store_inv [OF inv ts fs d_def this] False show ?thesis unfolding on_disk by (cases S) simp
  next
    case True
    obtain m t where cu: "commit_unit (l_tm ?s) ?t (Inr ()) = (Inr (next_version (l_tm ?s)), m, t, ())"
      using commit_unit_ok [of ?t "l_tm ?s"] ws(2,3) unfolding eq by blast
    let ?S = "\<lparr>st_tree = applied crc ?s m ws w, st_txns = (st_txns S)[i := t], st_history = st_history S @ [(ws, w)]\<rparr>"
    have inv1: "store_inv lib crc K ?S"
      using applied_store_inv [OF K inv i _ ws(3) _ _ cu] ws(2,4,5) by (simp add: eq)
    have ts1: "wal_ok crc (st_tree ?S) (ts @ [(ws, w)])" using ts ok ws(2) by (auto simp: wal_ok_def applied_def)
    have d1: "d = WAL_MAGIC @ concat (map (txn_enc crc) (ts @ [(ws, w)])) @ []" using True by (simp add: d_def)
    have "replay_with_valid_len crc (Some d) = Inr (concat (map txn_records (ts @ [(ws, w)])),
        8 + length (concat (map (txn_enc crc) (ts @ [(ws, w)]))))" using rp True by simp
    from reopen_store_inv [OF inv1 ts1 _ fs(2) d1 this] fs(1) True show ?thesis unfolding on_disk by (cases S) simp
  qed
qed

section \<open>Every reachable state\<close>

lemma new_store_inv: "store_new lib crc S \<Longrightarrow> store_inv lib crc K S"
proof -
  assume n: "store_new lib crc S"
  then obtain io cfg g where "lsm_open lib crc io cfg g [] None = Return (st_tree S)" and e: "st_txns S = []" "st_history S = []"
    by (auto simp: store_new_def)
  then have s: "st_tree S = \<lparr>l_config = cfg, l_guard = g, l_active = mt_new, l_immutables = [], l_ssts = [],
      l_wal = create_fresh, l_tm = recover_at_version 0, l_next_sst_id = 1,
      l_compaction = \<lparr>cs_pending = False, cs_running = False, cs_shutdown = False\<rparr>, l_dir = Map.empty\<rparr>"
    by (simp add: lsm_open_def file_is_legacy_def replay_with_valid_len_def of_result_def Let_def replay_into_def
        wal_open_def create_fresh_def)
  have "reachable \<lparr>sys_tm = recover_at_version 0, sys_txns = [], sys_history = [], sys_pending = [], sys_registered = (\<lambda>_. 0)\<rparr>"
    by (rule reachable.start) (use one_less_max in \<open>auto simp: initial_def intro!: exI [of _ 0] dest: order.strict_trans1 [OF word_zero_le]\<close>)
  moreover have "wal_ok crc (st_tree S) []" by (simp add: wal_ok_def s create_fresh_def replayed_def)
  ultimately show ?thesis
    by (auto simp: store_inv_def tree_ok_def lsm_inv_def dir_ok_def lsm_layers_def lsm_entries_def s e tells_def
        recover_at_version_def visible_def)
qed

lemma store_inv_step:
  assumes "lz4_ok lib" and K: "\<forall>a \<in> K. \<forall>b \<in> K. ff_compat a b"
    and inv: "store_inv lib crc K S" and "store_step lib crc K S S'"
  shows "store_inv lib crc K S'"
  using assms(4)
proof cases
  case (store_begin s t)
  then show ?thesis using begin_store_inv [OF inv] by simp
next
  case (store_put i k x)
  then show ?thesis using write_store_inv [OF inv, of i k "Some x"] by (simp add: lsm_put_def record_put_def)
next
  case (store_delete i k)
  then show ?thesis using write_store_inv [OF inv, of i k None] by (simp add: lsm_delete_def record_delete_def)
next
  case (store_abort i s t)
  then show ?thesis
    using abort_store_inv [OF inv, of i] by (auto simp: lsm_abort_def tm_abort_def split: prod.splits)
next
  case (store_commit i fio cio v s t)
  show ?thesis unfolding store_commit(1) by (rule commit_store_inv [OF assms(1) K inv store_commit(2-7)])
next
  case (store_conflict i fio cio r s t)
  then show ?thesis using conflict_store_inv [OF inv store_conflict(2-6)] inv by simp
next
  case (store_flush fio s)
  have ok: "tree_ok lib crc K (st_tree S)" and tl: "tells lib (st_tree S) (compact_floor (st_tree S)) (st_history S)"
    using inv by (simp_all add: store_inv_def)
  note f = flush_tree_ok [OF assms(1) store_flush(2) ok store_flush(3,4)]
  have "tells lib s (compact_floor (st_tree S)) (st_history S)" using f(2,3) tells_mono [OF tl] by simp
  then show ?thesis unfolding store_flush(1) by (rule maintain_store_inv [OF inv f(1,3)])
next
  case (store_compact cio s)
  have ok: "tree_ok lib crc K (st_tree S)" and tl: "tells lib (st_tree S) (compact_floor (st_tree S)) (st_history S)"
    using inv by (simp_all add: store_inv_def)
  note c = compact_tree_ok [OF assms(1) ok K store_compact(2-5)]
  show ?thesis unfolding store_compact(1) using maintain_store_inv [OF inv, of s] c tl by blast
next
  case (store_crash fs io cfg g s)
  then show ?thesis using crash_store_inv [OF inv store_crash(2,3), of io cfg g] by simp
next
  case (store_crash_commit i ws w fs io cfg g n s)
  then show ?thesis
    using crash_commit_store_inv [OF K inv store_crash_commit(2-10), of io cfg g n] by simp
qed

lemma store_inv_reachable:
  assumes "lz4_ok lib" and "\<forall>a \<in> K. \<forall>b \<in> K. ff_compat a b" and "store_reachable lib crc K S"
  shows "store_inv lib crc K S"
  using assms(3) by induction (blast intro: new_store_inv, blast intro: store_inv_step [OF assms(1,2)])

section \<open>Reads of a reachable store\<close>

lemma lsm_inv_entry_ok:
  assumes "lsm_inv lib s" "e \<in> set (lsm_entries lib s)"
  shows "entry_ok e"
proof -
  obtain l where l: "l \<in> set (lsm_layers lib s)" "e \<in> set l" using assms(2) by (auto simp: lsm_entries_def)
  have "layer_wf l"
    using l(1) assms(1) by (auto simp: lsm_layers_def lsm_inv_def mem_ok_def sst_ok_def)
  from layer_wfD(3) [OF this l(2)] show ?thesis .
qed

lemma visible_bound:
  assumes "tree_ok lib crc K s" shows "visible_version (l_tm s) < 2 ^ 56"
proof -
  have inv: "lsm_inv lib s" using assms by (simp add: tree_ok_def)
  have "visible_version (l_tm s) = 0 \<or> (\<exists>e \<in> set (lsm_entries lib s). ik_version (fst e) = visible_version (l_tm s))"
    using assms by (simp add: tree_ok_def)
  then show ?thesis
  proof
    assume "\<exists>e \<in> set (lsm_entries lib s). ik_version (fst e) = visible_version (l_tm s)"
    then show ?thesis using lsm_inv_entry_ok [OF inv] by (metis entry_ok_def)
  qed simp
qed

lemma held_snapshot:
  assumes inv: "store_inv lib crc K S" and t: "t \<in> set (st_txns S)" "tx_hold t"
  shows "compact_floor (st_tree S) \<le> tx_snapshot t" "tx_snapshot t \<le> visible_version (l_tm (st_tree S))"
proof -
  obtain h g where "reachable \<lparr>sys_tm = l_tm (st_tree S), sys_txns = st_txns S, sys_history = h, sys_pending = [], sys_registered = g\<rparr>" (is "reachable ?Y")
    using inv by (auto simp: store_inv_def)
  from sys_inv_reachable [OF this] have y: "counts_inv ?Y" "versions_inv ?Y" by (simp_all add: sys_inv_def)
  have "min_key (active (l_tm (st_tree S))) \<le> tx_snapshot t"
    using held_in_active [OF y(1) _ t(2)] t(1) min_key_le by fastforce
  then show "compact_floor (st_tree S) \<le> tx_snapshot t"
    by (simp add: compact_floor_def min_active_snapshot_def min.coboundedI1)
  show "tx_snapshot t \<le> visible_version (l_tm (st_tree S))" using y(2) t(1) by (simp add: versions_inv_def)
qed

lemma read_history:
  assumes inv: "store_inv lib crc K S" and v: "compact_floor (st_tree S) \<le> v" "v \<le> visible_version (l_tm (st_tree S))"
    and k: "readable (lsm_entries lib (st_tree S)) k"
  shows "lsm_get_at lib (st_tree S) v k = Return (case state_at (st_history S) v k of Some x \<Rightarrow> x | None \<Rightarrow> None)"
proof -
  have ok: "tree_ok lib crc K (st_tree S)" and tl: "tells lib (st_tree S) (compact_floor (st_tree S)) (st_history S)"
    using inv by (simp_all add: store_inv_def)
  have inv': "lsm_inv lib (st_tree S)" using ok by (simp add: tree_ok_def)
  have "v < 2 ^ 56" by (rule order.strict_trans1 [OF v(2) visible_bound [OF ok]])
  from lsm_get_at_visible [OF inv' k this] show ?thesis using tl v(1) by (simp add: tells_def)
qed

text \<open>
  C1: snapshot reads, end to end. In every state of a store that a sequence of successful operations and
  crashes reaches (\<open>store_step\<close>: begin, buffered writes, commit, abort, flush, compaction, crash and reopen, each one step,
  in particular begin and compaction; the keys it writes are pairwise \<open>ff_compat\<close>), a transaction that holds its
  snapshot reads from the tree the state that replaying the committed transactions up to its snapshot
  leaves: by a point read of a key that no stored key continues (\<open>readable\<close>), and by a scan of a prefix
  that is \<open>scan_safe\<close>. So no committed write is lost or out of order, no write of an aborted, refused or later transaction is
  seen, and compaction takes no version such a transaction can see.
\<close>

theorem snapshot_reads_history:
  assumes "lz4_ok lib" and "\<forall>a \<in> K. \<forall>b \<in> K. ff_compat a b" and "store_reachable lib crc K S"
    and "t \<in> set (st_txns S)" and "tx_hold t"
    and "readable (lsm_entries lib (st_tree S)) k" and "scan_safe (lsm_entries lib (st_tree S)) p"
  shows "lsm_get lib (st_tree S) t k =
      Return (case state_at (st_history S) (tx_snapshot t) k of Some x \<Rightarrow> x | None \<Rightarrow> None) \<and>
    sorted_wrt (<) (map fst (lsm_scan_prefix lib (st_tree S) t p)) \<and>
    map_of (lsm_scan_prefix lib (st_tree S) t p) j =
      (if prefix p j then Option.bind (state_at (st_history S) (tx_snapshot t) j) (\<lambda>x. x) else None)"
proof -
  have inv: "store_inv lib crc K S" by (rule store_inv_reachable [OF assms(1-3)])
  then have inv': "lsm_inv lib (st_tree S)" and tl: "tells lib (st_tree S) (compact_floor (st_tree S)) (st_history S)"
    by (simp_all add: store_inv_def tree_ok_def)
  note snap = held_snapshot [OF inv assms(4,5)]
  have "visible (lsm_entries lib (st_tree S)) j (tx_snapshot t) = state_at (st_history S) (tx_snapshot t) j"
    using tl snap(1) by (simp add: tells_def)
  then show ?thesis
    using read_history [OF inv snap assms(6)] lsm_scan_prefix_rows [OF inv' assms(7), of "tx_snapshot t"]
    by (simp add: lsm_get_def lsm_scan_prefix_def)
qed

text \<open>
  C2: recovery always succeeds and loses nothing. From every reachable state, when the process dies
  while a commit writes its batch to the log, at whatever byte, opening the directory returns a
  store that is again in a reachable state; its current point reads of keys that no stored key continues are those of the committed
  transactions, with the interrupted one exactly when its whole batch reached the log.
\<close>

theorem recovery_succeeds:
  assumes "lz4_ok lib" and "\<forall>a \<in> K. \<forall>b \<in> K. ff_compat a b" and "store_reachable lib crc K S"
    and "i < length (st_txns S)" and "tx_hold (st_txns S ! i)" and "tx_writes (st_txns S ! i) = ws" and "ws \<noteq> []"
    and "\<not> conflicts (l_tm (st_tree S)) (st_txns S ! i)" and "length ws < 2 ^ 64"
    and "next_version (l_tm (st_tree S)) = w" and "w < 2 ^ 56"
    and "map_of fs = l_dir (st_tree S)" and "distinct (map fst fs)"
    and "H = st_history S @ (if length (txn_bytes crc ws w) \<le> n then [(ws, w)] else [])"
  shows "\<exists>s. lsm_open lib crc io cfg g fs (Some (wal_file (l_wal (st_tree S)) @ take n (txn_bytes crc ws w))) = Return s \<and>
    store_reachable lib crc K \<lparr>st_tree = s, st_txns = [], st_history = H\<rparr> \<and>
    (\<forall>k. readable (lsm_entries lib s) k \<longrightarrow>
       lsm_get_at lib s (lsm_read_snapshot s) k =
         Return (case state_at H (lsm_read_snapshot s) k of Some x \<Rightarrow> x | None \<Rightarrow> None)) \<and>
    (\<forall>t \<in> set H. snd t \<le> lsm_read_snapshot s)"
proof -
  have inv: "store_inv lib crc K S" by (rule store_inv_reachable [OF assms(1-3)])
  have ws: "(ws, w) = (tx_writes (st_txns S ! i), next_version (l_tm (st_tree S)))" using assms(6,10) by simp
  obtain s where s: "lsm_open lib crc io cfg g fs (Some (wal_file (l_wal (st_tree S)) @ take n (txn_bytes crc ws w))) = Return s"
      "store_inv lib crc K (S\<lparr>st_tree := s, st_txns := [], st_history := H\<rparr>)"
    using crash_commit_store_inv [OF assms(2) inv assms(4,5) ws assms(7,8,9,11,12,13), of io cfg g n] assms(14) by blast
  let ?S = "S\<lparr>st_tree := s, st_txns := [], st_history := H\<rparr>"
  have eq: "?S = \<lparr>st_tree = s, st_txns = [], st_history = H\<rparr>" by (cases S) simp
  have "store_step lib crc K S ?S"
    using store_crash_commit [OF assms(4,5) ws assms(7,8,9,11,12,13) s(1)] assms(14) by simp
  then have "store_reachable lib crc K ?S" by (rule store_more [OF assms(3)])
  moreover have "compact_floor s \<le> lsm_read_snapshot s" "lsm_read_snapshot s \<le> visible_version (l_tm s)"
    by (simp_all add: compact_floor_def lsm_read_snapshot_def current_version_def)
  moreover have "\<forall>t \<in> set H. snd t \<le> lsm_read_snapshot s"
    using s(2) by (simp add: store_inv_def tells_def lsm_read_snapshot_def current_version_def)
  ultimately show ?thesis using s(1) read_history [OF s(2), of "lsm_read_snapshot s"] by (simp add: eq)
qed

section \<open>A crash inside a flush\<close>

text \<open>The tree whose files a flush leaves when the SST file is finished and the log is still full.\<close>

definition half_flushed :: "lsm \<Rightarrow> bytes \<Rightarrow> sst_reader \<Rightarrow> lsm" where
  "half_flushed s img r = s\<lparr>l_ssts := l_ssts s @ [(l_next_sst_id s, r)], l_dir := (l_dir s)(l_next_sst_id s \<mapsto> img),
     l_next_sst_id := l_next_sst_id s + 1\<rparr>"

lemma half_flushed_ok:
  assumes ok: "tree_ok lib crc K s" and id: "l_next_sst_id s < - 1" and ne: "mt_map (l_active s) \<noteq> []"
    and r: "sst_open lib img = Return r" "sst_repr lib (mt_map (l_active s)) r"
  shows "files_ok lib (half_flushed s img r)" "lsm_inv lib (half_flushed s img r)"
    "set (lsm_entries lib (half_flushed s img r)) = set (lsm_entries lib s)"
    "visible (lsm_entries lib (half_flushed s img r)) k v = visible (lsm_entries lib s) k v"
proof -
  let ?s = "half_flushed s img r" and ?a = "mt_map (l_active s)"
  let ?ls = "map (\<lambda>(i, r). sst_contents lib r) (rev (l_ssts s))"
  have imm: "l_immutables s = []" and inv: "lsm_inv lib s" and dir: "dir_ok lib s"
    and srt: "sorted_wrt later (?a # ?ls)" using ok layers_no_imm [of s lib] by (auto simp: tree_ok_def)
  have c: "sst_contents lib r = ?a" by (rule sst_contents_repr [OF r(2)])
  have wf: "layer_wf ?a" using inv by (simp add: lsm_inv_def mem_ok_def)
  have layers: "lsm_layers lib ?s = ?a # ?a # ?ls" "lsm_layers lib s = ?a # ?ls"
    using imm c by (simp_all add: lsm_layers_def half_flushed_def)
  have fresh: "(l_next_sst_id s, x) \<notin> set (l_ssts s)" for x using dir by (auto simp: dir_ok_def)
  have "dir_ok lib ?s"
    using dir fresh r(1) ne u64_less_Suc [OF _ id] u64_Suc_less [OF id]
    by (auto simp: dir_ok_def half_flushed_def c image_iff)
  moreover have ssts: "\<forall>(i, r) \<in> set (l_ssts ?s). sst_ok lib r"
    using inv sst_ok_repr [OF r(2) wf] by (auto simp: half_flushed_def lsm_inv_def)
  ultimately show "files_ok lib ?s" using srt by (simp add: files_ok_def half_flushed_def c)
  have self: "newer_than ?a ?a" by (simp add: newer_than_def)
  then have "sorted_wrt newer_than (lsm_layers lib ?s)"
    using sorted_later_newer [OF srt] by (simp add: layers)
  then show "lsm_inv lib ?s" using inv ssts imm by (simp add: lsm_inv_def) (simp add: half_flushed_def)
  show "set (lsm_entries lib ?s) = set (lsm_entries lib s)" by (simp add: lsm_entries_def layers)
  have "newer_than ?a (concat ?ls)" using sorted_later_newer [OF srt] by (simp add: newer_than_concat)
  then show "visible (lsm_entries lib ?s) k v = visible (lsm_entries lib s) k v"
    using self visible_newer [of ?a "?a @ concat ?ls" k v] visible_newer [of ?a "concat ?ls" k v]
    by (simp add: lsm_entries_def layers split: option.splits)
qed

text \<open>
  C8: a crash between the end of the SST write and the truncation of the log is harmless. From every
  reachable state, when a flush dies after its file is finished and before the log is re-created,
  opening the directory returns a tree at the same version that answers every point read of a key that no stored key continues as the tree
  did, although every entry of the memtable is now in two layers.
\<close>

theorem flush_crash_recovers:
  assumes "lz4_ok lib" and "\<forall>a \<in> K. \<forall>b \<in> K. ff_compat a b" and "store_reachable lib crc K S"
    and "flush_fits lib (st_tree S)" and "l_next_sst_id (st_tree S) < - 1" and "mt_map (l_active (st_tree S)) \<noteq> []"
    and "sst_write lib (cfg_zone_extractor (l_config (st_tree S))) (block_compression (l_config (st_tree S)))
      (mt_iter (l_active (st_tree S))) = Some (img, meta)"
    and "map_of fs = (l_dir (st_tree S))(l_next_sst_id (st_tree S) \<mapsto> img)" and "distinct (map fst fs)"
    and "readable (lsm_entries lib (st_tree S)) k" and "v < 2 ^ 56"
  shows "\<exists>s. lsm_open lib crc io cfg g fs (Some (wal_file (l_wal (st_tree S)))) = Return s \<and>
    lsm_read_snapshot s = lsm_read_snapshot (st_tree S) \<and> lsm_get_at lib s v k = lsm_get_at lib (st_tree S) v k"
proof -
  let ?s = "st_tree S"
  have inv: "store_inv lib crc K S" by (rule store_inv_reachable [OF assms(1-3)])
  then have ok: "tree_ok lib crc K ?s" by (simp add: store_inv_def)
  then have imm: "l_immutables ?s = []" and inv0: "lsm_inv lib ?s" by (simp_all add: tree_ok_def)
  obtain r where r: "sst_open lib img = Return r" "sst_repr lib (mt_map (l_active ?s)) r"
    by (rule flush_image [OF assms(1,4)]) (use assms(7) in \<open>simp add: mt_iter_def\<close>)
  let ?h = "half_flushed ?s img r"
  note h = half_flushed_ok [OF ok assms(5,6) r]
  obtain ts where ts: "wal_ok crc ?s ts" using ok by (auto simp: tree_ok_def)
  then have ts': "wal_ok crc ?h ts" by (simp add: wal_ok_def half_flushed_def)
  have rp: "replay_with_valid_len crc (Some (wal_file (l_wal ?s))) =
      Inr (concat (map txn_records ts), 8 + length (concat (map (txn_enc crc) ts)))"
    unfolding log_file(1) [OF ts] by (rule replay_whole_log) (use log_file(2) [OF ts] in blast)
  have d: "wal_file (l_wal ?s) = WAL_MAGIC @ concat (map (txn_enc crc) ts) @ []" using log_file(1) [OF ts] by simp
  show ?thesis
  proof (rule open_result [OF h(1) _ ts' _ assms(9) d rp, of io cfg g])
    fix w i
    assume o: "lsm_open lib crc io cfg g fs (Some (wal_file (l_wal ?s))) = Return (reopened cfg g w i ?h)"
      and w: "\<forall>e \<in> set (lsm_entries lib ?h). ik_version (fst e) \<le> w" "w = 0 \<or> w \<in> (\<lambda>e. ik_version (fst e)) ` set (lsm_entries lib ?h)"
    have w: "w = visible_version (l_tm ?s)" by (rule opened_version [OF ok]) (use w h(3) in simp_all)
    have "lsm_inv lib (reopened cfg g w i ?h)" using h(2) by (simp add: lsm_inv_def) (simp add: reopened_def)
    moreover have "readable (lsm_entries lib (reopened cfg g w i ?h)) k"
      using readable_subset [OF assms(10), of "lsm_entries lib ?h"] h(3) by simp
    ultimately have "lsm_get_at lib (reopened cfg g w i ?h) v k = lsm_get_at lib ?s v k"
      using lsm_get_at_visible [of lib "reopened cfg g w i ?h" k v] lsm_get_at_visible [OF inv0 assms(10,11)] assms(11) h(4)
      by simp
    then show ?thesis using o w by (simp add: lsm_read_snapshot_def current_version_def recover_at_version_def)
  qed (use imm assms(8) in \<open>simp_all add: half_flushed_def\<close>)
qed

section \<open>A concrete run\<close>

text \<open>One transaction puts one key into a new store.\<close>

definition example_crc :: "bytes \<Rightarrow> u32" where
  "example_crc bs = of_nat (length bs)"

definition example_start :: lsm where
  "example_start = \<lparr>l_config = config_new, l_guard = \<lparr>g_owner_id = 1, g_fenced = False\<rparr>, l_active = mt_new,
     l_immutables = [], l_ssts = [], l_wal = create_fresh, l_tm = recover_at_version 0, l_next_sst_id = 1,
     l_compaction = \<lparr>cs_pending = False, cs_running = False, cs_shutdown = False\<rparr>, l_dir = Map.empty\<rparr>"

definition example_store :: store where
  "example_store = \<lparr>st_tree = fst (lsm_begin_txn example_start),
     st_txns = [lsm_put (snd (lsm_begin_txn example_start)) [97] [1]], st_history = []\<rparr>"

lemma example_reachable: "store_reachable stored_codec example_crc {[97]} example_store"
proof -
  let ?S0 = "\<lparr>st_tree = example_start, st_txns = [], st_history = []\<rparr>"
  let ?S1 = "?S0\<lparr>st_tree := fst (lsm_begin_txn example_start), st_txns := [snd (lsm_begin_txn example_start)]\<rparr>"
  have "lsm_open stored_codec example_crc good_io config_new \<lparr>g_owner_id = 1, g_fenced = False\<rparr> [] None = Return example_start"
    by (simp add: lsm_open_def file_is_legacy_def replay_with_valid_len_def of_result_def Let_def replay_into_def
        wal_open_def create_fresh_def example_start_def)
  then have "store_new stored_codec example_crc ?S0" by (auto simp: store_new_def)
  then have "store_reachable stored_codec example_crc {[97]} ?S0" by (rule store_start)
  then have "store_reachable stored_codec example_crc {[97]} ?S1"
    by (rule store_more) (use store_begin [of ?S0 "fst (lsm_begin_txn example_start)" "snd (lsm_begin_txn example_start)"] in simp)
  then have "store_reachable stored_codec example_crc {[97]} (?S1\<lparr>st_txns := (st_txns ?S1)[0 := lsm_put (st_txns ?S1 ! 0) [97] [1]]\<rparr>)"
    by (rule store_more) (rule store_put, simp_all)
  then show ?thesis by (simp add: example_store_def)
qed

lemma example_compat: "\<forall>a \<in> {[97 :: byte]}. \<forall>b \<in> {[97]}. ff_compat a b"
  by (simp add: ff_compat_def)

lemma example_txn:
  "st_txns example_store = [\<lparr>tx_snapshot = 0, tx_writes = [([97], Some [1])], tx_index = [[97] \<mapsto> 0], tx_hold = True\<rparr>]"
  "l_dir (st_tree example_store) = Map.empty" "next_version (l_tm (st_tree example_store)) = 1"
  "committed_log (l_tm (st_tree example_store)) = []" "st_history example_store = []"
  by (simp_all add: example_store_def example_start_def lsm_begin_txn_def tm_begin_def begin_register_def begin_load_def
      recover_at_version_def lsm_put_def record_put_def upsert_def)

lemma example_readable:
  assumes "store_inv lib crc {[97]} S"
  shows "readable (lsm_entries lib (st_tree S)) [97]" "scan_safe (lsm_entries lib (st_tree S)) [97]"
proof -
  have "ik_user_key (fst e) = [97]" if "e \<in> set (lsm_entries lib (st_tree S))" for e
    using assms that by (simp add: store_inv_def tree_ok_def)
  then have "set (user_keys (lsm_entries lib (st_tree S))) \<subseteq> {[97]}" by (auto simp: user_keys_image)
  then show "readable (lsm_entries lib (st_tree S)) [97]" "scan_safe (lsm_entries lib (st_tree S)) [97]"
    by (auto simp: readable_def no_extension_def scan_safe_def ff_compat_def)
qed

theorem recovery_succeeds_witness:
  "\<exists>s. lsm_open stored_codec example_crc good_io config_new \<lparr>g_owner_id = 2, g_fenced = False\<rparr> []
      (Some (wal_file (l_wal (st_tree example_store)) @ take 1000 (txn_bytes example_crc [([97], Some [1])] 1))) = Return s \<and>
    store_reachable stored_codec example_crc {[97]} \<lparr>st_tree = s, st_txns = [], st_history = [([([97], Some [1])], 1)]\<rparr>"
proof -
  have len: "length (txn_bytes example_crc [([97], Some [1])] 1) \<le> 1000"
    by (simp add: length_txn_bytes length_encode_record write_record_def)
  have nc: "\<not> conflicts (l_tm (st_tree example_store)) (st_txns example_store ! 0)"
    by (simp add: conflicts_def example_txn)
  have H: "[([([97 :: byte], Some [1 :: byte])], 1 :: u64)] = st_history example_store @
      (if length (txn_bytes example_crc [([97], Some [1])] 1) \<le> 1000 then [([([97], Some [1])], 1)] else [])"
    using len by (simp add: example_txn)
  show ?thesis
    using recovery_succeeds [OF stored_codec_ok example_compat example_reachable _ _ _ _ nc _ _ _ _ _ H, of "[]" good_io config_new]
    by (auto simp: example_txn)
qed

text \<open>The tree that opening the directory gives when the batch of that transaction is in the log.\<close>

definition example_recovered :: lsm where
  "example_recovered = example_start\<lparr>l_active := mt_put mt_new [97] 1 [1], l_tm := recover_at_version 1,
     l_wal := \<lparr>wal_file = WAL_MAGIC @ txn_bytes example_crc [([97], Some [1])] 1, wal_buf = []\<rparr>\<rparr>"

lemma example_opens:
  "lsm_open stored_codec example_crc good_io config_new \<lparr>g_owner_id = 1, g_fenced = False\<rparr> []
     (Some (wal_file (l_wal (st_tree example_store)) @ take 1000 (txn_bytes example_crc [([97], Some [1])] 1))) = Return example_recovered"
proof -
  let ?t = "([([97], Some [1])], 1) :: txn"
  have len: "length (txn_enc example_crc ?t) \<le> 1000"
    by (simp add: length_txn_bytes length_encode_record write_record_def)
  have log: "wal_file (l_wal (st_tree example_store)) @ take 1000 (txn_enc example_crc ?t) = WAL_MAGIC @ txn_enc example_crc ?t"
    using len by (simp add: example_store_def lsm_begin_txn_def tm_begin_def begin_register_def example_start_def create_fresh_def)
  have rp: "replay_with_valid_len example_crc (Some (WAL_MAGIC @ txn_enc example_crc ?t)) =
      Inr (txn_records ?t, 8 + length (txn_enc example_crc ?t))"
    using replay_whole_log [of "[?t]" example_crc] by (simp add: txn_ok_def txn_records_def write_record_def fits_def)
  show ?thesis
    using log rp by (simp add: lsm_open_def file_is_legacy_def of_result_def Let_def replay_into_def wal_open_def
        txn_records_def write_record_def example_recovered_def example_start_def)
qed

lemma recovered_run:
  "store_reachable stored_codec example_crc {[97]} \<lparr>st_tree = example_recovered, st_txns = [], st_history = [([([97], Some [1])], 1)]\<rparr>"
proof -
  have nc: "\<not> conflicts (l_tm (st_tree example_store)) (st_txns example_store ! 0)"
    by (simp add: conflicts_def example_txn)
  have len: "length (txn_bytes example_crc [([97], Some [1])] 1) \<le> 1000"
    by (simp add: length_txn_bytes length_encode_record write_record_def)
  from store_more [OF example_reachable store_crash_commit [of 0, OF _ _ _ _ nc _ _ _ _ example_opens]] len show ?thesis
    by (simp add: example_txn) (simp add: example_store_def)
qed

theorem flush_crash_recovers_witness:
  "\<exists>img s. lsm_open stored_codec example_crc good_io config_new \<lparr>g_owner_id = 1, g_fenced = False\<rparr> [(1, img)]
      (Some (wal_file (l_wal example_recovered))) = Return s \<and>
    lsm_get_at stored_codec s 1 [97] = lsm_get_at stored_codec example_recovered 1 [97]"
proof -
  let ?S = "\<lparr>st_tree = example_recovered, st_txns = [], st_history = [([([97], Some [1])], 1)]\<rparr>"
  have m: "mt_map (l_active example_recovered) = [(internal_key [97] 1, Some [1])]"
    by (simp add: example_recovered_def mt_put_def mt_new_def Let_def)
  have fits: "flush_fits stored_codec example_recovered"
    by (rule small_flush_fits [OF m])
       (simp_all add: example_recovered_def example_start_def entry_fits_def length_entry_bytes)
  obtain img meta r where img: "sst_write stored_codec (cfg_zone_extractor (l_config example_recovered))
      (block_compression (l_config example_recovered)) (mt_map (l_active example_recovered)) = Some (img, meta)"
    "sst_open stored_codec img = Return r" "sst_repr stored_codec (mt_map (l_active example_recovered)) r"
    by (rule flush_image [OF stored_codec_ok fits])
  have inv: "store_inv stored_codec example_crc {[97]} ?S"
    by (rule store_inv_reachable [OF stored_codec_ok example_compat recovered_run])
  have fields: "l_dir example_recovered = Map.empty" "l_next_sst_id example_recovered = 1"
    by (simp_all add: example_recovered_def example_start_def)
  from flush_crash_recovers [OF stored_codec_ok example_compat recovered_run, of img meta "[(1, img)]" "[97]" 1 good_io config_new
      "\<lparr>g_owner_id = 1, g_fenced = False\<rparr>"]
  show ?thesis using fits img(1) m example_readable(1) [OF inv] fields one_less_max by (auto simp: mt_iter_def)
qed

theorem snapshot_reads_history_witness:
  "\<exists>S t. store_reachable stored_codec example_crc {[97]} S \<and> t \<in> set (st_txns S) \<and>
     lsm_get stored_codec (st_tree S) t [97] = Return (Some [1])"
proof -
  let ?s = example_recovered
  let ?old = "\<lparr>st_tree = ?s, st_txns = [], st_history = [([([97], Some [1 :: byte])], 1)]\<rparr>"
  note r = recovered_run
  obtain s' t where b: "lsm_begin_txn ?s = (s', t)" by (cases "lsm_begin_txn ?s")
  let ?S = "?old\<lparr>st_tree := s', st_txns := [t]\<rparr>"
  have r': "store_reachable stored_codec example_crc {[97]} ?S"
    by (rule store_more [OF r]) (use store_begin [of ?old s' t] b in simp)
  have inv: "store_inv stored_codec example_crc {[97]} ?S" "store_inv stored_codec example_crc {[97]} ?old"
    using store_inv_reachable [OF stored_codec_ok example_compat] r r' by blast+
  have t: "tx_hold t" "tx_snapshot t = visible_version (l_tm ?s)"
    using b by (auto simp: lsm_begin_txn_def tm_begin_def begin_register_def begin_load_def split: prod.splits)
  then have "1 \<le> tx_snapshot t" using inv(2) by (simp add: store_inv_def tells_def)
  then have "state_at (st_history ?S) (tx_snapshot t) [97] = Some (Some [1])" by (simp add: state_at_def)
  with snapshot_reads_history [OF stored_codec_ok example_compat r' _ t(1) example_readable [OF inv(1)]]
  have "lsm_get stored_codec (st_tree ?S) t [97] = Return (Some [1])" by simp
  then show ?thesis using r' by (intro exI [of _ ?S] exI [of _ t]) simp
qed

end
