(* ===== verification/Wire_Object.thy ===== *)
theory Wire_Object
  imports Index_Encoding "HOL-Library.AList"
begin

text \<open>
  The binary form of an object's fields, \<^verbatim>\<open>rhypedb-wire/src/object.rs\<close>: the two encoders, the full
  decoder for trusted bytes, the checked decoder for network bytes, and the readers that look for
  single fields without decoding the rest. The round trip, the agreement of all readers and the
  safety of the checked decoder, whose slices and indices panic when they are out of range, are proved.

  A Rust \<^verbatim>\<open>String\<close> is its bytes, which are valid UTF-8; integers and floats of 32 and 64 bits are their
  bits. A field map is encoded in the iteration order of the hash map, which is an association list
  here. \<^verbatim>\<open>serde_json\<close> is the parameter \<open>json_lib\<close>.
\<close>

section \<open>Values\<close>

type_synonym u16 = "16 word"

definition u16_be :: "u16 \<Rightarrow> bytes" where
  "u16_be w = be_bytes 2 (unat w)"

definition be_u16 :: "bytes \<Rightarrow> u16" where
  "be_u16 bs = of_nat (be_nat bs)"

text \<open>\<^verbatim>\<open>FieldMap\<close>, a hash map: its entries in the order of iteration, each name once.\<close>

type_synonym 'j FieldMap = "(bytes \<times> 'j Value) list"

record 'j json_lib =
  js_to_vec :: "'j \<Rightarrow> bytes option"
  js_from_slice :: "bytes \<Rightarrow> 'j option"
  js_null :: 'j

fun type_name :: "'j Value \<Rightarrow> string" where
  "type_name (VString _) = ''String''"
| "type_name (VU32 _) = ''u32''"
| "type_name (VU64 _) = ''u64''"
| "type_name (VI32 _) = ''i32''"
| "type_name (VI64 _) = ''i64''"
| "type_name (VF32 _) = ''f32''"
| "type_name (VF64 _) = ''f64''"
| "type_name (VBool _) = ''Bool''"
| "type_name (VBytes _) = ''Bytes''"
| "type_name (VDateTime _) = ''DateTime''"
| "type_name (VJson _) = ''Json''"
| "type_name VNull = ''Null''"

fun value_tag :: "'j Value \<Rightarrow> u8" where
  "value_tag VNull = 0"
| "value_tag (VString _) = 1"
| "value_tag (VU32 _) = 2"
| "value_tag (VU64 _) = 3"
| "value_tag (VI32 _) = 4"
| "value_tag (VI64 _) = 5"
| "value_tag (VF32 _) = 6"
| "value_tag (VF64 _) = 7"
| "value_tag (VBool _) = 8"
| "value_tag (VBytes _) = 9"
| "value_tag (VDateTime _) = 10"
| "value_tag (VJson _) = 11"

section \<open>UTF-8\<close>

text \<open>\<^verbatim>\<open>std::str::from_utf8\<close>: the rest after one well-formed character.\<close>

definition cont_byte :: "byte \<Rightarrow> bool" where
  "cont_byte b \<longleftrightarrow> 0x80 \<le> b \<and> b \<le> 0xBF"

definition utf8_step :: "bytes \<Rightarrow> bytes option" where
  "utf8_step s = (case s of
      [] \<Rightarrow> None
    | a # s1 \<Rightarrow>
      if a < 0x80 then Some s1
      else case s1 of
        [] \<Rightarrow> None
      | b # s2 \<Rightarrow>
        if 0xC2 \<le> a \<and> a \<le> 0xDF then (if cont_byte b then Some s2 else None)
        else case s2 of
          [] \<Rightarrow> None
        | c # s3 \<Rightarrow>
          if 0xE0 \<le> a \<and> a \<le> 0xEF then
            (if (if a = 0xE0 then 0xA0 \<le> b \<and> b \<le> 0xBF else if a = 0xED then 0x80 \<le> b \<and> b \<le> 0x9F else cont_byte b) \<and> cont_byte c
             then Some s3 else None)
          else case s3 of
            [] \<Rightarrow> None
          | d # s4 \<Rightarrow>
            if 0xF0 \<le> a \<and> a \<le> 0xF4 then
              (if (if a = 0xF0 then 0x90 \<le> b \<and> b \<le> 0xBF else if a = 0xF4 then 0x80 \<le> b \<and> b \<le> 0x8F else cont_byte b) \<and>
                  cont_byte c \<and> cont_byte d
               then Some s4 else None)
            else None)"

lemma utf8_step_shorter: "utf8_step s = Some t \<Longrightarrow> length t < length s"
  by (auto simp: utf8_step_def split: list.splits if_splits)

function utf8_ok :: "bytes \<Rightarrow> bool" where
  "utf8_ok s = (s = [] \<or> (case utf8_step s of None \<Rightarrow> False | Some t \<Rightarrow> utf8_ok t))"
  by pat_completeness auto

termination
  by (relation "measure length") (auto simp: utf8_step_shorter)

declare utf8_ok.simps [simp del]

section \<open>Encoders\<close>

definition write_value_into :: "'j json_lib \<Rightarrow> 'j Value \<Rightarrow> bytes \<Rightarrow> bytes" where
  "write_value_into lib val out = (case val of
      VNull \<Rightarrow> out @ [value_tag val]
    | VString s \<Rightarrow> out @ [value_tag val] @ u32_be (of_nat (length s)) @ s
    | VU32 v \<Rightarrow> out @ [value_tag val] @ u32_be v
    | VU64 v \<Rightarrow> out @ [value_tag val] @ u64_be v
    | VI32 v \<Rightarrow> out @ [value_tag val] @ u32_be v
    | VI64 v \<Rightarrow> out @ [value_tag val] @ u64_be v
    | VF32 v \<Rightarrow> out @ [value_tag val] @ u32_be v
    | VF64 v \<Rightarrow> out @ [value_tag val] @ u64_be v
    | VBool v \<Rightarrow> out @ [value_tag val] @ [if v then 1 else 0]
    | VBytes b \<Rightarrow> out @ [value_tag val] @ u32_be (of_nat (length b)) @ b
    | VDateTime ms \<Rightarrow> out @ [value_tag val] @ u64_be ms
    | VJson j \<Rightarrow>
        let bs = (case js_to_vec lib j of Some b \<Rightarrow> b | None \<Rightarrow> [110, 117, 108, 108])
        in out @ [value_tag val] @ u32_be (of_nat (length bs)) @ bs)"

definition serialize_fields_into :: "'j json_lib \<Rightarrow> 'j FieldMap \<Rightarrow> bytes \<Rightarrow> bytes" where
  "serialize_fields_into lib flds out =
     foldl (\<lambda>out (name, val). write_value_into lib val (out @ u16_be (of_nat (length name)) @ name))
       (out @ u16_be (of_nat (length flds))) flds"

text \<open>The same match written out once more for \<^verbatim>\<open>BytesMut\<close>.\<close>

definition serialize_fields_into_bytesmut :: "'j json_lib \<Rightarrow> 'j FieldMap \<Rightarrow> bytes \<Rightarrow> bytes" where
  "serialize_fields_into_bytesmut lib flds buf =
     foldl (\<lambda>buf (name, val). let buf1 = buf @ u16_be (of_nat (length name)) @ name in case val of
        VNull \<Rightarrow> buf1 @ [0]
      | VString s \<Rightarrow> buf1 @ [1] @ u32_be (of_nat (length s)) @ s
      | VU32 v \<Rightarrow> buf1 @ [2] @ u32_be v
      | VU64 v \<Rightarrow> buf1 @ [3] @ u64_be v
      | VI32 v \<Rightarrow> buf1 @ [4] @ u32_be v
      | VI64 v \<Rightarrow> buf1 @ [5] @ u64_be v
      | VF32 v \<Rightarrow> buf1 @ [6] @ u32_be v
      | VF64 v \<Rightarrow> buf1 @ [7] @ u64_be v
      | VBool v \<Rightarrow> buf1 @ [8] @ [if v then 1 else 0]
      | VBytes b \<Rightarrow> buf1 @ [9] @ u32_be (of_nat (length b)) @ b
      | VDateTime ms \<Rightarrow> buf1 @ [10] @ u64_be ms
      | VJson j \<Rightarrow>
          let bs = (case js_to_vec lib j of Some b \<Rightarrow> b | None \<Rightarrow> [110, 117, 108, 108])
          in buf1 @ [11] @ u32_be (of_nat (length bs)) @ bs)
       (buf @ u16_be (of_nat (length flds))) flds"

definition serialize_fields :: "'j json_lib \<Rightarrow> 'j FieldMap \<Rightarrow> bytes" where
  "serialize_fields lib flds = serialize_fields_into_bytesmut lib flds []"

definition estimate_fields_size :: "'j FieldMap \<Rightarrow> nat" where
  "estimate_fields_size flds = foldl (\<lambda>total (name, val). total + (2 + length name + 1) + (case val of
      VString s \<Rightarrow> 4 + length s
    | VBytes b \<Rightarrow> 4 + length b
    | VJson _ \<Rightarrow> 4 + 16
    | VNull \<Rightarrow> 0 | VBool _ \<Rightarrow> 0
    | VU32 _ \<Rightarrow> 4 | VI32 _ \<Rightarrow> 4 | VF32 _ \<Rightarrow> 4
    | VU64 _ \<Rightarrow> 8 | VI64 _ \<Rightarrow> 8 | VF64 _ \<Rightarrow> 8 | VDateTime _ \<Rightarrow> 8)) 2 flds"

section \<open>Readers of single fields\<close>

text \<open>
  The steps that \<^verbatim>\<open>find_bytes_field_in_raw\<close>, \<^verbatim>\<open>find_u64_field_in_raw\<close>, \<^verbatim>\<open>extract_field\<close> and
  \<^verbatim>\<open>deserialize_fields_projected\<close> share: the name and tag of the field at \<open>pos\<close>, then the length of its
  payload; each also gives the position after what it read.
\<close>

definition bytes_at :: "bytes \<Rightarrow> nat \<Rightarrow> nat \<Rightarrow> bytes" where
  "bytes_at data pos n = take n (drop pos data)"

definition field_head :: "bytes \<Rightarrow> nat \<Rightarrow> (bytes \<times> u8 \<times> nat) option" where
  "field_head data pos =
     (if pos + 2 > length data then None
      else let name_len = unat (be_u16 (bytes_at data pos 2)); p = pos + 2
      in if p + name_len + 1 > length data then None
         else Some (bytes_at data p name_len, data ! (p + name_len), p + name_len + 1))"

definition value_len :: "bytes \<Rightarrow> nat \<Rightarrow> u8 \<Rightarrow> (nat \<times> nat) option" where
  "value_len data pos tag =
     (if tag = 0 then Some (0, pos)
      else if tag = 2 \<or> tag = 4 \<or> tag = 6 then Some (4, pos)
      else if tag = 3 \<or> tag = 5 \<or> tag = 7 \<or> tag = 10 then Some (8, pos)
      else if tag = 8 then Some (1, pos)
      else if tag = 1 \<or> tag = 9 \<or> tag = 11 then
        (if pos + 4 > length data then None else Some (unat (be_u32 (bytes_at data pos 4)), pos + 4))
      else None)"

fun find_bytes_loop :: "bytes \<Rightarrow> bytes \<Rightarrow> nat \<Rightarrow> nat \<Rightarrow> bytes option" where
  "find_bytes_loop data needle 0 pos = None"
| "find_bytes_loop data needle (Suc n) pos = (case field_head data pos of
      None \<Rightarrow> None
    | Some (name, tag, p) \<Rightarrow> (case value_len data p tag of
        None \<Rightarrow> None
      | Some (l, q) \<Rightarrow>
          if name = needle then
            if q + l > length data then None
            else if tag = 9 then Some (bytes_at data q l) else None
          else find_bytes_loop data needle n (q + l)))"

definition find_bytes_field_in_raw :: "bytes \<Rightarrow> bytes \<Rightarrow> bytes option" where
  "find_bytes_field_in_raw data field_name =
     (if length data < 2 then None
      else find_bytes_loop data field_name (unat (be_u16 (bytes_at data 0 2))) 2)"

text \<open>\<^verbatim>\<open>i32 as u64\<close> extends the sign.\<close>

fun find_u64_loop :: "bytes \<Rightarrow> bytes \<Rightarrow> nat \<Rightarrow> nat \<Rightarrow> u64 option" where
  "find_u64_loop data needle 0 pos = None"
| "find_u64_loop data needle (Suc n) pos = (case field_head data pos of
      None \<Rightarrow> None
    | Some (name, tag, p) \<Rightarrow> (case value_len data p tag of
        None \<Rightarrow> None
      | Some (l, q) \<Rightarrow>
          if name = needle then
            if q + l > length data then None
            else if tag = 2 then Some (ucast (be_u32 (bytes_at data q 4)))
            else if tag = 3 then Some (be_u64 (bytes_at data q 8))
            else if tag = 4 then Some (scast (be_u32 (bytes_at data q 4)))
            else if tag = 5 then Some (be_u64 (bytes_at data q 8))
            else None
          else find_u64_loop data needle n (q + l)))"

definition find_u64_field_in_raw :: "bytes \<Rightarrow> bytes \<Rightarrow> u64 option" where
  "find_u64_field_in_raw data field_name =
     (if length data < 2 then None
      else find_u64_loop data field_name (unat (be_u16 (bytes_at data 0 2))) 2)"

text \<open>The value a payload holds; \<open>str\<close> and \<open>json\<close> say what to do with bytes that are neither.\<close>

definition payload_value ::
    "(bytes \<Rightarrow> 'j Value option) \<Rightarrow> (bytes \<Rightarrow> 'j Value option) \<Rightarrow> u8 \<Rightarrow> bytes \<Rightarrow> 'j Value option" where
  "payload_value str json tag b =
     (if tag = 0 then Some VNull
      else if tag = 1 then str b
      else if tag = 2 then Some (VU32 (be_u32 b))
      else if tag = 3 then Some (VU64 (be_u64 b))
      else if tag = 4 then Some (VI32 (be_u32 b))
      else if tag = 5 then Some (VI64 (be_u64 b))
      else if tag = 6 then Some (VF32 (be_u32 b))
      else if tag = 7 then Some (VF64 (be_u64 b))
      else if tag = 8 then Some (VBool (b ! 0 \<noteq> 0))
      else if tag = 9 then Some (VBytes b)
      else if tag = 10 then Some (VDateTime (be_u64 b))
      else if tag = 11 then json b
      else None)"

fun extract_loop :: "'j json_lib \<Rightarrow> bytes \<Rightarrow> bytes \<Rightarrow> nat \<Rightarrow> nat \<Rightarrow> 'j Value option" where
  "extract_loop lib data needle 0 pos = None"
| "extract_loop lib data needle (Suc n) pos = (case field_head data pos of
      None \<Rightarrow> None
    | Some (name, tag, p) \<Rightarrow> (case value_len data p tag of
        None \<Rightarrow> None
      | Some (l, q) \<Rightarrow>
          if name = needle then
            if q + l > length data then None
            else payload_value (\<lambda>b. if utf8_ok b then Some (VString b) else None)
                   (\<lambda>b. map_option VJson (js_from_slice lib b)) tag (bytes_at data q l)
          else extract_loop lib data needle n (q + l)))"

definition extract_field :: "'j json_lib \<Rightarrow> bytes \<Rightarrow> bytes \<Rightarrow> 'j Value option" where
  "extract_field lib data field_name =
     (if length data < 2 then None
      else extract_loop lib data field_name (unat (be_u16 (bytes_at data 0 2))) 2)"

text \<open>\<open>flds\<close> is what was found so far, in the order of insertion.\<close>

fun projected_loop ::
    "'j json_lib \<Rightarrow> bytes \<Rightarrow> bytes list \<Rightarrow> nat \<Rightarrow> nat \<Rightarrow> 'j FieldMap \<Rightarrow> 'j FieldMap" where
  "projected_loop lib data wanted 0 pos flds = flds"
| "projected_loop lib data wanted (Suc n) pos flds = (case field_head data pos of
      None \<Rightarrow> flds
    | Some (name, tag, p) \<Rightarrow> (case value_len data p tag of
        None \<Rightarrow> flds
      | Some (l, q) \<Rightarrow>
          if q + l > length data then flds
          else if name \<in> set wanted then
            if \<not> utf8_ok name then projected_loop lib data wanted n (q + l) flds
            else
              let val = (case payload_value (\<lambda>b. Some (VString (if utf8_ok b then b else [])))
                           (\<lambda>b. Some (VJson (case js_from_slice lib b of Some j \<Rightarrow> j | None \<Rightarrow> js_null lib)))
                           tag (bytes_at data q l) of Some v \<Rightarrow> v | None \<Rightarrow> VNull);
                  flds' = AList.update name val flds
              in if length flds' = length wanted then flds'
                 else projected_loop lib data wanted n (q + l) flds'
          else projected_loop lib data wanted n (q + l) flds))"

definition deserialize_fields_projected :: "'j json_lib \<Rightarrow> bytes \<Rightarrow> bytes list \<Rightarrow> 'j FieldMap" where
  "deserialize_fields_projected lib data wanted =
     (if length data < 2 \<or> wanted = [] then []
      else projected_loop lib data wanted (unat (be_u16 (bytes_at data 0 2))) 2 [])"

section \<open>The decoder of trusted bytes\<close>

text \<open>Every slice and \<^verbatim>\<open>unwrap\<close> can panic; an unknown tag is a null without a payload.\<close>

definition deserialize_value :: "'j json_lib \<Rightarrow> bytes \<Rightarrow> nat \<Rightarrow> u8 \<Rightarrow> ('j Value \<times> nat) outcome" where
  "deserialize_value lib data pos tag =
     (let word32 = (\<lambda>c. obind (slice data pos (pos + 4)) (\<lambda>b. Return (c (be_u32 b), pos + 4)));
          word64 = (\<lambda>c. obind (slice data pos (pos + 8)) (\<lambda>b. Return (c (be_u64 b), pos + 8)));
          blob = (\<lambda>f. obind (slice data pos (pos + 4)) (\<lambda>b.
             let len = unat (be_u32 b) in
             obind (slice data (pos + 4) (pos + 4 + len)) (\<lambda>s.
             obind (f s) (\<lambda>v. Return (v, pos + 4 + len)))))
      in if tag = 0 then Return (VNull, pos)
      else if tag = 1 then blob (\<lambda>s. if utf8_ok s then Return (VString s) else Panic)
      else if tag = 2 then word32 VU32
      else if tag = 3 then word64 VU64
      else if tag = 4 then word32 VI32
      else if tag = 5 then word64 VI64
      else if tag = 6 then word32 VF32
      else if tag = 7 then word64 VF64
      else if tag = 8 then obind (byte_at data pos) (\<lambda>b. Return (VBool (b \<noteq> 0), pos + 1))
      else if tag = 9 then blob (\<lambda>s. Return (VBytes s))
      else if tag = 10 then word64 VDateTime
      else if tag = 11 then blob (\<lambda>s. Return (VJson (case js_from_slice lib s of Some j \<Rightarrow> j | None \<Rightarrow> js_null lib)))
      else Return (VNull, pos))"

fun deserialize_loop ::
    "'j json_lib \<Rightarrow> bytes \<Rightarrow> nat \<Rightarrow> nat \<Rightarrow> 'j FieldMap \<Rightarrow> 'j FieldMap outcome" where
  "deserialize_loop lib data 0 pos flds = Return flds"
| "deserialize_loop lib data (Suc n) pos flds =
     obind (slice data pos (pos + 2)) (\<lambda>b.
     let name_len = unat (be_u16 b) in
     obind (slice data (pos + 2) (pos + 2 + name_len)) (\<lambda>name.
     if \<not> utf8_ok name then Panic
     else obind (byte_at data (pos + 2 + name_len)) (\<lambda>tag.
     obind (deserialize_value lib data (pos + 2 + name_len + 1) tag) (\<lambda>(val, p).
     deserialize_loop lib data n p (AList.update name val flds)))))"

definition deserialize_fields :: "'j json_lib \<Rightarrow> bytes \<Rightarrow> 'j FieldMap outcome" where
  "deserialize_fields lib data =
     (if length data < 2 then Return []
      else deserialize_loop lib data (unat (be_u16 (bytes_at data 0 2))) 2 [])"

section \<open>The checked decoder\<close>

text \<open>The messages of its \<^verbatim>\<open>InvalidData\<close> errors, and the panic of a slice or an index out of range.\<close>

datatype field_error = FieldsTruncated | NameNotUtf8 | StringNotUtf8 | InvalidJson | UnknownTag u8 | FieldPanic

text \<open>The closure \<^verbatim>\<open>need\<close>, with its \<^verbatim>\<open>checked_add\<close> on 64 bits.\<close>

definition need :: "bytes \<Rightarrow> nat \<Rightarrow> nat \<Rightarrow> field_error + unit" where
  "need data pos n = (if pos + n < 2 ^ 64 \<and> pos + n \<le> length data then Inr () else Inl FieldsTruncated)"

text \<open>The slice \<^verbatim>\<open>data[pos..pos + n]\<close> and the byte \<^verbatim>\<open>data[pos]\<close>.\<close>

definition slice_or_panic :: "bytes \<Rightarrow> nat \<Rightarrow> nat \<Rightarrow> field_error + bytes" where
  "slice_or_panic data pos n = (if pos + n \<le> length data then Inr (bytes_at data pos n) else Inl FieldPanic)"

definition byte_or_panic :: "bytes \<Rightarrow> nat \<Rightarrow> field_error + byte" where
  "byte_or_panic data pos = (if pos < length data then Inr (data ! pos) else Inl FieldPanic)"

definition try_deserialize_value :: "'j json_lib \<Rightarrow> bytes \<Rightarrow> nat \<Rightarrow> u8 \<Rightarrow> field_error + 'j Value \<times> nat" where
  "try_deserialize_value lib data pos tag =
     (let word32 = (\<lambda>c. rbind (need data pos 4) (\<lambda>_. rbind (slice_or_panic data pos 4) (\<lambda>b. Inr (c (be_u32 b), pos + 4))));
          word64 = (\<lambda>c. rbind (need data pos 8) (\<lambda>_. rbind (slice_or_panic data pos 8) (\<lambda>b. Inr (c (be_u64 b), pos + 8))));
          blob = (\<lambda>f. rbind (need data pos 4) (\<lambda>_. rbind (slice_or_panic data pos 4) (\<lambda>b.
             let len = unat (be_u32 b) in
             rbind (need data (pos + 4) len) (\<lambda>_. rbind (slice_or_panic data (pos + 4) len) (\<lambda>s.
             rbind (f s) (\<lambda>v. Inr (v, pos + 4 + len)))))))
      in if tag = 0 then Inr (VNull, pos)
      else if tag = 1 then blob (\<lambda>s. if utf8_ok s then Inr (VString s) else Inl StringNotUtf8)
      else if tag = 2 then word32 VU32
      else if tag = 3 then word64 VU64
      else if tag = 4 then word32 VI32
      else if tag = 5 then word64 VI64
      else if tag = 6 then word32 VF32
      else if tag = 7 then word64 VF64
      else if tag = 8 then rbind (need data pos 1) (\<lambda>_. rbind (byte_or_panic data pos) (\<lambda>b. Inr (VBool (b \<noteq> 0), pos + 1)))
      else if tag = 9 then blob (\<lambda>s. Inr (VBytes s))
      else if tag = 10 then word64 VDateTime
      else if tag = 11 then blob (\<lambda>s. case js_from_slice lib s of Some j \<Rightarrow> Inr (VJson j) | None \<Rightarrow> Inl InvalidJson)
      else Inl (UnknownTag tag))"

fun try_deserialize_loop ::
    "'j json_lib \<Rightarrow> bytes \<Rightarrow> nat \<Rightarrow> nat \<Rightarrow> 'j FieldMap \<Rightarrow> field_error + 'j FieldMap \<times> nat" where
  "try_deserialize_loop lib data 0 pos flds = Inr (flds, pos)"
| "try_deserialize_loop lib data (Suc n) pos flds =
     rbind (need data pos 2) (\<lambda>_. rbind (slice_or_panic data pos 2) (\<lambda>b.
     let name_len = unat (be_u16 b) in
     rbind (need data (pos + 2) name_len) (\<lambda>_. rbind (slice_or_panic data (pos + 2) name_len) (\<lambda>name.
     if \<not> utf8_ok name then Inl NameNotUtf8
     else rbind (need data (pos + 2 + name_len) 1) (\<lambda>_. rbind (byte_or_panic data (pos + 2 + name_len)) (\<lambda>tag.
     rbind (try_deserialize_value lib data (pos + 2 + name_len + 1) tag) (\<lambda>(val, p).
     try_deserialize_loop lib data n p (AList.update name val flds))))))))"

definition try_deserialize_fields :: "'j json_lib \<Rightarrow> bytes \<Rightarrow> nat \<Rightarrow> field_error + 'j FieldMap \<times> nat" where
  "try_deserialize_fields lib data start =
     rbind (need data start 2) (\<lambda>_. rbind (slice_or_panic data start 2) (\<lambda>b.
     try_deserialize_loop lib data (unat (be_u16 b)) (start + 2) []))"

section \<open>Objects\<close>

record 'j Object =
  ob_type_name :: bytes
  ob_id :: u64
  ob_fields :: "'j FieldMap"
  ob_raw_fields :: "bytes option"

definition from_raw :: "bytes \<Rightarrow> u64 \<Rightarrow> bytes \<Rightarrow> 'j Object" where
  "from_raw tname i raw_fields =
     \<lparr>ob_type_name = tname, ob_id = i, ob_fields = [], ob_raw_fields = Some raw_fields\<rparr>"

definition ensure_fields_deserialized :: "'j json_lib \<Rightarrow> 'j Object \<Rightarrow> 'j Object outcome" where
  "ensure_fields_deserialized lib ob =
     (if ob_fields ob \<noteq> [] then Return ob
      else case ob_raw_fields ob of
        None \<Rightarrow> Return ob
      | Some raw \<Rightarrow> obind (deserialize_fields lib raw) (\<lambda>m. Return (ob\<lparr>ob_fields := m\<rparr>)))"

section \<open>What is encoded\<close>

lemma length_u16_be [simp, be_simps]: "length (u16_be w) = 2"
  by (simp add: u16_be_def)

lemma be_u16_u16_be [simp, be_simps]: "be_u16 (u16_be w) = w"
proof -
  have "unat w < 256 ^ 2" using unsigned_less [of w] by simp
  then show ?thesis by (simp add: be_u16_def u16_be_def be_nat_be_bytes)
qed

interpretation c16: fixed_codec u16_be be_u16 2
  by unfold_locales simp_all

lemma unat_of_nat_u16: "n < 2 ^ 16 \<Longrightarrow> unat (of_nat n :: u16) = n"
  by (simp add: unat_of_nat)

lemma unat_of_nat_len32: "n < 2 ^ 32 \<Longrightarrow> unat (of_nat n :: u32) = n"
  by (simp add: unat_of_nat)

text \<open>The payload of a value, and whether a length precedes it.\<close>

fun payload :: "'j json_lib \<Rightarrow> 'j Value \<Rightarrow> bytes" where
  "payload lib VNull = []"
| "payload lib (VString s) = s"
| "payload lib (VU32 v) = u32_be v"
| "payload lib (VU64 v) = u64_be v"
| "payload lib (VI32 v) = u32_be v"
| "payload lib (VI64 v) = u64_be v"
| "payload lib (VF32 v) = u32_be v"
| "payload lib (VF64 v) = u64_be v"
| "payload lib (VBool v) = [if v then 1 else 0]"
| "payload lib (VBytes b) = b"
| "payload lib (VDateTime v) = u64_be v"
| "payload lib (VJson j) = (case js_to_vec lib j of Some b \<Rightarrow> b | None \<Rightarrow> [110, 117, 108, 108])"

fun sized :: "'j Value \<Rightarrow> bool" where
  "sized (VString _) = True"
| "sized (VBytes _) = True"
| "sized (VJson _) = True"
| "sized _ = False"

definition len_prefix :: "'j json_lib \<Rightarrow> 'j Value \<Rightarrow> bytes" where
  "len_prefix lib v = (if sized v then u32_be (of_nat (length (payload lib v))) else [])"

definition field_bytes :: "'j json_lib \<Rightarrow> bytes \<times> 'j Value \<Rightarrow> bytes" where
  "field_bytes lib f = u16_be (of_nat (length (fst f))) @ fst f @ [value_tag (snd f)] @ len_prefix lib (snd f) @ payload lib (snd f)"

text \<open>A field that the format can hold: lengths fit, text is UTF-8, and the JSON text reads back.\<close>

definition field_ok :: "'j json_lib \<Rightarrow> bytes \<times> 'j Value \<Rightarrow> bool" where
  "field_ok lib f \<longleftrightarrow> length (fst f) < 2 ^ 16 \<and> utf8_ok (fst f) \<and> length (payload lib (snd f)) < 2 ^ 32 \<and>
     (case snd f of VString s \<Rightarrow> utf8_ok s | VJson j \<Rightarrow> js_from_slice lib (payload lib (VJson j)) = Some j | _ \<Rightarrow> True)"

definition fields_ok :: "'j json_lib \<Rightarrow> 'j FieldMap \<Rightarrow> bool" where
  "fields_ok lib fs \<longleftrightarrow> (\<forall>f \<in> set fs. field_ok lib f) \<and> length fs < 2 ^ 16 \<and> distinct (map fst fs)"

lemma write_value_into_bytes: "write_value_into lib v out = out @ [value_tag v] @ len_prefix lib v @ payload lib v"
  by (cases v) (simp_all add: write_value_into_def len_prefix_def Let_def)

lemma serialize_fields_into_bytes:
  "serialize_fields_into lib fs out = out @ u16_be (of_nat (length fs)) @ concat (map (field_bytes lib) fs)"
proof -
  have "foldl (\<lambda>out (name, val). write_value_into lib val (out @ u16_be (of_nat (length name)) @ name)) b xs =
      b @ concat (map (field_bytes lib) xs)" for b xs
    by (induction xs arbitrary: b) (auto simp: write_value_into_bytes field_bytes_def)
  then show ?thesis by (simp add: serialize_fields_into_def)
qed

lemma bytesmut_eq: "serialize_fields_into_bytesmut lib fs buf = serialize_fields_into lib fs buf"
proof -
  have "foldl (\<lambda>buf (name, val). let buf1 = buf @ u16_be (of_nat (length name)) @ name in case val of
        VNull \<Rightarrow> buf1 @ [0]
      | VString s \<Rightarrow> buf1 @ [1] @ u32_be (of_nat (length s)) @ s
      | VU32 v \<Rightarrow> buf1 @ [2] @ u32_be v
      | VU64 v \<Rightarrow> buf1 @ [3] @ u64_be v
      | VI32 v \<Rightarrow> buf1 @ [4] @ u32_be v
      | VI64 v \<Rightarrow> buf1 @ [5] @ u64_be v
      | VF32 v \<Rightarrow> buf1 @ [6] @ u32_be v
      | VF64 v \<Rightarrow> buf1 @ [7] @ u64_be v
      | VBool v \<Rightarrow> buf1 @ [8] @ [if v then 1 else 0]
      | VBytes b \<Rightarrow> buf1 @ [9] @ u32_be (of_nat (length b)) @ b
      | VDateTime ms \<Rightarrow> buf1 @ [10] @ u64_be ms
      | VJson j \<Rightarrow>
          let bs = (case js_to_vec lib j of Some b \<Rightarrow> b | None \<Rightarrow> [110, 117, 108, 108])
          in buf1 @ [11] @ u32_be (of_nat (length bs)) @ bs) b xs =
      foldl (\<lambda>out (name, val). write_value_into lib val (out @ u16_be (of_nat (length name)) @ name)) b xs" for b xs
    by (induction xs arbitrary: b) (auto simp: write_value_into_def Let_def split: Value.splits)
  then show ?thesis by (simp add: serialize_fields_into_bytesmut_def serialize_fields_into_def)
qed

lemma serialize_fields_bytes:
  "serialize_fields lib fs = u16_be (of_nat (length fs)) @ concat (map (field_bytes lib) fs)"
  by (simp add: serialize_fields_def bytesmut_eq serialize_fields_into_bytes)

section \<open>Reading an encoded field\<close>

text \<open>\<open>at_pos d p b\<close>: the bytes \<open>b\<close> are in \<open>d\<close> at position \<open>p\<close>.\<close>

definition at_pos :: "bytes \<Rightarrow> nat \<Rightarrow> bytes \<Rightarrow> bool" where
  "at_pos d p b \<longleftrightarrow> p + length b \<le> length d \<and> take (length b) (drop p d) = b"

lemma at_pos_append: "at_pos d p (a @ b) \<longleftrightarrow> at_pos d p a \<and> at_pos d (p + length a) b"
proof (cases "p + length a + length b \<le> length d")
  case True
  then have "take (length a + length b) (drop p d) = a @ b \<longleftrightarrow> take (length a) (drop p d) = a \<and> take (length b) (drop (p + length a) d) = b"
    unfolding take_add drop_drop by (subst append_eq_append_conv) (auto simp: add.commute)
  with True show ?thesis by (auto simp: at_pos_def)
qed (auto simp: at_pos_def)

lemma at_pos_read:
  assumes "at_pos d p b"
  shows "bytes_at d p (length b) = b" "p + length b \<le> length d" "slice d p (p + length b) = Return b"
  using assms by (simp_all add: at_pos_def bytes_at_def slice_def)

lemma at_pos_byte: "at_pos d p [c] \<Longrightarrow> d ! p = c \<and> p < length d"
  by (auto simp: at_pos_def take_Suc_conv_app_nth hd_drop_conv_nth take_Suc)

lemma at_pos_self: "at_pos (a @ b @ c) (length a) b"
  by (simp add: at_pos_def)

text \<open>The position after a field.\<close>

lemma field_at:
  assumes at: "at_pos d p (field_bytes lib (name, v))" and ok: "field_ok lib (name, v)"
    and q: "q = p + 2 + length name + 1 + length (len_prefix lib v)"
  shows "field_head d p = Some (name, value_tag v, p + 2 + length name + 1)"
    "value_len d (p + 2 + length name + 1) (value_tag v) = Some (length (payload lib v), q)"
    "at_pos d q (payload lib v)" "at_pos d p (u16_be (of_nat (length name)))" "at_pos d (p + 2) name"
    "at_pos d (p + 2 + length name) [value_tag v]" "at_pos d (p + 2 + length name + 1) (len_prefix lib v)"
    "p + length (field_bytes lib (name, v)) = q + length (payload lib v)"
proof -
  show parts: "at_pos d p (u16_be (of_nat (length name)))" "at_pos d (p + 2) name"
    "at_pos d (p + 2 + length name) [value_tag v]" "at_pos d (p + 2 + length name + 1) (len_prefix lib v)"
    "at_pos d q (payload lib v)"
    using at unfolding field_bytes_def fst_conv snd_conv at_pos_append by (simp_all add: q add.assoc)
  have len: "unat (of_nat (length name) :: u16) = length name" using ok by (simp add: field_ok_def unat_of_nat_u16)
  note r = at_pos_read [OF parts(1), simplified] at_pos_read [OF parts(2)] at_pos_byte [OF parts(3)]
  show "field_head d p = Some (name, value_tag v, p + 2 + length name + 1)"
    using r by (simp add: field_head_def Let_def len)
  have pl: "unat (of_nat (length (payload lib v)) :: u32) = length (payload lib v)"
    using ok by (simp add: field_ok_def unat_of_nat_len32)
  show "value_len d (p + 2 + length name + 1) (value_tag v) = Some (length (payload lib v), q)"
  proof (cases "sized v")
    case True
    then have lp: "len_prefix lib v = u32_be (of_nat (length (payload lib v)))" by (simp add: len_prefix_def)
    note l = at_pos_read [OF parts(4) [unfolded lp], simplified]
    have "value_tag v = 1 \<or> value_tag v = 9 \<or> value_tag v = 11" using True by (cases v) simp_all
    then show ?thesis using l pl by (auto simp: value_len_def q lp)
  next
    case False
    then show ?thesis by (cases v) (simp_all add: value_len_def q len_prefix_def)
  qed
  show "p + length (field_bytes lib (name, v)) = q + length (payload lib v)" by (simp add: field_bytes_def q)
qed

lemma payload_value_payload:
  assumes "field_ok lib (name, v)" "\<And>s. utf8_ok s \<Longrightarrow> str s = Some (VString s)"
    "\<And>j. js_from_slice lib b = Some j \<Longrightarrow> json b = Some (VJson j)" "b = payload lib v"
  shows "payload_value str json (value_tag v) b = Some v"
  using assms by (cases v) (auto simp: payload_value_def field_ok_def)

section \<open>The readers on encoded fields\<close>

lemma fields_at_Cons:
  "at_pos d p (concat (map (field_bytes lib) (f # fs))) \<longleftrightarrow>
   at_pos d p (field_bytes lib f) \<and> at_pos d (p + length (field_bytes lib f)) (concat (map (field_bytes lib) fs))"
  by (simp add: at_pos_append)

text \<open>The first field, with the positions after its tag and before its payload left abstract.\<close>

lemma fields_step:
  assumes "at_pos d p (concat (map (field_bytes lib) (f # fs)))" "\<forall>f \<in> set (f # fs). field_ok lib f"
  obtains name v p1 q where "f = (name, v)" "field_ok lib (name, v)" "field_head d p = Some (name, value_tag v, p1)"
    "value_len d p1 (value_tag v) = Some (length (payload lib v), q)" "bytes_at d q (length (payload lib v)) = payload lib v"
    "q + length (payload lib v) \<le> length d" "slice d q (q + length (payload lib v)) = Return (payload lib v)"
    "at_pos d (q + length (payload lib v)) (concat (map (field_bytes lib) fs))"
proof -
  obtain name v where f: "f = (name, v)" by (cases f)
  have at: "at_pos d p (field_bytes lib (name, v))"
      "at_pos d (p + length (field_bytes lib (name, v))) (concat (map (field_bytes lib) fs))"
    using assms(1) unfolding f fields_at_Cons by simp_all
  have ok: "field_ok lib (name, v)" using assms(2) by (simp add: f)
  note fa = field_at [OF at(1) ok refl]
  show thesis by (rule that [OF f ok fa(1,2) at_pos_read [OF fa(3)] at(2) [unfolded fa(8)]])
qed

lemma extract_loop_fields:
  assumes "at_pos d p (concat (map (field_bytes lib) fs))" "\<forall>f \<in> set fs. field_ok lib f"
  shows "extract_loop lib d k (length fs) p = map_of fs k"
  using assms
proof (induction fs arbitrary: p)
  case (Cons f fs)
  from Cons.prems obtain name v p1 q where s: "f = (name, v)" "field_ok lib (name, v)"
    "field_head d p = Some (name, value_tag v, p1)"
    "value_len d p1 (value_tag v) = Some (length (payload lib v), q)" "bytes_at d q (length (payload lib v)) = payload lib v"
    "q + length (payload lib v) \<le> length d" "at_pos d (q + length (payload lib v)) (concat (map (field_bytes lib) fs))"
    by (rule fields_step)
  have "payload_value (\<lambda>b. if utf8_ok b then Some (VString b) else None) (\<lambda>b. map_option VJson (js_from_slice lib b))
      (value_tag v) (payload lib v) = Some v"
    by (rule payload_value_payload [OF s(2)]) simp_all
  then show ?case using s Cons.IH [OF s(7)] Cons.prems(2) by simp
qed simp

lemma find_bytes_loop_fields:
  assumes "at_pos d p (concat (map (field_bytes lib) fs))" "\<forall>f \<in> set fs. field_ok lib f"
  shows "find_bytes_loop d k (length fs) p = (case map_of fs k of Some (VBytes b) \<Rightarrow> Some b | _ \<Rightarrow> None)"
  using assms
proof (induction fs arbitrary: p)
  case (Cons f fs)
  from Cons.prems obtain name v p1 q where s: "f = (name, v)" "field_head d p = Some (name, value_tag v, p1)"
    "value_len d p1 (value_tag v) = Some (length (payload lib v), q)" "bytes_at d q (length (payload lib v)) = payload lib v"
    "q + length (payload lib v) \<le> length d" "at_pos d (q + length (payload lib v)) (concat (map (field_bytes lib) fs))"
    by (rule fields_step)
  then show ?case using Cons.IH [OF s(6)] Cons.prems(2) by (cases v) simp_all
qed simp

fun as_u64 :: "'j Value \<Rightarrow> u64 option" where
  "as_u64 (VU32 v) = Some (ucast v)"
| "as_u64 (VU64 v) = Some v"
| "as_u64 (VI32 v) = Some (scast v)"
| "as_u64 (VI64 v) = Some v"
| "as_u64 _ = None"

lemma find_u64_loop_fields:
  assumes "at_pos d p (concat (map (field_bytes lib) fs))" "\<forall>f \<in> set fs. field_ok lib f"
  shows "find_u64_loop d k (length fs) p = Option.bind (map_of fs k) as_u64"
  using assms
proof (induction fs arbitrary: p)
  case (Cons f fs)
  from Cons.prems obtain name v p1 q where s: "f = (name, v)" "field_head d p = Some (name, value_tag v, p1)"
    "value_len d p1 (value_tag v) = Some (length (payload lib v), q)" "bytes_at d q (length (payload lib v)) = payload lib v"
    "q + length (payload lib v) \<le> length d" "at_pos d (q + length (payload lib v)) (concat (map (field_bytes lib) fs))"
    by (rule fields_step)
  then show ?case using Cons.IH [OF s(6)] Cons.prems(2) by (cases v) simp_all
qed simp

section \<open>The checked decoder on encoded fields\<close>

lemma need_ok: "length d < 2 ^ 64 \<Longrightarrow> p + n \<le> length d \<Longrightarrow> need d p n = Inr ()"
  by (simp add: need_def)

lemma need_inr: "need d p n = Inr u \<longleftrightarrow> p + n < 2 ^ 64 \<and> p + n \<le> length d"
  by (simp add: need_def)

lemma slice_or_panic_ok: "p + n \<le> length d \<Longrightarrow> slice_or_panic d p n = Inr (bytes_at d p n)"
  by (simp add: slice_or_panic_def)

lemma byte_or_panic_ok: "p + 1 \<le> length d \<Longrightarrow> byte_or_panic d p = Inr (d ! p)"
  by (simp add: byte_or_panic_def)

lemma need_panic [simp]: "need d p n \<noteq> Inl FieldPanic"
  by (simp add: need_def)

lemma try_deserialize_value_payload:
  assumes at: "at_pos d p (len_prefix lib v)" "at_pos d (p + length (len_prefix lib v)) (payload lib v)"
    and ok: "field_ok lib (name, v)" and small: "length d < 2 ^ 64"
  shows "try_deserialize_value lib d p (value_tag v) = Inr (v, p + length (len_prefix lib v) + length (payload lib v))"
proof (cases "sized v")
  case True
  then have lp: "len_prefix lib v = u32_be (of_nat (length (payload lib v)))" by (simp add: len_prefix_def)
  have len: "unat (of_nat (length (payload lib v)) :: u32) = length (payload lib v)"
    using ok by (simp add: field_ok_def unat_of_nat_len32)
  note r = at_pos_read [OF at(1) [unfolded lp]] at_pos_read [OF at(2) [unfolded lp]]
  have b: "bytes_at d p 4 = u32_be (of_nat (length (payload lib v)))" "p + 4 \<le> length d"
      "bytes_at d (p + 4) (length (payload lib v)) = payload lib v" "p + 4 + length (payload lib v) \<le> length d"
    using r by simp_all
  show ?thesis using True b ok len
    by (cases v) (simp_all add: try_deserialize_value_def Let_def need_ok [OF small] slice_or_panic_ok len_prefix_def field_ok_def)
next
  case False
  then have lp: "len_prefix lib v = []" by (simp add: len_prefix_def)
  note r = at_pos_read [OF at(2) [unfolded lp, simplified]]
  show ?thesis
  proof (cases v)
    case (VBool x)
    then have "d ! p = (if x then 1 else 0) \<and> p < length d" using at(2) lp by (intro at_pos_byte) simp
    then show ?thesis using VBool by (simp add: try_deserialize_value_def need_ok [OF small] byte_or_panic_def len_prefix_def)
  qed (use False r lp in \<open>simp_all add: try_deserialize_value_def Let_def need_ok [OF small] slice_or_panic_ok\<close>)
qed

lemma update_fresh: "k \<notin> fst ` set al \<Longrightarrow> AList.update k v al = al @ [(k, v)]"
  by (induction al) auto

lemma try_deserialize_loop_fields:
  assumes "at_pos d p (concat (map (field_bytes lib) fs))" "\<forall>f \<in> set fs. field_ok lib f"
    "distinct (map fst (acc @ fs))" "length d < 2 ^ 64"
  shows "try_deserialize_loop lib d (length fs) p acc = Inr (acc @ fs, p + length (concat (map (field_bytes lib) fs)))"
  using assms(1-3)
proof (induction fs arbitrary: p acc)
  case (Cons f fs)
  obtain name v where f: "f = (name, v)" by (cases f)
  have at: "at_pos d p (field_bytes lib (name, v))"
      "at_pos d (p + length (field_bytes lib (name, v))) (concat (map (field_bytes lib) fs))"
    using Cons.prems(1) unfolding f fields_at_Cons by simp_all
  have ok: "field_ok lib (name, v)" using Cons.prems(2) by (simp add: f)
  define r where "r = p + 2 + length name"
  note fa = field_at [OF at(1) ok refl, folded r_def]
  have len: "unat (of_nat (length name) :: u16) = length name" using ok by (simp add: field_ok_def unat_of_nat_u16)
  have n: "bytes_at d p 2 = u16_be (of_nat (length name))" "p + 2 \<le> length d" using at_pos_read [OF fa(4)] by simp_all
  have nm: "bytes_at d (p + 2) (length name) = name" "p + 2 + length name \<le> length d"
    using at_pos_read [OF fa(5)] by simp_all
  have tag: "d ! r = value_tag v" "r + 1 \<le> length d" using at_pos_byte [OF fa(6)] by simp_all
  have needs: "need d p 2 = Inr ()" "need d (p + 2) (length name) = Inr ()" "need d r 1 = Inr ()"
    by (rule need_ok [OF assms(4)], fact n(2) nm(2) tag(2))+
  have reads: "slice_or_panic d p 2 = Inr (bytes_at d p 2)" "slice_or_panic d (p + 2) (length name) = Inr (bytes_at d (p + 2) (length name))"
      "byte_or_panic d r = Inr (d ! r)"
    using n(2) nm(2) tag(2) by (simp_all add: slice_or_panic_ok byte_or_panic_ok)
  define q where "q = r + 1 + length (len_prefix lib v) + length (payload lib v)"
  have tv: "try_deserialize_value lib d (r + 1) (value_tag v) = Inr (v, q)"
    unfolding q_def by (rule try_deserialize_value_payload [OF fa(7,3) ok assms(4)])
  have q: "p + length (field_bytes lib (name, v)) = q" using fa(8) by (simp add: q_def)
  have fresh: "name \<notin> fst ` set acc" using Cons.prems(3) by (auto simp: f)
  have "try_deserialize_loop lib d (Suc (length fs)) p acc = try_deserialize_loop lib d (length fs) q (acc @ [(name, v)])"
    unfolding try_deserialize_loop.simps needs(1) reads(1) rbind.simps Let_def n len be_u16_u16_be nm r_def [symmetric]
      needs(2,3) reads(2,3) [unfolded nm] tag(1) tv prod.case update_fresh [OF fresh]
    using ok by (simp add: field_ok_def)
  also have "\<dots> = Inr ((acc @ [(name, v)]) @ fs, q + length (concat (map (field_bytes lib) fs)))"
    using at(2) Cons.prems by (intro Cons.IH) (simp_all add: q f)
  finally show ?case using q by (simp add: f)
qed simp

lemma try_deserialize_fields_at:
  assumes "at_pos d p (serialize_fields lib fs)" "fields_ok lib fs" "length d < 2 ^ 64"
  shows "try_deserialize_fields lib d p = Inr (fs, p + length (serialize_fields lib fs))"
proof -
  have at: "at_pos d p (u16_be (of_nat (length fs)))" "at_pos d (p + 2) (concat (map (field_bytes lib) fs))"
    using assms(1) by (simp_all add: serialize_fields_bytes at_pos_append)
  have "unat (of_nat (length fs) :: u16) = length fs" using assms(2) by (simp add: fields_ok_def unat_of_nat_u16)
  then show ?thesis
    using try_deserialize_loop_fields [OF at(2), of "[]"] at_pos_read [OF at(1)] assms(2,3)
    by (simp add: try_deserialize_fields_def fields_ok_def need_ok slice_or_panic_ok serialize_fields_bytes)
qed

section \<open>The decoder of trusted bytes against the checked one\<close>

lemma slice_bytes_at: "p + n \<le> length d \<Longrightarrow> slice d p (p + n) = Return (bytes_at d p n)"
  by (simp add: slice_def bytes_at_def)

lemma byte_at_nth: "p + 1 \<le> length d \<Longrightarrow> byte_at d p = Return (d ! p)"
  by (simp add: byte_at_def)

lemma deserialize_value_of_try:
  assumes "try_deserialize_value lib d p tag = Inr (v, q)"
  shows "deserialize_value lib d p tag = Return (v, q) \<and> (p \<le> length d \<longrightarrow> q \<le> length d)"
  using assms unfolding try_deserialize_value_def deserialize_value_def Let_def
  by (auto simp: rbind_inr need_inr slice_or_panic_def byte_or_panic_def slice_bytes_at byte_at_nth split: if_splits option.splits)

lemma deserialize_loop_of_try:
  assumes "try_deserialize_loop lib d n p acc = Inr (m, q)" "p \<le> length d"
  shows "deserialize_loop lib d n p acc = Return m \<and> q \<le> length d"
  using assms
proof (induction n arbitrary: p acc)
  case (Suc n)
  define l where "l = unat (be_u16 (bytes_at d p 2))"
  define name where "name = bytes_at d (p + 2) l"
  from Suc.prems(1) obtain v r where s: "p + 2 \<le> length d" "p + 2 + l \<le> length d" "utf8_ok name" "p + 2 + l + 1 \<le> length d"
    "try_deserialize_value lib d (p + 2 + l + 1) (d ! (p + 2 + l)) = Inr (v, r)"
    "try_deserialize_loop lib d n r (AList.update name v acc) = Inr (m, q)"
    by (auto simp: rbind_inr need_inr slice_or_panic_def byte_or_panic_def Let_def l_def name_def split: if_splits)
  note dv = deserialize_value_of_try [OF s(5)]
  have "deserialize_loop lib d n r (AList.update name v acc) = Return m \<and> q \<le> length d"
    using dv s(4) by (intro Suc.IH [OF s(6)]) simp
  then show ?case
    unfolding deserialize_loop.simps slice_bytes_at [OF s(1)] obind.simps Let_def l_def [symmetric] slice_bytes_at [OF s(2)]
      name_def [symmetric] byte_at_nth [OF s(4)] conjunct1 [OF dv] prod.case
    using s(3) by simp
qed simp

lemma rbind_inl: "rbind x f = Inl e \<longleftrightarrow> x = Inl e \<or> (\<exists>z. x = Inr z \<and> f z = Inl e)"
  by (cases x) simp_all

text \<open>No slice and no index of the checked decoder is out of range: each follows the check that covers it.\<close>

lemma try_deserialize_value_no_panic: "try_deserialize_value lib d p tag \<noteq> Inl FieldPanic"
  unfolding try_deserialize_value_def Let_def
  by (auto simp: rbind_inl need_inr slice_or_panic_ok byte_or_panic_ok split: if_splits option.splits)

lemma try_deserialize_loop_no_panic: "try_deserialize_loop lib d n p acc \<noteq> Inl FieldPanic"
proof (induction n arbitrary: p acc)
  case (Suc n)
  show ?case unfolding try_deserialize_loop.simps Let_def
    by (auto simp: rbind_inl need_inr slice_or_panic_ok byte_or_panic_ok try_deserialize_value_no_panic Suc.IH split: if_splits)
qed simp

lemma try_deserialize_fields_accepts:
  assumes "try_deserialize_fields lib d p = Inr (m, q)"
  shows "p + 2 \<le> length d \<and> deserialize_loop lib d (unat (be_u16 (bytes_at d p 2))) (p + 2) [] = Return m \<and> q \<le> length d"
proof -
  have "p + 2 \<le> length d" "try_deserialize_loop lib d (unat (be_u16 (bytes_at d p 2))) (p + 2) [] = Inr (m, q)"
    using assms by (auto simp: try_deserialize_fields_def rbind_inr need_inr slice_or_panic_ok)
  then show ?thesis using deserialize_loop_of_try [of lib d _ "p + 2" "[]" m q] by simp
qed

lemma projected_loop_fields:
  assumes "at_pos d p (concat (map (field_bytes lib) fs))" "\<forall>f \<in> set fs. field_ok lib f"
    "distinct (map fst (acc @ fs))" "fst ` set acc \<subseteq> set wanted" "distinct wanted"
  shows "projected_loop lib d wanted (length fs) p acc = acc @ filter (\<lambda>f. fst f \<in> set wanted) fs \<or>
    length acc = length wanted"
  using assms(1-4)
proof (induction fs arbitrary: p acc)
  case (Cons f fs)
  from Cons.prems(1,2) obtain name v p1 q where s: "f = (name, v)" "field_ok lib (name, v)"
    "field_head d p = Some (name, value_tag v, p1)"
    "value_len d p1 (value_tag v) = Some (length (payload lib v), q)" "bytes_at d q (length (payload lib v)) = payload lib v"
    "q + length (payload lib v) \<le> length d" "at_pos d (q + length (payload lib v)) (concat (map (field_bytes lib) fs))"
    by (rule fields_step)
  have pv: "payload_value (\<lambda>b. Some (VString (if utf8_ok b then b else [])))
      (\<lambda>b. Some (VJson (case js_from_slice lib b of Some j \<Rightarrow> j | None \<Rightarrow> js_null lib)))
      (value_tag v) (payload lib v) = Some v"
    by (rule payload_value_payload [OF s(2)]) simp_all
  have rest: "\<forall>f \<in> set fs. field_ok lib f" using Cons.prems(2) by simp
  show ?case
  proof (cases "name \<in> set wanted")
    case False
    then show ?thesis using Cons.IH [OF s(7) rest, of acc] Cons.prems(3,4) s by simp
  next
    case True
    let ?acc = "acc @ [(name, v)]"
    have fresh: "name \<notin> fst ` set acc" using Cons.prems(3) by (auto simp: s(1))
    have sub: "fst ` set ?acc \<subseteq> set wanted" using Cons.prems(4) True by auto
    have "projected_loop lib d wanted (length (f # fs)) p acc =
        (if length ?acc = length wanted then ?acc
         else projected_loop lib d wanted (length fs) (q + length (payload lib v)) ?acc)"
      using s pv True update_fresh [OF fresh] by (simp add: field_ok_def)
    moreover have "filter (\<lambda>f. fst f \<in> set wanted) fs = []" if full: "length ?acc = length wanted"
    proof -
      have "fst ` set ?acc = set wanted"
      proof (rule card_subset_eq [OF _ sub])
        have "distinct (map fst ?acc)" using Cons.prems(3) by (simp add: s(1))
        then have "card (fst ` set ?acc) = length ?acc" by (metis distinct_card length_map set_map)
        then show "card (fst ` set ?acc) = card (set wanted)" using full assms(5) by (simp add: distinct_card)
      qed simp
      moreover have "fst g \<notin> fst ` set ?acc" if "g \<in> set fs" for g
        using Cons.prems(3) that by (auto simp: s(1))
      ultimately show ?thesis by (simp add: filter_empty_conv)
    qed
    moreover have "projected_loop lib d wanted (length fs) (q + length (payload lib v)) ?acc =
        ?acc @ filter (\<lambda>f. fst f \<in> set wanted) fs \<or> length ?acc = length wanted"
      using Cons.prems(3) by (intro Cons.IH [OF s(7) rest _ sub]) (simp add: s(1))
    ultimately show ?thesis using True by (auto simp: s(1))
  qed
qed simp

lemma map_of_filter_key: "map_of (filter (\<lambda>f. P (fst f)) fs) k = (if P k then map_of fs k else None)"
  by (induction fs) auto

lemma serialize_fields_at:
  "at_pos (a @ serialize_fields lib fs @ b) (length a) (serialize_fields lib fs)"
  by (rule at_pos_self)

lemma read_count:
  assumes "fields_ok lib fs"
  shows "unat (be_u16 (bytes_at (serialize_fields lib fs) 0 2)) = length fs" "2 \<le> length (serialize_fields lib fs)"
    "at_pos (serialize_fields lib fs) 2 (concat (map (field_bytes lib) fs))"
    "\<forall>f \<in> set fs. field_ok lib f" "distinct (map fst fs)"
  using assms by (simp_all add: serialize_fields_bytes bytes_at_def fields_ok_def unat_of_nat_u16 at_pos_def)

text \<open>JSON documents kept as their text.\<close>

definition text_json :: "bytes json_lib" where
  "text_json = \<lparr>js_to_vec = Some, js_from_slice = Some, js_null = []\<rparr>"

definition sample_fields :: "bytes FieldMap" where
  "sample_fields = [([97], VBytes [1, 2]), ([98], VI32 7), ([99], VJson [123, 125])]"

lemma sample_fields_ok: "fields_ok text_json sample_fields"
  by (simp add: fields_ok_def field_ok_def sample_fields_def text_json_def utf8_ok.simps utf8_step_def)

lemma sample_fields_length: "length (serialize_fields text_json sample_fields) = 30"
  by (simp add: serialize_fields_bytes sample_fields_def field_bytes_def len_prefix_def text_json_def)

lemma deserialize_serialize:
  assumes "fields_ok lib fs" "length (serialize_fields lib fs) < 2 ^ 64"
  shows "deserialize_fields lib (serialize_fields lib fs) = Return fs"
proof -
  have "try_deserialize_loop lib (serialize_fields lib fs) (length fs) 2 [] = Inr (fs, 2 + length (concat (map (field_bytes lib) fs)))"
    using try_deserialize_loop_fields [OF read_count(3,4) [OF assms(1)], of "[]"] read_count [OF assms(1)] assms(2) by simp
  from deserialize_loop_of_try [OF this read_count(2) [OF assms(1)]]
  show ?thesis using read_count [OF assms(1)] by (simp add: deserialize_fields_def)
qed

section \<open>Properties\<close>

text \<open>C24: Fields encoded anywhere in a buffer, such as a request frame, are read back by the checked decoder, which also
  stops at the first byte after them; and the decoder of trusted bytes returns them from storage.\<close>

theorem fields_roundtrip:
  assumes "fields_ok lib fs" "length (before @ serialize_fields lib fs @ after) < 2 ^ 64"
  shows "try_deserialize_fields lib (before @ serialize_fields lib fs @ after) (length before) =
      Inr (fs, length before + length (serialize_fields lib fs)) \<and>
    deserialize_fields lib (serialize_fields lib fs) = Return fs"
proof
  show "try_deserialize_fields lib (before @ serialize_fields lib fs @ after) (length before) =
      Inr (fs, length before + length (serialize_fields lib fs))"
    by (rule try_deserialize_fields_at [OF serialize_fields_at assms])
  show "deserialize_fields lib (serialize_fields lib fs) = Return fs"
    using assms by (simp add: deserialize_serialize)
qed

theorem fields_roundtrip_witness:
  "try_deserialize_fields text_json ([9] @ serialize_fields text_json sample_fields @ [8]) (length [9 :: byte]) =
      Inr (sample_fields, 31) \<and>
    deserialize_fields text_json (serialize_fields text_json sample_fields) = Return sample_fields"
  using fields_roundtrip [OF sample_fields_ok, of "[9]" "[8]"] sample_fields_length by simp

text \<open>C40: On encoded fields the four readers that skip what they do not want agree with the whole map: the single
  field, the projection on distinct names, the bytes and the integer.\<close>

theorem field_readers_agree:
  assumes "fields_ok lib fs" "distinct wanted"
  shows "extract_field lib (serialize_fields lib fs) k = map_of fs k \<and>
    map_of (deserialize_fields_projected lib (serialize_fields lib fs) wanted) k =
      (if k \<in> set wanted then map_of fs k else None) \<and>
    find_bytes_field_in_raw (serialize_fields lib fs) k = (case map_of fs k of Some (VBytes b) \<Rightarrow> Some b | _ \<Rightarrow> None) \<and>
    find_u64_field_in_raw (serialize_fields lib fs) k = Option.bind (map_of fs k) as_u64"
proof -
  note r = read_count [OF assms(1)]
  have "wanted \<noteq> [] \<Longrightarrow> projected_loop lib (serialize_fields lib fs) wanted (length fs) 2 [] = filter (\<lambda>f. fst f \<in> set wanted) fs"
    using projected_loop_fields [OF r(3,4), of "[]" wanted] r(5) assms(2) by simp
  then have "deserialize_fields_projected lib (serialize_fields lib fs) wanted = filter (\<lambda>f. fst f \<in> set wanted) fs"
    using r by (auto simp: deserialize_fields_projected_def)
  then show ?thesis
    using r extract_loop_fields [OF r(3,4)] find_bytes_loop_fields [OF r(3,4)] find_u64_loop_fields [OF r(3,4)]
    by (simp add: extract_field_def find_bytes_field_in_raw_def find_u64_field_in_raw_def map_of_filter_key [where P = "\<lambda>n. n \<in> set wanted"])
qed

theorem field_readers_agree_witness:
  "extract_field text_json (serialize_fields text_json sample_fields) [99] = Some (VJson [123, 125]) \<and>
    find_bytes_field_in_raw (serialize_fields text_json sample_fields) [97] = Some [1, 2] \<and>
    find_u64_field_in_raw (serialize_fields text_json sample_fields) [98] = Some 7"
proof -
  note r = field_readers_agree [OF sample_fields_ok, of "[[97]]"]
  have "(scast (7 :: u32) :: u64) = 7" by simp
  then show ?thesis using r [of "[97]"] r [of "[98]"] r [of "[99]"] by (simp add: sample_fields_def)
qed

text \<open>The two encoders write the same bytes.\<close>

theorem encoders_agree:
  "serialize_fields_into lib fs out = out @ serialize_fields lib fs"
  by (simp add: serialize_fields_into_bytes serialize_fields_bytes)

text \<open>C25: On any bytes at all the checked decoder returns fields or an error: it never reaches a slice or an index out of
  range, which would panic. The fields it accepts end inside the buffer, and those it accepts at the start of
  a buffer are the ones the panicking decoder returns: stored bytes that passed the check cannot make a later
  read panic.\<close>

theorem checked_decoder_safe:
  "try_deserialize_fields lib data start \<noteq> Inl FieldPanic \<and>
   (\<forall>m end_pos. try_deserialize_fields lib data start = Inr (m, end_pos) \<longrightarrow>
      end_pos \<le> length data \<and> (start = 0 \<longrightarrow> deserialize_fields lib data = Return m))"
proof (intro conjI allI impI)
  show "try_deserialize_fields lib data start \<noteq> Inl FieldPanic"
    by (auto simp: try_deserialize_fields_def rbind_inl need_inr slice_or_panic_ok try_deserialize_loop_no_panic)
next
  fix m end_pos
  assume "try_deserialize_fields lib data start = Inr (m, end_pos)"
  note s = try_deserialize_fields_accepts [OF this]
  then show "end_pos \<le> length data" by simp
  assume "start = 0"
  then show "deserialize_fields lib data = Return m" using s by (simp add: deserialize_fields_def numeral_2_eq_2)
qed

theorem checked_decoder_safe_witness:
  "try_deserialize_fields text_json (serialize_fields text_json sample_fields) 0 = Inr (sample_fields, 30) \<and>
   deserialize_fields text_json (serialize_fields text_json sample_fields) = Return sample_fields \<and>
   try_deserialize_fields text_json [0, 1, 0, 9, 97] 0 = Inl FieldsTruncated"
proof -
  have "try_deserialize_fields text_json (serialize_fields text_json sample_fields) 0 = Inr (sample_fields, 30)"
    using try_deserialize_fields_at [OF _ sample_fields_ok, of "serialize_fields text_json sample_fields" 0]
      at_pos_self [of "[]" "serialize_fields text_json sample_fields" "[]"] by (simp add: sample_fields_length)
  moreover have "try_deserialize_fields text_json [0, 1, 0, 9, 97] 0 = Inl FieldsTruncated"
    by (simp add: try_deserialize_fields_def need_def slice_or_panic_def bytes_at_def be_u16_def be_nat_def)
  ultimately show ?thesis
    using checked_decoder_safe [of text_json "serialize_fields text_json sample_fields" 0] by simp
qed

end
