(* ===== verification/Text.thy ===== *)
theory Text
  imports Prelude
begin

text \<open>
  Rust text as the parsers of the program see it: a \<^verbatim>\<open>str\<close> is the list of its characters, a \<^verbatim>\<open>char\<close> its
  Unicode code point. Strings compare by their UTF-8 bytes, which is the order of the code points and
  so the lexicographic order of these lists.

  Whether a character beyond ASCII is a letter or a digit is read from the Unicode tables of the
  standard library, which are the parameter \<open>char_tables\<close>; ASCII and white space are written out.
\<close>

type_synonym rchar = nat
type_synonym rtext = "rchar list"

section \<open>Literals\<close>

definition lit :: "string \<Rightarrow> rtext" where
  "lit s = map of_char s"

lemma lit_Nil [simp]: "lit '''' = []"
  by (simp add: lit_def)

lemma lit_Cons: "lit (c # s) = of_char c # lit s"
  by (simp add: lit_def)

lemma length_lit [simp]: "length (lit s) = length s"
  by (simp add: lit_def)

lemma lit_eq_iff [simp]: "lit s = lit t \<longleftrightarrow> s = t"
proof -
  have "inj (of_char :: char \<Rightarrow> nat)" by (rule injI) simp
  then show ?thesis by (simp add: lit_def inj_map_eq_map)
qed

text \<open>A text between single quotes, as in the messages.\<close>

definition squote :: "rtext \<Rightarrow> rtext" where
  "squote t = [39] @ t @ [39]"

section \<open>Characters\<close>

record char_tables =
  u_alphabetic :: "rchar \<Rightarrow> bool"
  u_numeric :: "rchar \<Rightarrow> bool"

definition is_ascii_digit :: "rchar \<Rightarrow> bool" where
  "is_ascii_digit c \<longleftrightarrow> 48 \<le> c \<and> c \<le> 57"

definition is_ascii_alphabetic :: "rchar \<Rightarrow> bool" where
  "is_ascii_alphabetic c \<longleftrightarrow> 65 \<le> c \<and> c \<le> 90 \<or> 97 \<le> c \<and> c \<le> 122"

definition is_ascii_alphanumeric :: "rchar \<Rightarrow> bool" where
  "is_ascii_alphanumeric c \<longleftrightarrow> is_ascii_alphabetic c \<or> is_ascii_digit c"

text \<open>\<^verbatim>\<open>u8::is_ascii_whitespace\<close>, which leaves out the vertical tab.\<close>

definition is_ascii_whitespace :: "rchar \<Rightarrow> bool" where
  "is_ascii_whitespace c \<longleftrightarrow> c = 9 \<or> c = 10 \<or> c = 12 \<or> c = 13 \<or> c = 32"

definition is_alphabetic :: "char_tables \<Rightarrow> rchar \<Rightarrow> bool" where
  "is_alphabetic u c \<longleftrightarrow> (if c < 128 then is_ascii_alphabetic c else u_alphabetic u c)"

definition is_alphanumeric :: "char_tables \<Rightarrow> rchar \<Rightarrow> bool" where
  "is_alphanumeric u c \<longleftrightarrow>
     (if c < 128 then is_ascii_alphanumeric c else u_alphabetic u c \<or> u_numeric u c)"

text \<open>\<^verbatim>\<open>char::is_whitespace\<close>: the code points with the property White\_Space.\<close>

definition is_whitespace :: "rchar \<Rightarrow> bool" where
  "is_whitespace c \<longleftrightarrow> 9 \<le> c \<and> c \<le> 13 \<or> c = 32 \<or> c = 0x85 \<or> c = 0xA0 \<or> c = 0x1680 \<or>
     0x2000 \<le> c \<and> c \<le> 0x200A \<or> c = 0x2028 \<or> c = 0x2029 \<or> c = 0x202F \<or> c = 0x205F \<or> c = 0x3000"

text \<open>No letter or digit is white space, which holds of the Unicode tables.\<close>

definition tables_ok :: "char_tables \<Rightarrow> bool" where
  "tables_ok u \<longleftrightarrow> (\<forall>c \<in> {0x85, 0xA0, 0x1680, 0x2028, 0x2029, 0x202F, 0x205F, 0x3000} \<union> {0x2000..0x200A}.
     \<not> u_alphabetic u c \<and> \<not> u_numeric u c)"

lemma alphanumeric_not_whitespace:
  assumes "tables_ok u" "is_alphanumeric u c"
  shows "\<not> is_whitespace c"
proof
  assume ws: "is_whitespace c"
  show False
  proof (cases "c < 128")
    case True
    then show False using assms(2) ws
      by (auto simp: is_alphanumeric_def is_ascii_alphanumeric_def is_ascii_alphabetic_def is_ascii_digit_def is_whitespace_def)
  next
    case False
    then have "c \<in> {0x85, 0xA0, 0x1680, 0x2028, 0x2029, 0x202F, 0x205F, 0x3000} \<union> {0x2000..0x200A}"
      using ws by (auto simp: is_whitespace_def)
    then have "\<not> u_alphabetic u c \<and> \<not> u_numeric u c" using assms(1) unfolding tables_ok_def by blast
    then show False using False assms(2) by (simp add: is_alphanumeric_def)
  qed
qed

definition ascii_tables :: char_tables where
  "ascii_tables = \<lparr>u_alphabetic = (\<lambda>_. False), u_numeric = (\<lambda>_. False)\<rparr>"

lemma ascii_tables_ok: "tables_ok ascii_tables"
  by (simp add: tables_ok_def ascii_tables_def)

section \<open>Decimal numbers\<close>

text \<open>The digits \<^verbatim>\<open>Display\<close> writes for an unsigned integer, and the value \<^verbatim>\<open>str::parse\<close> gives them.\<close>

fun dec :: "nat \<Rightarrow> rtext" where
  "dec n = (if n < 10 then [48 + n] else dec (n div 10) @ [48 + n mod 10])"

declare dec.simps [simp del]

definition dec_val :: "rtext \<Rightarrow> nat" where
  "dec_val ds = foldl (\<lambda>a d. a * 10 + (d - 48)) 0 ds"

lemma dec_digits: "c \<in> set (dec n) \<Longrightarrow> is_ascii_digit c"
proof (induction n rule: dec.induct)
  case (1 n)
  have "n mod 10 < 10" by simp
  with 1 show ?case by (subst (asm) dec.simps) (auto simp: is_ascii_digit_def split: if_splits)
qed

lemma dec_nonempty [simp]: "dec n \<noteq> []"
  by (subst dec.simps) simp

lemma dec_val_dec [simp]: "dec_val (dec n) = n"
proof (induction n rule: dec.induct)
  case (1 n)
  then show ?case by (subst dec.simps) (simp add: dec_val_def)
qed

section \<open>Searching\<close>

text \<open>\<^verbatim>\<open>str::contains\<close>.\<close>

fun contains_text :: "'a list \<Rightarrow> 'a list \<Rightarrow> bool" where
  "contains_text sub [] = (sub = [])"
| "contains_text sub (c # cs) = (take (length sub) (c # cs) = sub \<or> contains_text sub cs)"

text \<open>\<^verbatim>\<open>Iterator::find_map\<close>.\<close>

fun find_map :: "('a \<Rightarrow> 'b option) \<Rightarrow> 'a list \<Rightarrow> 'b option" where
  "find_map f [] = None"
| "find_map f (x # xs) = (case f x of Some y \<Rightarrow> Some y | None \<Rightarrow> find_map f xs)"

section \<open>UTF-8\<close>

text \<open>The bytes of a string.\<close>

definition utf8_char :: "rchar \<Rightarrow> bytes" where
  "utf8_char c = map of_nat
     (if c < 0x80 then [c]
      else if c < 0x800 then [0xC0 + c div 0x40, 0x80 + c mod 0x40]
      else if c < 0x10000 then [0xE0 + c div 0x1000, 0x80 + c div 0x40 mod 0x40, 0x80 + c mod 0x40]
      else [0xF0 + c div 0x40000, 0x80 + c div 0x1000 mod 0x40, 0x80 + c div 0x40 mod 0x40, 0x80 + c mod 0x40])"

definition utf8 :: "rtext \<Rightarrow> bytes" where
  "utf8 t = concat (map utf8_char t)"

end
