(* ===== verification/Schema.thy ===== *)
theory Schema
  imports Text
begin

text \<open>
  The schema of a database, \<^verbatim>\<open>rhypedb-schema/src/types.rs\<close> and \<^verbatim>\<open>error.rs\<close>, and the validation of
  \<^verbatim>\<open>parser.rs\<close>. A hash map of types is the association list of its entries; the code validates in the
  order of iteration, which decides only which of several errors is reported. \<open>schema_valid\<close> is what a
  validated schema satisfies.
\<close>

section \<open>Types\<close>

datatype ScalarType =
  ST_String | ST_U32 | ST_U64 | ST_I32 | ST_I64 | ST_F32 | ST_F64 | ST_Bool | ST_DateTime | ST_Bytes | ST_Json

record EdgeFieldDef =
  ef_name :: rtext
  ef_scalar_type :: ScalarType

record RelationType =
  target_type :: rtext
  is_many :: bool
  edge_fields :: "EdgeFieldDef list"

record VectorType =
  dimensions :: u32

datatype FieldType = Scalar ScalarType | Relation RelationType | Vector VectorType

datatype OnDeletePolicy = Remove | Cascade | Deny

record InverseDef =
  inv_type_name :: rtext
  inv_field_name :: rtext

datatype IndexType = Hnsw

datatype DistanceMetric = Cosine | L2 | DotProduct

datatype QuantizationType = TurboQuant2Bit | TurboQuant3Bit | TurboQuant4Bit | QuantNone

record IndexDef =
  index_type :: IndexType
  idx_metric :: "DistanceMetric option"
  idx_quantization :: "QuantizationType option"
  idx_m :: "u32 option"
  idx_ef_construction :: "u32 option"

record VectorizeDef =
  vec_source_field :: rtext
  vec_model :: rtext

record FulltextDef =
  ft_analyzer :: rtext
  ft_positions :: bool

definition DEFAULT_ANALYZER :: rtext where
  "DEFAULT_ANALYZER = lit ''simple''"

definition KNOWN_ANALYZERS :: "rtext list" where
  "KNOWN_ANALYZERS = [lit ''simple'', lit ''english'']"

definition fulltext_default :: FulltextDef where
  "fulltext_default = \<lparr>ft_analyzer = DEFAULT_ANALYZER, ft_positions = True\<rparr>"

datatype Directive =
    Unique
  | Indexed
  | OnDelete OnDeletePolicy
  | Inverse InverseDef
  | Index IndexDef
  | Vectorize VectorizeDef
  | Fulltext FulltextDef

record FieldDef =
  fd_name :: rtext
  fd_field_type :: FieldType
  fd_directives :: "Directive list"

definition is_unique :: "FieldDef \<Rightarrow> bool" where
  "is_unique f \<longleftrightarrow> (\<exists>d \<in> set (fd_directives f). d = Unique)"

definition is_indexed :: "FieldDef \<Rightarrow> bool" where
  "is_indexed f \<longleftrightarrow> (\<exists>d \<in> set (fd_directives f). d = Indexed)"

definition fd_on_delete :: "FieldDef \<Rightarrow> OnDeletePolicy option" where
  "fd_on_delete f = find_map (\<lambda>d. case d of OnDelete p \<Rightarrow> Some p | _ \<Rightarrow> None) (fd_directives f)"

definition fd_inverse :: "FieldDef \<Rightarrow> InverseDef option" where
  "fd_inverse f = find_map (\<lambda>d. case d of Inverse i \<Rightarrow> Some i | _ \<Rightarrow> None) (fd_directives f)"

definition fd_vectorize :: "FieldDef \<Rightarrow> VectorizeDef option" where
  "fd_vectorize f = find_map (\<lambda>d. case d of Vectorize v \<Rightarrow> Some v | _ \<Rightarrow> None) (fd_directives f)"

definition fd_fulltext :: "FieldDef \<Rightarrow> FulltextDef option" where
  "fd_fulltext f = find_map (\<lambda>d. case d of Fulltext v \<Rightarrow> Some v | _ \<Rightarrow> None) (fd_directives f)"

definition fd_index :: "FieldDef \<Rightarrow> IndexDef option" where
  "fd_index f = find_map (\<lambda>d. case d of Index v \<Rightarrow> Some v | _ \<Rightarrow> None) (fd_directives f)"

record TypeDef =
  td_name :: rtext
  td_fields :: "FieldDef list"

definition get_field :: "TypeDef \<Rightarrow> rtext \<Rightarrow> FieldDef option" where
  "get_field td name = find (\<lambda>f. fd_name f = name) (td_fields td)"

definition scalar_fields :: "TypeDef \<Rightarrow> FieldDef list" where
  "scalar_fields td = filter (\<lambda>f. case fd_field_type f of Scalar _ \<Rightarrow> True | _ \<Rightarrow> False) (td_fields td)"

definition relationship_fields :: "TypeDef \<Rightarrow> FieldDef list" where
  "relationship_fields td = filter (\<lambda>f. case fd_field_type f of Relation _ \<Rightarrow> True | _ \<Rightarrow> False) (td_fields td)"

definition vector_fields :: "TypeDef \<Rightarrow> FieldDef list" where
  "vector_fields td = filter (\<lambda>f. case fd_field_type f of Vector _ \<Rightarrow> True | _ \<Rightarrow> False) (td_fields td)"

type_synonym Schema = "(rtext \<times> TypeDef) list"

definition get_type :: "Schema \<Rightarrow> rtext \<Rightarrow> TypeDef option" where
  "get_type s name = map_of s name"

definition type_names :: "Schema \<Rightarrow> rtext list" where
  "type_names s = map fst s"

text \<open>The first field of the name changes, in the one entry of the type.\<close>

fun set_field_type :: "FieldDef list \<Rightarrow> rtext \<Rightarrow> FieldType \<Rightarrow> FieldDef list option" where
  "set_field_type [] name ft = None"
| "set_field_type (f # fs) name ft =
     (if fd_name f = name then Some (f\<lparr>fd_field_type := ft\<rparr> # fs)
      else map_option ((#) f) (set_field_type fs name ft))"

definition with_field_type :: "Schema \<Rightarrow> rtext \<Rightarrow> rtext \<Rightarrow> FieldType \<Rightarrow> Schema option" where
  "with_field_type s type_name field_name ft = (case map_of s type_name of
      None \<Rightarrow> None
    | Some td \<Rightarrow> (case set_field_type (td_fields td) field_name ft of
        None \<Rightarrow> None
      | Some fs \<Rightarrow> Some (map (\<lambda>(n, t). if n = type_name then (n, t\<lparr>td_fields := fs\<rparr>) else (n, t)) s)))"

lemma set_field_type_find:
  "set_field_type fs n ft = None \<longleftrightarrow> find (\<lambda>f. fd_name f = n) fs = None"
  "set_field_type fs n ft = Some fs' \<Longrightarrow>
   find (\<lambda>f. fd_name f = k) fs' =
     (if k = n then map_option (\<lambda>f. f\<lparr>fd_field_type := ft\<rparr>) (find (\<lambda>f. fd_name f = n) fs) else find (\<lambda>f. fd_name f = k) fs)"
  by (induction fs arbitrary: fs') auto

text \<open>The change succeeds when the type and the field exist; it replaces the type of that field and nothing else.\<close>

lemma with_field_type_effect:
  "with_field_type s tn fn ft = None \<longleftrightarrow> Option.bind (get_type s tn) (\<lambda>td. get_field td fn) = None"
  "with_field_type s tn fn ft = Some s' \<Longrightarrow>
   Option.bind (get_type s' n) (\<lambda>td. get_field td k) =
     (if n = tn \<and> k = fn then map_option (\<lambda>f. f\<lparr>fd_field_type := ft\<rparr>) (Option.bind (get_type s tn) (\<lambda>td. get_field td fn))
      else Option.bind (get_type s n) (\<lambda>td. get_field td k))"
proof -
  show "with_field_type s tn fn ft = None \<longleftrightarrow> Option.bind (get_type s tn) (\<lambda>td. get_field td fn) = None"
  proof (cases "map_of s tn")
    case (Some td)
    then show ?thesis using set_field_type_find(1) [of "td_fields td" fn ft]
      by (cases "set_field_type (td_fields td) fn ft") (simp_all add: with_field_type_def get_type_def get_field_def)
  qed (simp add: with_field_type_def get_type_def)
  assume "with_field_type s tn fn ft = Some s'"
  then obtain td fs where td: "map_of s tn = Some td" "set_field_type (td_fields td) fn ft = Some fs"
    and s': "s' = map (\<lambda>(n, t). if n = tn then (n, t\<lparr>td_fields := fs\<rparr>) else (n, t)) s"
    by (auto simp: with_field_type_def split: option.splits)
  have "map_of s' n = map_option (\<lambda>t. if n = tn then t\<lparr>td_fields := fs\<rparr> else t) (map_of s n)"
    unfolding s' by (induction s) auto
  then show "Option.bind (get_type s' n) (\<lambda>td. get_field td k) =
     (if n = tn \<and> k = fn then map_option (\<lambda>f. f\<lparr>fd_field_type := ft\<rparr>) (Option.bind (get_type s tn) (\<lambda>td. get_field td fn))
      else Option.bind (get_type s n) (\<lambda>td. get_field td k))"
    using td set_field_type_find(2) [OF td(2)] by (cases "map_of s n") (auto simp: get_type_def get_field_def)
qed

section \<open>Errors\<close>

datatype SchemaError =
    Parse nat nat rtext
  | UnknownType rtext
  | DuplicateType rtext
  | DuplicateField rtext rtext
  | InvalidInverse rtext
  | InvalidOnDelete rtext
  | Validation rtext

section \<open>Validation\<close>

definition dotted :: "rtext \<Rightarrow> rtext \<Rightarrow> rtext" where
  "dotted a b = squote (a @ lit ''.'' @ b)"

definition validate_vectorize :: "TypeDef \<Rightarrow> FieldDef \<Rightarrow> SchemaError + unit" where
  "validate_vectorize td f = (case fd_vectorize f of
      None \<Rightarrow> Inr ()
    | Some v \<Rightarrow>
        if \<not> (case fd_field_type f of Vector _ \<Rightarrow> True | _ \<Rightarrow> False) then
          Inl (Validation (lit ''@vectorize on '' @ dotted (td_name td) (fd_name f) @ lit '' requires a Vector field type''))
        else case get_field td (vec_source_field v) of
          None \<Rightarrow> Inl (Validation (lit ''@vectorize source field '' @ dotted (td_name td) (vec_source_field v) @ lit '' not found''))
        | Some source \<Rightarrow>
            if fd_field_type source \<noteq> Scalar ST_String then
              Inl (Validation (lit ''@vectorize source field '' @ dotted (td_name td) (vec_source_field v) @ lit '' must be a String''))
            else Inr ())"

definition validate_indexed :: "TypeDef \<Rightarrow> FieldDef \<Rightarrow> SchemaError + unit" where
  "validate_indexed td f =
     (if is_indexed f \<and> \<not> (case fd_field_type f of Scalar _ \<Rightarrow> True | _ \<Rightarrow> False) then
        Inl (Validation (lit ''@indexed on '' @ dotted (td_name td) (fd_name f) @ lit '' requires a scalar field''))
      else if is_indexed f \<and> fd_field_type f = Scalar ST_Json then
        Inl (Validation (lit ''@indexed is not supported on '' @ dotted (td_name td) (fd_name f) @
          lit '' (Json has no total order); use @unique for an exact-match constraint, or filter without a secondary index''))
      else Inr ())"

definition validate_fulltext :: "TypeDef \<Rightarrow> FieldDef \<Rightarrow> SchemaError + unit" where
  "validate_fulltext td f =
     (if length (filter (\<lambda>d. case d of Fulltext _ \<Rightarrow> True | _ \<Rightarrow> False) (fd_directives f)) > 1 then
        Inl (Validation (lit ''duplicate @fulltext directive on '' @ dotted (td_name td) (fd_name f)))
      else if fd_fulltext f \<noteq> None \<and> fd_field_type f \<noteq> Scalar ST_String then
        Inl (Validation (lit ''@fulltext on '' @ dotted (td_name td) (fd_name f) @ lit '' requires a String field''))
      else Inr ())"

definition validate_index :: "TypeDef \<Rightarrow> FieldDef \<Rightarrow> SchemaError + unit" where
  "validate_index td f = (case fd_index f of
      None \<Rightarrow> Inr ()
    | Some idx \<Rightarrow>
        let at = lit ''@index on '' @ dotted (td_name td) (fd_name f) in
        if \<not> (case fd_field_type f of Vector _ \<Rightarrow> True | _ \<Rightarrow> False) then
          Inl (Validation (at @ lit '' requires a Vector field type''))
        else if idx_quantization idx = Some QuantNone then
          Inl (Validation (at @ lit '': `quantization: none` is not supported for HNSW vector indexes; omit it for the 4-bit default or use turboquant_2bit/3bit/4bit''))
        else if idx_m idx = Some 0 then Inl (Validation (at @ lit '': `m` must be >= 1''))
        else if idx_ef_construction idx = Some 0 then Inl (Validation (at @ lit '': `ef_construction` must be >= 1''))
        else Inr ())"

definition validate_inverse :: "Schema \<Rightarrow> FieldDef \<Rightarrow> SchemaError + unit" where
  "validate_inverse s f = (case fd_inverse f of
      None \<Rightarrow> Inr ()
    | Some ivd \<Rightarrow> (case get_type s (inv_type_name ivd) of
        None \<Rightarrow> Inl (InvalidInverse (lit ''type '' @ squote (inv_type_name ivd) @ lit '' not found''))
      | Some target \<Rightarrow>
          if get_field target (inv_field_name ivd) = None then
            Inl (InvalidInverse (lit ''field '' @ dotted (inv_type_name ivd) (inv_field_name ivd) @ lit '' not found''))
          else Inr ()))"

text \<open>The body of the loop over the fields; \<open>seen\<close> are the names of the fields before.\<close>

definition validate_field :: "Schema \<Rightarrow> TypeDef \<Rightarrow> rtext list \<Rightarrow> FieldDef \<Rightarrow> SchemaError + unit" where
  "validate_field s td seen f =
     (if fd_name f \<in> set seen then Inl (DuplicateField (td_name td) (fd_name f))
      else if contains_text (lit ''__'') (fd_name f) then
        Inl (Validation (lit ''field '' @ dotted (td_name td) (fd_name f) @
          lit '': names containing `__` are reserved for internal use (engine sidecar keys: `<field>__cover`, `<field>__cover_v`, `<field>__shadow`)''))
      else if (case fd_field_type f of Relation rel \<Rightarrow> target_type rel \<notin> fst ` set s | _ \<Rightarrow> False) then
        Inl (UnknownType (case fd_field_type f of Relation rel \<Rightarrow> target_type rel | _ \<Rightarrow> []))
      else
        rbind (validate_vectorize td f) (\<lambda>_.
        rbind (validate_indexed td f) (\<lambda>_.
        rbind (validate_fulltext td f) (\<lambda>_.
        rbind (validate_index td f) (\<lambda>_.
        validate_inverse s f)))))"

fun validate_fields :: "Schema \<Rightarrow> TypeDef \<Rightarrow> rtext list \<Rightarrow> FieldDef list \<Rightarrow> SchemaError + unit" where
  "validate_fields s td seen [] = Inr ()"
| "validate_fields s td seen (f # fs) =
     rbind (validate_field s td seen f) (\<lambda>_. validate_fields s td (fd_name f # seen) fs)"

fun validate_types :: "Schema \<Rightarrow> TypeDef list \<Rightarrow> SchemaError + unit" where
  "validate_types s [] = Inr ()"
| "validate_types s (td # tds) = rbind (validate_fields s td [] (td_fields td)) (\<lambda>_. validate_types s tds)"

definition validate_schema :: "Schema \<Rightarrow> SchemaError + unit" where
  "validate_schema s = validate_types s (map snd s)"

section \<open>What validation means\<close>

definition field_valid :: "Schema \<Rightarrow> TypeDef \<Rightarrow> FieldDef \<Rightarrow> bool" where
  "field_valid s td f \<longleftrightarrow>
     \<not> contains_text (lit ''__'') (fd_name f) \<and>
     (\<forall>rel. fd_field_type f = Relation rel \<longrightarrow> target_type rel \<in> fst ` set s) \<and>
     (\<forall>v. fd_vectorize f = Some v \<longrightarrow> (\<exists>n. fd_field_type f = Vector n) \<and>
        (\<exists>src. get_field td (vec_source_field v) = Some src \<and> fd_field_type src = Scalar ST_String)) \<and>
     (is_indexed f \<longrightarrow> (\<exists>t. fd_field_type f = Scalar t \<and> t \<noteq> ST_Json)) \<and>
     (\<forall>v. fd_fulltext f = Some v \<longrightarrow> fd_field_type f = Scalar ST_String) \<and>
     length (filter (\<lambda>d. case d of Fulltext _ \<Rightarrow> True | _ \<Rightarrow> False) (fd_directives f)) \<le> 1 \<and>
     (\<forall>idx. fd_index f = Some idx \<longrightarrow> (\<exists>n. fd_field_type f = Vector n) \<and>
        idx_quantization idx \<noteq> Some QuantNone \<and> idx_m idx \<noteq> Some 0 \<and> idx_ef_construction idx \<noteq> Some 0) \<and>
     (\<forall>ivd. fd_inverse f = Some ivd \<longrightarrow>
        (\<exists>t g. get_type s (inv_type_name ivd) = Some t \<and> get_field t (inv_field_name ivd) = Some g))"

definition schema_valid :: "Schema \<Rightarrow> bool" where
  "schema_valid s \<longleftrightarrow> (\<forall>td \<in> snd ` set s. distinct (map fd_name (td_fields td)) \<and> (\<forall>f \<in> set (td_fields td). field_valid s td f))"

lemma validate_field_iff:
  "validate_field s td seen f = Inr () \<longleftrightarrow> fd_name f \<notin> set seen \<and> field_valid s td f"
proof -
  have "validate_vectorize td f = Inr () \<longleftrightarrow> (\<forall>v. fd_vectorize f = Some v \<longrightarrow> (\<exists>n. fd_field_type f = Vector n) \<and>
        (\<exists>src. get_field td (vec_source_field v) = Some src \<and> fd_field_type src = Scalar ST_String))"
    by (auto simp: validate_vectorize_def split: option.splits FieldType.splits)
  moreover have "validate_indexed td f = Inr () \<longleftrightarrow> (is_indexed f \<longrightarrow> (\<exists>t. fd_field_type f = Scalar t \<and> t \<noteq> ST_Json))"
    by (auto simp: validate_indexed_def split: FieldType.splits)
  moreover have "validate_fulltext td f = Inr () \<longleftrightarrow> (\<forall>v. fd_fulltext f = Some v \<longrightarrow> fd_field_type f = Scalar ST_String) \<and>
     length (filter (\<lambda>d. case d of Fulltext _ \<Rightarrow> True | _ \<Rightarrow> False) (fd_directives f)) \<le> 1"
    by (auto simp: validate_fulltext_def)
  moreover have "validate_index td f = Inr () \<longleftrightarrow> (\<forall>idx. fd_index f = Some idx \<longrightarrow> (\<exists>n. fd_field_type f = Vector n) \<and>
        idx_quantization idx \<noteq> Some QuantNone \<and> idx_m idx \<noteq> Some 0 \<and> idx_ef_construction idx \<noteq> Some 0)"
    by (auto simp: validate_index_def Let_def split: option.splits FieldType.splits)
  moreover have "validate_inverse s f = Inr () \<longleftrightarrow> (\<forall>ivd. fd_inverse f = Some ivd \<longrightarrow>
        (\<exists>t g. get_type s (inv_type_name ivd) = Some t \<and> get_field t (inv_field_name ivd) = Some g))"
    by (auto simp: validate_inverse_def split: option.splits)
  moreover have "(case fd_field_type f of Relation rel \<Rightarrow> target_type rel \<notin> fst ` set s | _ \<Rightarrow> False) \<longleftrightarrow>
      \<not> (\<forall>rel. fd_field_type f = Relation rel \<longrightarrow> target_type rel \<in> fst ` set s)"
    by (auto split: FieldType.splits)
  ultimately show ?thesis by (simp add: validate_field_def field_valid_def rbind_inr)
qed

lemma validate_fields_iff:
  "validate_fields s td seen fs = Inr () \<longleftrightarrow>
   distinct (map fd_name fs) \<and> set seen \<inter> fd_name ` set fs = {} \<and> (\<forall>f \<in> set fs. field_valid s td f)"
  by (induction fs arbitrary: seen) (auto simp: rbind_inr validate_field_iff)

lemma validate_types_iff:
  "validate_types s tds = Inr () \<longleftrightarrow>
   (\<forall>td \<in> set tds. distinct (map fd_name (td_fields td)) \<and> (\<forall>f \<in> set (td_fields td). field_valid s td f))"
  by (induction tds) (auto simp: rbind_inr validate_fields_iff)

lemma validate_schema_iff: "validate_schema s = Inr () \<longleftrightarrow> schema_valid s"
  by (simp add: validate_schema_def validate_types_iff schema_valid_def)

text \<open>Validity depends only on the map of types, not on the order of its entries.\<close>

lemma schema_valid_cong:
  assumes "set s = set t" "map_of s = map_of t"
  shows "schema_valid s = schema_valid t"
  using assms by (simp add: schema_valid_def field_valid_def get_type_def)

end
