(* ===== verification/Schema_Parser.thy ===== *)
theory Schema_Parser
  imports Schema
begin

text \<open>
  The parser of schema files, \<^verbatim>\<open>rhypedb-schema/src/parser.rs\<close>. The parser's state is a cursor: the text
  that is left with the line and column for messages; a slice of the input from a start to the current
  position is the text consumed in between. Every loop consumes characters in each round, which is
  the termination proof.
\<close>

section \<open>Cursor\<close>

record cursor =
  c_rest :: rtext
  c_line :: nat
  c_col :: nat

definition parser_new :: "rtext \<Rightarrow> cursor" where
  "parser_new input = \<lparr>c_rest = input, c_line = 1, c_col = 1\<rparr>"

definition is_eof :: "cursor \<Rightarrow> bool" where
  "is_eof s \<longleftrightarrow> c_rest s = []"

definition peek :: "cursor \<Rightarrow> rchar option" where
  "peek s = (case c_rest s of [] \<Rightarrow> None | c # _ \<Rightarrow> Some c)"

definition advance :: "cursor \<Rightarrow> rchar option \<times> cursor" where
  "advance s = (case c_rest s of
      [] \<Rightarrow> (None, s)
    | ch # r \<Rightarrow> (Some ch,
        if ch = 10 then \<lparr>c_rest = r, c_line = c_line s + 1, c_col = 1\<rparr>
        else \<lparr>c_rest = r, c_line = c_line s, c_col = c_col s + 1\<rparr>))"

text \<open>Text left in a cursor.\<close>

definition left :: "cursor \<Rightarrow> nat" where
  "left s = length (c_rest s)"

lemma advance_Some: "advance s = (Some c, t) \<Longrightarrow> c_rest s = c # c_rest t"
  by (auto simp: advance_def split: list.splits if_splits)

lemma advance_None: "advance s = (None, t) \<Longrightarrow> c_rest s = [] \<and> t = s"
  by (auto simp: advance_def split: list.splits)

lemma left_advance: "advance s = (Some c, t) \<Longrightarrow> left t < left s"
  by (drule advance_Some) (simp add: left_def)

lemma left_snd_advance: "left (snd (advance s)) \<le> left s" "peek s = Some c \<Longrightarrow> left (snd (advance s)) < left s"
  by (auto simp: advance_def left_def peek_def split: list.splits)

function skip_line :: "cursor \<Rightarrow> cursor" where
  "skip_line s = (case advance s of
      (None, t) \<Rightarrow> t
    | (Some c, t) \<Rightarrow> if c = 10 then t else skip_line t)"
  by pat_completeness auto

termination
  by (relation "measure left") (auto dest: left_advance [OF sym])

declare skip_line.simps [simp del]

lemma left_skip_line: "left (skip_line s) \<le> left s" "peek s \<noteq> None \<Longrightarrow> left (skip_line s) < left s"
proof -
  show le: "left (skip_line s) \<le> left s" for s
  proof (induction s rule: skip_line.induct)
    case (1 s)
    obtain o1 t where a: "advance s = (o1, t)" by (cases "advance s")
    show ?case
    proof (cases o1)
      case None
      then show ?thesis using a by (subst skip_line.simps) (auto dest: advance_None)
    next
      case (Some c)
      then have "left t < left s" using a left_advance by simp
      moreover have "c \<noteq> 10 \<Longrightarrow> left (skip_line t) \<le> left t" using 1 [OF a [symmetric] Some] by simp
      ultimately show ?thesis using a Some by (subst skip_line.simps) auto
    qed
  qed
  assume "peek s \<noteq> None"
  then obtain c t where a: "advance s = (Some c, t)" by (auto simp: peek_def advance_def split: list.splits)
  show "left (skip_line s) < left s"
    using le [of t] left_advance [OF a] by (subst skip_line.simps) (auto simp: a)
qed

function skip_whitespace :: "cursor \<Rightarrow> cursor" where
  "skip_whitespace s = (case peek s of
      None \<Rightarrow> s
    | Some ch \<Rightarrow>
        if is_whitespace ch then skip_whitespace (snd (advance s))
        else if ch = 47 \<and> take 2 (c_rest s) = [47, 47] then skip_whitespace (skip_line s)
        else s)"
  by pat_completeness auto

termination
  by (relation "measure left") (auto simp: left_snd_advance(2) left_skip_line(2))

declare skip_whitespace.simps [simp del]

lemma left_skip_whitespace: "left (skip_whitespace s) \<le> left s"
proof (induction s rule: skip_whitespace.induct)
  case (1 s)
  then show ?case
    using left_snd_advance(1) [of s] left_skip_line(1) [of s]
    by (subst skip_whitespace.simps) (auto split: option.splits intro: order_trans)
qed

section \<open>Tokens\<close>

definition parse_error :: "cursor \<Rightarrow> rtext \<Rightarrow> SchemaError" where
  "parse_error s message = Parse (c_line s) (c_col s) message"

definition expect :: "rchar \<Rightarrow> cursor \<Rightarrow> SchemaError + unit \<times> cursor" where
  "expect expected s = (case advance (skip_whitespace s) of
      (Some ch, t) \<Rightarrow>
        if ch = expected then Inr ((), t)
        else Inl (parse_error t (lit ''expected '' @ squote [expected] @ lit '', got '' @ squote [ch]))
    | (None, t) \<Rightarrow> Inl (parse_error t (lit ''expected '' @ squote [expected] @ lit '', got EOF'')))"

text \<open>The characters a \<^verbatim>\<open>while let Some(ch) = self.peek()\<close> loop advances over.\<close>

function take_chars :: "(rchar \<Rightarrow> bool) \<Rightarrow> cursor \<Rightarrow> rtext \<times> cursor" where
  "take_chars P s = (case peek s of
      None \<Rightarrow> ([], s)
    | Some ch \<Rightarrow>
        if P ch then (let (w, t) = take_chars P (snd (advance s)) in (ch # w, t))
        else ([], s))"
  by pat_completeness auto

termination
  by (relation "measure (\<lambda>(P, s). left s)") (auto simp: left_snd_advance(2))

declare take_chars.simps [simp del]

lemma take_chars_rest: "take_chars P s = (w, t) \<Longrightarrow> c_rest s = w @ c_rest t \<and> w = takeWhile P (c_rest s)"
proof (induction P s arbitrary: w t rule: take_chars.induct)
  case (1 P s)
  show ?case
  proof (cases "c_rest s")
    case Nil
    then have "peek s = None" by (simp add: peek_def)
    then show ?thesis using 1(2) Nil by (subst (asm) take_chars.simps) auto
  next
    case (Cons c r)
    then have pk: "peek s = Some c" and adv: "c_rest (snd (advance s)) = r" by (simp_all add: peek_def advance_def)
    show ?thesis
    proof (cases "P c")
      case False
      then show ?thesis using 1(2) Cons pk by (subst (asm) take_chars.simps) auto
    next
      case True
      obtain w1 t1 where "take_chars P (snd (advance s)) = (w1, t1)" by (cases "take_chars P (snd (advance s))")
      with 1 True pk Cons adv show ?thesis by (subst (asm) (2) take_chars.simps) auto
    qed
  qed
qed

definition ident_char :: "char_tables \<Rightarrow> rchar \<Rightarrow> bool" where
  "ident_char u ch \<longleftrightarrow> is_alphanumeric u ch \<or> ch = 95"

definition parse_ident :: "char_tables \<Rightarrow> cursor \<Rightarrow> SchemaError + rtext \<times> cursor" where
  "parse_ident u s =
     (let (w, t) = take_chars (ident_char u) (skip_whitespace s) in
      if w = [] then Inl (parse_error t (lit ''expected identifier'')) else Inr (w, t))"

text \<open>A number that does not fit 32 bits is an error.\<close>

definition parse_u32 :: "cursor \<Rightarrow> SchemaError + u32 \<times> cursor" where
  "parse_u32 s =
     (let (w, t) = take_chars is_ascii_digit (skip_whitespace s) in
      if w = [] then Inl (parse_error t (lit ''expected number''))
      else if dec_val w < 2 ^ 32 then Inr (of_nat (dec_val w), t)
      else Inl (parse_error t (lit ''invalid number'')))"

definition parse_string_value :: "cursor \<Rightarrow> SchemaError + rtext \<times> cursor" where
  "parse_string_value s =
     rbind (expect 34 (skip_whitespace s)) (\<lambda>(_, s1).
     let (w, t) = take_chars (\<lambda>c. c \<noteq> 34) s1 in
     if peek t = Some 34 then Inr (w, snd (advance t)) else Inl (parse_error t (lit ''unterminated string'')))"

definition parse_bool_value :: "char_tables \<Rightarrow> cursor \<Rightarrow> SchemaError + bool \<times> cursor" where
  "parse_bool_value u s =
     (let s1 = skip_whitespace s;
          bad = (\<lambda>t found. Inl (parse_error t (lit ''expected `true` or `false`, found `'' @ found @ lit ''`''))) in
      case peek s1 of
        None \<Rightarrow> bad s1 []
      | Some c \<Rightarrow>
          if \<not> is_alphabetic u c then bad s1 [c]
          else rbind (parse_ident u s1) (\<lambda>(word, t).
            if word = lit ''true'' then Inr (True, t)
            else if word = lit ''false'' then Inr (False, t)
            else bad t word))"

definition parse_scalar_type :: "rtext \<Rightarrow> ScalarType option" where
  "parse_scalar_type name =
     (if name = lit ''String'' then Some ST_String
      else if name = lit ''u32'' then Some ST_U32
      else if name = lit ''u64'' then Some ST_U64
      else if name = lit ''i32'' then Some ST_I32
      else if name = lit ''i64'' then Some ST_I64
      else if name = lit ''f32'' then Some ST_F32
      else if name = lit ''f64'' then Some ST_F64
      else if name = lit ''Bool'' then Some ST_Bool
      else if name = lit ''DateTime'' then Some ST_DateTime
      else if name = lit ''Bytes'' then Some ST_Bytes
      else if name = lit ''Json'' then Some ST_Json
      else None)"

section \<open>What the tokens consume\<close>

named_theorems consume \<open>a successful parser leaves less text\<close>

lemma expect_left [consume]: "expect c s = Inr (x, t) \<Longrightarrow> left t < left s"
proof -
  assume e: "expect c s = Inr (x, t)"
  then have "advance (skip_whitespace s) = (Some c, t)"
    by (cases "advance (skip_whitespace s)") (auto simp: expect_def split: option.splits if_splits)
  with left_advance left_skip_whitespace [of s] show ?thesis by fastforce
qed

lemma take_chars_left: "take_chars P s = (w, t) \<Longrightarrow> left t \<le> left s \<and> (w \<noteq> [] \<longrightarrow> left t < left s)"
  by (drule take_chars_rest [THEN conjunct1]) (simp add: left_def)

lemma parse_ident_inr:
  "parse_ident u s = Inr (x, t) \<longleftrightarrow> take_chars (ident_char u) (skip_whitespace s) = (x, t) \<and> x \<noteq> []"
  by (cases "take_chars (ident_char u) (skip_whitespace s)") (auto simp: parse_ident_def)

lemma parse_u32_inr:
  "parse_u32 s = Inr (x, t) \<longleftrightarrow>
   (\<exists>w. take_chars is_ascii_digit (skip_whitespace s) = (w, t) \<and> w \<noteq> [] \<and> dec_val w < 2 ^ 32 \<and> x = of_nat (dec_val w))"
  by (cases "take_chars is_ascii_digit (skip_whitespace s)") (auto simp: parse_u32_def)

lemma parse_ident_left [consume]: "parse_ident u s = Inr (x, t) \<Longrightarrow> left t < left s"
  using take_chars_left [of "ident_char u" "skip_whitespace s" x t] left_skip_whitespace [of s] by (simp add: parse_ident_inr)

lemma parse_u32_left [consume]: "parse_u32 s = Inr (x, t) \<Longrightarrow> left t < left s"
  using take_chars_left [of is_ascii_digit "skip_whitespace s" _ t] left_skip_whitespace [of s]
  by (fastforce simp: parse_u32_inr)

lemma parse_string_value_left [consume]: "parse_string_value s = Inr (x, t) \<Longrightarrow> left t < left s"
proof -
  assume p: "parse_string_value s = Inr (x, t)"
  then obtain s1 where e: "expect 34 (skip_whitespace s) = Inr ((), s1)"
    by (auto simp: parse_string_value_def rbind_inr)
  obtain w t1 where w: "take_chars (\<lambda>c. c \<noteq> 34) s1 = (w, t1)" by (cases "take_chars (\<lambda>c. c \<noteq> 34) s1")
  have "t = snd (advance t1)" using p by (auto simp: parse_string_value_def e w split: if_splits)
  with expect_left [of 34 "skip_whitespace s" "()" s1] left_skip_whitespace [of s] left_snd_advance(1) [of t1]
    take_chars_left [OF w] e
  show ?thesis by simp
qed

lemma parse_bool_value_left [consume]: "parse_bool_value u s = Inr (x, t) \<Longrightarrow> left t < left s"
  using left_skip_whitespace [of s]
  by (auto simp: parse_bool_value_def Let_def rbind_inr dest!: parse_ident_left split: option.splits if_splits)

section \<open>Loops up to a closing character\<close>

text \<open>
  The loops of the parser have one shape: skip white space, stop after the closing character, else
  run the body and go on. What holds of such a loop is proved once.
\<close>

lemma consume_after_ws: "left t < left (skip_whitespace s) \<Longrightarrow> left t < left s"
  using left_skip_whitespace [of s] by simp

locale closing_loop =
  fixes close :: rchar
    and body :: "'a \<Rightarrow> cursor \<Rightarrow> SchemaError + 'a \<times> cursor"
    and loop :: "'a \<Rightarrow> cursor \<Rightarrow> SchemaError + 'a \<times> cursor"
  assumes loop_unfold: "loop a s =
      (let s1 = skip_whitespace s in
       if peek s1 = Some close then Inr (a, snd (advance s1))
       else rbind (body a s1) (\<lambda>(a', s2). loop a' s2))"
    and body_left: "body a s = Inr (b, t) \<Longrightarrow> left t < left s"
begin

lemma loop_cases:
  assumes "loop a s = Inr (b, t)"
  obtains "peek (skip_whitespace s) = Some close" "b = a" "t = snd (advance (skip_whitespace s))"
    | a' s2 where "body a (skip_whitespace s) = Inr (a', s2)" "loop a' s2 = Inr (b, t)"
  using assms by (subst (asm) loop_unfold) (auto simp: Let_def rbind_inr split: if_splits)

lemma loop_left: "loop a s = Inr (b, t) \<Longrightarrow> left t < left s"
proof (induction "left s" arbitrary: a s rule: less_induct)
  case less
  from less.prems show ?case
  proof (cases rule: loop_cases)
    case 1
    then show ?thesis using left_snd_advance(2) [OF 1(1)] left_skip_whitespace [of s] by simp
  next
    case (2 a' s2)
    then have "left s2 < left s" using body_left consume_after_ws by blast
    then show ?thesis using less.hyps [OF _ 2(2)] by simp
  qed
qed

text \<open>What the body keeps, the loop keeps.\<close>

lemma loop_keeps:
  assumes "loop a s = Inr (b, t)" "P a" "\<And>a s b t. body a s = Inr (b, t) \<Longrightarrow> P a \<Longrightarrow> P b"
  shows "P b"
  using assms(1,2)
proof (induction "left s" arbitrary: a s rule: less_induct)
  case less
  from less.prems(1) show ?case
  proof (cases rule: loop_cases)
    case 1
    then show ?thesis using less.prems(2) by simp
  next
    case (2 a' s2)
    then have "left s2 < left s" using body_left consume_after_ws by blast
    then show ?thesis using less.hyps [OF _ 2(2)] assms(3) [OF 2(1) less.prems(2)] by simp
  qed
qed

end

section \<open>Field types\<close>

definition parse_field_type :: "char_tables \<Rightarrow> cursor \<Rightarrow> SchemaError + FieldType \<times> cursor" where
  "parse_field_type u s =
     (let s0 = skip_whitespace s in
      if peek s0 = Some 91 then
        rbind (parse_ident u (snd (advance s0))) (\<lambda>(inner, s1).
        rbind (expect 93 s1) (\<lambda>(_, s2).
        Inr (Relation \<lparr>target_type = inner, is_many = True, edge_fields = []\<rparr>, s2)))
      else
        rbind (parse_ident u s0) (\<lambda>(type_name, s1).
        if type_name = lit ''Vector'' then
          rbind (expect 60 s1) (\<lambda>(_, s2).
          rbind (parse_u32 s2) (\<lambda>(dims, s3).
          rbind (expect 62 s3) (\<lambda>(_, s4).
          Inr (Vector \<lparr>dimensions = dims\<rparr>, s4))))
        else case parse_scalar_type type_name of
          Some scalar \<Rightarrow> Inr (Scalar scalar, s1)
        | None \<Rightarrow> Inr (Relation \<lparr>target_type = type_name, is_many = False, edge_fields = []\<rparr>, s1)))"

lemma parse_field_type_left [consume]: "parse_field_type u s = Inr (x, t) \<Longrightarrow> left t < left s"
  using left_skip_whitespace [of s] left_snd_advance(1) [of "skip_whitespace s"]
  by (auto simp: parse_field_type_def Let_def rbind_inr dest!: consume split: if_splits option.splits)

text \<open>The comma between edge fields is optional, also after the last one.\<close>

definition edge_field :: "char_tables \<Rightarrow> cursor \<Rightarrow> SchemaError + EdgeFieldDef \<times> cursor" where
  "edge_field u s =
     rbind (parse_ident u s) (\<lambda>(name, s1).
     rbind (expect 58 s1) (\<lambda>(_, s2).
     rbind (parse_ident u s2) (\<lambda>(type_name, s3).
     case parse_scalar_type type_name of
       None \<Rightarrow> Inl (parse_error s3 (lit ''edge field must be a scalar type, got '' @ squote type_name))
     | Some scalar_type \<Rightarrow>
         let s4 = skip_whitespace s3 in
         Inr (\<lparr>ef_name = name, ef_scalar_type = scalar_type\<rparr>, if peek s4 = Some 44 then snd (advance s4) else s4))))"

lemma edge_field_left [consume]: "edge_field u s = Inr (x, t) \<Longrightarrow> left t < left s"
proof -
  assume "edge_field u s = Inr (x, t)"
  then obtain n s1 s2 y s3 where "parse_ident u s = Inr (n, s1)" "expect 58 s1 = Inr ((), s2)" "parse_ident u s2 = Inr (y, s3)"
      "t = (let s4 = skip_whitespace s3 in if peek s4 = Some 44 then snd (advance s4) else s4)"
    by (auto simp: edge_field_def rbind_inr Let_def split: option.splits)
  moreover from this have "left t \<le> left s3"
    using left_skip_whitespace [of s3] left_snd_advance(1) [of "skip_whitespace s3"] by (auto simp: Let_def)
  ultimately show ?thesis by (auto dest!: consume)
qed

definition push_edge_field ::
    "char_tables \<Rightarrow> EdgeFieldDef list \<Rightarrow> cursor \<Rightarrow> SchemaError + EdgeFieldDef list \<times> cursor" where
  "push_edge_field u fs s = rbind (edge_field u s) (\<lambda>(f, s1). Inr (fs @ [f], s1))"

lemma push_edge_field_left: "push_edge_field u fs s = Inr (x, t) \<Longrightarrow> left t < left s"
  by (auto simp: push_edge_field_def rbind_inr dest: edge_field_left)

function edge_fields_loop ::
    "char_tables \<Rightarrow> EdgeFieldDef list \<Rightarrow> cursor \<Rightarrow> SchemaError + EdgeFieldDef list \<times> cursor" where
  "edge_fields_loop u fs s =
     (let s1 = skip_whitespace s in
      if peek s1 = Some 125 then Inr (fs, snd (advance s1))
      else rbind (push_edge_field u fs s1) (\<lambda>(fs', s2). edge_fields_loop u fs' s2))"
  by pat_completeness auto

termination
  by (relation "measure (\<lambda>(u, fs, s). left s)") (auto dest!: push_edge_field_left consume_after_ws)

declare edge_fields_loop.simps [simp del]

interpretation edge_loop: closing_loop 125 "push_edge_field u" "edge_fields_loop u" for u
  by unfold_locales (fact edge_fields_loop.simps, fact push_edge_field_left)

definition parse_edge_fields :: "char_tables \<Rightarrow> cursor \<Rightarrow> SchemaError + EdgeFieldDef list \<times> cursor" where
  "parse_edge_fields u s = rbind (expect 123 s) (\<lambda>(_, s1). edge_fields_loop u [] s1)"

section \<open>Directives\<close>

text \<open>The match on the name of a parameter.\<close>

definition index_value :: "char_tables \<Rightarrow> IndexDef \<Rightarrow> rtext \<Rightarrow> cursor \<Rightarrow> SchemaError + IndexDef \<times> cursor" where
  "index_value u idx key s3 =
     (if key = lit ''metric'' then
       rbind (parse_ident u s3) (\<lambda>(val, s4).
       if val = lit ''cosine'' then Inr (idx\<lparr>idx_metric := Some Cosine\<rparr>, s4)
       else if val = lit ''l2'' then Inr (idx\<lparr>idx_metric := Some L2\<rparr>, s4)
       else if val = lit ''dot_product'' then Inr (idx\<lparr>idx_metric := Some DotProduct\<rparr>, s4)
       else Inl (parse_error s4 (lit ''unknown metric: '' @ val)))
     else if key = lit ''quantization'' then
       rbind (parse_ident u s3) (\<lambda>(val, s4).
       if val = lit ''turboquant_2bit'' then Inr (idx\<lparr>idx_quantization := Some TurboQuant2Bit\<rparr>, s4)
       else if val = lit ''turboquant_3bit'' then Inr (idx\<lparr>idx_quantization := Some TurboQuant3Bit\<rparr>, s4)
       else if val = lit ''turboquant_4bit'' then Inr (idx\<lparr>idx_quantization := Some TurboQuant4Bit\<rparr>, s4)
       else if val = lit ''none'' then Inr (idx\<lparr>idx_quantization := Some QuantNone\<rparr>, s4)
       else Inl (parse_error s4 (lit ''unknown quantization: '' @ val)))
     else if key = lit ''m'' then rbind (parse_u32 s3) (\<lambda>(n, s4). Inr (idx\<lparr>idx_m := Some n\<rparr>, s4))
     else if key = lit ''ef_construction'' then
       rbind (parse_u32 s3) (\<lambda>(n, s4). Inr (idx\<lparr>idx_ef_construction := Some n\<rparr>, s4))
     else Inl (parse_error s3 (lit ''unknown index parameter: '' @ key)))"

definition index_param :: "char_tables \<Rightarrow> IndexDef \<Rightarrow> cursor \<Rightarrow> SchemaError + IndexDef \<times> cursor" where
  "index_param u idx s =
     rbind (expect 44 s) (\<lambda>(_, s1).
     rbind (parse_ident u s1) (\<lambda>(key, s2).
     rbind (expect 58 s2) (\<lambda>(_, s3).
     index_value u idx key s3)))"

lemma index_param_left [consume]: "index_param u idx s = Inr (x, t) \<Longrightarrow> left t < left s"
  by (auto simp: index_param_def index_value_def rbind_inr dest!: consume split: if_splits)

function index_params :: "char_tables \<Rightarrow> IndexDef \<Rightarrow> cursor \<Rightarrow> SchemaError + IndexDef \<times> cursor" where
  "index_params u idx s =
     (let s1 = skip_whitespace s in
      if peek s1 = Some 41 then Inr (idx, snd (advance s1))
      else rbind (index_param u idx s1) (\<lambda>(idx', s2). index_params u idx' s2))"
  by pat_completeness auto

termination
  by (relation "measure (\<lambda>(u, idx, s). left s)") (auto dest!: index_param_left consume_after_ws)

declare index_params.simps [simp del]

interpretation index_loop: closing_loop 41 "index_param u" "index_params u" for u
  by unfold_locales (fact index_params.simps, fact index_param_left)

text \<open>The source and model of \<^verbatim>\<open>@vectorize\<close> read so far.\<close>

definition vectorize_param ::
    "char_tables \<Rightarrow> rtext option \<times> rtext option \<Rightarrow> cursor \<Rightarrow> SchemaError + (rtext option \<times> rtext option) \<times> cursor" where
  "vectorize_param u sm s =
     rbind (if fst sm \<noteq> None \<or> snd sm \<noteq> None then expect 44 s else Inr ((), s)) (\<lambda>(_, s1).
     rbind (parse_ident u s1) (\<lambda>(key, s2).
     rbind (expect 58 s2) (\<lambda>(_, s3).
     if key = lit ''source'' then
       rbind (parse_string_value (skip_whitespace s3)) (\<lambda>(val, s4). Inr ((Some val, snd sm), s4))
     else if key = lit ''model'' then
       rbind (parse_string_value (skip_whitespace s3)) (\<lambda>(val, s4). Inr ((fst sm, Some val), s4))
     else Inl (parse_error s3 (lit ''unknown @vectorize parameter: '' @ key)))))"

lemma vectorize_param_left [consume]: "vectorize_param u sm s = Inr (x, t) \<Longrightarrow> left t < left s"
  by (auto simp: vectorize_param_def rbind_inr dest!: consume consume_after_ws split: if_splits)

function vectorize_params ::
    "char_tables \<Rightarrow> rtext option \<times> rtext option \<Rightarrow> cursor \<Rightarrow> SchemaError + (rtext option \<times> rtext option) \<times> cursor" where
  "vectorize_params u sm s =
     (let s1 = skip_whitespace s in
      if peek s1 = Some 41 then Inr (sm, snd (advance s1))
      else rbind (vectorize_param u sm s1) (\<lambda>(sm', s2). vectorize_params u sm' s2))"
  by pat_completeness auto

termination
  by (relation "measure (\<lambda>(u, sm, s). left s)") (auto dest!: vectorize_param_left consume_after_ws)

declare vectorize_params.simps [simp del]

interpretation vectorize_loop: closing_loop 41 "vectorize_param u" "vectorize_params u" for u
  by unfold_locales (fact vectorize_params.simps, fact vectorize_param_left)

text \<open>The definition so far and which of its parameters were seen.\<close>

type_synonym fulltext_state = "FulltextDef \<times> bool \<times> bool"

definition fulltext_param :: "char_tables \<Rightarrow> fulltext_state \<Rightarrow> cursor \<Rightarrow> SchemaError + fulltext_state \<times> cursor" where
  "fulltext_param u st s = (case st of (def, seen_analyzer, seen_positions) \<Rightarrow>
     rbind (if seen_analyzer \<or> seen_positions then expect 44 s else Inr ((), s)) (\<lambda>(_, s1).
     rbind (parse_ident u s1) (\<lambda>(key, s2).
     rbind (expect 58 s2) (\<lambda>(_, s3).
     if key = lit ''analyzer'' then
       if seen_analyzer then Inl (parse_error s3 (lit ''duplicate @fulltext parameter: analyzer''))
       else rbind (parse_string_value s3) (\<lambda>(name, s4).
         if name \<notin> set KNOWN_ANALYZERS then
           Inl (parse_error s4 (lit ''unknown @fulltext analyzer: \"'' @ name @ lit ''\" (known: simple, english)''))
         else Inr ((def\<lparr>ft_analyzer := name\<rparr>, True, seen_positions), s4))
     else if key = lit ''positions'' then
       if seen_positions then Inl (parse_error s3 (lit ''duplicate @fulltext parameter: positions''))
       else rbind (parse_bool_value u s3) (\<lambda>(b, s4). Inr ((def\<lparr>ft_positions := b\<rparr>, seen_analyzer, True), s4))
     else Inl (parse_error s3 (lit ''unknown @fulltext parameter: '' @ key))))))"

lemma fulltext_param_left [consume]: "fulltext_param u st s = Inr (x, t) \<Longrightarrow> left t < left s"
  by (auto simp: fulltext_param_def rbind_inr dest!: consume split: if_splits prod.splits)

function fulltext_params :: "char_tables \<Rightarrow> fulltext_state \<Rightarrow> cursor \<Rightarrow> SchemaError + fulltext_state \<times> cursor" where
  "fulltext_params u st s =
     (let s1 = skip_whitespace s in
      if peek s1 = Some 41 then Inr (st, snd (advance s1))
      else rbind (fulltext_param u st s1) (\<lambda>(st', s2). fulltext_params u st' s2))"
  by pat_completeness auto

termination
  by (relation "measure (\<lambda>(u, st, s). left s)") (auto dest!: fulltext_param_left consume_after_ws)

declare fulltext_params.simps [simp del]

interpretation fulltext_loop: closing_loop 41 "fulltext_param u" "fulltext_params u" for u
  by unfold_locales (fact fulltext_params.simps, fact fulltext_param_left)

lemmas loops_left [consume] = edge_loop.loop_left index_loop.loop_left vectorize_loop.loop_left fulltext_loop.loop_left

definition vectorize_def :: "rtext option \<times> rtext option \<Rightarrow> cursor \<Rightarrow> SchemaError + Directive \<times> cursor" where
  "vectorize_def sm s = (case sm of
      (None, _) \<Rightarrow> Inl (parse_error s (lit ''@vectorize requires '' @ squote (lit ''source'') @ lit '' parameter''))
    | (Some _, None) \<Rightarrow> Inl (parse_error s (lit ''@vectorize requires '' @ squote (lit ''model'') @ lit '' parameter''))
    | (Some source_field, Some model) \<Rightarrow> Inr (Vectorize \<lparr>vec_source_field = source_field, vec_model = model\<rparr>, s))"

lemma vectorize_def_inr: "vectorize_def sm s = Inr (d, t) \<longleftrightarrow>
    (\<exists>a b. sm = (Some a, Some b) \<and> d = Vectorize \<lparr>vec_source_field = a, vec_model = b\<rparr> \<and> t = s)"
  by (cases sm) (auto simp: vectorize_def_def split: option.splits)

text \<open>The match on the name of a directive.\<close>

definition directive_named :: "char_tables \<Rightarrow> rtext \<Rightarrow> cursor \<Rightarrow> SchemaError + Directive \<times> cursor" where
  "directive_named u name s1 =
    (if name = lit ''unique'' then Inr (Unique, s1)
     else if name = lit ''indexed'' then Inr (Indexed, s1)
     else if name = lit ''on_delete'' then
       rbind (expect 40 s1) (\<lambda>(_, s2).
       rbind (parse_ident u s2) (\<lambda>(policy_name, s3).
       rbind (expect 41 s3) (\<lambda>(_, s4).
       if policy_name = lit ''remove'' then Inr (OnDelete Remove, s4)
       else if policy_name = lit ''cascade'' then Inr (OnDelete Cascade, s4)
       else if policy_name = lit ''deny'' then Inr (OnDelete Deny, s4)
       else Inl (InvalidOnDelete policy_name))))
     else if name = lit ''inverse'' then
       rbind (expect 40 s1) (\<lambda>(_, s2).
       rbind (parse_ident u s2) (\<lambda>(tn, s3).
       rbind (expect 46 s3) (\<lambda>(_, s4).
       rbind (parse_ident u s4) (\<lambda>(fld, s5).
       rbind (expect 41 s5) (\<lambda>(_, s6).
       Inr (Inverse \<lparr>inv_type_name = tn, inv_field_name = fld\<rparr>, s6))))))
     else if name = lit ''index'' then
       rbind (expect 40 s1) (\<lambda>(_, s2).
       rbind (parse_ident u s2) (\<lambda>(index_type_name, s3).
       if index_type_name = lit ''hnsw'' then
         rbind (index_params u \<lparr>index_type = Hnsw, idx_metric = None, idx_quantization = None, idx_m = None,
           idx_ef_construction = None\<rparr> s3) (\<lambda>(idx, s4). Inr (Index idx, s4))
       else Inl (parse_error s3 (lit ''unknown index type: '' @ index_type_name))))
     else if name = lit ''vectorize'' then
       rbind (expect 40 s1) (\<lambda>(_, s2).
       rbind (vectorize_params u (None, None) s2) (\<lambda>(sm, s3). vectorize_def sm s3))
     else if name = lit ''fulltext'' then
       (let s2 = skip_whitespace s1 in
        if peek s2 \<noteq> Some 40 then Inr (Fulltext fulltext_default, s2)
        else rbind (fulltext_params u (fulltext_default, False, False) (snd (advance s2))) (\<lambda>(st, s3).
          Inr (Fulltext (fst st), s3)))
     else Inl (parse_error s1 (lit ''unknown directive: @'' @ name)))"

definition parse_directive :: "char_tables \<Rightarrow> cursor \<Rightarrow> SchemaError + Directive \<times> cursor" where
  "parse_directive u s = rbind (parse_ident u s) (\<lambda>(name, s1). directive_named u name s1)"

section \<open>Fields, types and schemas\<close>

lemma left_advance_ws: "left (snd (advance (skip_whitespace s))) \<le> left s"
  using left_snd_advance(1) [of "skip_whitespace s"] left_skip_whitespace [of s] by simp

lemma parse_directive_left [consume]:
  assumes "parse_directive u s = Inr (x, t)"
  shows "left t < left s"
proof -
  from assms obtain name s1 where n: "parse_ident u s = Inr (name, s1)" by (auto simp: parse_directive_def rbind_inr)
  have "left t \<le> left s1"
    using assms left_skip_whitespace [of s1] left_advance_ws [of s1]
    by (auto simp: parse_directive_def directive_named_def n Let_def rbind_inr vectorize_def_inr dest!: consume split: if_splits)
  then show ?thesis using parse_ident_left [OF n] by simp
qed

function directives_loop :: "char_tables \<Rightarrow> Directive list \<Rightarrow> cursor \<Rightarrow> SchemaError + Directive list \<times> cursor" where
  "directives_loop u ds s =
     (let s1 = skip_whitespace s in
      if peek s1 = Some 64 then
        rbind (parse_directive u (snd (advance s1))) (\<lambda>(d, s2). directives_loop u (ds @ [d]) s2)
      else Inr (ds, s1))"
  by pat_completeness auto

termination
  by (relation "measure (\<lambda>(u, ds, s). left s)")
    (auto dest!: parse_directive_left intro: less_le_trans [OF _ left_advance_ws])

declare directives_loop.simps [simp del]

lemma directives_loop_left [consume]: "directives_loop u ds s = Inr (x, t) \<Longrightarrow> left t \<le> left s"
proof (induction u ds s rule: directives_loop.induct)
  case (1 u ds s)
  let ?s1 = "skip_whitespace s"
  show ?case
  proof (cases "peek ?s1 = Some 64")
    case False
    then show ?thesis using "1.prems" left_skip_whitespace [of s] by (subst (asm) directives_loop.simps) simp
  next
    case True
    then obtain d s2 where r: "parse_directive u (snd (advance ?s1)) = Inr (d, s2)" "directives_loop u (ds @ [d]) s2 = Inr (x, t)"
      using "1.prems" by (subst (asm) directives_loop.simps) (auto simp: rbind_inr)
    have "left t \<le> left s2" using "1.IH" [OF refl True r(1) refl r(2)] .
    then show ?thesis using parse_directive_left [OF r(1)] left_advance_ws [of s] by simp
  qed
qed

text \<open>The optional edge fields after the type of a relationship.\<close>

definition with_edge_fields :: "char_tables \<Rightarrow> FieldType \<Rightarrow> cursor \<Rightarrow> SchemaError + FieldType \<times> cursor" where
  "with_edge_fields u ft s = (case ft of
      Relation rel \<Rightarrow>
        let s1 = skip_whitespace s in
        if peek s1 = Some 123 then
          rbind (parse_edge_fields u s1) (\<lambda>(es, s2). Inr (Relation (rel\<lparr>edge_fields := es\<rparr>), s2))
        else Inr (Relation rel, s1)
    | _ \<Rightarrow> Inr (ft, s))"

lemma with_edge_fields_left [consume]: "with_edge_fields u ft s = Inr (x, t) \<Longrightarrow> left t \<le> left s"
  using left_skip_whitespace [of s]
  by (cases ft) (auto simp: with_edge_fields_def parse_edge_fields_def Let_def rbind_inr dest!: consume split: if_splits)

definition parse_field_def :: "char_tables \<Rightarrow> cursor \<Rightarrow> SchemaError + FieldDef \<times> cursor" where
  "parse_field_def u s =
     rbind (parse_ident u s) (\<lambda>(name, s1).
     rbind (expect 58 s1) (\<lambda>(_, s2).
     rbind (parse_field_type u s2) (\<lambda>(ft, s3).
     rbind (with_edge_fields u ft s3) (\<lambda>(ft', s4).
     rbind (directives_loop u [] s4) (\<lambda>(ds, s5).
     Inr (\<lparr>fd_name = name, fd_field_type = ft', fd_directives = ds\<rparr>, s5))))))"

lemma parse_field_def_left [consume]: "parse_field_def u s = Inr (x, t) \<Longrightarrow> left t < left s"
  by (auto simp: parse_field_def_def rbind_inr dest!: consume)

definition push_field :: "char_tables \<Rightarrow> FieldDef list \<Rightarrow> cursor \<Rightarrow> SchemaError + FieldDef list \<times> cursor" where
  "push_field u fs s = rbind (parse_field_def u s) (\<lambda>(f, s1). Inr (fs @ [f], s1))"

lemma push_field_left: "push_field u fs s = Inr (x, t) \<Longrightarrow> left t < left s"
  by (auto simp: push_field_def rbind_inr dest: parse_field_def_left)

function fields_loop :: "char_tables \<Rightarrow> FieldDef list \<Rightarrow> cursor \<Rightarrow> SchemaError + FieldDef list \<times> cursor" where
  "fields_loop u fs s =
     (let s1 = skip_whitespace s in
      if peek s1 = Some 125 then Inr (fs, snd (advance s1))
      else rbind (push_field u fs s1) (\<lambda>(fs', s2). fields_loop u fs' s2))"
  by pat_completeness auto

termination
  by (relation "measure (\<lambda>(u, fs, s). left s)") (auto dest!: push_field_left consume_after_ws)

declare fields_loop.simps [simp del]

interpretation fields_loop: closing_loop 125 "push_field u" "fields_loop u" for u
  by unfold_locales (fact fields_loop.simps, fact push_field_left)

definition parse_type_def :: "char_tables \<Rightarrow> cursor \<Rightarrow> SchemaError + TypeDef \<times> cursor" where
  "parse_type_def u s =
     rbind (parse_ident u (skip_whitespace s)) (\<lambda>(keyword, s1).
     if keyword \<noteq> lit ''type'' then
       Inl (parse_error s1 (lit ''expected '' @ squote (lit ''type'') @ lit '', got '' @ squote keyword))
     else
       rbind (parse_ident u s1) (\<lambda>(name, s2).
       rbind (expect 123 s2) (\<lambda>(_, s3).
       rbind (fields_loop u [] s3) (\<lambda>(fs, s4).
       Inr (\<lparr>td_name = name, td_fields = fs\<rparr>, s4)))))"

lemma parse_type_def_left [consume]: "parse_type_def u s = Inr (x, t) \<Longrightarrow> left t < left s"
  by (auto simp: parse_type_def_def rbind_inr dest!: consume consume_after_ws fields_loop.loop_left split: if_splits)

text \<open>\<open>s\<close> is after the white space before the next type.\<close>

function types_loop :: "char_tables \<Rightarrow> Schema \<Rightarrow> cursor \<Rightarrow> SchemaError + Schema" where
  "types_loop u types s =
     (if is_eof s then Inr types
      else rbind (parse_type_def u s) (\<lambda>(td, s1).
        if td_name td \<in> fst ` set types then Inl (DuplicateType (td_name td))
        else types_loop u (types @ [(td_name td, td)]) (skip_whitespace s1)))"
  by pat_completeness auto

termination
  by (relation "measure (\<lambda>(u, types, s). left s)")
    (auto dest!: parse_type_def_left intro: le_less_trans [OF left_skip_whitespace])

declare types_loop.simps [simp del]

definition parse_schema :: "char_tables \<Rightarrow> rtext \<Rightarrow> SchemaError + Schema" where
  "parse_schema u input =
     rbind (types_loop u [] (skip_whitespace (parser_new input))) (\<lambda>types.
     rbind (validate_schema types) (\<lambda>_. Inr types))"

end
