(* ===== verification/Schema_Emit.thy ===== *)
theory Schema_Emit
  imports Schema_Parser
begin

text \<open>
  Writing a schema back to text, \<^verbatim>\<open>rhypedb-schema/src/emit.rs\<close>, and its contract: the text of every schema
  that the parser accepts parses to that schema. The emitter appends to a string; here each function
  returns what it appends.
\<close>

section \<open>Emitter\<close>

fun scalar_name :: "ScalarType \<Rightarrow> rtext" where
  "scalar_name ST_String = lit ''String''"
| "scalar_name ST_U32 = lit ''u32''"
| "scalar_name ST_U64 = lit ''u64''"
| "scalar_name ST_I32 = lit ''i32''"
| "scalar_name ST_I64 = lit ''i64''"
| "scalar_name ST_F32 = lit ''f32''"
| "scalar_name ST_F64 = lit ''f64''"
| "scalar_name ST_Bool = lit ''Bool''"
| "scalar_name ST_DateTime = lit ''DateTime''"
| "scalar_name ST_Bytes = lit ''Bytes''"
| "scalar_name ST_Json = lit ''Json''"

definition emit_edge_field :: "EdgeFieldDef \<Rightarrow> rtext" where
  "emit_edge_field ef = ef_name ef @ lit '': '' @ scalar_name (ef_scalar_type ef)"

fun emit_edge_fields :: "EdgeFieldDef list \<Rightarrow> rtext" where
  "emit_edge_fields [] = []"
| "emit_edge_fields (ef # efs) =
     emit_edge_field ef @ (if efs = [] then [] else lit '', '' @ emit_edge_fields efs)"

definition emit_field_type :: "FieldType \<Rightarrow> rtext" where
  "emit_field_type ft = (case ft of
      Scalar s \<Rightarrow> scalar_name s
    | Vector v \<Rightarrow> lit ''Vector<'' @ dec (unat (dimensions v)) @ lit ''>''
    | Relation rel \<Rightarrow>
        (if is_many rel then lit ''['' @ target_type rel @ lit '']'' else target_type rel) @
        (if edge_fields rel \<noteq> [] then lit '' { '' @ emit_edge_fields (edge_fields rel) @ lit '' }'' else []))"

fun metric_name :: "DistanceMetric \<Rightarrow> rtext" where
  "metric_name Cosine = lit ''cosine''"
| "metric_name L2 = lit ''l2''"
| "metric_name DotProduct = lit ''dot_product''"

fun quantization_name :: "QuantizationType \<Rightarrow> rtext" where
  "quantization_name TurboQuant2Bit = lit ''turboquant_2bit''"
| "quantization_name TurboQuant3Bit = lit ''turboquant_3bit''"
| "quantization_name TurboQuant4Bit = lit ''turboquant_4bit''"
| "quantization_name QuantNone = lit ''none''"

fun policy_name :: "OnDeletePolicy \<Rightarrow> rtext" where
  "policy_name Remove = lit ''remove''"
| "policy_name Cascade = lit ''cascade''"
| "policy_name Deny = lit ''deny''"

definition emit_index :: "IndexDef \<Rightarrow> rtext" where
  "emit_index idx =
     lit ''@index('' @ (case index_type idx of Hnsw \<Rightarrow> lit ''hnsw'') @
     (case idx_metric idx of Some m \<Rightarrow> lit '', metric: '' @ metric_name m | None \<Rightarrow> []) @
     (case idx_quantization idx of Some q \<Rightarrow> lit '', quantization: '' @ quantization_name q | None \<Rightarrow> []) @
     (case idx_m idx of Some m \<Rightarrow> lit '', m: '' @ dec (unat m) | None \<Rightarrow> []) @
     (case idx_ef_construction idx of Some ef \<Rightarrow> lit '', ef_construction: '' @ dec (unat ef) | None \<Rightarrow> []) @
     lit '')''"

definition emit_directive :: "Directive \<Rightarrow> rtext" where
  "emit_directive d = (case d of
      Unique \<Rightarrow> lit ''@unique''
    | Indexed \<Rightarrow> lit ''@indexed''
    | OnDelete policy \<Rightarrow> lit ''@on_delete('' @ policy_name policy @ lit '')''
    | Inverse ivd \<Rightarrow> lit ''@inverse('' @ inv_type_name ivd @ lit ''.'' @ inv_field_name ivd @ lit '')''
    | Index idx \<Rightarrow> emit_index idx
    | Vectorize v \<Rightarrow>
        lit ''@vectorize(source: \"'' @ vec_source_field v @ lit ''\", model: \"'' @ vec_model v @ lit ''\")''
    | Fulltext f \<Rightarrow>
        lit ''@fulltext(analyzer: \"'' @ ft_analyzer f @ lit ''\", positions: '' @
        (if ft_positions f then lit ''true'' else lit ''false'') @ lit '')'')"

definition emit_field :: "FieldDef \<Rightarrow> rtext" where
  "emit_field f =
     fd_name f @ lit '': '' @ emit_field_type (fd_field_type f) @
     concat (map (\<lambda>d. lit '' '' @ emit_directive d) (fd_directives f))"

definition emit_type :: "TypeDef \<Rightarrow> rtext" where
  "emit_type td =
     lit ''type '' @ td_name td @ lit '' {'' @ [10] @
     concat (map (\<lambda>f. lit ''    '' @ emit_field f @ [10]) (td_fields td)) @ lit ''}'' @ [10]"

fun emit_types :: "TypeDef list \<Rightarrow> rtext" where
  "emit_types [] = []"
| "emit_types (td # tds) = emit_type td @ (if tds = [] then [] else [10] @ emit_types tds)"

definition emit_schema :: "Schema \<Rightarrow> rtext" where
  "emit_schema s = emit_types (map (\<lambda>n. the (map_of s n)) (sort (map fst s)))"

section \<open>Reading a known text\<close>

text \<open>\<open>runs p a x b\<close>: wherever the text left is \<open>a\<close>, the parser \<open>p\<close> returns \<open>x\<close> and leaves \<open>b\<close>.\<close>

definition runs :: "(cursor \<Rightarrow> SchemaError + 'a \<times> cursor) \<Rightarrow> rtext \<Rightarrow> 'a \<Rightarrow> rtext \<Rightarrow> bool" where
  "runs p a x b \<longleftrightarrow> (\<forall>s. c_rest s = a \<longrightarrow> (\<exists>t. p s = Inr (x, t) \<and> c_rest t = b))"

lemma runs_bind:
  "runs p a x b \<Longrightarrow> runs (f x) b y c \<Longrightarrow> runs (\<lambda>s. rbind (p s) (\<lambda>(x, s). f x s)) a y c"
  by (fastforce simp: runs_def rbind_inr)

lemma runs_return: "runs (\<lambda>s. Inr (x, s)) a x a"
  by (simp add: runs_def)

definition blank :: "rtext \<Rightarrow> bool" where
  "blank w \<longleftrightarrow> list_all is_whitespace w"

text \<open>The character starts a token: it is neither white space nor a slash, which may start a comment.\<close>

definition token_char :: "rchar \<Rightarrow> bool" where
  "token_char c \<longleftrightarrow> \<not> is_whitespace c \<and> c \<noteq> 47"

lemma advance_rest: "c_rest s = c # r \<Longrightarrow> \<exists>t. advance s = (Some c, t) \<and> c_rest t = r"
  by (simp add: advance_def)

lemma rest_snd_advance: "c_rest s = c # r \<Longrightarrow> c_rest (snd (advance s)) = r"
  by (simp add: advance_def)

lemma skip_whitespace_token:
  assumes "c_rest s = w @ c # r" "blank w" "token_char c"
  shows "c_rest (skip_whitespace s) = c # r" "peek (skip_whitespace s) = Some c"
proof -
  show r: "c_rest (skip_whitespace s) = c # r"
    using assms
  proof (induction w arbitrary: s)
    case Nil
    then show ?case by (subst skip_whitespace.simps) (simp add: peek_def token_char_def)
  next
    case (Cons x w)
    then have "c_rest (skip_whitespace (snd (advance s))) = c # r"
      by (intro Cons.IH) (simp_all add: rest_snd_advance blank_def)
    moreover have "peek s = Some x" "is_whitespace x" using Cons.prems by (simp_all add: peek_def blank_def)
    ultimately show ?case by (subst skip_whitespace.simps) simp
  qed
  then show "peek (skip_whitespace s) = Some c" by (simp add: peek_def)
qed

lemma skip_whitespace_end:
  assumes "c_rest s = w" "blank w"
  shows "c_rest (skip_whitespace s) = []"
  using assms
proof (induction w arbitrary: s)
  case Nil
  then show ?case by (subst skip_whitespace.simps) (simp add: peek_def)
next
  case (Cons x w)
  then have "c_rest (skip_whitespace (snd (advance s))) = []"
    by (intro Cons.IH) (simp_all add: rest_snd_advance blank_def)
  moreover have "peek s = Some x" "is_whitespace x" using Cons.prems by (simp_all add: peek_def blank_def)
  ultimately show ?case by (subst skip_whitespace.simps) simp
qed

lemma runs_expect:
  assumes "blank w" "token_char c"
  shows "runs (expect c) (w @ c # r) () r"
  unfolding runs_def
proof (intro allI impI)
  fix s :: cursor assume "c_rest s = w @ c # r"
  from skip_whitespace_token(1) [OF this assms] obtain t where "advance (skip_whitespace s) = (Some c, t)" "c_rest t = r"
    using advance_rest by blast
  then show "\<exists>t. expect c s = Inr ((), t) \<and> c_rest t = r" by (auto simp: expect_def)
qed

section \<open>Identifiers, numbers and strings\<close>

definition ident_ok :: "char_tables \<Rightarrow> rtext \<Rightarrow> bool" where
  "ident_ok u n \<longleftrightarrow> n \<noteq> [] \<and> list_all (ident_char u) n"

definition stops :: "(rchar \<Rightarrow> bool) \<Rightarrow> rtext \<Rightarrow> bool" where
  "stops P r \<longleftrightarrow> (case r of [] \<Rightarrow> True | c # _ \<Rightarrow> \<not> P c)"

lemma take_chars_known:
  assumes "c_rest s = n @ r" "list_all P n" "stops P r"
  obtains t where "take_chars P s = (n, t)" "c_rest t = r"
proof -
  obtain w t where t: "take_chars P s = (w, t)" by (cases "take_chars P s")
  have "takeWhile P (n @ r) = n"
    using assms(2,3) by (cases r) (simp_all add: stops_def list_all_iff takeWhile_append2)
  then have "w = n" using conjunct2 [OF take_chars_rest [OF t]] assms(1) by simp
  moreover have "n @ r = w @ c_rest t" using conjunct1 [OF take_chars_rest [OF t]] assms(1) by simp
  ultimately have "w = n" "c_rest t = r" by simp_all
  then show thesis using t that by blast
qed

lemma ident_char_token:
  assumes "tables_ok u" "ident_char u c"
  shows "token_char c"
  using assms alphanumeric_not_whitespace [of u c]
  by (auto simp: ident_char_def token_char_def is_whitespace_def is_alphanumeric_def is_ascii_alphanumeric_def
      is_ascii_alphabetic_def is_ascii_digit_def)

lemma runs_ident:
  assumes "tables_ok u" "blank w" "ident_ok u n" "stops (ident_char u) r"
  shows "runs (parse_ident u) (w @ n @ r) n r"
  unfolding runs_def
proof (intro allI impI)
  fix s :: cursor assume s: "c_rest s = w @ n @ r"
  obtain c m where n: "n = c # m" "ident_char u c" using assms(3) by (cases n) (auto simp: ident_ok_def)
  have "c_rest (skip_whitespace s) = n @ r"
    using skip_whitespace_token(1) [of s w c "m @ r"] s assms(2) ident_char_token [OF assms(1) n(2)] by (simp add: n(1))
  then obtain t where "take_chars (ident_char u) (skip_whitespace s) = (n, t)" "c_rest t = r"
    using take_chars_known assms(3,4) by (metis ident_ok_def)
  then show "\<exists>t. parse_ident u s = Inr (n, t) \<and> c_rest t = r" using n(1) by (simp add: parse_ident_inr)
qed

lemma runs_u32:
  assumes "blank w" "stops is_ascii_digit r"
  shows "runs parse_u32 (w @ dec (unat n) @ r) n r"
  unfolding runs_def
proof (intro allI impI)
  fix s :: cursor assume s: "c_rest s = w @ dec (unat n) @ r"
  obtain c m where d: "dec (unat n) = c # m" by (cases "dec (unat n)") auto
  have all: "list_all is_ascii_digit (dec (unat n))" by (simp add: list_all_iff dec_digits)
  then have "token_char c" by (simp add: d token_char_def is_whitespace_def is_ascii_digit_def)
  then have "c_rest (skip_whitespace s) = dec (unat n) @ r"
    using skip_whitespace_token(1) [of s w c "m @ r"] s assms(1) by (simp add: d)
  then obtain t where "take_chars is_ascii_digit (skip_whitespace s) = (dec (unat n), t)" "c_rest t = r"
    using take_chars_known [OF _ all assms(2)] by blast
  moreover have "unat n < 2 ^ 32" using unsigned_less [of n] by simp
  ultimately show "\<exists>t. parse_u32 s = Inr (n, t) \<and> c_rest t = r" by (auto simp: parse_u32_inr)
qed

lemma runs_string:
  assumes "blank w" "34 \<notin> set v"
  shows "runs parse_string_value (w @ 34 # v @ 34 # r) v r"
  unfolding runs_def
proof (intro allI impI)
  fix s :: cursor assume s: "c_rest s = w @ 34 # v @ 34 # r"
  have tc: "token_char 34" by (simp add: token_char_def is_whitespace_def)
  from skip_whitespace_token(1) [OF s assms(1) tc] have "c_rest (skip_whitespace s) = [] @ 34 # v @ 34 # r" by simp
  then obtain s1 where s1: "expect 34 (skip_whitespace s) = Inr ((), s1)" "c_rest s1 = v @ 34 # r"
    using runs_expect [OF _ tc, of "[]" "v @ 34 # r"] by (auto simp: runs_def blank_def)
  obtain t where t: "take_chars (\<lambda>c. c \<noteq> 34) s1 = (v, t)" "c_rest t = 34 # r"
    using take_chars_known [OF s1(2), of "\<lambda>c. c \<noteq> 34"] assms(2) by (auto simp: list_all_iff stops_def)
  then show "\<exists>t. parse_string_value s = Inr (v, t) \<and> c_rest t = r"
    using s1 by (simp add: parse_string_value_def peek_def rest_snd_advance)
qed

text \<open>The tokens with no or one blank before them, as the emitter writes them.\<close>

lemma blank_simps [simp]: "blank []" "blank [32]" "blank [10]" "blank (v @ w) \<longleftrightarrow> blank v \<and> blank w"
    "blank (c # w) \<longleftrightarrow> is_whitespace c \<and> blank w" "is_whitespace 32" "is_whitespace 10"
  by (auto simp: blank_def is_whitespace_def)

lemma token_chars [simp]:
  "token_char 44" "token_char 58" "token_char 40" "token_char 41" "token_char 46" "token_char 60" "token_char 62"
  "token_char 64" "token_char 91" "token_char 93" "token_char 123" "token_char 125" "token_char 34"
  by (simp_all add: token_char_def is_whitespace_def)

lemma runs_expect0: "token_char c \<Longrightarrow> runs (expect c) (c # r) () r"
  using runs_expect [of "[]" c r] by simp

lemma runs_ident0: "tables_ok u \<Longrightarrow> ident_ok u n \<Longrightarrow> stops (ident_char u) r \<Longrightarrow> runs (parse_ident u) (n @ r) n r"
  using runs_ident [of u "[]" n r] by simp

lemma runs_ident1: "tables_ok u \<Longrightarrow> ident_ok u n \<Longrightarrow> stops (ident_char u) r \<Longrightarrow> runs (parse_ident u) (32 # n @ r) n r"
  using runs_ident [of u "[32]" n r] by simp

lemma runs_u32_1: "stops is_ascii_digit r \<Longrightarrow> runs parse_u32 (32 # dec (unat n) @ r) n r"
  using runs_u32 [of "[32]" r n] by simp

lemma runs_u32_0: "stops is_ascii_digit r \<Longrightarrow> runs parse_u32 (dec (unat n) @ r) n r"
  using runs_u32 [of "[]" r n] by simp

lemma stops_Cons [simp]: "stops P (c # r) \<longleftrightarrow> \<not> P c"
  by (simp add: stops_def)

lemma digit_punctuation [simp]: "\<not> is_ascii_digit 44" "\<not> is_ascii_digit 41" "\<not> is_ascii_digit 62"
  by (simp_all add: is_ascii_digit_def)

lemma ident_punctuation [simp]:
  "\<not> ident_char u 44" "\<not> ident_char u 58" "\<not> ident_char u 40" "\<not> ident_char u 41" "\<not> ident_char u 46" "\<not> ident_char u 60"
  "\<not> ident_char u 93" "\<not> ident_char u 32" "\<not> ident_char u 10" "\<not> ident_char u 64" "\<not> ident_char u 125" "\<not> ident_char u 123"
  by (simp_all add: ident_char_def is_alphanumeric_def is_ascii_alphanumeric_def is_ascii_alphabetic_def is_ascii_digit_def)

lemma lit_ident_ok: "s \<noteq> [] \<Longrightarrow> list_all (\<lambda>c. ident_char ascii_tables (of_char c) \<and> of_char c < (128 :: nat)) s \<Longrightarrow> ident_ok u (lit s)"
  by (auto simp: ident_ok_def lit_def list_all_iff ident_char_def is_alphanumeric_def)

lemmas ident_evals = lit_ident_ok ident_char_def is_alphanumeric_def is_ascii_alphanumeric_def is_ascii_alphabetic_def
  is_ascii_digit_def

context closing_loop
begin

lemma runs_close: "token_char close \<Longrightarrow> blank w \<Longrightarrow> runs (loop a) (w @ close # r) a r"
  unfolding runs_def
proof (intro allI impI)
  fix s :: cursor assume t: "token_char close" "blank w" and s: "c_rest s = w @ close # r"
  show "\<exists>t. loop a s = Inr (a, t) \<and> c_rest t = r"
    using skip_whitespace_token [OF s t(2,1)] by (subst loop_unfold) (simp add: rest_snd_advance)
qed

lemma runs_step:
  assumes "token_char c" "c \<noteq> close" "blank w" "runs (body a) (c # q) a' q'" "runs (loop a') q' b r"
  shows "runs (loop a) (w @ c # q) b r"
  unfolding runs_def
proof (intro allI impI)
  fix s :: cursor assume s: "c_rest s = w @ c # q"
  note sk = skip_whitespace_token [OF s assms(3,1)]
  obtain s2 where s2: "body a (skip_whitespace s) = Inr (a', s2)" "c_rest s2 = q'"
    using assms(4) sk(1) unfolding runs_def by blast
  obtain t where "loop a' s2 = Inr (b, t)" "c_rest t = r" using assms(5) s2(2) unfolding runs_def by blast
  then show "\<exists>t. loop a s = Inr (b, t) \<and> c_rest t = r" using sk(2) assms(2) s2(1) by (subst loop_unfold) simp
qed

end

section \<open>Directives\<close>

lemma name_ok: "ident_ok u (metric_name m)" "ident_ok u (quantization_name q)" "ident_ok u (policy_name p)" "ident_ok u (scalar_name s)"
proof -
  show "ident_ok u (metric_name m)" by (cases m) (simp_all add: ident_evals)
  show "ident_ok u (quantization_name q)" by (cases q) (simp_all add: ident_evals)
  show "ident_ok u (policy_name p)" by (cases p) (simp_all add: ident_evals)
  show "ident_ok u (scalar_name s)" by (cases s) (simp_all add: ident_evals)
qed

lemma runs_index_param:
  assumes "tables_ok u" "ident_ok u key" "runs (index_value u idx key) a idx' r"
  shows "runs (index_param u idx) (44 # 32 # key @ 58 # a) idx' r"
  unfolding index_param_def [abs_def]
  by (rule runs_bind [OF runs_expect0], simp, rule runs_bind [OF runs_ident1 [OF assms(1,2)]], simp,
      rule runs_bind [OF runs_expect0], simp, rule assms(3))

lemma runs_index_value:
  assumes "tables_ok u" "stops (ident_char u) r" "stops is_ascii_digit r"
  shows "runs (index_value u idx (lit ''metric'')) (32 # metric_name m @ r) (idx\<lparr>idx_metric := Some m\<rparr>) r"
    "runs (index_value u idx (lit ''quantization'')) (32 # quantization_name q @ r) (idx\<lparr>idx_quantization := Some q\<rparr>) r"
    "runs (index_value u idx (lit ''m'')) (32 # dec (unat n) @ r) (idx\<lparr>idx_m := Some n\<rparr>) r"
    "runs (index_value u idx (lit ''ef_construction'')) (32 # dec (unat n) @ r) (idx\<lparr>idx_ef_construction := Some n\<rparr>) r"
proof -
  show "runs (index_value u idx (lit ''metric'')) (32 # metric_name m @ r) (idx\<lparr>idx_metric := Some m\<rparr>) r"
    unfolding index_value_def [abs_def]
    by (simp, rule runs_bind [OF runs_ident1 [OF assms(1) name_ok(1) assms(2)]], cases m) (simp_all add: runs_return)
  show "runs (index_value u idx (lit ''quantization'')) (32 # quantization_name q @ r) (idx\<lparr>idx_quantization := Some q\<rparr>) r"
    unfolding index_value_def [abs_def]
    by (simp, rule runs_bind [OF runs_ident1 [OF assms(1) name_ok(2) assms(2)]], cases q) (simp_all add: runs_return)
  show "runs (index_value u idx (lit ''m'')) (32 # dec (unat n) @ r) (idx\<lparr>idx_m := Some n\<rparr>) r"
    unfolding index_value_def [abs_def] by (simp, rule runs_bind [OF runs_u32_1 [OF assms(3)] runs_return])
  show "runs (index_value u idx (lit ''ef_construction'')) (32 # dec (unat n) @ r) (idx\<lparr>idx_ef_construction := Some n\<rparr>) r"
    unfolding index_value_def [abs_def] by (simp, rule runs_bind [OF runs_u32_1 [OF assms(3)] runs_return])
qed

lemma runs_index_step:
  assumes "tables_ok u" "ident_ok u key" "runs (index_value u idx key) a idx' r" "runs (index_params u idx') r final z"
  shows "runs (index_params u idx) (44 # 32 # key @ 58 # a) final z"
  using index_loop.runs_step [OF _ _ _ runs_index_param [OF assms(1-3)] assms(4), of "[]"] by simp

text \<open>A parameter that may be absent, with the text after it.\<close>

definition opt_param :: "string \<Rightarrow> ('a \<Rightarrow> rtext) \<Rightarrow> 'a option \<Rightarrow> rtext" where
  "opt_param key name p = (case p of Some x \<Rightarrow> 44 # 32 # lit key @ 58 # 32 # name x | None \<Rightarrow> [])"

lemma emit_index_params:
  "emit_index idx = 64 # lit ''index'' @ 40 # lit ''hnsw'' @ opt_param ''metric'' metric_name (idx_metric idx) @
     opt_param ''quantization'' quantization_name (idx_quantization idx) @ opt_param ''m'' (\<lambda>n. dec (unat n)) (idx_m idx) @
     opt_param ''ef_construction'' (\<lambda>n. dec (unat n)) (idx_ef_construction idx) @ [41]"
  by (simp add: emit_index_def opt_param_def lit_def split: option.splits IndexType.splits)

lemma runs_opt_param:
  assumes "tables_ok u" "ident_ok u (lit key)"
    "\<And>x. p = Some x \<Longrightarrow> runs (index_value u idx (lit key)) (32 # name x @ b) (set_p (Some x) idx) b"
    "p = None \<Longrightarrow> set_p p idx = idx" "runs (index_params u (set_p p idx)) b final r"
  shows "runs (index_params u idx) (opt_param key name p @ b) final r"
proof (cases p)
  case None
  then show ?thesis using assms(4,5) by (simp add: opt_param_def)
next
  case (Some x)
  then show ?thesis using runs_index_step [OF assms(1,2) assms(3) [OF Some]] assms(5) by (simp add: opt_param_def)
qed

lemma stops_opt_param: "\<not> P 44 \<Longrightarrow> stops P r \<Longrightarrow> stops P (opt_param key name p @ r)"
  by (cases p) (simp_all add: opt_param_def)

lemma runs_index_params:
  assumes "tables_ok u"
  shows "runs (index_params u \<lparr>index_type = Hnsw, idx_metric = None, idx_quantization = None, idx_m = None, idx_ef_construction = None\<rparr>)
    (opt_param ''metric'' metric_name (idx_metric idx) @ opt_param ''quantization'' quantization_name (idx_quantization idx) @
     opt_param ''m'' (\<lambda>n. dec (unat n)) (idx_m idx) @ opt_param ''ef_construction'' (\<lambda>n. dec (unat n)) (idx_ef_construction idx) @
     41 # r) idx r"
proof -
  let ?i0 = "\<lparr>index_type = Hnsw, idx_metric = None, idx_quantization = None, idx_m = None, idx_ef_construction = None\<rparr>"
  let ?i1 = "?i0\<lparr>idx_metric := idx_metric idx\<rparr>"
  let ?i2 = "?i1\<lparr>idx_quantization := idx_quantization idx\<rparr>"
  let ?i3 = "?i2\<lparr>idx_m := idx_m idx\<rparr>"
  have idx: "\<lparr>index_type = Hnsw, idx_metric = idx_metric idx, idx_quantization = idx_quantization idx, idx_m = idx_m idx,
      idx_ef_construction = idx_ef_construction idx\<rparr> = idx"
    by (cases idx) (simp, cases "index_type idx", simp)
  have e5: "runs (index_params u idx) (41 # r) idx r" using index_loop.runs_close [of "[]"] by simp
  have e4: "runs (index_params u ?i3) (opt_param ''ef_construction'' (\<lambda>n. dec (unat n)) (idx_ef_construction idx) @ 41 # r) idx r"
    by (rule runs_opt_param [OF assms, where set_p = "\<lambda>v i. i\<lparr>idx_ef_construction := v\<rparr>"], simp add: ident_evals,
        rule runs_index_value [OF assms]) (use e5 in \<open>simp_all add: stops_opt_param idx\<close>)
  have e3: "runs (index_params u ?i2) (opt_param ''m'' (\<lambda>n. dec (unat n)) (idx_m idx) @
      opt_param ''ef_construction'' (\<lambda>n. dec (unat n)) (idx_ef_construction idx) @ 41 # r) idx r"
    by (rule runs_opt_param [OF assms, where set_p = "\<lambda>v i. i\<lparr>idx_m := v\<rparr>"], simp add: ident_evals,
        rule runs_index_value [OF assms]) (use e4 in \<open>simp_all add: stops_opt_param\<close>)
  have e2: "runs (index_params u ?i1) (opt_param ''quantization'' quantization_name (idx_quantization idx) @
      opt_param ''m'' (\<lambda>n. dec (unat n)) (idx_m idx) @
      opt_param ''ef_construction'' (\<lambda>n. dec (unat n)) (idx_ef_construction idx) @ 41 # r) idx r"
    by (rule runs_opt_param [OF assms, where set_p = "\<lambda>v i. i\<lparr>idx_quantization := v\<rparr>"], simp add: ident_evals,
        rule runs_index_value [OF assms]) (use e3 in \<open>simp_all add: stops_opt_param\<close>)
  show ?thesis
    by (rule runs_opt_param [OF assms, where set_p = "\<lambda>v i. i\<lparr>idx_metric := v\<rparr>"], simp add: ident_evals,
        rule runs_index_value [OF assms]) (use e2 in \<open>simp_all add: stops_opt_param\<close>)
qed

lemma directive_named_simps:
  "directive_named u (lit ''unique'') = (\<lambda>s. Inr (Unique, s))"
  "directive_named u (lit ''indexed'') = (\<lambda>s. Inr (Indexed, s))"
  "directive_named u (lit ''on_delete'') = (\<lambda>s1.
       rbind (expect 40 s1) (\<lambda>(_, s2).
       rbind (parse_ident u s2) (\<lambda>(policy_name, s3).
       rbind (expect 41 s3) (\<lambda>(_, s4).
       if policy_name = lit ''remove'' then Inr (OnDelete Remove, s4)
       else if policy_name = lit ''cascade'' then Inr (OnDelete Cascade, s4)
       else if policy_name = lit ''deny'' then Inr (OnDelete Deny, s4)
       else Inl (InvalidOnDelete policy_name)))))"
  "directive_named u (lit ''inverse'') = (\<lambda>s1.
       rbind (expect 40 s1) (\<lambda>(_, s2).
       rbind (parse_ident u s2) (\<lambda>(tn, s3).
       rbind (expect 46 s3) (\<lambda>(_, s4).
       rbind (parse_ident u s4) (\<lambda>(fld, s5).
       rbind (expect 41 s5) (\<lambda>(_, s6).
       Inr (Inverse \<lparr>inv_type_name = tn, inv_field_name = fld\<rparr>, s6)))))))"
  "directive_named u (lit ''vectorize'') = (\<lambda>s1.
       rbind (expect 40 s1) (\<lambda>(_, s2).
       rbind (vectorize_params u (None, None) s2) (\<lambda>(sm, s3). vectorize_def sm s3)))"
  by (simp_all add: directive_named_def fun_eq_iff)

lemma runs_on_delete:
  assumes "tables_ok u"
  shows "runs (directive_named u (lit ''on_delete'')) (40 # policy_name p @ 41 # r) (OnDelete p) r"
  unfolding directive_named_simps
  by (rule runs_bind [OF runs_expect0], simp, rule runs_bind [OF runs_ident0 [OF assms name_ok(3)]], simp,
      rule runs_bind [OF runs_expect0], simp, cases p) (simp_all add: runs_return)

lemma runs_inverse:
  assumes "tables_ok u" "ident_ok u (inv_type_name i)" "ident_ok u (inv_field_name i)"
  shows "runs (directive_named u (lit ''inverse'')) (40 # inv_type_name i @ 46 # inv_field_name i @ 41 # r) (Inverse i) r"
proof -
  have i: "\<lparr>inv_type_name = inv_type_name i, inv_field_name = inv_field_name i\<rparr> = i" by simp
  show ?thesis
    unfolding directive_named_simps
    by (rule runs_bind [OF runs_expect0], simp, rule runs_bind [OF runs_ident0 [OF assms(1,2)]], simp,
        rule runs_bind [OF runs_expect0], simp, rule runs_bind [OF runs_ident0 [OF assms(1,3)]], simp,
        rule runs_bind [OF runs_expect0], simp, subst i, rule runs_return)
qed

lemma runs_index:
  assumes "tables_ok u"
  shows "runs (directive_named u (lit ''index'')) (40 # lit ''hnsw'' @ opt_param ''metric'' metric_name (idx_metric idx) @
     opt_param ''quantization'' quantization_name (idx_quantization idx) @ opt_param ''m'' (\<lambda>n. dec (unat n)) (idx_m idx) @
     opt_param ''ef_construction'' (\<lambda>n. dec (unat n)) (idx_ef_construction idx) @ 41 # r) (Index idx) r"
proof -
  have e: "directive_named u (lit ''index'') = (\<lambda>s1. rbind (expect 40 s1) (\<lambda>(_, s2).
       rbind (parse_ident u s2) (\<lambda>(index_type_name, s3).
       if index_type_name = lit ''hnsw'' then
         rbind (index_params u \<lparr>index_type = Hnsw, idx_metric = None, idx_quantization = None, idx_m = None,
           idx_ef_construction = None\<rparr> s3) (\<lambda>(idx, s4). Inr (Index idx, s4))
       else Inl (parse_error s3 (lit ''unknown index type: '' @ index_type_name)))))"
    by (simp add: directive_named_def fun_eq_iff)
  have h: "ident_ok u (lit ''hnsw'')" by (simp add: ident_evals)
  show ?thesis
    unfolding e
    by (rule runs_bind [OF runs_expect0], simp, rule runs_bind [OF runs_ident0 [OF assms h]], simp add: stops_opt_param, simp,
        rule runs_bind [OF runs_index_params [OF assms] runs_return])
qed

text \<open>One parameter of \<^verbatim>\<open>@vectorize\<close>.\<close>

lemma runs_vectorize_source:
  assumes "tables_ok u" "34 \<notin> set v"
  shows "runs (vectorize_param u (None, None)) (lit ''source'' @ 58 # 32 # 34 # v @ 34 # r) (Some v, None) r"
proof -
  have k: "ident_ok u (lit ''source'')" by (simp add: ident_evals)
  have val: "runs (\<lambda>s. parse_string_value (skip_whitespace s)) (32 # 34 # v @ 34 # r) v r"
    using runs_string [of "[]", OF _ assms(2)] skip_whitespace_token(1) [of _ "[32]" 34] by (simp add: runs_def)
  show ?thesis
    unfolding vectorize_param_def [abs_def]
    by (simp, rule runs_bind [OF runs_ident0 [OF assms(1) k]], simp, rule runs_bind [OF runs_expect0], simp, simp,
        rule runs_bind [OF val runs_return])
qed

lemma runs_vectorize_model:
  assumes "tables_ok u" "34 \<notin> set v"
  shows "runs (vectorize_param u (Some a, None)) (44 # 32 # lit ''model'' @ 58 # 32 # 34 # v @ 34 # r) (Some a, Some v) r"
proof -
  have k: "ident_ok u (lit ''model'')" by (simp add: ident_evals)
  have val: "runs (\<lambda>s. parse_string_value (skip_whitespace s)) (32 # 34 # v @ 34 # r) v r"
    using runs_string [of "[]", OF _ assms(2)] skip_whitespace_token(1) [of _ "[32]" 34] by (simp add: runs_def)
  show ?thesis
    unfolding vectorize_param_def [abs_def]
    by (simp, rule runs_bind [OF runs_expect0], simp, rule runs_bind [OF runs_ident1 [OF assms(1) k]], simp,
        rule runs_bind [OF runs_expect0], simp, simp, rule runs_bind [OF val runs_return])
qed

lemma runs_vectorize:
  assumes "tables_ok u" "34 \<notin> set (vec_source_field v)" "34 \<notin> set (vec_model v)"
  shows "runs (directive_named u (lit ''vectorize'')) (40 # lit ''source'' @ 58 # 32 # 34 # vec_source_field v @ 34 # 44 # 32 #
     lit ''model'' @ 58 # 32 # 34 # vec_model v @ 34 # 41 # r) (Vectorize v) r"
proof -
  have vd: "vectorize_def (Some (vec_source_field v), Some (vec_model v)) = (\<lambda>s. Inr (Vectorize v, s))"
    by (simp add: vectorize_def_def fun_eq_iff)
  have c: "lit ''source'' = 115 # lit ''ource''" "token_char 115" by (simp_all add: lit_def token_char_def is_whitespace_def)
  let ?m = "44 # 32 # lit ''model'' @ 58 # 32 # 34 # vec_model v @ 34 # 41 # r"
  have cl: "runs (vectorize_params u p) (41 # r) p r" for p using vectorize_loop.runs_close [of "[]"] by simp
  have 1: "runs (vectorize_params u (Some (vec_source_field v), None)) ?m (Some (vec_source_field v), Some (vec_model v)) r"
    using vectorize_loop.runs_step [OF _ _ _ runs_vectorize_model [OF assms(1,3)] cl, of "[]"] by simp
  have 2: "runs (vectorize_params u (None, None)) (lit ''source'' @ 58 # 32 # 34 # vec_source_field v @ 34 # ?m)
      (Some (vec_source_field v), Some (vec_model v)) r"
    using vectorize_loop.runs_step [OF c(2) _ _ runs_vectorize_source [OF assms(1,2), unfolded c(1) append_Cons] 1, of "[]"] c(1) by simp
  show ?thesis
    unfolding directive_named_simps
    by (rule runs_bind [OF runs_expect0], simp, rule runs_bind, rule 2, subst vd, rule runs_return)
qed

definition bool_name :: "bool \<Rightarrow> rtext" where
  "bool_name b = (if b then lit ''true'' else lit ''false'')"

lemma runs_bool:
  assumes "tables_ok u" "stops (ident_char u) r"
  shows "runs (parse_bool_value u) (32 # bool_name b @ r) b r"
  unfolding runs_def
proof (intro allI impI)
  fix s :: cursor assume s: "c_rest s = 32 # bool_name b @ r"
  obtain c m where c: "bool_name b = c # m" "is_alphabetic u c" "token_char c"
    by (cases b) (auto simp: bool_name_def lit_def is_alphabetic_def is_ascii_alphabetic_def token_char_def is_whitespace_def)
  have ok: "ident_ok u (bool_name b)" by (simp add: bool_name_def ident_evals)
  have sk: "c_rest (skip_whitespace s) = bool_name b @ r" "peek (skip_whitespace s) = Some c"
    using skip_whitespace_token [of s "[32]" c "m @ r"] s c by simp_all
  obtain t where "parse_ident u (skip_whitespace s) = Inr (bool_name b, t)" "c_rest t = r"
    using runs_ident0 [OF assms(1) ok assms(2)] sk(1) unfolding runs_def by blast
  then show "\<exists>t. parse_bool_value u s = Inr (b, t) \<and> c_rest t = r"
    using c(2) sk(2) by (cases b) (simp_all add: parse_bool_value_def bool_name_def)
qed

lemma runs_fulltext_analyzer:
  assumes "tables_ok u" "v \<in> set KNOWN_ANALYZERS"
  shows "runs (fulltext_param u (def, False, False)) (lit ''analyzer'' @ 58 # 32 # 34 # v @ 34 # r) (def\<lparr>ft_analyzer := v\<rparr>, True, False) r"
proof -
  have k: "ident_ok u (lit ''analyzer'')" by (simp add: ident_evals)
  have "34 \<notin> set v" using assms(2) by (auto simp: KNOWN_ANALYZERS_def lit_def)
  then have val: "runs parse_string_value (32 # 34 # v @ 34 # r) v r" using runs_string [of "[32]"] by simp
  show ?thesis
    unfolding fulltext_param_def [abs_def]
    by (simp, rule runs_bind [OF runs_ident0 [OF assms(1) k]], simp, rule runs_bind [OF runs_expect0], simp, simp,
        rule runs_bind [OF val], simp add: assms(2), rule runs_return)
qed

lemma runs_fulltext_positions:
  assumes "tables_ok u" "stops (ident_char u) r"
  shows "runs (fulltext_param u (def, True, False)) (44 # 32 # lit ''positions'' @ 58 # 32 # bool_name b @ r)
    (def\<lparr>ft_positions := b\<rparr>, True, True) r"
proof -
  have k: "ident_ok u (lit ''positions'')" by (simp add: ident_evals)
  show ?thesis
    unfolding fulltext_param_def [abs_def]
    by (simp, rule runs_bind [OF runs_expect0], simp, rule runs_bind [OF runs_ident1 [OF assms(1) k]], simp,
        rule runs_bind [OF runs_expect0], simp, simp, rule runs_bind [OF runs_bool [OF assms] runs_return])
qed

lemma runs_fulltext:
  assumes "tables_ok u" "ft_analyzer v \<in> set KNOWN_ANALYZERS"
  shows "runs (directive_named u (lit ''fulltext'')) (40 # lit ''analyzer'' @ 58 # 32 # 34 # ft_analyzer v @ 34 # 44 # 32 #
     lit ''positions'' @ 58 # 32 # bool_name (ft_positions v) @ 41 # r) (Fulltext v) r"
  unfolding runs_def
proof (intro allI impI)
  let ?m = "44 # 32 # lit ''positions'' @ 58 # 32 # bool_name (ft_positions v) @ 41 # r"
  let ?a = "lit ''analyzer'' @ 58 # 32 # 34 # ft_analyzer v @ 34 # ?m"
  fix s :: cursor assume s: "c_rest s = 40 # ?a"
  have c: "lit ''analyzer'' = 97 # lit ''nalyzer''" "token_char 97" by (simp_all add: lit_def token_char_def is_whitespace_def)
  have cl: "runs (fulltext_params u p) (41 # r) p r" for p using fulltext_loop.runs_close [of "[]"] by simp
  let ?d = "fulltext_default\<lparr>ft_analyzer := ft_analyzer v\<rparr>"
  have 1: "runs (fulltext_params u (?d, True, False)) ?m (?d\<lparr>ft_positions := ft_positions v\<rparr>, True, True) r"
    using fulltext_loop.runs_step [OF _ _ _ runs_fulltext_positions [OF assms(1)] cl, of "[]"] by simp
  have "runs (fulltext_params u (fulltext_default, False, False)) ?a (?d\<lparr>ft_positions := ft_positions v\<rparr>, True, True) r"
    using fulltext_loop.runs_step [OF c(2) _ _ runs_fulltext_analyzer [OF assms, unfolded c(1) append_Cons] 1, of "[]"] c(1) by simp
  moreover have sk: "c_rest (skip_whitespace s) = 40 # ?a" "peek (skip_whitespace s) = Some 40"
    using skip_whitespace_token [of s "[]" 40 ?a] s by simp_all
  moreover have "?d\<lparr>ft_positions := ft_positions v\<rparr> = v" by simp
  ultimately show "\<exists>t. directive_named u (lit ''fulltext'') s = Inr (Fulltext v, t) \<and> c_rest t = r"
    using rest_snd_advance [OF sk(1)] by (auto simp: runs_def directive_named_def)
qed

text \<open>What the emitter can write so that it reads back.\<close>

fun directive_ok :: "char_tables \<Rightarrow> Directive \<Rightarrow> bool" where
  "directive_ok u (Inverse i) \<longleftrightarrow> ident_ok u (inv_type_name i) \<and> ident_ok u (inv_field_name i)"
| "directive_ok u (Vectorize v) \<longleftrightarrow> 34 \<notin> set (vec_source_field v) \<and> 34 \<notin> set (vec_model v)"
| "directive_ok u (Fulltext f) \<longleftrightarrow> ft_analyzer f \<in> set KNOWN_ANALYZERS"
| "directive_ok u _ \<longleftrightarrow> True"

text \<open>The text of a directive after its \<^verbatim>\<open>@\<close>.\<close>

definition directive_text :: "Directive \<Rightarrow> rtext" where
  "directive_text d = tl (emit_directive d)"

lemma emit_directive_at: "emit_directive d = 64 # directive_text d"
  by (cases d) (simp_all add: directive_text_def emit_directive_def emit_index_def lit_def)

lemma runs_named:
  assumes "tables_ok u" "ident_ok u n" "stops (ident_char u) a" "runs (directive_named u n) a d r"
  shows "runs (parse_directive u) (n @ a) d r"
  unfolding parse_directive_def [abs_def] by (rule runs_bind [OF runs_ident0 [OF assms(1-3)]], rule assms(4))

lemma runs_directive:
  assumes "tables_ok u" "directive_ok u d" "stops (ident_char u) r"
  shows "runs (parse_directive u) (directive_text d @ r) d r"
proof (cases d)
  case Unique
  have "directive_text d = lit ''unique''" by (simp add: Unique directive_text_def emit_directive_def lit_def)
  then show ?thesis using runs_named [OF assms(1) _ assms(3), of "lit ''unique''" Unique] Unique
    by (simp add: ident_evals directive_named_simps runs_return)
next
  case Indexed
  have "directive_text d = lit ''indexed''" by (simp add: Indexed directive_text_def emit_directive_def lit_def)
  then show ?thesis using runs_named [OF assms(1) _ assms(3), of "lit ''indexed''" Indexed] Indexed
    by (simp add: ident_evals directive_named_simps runs_return)
next
  case (OnDelete p)
  have "directive_text d @ r = lit ''on_delete'' @ 40 # policy_name p @ 41 # r"
    by (simp add: OnDelete directive_text_def emit_directive_def lit_def)
  moreover have "ident_ok u (lit ''on_delete'')" by (simp add: ident_evals)
  ultimately show ?thesis using runs_named [OF assms(1) _ _ runs_on_delete [OF assms(1)]] OnDelete by simp
next
  case (Inverse i)
  have "directive_text d @ r = lit ''inverse'' @ 40 # inv_type_name i @ 46 # inv_field_name i @ 41 # r"
    by (simp add: Inverse directive_text_def emit_directive_def lit_def)
  moreover have "ident_ok u (lit ''inverse'')" by (simp add: ident_evals)
  ultimately show ?thesis using runs_named [OF assms(1) _ _ runs_inverse [OF assms(1)]] Inverse assms(2) by simp
next
  case (Index i)
  have "directive_text d @ r = lit ''index'' @ 40 # lit ''hnsw'' @ opt_param ''metric'' metric_name (idx_metric i) @
     opt_param ''quantization'' quantization_name (idx_quantization i) @ opt_param ''m'' (\<lambda>n. dec (unat n)) (idx_m i) @
     opt_param ''ef_construction'' (\<lambda>n. dec (unat n)) (idx_ef_construction i) @ 41 # r"
    by (simp add: Index directive_text_def emit_directive_def emit_index_params)
  moreover have "ident_ok u (lit ''index'')" by (simp add: ident_evals)
  ultimately show ?thesis using runs_named [OF assms(1) _ _ runs_index [OF assms(1)]] Index by simp
next
  case (Vectorize v)
  have "directive_text d @ r = lit ''vectorize'' @ 40 # lit ''source'' @ 58 # 32 # 34 # vec_source_field v @ 34 # 44 # 32 #
     lit ''model'' @ 58 # 32 # 34 # vec_model v @ 34 # 41 # r"
    by (simp add: Vectorize directive_text_def emit_directive_def lit_def)
  moreover have "ident_ok u (lit ''vectorize'')" by (simp add: ident_evals)
  ultimately show ?thesis using runs_named [OF assms(1) _ _ runs_vectorize [OF assms(1)]] Vectorize assms(2) by simp
next
  case (Fulltext v)
  have "directive_text d @ r = lit ''fulltext'' @ 40 # lit ''analyzer'' @ 58 # 32 # 34 # ft_analyzer v @ 34 # 44 # 32 #
     lit ''positions'' @ 58 # 32 # bool_name (ft_positions v) @ 41 # r"
    by (simp add: Fulltext directive_text_def emit_directive_def bool_name_def lit_def)
  moreover have "ident_ok u (lit ''fulltext'')" by (simp add: ident_evals)
  ultimately show ?thesis using runs_named [OF assms(1) _ _ runs_fulltext [OF assms(1)]] Fulltext assms(2) by simp
qed

lemma blank_stops: "tables_ok u \<Longrightarrow> blank w \<Longrightarrow> w \<noteq> [] \<Longrightarrow> stops (ident_char u) (w @ r)"
  using ident_char_token [of u "hd w"] by (cases w) (auto simp: token_char_def)

definition directives_text :: "Directive list \<Rightarrow> rtext" where
  "directives_text ds = concat (map (\<lambda>d. 32 # 64 # directive_text d) ds)"

lemma directives_text_stops:
  "tables_ok u \<Longrightarrow> blank w \<Longrightarrow> w \<noteq> [] \<Longrightarrow> stops (ident_char u) (directives_text ds @ w @ r)"
  by (cases ds) (simp_all add: directives_text_def blank_stops)

lemma runs_directives_end:
  assumes "blank w" "token_char c" "c \<noteq> 64"
  shows "runs (directives_loop u acc) (w @ c # q) acc (c # q)"
  unfolding runs_def
proof (intro allI impI)
  fix s :: cursor assume s: "c_rest s = w @ c # q"
  from skip_whitespace_token [OF s assms(1,2)] assms(3)
  show "\<exists>t. directives_loop u acc s = Inr (acc, t) \<and> c_rest t = c # q" by (subst directives_loop.simps) simp
qed

lemma runs_directives_step:
  assumes "runs (parse_directive u) a d b" "runs (directives_loop u (acc @ [d])) b x r" "blank w"
  shows "runs (directives_loop u acc) (w @ 64 # a) x r"
  unfolding runs_def
proof (intro allI impI)
  fix s :: cursor assume s: "c_rest s = w @ 64 # a"
  note sk = skip_whitespace_token [OF s assms(3) token_chars(8)]
  have "c_rest (snd (advance (skip_whitespace s))) = a" using sk(1) by (rule rest_snd_advance)
  then obtain s2 where s2: "parse_directive u (snd (advance (skip_whitespace s))) = Inr (d, s2)" "c_rest s2 = b"
    using assms(1) unfolding runs_def by blast
  then obtain t where "directives_loop u (acc @ [d]) s2 = Inr (x, t)" "c_rest t = r" using assms(2) unfolding runs_def by blast
  then show "\<exists>t. directives_loop u acc s = Inr (x, t) \<and> c_rest t = r" using sk(2) s2(1) by (subst directives_loop.simps) simp
qed

lemma runs_directives:
  assumes u: "tables_ok u" and v: "blank v" "v \<noteq> []" "token_char c" "c \<noteq> 64" and "list_all (directive_ok u) ds"
  shows "runs (directives_loop u acc) (directives_text ds @ v @ c # q) (acc @ ds) (c # q)"
  using assms(6)
proof (induction ds arbitrary: acc)
  case Nil
  then show ?case using runs_directives_end [OF v(1,3,4)] by (simp add: directives_text_def)
next
  case (Cons d ds)
  have "runs (parse_directive u) (directive_text d @ directives_text ds @ v @ c # q) d (directives_text ds @ v @ c # q)"
    using Cons.prems by (intro runs_directive u directives_text_stops v) simp
  moreover have "runs (directives_loop u (acc @ [d])) (directives_text ds @ v @ c # q) ((acc @ [d]) @ ds) (c # q)"
    using Cons.prems by (intro Cons.IH) simp
  ultimately show ?case using runs_directives_step [of u _ d _ acc _ _ "[32]"] by (simp add: directives_text_def)
qed

section \<open>Field types\<close>

lemma parse_scalar_name [simp]: "parse_scalar_type (scalar_name t) = Some t" "scalar_name t \<noteq> lit ''Vector''"
  by (cases t; simp add: parse_scalar_type_def)+

lemma runs_edge_field:
  assumes "tables_ok u" "ident_ok u (ef_name ef)" "stops (ident_char u) a"
    "\<And>s. c_rest s = a \<Longrightarrow> c_rest (let s4 = skip_whitespace s in if peek s4 = Some 44 then snd (advance s4) else s4) = b"
  shows "runs (push_edge_field u fs) (ef_name ef @ 58 # 32 # scalar_name (ef_scalar_type ef) @ a) (fs @ [ef]) b"
proof -
  have fin: "runs (\<lambda>s. let s4 = skip_whitespace s in
      Inr (\<lparr>ef_name = ef_name ef, ef_scalar_type = ef_scalar_type ef\<rparr>, if peek s4 = Some 44 then snd (advance s4) else s4)) a ef b"
    using assms(4) by (simp add: runs_def Let_def)
  have "runs (edge_field u) (ef_name ef @ 58 # 32 # scalar_name (ef_scalar_type ef) @ a) ef b"
    unfolding edge_field_def [abs_def]
    by (rule runs_bind [OF runs_ident0 [OF assms(1,2)]], simp, rule runs_bind [OF runs_expect0], simp,
        rule runs_bind [OF runs_ident1 [OF assms(1) name_ok(4) assms(3)]], simp add: fin)
  then show ?thesis unfolding push_edge_field_def [abs_def] by (rule runs_bind) (rule runs_return)
qed

lemma ident_ok_first:
  assumes "tables_ok u" "ident_ok u n"
  obtains c m where "n = c # m" "ident_char u c" "token_char c"
  using assms ident_char_token by (cases n) (auto simp: ident_ok_def)

lemma runs_edge_fields:
  assumes "tables_ok u" "list_all (\<lambda>ef. ident_ok u (ef_name ef)) efs"
  shows "efs \<noteq> [] \<Longrightarrow> runs (edge_fields_loop u fs) (32 # emit_edge_fields efs @ 32 # 125 # r) (fs @ efs) r"
  using assms(2)
proof (induction efs arbitrary: fs)
  case (Cons ef efs)
  have n: "ident_ok u (ef_name ef)" using Cons.prems(2) by simp
  obtain c m where c: "ef_name ef = c # m" "ident_char u c" "token_char c" using ident_ok_first [OF assms(1) n] .
  have c125: "c \<noteq> 125" using c(2) by (auto simp del: ident_punctuation dest: ident_punctuation(11) [THEN notE])
  let ?t = "ef_name ef @ 58 # 32 # scalar_name (ef_scalar_type ef)"
  show ?case
  proof (cases "efs = []")
    case True
    have b: "runs (push_edge_field u fs) (?t @ 32 # 125 # r) (fs @ [ef]) (125 # r)"
      using runs_edge_field [OF assms(1) n, of "32 # 125 # r" "125 # r" fs] skip_whitespace_token [of _ "[32]" 125 r]
      by (simp add: Let_def)
    have "runs (edge_fields_loop u (fs @ [ef])) ([] @ 125 # r) (fs @ [ef]) r" by (rule edge_loop.runs_close) simp_all
    with edge_loop.runs_step [OF c(3) c125 _ b [unfolded c(1) append_Cons], of "[32]"] True
    show ?thesis by (simp add: emit_edge_field_def c(1) lit_def)
  next
    case False
    let ?r = "32 # emit_edge_fields efs @ 32 # 125 # r"
    have b: "runs (push_edge_field u fs) (?t @ 44 # ?r) (fs @ [ef]) ?r"
      using runs_edge_field [OF assms(1) n, of "44 # ?r" ?r fs] skip_whitespace_token [of _ "[]" 44 ?r]
      by (simp add: Let_def rest_snd_advance)
    have "runs (edge_fields_loop u (fs @ [ef])) ?r ((fs @ [ef]) @ efs) r" using False Cons.prems(2) by (intro Cons.IH) simp_all
    with edge_loop.runs_step [OF c(3) c125 _ b [unfolded c(1) append_Cons], of "[32]"] False
    show ?thesis by (simp add: emit_edge_field_def c(1) lit_def)
  qed
qed simp

text \<open>A relationship to one object is written as a bare name, so its target must not read as another type.\<close>

fun field_type_ok :: "char_tables \<Rightarrow> FieldType \<Rightarrow> bool" where
  "field_type_ok u (Relation rel) \<longleftrightarrow> ident_ok u (target_type rel) \<and> list_all (\<lambda>ef. ident_ok u (ef_name ef)) (edge_fields rel) \<and>
     (is_many rel \<or> target_type rel \<noteq> lit ''Vector'' \<and> parse_scalar_type (target_type rel) = None)"
| "field_type_ok u _ \<longleftrightarrow> True"

text \<open>The parts of a field type: the type without edge fields, and the edge fields.\<close>

fun bare_type :: "FieldType \<Rightarrow> FieldType" where
  "bare_type (Relation rel) = Relation (rel\<lparr>edge_fields := []\<rparr>)"
| "bare_type ft = ft"

fun edges_text :: "FieldType \<Rightarrow> rtext" where
  "edges_text (Relation rel) =
     (if edge_fields rel \<noteq> [] then 32 # 123 # 32 # emit_edge_fields (edge_fields rel) @ 32 # [125] else [])"
| "edges_text ft = []"

lemma emit_field_type_parts: "emit_field_type ft = emit_field_type (bare_type ft) @ edges_text ft"
  by (cases ft) (simp_all add: emit_field_type_def lit_def)

lemma parse_field_type_name:
  assumes "tables_ok u" "ident_ok u n" "stops (ident_char u) a"
    "runs (\<lambda>s. if n = lit ''Vector'' then
          rbind (expect 60 s) (\<lambda>(_, s2). rbind (parse_u32 s2) (\<lambda>(dims, s3). rbind (expect 62 s3) (\<lambda>(_, s4).
          Inr (Vector \<lparr>dimensions = dims\<rparr>, s4))))
        else case parse_scalar_type n of
          Some scalar \<Rightarrow> Inr (Scalar scalar, s)
        | None \<Rightarrow> Inr (Relation \<lparr>target_type = n, is_many = False, edge_fields = []\<rparr>, s)) a ft r"
  shows "runs (parse_field_type u) (32 # n @ a) ft r"
  unfolding runs_def
proof (intro allI impI)
  fix s :: cursor assume s: "c_rest s = 32 # n @ a"
  obtain c m where c: "n = c # m" "ident_char u c" "token_char c" using ident_ok_first [OF assms(1,2)] .
  have c91: "c \<noteq> 91" using c(2) by (auto simp: ident_char_def is_alphanumeric_def is_ascii_alphanumeric_def is_ascii_alphabetic_def is_ascii_digit_def)
  have sk: "c_rest (skip_whitespace s) = n @ a" "peek (skip_whitespace s) = Some c"
    using skip_whitespace_token [of s "[32]" c "m @ a"] s c by simp_all
  obtain s1 where s1: "parse_ident u (skip_whitespace s) = Inr (n, s1)" "c_rest s1 = a"
    using runs_ident0 [OF assms(1-3)] sk(1) unfolding runs_def by blast
  show "\<exists>t. parse_field_type u s = Inr (ft, t) \<and> c_rest t = r"
    using assms(4) s1 sk(2) c91 unfolding runs_def parse_field_type_def by simp
qed

lemma runs_bare_type:
  assumes "tables_ok u" "field_type_ok u ft" "stops (ident_char u) r"
  shows "runs (parse_field_type u) (32 # emit_field_type (bare_type ft) @ r) (bare_type ft) r"
proof (cases ft)
  case (Scalar t)
  then show ?thesis using parse_field_type_name [OF assms(1) name_ok(4) assms(3)]
    by (simp add: emit_field_type_def runs_return)
next
  case (Vector v)
  have n: "ident_ok u (lit ''Vector'')" by (simp add: ident_evals)
  have v: "\<lparr>dimensions = dimensions v\<rparr> = v" by simp
  have "runs (parse_field_type u) (32 # lit ''Vector'' @ 60 # dec (unat (dimensions v)) @ 62 # r) (Vector v) r"
    by (rule parse_field_type_name [OF assms(1) n], simp, simp, rule runs_bind [OF runs_expect0], simp,
        rule runs_bind [OF runs_u32_0], simp, rule runs_bind [OF runs_expect0], simp, subst v, rule runs_return)
  moreover have "emit_field_type ft @ r = lit ''Vector'' @ 60 # dec (unat (dimensions v)) @ 62 # r"
    by (simp add: Vector emit_field_type_def lit_def)
  ultimately show ?thesis using Vector by simp
next
  case (Relation rel)
  then have t: "ident_ok u (target_type rel)" using assms(2) by simp
  show ?thesis
  proof (cases "is_many rel")
    case False
    have rel: "rel\<lparr>edge_fields := []\<rparr> = \<lparr>target_type = target_type rel, is_many = False, edge_fields = []\<rparr>" using False by simp
    have "runs (parse_field_type u) (32 # target_type rel @ r)
        (Relation \<lparr>target_type = target_type rel, is_many = False, edge_fields = []\<rparr>) r"
      using parse_field_type_name [OF assms(1) t assms(3)] False Relation assms(2) by (simp add: runs_return)
    then show ?thesis by (simp add: Relation False emit_field_type_def rel)
  next
    case True
    have rel: "rel\<lparr>edge_fields := []\<rparr> = \<lparr>target_type = target_type rel, is_many = True, edge_fields = []\<rparr>" using True by simp
    have "runs (\<lambda>s. rbind (parse_ident u s) (\<lambda>(inner, s1). rbind (expect 93 s1) (\<lambda>(_, s2).
        Inr (Relation \<lparr>target_type = inner, is_many = True, edge_fields = []\<rparr>, s2)))) (target_type rel @ 93 # r) (bare_type ft) r"
      by (rule runs_bind [OF runs_ident0 [OF assms(1) t]], simp, rule runs_bind [OF runs_expect0], simp)
        (simp add: Relation rel runs_return)
    moreover have "c_rest (skip_whitespace s) = 91 # target_type rel @ 93 # r" "peek (skip_whitespace s) = Some 91"
      if "c_rest s = 32 # 91 # target_type rel @ 93 # r" for s
      using skip_whitespace_token [of s "[32]" 91] that by simp_all
    ultimately show ?thesis
      using True unfolding Relation by (simp add: runs_def emit_field_type_def parse_field_type_def rest_snd_advance lit_def)
  qed
qed

definition reach :: "(cursor \<Rightarrow> SchemaError + 'a \<times> cursor) \<Rightarrow> rtext \<Rightarrow> 'a \<Rightarrow> rtext \<Rightarrow> bool" where
  "reach p a x b \<longleftrightarrow> (\<forall>s. c_rest s = a \<longrightarrow> (\<exists>t w. p s = Inr (x, t) \<and> c_rest t = w @ b \<and> blank w))"

lemma reach_edge_fields:
  assumes "tables_ok u" "field_type_ok u ft" "blank w" "token_char c" "c \<noteq> 123"
  shows "reach (with_edge_fields u (bare_type ft)) (edges_text ft @ w @ c # q) ft (c # q)"
proof (cases ft)
  case (Relation rel)
  show ?thesis
  proof (cases "edge_fields rel = []")
    case True
    then have "rel\<lparr>edge_fields := []\<rparr> = rel" by simp
    then show ?thesis
      using True skip_whitespace_token [OF _ assms(3,4)] assms(5) blank_simps(1)
      unfolding Relation reach_def by (auto simp: with_edge_fields_def intro!: exI [of _ "[]"])
  next
    case False
    let ?r = "w @ c # q"
    have "runs (edge_fields_loop u []) (32 # emit_edge_fields (edge_fields rel) @ 32 # 125 # ?r) ([] @ edge_fields rel) ?r"
      using False assms(2) Relation by (intro runs_edge_fields assms(1)) simp_all
    then have e: "runs (parse_edge_fields u) (123 # 32 # emit_edge_fields (edge_fields rel) @ 32 # 125 # ?r) (edge_fields rel) ?r"
      unfolding parse_edge_fields_def [abs_def] by (intro runs_bind [OF runs_expect0]) simp_all
    have "\<exists>t. with_edge_fields u (bare_type ft) s = Inr (ft, t) \<and> c_rest t = ?r"
      if s: "c_rest s = 32 # 123 # 32 # emit_edge_fields (edge_fields rel) @ 32 # 125 # ?r" for s
    proof -
      have sk: "c_rest (skip_whitespace s) = 123 # 32 # emit_edge_fields (edge_fields rel) @ 32 # 125 # ?r"
        "peek (skip_whitespace s) = Some 123" using skip_whitespace_token [of s "[32]" 123] s by simp_all
      then obtain t where "parse_edge_fields u (skip_whitespace s) = Inr (edge_fields rel, t)" "c_rest t = ?r"
        using e unfolding runs_def by blast
      then show ?thesis using sk(2) by (simp add: Relation with_edge_fields_def)
    qed
    then show ?thesis using False assms(3) unfolding reach_def Relation by simp blast
  qed
qed (use assms(3) in \<open>auto simp: reach_def with_edge_fields_def\<close>)

section \<open>Fields and types\<close>

definition field_ok :: "char_tables \<Rightarrow> FieldDef \<Rightarrow> bool" where
  "field_ok u f \<longleftrightarrow> ident_ok u (fd_name f) \<and> field_type_ok u (fd_field_type f) \<and> list_all (directive_ok u) (fd_directives f)"

definition type_ok :: "char_tables \<Rightarrow> TypeDef \<Rightarrow> bool" where
  "type_ok u td \<longleftrightarrow> ident_ok u (td_name td) \<and> list_all (field_ok u) (td_fields td)"

lemma emit_field_text: "emit_field f = fd_name f @ 58 # 32 # emit_field_type (fd_field_type f) @ directives_text (fd_directives f)"
  by (simp add: emit_field_def directives_text_def emit_directive_at lit_def)

lemma reach_runs:
  assumes "reach p a x b" "\<And>w. blank w \<Longrightarrow> runs (f x) (w @ b) y c"
  shows "runs (\<lambda>s. rbind (p s) (\<lambda>(x, s). f x s)) a y c"
  using assms unfolding reach_def runs_def by (fastforce simp: rbind_inr)

lemma runs_field:
  assumes u: "tables_ok u" and ok: "field_ok u f" and v: "blank v" "v \<noteq> []" "token_char c" "c \<noteq> 64" "c \<noteq> 123"
  shows "runs (parse_field_def u) (emit_field f @ v @ c # q) f (c # q)"
proof -
  let ?ft = "fd_field_type f" and ?ds = "fd_directives f"
  let ?a = "directives_text ?ds @ v @ c # q"
  have oks: "ident_ok u (fd_name f)" "field_type_ok u ?ft" "list_all (directive_ok u) ?ds" using ok by (simp_all add: field_ok_def)
  have f: "\<lparr>fd_name = fd_name f, fd_field_type = ?ft, fd_directives = ?ds\<rparr> = f" by simp
  have rest: "runs (\<lambda>s. rbind (with_edge_fields u (bare_type ?ft) s) (\<lambda>(ft', s4). rbind (directives_loop u [] s4) (\<lambda>(ds, s5).
      Inr (\<lparr>fd_name = fd_name f, fd_field_type = ft', fd_directives = ds\<rparr>, s5)))) (edges_text ?ft @ ?a) f (c # q)"
  proof (cases ?ds)
    case Nil
    have e: "reach (with_edge_fields u (bare_type ?ft)) (edges_text ?ft @ v @ c # q) ?ft (c # q)"
      by (rule reach_edge_fields [OF u oks(2) v(1,3,5)])
    have "runs (\<lambda>s. rbind (directives_loop u [] s) (\<lambda>(ds, s5). Inr (\<lparr>fd_name = fd_name f, fd_field_type = ?ft, fd_directives = ds\<rparr>, s5)))
        (w @ c # q) f (c # q)" if "blank w" for w
      by (rule runs_bind [OF runs_directives_end [OF that v(3,4)]], subst Nil [symmetric], subst f, rule runs_return)
    then have "runs (\<lambda>s. rbind (with_edge_fields u (bare_type ?ft) s) (\<lambda>(ft', s4). rbind (directives_loop u [] s4) (\<lambda>(ds, s5).
      Inr (\<lparr>fd_name = fd_name f, fd_field_type = ft', fd_directives = ds\<rparr>, s5)))) (edges_text ?ft @ v @ c # q) f (c # q)"
      by (rule reach_runs [OF e])
    then show ?thesis using Nil by (simp add: directives_text_def)
  next
    case (Cons d ds)
    let ?b = "directive_text d @ directives_text ds @ v @ c # q"
    have e: "reach (with_edge_fields u (bare_type ?ft)) (edges_text ?ft @ [32] @ 64 # ?b) ?ft (64 # ?b)"
      by (rule reach_edge_fields [OF u oks(2)]) simp_all
    have d: "runs (parse_directive u) ?b d (directives_text ds @ v @ c # q)"
      using oks(3) Cons by (intro runs_directive u directives_text_stops v) simp
    have l: "runs (directives_loop u ([] @ [d])) (directives_text ds @ v @ c # q) (([] @ [d]) @ ds) (c # q)"
      using oks(3) Cons by (intro runs_directives u v) simp
    have "runs (\<lambda>s. rbind (directives_loop u [] s) (\<lambda>(ds, s5). Inr (\<lparr>fd_name = fd_name f, fd_field_type = ?ft, fd_directives = ds\<rparr>, s5)))
        (w @ 64 # ?b) f (c # q)" if "blank w" for w
      by (rule runs_bind [OF runs_directives_step [OF d l that]], subst append_Nil, subst append_Cons, subst append_Nil,
          subst Cons [symmetric], subst f, rule runs_return)
    then have "runs (\<lambda>s. rbind (with_edge_fields u (bare_type ?ft) s) (\<lambda>(ft', s4). rbind (directives_loop u [] s4) (\<lambda>(ds, s5).
      Inr (\<lparr>fd_name = fd_name f, fd_field_type = ft', fd_directives = ds\<rparr>, s5)))) (edges_text ?ft @ [32] @ 64 # ?b) f (c # q)"
      by (rule reach_runs [OF e])
    then show ?thesis using Cons by (simp add: directives_text_def)
  qed
  have st: "stops (ident_char u) (edges_text ?ft @ ?a)"
    using directives_text_stops [OF u v(1,2)] by (cases ?ft) simp_all
  show ?thesis
    unfolding parse_field_def_def [abs_def] emit_field_text emit_field_type_parts [of ?ft] append_assoc append_Cons
    by (rule runs_bind [OF runs_ident0 [OF u oks(1)]], simp, rule runs_bind [OF runs_expect0], simp,
        rule runs_bind [OF runs_bare_type [OF u oks(2) st]], rule rest)
qed

definition fields_text :: "FieldDef list \<Rightarrow> rtext" where
  "fields_text fs = concat (map (\<lambda>f. lit ''    '' @ emit_field f @ [10]) fs)"

lemma emit_type_text: "emit_type td = lit ''type'' @ 32 # td_name td @ 32 # 123 # 10 # fields_text (td_fields td) @ 125 # [10]"
  by (simp add: emit_type_def fields_text_def lit_def)

lemma emit_field_first:
  assumes "tables_ok u" "field_ok u f"
  obtains c m where "emit_field f = c # m" "token_char c" "c \<noteq> 125" "c \<noteq> 64" "c \<noteq> 123"
proof -
  have "ident_ok u (fd_name f)" using assms(2) by (simp add: field_ok_def)
  then obtain c m where c: "fd_name f = c # m" "ident_char u c" "token_char c" using ident_ok_first [OF assms(1)] by blast
  then have "c \<noteq> 125 \<and> c \<noteq> 64 \<and> c \<noteq> 123"
    by (auto simp: ident_char_def is_alphanumeric_def is_ascii_alphanumeric_def is_ascii_alphabetic_def is_ascii_digit_def)
  then show thesis using c that by (simp add: emit_field_text)
qed

text \<open>The fields with the blanks between them, from the first field on.\<close>

definition field_gap :: "FieldDef list \<Rightarrow> rtext" where
  "field_gap fs = 10 # (if fs = [] then [] else lit ''    '')"

fun fields_tail :: "FieldDef list \<Rightarrow> rtext \<Rightarrow> rtext" where
  "fields_tail [] r = 125 # r"
| "fields_tail (f # fs) r = emit_field f @ field_gap fs @ fields_tail fs r"

lemma fields_text_tail: "10 # fields_text fs @ 125 # r = field_gap fs @ fields_tail fs r"
proof -
  have "fields_text fs @ 125 # r = (if fs = [] then [] else lit ''    '') @ fields_tail fs r" for fs
    by (induction fs) (auto simp: fields_text_def field_gap_def)
  then show ?thesis by (simp add: field_gap_def)
qed

lemma fields_tail_first:
  assumes "tables_ok u" "list_all (field_ok u) fs"
  obtains c q where "fields_tail fs r = c # q" "token_char c" "c \<noteq> 64" "c \<noteq> 123"
proof (cases fs)
  case Nil
  then show thesis using that by simp
next
  case (Cons f gs)
  then have "field_ok u f" using assms(2) by simp
  then obtain c m where "emit_field f = c # m" "token_char c" "c \<noteq> 64" "c \<noteq> 123" using emit_field_first [OF assms(1)] by blast
  then show thesis using that Cons by simp
qed

lemma runs_fields:
  assumes u: "tables_ok u" and "list_all (field_ok u) fs" "blank w"
  shows "runs (fields_loop u acc) (w @ fields_tail fs r) (acc @ fs) r"
  using assms(2,3)
proof (induction fs arbitrary: acc w)
  case Nil
  then show ?case using fields_loop.runs_close [of w u acc r] by simp
next
  case (Cons f fs)
  have f: "field_ok u f" and fs: "list_all (field_ok u) fs" using Cons.prems(1) by simp_all
  obtain c m where c: "emit_field f = c # m" "token_char c" "c \<noteq> 125" using emit_field_first [OF u f] by blast
  obtain d q where d: "fields_tail fs r = d # q" "token_char d" "d \<noteq> 64" "d \<noteq> 123" using fields_tail_first [OF u fs] by blast
  have gap: "blank (field_gap fs)" "field_gap fs \<noteq> []" by (simp_all add: field_gap_def lit_def)
  have "runs (parse_field_def u) (emit_field f @ field_gap fs @ d # q) f (d # q)" by (rule runs_field [OF u f gap d(2-4)])
  then have b: "runs (push_field u acc) (emit_field f @ field_gap fs @ d # q) (acc @ [f]) (d # q)"
    unfolding push_field_def [abs_def] by (rule runs_bind) (rule runs_return)
  have "runs (fields_loop u (acc @ [f])) ([] @ fields_tail fs r) ((acc @ [f]) @ fs) r" by (rule Cons.IH [OF fs]) simp
  then have "runs (fields_loop u (acc @ [f])) (d # q) (acc @ f # fs) r" by (simp add: d(1))
  from fields_loop.runs_step [OF c(2,3) Cons.prems(2) b [unfolded c(1) append_Cons] this]
  show ?case by (simp add: c(1) d(1))
qed

lemma runs_type:
  assumes u: "tables_ok u" and ok: "type_ok u td"
  shows "runs (parse_type_def u) (emit_type td @ r) td (10 # r)"
  unfolding runs_def
proof (intro allI impI)
  fix s :: cursor assume s: "c_rest s = emit_type td @ r"
  have n: "ident_ok u (lit ''type'')" "ident_ok u (td_name td)" "list_all (field_ok u) (td_fields td)"
    using ok by (simp_all add: type_ok_def ident_evals)
  have gap: "blank (field_gap (td_fields td))" by (simp add: field_gap_def lit_def)
  let ?a = "lit ''type'' @ 32 # td_name td @ 32 # 123 # field_gap (td_fields td) @ fields_tail (td_fields td) (10 # r)"
  have "emit_type td @ r = ?a" using fields_text_tail [of "td_fields td" "10 # r"] by (simp add: emit_type_text)
  then have "c_rest (skip_whitespace s) = ?a"
    using s skip_whitespace_token(1) [of s "[]" 116 "tl ?a"] by (simp add: lit_def token_char_def is_whitespace_def)
  moreover have "runs (\<lambda>s. rbind (parse_ident u s) (\<lambda>(keyword, s1).
     if keyword \<noteq> lit ''type'' then
       Inl (parse_error s1 (lit ''expected '' @ squote (lit ''type'') @ lit '', got '' @ squote keyword))
     else
       rbind (parse_ident u s1) (\<lambda>(name, s2).
       rbind (expect 123 s2) (\<lambda>(_, s3).
       rbind (fields_loop u [] s3) (\<lambda>(fs, s4).
       Inr (\<lparr>td_name = name, td_fields = fs\<rparr>, s4)))))) ?a td (10 # r)"
  proof -
    have e: "runs (expect 123) (32 # 123 # b) () b" for b using runs_expect [of "[32]" 123 b] by simp
    have td: "\<lparr>td_name = td_name td, td_fields = [] @ td_fields td\<rparr> = td" by simp
    show ?thesis
      by (rule runs_bind [OF runs_ident0 [OF u n(1)]], simp, simp, rule runs_bind [OF runs_ident1 [OF u n(2)]], simp,
          rule runs_bind [OF e], rule runs_bind [OF runs_fields [OF u n(3) gap]], subst td, rule runs_return)
  qed
  ultimately show "\<exists>t. parse_type_def u s = Inr (td, t) \<and> c_rest t = 10 # r"
    unfolding parse_type_def_def runs_def by blast
qed

section \<open>Schemas\<close>

lemma runs_types:
  assumes u: "tables_ok u" and "list_all (type_ok u) tds" "distinct (map fst types @ map td_name tds)" "c_rest s = emit_types tds"
  shows "types_loop u types s = Inr (types @ map (\<lambda>td. (td_name td, td)) tds)"
  using assms(2-4)
proof (induction tds arbitrary: types s)
  case Nil
  then show ?case by (subst types_loop.simps) (simp add: is_eof_def)
next
  case (Cons td tds)
  let ?r = "if tds = [] then [] else 10 # emit_types tds"
  have td: "type_ok u td" and s: "c_rest s = emit_type td @ ?r" using Cons.prems by simp_all
  obtain s1 where s1: "parse_type_def u s = Inr (td, s1)" "c_rest s1 = 10 # ?r"
    using runs_type [OF u td, of ?r] s unfolding runs_def by blast
  have sk: "c_rest (skip_whitespace s1) = emit_types tds"
  proof (cases tds)
    case Nil
    then show ?thesis using skip_whitespace_end [OF s1(2)] by simp
  next
    case (Cons td' tds')
    then show ?thesis
      using skip_whitespace_token(1) [of s1 "[10, 10]" 116 "tl (emit_types tds)"] s1(2)
      by (simp add: emit_type_text lit_def token_char_def is_whitespace_def)
  qed
  have "emit_type td \<noteq> []" by (simp add: emit_type_def lit_def)
  then have "\<not> is_eof s" using s by (simp add: is_eof_def)
  moreover have "td_name td \<notin> fst ` set types" using Cons.prems(2) by auto
  moreover have "types_loop u (types @ [(td_name td, td)]) (skip_whitespace s1) =
      Inr ((types @ [(td_name td, td)]) @ map (\<lambda>td. (td_name td, td)) tds)"
    using Cons.prems by (intro Cons.IH sk) auto
  ultimately show ?case using s1(1) by (subst types_loop.simps) simp
qed

section \<open>What the parser returns can be written\<close>

lemma parse_ident_ok: "parse_ident u s = Inr (n, t) \<Longrightarrow> ident_ok u n"
  using set_takeWhileD by (fastforce simp: parse_ident_inr ident_ok_def list_all_iff dest: conjunct2 [OF take_chars_rest])

lemma parse_string_value_ok: "parse_string_value s = Inr (v, t) \<Longrightarrow> 34 \<notin> set v"
proof -
  assume p: "parse_string_value s = Inr (v, t)"
  then obtain s1 where s1: "expect 34 (skip_whitespace s) = Inr ((), s1)" by (auto simp: parse_string_value_def rbind_inr)
  obtain w t1 where w: "take_chars (\<lambda>c. c \<noteq> 34) s1 = (w, t1)" by (cases "take_chars (\<lambda>c. c \<noteq> 34) s1")
  have "v = takeWhile (\<lambda>c. c \<noteq> 34) (c_rest s1)"
    using p conjunct2 [OF take_chars_rest [OF w]] by (simp add: parse_string_value_def s1 w split: if_splits)
  then show ?thesis using set_takeWhileD by fastforce
qed

lemma parse_field_type_ok: "parse_field_type u s = Inr (ft, t) \<Longrightarrow> field_type_ok u ft"
  by (auto simp: parse_field_type_def Let_def rbind_inr dest: parse_ident_ok split: if_splits option.splits)

lemma edge_fields_ok:
  assumes "edge_fields_loop u [] s = Inr (es, t)"
  shows "list_all (\<lambda>ef. ident_ok u (ef_name ef)) es"
proof (rule edge_loop.loop_keeps [OF assms])
  show "list_all (\<lambda>ef. ident_ok u (ef_name ef)) []" by simp
qed (auto simp: push_edge_field_def edge_field_def rbind_inr Let_def dest: parse_ident_ok split: option.splits)

lemma with_edge_fields_ok: "with_edge_fields u ft s = Inr (ft', t) \<Longrightarrow> field_type_ok u ft \<Longrightarrow> field_type_ok u ft'"
  by (cases ft) (auto simp: with_edge_fields_def parse_edge_fields_def Let_def rbind_inr dest: edge_fields_ok split: if_splits)

lemma vectorize_params_ok:
  assumes "vectorize_params u (None, None) s = Inr (sm, t)"
  shows "(\<forall>v. fst sm = Some v \<longrightarrow> 34 \<notin> set v) \<and> (\<forall>v. snd sm = Some v \<longrightarrow> 34 \<notin> set v)"
proof (rule vectorize_loop.loop_keeps [OF assms])
  show "(\<forall>v. fst (None, None) = Some v \<longrightarrow> 34 \<notin> set v) \<and> (\<forall>v. snd (None, None) = Some v \<longrightarrow> 34 \<notin> set v)" by simp
qed (auto simp: vectorize_param_def rbind_inr dest: parse_string_value_ok split: if_splits)

lemma fulltext_params_ok:
  assumes "fulltext_params u (fulltext_default, False, False) s = Inr (st, t)"
  shows "ft_analyzer (fst st) \<in> set KNOWN_ANALYZERS"
proof (rule fulltext_loop.loop_keeps [OF assms])
  show "ft_analyzer (fst (fulltext_default, False, False)) \<in> set KNOWN_ANALYZERS"
    by (simp add: fulltext_default_def DEFAULT_ANALYZER_def KNOWN_ANALYZERS_def)
qed (auto simp: fulltext_param_def rbind_inr split: if_splits)

lemma parse_directive_ok: "parse_directive u s = Inr (d, t) \<Longrightarrow> directive_ok u d"
proof -
  assume "parse_directive u s = Inr (d, t)"
  then obtain n s1 where "directive_named u n s1 = Inr (d, t)" by (auto simp: parse_directive_def rbind_inr)
  moreover have "ft_analyzer fulltext_default \<in> set KNOWN_ANALYZERS"
    by (simp add: fulltext_default_def DEFAULT_ANALYZER_def KNOWN_ANALYZERS_def)
  ultimately show ?thesis
    by (auto simp: directive_named_def Let_def rbind_inr vectorize_def_inr
        dest: parse_ident_ok vectorize_params_ok fulltext_params_ok split: if_splits)
qed

lemma directives_loop_ok:
  "directives_loop u ds s = Inr (ds', t) \<Longrightarrow> list_all (directive_ok u) ds \<Longrightarrow> list_all (directive_ok u) ds'"
proof (induction u ds s rule: directives_loop.induct)
  case (1 u ds s)
  let ?s1 = "skip_whitespace s"
  show ?case
  proof (cases "peek ?s1 = Some 64")
    case False
    then show ?thesis using "1.prems" by (subst (asm) directives_loop.simps) simp
  next
    case True
    then obtain d s2 where r: "parse_directive u (snd (advance ?s1)) = Inr (d, s2)" "directives_loop u (ds @ [d]) s2 = Inr (ds', t)"
      using "1.prems"(1) by (subst (asm) directives_loop.simps) (auto simp: rbind_inr)
    show ?thesis using "1.IH" [OF refl True r(1) refl r(2)] parse_directive_ok [OF r(1)] "1.prems"(2) by simp
  qed
qed

lemma parse_field_def_ok: "parse_field_def u s = Inr (f, t) \<Longrightarrow> field_ok u f"
  by (auto simp: parse_field_def_def field_ok_def rbind_inr
      dest: parse_ident_ok parse_field_type_ok with_edge_fields_ok directives_loop_ok)

lemma fields_loop_ok:
  assumes "fields_loop u [] s = Inr (fs, t)"
  shows "list_all (field_ok u) fs"
proof (rule fields_loop.loop_keeps [OF assms])
  show "list_all (field_ok u) []" by simp
qed (auto simp: push_field_def rbind_inr dest: parse_field_def_ok)

lemma parse_type_def_ok: "parse_type_def u s = Inr (td, t) \<Longrightarrow> type_ok u td"
  by (auto simp: parse_type_def_def type_ok_def rbind_inr dest: parse_ident_ok fields_loop_ok split: if_splits)

definition schema_ok :: "char_tables \<Rightarrow> Schema \<Rightarrow> bool" where
  "schema_ok u s \<longleftrightarrow> distinct (map fst s) \<and> (\<forall>p \<in> set s. fst p = td_name (snd p) \<and> type_ok u (snd p))"

lemma types_loop_ok: "types_loop u types s = Inr s' \<Longrightarrow> schema_ok u types \<Longrightarrow> schema_ok u s'"
proof (induction u types s rule: types_loop.induct)
  case (1 u types s)
  show ?case
  proof (cases "is_eof s")
    case True
    then show ?thesis using "1.prems" by (subst (asm) types_loop.simps) simp
  next
    case False
    then obtain td s1 where r: "parse_type_def u s = Inr (td, s1)" "td_name td \<notin> fst ` set types"
        "types_loop u (types @ [(td_name td, td)]) (skip_whitespace s1) = Inr s'"
      using "1.prems"(1) by (subst (asm) types_loop.simps) (auto simp: rbind_inr split: if_splits)
    show ?thesis
      using "1.IH" [OF False r(1) refl r(2,3)] "1.prems"(2) r(2) parse_type_def_ok [OF r(1)] by (auto simp: schema_ok_def)
  qed
qed

lemma parse_schema_inr: "parse_schema u input = Inr s \<Longrightarrow> schema_ok u s \<and> schema_valid s"
proof -
  assume "parse_schema u input = Inr s"
  then have "types_loop u [] (skip_whitespace (parser_new input)) = Inr s" "validate_schema s = Inr ()"
    by (auto simp: parse_schema_def rbind_inr)
  then show ?thesis using types_loop_ok [of u "[]"] by (simp add: validate_schema_iff schema_ok_def)
qed

text \<open>The types of a schema sorted by name.\<close>

lemma sorted_types:
  assumes "schema_ok u s"
  defines "t \<equiv> map (\<lambda>n. (n, the (map_of s n))) (sort (map fst s))"
  shows "map_of t = map_of s" "set t = set s" "t = map (\<lambda>td. (td_name td, td)) (map (\<lambda>n. the (map_of s n)) (sort (map fst s)))"
    "distinct (map fst t)"
proof -
  have d: "distinct (map fst s)" using assms(1) by (simp add: schema_ok_def)
  show dt: "distinct (map fst t)" using d by (simp add: t_def comp_def)
  show st: "set t = set s" using d by (force simp: t_def image_iff)
  show "map_of t = map_of s" by (rule map_of_inject_set [THEN iffD2, OF dt d st])
  have "td_name (the (map_of s n)) = n" if "n \<in> fst ` set s" for n
    using that d assms(1) by (force simp: schema_ok_def)
  then show "t = map (\<lambda>td. (td_name td, td)) (map (\<lambda>n. the (map_of s n)) (sort (map fst s)))"
    by (simp add: t_def)
qed

lemma parse_emitted:
  assumes u: "tables_ok u" and s: "schema_ok u s" "schema_valid s"
  shows "parse_schema u (emit_schema s) = Inr (map (\<lambda>n. (n, the (map_of s n))) (sort (map fst s)))"
proof -
  define t where "t = map (\<lambda>n. (n, the (map_of s n))) (sort (map fst s))"
  note t = sorted_types [OF s(1), folded t_def]
  let ?tds = "map (\<lambda>n. the (map_of s n)) (sort (map fst s))"
  have ok: "list_all (type_ok u) ?tds" and nm: "map td_name ?tds = map fst t"
  proof -
    show "map td_name ?tds = map fst t" by (subst t(3)) (simp add: comp_def)
    have "snd ` set t = set ?tds" by (subst t(3)) (force simp: image_iff)
    then show "list_all (type_ok u) ?tds" using s(1) t(2) by (auto simp: list_all_iff schema_ok_def)
  qed
  have "c_rest (skip_whitespace (parser_new (emit_schema s))) = emit_types ?tds"
  proof (cases ?tds)
    case Nil
    then show ?thesis using skip_whitespace_end [of "parser_new []" "[]"] by (simp add: emit_schema_def parser_new_def)
  next
    case (Cons td tds)
    have "emit_types (td # tds) = 116 # tl (emit_types (td # tds))" by (simp add: emit_type_text lit_def)
    then show ?thesis
      using skip_whitespace_token(1) [of "parser_new (emit_schema s)" "[]" 116 "tl (emit_types ?tds)"] Cons
      by (simp add: emit_schema_def parser_new_def token_char_def is_whitespace_def)
  qed
  then have "types_loop u [] (skip_whitespace (parser_new (emit_schema s))) = Inr ([] @ map (\<lambda>td. (td_name td, td)) ?tds)"
    using t(4) nm by (intro runs_types u ok) simp_all
  then have "types_loop u [] (skip_whitespace (parser_new (emit_schema s))) = Inr t" using t(3) by simp
  moreover have "validate_schema t = Inr ()" using s(2) schema_valid_cong [OF t(2,1)] by (simp add: validate_schema_iff)
  ultimately show ?thesis by (simp add: parse_schema_def t_def)
qed

text \<open>Two types that refer to each other.\<close>

definition sample_schema :: Schema where
  "sample_schema =
     [(lit ''Post'', \<lparr>td_name = lit ''Post'', td_fields =
        [\<lparr>fd_name = lit ''title'', fd_field_type = Scalar ST_String,
           fd_directives = [Unique, Fulltext \<lparr>ft_analyzer = lit ''english'', ft_positions = False\<rparr>]\<rparr>,
         \<lparr>fd_name = lit ''author'', fd_field_type = Relation \<lparr>target_type = lit ''User'', is_many = False,
             edge_fields = [\<lparr>ef_name = lit ''since'', ef_scalar_type = ST_DateTime\<rparr>]\<rparr>,
           fd_directives = [Inverse \<lparr>inv_type_name = lit ''User'', inv_field_name = lit ''posts''\<rparr>]\<rparr>]\<rparr>),
      (lit ''User'', \<lparr>td_name = lit ''User'', td_fields =
        [\<lparr>fd_name = lit ''posts'', fd_field_type = Relation \<lparr>target_type = lit ''Post'', is_many = True, edge_fields = []\<rparr>,
           fd_directives = [OnDelete Cascade]\<rparr>]\<rparr>)]"

lemma sample_schema_ok: "schema_ok ascii_tables sample_schema"
  by (simp add: schema_ok_def sample_schema_def type_ok_def field_ok_def ident_evals KNOWN_ANALYZERS_def parse_scalar_type_def)

lemma sample_schema_valid: "schema_valid sample_schema"
  by (simp add: schema_valid_def sample_schema_def field_valid_def fd_vectorize_def fd_fulltext_def fd_index_def fd_inverse_def
      is_indexed_def get_type_def get_field_def lit_def)

lemma sample_schema_parses: "parse_schema ascii_tables (emit_schema sample_schema) = Inr sample_schema"
  using parse_emitted [OF ascii_tables_ok sample_schema_ok sample_schema_valid] by (simp add: sample_schema_def lit_def)

section \<open>Properties\<close>

text \<open>C18: The contract of the emitter: whatever text the parser accepts, writing its schema and parsing the result
  succeeds and gives the same types with the same fields, types, edge fields and directives, listed by name.\<close>

theorem emit_parse_roundtrip:
  assumes "tables_ok u" "parse_schema u input = Inr s"
  shows "\<exists>t. parse_schema u (emit_schema s) = Inr t \<and> map_of t = map_of s \<and> map fst t = sort (map fst s)"
proof -
  have s: "schema_ok u s" "schema_valid s" using parse_schema_inr [OF assms(2)] by simp_all
  show ?thesis using parse_emitted [OF assms(1) s] sorted_types(1) [OF s(1)] by (auto simp: comp_def)
qed

theorem emit_parse_roundtrip_witness:
  "\<exists>t. parse_schema ascii_tables (emit_schema sample_schema) = Inr t \<and> map_of t = map_of sample_schema \<and>
     map fst t = [lit ''Post'', lit ''User'']"
  using emit_parse_roundtrip [OF ascii_tables_ok sample_schema_parses] by (simp add: sample_schema_def lit_def)

text \<open>C19: A schema the parser returns passes what the validator checks: types are listed under their own names, names of types
  and of the fields of a type are unique, no field name contains two underscores in a row, every relation
  targets a declared type and every \<^verbatim>\<open>@inverse\<close> names a declared field. \<^verbatim>\<open>@vectorize\<close> stands on a vector field and
  names a string field of the type, \<^verbatim>\<open>@indexed\<close> stands on a scalar other than Json, \<^verbatim>\<open>@fulltext\<close> at most once and on a
  string, \<^verbatim>\<open>@index\<close> on a vector with supported parameters. Where \<^verbatim>\<open>@unique\<close>, \<^verbatim>\<open>@on_delete\<close> and \<^verbatim>\<open>@inverse\<close>
  stand is not checked.\<close>

theorem parsed_schema_valid:
  assumes "parse_schema u input = Inr s"
  shows "schema_valid s \<and> distinct (map fst s) \<and> list_all (\<lambda>(n, td). td_name td = n) s"
  using parse_schema_inr [OF assms] by (auto simp: schema_ok_def list_all_iff)

theorem parsed_schema_valid_witness:
  "schema_valid sample_schema \<and> distinct (map fst sample_schema) \<and> list_all (\<lambda>(n, td). td_name td = n) sample_schema"
  using parsed_schema_valid [OF sample_schema_parses] .

end
