(* ===== verification/Rules_Parse.thy ===== *)
theory Rules_Parse
  imports Schema
begin

text \<open>
  The lexer and the parser of security rules, \<^verbatim>\<open>rhypedb-authz/src/rules/parse.rs\<close>, with the expression
  types of \<^verbatim>\<open>rules/mod.rs\<close>. The lexer of the program walks the UTF-8 bytes of the source; here it walks
  the characters and counts positions in bytes (\<open>len_utf8\<close>), which is the same, since every byte the
  lexer looks for is ASCII and the bytes of other characters are not.

  The recursive descent over expressions takes fuel; \<open>expr\<close> gives it seven units per token left, and
  \<open>expr_returns\<close> shows that this is always enough. The parsing of \<^verbatim>\<open>f64\<close> literals is the
  parameter \<open>num_lib\<close>.
\<close>

section \<open>Data\<close>

datatype Op = Read | Create | Update | Delete_op | Subscribe

datatype CmpOp = Eq | Ne | Lt | Le | Gt | Ge | In

text \<open>A 64-bit float is its bits.\<close>

datatype Lit = LNull | LBool bool | LNum u64 | LStr rtext

datatype RulesMsg =
    UnterminatedString
  | DanglingEscape
  | UnknownEscape rchar
  | InvalidNumber rtext
  | UnexpectedCharacter rchar
  | Expected string
  | ExpectedGotEnd string
  | UnterminatedMatch
  | UnknownOperation rtext
  | ExpectedExpression
  | NoSuchType rtext
  | NeedsField rtext
  | UnknownAuthField rtext
  | NoField rtext rtext
  | IsVector rtext
  | IsRelationship rtext
  | NotRelationship rtext rtext
  | NotScalar rtext rtext
  | UnsupportedPath "rtext list"

datatype RulesError =
    RParse nat RulesMsg
  | RSchema string

text \<open>\<^verbatim>\<open>usize::MAX\<close>, the position of errors at the end of the input.\<close>

definition usize_max :: nat where
  "usize_max = 2 ^ 64 - 1"

record num_lib =
  parse_f64 :: "rtext \<Rightarrow> u64 option"

section \<open>Lexer\<close>

datatype Tok =
    TMatch | TAllow | TIf | TIn
  | TLBrace | TRBrace | TLParen | TRParen | TColon | TSemi | TComma | TDot
  | TOrOr | TAndAnd | TBang | TEqEq | TNotEq | TLt | TLe | TGt | TGe
  | TIdent rtext | TStr rtext | TNum u64 | TBool bool | TNull

record Spanned =
  sp_tok :: Tok
  sp_pos :: nat

definition len_utf8 :: "rchar \<Rightarrow> nat" where
  "len_utf8 c = (if c < 0x80 then 1 else if c < 0x800 then 2 else if c < 0x10000 then 3 else 4)"

definition utf8_lead :: "rchar \<Rightarrow> nat" where
  "utf8_lead c = (if c < 0x80 then c else if c < 0x800 then 0xC0 + c div 0x40
     else if c < 0x10000 then 0xE0 + c div 0x1000 else 0xF0 + c div 0x40000)"

definition text_bytes :: "rtext \<Rightarrow> nat" where
  "text_bytes t = sum_list (map len_utf8 t)"

definition two_char :: "rchar \<Rightarrow> rchar \<Rightarrow> Tok option" where
  "two_char c d =
     (if c = 124 \<and> d = 124 then Some TOrOr
      else if c = 38 \<and> d = 38 then Some TAndAnd
      else if c = 61 \<and> d = 61 then Some TEqEq
      else if c = 33 \<and> d = 61 then Some TNotEq
      else if c = 60 \<and> d = 61 then Some TLe
      else if c = 62 \<and> d = 61 then Some TGe
      else None)"

definition one_char :: "rchar \<Rightarrow> Tok option" where
  "one_char c =
     (if c = 123 then Some TLBrace
      else if c = 125 then Some TRBrace
      else if c = 40 then Some TLParen
      else if c = 41 then Some TRParen
      else if c = 58 then Some TColon
      else if c = 59 then Some TSemi
      else if c = 44 then Some TComma
      else if c = 46 then Some TDot
      else if c = 33 then Some TBang
      else if c = 60 then Some TLt
      else if c = 62 then Some TGt
      else None)"

text \<open>The characters up to and after the closing quote; \<open>i\<close> is the position of the text.\<close>

fun scan_string :: "nat \<Rightarrow> nat \<Rightarrow> rtext \<Rightarrow> RulesError + nat \<times> rtext" where
  "scan_string start i [] = Inl (RParse start UnterminatedString)"
| "scan_string start i (c # r) =
     (if c = 34 then Inr (i + 1, r)
      else if c = 92 then (case r of
          [] \<Rightarrow> Inl (RParse i DanglingEscape)
        | x # r' \<Rightarrow> scan_string start (i + 1 + len_utf8 x) r')
      else scan_string start (i + len_utf8 c) r)"

text \<open>\<^verbatim>\<open>decode_str_span\<close>, on the text after the opening quote.\<close>

fun decode_str :: "nat \<Rightarrow> bool \<Rightarrow> rtext \<Rightarrow> RulesError + rtext" where
  "decode_str start escaped [] = Inl (RParse start UnterminatedString)"
| "decode_str start escaped (c # r) =
     (if escaped then
        if c = 34 \<or> c = 92 then rbind (decode_str start False r) (\<lambda>s. Inr (c # s))
        else if c = 110 then rbind (decode_str start False r) (\<lambda>s. Inr (10 # s))
        else if c = 116 then rbind (decode_str start False r) (\<lambda>s. Inr (9 # s))
        else Inl (RParse start (UnknownEscape c))
      else if c = 92 then decode_str start True r
      else if c = 34 then Inr []
      else rbind (decode_str start False r) (\<lambda>s. Inr (c # s)))"

definition decode_str_span :: "rtext \<Rightarrow> nat \<Rightarrow> RulesError + rtext" where
  "decode_str_span after_quote start = decode_str start False after_quote"

definition number_char :: "rchar \<Rightarrow> bool" where
  "number_char c \<longleftrightarrow> is_ascii_digit c \<or> c \<in> {46, 101, 69, 43, 45}"

definition word_char :: "rchar \<Rightarrow> bool" where
  "word_char c \<longleftrightarrow> c = 95 \<or> is_ascii_alphanumeric c"

definition word_tok :: "rtext \<Rightarrow> Tok" where
  "word_tok w =
     (if w = lit ''match'' then TMatch
      else if w = lit ''allow'' then TAllow
      else if w = lit ''if'' then TIf
      else if w = lit ''in'' then TIn
      else if w = lit ''true'' then TBool True
      else if w = lit ''false'' then TBool False
      else if w = lit ''null'' then TNull
      else TIdent w)"

text \<open>One round of the lexer's loop at a character that is not skipped: the token and the text after it.\<close>

definition lex_token :: "num_lib \<Rightarrow> nat \<Rightarrow> rchar \<Rightarrow> rtext \<Rightarrow> RulesError + Spanned \<times> nat \<times> rtext" where
  "lex_token lib i c r =
     (case (case r of d # _ \<Rightarrow> two_char c d | [] \<Rightarrow> None) of
        Some t \<Rightarrow> Inr (\<lparr>sp_tok = t, sp_pos = i\<rparr>, i + 2, tl r)
      | None \<Rightarrow> (case one_char c of
          Some t \<Rightarrow> Inr (\<lparr>sp_tok = t, sp_pos = i\<rparr>, i + 1, r)
        | None \<Rightarrow>
            if c = 34 then
              rbind (scan_string i (i + 1) r) (\<lambda>(j, r').
              rbind (decode_str_span r i) (\<lambda>s.
              Inr (\<lparr>sp_tok = TStr s, sp_pos = i\<rparr>, j, r')))
            else if is_ascii_digit c \<or> c = 45 \<and> (case r of d # _ \<Rightarrow> is_ascii_digit d | [] \<Rightarrow> False) then
              (let w = c # takeWhile number_char r in
               case parse_f64 lib w of
                 None \<Rightarrow> Inl (RParse i (InvalidNumber w))
               | Some n \<Rightarrow> Inr (\<lparr>sp_tok = TNum n, sp_pos = i\<rparr>, i + length w, dropWhile number_char r))
            else if c = 95 \<or> is_ascii_alphabetic c then
              (let w = c # takeWhile word_char r in
               Inr (\<lparr>sp_tok = word_tok w, sp_pos = i\<rparr>, i + length w, dropWhile word_char r))
            else Inl (RParse i (UnexpectedCharacter (utf8_lead c)))))"

lemma scan_string_shorter: "scan_string start i r = Inr (j, r') \<Longrightarrow> length r' < length r"
  by (induction start i r arbitrary: j r' rule: scan_string.induct)
    (fastforce split: if_splits list.splits)+

lemma lex_token_shorter: "lex_token lib i c r = Inr (t, j, r') \<Longrightarrow> length r' \<le> length r"
proof -
  assume l: "lex_token lib i c r = Inr (t, j, r')"
  show ?thesis
  proof (cases "(case r of d # _ \<Rightarrow> two_char c d | [] \<Rightarrow> None) = None \<and> one_char c = None")
    case False
    then show ?thesis using l unfolding lex_token_def by (auto split: option.splits)
  next
    case True
    then have "r' = dropWhile number_char r \<or> r' = dropWhile word_char r \<or> (\<exists>k. scan_string i (i + 1) r = Inr (k, r'))"
      using l unfolding lex_token_def by (auto simp: rbind_inr Let_def split: option.splits if_splits)
    then show ?thesis using length_dropWhile_le scan_string_shorter less_imp_le by metis
  qed
qed

function lex_loop :: "num_lib \<Rightarrow> nat \<Rightarrow> rtext \<Rightarrow> RulesError + Spanned list" where
  "lex_loop lib i [] = Inr []"
| "lex_loop lib i (c # r) =
     (if is_ascii_whitespace c then lex_loop lib (i + 1) r
      else if c = 35 \<or> c = 47 \<and> (case r of d # _ \<Rightarrow> d = 47 | [] \<Rightarrow> False) then
        lex_loop lib (i + text_bytes (takeWhile (\<lambda>x. x \<noteq> 10) (c # r))) (dropWhile (\<lambda>x. x \<noteq> 10) r)
      else rbind (lex_token lib i c r) (\<lambda>(t, j, r').
        rbind (lex_loop lib j r') (\<lambda>ts. Inr (t # ts))))"
  by pat_completeness auto

termination
  by (relation "measure (\<lambda>(lib, i, r). length r)")
    (auto simp: less_Suc_eq_le length_dropWhile_le dest: lex_token_shorter)

definition lex :: "num_lib \<Rightarrow> rtext \<Rightarrow> RulesError + Spanned list" where
  "lex lib src = lex_loop lib 0 src"

section \<open>Parser\<close>

datatype RawExpr =
    RLit Lit
  | RPath "rtext list" nat
  | RNot RawExpr
  | RAnd RawExpr RawExpr
  | ROr RawExpr RawExpr
  | RCmp RawExpr CmpOp RawExpr

record RawAllow =
  ra_ops :: "Op list"
  ra_expr :: RawExpr

record RawStmt =
  rs_type_name :: rtext
  rs_type_pos :: nat
  rs_allows :: "RawAllow list"

text \<open>The parser's state is the list of tokens left. \<open>None\<close> stands for a parser that ran out of fuel.\<close>

type_synonym 'a rules_result = "(RulesError + 'a \<times> Spanned list) option"

fun pbind :: "'a rules_result \<Rightarrow> ('a \<Rightarrow> Spanned list \<Rightarrow> 'b rules_result) \<Rightarrow> 'b rules_result" where
  "pbind None f = None"
| "pbind (Some (Inl e)) f = Some (Inl e)"
| "pbind (Some (Inr (x, ts))) f = f x ts"

lemma pbind_inr: "pbind p f = Some (Inr y) \<longleftrightarrow> (\<exists>x ts. p = Some (Inr (x, ts)) \<and> f x ts = Some (Inr y))"
  by (cases "(p, f)" rule: pbind.cases) auto

lemma pbind_None: "pbind p f = None \<longleftrightarrow> p = None \<or> (\<exists>x ts. p = Some (Inr (x, ts)) \<and> f x ts = None)"
  by (cases "(p, f)" rule: pbind.cases) auto

lemma pbind_total: "p \<noteq> None \<Longrightarrow> (\<And>x ts. p = Some (Inr (x, ts)) \<Longrightarrow> f x ts \<noteq> None) \<Longrightarrow> pbind p f \<noteq> None"
  by (auto simp: pbind_None)

lemma pbind_cong [fundef_cong]:
  "p = q \<Longrightarrow> (\<And>x ts. q = Some (Inr (x, ts)) \<Longrightarrow> f x ts = g x ts) \<Longrightarrow> pbind p f = pbind q g"
  by (cases "(q, g)" rule: pbind.cases) auto

definition peek_tok :: "Spanned list \<Rightarrow> Tok option" where
  "peek_tok ts = (case ts of [] \<Rightarrow> None | t # _ \<Rightarrow> Some (sp_tok t))"

definition tok_pos :: "Spanned list \<Rightarrow> nat" where
  "tok_pos ts = (case ts of [] \<Rightarrow> usize_max | t # _ \<Rightarrow> sp_pos t)"

definition expect_tok :: "Tok \<Rightarrow> string \<Rightarrow> Spanned list \<Rightarrow> unit rules_result" where
  "expect_tok want what ts = Some (case ts of
      [] \<Rightarrow> Inl (RParse usize_max (ExpectedGotEnd what))
    | t # r \<Rightarrow> if sp_tok t = want then Inr ((), r) else Inl (RParse (sp_pos t) (Expected what)))"

definition ident :: "string \<Rightarrow> Spanned list \<Rightarrow> (rtext \<times> nat) rules_result" where
  "ident what ts = Some (case ts of
      [] \<Rightarrow> Inl (RParse usize_max (ExpectedGotEnd what))
    | t # r \<Rightarrow> (case sp_tok t of
        TIdent s \<Rightarrow> Inr ((s, sp_pos t), r)
      | _ \<Rightarrow> Inl (RParse (sp_pos t) (Expected what))))"

fun cmp_op :: "Tok option \<Rightarrow> CmpOp option" where
  "cmp_op (Some TEqEq) = Some Eq"
| "cmp_op (Some TNotEq) = Some Ne"
| "cmp_op (Some TLt) = Some Lt"
| "cmp_op (Some TLe) = Some Le"
| "cmp_op (Some TGt) = Some Gt"
| "cmp_op (Some TGe) = Some Ge"
| "cmp_op (Some TIn) = Some In"
| "cmp_op _ = None"

text \<open>The segments after the first identifier of a path.\<close>

fun path_segs :: "rtext list \<Rightarrow> Spanned list \<Rightarrow> (rtext list) rules_result" where
  "path_segs segs (t # r) =
     (if sp_tok t = TDot then
        (case r of
           [] \<Rightarrow> Some (Inl (RParse usize_max (ExpectedGotEnd ''an identifier after `.`'')))
         | t' # r' \<Rightarrow> (case sp_tok t' of
             TIdent s \<Rightarrow> path_segs (segs @ [s]) r'
           | _ \<Rightarrow> Some (Inl (RParse (sp_pos t') (Expected ''an identifier after `.`'')))))
      else Some (Inr (segs, t # r)))"
| "path_segs segs [] = Some (Inr (segs, []))"

fun or_expr :: "nat \<Rightarrow> Spanned list \<Rightarrow> RawExpr rules_result"
  and or_loop :: "nat \<Rightarrow> RawExpr \<Rightarrow> Spanned list \<Rightarrow> RawExpr rules_result"
  and and_expr :: "nat \<Rightarrow> Spanned list \<Rightarrow> RawExpr rules_result"
  and and_loop :: "nat \<Rightarrow> RawExpr \<Rightarrow> Spanned list \<Rightarrow> RawExpr rules_result"
  and cmp_expr :: "nat \<Rightarrow> Spanned list \<Rightarrow> RawExpr rules_result"
  and unary_expr :: "nat \<Rightarrow> Spanned list \<Rightarrow> RawExpr rules_result"
  and primary_expr :: "nat \<Rightarrow> Spanned list \<Rightarrow> RawExpr rules_result" where
  "or_expr 0 ts = None"
| "or_expr (Suc n) ts = pbind (and_expr n ts) (\<lambda>lhs ts1. or_loop n lhs ts1)"
| "or_loop 0 lhs ts = None"
| "or_loop (Suc n) lhs ts =
     (if peek_tok ts = Some TOrOr then pbind (and_expr n (tl ts)) (\<lambda>rhs ts1. or_loop n (ROr lhs rhs) ts1)
      else Some (Inr (lhs, ts)))"
| "and_expr 0 ts = None"
| "and_expr (Suc n) ts = pbind (cmp_expr n ts) (\<lambda>lhs ts1. and_loop n lhs ts1)"
| "and_loop 0 lhs ts = None"
| "and_loop (Suc n) lhs ts =
     (if peek_tok ts = Some TAndAnd then pbind (cmp_expr n (tl ts)) (\<lambda>rhs ts1. and_loop n (RAnd lhs rhs) ts1)
      else Some (Inr (lhs, ts)))"
| "cmp_expr 0 ts = None"
| "cmp_expr (Suc n) ts = pbind (unary_expr n ts) (\<lambda>lhs ts1. case cmp_op (peek_tok ts1) of
      None \<Rightarrow> Some (Inr (lhs, ts1))
    | Some op \<Rightarrow> pbind (unary_expr n (tl ts1)) (\<lambda>rhs ts2. Some (Inr (RCmp lhs op rhs, ts2))))"
| "unary_expr 0 ts = None"
| "unary_expr (Suc n) ts =
     (if peek_tok ts = Some TBang then pbind (unary_expr n (tl ts)) (\<lambda>inner ts1. Some (Inr (RNot inner, ts1)))
      else primary_expr n ts)"
| "primary_expr 0 ts = None"
| "primary_expr (Suc n) ts = (case peek_tok ts of
      Some TLParen \<Rightarrow> pbind (or_expr n (tl ts)) (\<lambda>e ts1. pbind (expect_tok TRParen ''`)`'' ts1) (\<lambda>_ ts2. Some (Inr (e, ts2))))
    | Some TNull \<Rightarrow> Some (Inr (RLit LNull, tl ts))
    | Some (TBool b) \<Rightarrow> Some (Inr (RLit (LBool b), tl ts))
    | Some (TNum x) \<Rightarrow> Some (Inr (RLit (LNum x), tl ts))
    | Some (TStr s) \<Rightarrow> Some (Inr (RLit (LStr s), tl ts))
    | Some (TIdent _) \<Rightarrow> pbind (ident ''an identifier'' ts) (\<lambda>(first, _) ts1.
        pbind (path_segs [first] ts1) (\<lambda>segs ts2. Some (Inr (RPath segs (tok_pos ts), ts2))))
    | _ \<Rightarrow> Some (Inl (RParse (tok_pos ts) ExpectedExpression)))"

definition expr :: "Spanned list \<Rightarrow> RawExpr rules_result" where
  "expr ts = or_expr (7 * length ts + 7) ts"

subsection \<open>Tokens consumed, and fuel\<close>

lemma peek_tok_tl: "peek_tok ts = Some t \<Longrightarrow> length (tl ts) < length ts"
  by (cases ts) (simp_all add: peek_tok_def)

lemma expect_tok_inr: "expect_tok t w ts = Some (Inr (x, r)) \<Longrightarrow> length r < length ts"
  by (auto simp: expect_tok_def split: list.splits if_splits)

lemma ident_inr: "ident w ts = Some (Inr (x, r)) \<Longrightarrow> length r < length ts"
  by (auto simp: ident_def split: list.splits Tok.splits)

lemma token_total: "expect_tok t w ts \<noteq> None" "ident w ts \<noteq> None"
  by (simp_all add: expect_tok_def ident_def)

lemma path_segs_inr: "path_segs segs ts = Some (Inr (x, r)) \<Longrightarrow> length r \<le> length ts"
  by (induction segs ts rule: path_segs.induct) (auto intro: le_SucI split: if_splits list.splits Tok.splits)

lemma path_segs_total: "path_segs segs ts \<noteq> None"
  by (induction segs ts rule: path_segs.induct) (auto split: if_splits list.splits Tok.splits)

lemma primary_inr:
  assumes "primary_expr (Suc n) ts = Some (Inr (e, r))" "\<And>e r. or_expr n (tl ts) = Some (Inr (e, r)) \<Longrightarrow> length r < length (tl ts)"
  shows "length r < length ts"
proof (cases ts)
  case Nil
  then show ?thesis using assms(1) by (simp add: peek_tok_def)
next
  case (Cons t ts1)
  then show ?thesis using assms
    by (cases "sp_tok t") (auto simp: peek_tok_def pbind_inr dest!: expect_tok_inr ident_inr path_segs_inr)
qed

lemma expr_consumes:
  "(\<forall>ts e r. or_expr n ts = Some (Inr (e, r)) \<longrightarrow> length r < length ts) \<and>
   (\<forall>l ts e r. or_loop n l ts = Some (Inr (e, r)) \<longrightarrow> length r \<le> length ts) \<and>
   (\<forall>ts e r. and_expr n ts = Some (Inr (e, r)) \<longrightarrow> length r < length ts) \<and>
   (\<forall>l ts e r. and_loop n l ts = Some (Inr (e, r)) \<longrightarrow> length r \<le> length ts) \<and>
   (\<forall>ts e r. cmp_expr n ts = Some (Inr (e, r)) \<longrightarrow> length r < length ts) \<and>
   (\<forall>ts e r. unary_expr n ts = Some (Inr (e, r)) \<longrightarrow> length r < length ts) \<and>
   (\<forall>ts e r. primary_expr n ts = Some (Inr (e, r)) \<longrightarrow> length r < length ts)"
proof (induction n)
  case (Suc n)
  have short: "length (tl ts) \<le> length ts" for ts :: "Spanned list" by simp
  show ?case
  proof (intro conjI allI impI)
    fix ts e r assume "or_expr (Suc n) ts = Some (Inr (e, r))"
    then show "length r < length ts" using Suc by (fastforce simp: pbind_inr)
  next
    fix l ts e r assume "or_loop (Suc n) l ts = Some (Inr (e, r))"
    then show "length r \<le> length ts" using Suc short [of ts] by (fastforce simp: pbind_inr split: if_splits)
  next
    fix ts e r assume "and_expr (Suc n) ts = Some (Inr (e, r))"
    then show "length r < length ts" using Suc by (fastforce simp: pbind_inr)
  next
    fix l ts e r assume "and_loop (Suc n) l ts = Some (Inr (e, r))"
    then show "length r \<le> length ts" using Suc short [of ts] by (fastforce simp: pbind_inr split: if_splits)
  next
    fix ts e r assume "cmp_expr (Suc n) ts = Some (Inr (e, r))"
    then obtain l ts1 where l: "unary_expr n ts = Some (Inr (l, ts1))"
        "cmp_op (peek_tok ts1) = None \<and> r = ts1 \<or> (\<exists>x. unary_expr n (tl ts1) = Some (Inr (x, r)))"
      by (auto simp: pbind_inr split: option.splits)
    have "length ts1 < length ts" using l(1) Suc by blast
    moreover have "length r \<le> length ts1" using l(2) Suc short [of ts1] by (meson less_imp_le less_le_trans order_refl)
    ultimately show "length r < length ts" by simp
  next
    fix ts e r assume "unary_expr (Suc n) ts = Some (Inr (e, r))"
    then show "length r < length ts" using Suc short [of ts] by (fastforce simp: pbind_inr split: if_splits)
  next
    fix ts e r assume p: "primary_expr (Suc n) ts = Some (Inr (e, r))"
    show "length r < length ts" by (rule primary_inr [OF p], rule conjunct1 [OF Suc, rule_format])
  qed
qed simp

lemma primary_total:
  assumes "or_expr n (tl ts) \<noteq> None \<or> ts = []"
  shows "primary_expr (Suc n) ts \<noteq> None"
proof (cases ts)
  case (Cons t ts1)
  then show ?thesis using assms token_total path_segs_total
    by (cases "sp_tok t") (auto simp: peek_tok_def pbind_None split: prod.splits)
qed (simp add: peek_tok_def)

lemma expr_total:
  "(\<forall>ts. 7 * length ts + 5 \<le> n \<longrightarrow> or_expr n ts \<noteq> None) \<and>
   (\<forall>l ts. 7 * length ts + 1 \<le> n \<longrightarrow> or_loop n l ts \<noteq> None) \<and>
   (\<forall>ts. 7 * length ts + 4 \<le> n \<longrightarrow> and_expr n ts \<noteq> None) \<and>
   (\<forall>l ts. 7 * length ts + 1 \<le> n \<longrightarrow> and_loop n l ts \<noteq> None) \<and>
   (\<forall>ts. 7 * length ts + 3 \<le> n \<longrightarrow> cmp_expr n ts \<noteq> None) \<and>
   (\<forall>ts. 7 * length ts + 2 \<le> n \<longrightarrow> unary_expr n ts \<noteq> None) \<and>
   (\<forall>ts. 7 * length ts + 1 \<le> n \<longrightarrow> primary_expr n ts \<noteq> None)"
proof (induction n)
  case (Suc n)
  note c = expr_consumes [of n]
  have tl: "peek_tok ts \<noteq> None \<Longrightarrow> length (tl ts) + 1 = length ts" for ts by (cases ts) (simp_all add: peek_tok_def)
  show ?case
  proof (intro conjI allI impI)
    fix ts :: "Spanned list" assume k: "7 * length ts + 5 \<le> Suc n"
    have "or_loop n l r \<noteq> None" if "and_expr n ts = Some (Inr (l, r))" for l r
    proof -
      have "length r < length ts" using c that by blast
      then show ?thesis using Suc k by (auto)
    qed
    then show "or_expr (Suc n) ts \<noteq> None" using Suc k by (auto simp: pbind_None)
  next
    fix l and ts :: "Spanned list" assume k: "7 * length ts + 1 \<le> Suc n"
    show "or_loop (Suc n) l ts \<noteq> None"
    proof (cases "peek_tok ts = Some TOrOr")
      case True
      have "or_loop n l2 r \<noteq> None" if "and_expr n (tl ts) = Some (Inr (x, r))" for l2 x r
      proof -
        have "length r < length (tl ts)" using c that by blast
        then show ?thesis using Suc k by auto
      qed
      moreover have "and_expr n (tl ts) \<noteq> None" using Suc k tl [of ts] True by auto
      ultimately show ?thesis using True by (auto simp: pbind_None)
    qed simp
  next
    fix ts :: "Spanned list" assume k: "7 * length ts + 4 \<le> Suc n"
    have "and_loop n l r \<noteq> None" if "cmp_expr n ts = Some (Inr (l, r))" for l r
    proof -
      have "length r < length ts" using c that by blast
      then show ?thesis using Suc k by (auto)
    qed
    then show "and_expr (Suc n) ts \<noteq> None" using Suc k by (auto simp: pbind_None)
  next
    fix l and ts :: "Spanned list" assume k: "7 * length ts + 1 \<le> Suc n"
    show "and_loop (Suc n) l ts \<noteq> None"
    proof (cases "peek_tok ts = Some TAndAnd")
      case True
      have "and_loop n l2 r \<noteq> None" if "cmp_expr n (tl ts) = Some (Inr (x, r))" for l2 x r
      proof -
        have "length r < length (tl ts)" using c that by blast
        then show ?thesis using Suc k by auto
      qed
      moreover have "cmp_expr n (tl ts) \<noteq> None" using Suc k tl [of ts] True by auto
      ultimately show ?thesis using True by (auto simp: pbind_None)
    qed simp
  next
    fix ts :: "Spanned list" assume k: "7 * length ts + 3 \<le> Suc n"
    have "unary_expr n (tl r) \<noteq> None" if "unary_expr n ts = Some (Inr (l, r))" for l r
    proof -
      have "length r < length ts" using c that by blast
      moreover have "length (tl r) \<le> length r" by simp
      ultimately show ?thesis using Suc k by auto
    qed
    moreover have "unary_expr n ts \<noteq> None" using Suc k by auto
    ultimately show "cmp_expr (Suc n) ts \<noteq> None" unfolding cmp_expr.simps
      by (intro pbind_total) (auto split: option.splits intro!: pbind_total [simplified])
  next
    fix ts :: "Spanned list" assume k: "7 * length ts + 2 \<le> Suc n"
    have "peek_tok ts = Some TBang \<Longrightarrow> unary_expr n (tl ts) \<noteq> None" "primary_expr n ts \<noteq> None"
      using Suc k tl [of ts] by auto
    then show "unary_expr (Suc n) ts \<noteq> None" unfolding unary_expr.simps by (auto intro!: pbind_total [simplified])
  next
    fix ts :: "Spanned list" assume k: "7 * length ts + 1 \<le> Suc n"
    have "or_expr n (tl ts) \<noteq> None \<or> ts = []" using Suc k by (cases ts) auto
    then show "primary_expr (Suc n) ts \<noteq> None" by (rule primary_total)
  qed
qed simp

lemma expr_returns: "expr ts \<noteq> None"
  using expr_total [of "7 * length ts + 7"] by (simp add: expr_def)

lemma expr_inr: "expr ts = Some (Inr (e, r)) \<Longrightarrow> length r < length ts"
  unfolding expr_def using conjunct1 [OF expr_consumes [of "7 * length ts + 7"]] by (elim allE impE) assumption

section \<open>Statements\<close>

definition op_names :: "rtext \<Rightarrow> Op list option" where
  "op_names name =
     (if name = lit ''read'' then Some [Read]
      else if name = lit ''create'' then Some [Create]
      else if name = lit ''update'' then Some [Update]
      else if name = lit ''delete'' then Some [Delete_op]
      else if name = lit ''subscribe'' then Some [Subscribe]
      else if name = lit ''write'' then Some [Create, Update, Delete_op]
      else None)"

function ops_loop :: "Op list \<Rightarrow> Spanned list \<Rightarrow> (Op list) rules_result" where
  "ops_loop ops ts =
     pbind (ident ''an operation (read/create/update/delete/subscribe/write)'' ts) (\<lambda>np ts1.
     case op_names (fst np) of
       None \<Rightarrow> Some (Inl (RParse (snd np) (UnknownOperation (fst np))))
     | Some os \<Rightarrow>
         if peek_tok ts1 = Some TComma then ops_loop (ops @ os) (tl ts1)
         else Some (Inr (ops @ os, ts1)))"
  by pat_completeness auto

termination
  by (relation "measure (\<lambda>(ops, ts). length ts)") (auto dest!: ident_inr)

declare ops_loop.simps [simp del]

lemma ops_loop_inr: "ops_loop ops ts = Some (Inr (x, r)) \<Longrightarrow> length r < length ts"
proof (induction ops ts rule: ops_loop.induct)
  case (1 ops ts)
  from "1.prems" obtain np ts1 os where i: "ident ''an operation (read/create/update/delete/subscribe/write)'' ts = Some (Inr (np, ts1))"
      "op_names (fst np) = Some os"
      "peek_tok ts1 = Some TComma \<and> ops_loop (ops @ os) (tl ts1) = Some (Inr (x, r)) \<or> r = ts1"
    by (subst (asm) ops_loop.simps) (auto simp: pbind_inr split: option.splits if_splits)
  have "length ts1 < length ts" by (rule ident_inr [OF i(1)])
  moreover have "length r \<le> length ts1"
    using i(3) "1.IH" [OF i(1,2)] by auto
  ultimately show ?case by simp
qed

lemma ops_loop_total: "ops_loop ops ts \<noteq> None"
proof (induction ops ts rule: ops_loop.induct)
  case (1 ops ts)
  then show ?case
    by (subst ops_loop.simps) (auto simp: token_total [simplified] intro!: pbind_total [simplified] split: option.splits)
qed

definition allow :: "Spanned list \<Rightarrow> RawAllow rules_result" where
  "allow ts =
     pbind (expect_tok TAllow ''`allow`'' ts) (\<lambda>_ ts1.
     pbind (ops_loop [] ts1) (\<lambda>ops ts2.
     pbind (expect_tok TColon ''`:`'' ts2) (\<lambda>_ ts3.
     pbind (expect_tok TIf ''`if`'' ts3) (\<lambda>_ ts4.
     pbind (expr ts4) (\<lambda>e ts5.
     pbind (expect_tok TSemi ''`;`'' ts5) (\<lambda>_ ts6.
     Some (Inr (\<lparr>ra_ops = ops, ra_expr = e\<rparr>, ts6))))))))"

lemma allow_inr: "allow ts = Some (Inr (x, r)) \<Longrightarrow> length r < length ts"
  by (auto simp: allow_def pbind_inr dest!: expect_tok_inr ops_loop_inr expr_inr)

lemma allow_total: "allow ts \<noteq> None"
  unfolding allow_def by (intro pbind_total token_total ops_loop_total expr_returns) simp

function allows_loop :: "RawAllow list \<Rightarrow> Spanned list \<Rightarrow> (RawAllow list) rules_result" where
  "allows_loop as ts =
     (if peek_tok ts = Some TRBrace then Some (Inr (as, ts))
      else if peek_tok ts = None then Some (Inl (RParse usize_max UnterminatedMatch))
      else pbind (allow ts) (\<lambda>a ts1. allows_loop (as @ [a]) ts1))"
  by pat_completeness auto

termination
  by (relation "measure (\<lambda>(as, ts). length ts)") (auto dest: allow_inr)

declare allows_loop.simps [simp del]

lemma allows_loop_inr: "allows_loop as ts = Some (Inr (x, r)) \<Longrightarrow> length r \<le> length ts"
proof (induction as ts rule: allows_loop.induct)
  case (1 as ts)
  show ?case
  proof (cases "peek_tok ts = Some TRBrace \<or> peek_tok ts = None")
    case True
    then show ?thesis using "1.prems" by (subst (asm) allows_loop.simps) auto
  next
    case False
    then obtain a ts1 where a: "allow ts = Some (Inr (a, ts1))" "allows_loop (as @ [a]) ts1 = Some (Inr (x, r))"
      using "1.prems" by (subst (asm) allows_loop.simps) (auto simp: pbind_inr)
    show ?thesis using "1.IH" [OF _ _ a(1,2)] False allow_inr [OF a(1)] by simp
  qed
qed

lemma allows_loop_total: "allows_loop as ts \<noteq> None"
proof (induction as ts rule: allows_loop.induct)
  case (1 as ts)
  then show ?case by (subst allows_loop.simps) (auto simp: allow_total [simplified] intro!: pbind_total [simplified])
qed

definition stmt :: "Spanned list \<Rightarrow> RawStmt rules_result" where
  "stmt ts =
     pbind (expect_tok TMatch ''`match`'' ts) (\<lambda>_ ts1.
     pbind (ident ''a type name'' ts1) (\<lambda>(name, pos) ts2.
     pbind (expect_tok TLBrace ''`{`'' ts2) (\<lambda>_ ts3.
     pbind (allows_loop [] ts3) (\<lambda>as ts4.
     pbind (expect_tok TRBrace ''`}`'' ts4) (\<lambda>_ ts5.
     Some (Inr (\<lparr>rs_type_name = name, rs_type_pos = pos, rs_allows = as\<rparr>, ts5)))))))"

lemma stmt_inr: "stmt ts = Some (Inr (x, r)) \<Longrightarrow> length r < length ts"
  by (auto simp: stmt_def pbind_inr dest!: expect_tok_inr ident_inr allows_loop_inr)

lemma stmt_total: "stmt ts \<noteq> None"
  unfolding stmt_def by (intro pbind_total token_total allows_loop_total) (auto intro!: pbind_total [simplified] simp: token_total [simplified] allows_loop_total [simplified])

function program_loop :: "RawStmt list \<Rightarrow> Spanned list \<Rightarrow> (RawStmt list) rules_result" where
  "program_loop stmts ts =
     (if peek_tok ts = None then Some (Inr (stmts, ts))
      else pbind (stmt ts) (\<lambda>s ts1. program_loop (stmts @ [s]) ts1))"
  by pat_completeness auto

termination
  by (relation "measure (\<lambda>(stmts, ts). length ts)") (auto dest: stmt_inr)

declare program_loop.simps [simp del]

definition program :: "Spanned list \<Rightarrow> (RawStmt list) rules_result" where
  "program ts = program_loop [] ts"

lemma program_total: "program ts \<noteq> None"
proof -
  have "program_loop stmts ts \<noteq> None" for stmts
  proof (induction stmts ts rule: program_loop.induct)
    case (1 stmts ts)
    then show ?case by (subst program_loop.simps) (auto simp: stmt_total [simplified] intro!: pbind_total [simplified])
  qed
  then show ?thesis by (simp add: program_def)
qed

end
