(* ===== verification/Rules.thy ===== *)
theory Rules
  imports Rules_Parse
begin

text \<open>
  Compiling and evaluating security rules: \<^verbatim>\<open>compile\<close> of \<^verbatim>\<open>rhypedb-authz/src/rules/parse.rs\<close>, \<^verbatim>\<open>eval.rs\<close>,
  \<^verbatim>\<open>mod.rs\<close> and the principals of \<^verbatim>\<open>principal.rs\<close>. Evaluation is in three-valued logic over the data that a
  \<open>ResourceAccessor\<close> returns; a value of \<^verbatim>\<open>serde_json\<close> is a \<open>json\<close>, and how one of its numbers reads as a
  float is the parameter \<open>as_f64\<close>.

  Compiled rules respect the shapes the evaluator relies on, deciding takes no more than the data
  that is there (what is allowed on part of the data is allowed on all of it), and nothing is
  allowed without a clause in the source.
\<close>

section \<open>Data\<close>

datatype 'n json =
    JNull
  | JBool bool
  | JNumber 'n
  | JString rtext
  | JArray "'n json list"
  | JObject "(rtext \<times> 'n json) list"

text \<open>\<^verbatim>\<open>Value::get\<close> with a string key.\<close>

fun json_get :: "'n json \<Rightarrow> rtext \<Rightarrow> 'n json option" where
  "json_get (JObject kvs) k = map_of kvs k"
| "json_get _ k = None"

record 'n Principal =
  authenticated :: bool
  uid :: "rtext option"
  claims :: "'n json"

definition anonymous :: "'n Principal" where
  "anonymous = \<lparr>authenticated = False, uid = None, claims = JNull\<rparr>"

text \<open>From the subject and the custom claims of a verified token.\<close>

definition from_verified :: "rtext \<Rightarrow> 'n json option \<Rightarrow> 'n Principal" where
  "from_verified sub cl = \<lparr>authenticated = True, uid = Some sub, claims = (case cl of Some c \<Rightarrow> c | None \<Rightarrow> JNull)\<rparr>"

definition claim :: "'n Principal \<Rightarrow> rtext \<Rightarrow> 'n json option" where
  "claim p key = json_get (claims p) key"

datatype Operand =
    Auth
  | AuthUid
  | AuthClaim "rtext list"
  | ResourceScalar rtext
  | ResourceRelationOne rtext rtext
  | ResourceRelationMany rtext rtext
  | RequestField rtext

datatype Expr =
    ELit Lit
  | EOperand Operand
  | ENot Expr
  | EAnd Expr Expr
  | EOr Expr Expr
  | ECmp Expr CmpOp Expr

text \<open>The clauses of each operation of each type.\<close>

type_synonym RulesProgram = "rtext \<rightharpoonup> (Op \<rightharpoonup> Expr list)"

text \<open>
  The executor's side of the evaluator. An accessor may have effects, such as charging the query's
  budget, so its methods take and return a state.
\<close>

record ('n, 's) ResourceAccessor =
  resource_scalar :: "rtext \<Rightarrow> 's \<Rightarrow> 'n json option \<times> 's"
  resource_relation_one :: "rtext \<Rightarrow> rtext \<Rightarrow> 's \<Rightarrow> 'n json option \<times> 's"
  resource_relation_many :: "rtext \<Rightarrow> rtext \<Rightarrow> 's \<Rightarrow> 'n json list option \<times> 's"
  request_field :: "rtext \<Rightarrow> 's \<Rightarrow> 'n json option \<times> 's"

definition EmptyResource :: "('n, 's) ResourceAccessor" where
  "EmptyResource = \<lparr>resource_scalar = (\<lambda>_ s. (None, s)), resource_relation_one = (\<lambda>_ _ s. (None, s)),
     resource_relation_many = (\<lambda>_ _ s. (None, s)), request_field = (\<lambda>_ s. (None, s))\<rparr>"

section \<open>Compiler\<close>

definition compile_path :: "rtext list \<Rightarrow> nat \<Rightarrow> TypeDef \<Rightarrow> Schema \<Rightarrow> RulesError + Operand" where
  "compile_path segs pos td schema =
     (let request = lit ''request''; resource = lit ''resource''; auth = lit ''auth'' in
      case segs of
        [root] \<Rightarrow>
          if root = request \<or> root = resource then Inl (RParse pos (NeedsField root))
          else Inl (RParse pos (UnsupportedPath segs))
      | [r, f] \<Rightarrow>
          if r = request \<and> f = auth then Inr Auth
          else if r = request then (case get_field td f of
              None \<Rightarrow> Inl (RParse pos (NoField request f))
            | Some fd \<Rightarrow> (case fd_field_type fd of
                Vector _ \<Rightarrow> Inl (RParse pos (IsVector f))
              | _ \<Rightarrow> Inr (RequestField f)))
          else if r = resource then (case get_field td f of
              None \<Rightarrow> Inl (RParse pos (NoField resource f))
            | Some fd \<Rightarrow> (case fd_field_type fd of
                Scalar _ \<Rightarrow> Inr (ResourceScalar f)
              | Relation _ \<Rightarrow> Inl (RParse pos (IsRelationship f))
              | Vector _ \<Rightarrow> Inl (RParse pos (IsVector f))))
          else Inl (RParse pos (UnsupportedPath segs))
      | r # a # c # rest \<Rightarrow>
          if r = request \<and> a = auth \<and> c = lit ''uid'' \<and> rest = [] then Inr AuthUid
          else if r = request \<and> a = auth \<and> c = lit ''claims'' then Inr (AuthClaim rest)
          else if r = request \<and> a = auth \<and> rest = [] then Inl (RParse pos (UnknownAuthField c))
          else if r = resource \<and> rest = [] then (case get_field td a of
              None \<Rightarrow> Inl (RParse pos (NoField resource a))
            | Some fd \<Rightarrow> (case fd_field_type fd of
                Relation relation \<Rightarrow> (case get_type schema (target_type relation) of
                    None \<Rightarrow> Inl (RSchema ''relationship targets unknown type'')
                  | Some target \<Rightarrow> (case get_field target c of
                      None \<Rightarrow> Inl (RParse pos (NoField a c))
                    | Some tf \<Rightarrow> (case fd_field_type tf of
                        Scalar _ \<Rightarrow> Inr (if is_many relation then ResourceRelationMany a c else ResourceRelationOne a c)
                      | _ \<Rightarrow> Inl (RParse pos (NotScalar a c)))))
              | _ \<Rightarrow> Inl (RParse pos (NotRelationship a c))))
          else Inl (RParse pos (UnsupportedPath segs))
      | [] \<Rightarrow> Inl (RParse pos (UnsupportedPath segs)))"

definition is_many_operand :: "Expr \<Rightarrow> bool" where
  "is_many_operand e \<longleftrightarrow> (case e of EOperand (ResourceRelationMany _ _) \<Rightarrow> True | _ \<Rightarrow> False)"

text \<open>The checks on the operands of a comparison.\<close>

definition compile_cmp :: "Expr \<Rightarrow> CmpOp \<Rightarrow> Expr \<Rightarrow> RulesError + Expr" where
  "compile_cmp lhs op rhs =
     (let lhs_auth = (lhs = EOperand Auth); rhs_auth = (rhs = EOperand Auth);
          other_is_null = (if lhs_auth then rhs = ELit LNull else lhs = ELit LNull) in
      if (lhs_auth \<or> rhs_auth) \<and> (lhs_auth \<and> rhs_auth \<or> \<not> (op = Eq \<or> op = Ne) \<or> \<not> other_is_null) then
        Inl (RSchema ''`request.auth` may only be compared to `null` (use request.auth.uid for the id)'')
      else if is_many_operand lhs then
        Inl (RSchema ''a to-many relationship projection can't be a comparison's left operand'')
      else if is_many_operand rhs \<and> op \<noteq> In then
        Inl (RSchema ''a to-many relationship projection is only valid as the right side of `in`'')
      else Inr (ECmp lhs op rhs))"

fun compile_expr :: "RawExpr \<Rightarrow> TypeDef \<Rightarrow> Schema \<Rightarrow> RulesError + Expr" where
  "compile_expr (RLit l) td schema = Inr (ELit l)"
| "compile_expr (RNot x) td schema = rbind (compile_expr x td schema) (\<lambda>e. Inr (ENot e))"
| "compile_expr (RAnd a b) td schema =
     rbind (compile_expr a td schema) (\<lambda>x. rbind (compile_expr b td schema) (\<lambda>y. Inr (EAnd x y)))"
| "compile_expr (ROr a b) td schema =
     rbind (compile_expr a td schema) (\<lambda>x. rbind (compile_expr b td schema) (\<lambda>y. Inr (EOr x y)))"
| "compile_expr (RCmp a op b) td schema =
     rbind (compile_expr a td schema) (\<lambda>x. rbind (compile_expr b td schema) (\<lambda>y. compile_cmp x op y))"
| "compile_expr (RPath segs pos) td schema =
     rbind (compile_path segs pos td schema) (\<lambda>o1. Inr (EOperand o1))"

definition add_clause :: "Expr \<Rightarrow> (Op \<rightharpoonup> Expr list) \<Rightarrow> Op \<Rightarrow> (Op \<rightharpoonup> Expr list)" where
  "add_clause e entry op = entry(op \<mapsto> (case entry op of Some es \<Rightarrow> es | None \<Rightarrow> []) @ [e])"

fun compile_allows ::
    "TypeDef \<Rightarrow> Schema \<Rightarrow> (Op \<rightharpoonup> Expr list) \<Rightarrow> RawAllow list \<Rightarrow> RulesError + (Op \<rightharpoonup> Expr list)" where
  "compile_allows td schema entry [] = Inr entry"
| "compile_allows td schema entry (a # as) =
     rbind (compile_expr (ra_expr a) td schema) (\<lambda>e.
     compile_allows td schema (foldl (add_clause e) entry (ra_ops a)) as)"

fun compile_stmts :: "Schema \<Rightarrow> RulesProgram \<Rightarrow> RawStmt list \<Rightarrow> RulesError + RulesProgram" where
  "compile_stmts schema types [] = Inr types"
| "compile_stmts schema types (s # ss) = (case get_type schema (rs_type_name s) of
      None \<Rightarrow> Inl (RParse (rs_type_pos s) (NoSuchType (rs_type_name s)))
    | Some td \<Rightarrow>
        rbind (compile_allows td schema (case types (rs_type_name s) of Some t \<Rightarrow> t | None \<Rightarrow> Map.empty) (rs_allows s)) (\<lambda>entry.
        compile_stmts schema (types(rs_type_name s \<mapsto> entry)) ss))"

text \<open>\<open>None\<close> would be a parser that does not return; \<open>compile_returns\<close> excludes it.\<close>

definition compile :: "num_lib \<Rightarrow> rtext \<Rightarrow> Schema \<Rightarrow> (RulesError + RulesProgram) option" where
  "compile lib src schema = (case lex lib src of
      Inl e \<Rightarrow> Some (Inl e)
    | Inr toks \<Rightarrow> (case program toks of
        None \<Rightarrow> None
      | Some (Inl e) \<Rightarrow> Some (Inl e)
      | Some (Inr (stmts, _)) \<Rightarrow> Some (compile_stmts schema Map.empty stmts)))"

section \<open>Evaluator\<close>

datatype RVal = VNull_r | Absent | Present | VBool_r bool | VNum u64 | VStr rtext | VSet "RVal list"

datatype Tri = TTrue | TFalse | TUnknown

definition tri_from_bool :: "bool \<Rightarrow> Tri" where
  "tri_from_bool b = (if b then TTrue else TFalse)"

fun tri_not :: "Tri \<Rightarrow> Tri" where
  "tri_not TTrue = TFalse"
| "tri_not TFalse = TTrue"
| "tri_not TUnknown = TUnknown"

fun json_to_rval :: "('n \<Rightarrow> u64 option) \<Rightarrow> 'n json \<Rightarrow> RVal" where
  "json_to_rval as_f64 JNull = Absent"
| "json_to_rval as_f64 (JBool b) = VBool_r b"
| "json_to_rval as_f64 (JNumber n) = (case as_f64 n of Some x \<Rightarrow> VNum x | None \<Rightarrow> Absent)"
| "json_to_rval as_f64 (JString s) = VStr s"
| "json_to_rval as_f64 (JArray a) = VSet (map (json_to_rval as_f64) a)"
| "json_to_rval as_f64 (JObject _) = Present"

fun lit_to_rval :: "Lit \<Rightarrow> RVal" where
  "lit_to_rval LNull = VNull_r"
| "lit_to_rval (LBool b) = VBool_r b"
| "lit_to_rval (LNum n) = VNum n"
| "lit_to_rval (LStr s) = VStr s"

fun claim_path :: "'n json \<Rightarrow> rtext list \<Rightarrow> 'n json option" where
  "claim_path cur [] = Some cur"
| "claim_path cur (seg # path) = (case json_get cur seg of Some v \<Rightarrow> claim_path v path | None \<Rightarrow> None)"

definition or_absent :: "('n \<Rightarrow> u64 option) \<Rightarrow> 'n json option \<Rightarrow> RVal" where
  "or_absent as_f64 v = (case v of Some j \<Rightarrow> json_to_rval as_f64 j | None \<Rightarrow> Absent)"

definition set_or_absent :: "('n \<Rightarrow> u64 option) \<Rightarrow> 'n json list option \<Rightarrow> RVal" where
  "set_or_absent as_f64 v = (case v of Some items \<Rightarrow> VSet (map (json_to_rval as_f64) items) | None \<Rightarrow> Absent)"

fun resolve :: "('n \<Rightarrow> u64 option) \<Rightarrow> Operand \<Rightarrow> 'n Principal \<Rightarrow> ('n, 's) ResourceAccessor \<Rightarrow> 's \<Rightarrow> RVal \<times> 's" where
  "resolve as_f64 Auth p r s = (if authenticated p then Present else VNull_r, s)"
| "resolve as_f64 AuthUid p r s = (case uid p of Some u \<Rightarrow> VStr u | None \<Rightarrow> Absent, s)"
| "resolve as_f64 (AuthClaim path) p r s = (or_absent as_f64 (claim_path (claims p) path), s)"
| "resolve as_f64 (ResourceScalar f) p r s = apfst (or_absent as_f64) (resource_scalar r f s)"
| "resolve as_f64 (ResourceRelationOne rel f) p r s = apfst (or_absent as_f64) (resource_relation_one r rel f s)"
| "resolve as_f64 (ResourceRelationMany rel f) p r s = apfst (set_or_absent as_f64) (resource_relation_many r rel f s)"
| "resolve as_f64 (RequestField f) p r s = apfst (or_absent as_f64) (request_field r f s)"

fun rval_eq :: "RVal \<Rightarrow> RVal \<Rightarrow> bool" where
  "rval_eq VNull_r VNull_r = True"
| "rval_eq Present Present = True"
| "rval_eq (VBool_r x) (VBool_r y) = (x = y)"
| "rval_eq (VNum x) (VNum y) = f64_eq x y"
| "rval_eq (VStr x) (VStr y) = (x = y)"
| "rval_eq _ _ = False"

fun rval_ord :: "RVal \<Rightarrow> RVal \<Rightarrow> ordering option" where
  "rval_ord (VNum x) (VNum y) = f64_partial_cmp x y"
| "rval_ord (VStr x) (VStr y) = Some (cmp_of x y)"
| "rval_ord _ _ = None"

definition cmp_rvals :: "RVal \<Rightarrow> CmpOp \<Rightarrow> RVal \<Rightarrow> Tri" where
  "cmp_rvals lv op rv =
     (if lv = Absent \<or> rv = Absent then TUnknown
      else tri_from_bool (case op of
          Eq \<Rightarrow> rval_eq lv rv
        | Ne \<Rightarrow> \<not> rval_eq lv rv
        | Lt \<Rightarrow> rval_ord lv rv = Some Less
        | Le \<Rightarrow> rval_ord lv rv = Some Less \<or> rval_ord lv rv = Some Equal
        | Gt \<Rightarrow> rval_ord lv rv = Some Greater
        | Ge \<Rightarrow> rval_ord lv rv = Some Greater \<or> rval_ord lv rv = Some Equal
        | In \<Rightarrow> (case rv of VSet items \<Rightarrow> (\<exists>it \<in> set items. rval_eq lv it) | _ \<Rightarrow> False)))"

definition bare_operand :: "RVal \<Rightarrow> Tri" where
  "bare_operand v = (case v of
      VBool_r b \<Rightarrow> tri_from_bool b
    | Present \<Rightarrow> TTrue
    | VNull_r \<Rightarrow> TFalse
    | _ \<Rightarrow> TUnknown)"

fun tri_rval :: "Tri \<Rightarrow> RVal" where
  "tri_rval TTrue = VBool_r True"
| "tri_rval TFalse = VBool_r False"
| "tri_rval TUnknown = Absent"

fun eval_tri :: "('n \<Rightarrow> u64 option) \<Rightarrow> Expr \<Rightarrow> 'n Principal \<Rightarrow> ('n, 's) ResourceAccessor \<Rightarrow> 's \<Rightarrow> Tri \<times> 's"
  and value_of :: "('n \<Rightarrow> u64 option) \<Rightarrow> Expr \<Rightarrow> 'n Principal \<Rightarrow> ('n, 's) ResourceAccessor \<Rightarrow> 's \<Rightarrow> RVal \<times> 's" where
  "eval_tri as_f64 (ELit l) p r s = (case l of LBool b \<Rightarrow> tri_from_bool b | LNull \<Rightarrow> TFalse | _ \<Rightarrow> TUnknown, s)"
| "eval_tri as_f64 (ENot x) p r s = apfst tri_not (eval_tri as_f64 x p r s)"
| "eval_tri as_f64 (EAnd a b) p r s =
     (let (av, s1) = eval_tri as_f64 a p r s in
      if av = TFalse then (TFalse, s1)
      else let (bv, s2) = eval_tri as_f64 b p r s1 in
        (if av = TTrue \<and> bv = TTrue then TTrue else if bv = TFalse then TFalse else TUnknown, s2))"
| "eval_tri as_f64 (EOr a b) p r s =
     (let (av, s1) = eval_tri as_f64 a p r s in
      if av = TTrue then (TTrue, s1)
      else let (bv, s2) = eval_tri as_f64 b p r s1 in
        (if bv = TTrue then TTrue else if av = TFalse \<and> bv = TFalse then TFalse else TUnknown, s2))"
| "eval_tri as_f64 (ECmp lhs op rhs) p r s =
     (let (lv, s1) = value_of as_f64 lhs p r s; (rv, s2) = value_of as_f64 rhs p r s1 in (cmp_rvals lv op rv, s2))"
| "eval_tri as_f64 (EOperand o1) p r s = apfst bare_operand (resolve as_f64 o1 p r s)"
| "value_of as_f64 (ELit l) p r s = (lit_to_rval l, s)"
| "value_of as_f64 (EOperand o1) p r s = resolve as_f64 o1 p r s"
| "value_of as_f64 e p r s = apfst tri_rval (eval_tri as_f64 e p r s)"

definition eval_bool ::
    "('n \<Rightarrow> u64 option) \<Rightarrow> Expr \<Rightarrow> 'n Principal \<Rightarrow> ('n, 's) ResourceAccessor \<Rightarrow> 's \<Rightarrow> bool \<times> 's" where
  "eval_bool as_f64 e p r s = apfst (\<lambda>t. t = TTrue) (eval_tri as_f64 e p r s)"

datatype Decision = Allow | DenyAccess

text \<open>The loop over the clauses stops at the first that is true.\<close>

fun eval_clauses ::
    "('n \<Rightarrow> u64 option) \<Rightarrow> Expr list \<Rightarrow> 'n Principal \<Rightarrow> ('n, 's) ResourceAccessor \<Rightarrow> 's \<Rightarrow> Decision \<times> 's" where
  "eval_clauses as_f64 [] p r s = (DenyAccess, s)"
| "eval_clauses as_f64 (c # cs) p r s =
     (let (b, s1) = eval_bool as_f64 c p r s in if b then (Allow, s1) else eval_clauses as_f64 cs p r s1)"

definition evaluate ::
    "('n \<Rightarrow> u64 option) \<Rightarrow> RulesProgram \<Rightarrow> Op \<Rightarrow> rtext \<Rightarrow> 'n Principal \<Rightarrow> ('n, 's) ResourceAccessor \<Rightarrow> 's \<Rightarrow> Decision \<times> 's" where
  "evaluate as_f64 prog op type_name p r s =
     (case Option.bind (prog type_name) (\<lambda>t. t op) of
        None \<Rightarrow> (DenyAccess, s)
      | Some clauses \<Rightarrow> eval_clauses as_f64 clauses p r s)"

definition has_clause :: "RulesProgram \<Rightarrow> Op \<Rightarrow> rtext \<Rightarrow> bool" where
  "has_clause prog op type_name \<longleftrightarrow>
     (case Option.bind (prog type_name) (\<lambda>t. t op) of None \<Rightarrow> False | Some c \<Rightarrow> c \<noteq> [])"

section \<open>Reference semantics\<close>

text \<open>All the data a rule can ask for, and what an expression means on it.\<close>

record 'n facts =
  scalars :: "rtext \<Rightarrow> 'n json option"
  ones :: "rtext \<Rightarrow> rtext \<Rightarrow> 'n json option"
  manys :: "rtext \<Rightarrow> rtext \<Rightarrow> 'n json list option"
  incoming :: "rtext \<Rightarrow> 'n json option"

fun sem_operand :: "('n \<Rightarrow> u64 option) \<Rightarrow> Operand \<Rightarrow> 'n Principal \<Rightarrow> 'n facts \<Rightarrow> RVal" where
  "sem_operand f Auth p d = (if authenticated p then Present else VNull_r)"
| "sem_operand f AuthUid p d = (case uid p of Some u \<Rightarrow> VStr u | None \<Rightarrow> Absent)"
| "sem_operand f (AuthClaim path) p d = or_absent f (claim_path (claims p) path)"
| "sem_operand f (ResourceScalar x) p d = or_absent f (scalars d x)"
| "sem_operand f (ResourceRelationOne rel x) p d = or_absent f (ones d rel x)"
| "sem_operand f (ResourceRelationMany rel x) p d = set_or_absent f (manys d rel x)"
| "sem_operand f (RequestField x) p d = or_absent f (incoming d x)"

fun tri_and :: "Tri \<Rightarrow> Tri \<Rightarrow> Tri" where
  "tri_and TTrue b = b"
| "tri_and TFalse b = TFalse"
| "tri_and TUnknown b = (if b = TFalse then TFalse else TUnknown)"

fun sem :: "('n \<Rightarrow> u64 option) \<Rightarrow> Expr \<Rightarrow> 'n Principal \<Rightarrow> 'n facts \<Rightarrow> Tri"
  and sem_value :: "('n \<Rightarrow> u64 option) \<Rightarrow> Expr \<Rightarrow> 'n Principal \<Rightarrow> 'n facts \<Rightarrow> RVal" where
  "sem f (ELit l) p d = (case l of LBool b \<Rightarrow> tri_from_bool b | LNull \<Rightarrow> TFalse | _ \<Rightarrow> TUnknown)"
| "sem f (ENot x) p d = tri_not (sem f x p d)"
| "sem f (EAnd a b) p d = tri_and (sem f a p d) (sem f b p d)"
| "sem f (EOr a b) p d = tri_not (tri_and (tri_not (sem f a p d)) (tri_not (sem f b p d)))"
| "sem f (ECmp a op b) p d = cmp_rvals (sem_value f a p d) op (sem_value f b p d)"
| "sem f (EOperand o1) p d = bare_operand (sem_operand f o1 p d)"
| "sem_value f (ELit l) p d = lit_to_rval l"
| "sem_value f (EOperand o1) p d = sem_operand f o1 p d"
| "sem_value f e p d = tri_rval (sem f e p d)"

text \<open>
  \<open>answers r d\<close>: every answer of the accessor \<open>r\<close> is either missing or the one in \<open>d\<close>, whatever its
  state. \<open>known d\<close> is the accessor that knows all of \<open>d\<close>.
\<close>

definition answers :: "('n, 's) ResourceAccessor \<Rightarrow> 'n facts \<Rightarrow> bool" where
  "answers r d \<longleftrightarrow>
     (\<forall>x s. fst (resource_scalar r x s) \<in> {None, scalars d x}) \<and>
     (\<forall>rel x s. fst (resource_relation_one r rel x s) \<in> {None, ones d rel x}) \<and>
     (\<forall>rel x s. fst (resource_relation_many r rel x s) \<in> {None, manys d rel x}) \<and>
     (\<forall>x s. fst (request_field r x s) \<in> {None, incoming d x})"

definition known :: "'n facts \<Rightarrow> ('n, 's) ResourceAccessor" where
  "known d = \<lparr>resource_scalar = (\<lambda>x s. (scalars d x, s)), resource_relation_one = (\<lambda>rel x s. (ones d rel x, s)),
     resource_relation_many = (\<lambda>rel x s. (manys d rel x, s)), request_field = (\<lambda>x s. (incoming d x, s))\<rparr>"

definition rval_le :: "RVal \<Rightarrow> RVal \<Rightarrow> bool" where
  "rval_le v w \<longleftrightarrow> v = Absent \<or> v = w"

definition tri_le :: "Tri \<Rightarrow> Tri \<Rightarrow> bool" where
  "tri_le a b \<longleftrightarrow> a = TUnknown \<or> a = b"

lemma resolve_le:
  assumes "answers r d"
  shows "rval_le (fst (resolve f o1 p r s)) (sem_operand f o1 p d)"
proof (cases o1)
  case (ResourceScalar x)
  have "fst (resource_scalar r x s) \<in> {None, scalars d x}" using assms by (simp add: answers_def)
  then show ?thesis using ResourceScalar by (auto simp: rval_le_def or_absent_def)
next
  case (ResourceRelationOne rel x)
  have "fst (resource_relation_one r rel x s) \<in> {None, ones d rel x}" using assms by (simp add: answers_def)
  then show ?thesis using ResourceRelationOne by (auto simp: rval_le_def or_absent_def)
next
  case (ResourceRelationMany rel x)
  have "fst (resource_relation_many r rel x s) \<in> {None, manys d rel x}" using assms by (simp add: answers_def)
  then show ?thesis using ResourceRelationMany by (auto simp: rval_le_def set_or_absent_def)
next
  case (RequestField x)
  have "fst (request_field r x s) \<in> {None, incoming d x}" using assms by (simp add: answers_def)
  then show ?thesis using RequestField by (auto simp: rval_le_def or_absent_def)
qed (simp_all add: rval_le_def)

lemma cmp_rvals_mono: "rval_le a a' \<Longrightarrow> rval_le b b' \<Longrightarrow> tri_le (cmp_rvals a op b) (cmp_rvals a' op b')"
  by (auto simp: rval_le_def tri_le_def cmp_rvals_def)

lemma tri_rval_le: "tri_le a b \<Longrightarrow> rval_le (tri_rval a) (tri_rval b)"
  by (auto simp: tri_le_def rval_le_def)

lemma eval_le:
  assumes "answers r d"
  shows "tri_le (fst (eval_tri f e p r s)) (sem f e p d) \<and> rval_le (fst (value_of f e p r s)) (sem_value f e p d)"
proof (induction e arbitrary: s)
  case (EOperand o1)
  then show ?case using resolve_le [OF assms, of f o1 p s] by (auto simp: rval_le_def tri_le_def bare_operand_def)
next
  case (ENot e)
  have "tri_le (fst (eval_tri f e p r s)) (sem f e p d)" using ENot by blast
  then have "tri_le (fst (eval_tri f (ENot e) p r s)) (sem f (ENot e) p d)" by (auto simp: tri_le_def split: prod.splits)
  then show ?case by (simp add: tri_rval_le)
next
  case (EAnd a b)
  obtain av s1 where a: "eval_tri f a p r s = (av, s1)" by (cases "eval_tri f a p r s")
  have "tri_le av (sem f a p d)" "tri_le (fst (eval_tri f b p r s1)) (sem f b p d)" using EAnd.IH a by (metis fst_conv)+
  then have "tri_le (fst (eval_tri f (EAnd a b) p r s)) (sem f (EAnd a b) p d)"
    using a by (cases "sem f a p d"; cases "sem f b p d") (auto simp: tri_le_def split: prod.splits)
  then show ?case by (simp add: tri_rval_le)
next
  case (EOr a b)
  obtain av s1 where a: "eval_tri f a p r s = (av, s1)" by (cases "eval_tri f a p r s")
  have "tri_le av (sem f a p d)" "tri_le (fst (eval_tri f b p r s1)) (sem f b p d)" using EOr.IH a by (metis fst_conv)+
  then have "tri_le (fst (eval_tri f (EOr a b) p r s)) (sem f (EOr a b) p d)"
    using a by (cases "sem f a p d"; cases "sem f b p d") (auto simp: tri_le_def split: prod.splits)
  then show ?case by (simp add: tri_rval_le)
next
  case (ECmp a op b)
  obtain lv s1 where a: "value_of f a p r s = (lv, s1)" by (cases "value_of f a p r s")
  obtain rv s2 where b: "value_of f b p r s1 = (rv, s2)" by (cases "value_of f b p r s1")
  have "rval_le lv (sem_value f a p d)" "rval_le rv (sem_value f b p d)" using ECmp.IH a b by (metis fst_conv)+
  then have "tri_le (fst (eval_tri f (ECmp a op b) p r s)) (sem f (ECmp a op b) p d)" by (simp add: a b cmp_rvals_mono)
  then show ?case by (simp add: tri_rval_le)
qed (simp_all add: tri_le_def rval_le_def)

lemma resolve_known: "resolve f o1 p (known d) s = (sem_operand f o1 p d, s)"
  by (cases o1) (simp_all add: known_def)

lemma eval_known: "eval_tri f e p (known d) s = (sem f e p d, s) \<and> value_of f e p (known d) s = (sem_value f e p d, s)"
proof (induction e arbitrary: s)
  case (EAnd a b)
  then show ?case by (cases "sem f a p d"; cases "sem f b p d") simp_all
next
  case (EOr a b)
  then show ?case by (cases "sem f a p d"; cases "sem f b p d") simp_all
qed (simp_all add: resolve_known)

section \<open>Compiled rules are well-formed\<close>

fun wt_operand :: "TypeDef \<Rightarrow> Schema \<Rightarrow> Operand \<Rightarrow> bool" where
  "wt_operand td schema (RequestField f) \<longleftrightarrow>
     (\<exists>fd. get_field td f = Some fd \<and> (\<forall>v. fd_field_type fd \<noteq> Vector v))"
| "wt_operand td schema (ResourceScalar f) \<longleftrightarrow> (\<exists>fd t. get_field td f = Some fd \<and> fd_field_type fd = Scalar t)"
| "wt_operand td schema (ResourceRelationOne rel f) \<longleftrightarrow>
     (\<exists>fd r tt tf t. get_field td rel = Some fd \<and> fd_field_type fd = Relation r \<and> \<not> is_many r \<and>
        get_type schema (target_type r) = Some tt \<and> get_field tt f = Some tf \<and> fd_field_type tf = Scalar t)"
| "wt_operand td schema (ResourceRelationMany rel f) \<longleftrightarrow>
     (\<exists>fd r tt tf t. get_field td rel = Some fd \<and> fd_field_type fd = Relation r \<and> is_many r \<and>
        get_type schema (target_type r) = Some tt \<and> get_field tt f = Some tf \<and> fd_field_type tf = Scalar t)"
| "wt_operand td schema _ \<longleftrightarrow> True"

fun wt_expr :: "TypeDef \<Rightarrow> Schema \<Rightarrow> Expr \<Rightarrow> bool" where
  "wt_expr td schema (ELit l) \<longleftrightarrow> True"
| "wt_expr td schema (EOperand o1) \<longleftrightarrow> wt_operand td schema o1"
| "wt_expr td schema (ENot e) \<longleftrightarrow> wt_expr td schema e"
| "wt_expr td schema (EAnd a b) \<longleftrightarrow> wt_expr td schema a \<and> wt_expr td schema b"
| "wt_expr td schema (EOr a b) \<longleftrightarrow> wt_expr td schema a \<and> wt_expr td schema b"
| "wt_expr td schema (ECmp a op b) \<longleftrightarrow> wt_expr td schema a \<and> wt_expr td schema b \<and>
     (a = EOperand Auth \<longrightarrow> b = ELit LNull \<and> (op = Eq \<or> op = Ne)) \<and>
     (b = EOperand Auth \<longrightarrow> a = ELit LNull \<and> (op = Eq \<or> op = Ne)) \<and>
     \<not> is_many_operand a \<and> (is_many_operand b \<longrightarrow> op = In)"

lemma compile_path_wt:
  assumes "compile_path segs pos td schema = Inr o1"
  shows "wt_operand td schema o1"
proof (cases segs rule: remdups_adj.cases)
  case (3 r a rest)
  show ?thesis
  proof (cases rest)
    case Nil
    then show ?thesis using assms 3
      by (auto simp: compile_path_def Let_def split: if_splits option.splits FieldType.splits)
  next
    case (Cons c cs)
    then show ?thesis using assms 3
      by (auto simp: compile_path_def Let_def split: if_splits option.splits FieldType.splits)
  qed
qed (use assms in \<open>auto simp: compile_path_def Let_def split: if_splits\<close>)

lemma compile_cmp_wt: "compile_cmp a op b = Inr e \<Longrightarrow> wt_expr td schema a \<Longrightarrow> wt_expr td schema b \<Longrightarrow> wt_expr td schema e"
  by (auto simp: compile_cmp_def Let_def split: if_splits)

lemma compile_expr_wt: "compile_expr raw td schema = Inr e \<Longrightarrow> wt_expr td schema e"
  by (induction raw arbitrary: e) (auto simp: rbind_inr dest: compile_path_wt compile_cmp_wt)

section \<open>What a program allows\<close>

text \<open>The clauses that the allow statements of a list give to an operation.\<close>

definition clauses_of :: "TypeDef \<Rightarrow> Schema \<Rightarrow> RawAllow list \<Rightarrow> Op \<Rightarrow> Expr set" where
  "clauses_of td schema as op = {e. \<exists>a \<in> set as. op \<in> set (ra_ops a) \<and> compile_expr (ra_expr a) td schema = Inr e}"

definition clause_set :: "(Op \<rightharpoonup> Expr list) \<Rightarrow> Op \<Rightarrow> Expr set" where
  "clause_set t op = (case t op of None \<Rightarrow> {} | Some es \<Rightarrow> set es)"

lemma add_clauses: "clause_set (foldl (add_clause e) t ops) op = clause_set t op \<union> (if op \<in> set ops then {e} else {})"
  by (induction ops arbitrary: t) (auto simp: clause_set_def add_clause_def split: option.splits)

lemma compile_allows_clauses:
  "compile_allows td schema t as = Inr t' \<Longrightarrow> clause_set t' op = clause_set t op \<union> clauses_of td schema as op"
  by (induction as arbitrary: t) (auto simp: rbind_inr add_clauses clauses_of_def split: if_splits)

definition program_clauses :: "RulesProgram \<Rightarrow> rtext \<Rightarrow> Op \<Rightarrow> Expr set" where
  "program_clauses prog tn op = (case prog tn of None \<Rightarrow> {} | Some t \<Rightarrow> clause_set t op)"

lemma compile_stmts_clauses:
  "compile_stmts schema types ss = Inr prog \<Longrightarrow>
   program_clauses prog tn op = program_clauses types tn op \<union>
     {e. \<exists>s \<in> set ss. rs_type_name s = tn \<and> (\<exists>td. get_type schema tn = Some td \<and> e \<in> clauses_of td schema (rs_allows s) op)}"
proof (induction ss arbitrary: types)
  case (Cons s ss)
  then obtain td entry where c: "get_type schema (rs_type_name s) = Some td"
      "compile_allows td schema (case types (rs_type_name s) of Some t \<Rightarrow> t | None \<Rightarrow> Map.empty) (rs_allows s) = Inr entry"
      "compile_stmts schema (types(rs_type_name s \<mapsto> entry)) ss = Inr prog"
    by (auto simp: rbind_inr split: option.splits)
  have upd: "program_clauses (types(rs_type_name s \<mapsto> entry)) tn op = program_clauses types tn op \<union>
      (if rs_type_name s = tn then clauses_of td schema (rs_allows s) op else {})"
    using compile_allows_clauses [OF c(2), of op]
    by (auto simp: program_clauses_def clause_set_def split: option.splits)
  show ?case unfolding Cons.IH [OF c(3)] upd using c(1) by (auto split: if_splits)
qed simp

lemma evaluate_known:
  "fst (evaluate f prog op tn p (known d) s) = Allow \<longleftrightarrow> (\<exists>e \<in> program_clauses prog tn op. sem f e p d = TTrue)"
proof -
  have "fst (eval_clauses f cs p (known d) s) = Allow \<longleftrightarrow> (\<exists>e \<in> set cs. sem f e p d = TTrue)" for cs
    by (induction cs) (simp_all add: eval_bool_def eval_known)
  then show ?thesis by (auto simp: evaluate_def program_clauses_def clause_set_def split: option.splits)
qed

lemma evaluate_sound:
  assumes "answers r d" "fst (evaluate f prog op tn p r s) = Allow"
  shows "\<exists>e \<in> program_clauses prog tn op. sem f e p d = TTrue"
proof -
  have "fst (eval_clauses f cs p r s) = Allow \<Longrightarrow> \<exists>e \<in> set cs. sem f e p d = TTrue" for cs
  proof (induction cs arbitrary: s)
    case (Cons c cs)
    obtain t s1 where t: "eval_tri f c p r s = (t, s1)" by (cases "eval_tri f c p r s")
    show ?case
    proof (cases "t = TTrue")
      case True
      then have "sem f c p d = TTrue" using eval_le [OF assms(1), of f c p s] t by (simp add: tri_le_def)
      then show ?thesis by simp
    next
      case False
      then show ?thesis using Cons.IH [of s1] Cons.prems t by (simp add: eval_bool_def)
    qed
  qed simp
  with assms(2) show ?thesis
    by (cases "prog tn") (auto simp: evaluate_def program_clauses_def clause_set_def split: option.splits)
qed

lemma compile_inr:
  assumes "compile lib src schema = Some (Inr prog)"
  obtains toks stmts rest where "lex lib src = Inr toks" "program toks = Some (Inr (stmts, rest))"
    "compile_stmts schema Map.empty stmts = Inr prog"
  using assms by (auto simp: compile_def split: sum.splits option.splits)

section \<open>A sample program\<close>

lemma expr_numeral_fuel:
  "or_expr (numeral k) ts = pbind (and_expr (pred_numeral k) ts) (\<lambda>lhs ts1. or_loop (pred_numeral k) lhs ts1)"
  "or_loop (numeral k) lhs ts =
     (if peek_tok ts = Some TOrOr then pbind (and_expr (pred_numeral k) (tl ts)) (\<lambda>rhs ts1. or_loop (pred_numeral k) (ROr lhs rhs) ts1)
      else Some (Inr (lhs, ts)))"
  "and_expr (numeral k) ts = pbind (cmp_expr (pred_numeral k) ts) (\<lambda>lhs ts1. and_loop (pred_numeral k) lhs ts1)"
  "and_loop (numeral k) lhs ts =
     (if peek_tok ts = Some TAndAnd then pbind (cmp_expr (pred_numeral k) (tl ts)) (\<lambda>rhs ts1. and_loop (pred_numeral k) (RAnd lhs rhs) ts1)
      else Some (Inr (lhs, ts)))"
  "cmp_expr (numeral k) ts = pbind (unary_expr (pred_numeral k) ts) (\<lambda>lhs ts1. case cmp_op (peek_tok ts1) of
      None \<Rightarrow> Some (Inr (lhs, ts1))
    | Some op \<Rightarrow> pbind (unary_expr (pred_numeral k) (tl ts1)) (\<lambda>rhs ts2. Some (Inr (RCmp lhs op rhs, ts2))))"
  "unary_expr (numeral k) ts =
     (if peek_tok ts = Some TBang then pbind (unary_expr (pred_numeral k) (tl ts)) (\<lambda>inner ts1. Some (Inr (RNot inner, ts1)))
      else primary_expr (pred_numeral k) ts)"
  by (simp_all add: numeral_eq_Suc)

lemma primary_numeral_fuel:
  "peek_tok ts = Some TNull \<Longrightarrow> primary_expr (numeral k) ts = Some (Inr (RLit LNull, tl ts))"
  "peek_tok ts = Some (TStr s) \<Longrightarrow> primary_expr (numeral k) ts = Some (Inr (RLit (LStr s), tl ts))"
  "peek_tok ts = Some (TIdent x) \<Longrightarrow> primary_expr (numeral k) ts = pbind (ident ''an identifier'' ts) (\<lambda>(first, _) ts1.
        pbind (path_segs [first] ts1) (\<lambda>segs ts2. Some (Inr (RPath segs (tok_pos ts), ts2))))"
  by (simp_all add: numeral_eq_Suc)

definition no_numbers :: num_lib where
  "no_numbers = \<lparr>parse_f64 = (\<lambda>_. None)\<rparr>"

text \<open>A type with one text field, and a rule on it.\<close>

definition doc_schema :: Schema where
  "doc_schema = [(lit ''D'', \<lparr>td_name = lit ''D'', td_fields =
     [\<lparr>fd_name = lit ''k'', fd_field_type = Scalar ST_String, fd_directives = []\<rparr>]\<rparr>)]"

definition doc_rules :: rtext where
  "doc_rules = lit ''match D{allow read:if resource.k!=request.auth.uid;}''"

definition doc_clause :: Expr where
  "doc_clause = ECmp (EOperand (ResourceScalar (lit ''k''))) Ne (EOperand AuthUid)"

lemmas lex_evals = lex_def lit_def lex_token_def two_char_def one_char_def is_ascii_whitespace_def is_ascii_digit_def
  is_ascii_alphabetic_def is_ascii_alphanumeric_def word_char_def word_tok_def

lemmas parse_evals = program_def program_loop.simps stmt_def allows_loop.simps allow_def ops_loop.simps expr_def expr_numeral_fuel
  primary_numeral_fuel peek_tok_def expect_tok_def ident_def tok_pos_def

lemma doc_rules_compile: "compile no_numbers doc_rules doc_schema = Some (Inr [lit ''D'' \<mapsto> [Read \<mapsto> [doc_clause]]])"
proof -
  obtain toks where toks: "lex no_numbers doc_rules = Inr toks" "toks =
      [\<lparr>sp_tok = TMatch, sp_pos = 0\<rparr>, \<lparr>sp_tok = TIdent (lit ''D''), sp_pos = 6\<rparr>, \<lparr>sp_tok = TLBrace, sp_pos = 7\<rparr>,
       \<lparr>sp_tok = TAllow, sp_pos = 8\<rparr>, \<lparr>sp_tok = TIdent (lit ''read''), sp_pos = 14\<rparr>, \<lparr>sp_tok = TColon, sp_pos = 18\<rparr>,
       \<lparr>sp_tok = TIf, sp_pos = 19\<rparr>, \<lparr>sp_tok = TIdent (lit ''resource''), sp_pos = 22\<rparr>, \<lparr>sp_tok = TDot, sp_pos = 30\<rparr>,
       \<lparr>sp_tok = TIdent (lit ''k''), sp_pos = 31\<rparr>, \<lparr>sp_tok = TNotEq, sp_pos = 32\<rparr>, \<lparr>sp_tok = TIdent (lit ''request''), sp_pos = 34\<rparr>,
       \<lparr>sp_tok = TDot, sp_pos = 41\<rparr>, \<lparr>sp_tok = TIdent (lit ''auth''), sp_pos = 42\<rparr>, \<lparr>sp_tok = TDot, sp_pos = 46\<rparr>,
       \<lparr>sp_tok = TIdent (lit ''uid''), sp_pos = 47\<rparr>, \<lparr>sp_tok = TSemi, sp_pos = 50\<rparr>, \<lparr>sp_tok = TRBrace, sp_pos = 51\<rparr>]"
    by (simp add: doc_rules_def lex_evals)
  have "program toks = Some (Inr ([\<lparr>rs_type_name = lit ''D'', rs_type_pos = 6, rs_allows =
      [\<lparr>ra_ops = [Read], ra_expr = RCmp (RPath [lit ''resource'', lit ''k''] 22) Ne (RPath [lit ''request'', lit ''auth'', lit ''uid''] 34)\<rparr>]\<rparr>], []))"
    unfolding toks(2) by (simp add: parse_evals op_names_def)
  then show ?thesis
    by (simp add: compile_def toks(1) doc_schema_def get_type_def compile_path_def compile_cmp_def is_many_operand_def get_field_def
        add_clause_def doc_clause_def)
qed

section \<open>Properties\<close>

text \<open>The parser of rules returns on every source, with a program or an error.\<close>

theorem compile_returns:
  "compile lib src schema \<noteq> None"
  by (simp add: compile_def program_total [simplified] split: sum.split option.split) (use program_total in blast)

text \<open>Every clause of a compiled program is well-formed for the schema: its paths name declared fields of the right
  kind, \<^verbatim>\<open>request.auth\<close> is compared only with \<^verbatim>\<open>null\<close> and a relationship to many objects stands only on the right of
  \<^verbatim>\<open>in\<close>.\<close>

theorem compiled_rules_typed:
  assumes "compile lib src schema = Some (Inr prog)" "e \<in> program_clauses prog tn op"
  shows "\<exists>td. get_type schema tn = Some td \<and> wt_expr td schema e"
proof -
  obtain toks stmts rest where "compile_stmts schema Map.empty stmts = Inr prog" using compile_inr [OF assms(1)] .
  from compile_stmts_clauses [OF this, of tn op] assms(2) show ?thesis
    by (auto simp: program_clauses_def clauses_of_def dest: compile_expr_wt)
qed

theorem compiled_rules_typed_witness:
  "\<exists>td. get_type doc_schema (lit ''D'') = Some td \<and> wt_expr td doc_schema doc_clause"
  by (rule compiled_rules_typed [OF doc_rules_compile, of _ _ Read]) (simp add: program_clauses_def clause_set_def)

text \<open>C15: On complete data a compiled program allows an operation on a type exactly when some \<^verbatim>\<open>match\<close> block of that type
  has an \<^verbatim>\<open>allow\<close> statement listing the operation whose condition is true; everything else is denied.\<close>

theorem rules_allow_exactly:
  assumes "lex lib src = Inr toks" "program toks = Some (Inr (stmts, rest))" "compile lib src schema = Some (Inr prog)"
  shows "fst (evaluate f prog op tn p (known d) s) = Allow \<longleftrightarrow>
      (\<exists>st \<in> set stmts. rs_type_name st = tn \<and> (\<exists>a \<in> set (rs_allows st). op \<in> set (ra_ops a) \<and>
        (\<exists>td e. get_type schema tn = Some td \<and> compile_expr (ra_expr a) td schema = Inr e \<and> sem f e p d = TTrue)))"
proof -
  have c: "compile_stmts schema Map.empty stmts = Inr prog" using assms by (simp add: compile_def)
  show ?thesis
    unfolding evaluate_known compile_stmts_clauses [OF c] by (auto simp: program_clauses_def clauses_of_def)
qed

text \<open>A reader, and what there is to know of a document.\<close>

definition ann :: "unit Principal" where
  "ann = from_verified (lit ''ann'') None"

definition doc_facts :: "unit json \<Rightarrow> unit facts" where
  "doc_facts j = \<lparr>scalars = [lit ''k'' \<mapsto> j], ones = (\<lambda>_ _. None), manys = (\<lambda>_ _. None), incoming = (\<lambda>_. None)\<rparr>"

definition doc_program :: RulesProgram where
  "doc_program = [lit ''D'' \<mapsto> [Read \<mapsto> [doc_clause]]]"

lemmas eval_evals = evaluate_known program_clauses_def clause_set_def doc_program_def doc_clause_def cmp_rvals_def ann_def
  from_verified_def doc_facts_def or_absent_def tri_from_bool_def

theorem rules_allow_exactly_witness:
  "\<exists>toks stmts rest. lex no_numbers doc_rules = Inr toks \<and> program toks = Some (Inr (stmts, rest)) \<and>
    (\<exists>st \<in> set stmts. rs_type_name st = lit ''D'' \<and> (\<exists>a \<in> set (rs_allows st). Read \<in> set (ra_ops a)))"
proof -
  obtain toks stmts rest where c: "lex no_numbers doc_rules = Inr toks" "program toks = Some (Inr (stmts, rest))"
    using compile_inr [OF doc_rules_compile] by metis
  have "fst (evaluate (\<lambda>_. None) doc_program Read (lit ''D'') ann (known (doc_facts (JString (lit ''bob'')))) ()) = Allow"
    by (simp add: eval_evals)
  then show ?thesis
    using c unfolding rules_allow_exactly [OF c doc_rules_compile, folded doc_program_def] by auto
qed

text \<open>C16: Missing data never grants: when every answer of the accessor is either the stored datum or nothing, because a
  field is absent or the budget of the query ran out in the middle of the evaluation, what it allows is allowed on
  the complete data.\<close>

theorem missing_data_never_grants:
  assumes "answers r d" "fst (evaluate f prog op tn p r s) = Allow"
  shows "fst (evaluate f prog op tn p (known d) s') = Allow"
  using evaluate_sound [OF assms] by (simp add: evaluate_known)

theorem missing_data_never_grants_witness:
  "fst (evaluate (\<lambda>_. None) [lit ''D'' \<mapsto> [Read \<mapsto> [EOr doc_clause (EOperand Auth)]]] Read (lit ''D'') ann
     (known (doc_facts (JString (lit ''ann'')))) ()) = Allow"
proof (rule missing_data_never_grants)
  show "answers (EmptyResource :: (unit, unit) ResourceAccessor) (doc_facts (JString (lit ''ann'')))"
    by (simp add: answers_def EmptyResource_def)
  show "fst (evaluate (\<lambda>_. None) [lit ''D'' \<mapsto> [Read \<mapsto> [EOr doc_clause (EOperand Auth)]]] Read (lit ''D'') ann EmptyResource ()) = Allow"
    by (simp add: evaluate_def eval_bool_def EmptyResource_def doc_clause_def cmp_rvals_def or_absent_def ann_def from_verified_def
        bare_operand_def)
qed

text \<open>The documents say that a type mismatch makes the clause false; but \<^verbatim>\<open>!=\<close> holds between values of different
  kinds, so the clause \<^verbatim>\<open>resource.k != request.auth.uid\<close> grants when \<^verbatim>\<open>k\<close> holds a JSON list, even one that contains the
  reader.\<close>

theorem type_mismatch_grants:
  "fst (evaluate (\<lambda>_. None) doc_program Read (lit ''D'') ann (known (doc_facts (JArray [JString (lit ''ann'')]))) ()) = Allow"
  by (simp add: eval_evals)

end
