(* ===== verification/Governor.thy ===== *)
theory Governor
  imports Text
begin

text \<open>
  The query governor of \<^verbatim>\<open>rhypedb-query/src/governor.rs\<close> and the errors of \<^verbatim>\<open>error.rs\<close>. A \<^verbatim>\<open>usize\<close> and a \<^verbatim>\<open>u64\<close>
  are 64-bit words, a \<^verbatim>\<open>Duration\<close> and an \<^verbatim>\<open>Instant\<close> are nanoseconds (an \<^verbatim>\<open>Instant\<close> since some epoch), and an
  operation that reads the clock takes the reading as an argument. The tally \<^verbatim>\<open>rows_examined\<close> is a
  \<^verbatim>\<open>Cell\<close>, so \<open>charge\<close> returns the governor it leaves behind.

  A run of charges succeeds exactly when the rows it charges, counted without wrap-around, fit the
  budget and the clock stays before the deadline; a governor that is exhausted stays so.
\<close>

section \<open>Errors\<close>

text \<open>An error of the engine, \<^verbatim>\<open>EngineError\<close>, is the text it displays.\<close>

datatype QueryError =
    QParse nat rtext
  | QEngine rtext
  | QType rtext
  | UnknownFunction rtext
  | InvalidArgument rtext
  | ResourceLimitExceeded rtext
  | PermissionDenied rtext

section \<open>The governor\<close>

record GovernorLimits =
  max_limit :: u64
  max_rows_scanned :: u64
  max_depth :: u64
  max_result_rows :: u64
  max_duration :: nat

definition DEFAULT :: GovernorLimits where
  "DEFAULT = \<lparr>max_limit = 100000, max_rows_scanned = 1000000, max_depth = 64, max_result_rows = 100000,
     max_duration = 30 * 10 ^ 9\<rparr>"

definition UNLIMITED :: GovernorLimits where
  "UNLIMITED = \<lparr>max_limit = 0, max_rows_scanned = 0, max_depth = 0, max_result_rows = 0, max_duration = 0\<rparr>"

record Governor =
  limits :: GovernorLimits
  deadline :: "nat option"
  rows_examined :: u64
  enabled :: bool

definition disabled :: Governor where
  "disabled = \<lparr>limits = UNLIMITED, deadline = None, rows_examined = 0, enabled = False\<rparr>"

definition governor_new :: "GovernorLimits \<Rightarrow> nat \<Rightarrow> Governor" where
  "governor_new l now = \<lparr>limits = l, deadline = (if max_duration l \<noteq> 0 then Some (now + max_duration l) else None),
     rows_examined = 0, enabled = True\<rparr>"

definition is_enabled :: "Governor \<Rightarrow> bool" where
  "is_enabled g = enabled g"

definition clamp_limit :: "Governor \<Rightarrow> u64 \<Rightarrow> u64" where
  "clamp_limit g requested =
     (if enabled g \<and> max_limit (limits g) \<noteq> 0 then min requested (max_limit (limits g)) else requested)"

definition scan_cap :: "Governor \<Rightarrow> u64 option" where
  "scan_cap g = (if enabled g \<and> max_rows_scanned (limits g) \<noteq> 0 then Some (max_rows_scanned (limits g)) else None)"

text \<open>\<^verbatim>\<open>u64::saturating_sub\<close> and \<^verbatim>\<open>u64::saturating_add\<close>.\<close>

definition saturating_sub :: "u64 \<Rightarrow> u64 \<Rightarrow> u64" where
  "saturating_sub a b = (if b \<le> a then a - b else 0)"

definition saturating_add :: "u64 \<Rightarrow> u64 \<Rightarrow> u64" where
  "saturating_add a b = (if unat a + unat b < 2 ^ 64 then a + b else - 1)"

definition remaining_scan_budget :: "Governor \<Rightarrow> u64 option" where
  "remaining_scan_budget g = map_option (\<lambda>cap. saturating_sub cap (rows_examined g)) (scan_cap g)"

definition rows_exceeded_error :: "Governor \<Rightarrow> QueryError" where
  "rows_exceeded_error g = ResourceLimitExceeded
     (lit ''query examined more than '' @ dec (unat (max_rows_scanned (limits g)))
      @ lit '' rows; narrow it with an indexed filter or a smaller .limit()'')"

definition deadline_error :: "Governor \<Rightarrow> QueryError" where
  "deadline_error g = ResourceLimitExceeded
     (lit ''query exceeded its '' @ dec (max_duration (limits g) div 1000000) @ lit '' ms time budget'')"

definition check_deadline :: "nat \<Rightarrow> Governor \<Rightarrow> QueryError + unit" where
  "check_deadline now g = (case deadline g of
      Some d \<Rightarrow> if d \<le> now then Inl (deadline_error g) else Inr ()
    | None \<Rightarrow> Inr ())"

definition check_exhausted :: "nat \<Rightarrow> Governor \<Rightarrow> QueryError + unit" where
  "check_exhausted now g =
     (if enabled g \<and> max_rows_scanned (limits g) \<noteq> 0 \<and> max_rows_scanned (limits g) < rows_examined g
      then Inl (rows_exceeded_error g) else check_deadline now g)"

definition charge :: "nat \<Rightarrow> u64 \<Rightarrow> Governor \<Rightarrow> (QueryError + unit) \<times> Governor" where
  "charge now n g =
     (if \<not> enabled g then (Inr (), g)
      else let total = saturating_add (rows_examined g) n; g' = g\<lparr>rows_examined := total\<rparr> in
        (if max_rows_scanned (limits g) \<noteq> 0 \<and> max_rows_scanned (limits g) < total then Inl (rows_exceeded_error g)
         else check_deadline now g', g'))"

definition check_depth :: "Governor \<Rightarrow> u64 \<Rightarrow> QueryError + unit" where
  "check_depth g depth =
     (if enabled g \<and> max_depth (limits g) \<noteq> 0 \<and> max_depth (limits g) < depth
      then Inl (ResourceLimitExceeded
        (lit ''query traverses more than '' @ dec (unat (max_depth (limits g))) @ lit '' relationship hops''))
      else Inr ())"

definition check_result_rows :: "Governor \<Rightarrow> u64 \<Rightarrow> QueryError + unit" where
  "check_result_rows g rows =
     (if enabled g \<and> max_result_rows (limits g) \<noteq> 0 \<and> max_result_rows (limits g) < rows
      then Inl (ResourceLimitExceeded
        (lit ''query would return more than '' @ dec (unat (max_result_rows (limits g)))
         @ lit '' rows; page it with .offset()/.limit()''))
      else Inr ())"

section \<open>Exhaustion\<close>

text \<open>The row budget is overrun, or the clock has reached the deadline.\<close>

definition overrun :: "Governor \<Rightarrow> bool" where
  "overrun g \<longleftrightarrow> enabled g \<and> max_rows_scanned (limits g) \<noteq> 0 \<and> max_rows_scanned (limits g) < rows_examined g"

definition past :: "nat \<Rightarrow> Governor \<Rightarrow> bool" where
  "past now g \<longleftrightarrow> (case deadline g of Some d \<Rightarrow> d \<le> now | None \<Rightarrow> False)"

lemma unat_max_u64 [simp]: "unat (- 1 :: u64) = 18446744073709551615"
  by (simp add: unsigned_minus_1_eq_mask mask_eq_exp_minus_1)

lemma unat_saturating_add: "unat (saturating_add a b) = min (unat a + unat b) (2 ^ 64 - 1)"
  by (auto simp: saturating_add_def min_def unat_word_ariths(1))

lemma max_or_less: "unat w < 2 ^ 64 - 1 \<or> w = - 1" for w :: u64
  using unat_u64_less [of w] by (auto simp: word_unat_eq_iff)

lemma saturating_add_ge: "a \<le> saturating_add a b"
  using unat_u64_less [of a] by (simp add: word_le_nat_alt unat_saturating_add)

lemma saturating_add_gt_iff: "c < saturating_add a b \<longleftrightarrow> unat c < min (unat a + unat b) (2 ^ 64 - 1)"
  by (simp add: word_less_nat_alt unat_saturating_add)

lemma check_deadline_iff [simp]: "(check_deadline now g = Inr ()) = (\<not> past now g)"
  by (simp add: check_deadline_def past_def split: option.splits)

lemma check_exhausted_iff: "(check_exhausted now g = Inr ()) = (\<not> overrun g \<and> \<not> past now g)"
  by (auto simp: check_exhausted_def overrun_def)

lemma charge_effect:
  "snd (charge now n g) = (if enabled g then g\<lparr>rows_examined := saturating_add (rows_examined g) n\<rparr> else g)"
  by (simp add: charge_def Let_def)

lemma charge_past [simp]: "past t (snd (charge now n g)) = past t g"
  by (simp add: charge_effect past_def)

lemma charge_overrun: "overrun g \<Longrightarrow> overrun (snd (charge now n g))"
  using saturating_add_ge [of "rows_examined g" n] by (auto simp: charge_effect overrun_def)

text \<open>When a disabled governor has no deadline, as \<open>disabled\<close> has none.\<close>

lemma charge_iff:
  "enabled g \<or> deadline g = None \<Longrightarrow>
   (fst (charge now n g) = Inr ()) = (\<not> overrun (snd (charge now n g)) \<and> \<not> past now g)"
  by (auto simp: charge_def overrun_def past_def Let_def check_deadline_def split: option.splits if_splits)

lemma past_mono: "past t g \<Longrightarrow> t \<le> t' \<Longrightarrow> past t' g"
  by (auto simp: past_def split: option.splits)

section \<open>Runs of charges\<close>

text \<open>Charges of one query, each with the clock it reads, up to the first that fails.\<close>

fun charge_all :: "(nat \<times> u64) list \<Rightarrow> Governor \<Rightarrow> (QueryError + unit) \<times> Governor" where
  "charge_all [] g = (Inr (), g)"
| "charge_all ((now, n) # cs) g = (case charge now n g of
      (Inr _, g') \<Rightarrow> charge_all cs g'
    | (Inl e, g') \<Rightarrow> (Inl e, g'))"

definition examined :: "(nat \<times> u64) list \<Rightarrow> nat" where
  "examined cs = sum_list (map (unat \<circ> snd) cs)"

lemma charge_all_ok:
  assumes "enabled g" "\<not> overrun g"
  shows "fst (charge_all cs g) = Inr () \<longleftrightarrow>
     (max_rows_scanned (limits g) = 0 \<or> min (unat (rows_examined g) + examined cs) (2 ^ 64 - 1) \<le> unat (max_rows_scanned (limits g))) \<and>
     list_all (\<lambda>c. \<not> past (fst c) g) cs"
  using assms
proof (induction cs arbitrary: g)
  case Nil
  then show ?case using unat_u64_less [of "rows_examined g"] by (auto simp: examined_def overrun_def word_less_nat_alt)
next
  case (Cons c cs)
  obtain now n where c: "c = (now, n)" by (cases c)
  let ?g = "snd (charge now n g)"
  have g: "enabled ?g" "limits ?g = limits g" "rows_examined ?g = saturating_add (rows_examined g) n"
    using Cons.prems by (simp_all add: charge_effect)
  have ok: "(fst (charge now n g) = Inr ()) = (\<not> overrun ?g \<and> \<not> past now g)" using Cons.prems by (simp add: charge_iff)
  have tally: "min (unat (rows_examined ?g) + examined cs) (2 ^ 64 - 1) = min (unat (rows_examined g) + examined (c # cs)) (2 ^ 64 - 1)"
    by (simp add: g unat_saturating_add examined_def c)
  have over: "overrun ?g \<longleftrightarrow> max_rows_scanned (limits g) \<noteq> 0 \<and> unat (max_rows_scanned (limits g)) < min (unat (rows_examined g) + unat n) (2 ^ 64 - 1)"
    using g by (simp add: overrun_def saturating_add_gt_iff)
  show ?case
  proof (cases "fst (charge now n g) = Inr ()")
    case True
    then have "fst (charge_all (c # cs) g) = fst (charge_all cs ?g)" by (cases "charge now n g") (simp add: c)
    then show ?thesis using Cons.IH [of ?g] g ok tally True c by simp
  next
    case False
    then have "fst (charge_all (c # cs) g) \<noteq> Inr ()" by (cases "charge now n g") (auto simp: c split: sum.splits)
    moreover have "overrun ?g \<or> past now g" using ok False by simp
    ultimately show ?thesis using over by (auto simp: c examined_def)
  qed
qed

section \<open>Properties\<close>

text \<open>C20: The charges of a query all succeed exactly when the rows they charge, as an unbounded sum, are within the
  row budget and every one of them happens before the deadline; a limit of zero is no limit. The
  exception is a budget of the largest word, which the saturating tally cannot exceed.\<close>

theorem charges_within_budget:
  "fst (charge_all cs (governor_new l t0)) = Inr () \<longleftrightarrow>
     (max_rows_scanned l = 0 \<or> max_rows_scanned l = - 1 \<or> examined cs \<le> unat (max_rows_scanned l)) \<and>
     list_all (\<lambda>c. max_duration l = 0 \<or> fst c < t0 + max_duration l) cs"
proof -
  let ?g = "governor_new l t0"
  have "min (examined cs) (2 ^ 64 - 1) \<le> unat (max_rows_scanned l) \<longleftrightarrow>
      max_rows_scanned l = - 1 \<or> examined cs \<le> unat (max_rows_scanned l)"
    using max_or_less [of "max_rows_scanned l"] by (auto simp: min_def)
  moreover have "past t ?g = (\<not> (max_duration l = 0 \<or> t < t0 + max_duration l))" for t
    by (auto simp: past_def governor_new_def)
  ultimately show ?thesis using charge_all_ok [of ?g cs] by (simp add: governor_new_def overrun_def)
qed

text \<open>What \<^verbatim>\<open>remaining_scan_budget\<close> answers is the largest charge that still succeeds, and a governor that failed a
  charge stays exhausted: every later charge and every later \<^verbatim>\<open>check_exhausted\<close> fails too, so a caller that swallows
  the error of one charge cannot lose it.\<close>

theorem exhaustion_is_sticky:
  assumes "enabled g" "\<not> overrun g" "now \<le> later"
  shows "((fst (charge now n g) = Inr ()) \<longleftrightarrow>
      (case remaining_scan_budget g of None \<Rightarrow> True | Some b \<Rightarrow> n \<le> b \<or> max_rows_scanned (limits g) = - 1) \<and> \<not> past now g) \<and>
    (fst (charge now n g) = Inr () \<or>
      fst (charge later k (snd (charge now n g))) \<noteq> Inr () \<and> check_exhausted later (snd (charge now n g)) \<noteq> Inr ())"
    (is "?largest \<and> ?sticky")
proof
  let ?m = "max_rows_scanned (limits g)"
  have le: "rows_examined g \<le> ?m" if "?m \<noteq> 0" using assms(1,2) that by (simp add: overrun_def not_less)
  have sub: "unat (?m - rows_examined g) = unat ?m - unat (rows_examined g)" if "?m \<noteq> 0"
    using le [OF that] by (simp add: unat_sub)
  have "overrun (snd (charge now n g)) \<longleftrightarrow>
      \<not> (case remaining_scan_budget g of None \<Rightarrow> True | Some b \<Rightarrow> n \<le> b \<or> ?m = - 1)"
    using assms(1) le sub max_or_less [of ?m]
    by (auto simp: charge_effect overrun_def remaining_scan_budget_def scan_cap_def saturating_sub_def saturating_add_gt_iff
        word_le_nat_alt)
  then show ?largest using assms(1) by (simp add: charge_iff)
  have "overrun (snd (charge now n g)) \<or> past later (snd (charge now n g))" if "fst (charge now n g) \<noteq> Inr ()"
    using assms that by (auto simp: charge_iff intro: past_mono)
  moreover have "enabled (snd (charge now n g))" using assms(1) by (simp add: charge_effect)
  ultimately show ?sticky
    by (cases "fst (charge now n g) = Inr ()") (auto simp: charge_iff check_exhausted_iff dest: charge_overrun)
qed

text \<open>Nine rows of a budget of ten are spent: one more row can be charged, and failing to charge two is final.\<close>

definition nearly_spent :: Governor where
  "nearly_spent = (governor_new (DEFAULT\<lparr>max_rows_scanned := 10\<rparr>) 0)\<lparr>rows_examined := 9\<rparr>"

theorem exhaustion_is_sticky_witness:
  "fst (charge 5 1 nearly_spent) = Inr () \<and> fst (charge 5 2 nearly_spent) \<noteq> Inr () \<and>
   fst (charge 6 0 (snd (charge 5 2 nearly_spent))) \<noteq> Inr ()"
proof -
  have g: "enabled nearly_spent" "\<not> overrun nearly_spent" "\<not> past 5 nearly_spent" "remaining_scan_budget nearly_spent = Some 1"
      "max_rows_scanned (limits nearly_spent) = 10"
    by (simp_all add: nearly_spent_def governor_new_def DEFAULT_def overrun_def past_def remaining_scan_budget_def scan_cap_def
        saturating_sub_def)
  have "\<not> (2 :: u64) \<le> 1" by (simp add: word_le_nat_alt)
  then show ?thesis
    using exhaustion_is_sticky [OF g(1,2), of 5 6 1 0] exhaustion_is_sticky [OF g(1,2), of 5 6 2 0] g by auto
qed

end
