(* ===== verification/Query_Ast.thy ===== *)
theory Query_Ast
  imports Text
begin

text \<open>
  The syntax of queries, \<^verbatim>\<open>rhypedb-query/src/ast.rs\<close>. A \<^verbatim>\<open>serde_json\<close> value is the type parameter \<open>'j\<close>, a
  float is its bits, and a \<^verbatim>\<open>HashMap\<close> of fields is a partial function.
\<close>

datatype CompareOp = CEq | CNe | CLt | CLe | CGt | CGe

primrec compare_op_str :: "CompareOp \<Rightarrow> string" where
  "compare_op_str CEq = ''==''"
| "compare_op_str CNe = ''!=''"
| "compare_op_str CLt = ''<''"
| "compare_op_str CLe = ''<=''"
| "compare_op_str CGt = ''>''"
| "compare_op_str CGe = ''>=''"

datatype 'j Literal =
    LitString rtext
  | LitInt u64
  | LitFloat u64
  | LitBool bool
  | LitJson 'j
  | LitNull

type_synonym 'j fields_lit = "rtext \<rightharpoonup> 'j Literal"

datatype 'j Predicate =
    Compare rtext CompareOp "'j Literal"
  | Contains rtext rtext
  | And "'j Predicate" "'j Predicate"
  | Or "'j Predicate" "'j Predicate"

datatype SimilarQuery =
    SimText rtext
  | SimVector "u32 list"

datatype 'j Source =
    SGet rtext u64
  | SFilter rtext "'j Predicate"
  | SCreate rtext "'j fields_lit"
  | SCreateBatch rtext "'j fields_lit list"
  | SAll rtext

datatype 'j Step =
    Traverse rtext
  | Filter "'j Predicate"
  | Similar rtext SimilarQuery u64 "u64 option" "u64 option"
  | Matches rtext rtext u64
  | UpdateStep "'j fields_lit"
  | Delete
  | Link rtext u64 "'j fields_lit"
  | Unlink rtext u64
  | Limit u64
  | Offset u64

fun is_write :: "'j Step \<Rightarrow> bool" where
  "is_write (UpdateStep _) = True"
| "is_write Delete = True"
| "is_write (Link _ _ _) = True"
| "is_write (Unlink _ _) = True"
| "is_write _ = False"

record 'j Query =
  source :: "'j Source"
  steps :: "'j Step list"

end
