(* ===== verification/Rules_Gate.thy ===== *)
theory Rules_Gate
  imports Rules Governor Query_Ast
begin

text \<open>
  The enforcement of security rules around a query, \<^verbatim>\<open>rhypedb-query/src/authz.rs\<close>, and the pipeline of
  \<^verbatim>\<open>execute\<close> in \<^verbatim>\<open>executor.rs\<close> that calls it. What the rules read of the engine (\<^verbatim>\<open>get\<close>, \<^verbatim>\<open>get_links_many\<close>,
  \<^verbatim>\<open>get_many_lazy\<close>, the schema, the decoding and the JSON form of a value) is the record \<open>Engine\<close>; a
  failed read is \<open>None\<close>, as \<^verbatim>\<open>.ok()\<close> makes it. The state is the governor with the number of times the clock was
  consulted, and \<open>now k\<close> is the \<open>k\<close>-th reading. The sources and steps of a query are arguments of
  \<open>execute\<close>: they take the engine and return the engine they leave behind.

  A budget that runs out in the middle of a filter is reported, never a shorter result; whatever a
  query returns has passed the read rule.
\<close>

section \<open>Data\<close>

record 'v Object =
  o_type_name :: rtext
  o_id :: u64
  o_fields :: "(rtext \<times> 'v) list"
  o_raw_fields :: "bytes option"

record ('v, 'n) Engine =
  schema :: Schema
  db_get :: "rtext \<Rightarrow> u64 \<Rightarrow> 'v Object option"
  get_links_many :: "rtext \<Rightarrow> u64 list \<Rightarrow> rtext \<Rightarrow> (u64 \<times> bytes) list list option"
  get_many_lazy :: "rtext \<Rightarrow> u64 list \<Rightarrow> 'v Object list option"
  decode_fields :: "bytes \<Rightarrow> (rtext \<times> 'v) list"
  value_to_query_json :: "'v \<Rightarrow> 'n json"

record 'n ExecContext =
  principal :: "'n Principal"
  rules :: "RulesProgram option"
  json_f64 :: "'n \<Rightarrow> u64 option"
  now :: "nat \<Rightarrow> nat"

record RowScore =
  score :: u32
  rerank_score :: "u32 option"

datatype 'v QueryOutput =
    Objects "'v Object list"
  | Single "'v Object"
  | Done
  | Scored "('v Object \<times> RowScore) list"
  | IdSet rtext "u64 list"
  | IdSetWithFields rtext "(u64 \<times> bytes) list"

type_synonym gov_state = "Governor \<times> nat"

definition ensure_fields :: "('v, 'n) Engine \<Rightarrow> 'v Object \<Rightarrow> 'v Object" where
  "ensure_fields db ob =
     (if o_fields ob \<noteq> [] then ob
      else case o_raw_fields ob of None \<Rightarrow> ob | Some raw \<Rightarrow> ob\<lparr>o_fields := decode_fields db raw\<rparr>)"

text \<open>The governor's operations at the next reading of the clock.\<close>

definition gov_charge :: "'n ExecContext \<Rightarrow> u64 \<Rightarrow> gov_state \<Rightarrow> (QueryError + unit) \<times> gov_state" where
  "gov_charge ctx n st = (let (r, g) = charge (now ctx (snd st)) n (fst st) in (r, (g, Suc (snd st))))"

definition gov_exhausted :: "'n ExecContext \<Rightarrow> gov_state \<Rightarrow> (QueryError + unit) \<times> gov_state" where
  "gov_exhausted ctx st = (check_exhausted (now ctx (snd st)) (fst st), (fst st, Suc (snd st)))"

definition gov_deadline :: "'n ExecContext \<Rightarrow> gov_state \<Rightarrow> (QueryError + unit) \<times> gov_state" where
  "gov_deadline ctx st = (check_deadline (now ctx (snd st)) (fst st), (fst st, Suc (snd st)))"

section \<open>The engine as a resource\<close>

definition MAX_RULE_RELATION_TARGETS :: u64 where
  "MAX_RULE_RELATION_TARGETS = 1024"

record 'v EngineResource =
  er_type_name :: rtext
  er_object :: "'v Object option"
  er_request :: "(rtext \<times> 'v) list option"

definition relation_target :: "('v, 'n) Engine \<Rightarrow> 'v EngineResource \<Rightarrow> rtext \<Rightarrow> rtext option" where
  "relation_target db res rel = (case get_type (schema db) (er_type_name res) of
      None \<Rightarrow> None
    | Some td \<Rightarrow> (case get_field td rel of
        None \<Rightarrow> None
      | Some fd \<Rightarrow> (case fd_field_type fd of Relation r \<Rightarrow> Some (target_type r) | _ \<Rightarrow> None)))"

definition linked_ids ::
    "'n ExecContext \<Rightarrow> ('v, 'n) Engine \<Rightarrow> 'v EngineResource \<Rightarrow> rtext \<Rightarrow> gov_state \<Rightarrow> u64 list option \<times> gov_state" where
  "linked_ids ctx db res rel st = (case er_object res of
      None \<Rightarrow> (None, st)
    | Some ob \<Rightarrow> (case get_links_many db (er_type_name res) [o_id ob] rel of
        None \<Rightarrow> (None, st)
      | Some groups \<Rightarrow>
          let edges = of_nat (sum_list (map length groups)); (c, st1) = gov_charge ctx edges st in
          if c \<noteq> Inr () \<or> MAX_RULE_RELATION_TARGETS < edges then (None, st1)
          else (Some (map fst (concat groups)), st1)))"

definition target_scalar :: "('v, 'n) Engine \<Rightarrow> rtext \<Rightarrow> u64 \<Rightarrow> rtext \<Rightarrow> 'n json option" where
  "target_scalar db target i f = (case db_get db target i of
      None \<Rightarrow> None
    | Some tobj \<Rightarrow> map_option (value_to_query_json db) (map_of (o_fields (ensure_fields db tobj)) f))"

definition engine_scalar :: "('v, 'n) Engine \<Rightarrow> 'v EngineResource \<Rightarrow> rtext \<Rightarrow> 'n json option" where
  "engine_scalar db res f = (case er_object res of
      None \<Rightarrow> None
    | Some ob \<Rightarrow> map_option (value_to_query_json db) (map_of (o_fields ob) f))"

definition engine_relation_one ::
    "'n ExecContext \<Rightarrow> ('v, 'n) Engine \<Rightarrow> 'v EngineResource \<Rightarrow> rtext \<Rightarrow> rtext \<Rightarrow> gov_state \<Rightarrow> 'n json option \<times> gov_state" where
  "engine_relation_one ctx db res rel f st = (case relation_target db res rel of
      None \<Rightarrow> (None, st)
    | Some target \<Rightarrow> (case linked_ids ctx db res rel st of
        (Some (i # _), st1) \<Rightarrow> (target_scalar db target i f, st1)
      | (_, st1) \<Rightarrow> (None, st1)))"

definition engine_relation_many ::
    "'n ExecContext \<Rightarrow> ('v, 'n) Engine \<Rightarrow> 'v EngineResource \<Rightarrow> rtext \<Rightarrow> rtext \<Rightarrow> gov_state \<Rightarrow> 'n json list option \<times> gov_state" where
  "engine_relation_many ctx db res rel f st = (case relation_target db res rel of
      None \<Rightarrow> (None, st)
    | Some target \<Rightarrow> (case linked_ids ctx db res rel st of
        (Some ids, st1) \<Rightarrow> (Some (List.map_filter (\<lambda>i. target_scalar db target i f) ids), st1)
      | (None, st1) \<Rightarrow> (None, st1)))"

definition engine_request :: "('v, 'n) Engine \<Rightarrow> 'v EngineResource \<Rightarrow> rtext \<Rightarrow> 'n json option" where
  "engine_request db res f = (case er_request res of
      None \<Rightarrow> None
    | Some req \<Rightarrow> map_option (value_to_query_json db) (map_of req f))"

definition engine_resource ::
    "'n ExecContext \<Rightarrow> ('v, 'n) Engine \<Rightarrow> 'v EngineResource \<Rightarrow> ('n, gov_state) ResourceAccessor" where
  "engine_resource ctx db res =
     \<lparr>resource_scalar = (\<lambda>f st. (engine_scalar db res f, st)),
      resource_relation_one = engine_relation_one ctx db res,
      resource_relation_many = engine_relation_many ctx db res,
      request_field = (\<lambda>f st. (engine_request db res f, st))\<rparr>"

section \<open>Gates\<close>

primrec op_str :: "Op \<Rightarrow> string" where
  "op_str Read = ''read''"
| "op_str Create = ''create''"
| "op_str Update = ''update''"
| "op_str Delete_op = ''delete''"
| "op_str Subscribe = ''subscribe''"

definition decide ::
    "'n ExecContext \<Rightarrow> ('v, 'n) Engine \<Rightarrow> RulesProgram \<Rightarrow> Op \<Rightarrow> rtext \<Rightarrow> 'v EngineResource \<Rightarrow> gov_state \<Rightarrow>
     (QueryError + unit) \<times> gov_state" where
  "decide ctx db prog op tn res st =
     (case evaluate (json_f64 ctx) prog op tn (principal ctx) (engine_resource ctx db res) st of
        (Allow, st1) \<Rightarrow> (Inr (), st1)
      | (DenyAccess, st1) \<Rightarrow>
          (Inl (PermissionDenied (lit (op_str op) @ lit '' on '' @ tn @ lit '' denied by security rules'')), st1))"

definition gate_create ::
    "'n ExecContext \<Rightarrow> ('v, 'n) Engine \<Rightarrow> rtext \<Rightarrow> (rtext \<times> 'v) list \<Rightarrow> gov_state \<Rightarrow> (QueryError + unit) \<times> gov_state" where
  "gate_create ctx db tn fs st = (case rules ctx of
      None \<Rightarrow> (Inr (), st)
    | Some prog \<Rightarrow> decide ctx db prog Create tn \<lparr>er_type_name = tn, er_object = None, er_request = Some fs\<rparr> st)"

fun gate_write_loop ::
    "'n ExecContext \<Rightarrow> ('v, 'n) Engine \<Rightarrow> RulesProgram \<Rightarrow> Op \<Rightarrow> rtext \<Rightarrow> (rtext \<times> 'v) list option \<Rightarrow> u64 list \<Rightarrow> gov_state \<Rightarrow>
     (QueryError + unit) \<times> gov_state" where
  "gate_write_loop ctx db prog op tn req [] st = (Inr (), st)"
| "gate_write_loop ctx db prog op tn req (i # ids) st = (case db_get db tn i of
      None \<Rightarrow> gate_write_loop ctx db prog op tn req ids st
    | Some ob \<Rightarrow>
        (case decide ctx db prog op tn \<lparr>er_type_name = tn, er_object = Some (ensure_fields db ob), er_request = req\<rparr> st of
           (Inl e, st1) \<Rightarrow> (Inl e, st1)
         | (Inr _, st1) \<Rightarrow> gate_write_loop ctx db prog op tn req ids st1))"

definition gate_write ::
    "'n ExecContext \<Rightarrow> ('v, 'n) Engine \<Rightarrow> Op \<Rightarrow> rtext \<Rightarrow> u64 list \<Rightarrow> (rtext \<times> 'v) list option \<Rightarrow> gov_state \<Rightarrow>
     (QueryError + unit) \<times> gov_state" where
  "gate_write ctx db op tn ids req st = (case rules ctx of
      None \<Rightarrow> (Inr (), st)
    | Some prog \<Rightarrow> gate_write_loop ctx db prog op tn req ids st)"

text \<open>The decision on one row of a result.\<close>

definition row_resource :: "'v Object \<Rightarrow> 'v EngineResource" where
  "row_resource ob = \<lparr>er_type_name = o_type_name ob, er_object = Some ob, er_request = None\<rparr>"

definition row_decision ::
    "'n ExecContext \<Rightarrow> ('v, 'n) Engine \<Rightarrow> RulesProgram \<Rightarrow> 'v Object \<Rightarrow> gov_state \<Rightarrow> Decision \<times> gov_state" where
  "row_decision ctx db prog ob st =
     evaluate (json_f64 ctx) prog Read (o_type_name ob) (principal ctx) (engine_resource ctx db (row_resource ob)) st"

fun retain_readable ::
    "'n ExecContext \<Rightarrow> ('v, 'n) Engine \<Rightarrow> RulesProgram \<Rightarrow> 'v Object list \<Rightarrow> gov_state \<Rightarrow> 'v Object list \<times> gov_state" where
  "retain_readable ctx db prog [] st = ([], st)"
| "retain_readable ctx db prog (ob # obs) st =
     (let ob' = ensure_fields db ob;
          (d, st1) = row_decision ctx db prog ob' st;
          (obs', st2) = retain_readable ctx db prog obs st1 in
      (if d = Allow then ob' # obs' else obs', st2))"

definition filter_read ::
    "'n ExecContext \<Rightarrow> ('v, 'n) Engine \<Rightarrow> 'v Object list \<Rightarrow> gov_state \<Rightarrow> 'v Object list \<times> gov_state" where
  "filter_read ctx db obs st = (case rules ctx of
      None \<Rightarrow> (obs, st)
    | Some prog \<Rightarrow> retain_readable ctx db prog obs st)"

text \<open>The map from id to score keeps the last of two rows with the same id.\<close>

definition apply_read_filter ::
    "'n ExecContext \<Rightarrow> ('v, 'n) Engine \<Rightarrow> 'v QueryOutput \<Rightarrow> gov_state \<Rightarrow> 'v QueryOutput \<times> gov_state" where
  "apply_read_filter ctx db result st = (case rules ctx of
      None \<Rightarrow> (result, st)
    | Some prog \<Rightarrow> (case result of
        Objects obs \<Rightarrow> apfst Objects (filter_read ctx db obs st)
      | Scored rows \<Rightarrow>
          let scores = map_of (rev (map (\<lambda>(ob, s). (o_id ob, s)) rows)) in
          apfst (\<lambda>obs. Scored (map (\<lambda>ob. (ob, the (scores (o_id ob)))) obs)) (filter_read ctx db (map fst rows) st)
      | Single ob \<Rightarrow>
          let ob' = ensure_fields db ob; (d, st1) = row_decision ctx db prog ob' st in
          (if d = Allow then Single ob' else Done, st1)
      | other \<Rightarrow> (other, st)))"

definition READ_CHECK_BATCH :: nat where
  "READ_CHECK_BATCH = 1024"

function readable_loop ::
    "'n ExecContext \<Rightarrow> ('v, 'n) Engine \<Rightarrow> rtext \<Rightarrow> u64 list \<Rightarrow> u64 set \<Rightarrow> gov_state \<Rightarrow> (QueryError + u64 set) \<times> gov_state" where
  "readable_loop ctx db tn ids keep st =
     (if ids = [] then (Inr keep, st)
      else
        let obs = (case get_many_lazy db tn (take READ_CHECK_BATCH ids) of Some l \<Rightarrow> l | None \<Rightarrow> []);
            (kept, st1) = filter_read ctx db obs st;
            (c, st2) = gov_deadline ctx st1 in
        (case c of
           Inl e \<Rightarrow> (Inl e, st2)
         | Inr _ \<Rightarrow> readable_loop ctx db tn (drop READ_CHECK_BATCH ids) (keep \<union> set (map o_id kept)) st2))"
  by pat_completeness auto
termination by (relation "measure (\<lambda>(ctx, db, tn, ids, keep, st). length ids)") (auto simp: READ_CHECK_BATCH_def)

declare readable_loop.simps [simp del]

definition readable_ids ::
    "'n ExecContext \<Rightarrow> ('v, 'n) Engine \<Rightarrow> rtext \<Rightarrow> u64 list \<Rightarrow> gov_state \<Rightarrow> (QueryError + u64 set) \<times> gov_state" where
  "readable_ids ctx db tn ids st = (case gov_charge ctx (of_nat (length ids)) st of
      (Inl e, st1) \<Rightarrow> (Inl e, st1)
    | (Inr _, st1) \<Rightarrow> readable_loop ctx db tn ids {} st1)"

text \<open>The rows a result is charged for: the streaming shapes are charged by \<open>readable_ids\<close>.\<close>

fun output_rows :: "'v QueryOutput \<Rightarrow> nat" where
  "output_rows (Objects obs) = length obs"
| "output_rows (Scored rows) = length rows"
| "output_rows _ = 0"

definition filter_stage ::
    "'n ExecContext \<Rightarrow> ('v, 'n) Engine \<Rightarrow> 'v QueryOutput \<Rightarrow> gov_state \<Rightarrow> (QueryError + 'v QueryOutput) \<times> gov_state" where
  "filter_stage ctx db result st = (case result of
      IdSet tn ids \<Rightarrow> (case readable_ids ctx db tn ids st of
          (Inl e, st1) \<Rightarrow> (Inl e, st1)
        | (Inr keep, st1) \<Rightarrow> (Inr (IdSet tn (filter (\<lambda>i. i \<in> keep) ids)), st1))
    | IdSetWithFields tn items \<Rightarrow> (case readable_ids ctx db tn (map fst items) st of
          (Inl e, st1) \<Rightarrow> (Inl e, st1)
        | (Inr keep, st1) \<Rightarrow> (Inr (IdSetWithFields tn (filter (\<lambda>it. fst it \<in> keep) items)), st1))
    | other \<Rightarrow> (case gov_charge ctx (of_nat (output_rows other)) st of
          (Inl e, st1) \<Rightarrow> (Inl e, st1)
        | (Inr _, st1) \<Rightarrow> apfst Inr (apply_read_filter ctx db other st1)))"

definition read_filter_stage ::
    "'n ExecContext \<Rightarrow> ('v, 'n) Engine \<Rightarrow> 'v QueryOutput \<Rightarrow> gov_state \<Rightarrow> (QueryError + 'v QueryOutput) \<times> gov_state" where
  "read_filter_stage ctx db result st = (case rules ctx of
      None \<Rightarrow> (Inr result, st)
    | Some _ \<Rightarrow> (case filter_stage ctx db result st of
        (Inl e, st1) \<Rightarrow> (Inl e, st1)
      | (Inr filtered, st1) \<Rightarrow> (case gov_exhausted ctx st1 of
          (Inl e, st2) \<Rightarrow> (Inl e, st2)
        | (Inr _, st2) \<Rightarrow> (Inr filtered, st2))))"

section \<open>Events\<close>

definition JsonSnapshot :: "(rtext \<rightharpoonup> 'n json) option \<Rightarrow> ('n, 's) ResourceAccessor" where
  "JsonSnapshot fs = \<lparr>resource_scalar = (\<lambda>f s. (Option.bind fs (\<lambda>m. m f), s)),
     resource_relation_one = (\<lambda>_ _ s. (None, s)), resource_relation_many = (\<lambda>_ _ s. (None, s)),
     request_field = (\<lambda>_ s. (None, s))\<rparr>"

definition event_read_allowed ::
    "('n \<Rightarrow> u64 option) \<Rightarrow> RulesProgram \<Rightarrow> 'n Principal \<Rightarrow> rtext \<Rightarrow> (rtext \<rightharpoonup> 'n json) option \<Rightarrow> bool" where
  "event_read_allowed f prog p tn snapshot = (fst (evaluate f prog Read tn p (JsonSnapshot snapshot) ()) = Allow)"

section \<open>Evaluation under a budget\<close>

text \<open>
  \<open>exact bad out v s\<close>: a computation from the state \<open>s\<close> that ended in \<open>out\<close> answered \<open>v\<close> or left a bad state, and it
  did not leave a good state when it started in a bad one.
\<close>

definition exact :: "('s \<Rightarrow> bool) \<Rightarrow> 'a \<times> 's \<Rightarrow> 'a \<Rightarrow> 's \<Rightarrow> bool" where
  "exact bad out v s \<longleftrightarrow> (if bad s then bad (snd out) else bad (snd out) \<or> fst out = v)"

lemma exact_pure: "exact bad (v, s) v s"
  by (simp add: exact_def)

lemma exact_apfst: "exact bad out v s \<Longrightarrow> exact bad (apfst f out) (f v) s"
  by (auto simp: exact_def split: if_splits)

lemma exact_sticky: "exact bad out v s \<Longrightarrow> bad s \<Longrightarrow> bad (snd out)"
  by (simp add: exact_def)

lemma exact_bind:
  assumes "exact bad out v s" "\<And>x s1. bad s1 \<Longrightarrow> bad (snd (k x s1))" "\<And>s1. exact bad (k v s1) w s1"
  shows "exact bad (case out of (x, s1) \<Rightarrow> k x s1) w s"
proof (cases out)
  case (Pair x s1)
  then show ?thesis using assms(1,2) assms(3) [of s1] by (cases "bad s1") (auto simp: exact_def split: if_splits)
qed

locale budgeted =
  fixes r :: "('n, 's) ResourceAccessor" and d :: "'n facts" and bad :: "'s \<Rightarrow> bool"
  assumes scalar_exact: "exact bad (resource_scalar r x s) (scalars d x) s"
    and one_exact: "exact bad (resource_relation_one r rel x s) (ones d rel x) s"
    and many_exact: "exact bad (resource_relation_many r rel x s) (manys d rel x) s"
    and request_exact: "exact bad (request_field r x s) (incoming d x) s"
begin

lemma resolve_exact: "exact bad (resolve f o1 p r s) (sem_operand f o1 p d) s"
  by (cases o1) (simp_all add: exact_pure exact_apfst scalar_exact one_exact many_exact request_exact)

lemma eval_exact:
  "exact bad (eval_tri f e p r s) (sem f e p d) s \<and> exact bad (value_of f e p r s) (sem_value f e p d) s"
proof (induction e arbitrary: s)
  case (EAnd a b)
  have "exact bad (eval_tri f (EAnd a b) p r s) (sem f (EAnd a b) p d) s"
    unfolding eval_tri.simps Let_def
  proof (rule exact_bind)
    show "exact bad (eval_tri f a p r s) (sem f a p d) s" using EAnd by simp
    show "bad (snd (if x = TFalse then (TFalse, s1) else case eval_tri f b p r s1 of (bv, s2) \<Rightarrow>
        (if x = TTrue \<and> bv = TTrue then TTrue else if bv = TFalse then TFalse else TUnknown, s2)))" if "bad s1" for x s1
      using EAnd.IH(2) [of s1] that by (auto simp: exact_def split: prod.splits)
    show "exact bad (if sem f a p d = TFalse then (TFalse, s1) else case eval_tri f b p r s1 of (bv, s2) \<Rightarrow>
        (if sem f a p d = TTrue \<and> bv = TTrue then TTrue else if bv = TFalse then TFalse else TUnknown, s2)) (sem f (EAnd a b) p d) s1" for s1
      using EAnd.IH(2) [of s1] by (cases "sem f a p d"; cases "sem f b p d") (auto simp: exact_def split: prod.splits if_splits)
  qed
  then show ?case by (simp add: exact_apfst)
next
  case (EOr a b)
  have "exact bad (eval_tri f (EOr a b) p r s) (sem f (EOr a b) p d) s"
    unfolding eval_tri.simps Let_def
  proof (rule exact_bind)
    show "exact bad (eval_tri f a p r s) (sem f a p d) s" using EOr by simp
    show "bad (snd (if x = TTrue then (TTrue, s1) else case eval_tri f b p r s1 of (bv, s2) \<Rightarrow>
        (if bv = TTrue then TTrue else if x = TFalse \<and> bv = TFalse then TFalse else TUnknown, s2)))" if "bad s1" for x s1
      using EOr.IH(2) [of s1] that by (auto simp: exact_def split: prod.splits)
    show "exact bad (if sem f a p d = TTrue then (TTrue, s1) else case eval_tri f b p r s1 of (bv, s2) \<Rightarrow>
        (if bv = TTrue then TTrue else if sem f a p d = TFalse \<and> bv = TFalse then TFalse else TUnknown, s2)) (sem f (EOr a b) p d) s1" for s1
      using EOr.IH(2) [of s1] by (cases "sem f a p d"; cases "sem f b p d") (auto simp: exact_def split: prod.splits if_splits)
  qed
  then show ?case by (simp add: exact_apfst)
next
  case (ECmp a op b)
  have "exact bad (eval_tri f (ECmp a op b) p r s) (sem f (ECmp a op b) p d) s"
    unfolding eval_tri.simps Let_def
  proof (rule exact_bind)
    show "exact bad (value_of f a p r s) (sem_value f a p d) s" using ECmp by simp
    show "bad (snd (case value_of f b p r s1 of (rv, s2) \<Rightarrow> (cmp_rvals x op rv, s2)))" if "bad s1" for x s1
      using ECmp.IH(2) [of s1] that by (auto simp: exact_def split: prod.splits)
    show "exact bad (case value_of f b p r s1 of (rv, s2) \<Rightarrow> (cmp_rvals (sem_value f a p d) op rv, s2)) (sem f (ECmp a op b) p d) s1" for s1
      using ECmp.IH(2) [of s1] by (auto simp: exact_def split: prod.splits if_splits)
  qed
  then show ?case by (simp add: exact_apfst)
qed (simp_all add: exact_pure exact_apfst resolve_exact)

lemma clauses_exact:
  "exact bad (eval_clauses f cs p r s) (if \<exists>e \<in> set cs. sem f e p d = TTrue then Allow else DenyAccess) s"
proof (induction cs arbitrary: s)
  case (Cons c cs)
  have c: "exact bad (eval_bool f c p r s) (sem f c p d = TTrue) s"
    unfolding eval_bool_def using exact_apfst [OF conjunct1 [OF eval_exact]] by fastforce
  show ?case unfolding eval_clauses.simps Let_def
  proof (rule exact_bind [OF c])
    show "bad (snd (if x then (Allow, s1) else eval_clauses f cs p r s1))" if "bad s1" for x s1
      using exact_sticky [OF Cons.IH that] that by simp
    show "exact bad (if sem f c p d = TTrue then (Allow, s1) else eval_clauses f cs p r s1)
        (if \<exists>e \<in> set (c # cs). sem f e p d = TTrue then Allow else DenyAccess) s1" for s1
      using Cons.IH [of s1] by (auto simp: exact_pure split: if_splits)
  qed
qed (simp add: exact_pure)

lemma evaluate_exact:
  "exact bad (evaluate f prog op tn p r s) (fst (evaluate f prog op tn p (known d) ())) s"
proof (cases "Option.bind (prog tn) (\<lambda>t. t op)")
  case (Some cs)
  have "fst (eval_clauses f cs p (known d) ()) = (if \<exists>e \<in> set cs. sem f e p d = TTrue then Allow else DenyAccess)"
    by (induction cs) (simp_all add: eval_bool_def eval_known)
  then show ?thesis using clauses_exact [of f cs p s] Some by (simp add: evaluate_def)
qed (simp add: evaluate_def exact_pure)

end

section \<open>What the engine knows\<close>

text \<open>
  The answers of \<open>engine_resource\<close> with no budget: what the engine's reads answer, no more. A relation is answered by the
  targets whose objects can be read, and the cap on linked targets still applies.
\<close>

definition linked_targets :: "('v, 'n) Engine \<Rightarrow> 'v EngineResource \<Rightarrow> rtext \<Rightarrow> u64 list option" where
  "linked_targets db res rel = (case er_object res of
      None \<Rightarrow> None
    | Some ob \<Rightarrow> (case get_links_many db (er_type_name res) [o_id ob] rel of
        None \<Rightarrow> None
      | Some groups \<Rightarrow>
          if MAX_RULE_RELATION_TARGETS < of_nat (sum_list (map length groups)) then None else Some (map fst (concat groups))))"

definition engine_facts :: "('v, 'n) Engine \<Rightarrow> 'v EngineResource \<Rightarrow> 'n facts" where
  "engine_facts db res = \<lparr>scalars = engine_scalar db res,
     ones = (\<lambda>rel f. Option.bind (relation_target db res rel) (\<lambda>target. Option.bind (linked_targets db res rel)
        (\<lambda>ids. case ids of [] \<Rightarrow> None | i # _ \<Rightarrow> target_scalar db target i f))),
     manys = (\<lambda>rel f. Option.bind (relation_target db res rel) (\<lambda>target.
        map_option (List.map_filter (\<lambda>i. target_scalar db target i f)) (linked_targets db res rel))),
     incoming = engine_request db res\<rparr>"

text \<open>The budget is overrun, or a reading of the clock so far was past the deadline.\<close>

definition exhausted :: "'n ExecContext \<Rightarrow> gov_state \<Rightarrow> bool" where
  "exhausted ctx st \<longleftrightarrow> overrun (fst st) \<or> (\<exists>j < snd st. past (now ctx j) (fst st))"

lemma gov_charge_exact:
  "exhausted ctx st \<Longrightarrow> exhausted ctx (snd (gov_charge ctx n st))"
  "fst (gov_charge ctx n st) = Inr () \<or> exhausted ctx (snd (gov_charge ctx n st))"
proof -
  let ?g = "snd (charge (now ctx (snd st)) n (fst st))"
  have st: "snd (gov_charge ctx n st) = (?g, Suc (snd st))" "fst (gov_charge ctx n st) = fst (charge (now ctx (snd st)) n (fst st))"
    by (simp_all add: gov_charge_def split: prod.splits)
  show "exhausted ctx st \<Longrightarrow> exhausted ctx (snd (gov_charge ctx n st))"
    using charge_overrun [of "fst st"] by (auto simp: st exhausted_def less_Suc_eq)
  have "fst (charge t n g) = Inr () \<or> overrun (snd (charge t n g)) \<or> past t g" for t g
    by (auto simp: charge_def overrun_def past_def Let_def check_deadline_def split: option.splits if_splits)
  then show "fst (gov_charge ctx n st) = Inr () \<or> exhausted ctx (snd (gov_charge ctx n st))"
    by (auto simp: st exhausted_def)
qed

lemma linked_ids_exact: "exact (exhausted ctx) (linked_ids ctx db res rel st) (linked_targets db res rel) st"
proof -
  have "exact (exhausted ctx) (let (c, st1) = gov_charge ctx n st in if c \<noteq> Inr () \<or> b then (None, st1) else (Some v, st1))
      (if b then None else Some v) st" for n b and v :: "u64 list"
    using gov_charge_exact [where ctx = ctx and st = st and n = n] by (cases "gov_charge ctx n st") (auto simp: exact_def)
  then show ?thesis by (auto simp: linked_ids_def linked_targets_def Let_def exact_pure split: option.split)
qed

interpretation eng: budgeted "engine_resource ctx db res" "engine_facts db res" "exhausted ctx"
  for ctx :: "'n ExecContext" and db :: "('v, 'n) Engine" and res :: "'v EngineResource"
proof
  fix x rel and s :: gov_state
  show "exact (exhausted ctx) (resource_scalar (engine_resource ctx db res) x s) (scalars (engine_facts db res) x) s"
    and "exact (exhausted ctx) (request_field (engine_resource ctx db res) x s) (incoming (engine_facts db res) x) s"
    by (simp_all add: engine_resource_def engine_facts_def exact_pure)
  note ids = linked_ids_exact [of ctx db res rel s]
  show "exact (exhausted ctx) (resource_relation_one (engine_resource ctx db res) rel x s) (ones (engine_facts db res) rel x) s"
    using ids by (cases "linked_ids ctx db res rel s")
      (auto simp: engine_resource_def engine_facts_def engine_relation_one_def exact_def split: option.splits list.splits if_splits)
  show "exact (exhausted ctx) (resource_relation_many (engine_resource ctx db res) rel x s) (manys (engine_facts db res) rel x) s"
    using ids by (cases "linked_ids ctx db res rel s")
      (auto simp: engine_resource_def engine_facts_def engine_relation_many_def exact_def split: option.splits if_splits)
qed

lemma engine_answers: "answers (engine_resource ctx db res) (engine_facts db res)"
proof -
  have ids: "fst (linked_ids ctx db res rel st) \<in> {None, linked_targets db res rel}" for rel st
    by (auto simp: linked_ids_def linked_targets_def Let_def split: option.splits prod.splits)
  have "fst (engine_relation_one ctx db res rel x s) \<in> {None, ones (engine_facts db res) rel x}" for rel x s
    using ids [of rel s] by (cases "linked_ids ctx db res rel s"; cases "fst (linked_ids ctx db res rel s)")
      (auto simp: engine_facts_def engine_relation_one_def split: option.splits list.splits)
  moreover have "fst (engine_relation_many ctx db res rel x s) \<in> {None, manys (engine_facts db res) rel x}" for rel x s
    using ids [of rel s] by (cases "linked_ids ctx db res rel s"; cases "fst (linked_ids ctx db res rel s)")
      (auto simp: engine_facts_def engine_relation_many_def split: option.splits)
  ultimately show ?thesis by (simp add: answers_def engine_resource_def) (simp add: engine_facts_def)
qed

text \<open>The decision on all the answers of the engine's reads, and the rows the principal may read.\<close>

definition allowed ::
    "'n ExecContext \<Rightarrow> ('v, 'n) Engine \<Rightarrow> RulesProgram \<Rightarrow> Op \<Rightarrow> rtext \<Rightarrow> 'v EngineResource \<Rightarrow> bool" where
  "allowed ctx db prog op tn res \<longleftrightarrow>
     fst (evaluate (json_f64 ctx) prog op tn (principal ctx) (known (engine_facts db res)) ()) = Allow"

definition readable :: "'n ExecContext \<Rightarrow> ('v, 'n) Engine \<Rightarrow> RulesProgram \<Rightarrow> 'v Object \<Rightarrow> bool" where
  "readable ctx db prog ob \<longleftrightarrow> allowed ctx db prog Read (o_type_name ob) (row_resource ob)"

lemma allow_sound:
  "fst (evaluate (json_f64 ctx) prog op tn (principal ctx) (engine_resource ctx db res) st) = Allow \<Longrightarrow> allowed ctx db prog op tn res"
  by (metis allowed_def engine_answers evaluate_known evaluate_sound)

lemma row_decision_exact:
  "exact (exhausted ctx) (row_decision ctx db prog ob st) (if readable ctx db prog ob then Allow else DenyAccess) st"
  using eng.evaluate_exact [where ctx = ctx and db = db and res = "row_resource ob" and f = "json_f64 ctx" and prog = prog
      and op = Read and tn = "o_type_name ob" and p = "principal ctx" and s = st]
  unfolding row_decision_def readable_def allowed_def
  by (cases "fst (evaluate (json_f64 ctx) prog Read (o_type_name ob) (principal ctx) (known (engine_facts db (row_resource ob))) ())") simp_all

lemma row_decision_sound: "fst (row_decision ctx db prog ob st) = Allow \<Longrightarrow> readable ctx db prog ob"
  by (simp add: row_decision_def readable_def allow_sound)

lemma retain_exact:
  "exact (exhausted ctx) (retain_readable ctx db prog obs st) (filter (readable ctx db prog) (map (ensure_fields db) obs)) st"
proof (induction obs arbitrary: st)
  case (Cons ob obs)
  show ?case unfolding retain_readable.simps Let_def
  proof (rule exact_bind [OF row_decision_exact])
    show "exhausted ctx (snd (case retain_readable ctx db prog obs s1 of (obs', st2) \<Rightarrow>
        (if x = Allow then ensure_fields db ob # obs' else obs', st2)))" if "exhausted ctx s1" for x s1
      using exact_sticky [OF Cons.IH that] by (auto split: prod.splits)
    show "exact (exhausted ctx) (case retain_readable ctx db prog obs s1 of (obs', st2) \<Rightarrow>
        (if (if readable ctx db prog (ensure_fields db ob) then Allow else DenyAccess) = Allow then ensure_fields db ob # obs' else obs', st2))
        (filter (readable ctx db prog) (map (ensure_fields db) (ob # obs))) s1" for s1
      using Cons.IH [of s1] by (auto simp: exact_def split: prod.splits if_splits)
  qed
qed (simp add: exact_pure)

lemma retain_sound: "ob \<in> set (fst (retain_readable ctx db prog obs st)) \<Longrightarrow> readable ctx db prog ob"
proof (induction obs arbitrary: st)
  case (Cons o1 obs)
  obtain d st1 where d: "row_decision ctx db prog (ensure_fields db o1) st = (d, st1)"
    by (cases "row_decision ctx db prog (ensure_fields db o1) st")
  then have "d = Allow \<Longrightarrow> readable ctx db prog (ensure_fields db o1)" using row_decision_sound by (metis fst_conv)
  then show ?case using Cons.prems Cons.IH [of st1] d by (auto simp: Let_def split: prod.splits if_splits)
qed simp

section \<open>Results under a budget\<close>

text \<open>The objects \<open>readable_loop\<close> loads, and what a filtered result is when no budget runs out.\<close>

function loaded :: "('v, 'n) Engine \<Rightarrow> rtext \<Rightarrow> u64 list \<Rightarrow> 'v Object list" where
  "loaded db tn ids =
     (if ids = [] then []
      else (case get_many_lazy db tn (take READ_CHECK_BATCH ids) of Some l \<Rightarrow> l | None \<Rightarrow> []) @ loaded db tn (drop READ_CHECK_BATCH ids))"
  by pat_completeness auto
termination by (relation "measure (\<lambda>(db, tn, ids). length ids)") (auto simp: READ_CHECK_BATCH_def)

declare loaded.simps [simp del]

definition visible :: "'n ExecContext \<Rightarrow> ('v, 'n) Engine \<Rightarrow> RulesProgram \<Rightarrow> 'v Object list \<Rightarrow> 'v Object list" where
  "visible ctx db prog obs = filter (readable ctx db prog) (map (ensure_fields db) obs)"

definition visible_ids :: "'n ExecContext \<Rightarrow> ('v, 'n) Engine \<Rightarrow> RulesProgram \<Rightarrow> rtext \<Rightarrow> u64 list \<Rightarrow> u64 set" where
  "visible_ids ctx db prog tn ids = o_id ` set (visible ctx db prog (loaded db tn ids))"

definition scores_of :: "('v Object \<times> RowScore) list \<Rightarrow> u64 \<rightharpoonup> RowScore" where
  "scores_of rows = map_of (rev (map (\<lambda>(ob, s). (o_id ob, s)) rows))"

fun visible_output :: "'n ExecContext \<Rightarrow> ('v, 'n) Engine \<Rightarrow> RulesProgram \<Rightarrow> 'v QueryOutput \<Rightarrow> 'v QueryOutput" where
  "visible_output ctx db prog (Objects obs) = Objects (visible ctx db prog obs)"
| "visible_output ctx db prog (Scored rows) =
     Scored (map (\<lambda>ob. (ob, the (scores_of rows (o_id ob)))) (visible ctx db prog (map fst rows)))"
| "visible_output ctx db prog (Single ob) =
     (if readable ctx db prog (ensure_fields db ob) then Single (ensure_fields db ob) else Done)"
| "visible_output ctx db prog Done = Done"
| "visible_output ctx db prog (IdSet tn ids) = IdSet tn (filter (\<lambda>i. i \<in> visible_ids ctx db prog tn ids) ids)"
| "visible_output ctx db prog (IdSetWithFields tn items) =
     IdSetWithFields tn (filter (\<lambda>it. fst it \<in> visible_ids ctx db prog tn (map fst items)) items)"

fun streaming :: "'v QueryOutput \<Rightarrow> bool" where
  "streaming (IdSet _ _) = True"
| "streaming (IdSetWithFields _ _) = True"
| "streaming _ = False"

lemma filter_read_exact:
  "rules ctx = Some prog \<Longrightarrow> exact (exhausted ctx) (filter_read ctx db obs st) (visible ctx db prog obs) st"
  by (simp add: filter_read_def visible_def retain_exact)

lemma apply_read_filter_exact:
  assumes "rules ctx = Some prog" "\<not> streaming out"
  shows "exact (exhausted ctx) (apply_read_filter ctx db out st) (visible_output ctx db prog out) st"
proof (cases out)
  case (Objects obs)
  then show ?thesis using exact_apfst [OF filter_read_exact [OF assms(1)], of Objects db obs st]
    by (simp add: apply_read_filter_def assms(1))
next
  case (Single ob)
  then show ?thesis using row_decision_exact [of ctx db prog "ensure_fields db ob" st]
    by (cases "row_decision ctx db prog (ensure_fields db ob) st") (auto simp: apply_read_filter_def assms(1) exact_def Let_def split: if_splits)
next
  case (Scored rows)
  then show ?thesis
    using exact_apfst [OF filter_read_exact [OF assms(1)], of "\<lambda>obs. Scored (map (\<lambda>ob. (ob, the (scores_of rows (o_id ob)))) obs)" db "map fst rows" st]
    by (simp add: apply_read_filter_def assms(1) scores_of_def)
qed (use assms in \<open>auto simp: apply_read_filter_def exact_pure\<close>)

lemma gov_deadline_snd: "exhausted ctx st \<Longrightarrow> exhausted ctx (snd (gov_deadline ctx st))"
  by (auto simp: gov_deadline_def exhausted_def less_Suc_eq)

lemma readable_loop_exact:
  assumes "rules ctx = Some prog"
  shows "(exhausted ctx st \<longrightarrow> exhausted ctx (snd (readable_loop ctx db tn ids keep st))) \<and>
    (fst (readable_loop ctx db tn ids keep st) = Inr keep' \<longrightarrow>
       exhausted ctx (snd (readable_loop ctx db tn ids keep st)) \<or> keep' = keep \<union> visible_ids ctx db prog tn ids)"
proof (induction ids arbitrary: keep st rule: length_induct)
  case (1 ids)
  show ?case
  proof (cases "ids = []")
    case True
    then show ?thesis by (simp add: readable_loop.simps loaded.simps visible_ids_def visible_def)
  next
    case False
    define obs where "obs = (case get_many_lazy db tn (take READ_CHECK_BATCH ids) of Some l \<Rightarrow> l | None \<Rightarrow> [])"
    obtain kept st1 where k: "filter_read ctx db obs st = (kept, st1)" by (cases "filter_read ctx db obs st")
    obtain c st2 where c: "gov_deadline ctx st1 = (c, st2)" by (cases "gov_deadline ctx st1")
    have kx: "exhausted ctx st \<longrightarrow> exhausted ctx st1" "exhausted ctx st1 \<or> kept = visible ctx db prog obs"
      using filter_read_exact [OF assms, of db obs st] k by (auto simp: exact_def split: if_splits)
    have cx: "exhausted ctx st1 \<longrightarrow> exhausted ctx st2" using gov_deadline_snd [of ctx st1] c by simp
    have vis: "visible_ids ctx db prog tn ids = o_id ` set (visible ctx db prog obs) \<union> visible_ids ctx db prog tn (drop READ_CHECK_BATCH ids)"
      using False by (subst visible_ids_def, subst loaded.simps) (simp add: visible_ids_def visible_def obs_def image_Un)
    have step: "readable_loop ctx db tn ids keep st = (case c of Inl e \<Rightarrow> (Inl e, st2)
        | Inr _ \<Rightarrow> readable_loop ctx db tn (drop READ_CHECK_BATCH ids) (keep \<union> set (map o_id kept)) st2)"
      using False k c by (subst readable_loop.simps) (simp add: obs_def)
    have "length (drop READ_CHECK_BATCH ids) < length ids" using False by (simp add: READ_CHECK_BATCH_def)
    note ih = 1 [rule_format, OF this, of st2 "keep \<union> set (map o_id kept)"]
    show ?thesis
    proof (cases c)
      case (Inl e)
      then show ?thesis using step kx cx by simp
    next
      case (Inr u)
      then show ?thesis using step kx cx ih vis by (auto simp: Un_assoc)
    qed
  qed
qed

lemma filter_stage_exact:
  assumes "rules ctx = Some prog" "fst (filter_stage ctx db out st) = Inr out'"
  shows "exhausted ctx (snd (filter_stage ctx db out st)) \<or> out' = visible_output ctx db prog out"
proof -
  have ids: "exhausted ctx (snd (readable_ids ctx db tn l st)) \<or> keep = visible_ids ctx db prog tn l"
    if "fst (readable_ids ctx db tn l st) = Inr keep" for tn l keep
  proof -
    obtain c st1 where c: "gov_charge ctx (of_nat (length l)) st = (c, st1)" by (cases "gov_charge ctx (of_nat (length l)) st")
    show ?thesis using that c readable_loop_exact [OF assms(1), of st1 db tn l "{}" keep]
      by (cases c) (auto simp: readable_ids_def)
  qed
  have other: "exhausted ctx (snd (filter_stage ctx db out st)) \<or> out' = visible_output ctx db prog out"
    if "\<not> streaming out"
  proof -
    obtain c st1 where c: "gov_charge ctx (of_nat (output_rows out)) st = (c, st1)"
      by (cases "gov_charge ctx (of_nat (output_rows out)) st")
    then have "filter_stage ctx db out st = (case c of Inl e \<Rightarrow> (Inl e, st1) | Inr _ \<Rightarrow> apfst Inr (apply_read_filter ctx db out st1))"
      using that by (cases out) (simp_all add: filter_stage_def split: sum.split)
    then show ?thesis using assms(2) apply_read_filter_exact [OF assms(1) that, where db = db and st = st1]
      by (auto simp: exact_def split: sum.splits if_splits)
  qed
  show ?thesis
  proof (cases out)
    case (IdSet tn l)
    then show ?thesis using assms(2) ids [of tn l] by (auto simp: filter_stage_def split: prod.splits sum.splits)
  next
    case (IdSetWithFields tn items)
    then show ?thesis using assms(2) ids [of tn "map fst items"] by (auto simp: filter_stage_def split: prod.splits sum.splits)
  qed (rule other; simp)+
qed

lemma exhausted_reported:
  assumes "mono (now ctx)" "exhausted ctx st"
  shows "fst (gov_exhausted ctx st) \<noteq> Inr ()"
proof -
  have "past (now ctx (snd st)) (fst st)" if "j < snd st" "past (now ctx j) (fst st)" for j
    using that past_mono [OF that(2) monoD [OF assms(1)]] by simp
  then show ?thesis using assms(2) by (auto simp: gov_exhausted_def exhausted_def check_exhausted_iff)
qed

lemma read_filter_stage_inr:
  assumes "rules ctx = Some prog" "fst (read_filter_stage ctx db out st) = Inr out'"
  shows "fst (filter_stage ctx db out st) = Inr out'"
    "fst (gov_exhausted ctx (snd (filter_stage ctx db out st))) = Inr ()"
  using assms by (auto simp: read_filter_stage_def split: prod.splits sum.splits)

lemma decide_inr: "fst (decide ctx db prog op tn res st) = Inr u \<Longrightarrow> allowed ctx db prog op tn res"
  by (rule allow_sound [of ctx prog op tn db res st]) (auto simp: decide_def split: prod.splits Decision.splits)

section \<open>A deny list over a relation\<close>

text \<open>\<^verbatim>\<open>!(request.auth.uid in resource.rel.f)\<close>, and the engine that fails to read one object.\<close>

definition deny_listed :: "rtext \<Rightarrow> rtext \<Rightarrow> Expr" where
  "deny_listed rel f = ENot (ECmp (EOperand AuthUid) In (EOperand (ResourceRelationMany rel f)))"

definition cannot_read :: "rtext \<Rightarrow> u64 \<Rightarrow> ('v, 'n) Engine \<Rightarrow> ('v, 'n) Engine" where
  "cannot_read tn i db = db\<lparr>db_get := \<lambda>t j. if t = tn \<and> j = i then None else db_get db t j\<rparr>"

lemma target_scalar_cannot_read:
  "target_scalar (cannot_read target i db) target j f = (if j = i then None else target_scalar db target j f)"
  by (simp add: target_scalar_def cannot_read_def ensure_fields_def split: option.split)

lemma set_map_filter: "set (List.map_filter g xs) = {y. \<exists>x \<in> set xs. g x = Some y}"
  by (force simp: List.map_filter_def)

lemma rval_eq_string: "rval_eq (VStr u) (json_to_rval h j) \<longleftrightarrow> j = JString u"
  by (cases j) (auto split: option.splits)

lemma deny_listed_decision:
  assumes "prog (o_type_name ob) = Some ops" "ops Read = Some [deny_listed rel f]" "uid (principal ctx) = Some u"
    "fst (engine_relation_many ctx db (row_resource ob) rel f st) = Some vals"
  shows "fst (row_decision ctx db prog ob st) = (if JString u \<in> set vals then DenyAccess else Allow)"
  using assms
  by (cases "engine_relation_many ctx db (row_resource ob) rel f st")
     (auto simp: row_decision_def evaluate_def eval_bool_def deny_listed_def engine_resource_def set_or_absent_def cmp_rvals_def
       tri_from_bool_def rval_eq_string)

section \<open>A sample database\<close>

text \<open>A document with a list of blocked users: Ann and Eve.\<close>

definition name :: "string \<Rightarrow> u64 \<Rightarrow> rtext Object" where
  "name s i = \<lparr>o_type_name = lit ''User'', o_id = i, o_fields = [(lit ''uid'', lit s)], o_raw_fields = None\<rparr>"

definition doc :: "rtext Object" where
  "doc = \<lparr>o_type_name = lit ''Doc'', o_id = 1, o_fields = [(lit ''owner'', lit ''bob'')], o_raw_fields = None\<rparr>"

definition sample_schema :: Schema where
  "sample_schema = [(lit ''Doc'', \<lparr>td_name = lit ''Doc'', td_fields =
      [\<lparr>fd_name = lit ''owner'', fd_field_type = Scalar ST_String, fd_directives = []\<rparr>,
       \<lparr>fd_name = lit ''blocked'', fd_field_type = Relation \<lparr>target_type = lit ''User'', is_many = True, edge_fields = []\<rparr>,
         fd_directives = []\<rparr>]\<rparr>),
     (lit ''User'', \<lparr>td_name = lit ''User'', td_fields =
      [\<lparr>fd_name = lit ''uid'', fd_field_type = Scalar ST_String, fd_directives = []\<rparr>]\<rparr>)]"

definition sample_engine :: "(rtext, unit) Engine" where
  "sample_engine = \<lparr>schema = sample_schema,
     db_get = (\<lambda>tn i. if tn = lit ''Doc'' \<and> i = 1 then Some doc
       else if tn = lit ''User'' \<and> i = 2 then Some (name ''ann'' 2)
       else if tn = lit ''User'' \<and> i = 3 then Some (name ''eve'' 3) else None),
     get_links_many = (\<lambda>tn ids rel. Some (map (\<lambda>i. if tn = lit ''Doc'' \<and> i = 1 then [(2, []), (3, [])] else []) ids)),
     get_many_lazy = (\<lambda>tn ids. Some (if tn = lit ''Doc'' \<and> 1 \<in> set ids then [doc] else [])),
     decode_fields = (\<lambda>_. []), value_to_query_json = JString\<rparr>"

text \<open>\<^verbatim>\<open>match Doc { allow read: if !(request.auth.uid in resource.blocked.uid); allow update: if request.auth.uid == resource.owner; }\<close>\<close>

definition deny_list :: RulesProgram where
  "deny_list = [lit ''Doc'' \<mapsto>
     [Read \<mapsto> [deny_listed (lit ''blocked'') (lit ''uid'')],
      Update \<mapsto> [ECmp (EOperand AuthUid) Eq (EOperand (ResourceScalar (lit ''owner'')))]]]"

definition reader :: "string \<Rightarrow> unit ExecContext" where
  "reader u = \<lparr>principal = from_verified (lit u) None, rules = Some deny_list, json_f64 = (\<lambda>_. None), now = (\<lambda>k. k)\<rparr>"

definition fresh :: gov_state where
  "fresh = (governor_new DEFAULT 0, 0)"

lemmas sample_evals = name_def doc_def sample_engine_def sample_schema_def deny_list_def deny_listed_def reader_def fresh_def from_verified_def
  governor_new_def DEFAULT_def

lemmas gate_evals = row_decision_def row_resource_def evaluate_def eval_bool_def engine_resource_def engine_scalar_def engine_relation_many_def
  relation_target_def linked_ids_def target_scalar_def ensure_fields_def gov_charge_def charge_def saturating_add_def check_deadline_def
  MAX_RULE_RELATION_TARGETS_def cmp_rvals_def or_absent_def set_or_absent_def tri_from_bool_def get_type_def get_field_def lit_def
  List.map_filter_def Let_def

section \<open>Properties\<close>

text \<open>C14: Running out of the row budget or of time while rules are being evaluated never shortens a result: when a
  stage of the read filter succeeds, its result is the part of the input that the principal may read when the rules
  see all that the engine's reads answer, the same as with no governor at all. The clock must not go
  backwards.\<close>

theorem budget_never_shortens_result:
  assumes "mono (now ctx)" "rules ctx = Some prog" "fst (read_filter_stage ctx db out st) = Inr out'"
  shows "out' = visible_output ctx db prog out"
  using filter_stage_exact [OF assms(2)] read_filter_stage_inr [OF assms(2,3)] exhausted_reported [OF assms(1)] by blast

theorem budget_never_shortens_result_witness:
  "Objects [doc] = visible_output (reader ''bob'') sample_engine deny_list (Objects [doc])"
proof (rule budget_never_shortens_result)
  show "fst (read_filter_stage (reader ''bob'') sample_engine (Objects [doc]) fresh) = Inr (Objects [doc])"
    by (simp add: read_filter_stage_def filter_stage_def apply_read_filter_def filter_read_def gov_exhausted_def check_exhausted_def
        sample_evals gate_evals)
qed (simp_all add: reader_def mono_def)

text \<open>C17: A write that passes its gate is allowed by the rules on every listed object that the engine can read before the
  write, when the rules see all that the engine's reads answer, whatever the budget was. The gate skips a listed id
  whose read fails, and it is only asked about the listed ids: the objects that a delete removes by cascade are
  not gated.\<close>

theorem gated_writes_allowed:
  assumes "rules ctx = Some prog" "fst (gate_write ctx db op tn ids req st) = Inr ()" "i \<in> set ids" "db_get db tn i = Some ob"
  shows "allowed ctx db prog op tn \<lparr>er_type_name = tn, er_object = Some (ensure_fields db ob), er_request = req\<rparr>"
proof -
  have "fst (gate_write_loop ctx db prog op tn req ids st) = Inr ()" using assms(1,2) by (simp add: gate_write_def)
  then show ?thesis using assms(3,4)
  proof (induction ids arbitrary: st)
    case (Cons j js)
    show ?case
    proof (cases "db_get db tn j")
      case None
      then show ?thesis using Cons.IH [of st] Cons.prems by auto
    next
      case (Some o1)
      let ?res = "\<lparr>er_type_name = tn, er_object = Some (ensure_fields db o1), er_request = req\<rparr>"
      obtain c st1 where c: "decide ctx db prog op tn ?res st = (c, st1)" by (cases "decide ctx db prog op tn ?res st")
      then obtain u where u: "c = Inr u" using Cons.prems(1) Some by (cases c) auto
      then have "allowed ctx db prog op tn ?res" using c decide_inr by (metis fst_conv)
      then show ?thesis using Cons.IH [of st1] Cons.prems Some c u by auto
    qed
  qed simp
qed

theorem gated_writes_allowed_witness:
  "allowed (reader ''bob'') sample_engine deny_list Update (lit ''Doc'')
     \<lparr>er_type_name = lit ''Doc'', er_object = Some (ensure_fields sample_engine doc), er_request = None\<rparr>"
proof (rule gated_writes_allowed)
  show "fst (gate_write (reader ''bob'') sample_engine Update (lit ''Doc'') [1] None fresh) = Inr ()"
    by (simp add: gate_write_def decide_def sample_evals gate_evals)
  show "db_get sample_engine (lit ''Doc'') 1 = Some doc" by (simp add: sample_engine_def)
qed (simp_all add: reader_def)

text \<open>C33: A relation is read without the targets whose objects cannot be read, so a deny list fails open. Take any object
  whose read rule is \<^verbatim>\<open>!(request.auth.uid in resource.rel.f)\<close> and a principal who is named by exactly one of the linked
  targets, with the relation below the cap of 1024 and within the budget. The object is denied while that
  target can be read, and granted as soon as the engine fails to read it, everything else being the same. The
  comment in \<^verbatim>\<open>linked_ids\<close> says that a partial set is never used.\<close>

theorem partial_deny_list_grants:
  assumes rule: "prog (o_type_name ob) = Some ops" "ops Read = Some [deny_listed rel f]"
    and user: "uid (principal ctx) = Some u"
    and links: "relation_target db (row_resource ob) rel = Some target"
      "get_links_many db (o_type_name ob) [o_id ob] rel = Some [links]" "length links \<le> 1024"
      "fst (gov_charge ctx (of_nat (length links)) st) = Inr ()"
    and listed: "i \<in> fst ` set links" "target_scalar db target i f = Some (JString u)"
      "\<forall>j \<in> fst ` set links. j \<noteq> i \<longrightarrow> target_scalar db target j f \<noteq> Some (JString u)"
  shows "fst (row_decision ctx db prog ob st) = DenyAccess \<and>
    fst (row_decision ctx (cannot_read target i db) prog ob st) = Allow"
proof -
  let ?ids = "map fst links"
  let ?vals = "\<lambda>db. List.map_filter (\<lambda>j. target_scalar db target j f) ?ids"
  have cap: "\<not> MAX_RULE_RELATION_TARGETS < of_nat (length links)"
    using links(3) by (simp add: MAX_RULE_RELATION_TARGETS_def word_less_nat_alt unat_of_nat)
  have many: "fst (engine_relation_many ctx db' (row_resource ob) rel f st) = Some (?vals db')"
    if "relation_target db' (row_resource ob) rel = Some target"
      "get_links_many db' (o_type_name ob) [o_id ob] rel = Some [links]" for db'
    using that cap links(4)
    by (cases "gov_charge ctx (of_nat (length links)) st") (simp add: engine_relation_many_def linked_ids_def row_resource_def)
  have same: "relation_target (cannot_read target i db) (row_resource ob) rel = Some target"
    "get_links_many (cannot_read target i db) (o_type_name ob) [o_id ob] rel = Some [links]"
    using links(1,2) by (simp_all add: cannot_read_def relation_target_def)
  have "JString u \<in> set (?vals db)" using listed(1,2) by (force simp: set_map_filter)
  moreover have "JString u \<notin> set (?vals (cannot_read target i db))"
    using listed(3) by (auto simp: set_map_filter target_scalar_cannot_read)
  ultimately show ?thesis
    using deny_listed_decision [where prog = prog and ops = ops, OF rule user many [OF links(1,2)]]
      deny_listed_decision [where prog = prog and ops = ops, OF rule user many [OF same]] by simp
qed

theorem partial_deny_list_grants_witness:
  "fst (row_decision (reader ''ann'') sample_engine deny_list doc fresh) = DenyAccess \<and>
   fst (row_decision (reader ''ann'') (cannot_read (lit ''User'') 2 sample_engine) deny_list doc fresh) = Allow"
proof (rule partial_deny_list_grants [where u = "lit ''ann''" and target = "lit ''User''" and rel = "lit ''blocked''" and f = "lit ''uid''" and links = "[(2, []), (3, [])]"])
  show "deny_list (o_type_name doc) = Some [Read \<mapsto> [deny_listed (lit ''blocked'') (lit ''uid'')],
      Update \<mapsto> [ECmp (EOperand AuthUid) Eq (EOperand (ResourceScalar (lit ''owner'')))]]"
    by (simp add: deny_list_def doc_def)
  show "fst (gov_charge (reader ''ann'') (of_nat (length [(2 :: u64, [] :: bytes), (3, [])])) fresh) = Inr ()"
    by (simp add: sample_evals gate_evals)
qed (simp_all add: sample_evals gate_evals)

end
