(* ===== verification/Query_Exec.thy ===== *)
theory Query_Exec
  imports Rules_Gate
begin

text \<open>
  The pipeline of a query: \<^verbatim>\<open>execute\<close> of \<^verbatim>\<open>rhypedb-query/src/executor.rs\<close>, the loop over the steps with its checks of
  the clock and of the traversal depth, the read filter before each step, and the terminal materialisation, filter
  and row ceiling. The bodies of the source and of the steps are the record \<open>Stages\<close>; each takes the engine
  and the governor and returns those it leaves.

  Whatever the stages do, a query under rules returns only rows that its principal may read.
\<close>

section \<open>Pipelines\<close>

type_synonym ('v, 'n) exec_state = "('v, 'n) Engine \<times> gov_state"

type_synonym ('v, 'n) stage = "('v, 'n) exec_state \<Rightarrow> (QueryError + 'v QueryOutput) \<times> ('v, 'n) exec_state"

record ('v, 'n, 'j) Stages =
  run_similar :: "rtext \<Rightarrow> rtext \<Rightarrow> SimilarQuery \<Rightarrow> u64 \<Rightarrow> u64 option \<Rightarrow> u64 option \<Rightarrow> ('v, 'n) stage"
  run_matches :: "rtext \<Rightarrow> rtext \<Rightarrow> rtext \<Rightarrow> u64 \<Rightarrow> ('v, 'n) stage"
  execute_source :: "'j Source \<Rightarrow> 'j Step list \<Rightarrow> ('v, 'n) stage"
  execute_step :: "'v QueryOutput \<Rightarrow> 'j Step \<Rightarrow> 'j Source \<Rightarrow> ('v, 'n) stage"

definition ebind :: "(QueryError + 'a) \<times> 's \<Rightarrow> ('a \<Rightarrow> 's \<Rightarrow> (QueryError + 'b) \<times> 's) \<Rightarrow> (QueryError + 'b) \<times> 's" where
  "ebind m k = (case m of (Inl e, s) \<Rightarrow> (Inl e, s) | (Inr x, s) \<Rightarrow> k x s)"

text \<open>An operation on the governor alone.\<close>

definition on_gov :: "(gov_state \<Rightarrow> (QueryError + 'a) \<times> gov_state) \<Rightarrow> ('v, 'n) exec_state \<Rightarrow> (QueryError + 'a) \<times> ('v, 'n) exec_state" where
  "on_gov f s = apsnd (Pair (fst s)) (f (snd s))"

definition pure_check :: "QueryError + unit \<Rightarrow> 's \<Rightarrow> (QueryError + unit) \<times> 's" where
  "pure_check r s = (r, s)"

fun is_traverse :: "'j Step \<Rightarrow> bool" where
  "is_traverse (Traverse _) = True"
| "is_traverse _ = False"

text \<open>The steps whose output needs no second pass of the read rule.\<close>

fun keeps_filtered :: "'j Step \<Rightarrow> bool" where
  "keeps_filtered (Filter _) = True"
| "keeps_filtered (Limit _) = True"
| "keeps_filtered (Offset _) = True"
| "keeps_filtered (Matches _ _ _) = True"
| "keeps_filtered (Similar _ _ _ _ _) = True"
| "keeps_filtered _ = False"

fun point_source :: "'j Source \<Rightarrow> bool" where
  "point_source (SGet _ _) = True"
| "point_source (SCreate _ _) = True"
| "point_source (SCreateBatch _ _) = True"
| "point_source _ = False"

text \<open>The first stage, with the number of steps it takes in.\<close>

definition first_stage ::
    "'n ExecContext \<Rightarrow> ('v, 'n, 'j) Stages \<Rightarrow> 'j Query \<Rightarrow> ('v, 'n) exec_state \<Rightarrow>
     (QueryError + 'v QueryOutput \<times> nat) \<times> ('v, 'n) exec_state" where
  "first_stage ctx S q s =
     (let generic = ebind (execute_source S (source q) (steps q) s) (\<lambda>out s1. (Inr (out, 0), s1)) in
      case (source q, steps q) of
        (SAll tn, Similar f sq k ef rerank # _) \<Rightarrow>
          if rules ctx = None then ebind (run_similar S tn f sq k ef rerank s) (\<lambda>out s1. (Inr (out, 1), s1)) else generic
      | (SAll tn, Matches f text k # _) \<Rightarrow> ebind (run_matches S tn f text k s) (\<lambda>out s1. (Inr (out, 1), s1))
      | _ \<Rightarrow> generic)"

fun step_loop ::
    "'n ExecContext \<Rightarrow> ('v, 'n, 'j) Stages \<Rightarrow> 'j Source \<Rightarrow> nat \<Rightarrow> 'j Step list \<Rightarrow> u64 \<Rightarrow> bool \<Rightarrow> 'v QueryOutput \<Rightarrow> ('v, 'n) stage" where
  "step_loop ctx S src i [] depth unfiltered result s = (Inr result, s)"
| "step_loop ctx S src i (step # rest) depth unfiltered result s =
     ebind (on_gov (gov_deadline ctx) s) (\<lambda>_ s1.
     let depth' = (if is_traverse step then depth + 1 else depth) in
     ebind (if is_traverse step then pure_check (check_depth (fst (snd s1)) depth') s1 else (Inr (), s1)) (\<lambda>_ s2.
     let check = rules ctx \<noteq> None \<and> unfiltered \<and> \<not> (i = 0 \<and> point_source src \<and> is_write step);
         unfiltered' = (if check then False else unfiltered) in
     ebind (if check then on_gov (read_filter_stage ctx (fst s2) result) s2 else (Inr result, s2)) (\<lambda>result1 s3.
     ebind (execute_step S result1 step src s3) (\<lambda>result2 s4.
     step_loop ctx S src (Suc i) rest depth' (if keeps_filtered step then unfiltered' else True) result2 s4))))"

definition materialize_ids :: "('v, 'n) Engine \<Rightarrow> rtext \<Rightarrow> u64 list \<Rightarrow> 'v Object list" where
  "materialize_ids db tn ids = (case get_many_lazy db tn ids of Some l \<Rightarrow> l | None \<Rightarrow> [])"

definition materialize_checked :: "'n ExecContext \<Rightarrow> rtext \<Rightarrow> u64 list \<Rightarrow> ('v, 'n) stage" where
  "materialize_checked ctx tn ids s =
     ebind (pure_check (check_result_rows (fst (snd s)) (of_nat (length ids))) s) (\<lambda>_ s1.
     ebind (on_gov (gov_charge ctx (of_nat (length ids))) s1) (\<lambda>_ s2.
     (Inr (Objects (materialize_ids (fst s2) tn ids)), s2)))"

definition terminal_materialize :: "'n ExecContext \<Rightarrow> 'v QueryOutput \<Rightarrow> ('v, 'n) stage" where
  "terminal_materialize ctx result s = (case result of
      IdSet tn ids \<Rightarrow> materialize_checked ctx tn ids s
    | IdSetWithFields tn items \<Rightarrow> materialize_checked ctx tn (map fst items) s
    | other \<Rightarrow> (Inr other, s))"

text \<open>Only \<^verbatim>\<open>Objects\<close> and \<^verbatim>\<open>Scored\<close> are charged and counted.\<close>

fun is_rows :: "'v QueryOutput \<Rightarrow> bool" where
  "is_rows (Objects _) = True"
| "is_rows (Scored _) = True"
| "is_rows _ = False"

definition terminal_filter :: "'n ExecContext \<Rightarrow> 'v QueryOutput \<Rightarrow> ('v, 'n) stage" where
  "terminal_filter ctx result s =
     (if rules ctx = None then (Inr result, s)
      else ebind (if is_rows result then on_gov (gov_charge ctx (of_nat (output_rows result))) s else (Inr (), s)) (\<lambda>_ s1.
        ebind (on_gov (\<lambda>st. apfst Inr (apply_read_filter ctx (fst s1) result st)) s1) (\<lambda>result1 s2.
        ebind (on_gov (gov_exhausted ctx) s2) (\<lambda>_ s3. (Inr result1, s3)))))"

definition terminal_ceiling :: "'v QueryOutput \<Rightarrow> ('v, 'n) stage" where
  "terminal_ceiling result s =
     ebind (if is_rows result then pure_check (check_result_rows (fst (snd s)) (of_nat (output_rows result))) s else (Inr (), s))
       (\<lambda>_ s1. (Inr result, s1))"

definition execute :: "'n ExecContext \<Rightarrow> ('v, 'n, 'j) Stages \<Rightarrow> 'j Query \<Rightarrow> ('v, 'n) stage" where
  "execute ctx S q s =
     ebind (first_stage ctx S q s) (\<lambda>(result, first_step) s1.
     ebind (step_loop ctx S (source q) first_step (drop first_step (steps q)) 0 (first_step = 0) result s1) (\<lambda>result1 s2.
     ebind (terminal_materialize ctx result1 s2) (\<lambda>result2 s3.
     ebind (terminal_filter ctx result2 s3) (\<lambda>result3 s4.
     terminal_ceiling result3 s4))))"

section \<open>What a query returns\<close>

lemma ebind_inr:
  "fst (ebind m k) = Inr y \<longleftrightarrow> (\<exists>x. fst m = Inr x \<and> fst (k x (snd m)) = Inr y)"
  by (cases m) (auto simp: ebind_def split: sum.splits)

lemma ebind_step: "fst m = Inr x \<Longrightarrow> ebind m k = k x (snd m)"
  by (cases m) (simp add: ebind_def)

lemma on_gov_engine [simp]: "fst (snd (on_gov f s)) = fst s"
  by (cases "f (snd s)") (simp add: on_gov_def)

lemma fst_on_gov [simp]: "fst (on_gov f s) = fst (f (snd s))"
  by (simp add: on_gov_def)

lemma snd_on_gov [simp]: "snd (snd (on_gov f s)) = snd (f (snd s))"
  by (simp add: on_gov_def)

lemma terminal_materialize_shape:
  "fst (terminal_materialize ctx result s) = Inr result' \<Longrightarrow> \<not> streaming result'"
  by (cases result) (auto simp: terminal_materialize_def materialize_checked_def ebind_inr)

lemma terminal_filter_visible:
  assumes "mono (now ctx)" "rules ctx = Some prog" "\<not> streaming result" "fst (terminal_filter ctx result s) = Inr result'"
  shows "result' = visible_output ctx (fst s) prog result" "fst (snd (terminal_filter ctx result s)) = fst s"
proof -
  obtain s1 where s1: "fst s1 = fst s"
      "fst (ebind (on_gov (\<lambda>st. apfst Inr (apply_read_filter ctx (fst s1) result st)) s1) (\<lambda>result1 s2.
        ebind (on_gov (gov_exhausted ctx) s2) (\<lambda>_ s3. (Inr result1, s3)))) = Inr result'"
      "terminal_filter ctx result s = ebind (on_gov (\<lambda>st. apfst Inr (apply_read_filter ctx (fst s1) result st)) s1) (\<lambda>result1 s2.
        ebind (on_gov (gov_exhausted ctx) s2) (\<lambda>_ s3. (Inr result1, s3)))"
  proof (cases "is_rows result")
    case True
    then show ?thesis using assms(2,4)
      by (intro that [of "snd (on_gov (gov_charge ctx (of_nat (output_rows result))) s)"])
        (auto simp: terminal_filter_def ebind_inr ebind_step)
  next
    case False
    then show ?thesis using assms(2,4) by (intro that [of s]) (auto simp: terminal_filter_def ebind_inr ebind_step)
  qed
  let ?out = "apply_read_filter ctx (fst s) result (snd s1)"
  have out: "result' = fst ?out" "fst (gov_exhausted ctx (snd ?out)) = Inr ()"
    using s1(1,2) by (auto simp: ebind_inr)
  have "\<not> exhausted ctx (snd ?out)" using exhausted_reported [OF assms(1)] out(2) by blast
  then show "result' = visible_output ctx (fst s) prog result"
    using apply_read_filter_exact [OF assms(2,3), of "fst s" "snd s1"] out(1) by (auto simp: exact_def split: if_splits)
  show "fst (snd (terminal_filter ctx result s)) = fst s"
    unfolding s1(3) using s1(1) out(2) by (simp add: ebind_step)
qed

section \<open>Property\<close>

fun output_objects :: "'v QueryOutput \<Rightarrow> 'v Object list" where
  "output_objects (Objects obs) = obs"
| "output_objects (Single ob) = [ob]"
| "output_objects (Scored rows) = map fst rows"
| "output_objects _ = []"

lemma visible_readable: "list_all (readable ctx db prog) (output_objects (visible_output ctx db prog out))"
  by (cases out) (auto simp: visible_def list_all_iff)

text \<open>C13: Whatever the source and the steps of a query do, under rules the query returns only objects that its
  principal may read, judged on the complete data of the database the query leaves; and it returns objects,
  never a bare set of ids.\<close>

theorem execute_only_readable:
  assumes "mono (now ctx)" "rules ctx = Some prog" "fst (execute ctx S q s) = Inr out"
  shows "list_all (readable ctx (fst (snd (execute ctx S q s))) prog) (output_objects out) \<and> \<not> streaming out"
proof -
  obtain r0 i r1 result where
      "fst (first_stage ctx S q s) = Inr (r0, i)"
      "fst (step_loop ctx S (source q) i (drop i (steps q)) 0 (i = 0) r0 (snd (first_stage ctx S q s))) = Inr r1"
      and m: "fst (terminal_materialize ctx r1 (snd (step_loop ctx S (source q) i (drop i (steps q)) 0 (i = 0) r0 (snd (first_stage ctx S q s))))) = Inr result"
    using assms(3) by (auto simp: execute_def ebind_inr)
  then obtain s3 where r: "execute ctx S q s = ebind (terminal_filter ctx result s3) terminal_ceiling"
    by (simp add: execute_def ebind_step)
  have flat: "\<not> streaming result" using m by (rule terminal_materialize_shape)
  obtain out1 where o1: "fst (terminal_filter ctx result s3) = Inr out1" "fst (terminal_ceiling out1 (snd (terminal_filter ctx result s3))) = Inr out"
    using assms(3) r by (auto simp: ebind_inr)
  note vis = terminal_filter_visible [OF assms(1,2) flat o1(1)]
  have "out = out1" "fst (snd (execute ctx S q s)) = fst s3"
    using o1 vis(2) unfolding r by (auto simp: terminal_ceiling_def ebind_inr ebind_step pure_check_def split: if_splits)
  moreover have "\<not> streaming (visible_output ctx (fst s3) prog result)" using flat by (cases result) auto
  ultimately show ?thesis using vis(1) visible_readable by simp
qed

text \<open>The query \<^verbatim>\<open>Doc.get(1)\<close> on the sample database.\<close>

definition get_stages :: "(rtext, unit, unit) Stages" where
  "get_stages = \<lparr>run_similar = (\<lambda>_ _ _ _ _ _ s. (Inr Done, s)), run_matches = (\<lambda>_ _ _ _ s. (Inr Done, s)),
     execute_source = (\<lambda>src _ s. case src of
        SGet tn i \<Rightarrow> (case db_get (fst s) tn i of Some ob \<Rightarrow> (Inr (Objects [ob]), s) | None \<Rightarrow> (Inl (QEngine []), s))
      | _ \<Rightarrow> (Inr Done, s)),
     execute_step = (\<lambda>out _ _ s. (Inr out, s))\<rparr>"

definition get_doc :: "unit Query" where
  "get_doc = \<lparr>source = SGet (lit ''Doc'') 1, steps = []\<rparr>"

lemmas exec_evals = execute_def first_stage_def get_stages_def get_doc_def terminal_materialize_def terminal_filter_def terminal_ceiling_def
  ebind_def on_gov_def pure_check_def apply_read_filter_def filter_read_def gov_exhausted_def check_exhausted_def check_result_rows_def

theorem execute_only_readable_witness:
  "list_all (readable (reader ''bob'') (fst (snd (execute (reader ''bob'') get_stages get_doc (sample_engine, fresh)))) deny_list)
     (output_objects (Objects [doc])) \<and> \<not> streaming (Objects [doc])"
proof (rule execute_only_readable)
  show "fst (execute (reader ''bob'') get_stages get_doc (sample_engine, fresh)) = Inr (Objects [doc])"
    by (simp add: exec_evals sample_evals gate_evals)
qed (simp_all add: reader_def mono_def)

end
