(* ===== verification/Engine_Kv.thy ===== *)
theory Engine_Kv
  imports Keyspace Wire_Object Text
begin

text \<open>
  The store as the engine's operations see it. Every operation of \<^verbatim>\<open>rhypedb-engine/src/database.rs\<close> opens
  a transaction, reads at its snapshot, buffers its writes, which its own reads do not see, and commits
  them at once. The committed state is a sorted association list from keys to values; that a snapshot is
  such a state, across flushes, compactions and crashes, is the subject of \<open>Store_System\<close>. Reads do not
  fail here. Point reads of keys that no stored key can continue (the keys of one kind of row have one length) and prefix scans
  are lookups in it; the read of a unique entry, whose key can be continued by another, is a field of the catalog.
\<close>

section \<open>Committed states\<close>

type_synonym kv = "(bytes \<times> bytes) list"

definition kv_ok :: "kv \<Rightarrow> bool" where
  "kv_ok m \<longleftrightarrow> sorted_wrt (\<lambda>a b. fst a < fst b) m"

definition kv_put :: "bytes \<Rightarrow> bytes \<Rightarrow> kv \<Rightarrow> kv" where
  "kv_put k v m = takeWhile (\<lambda>e. fst e < k) m @ (k, v) # dropWhile (\<lambda>e. fst e \<le> k) m"

definition kv_del :: "bytes \<Rightarrow> kv \<Rightarrow> kv" where
  "kv_del k m = filter (\<lambda>e. fst e \<noteq> k) m"

text \<open>\<^verbatim>\<open>get_at\<close> and \<^verbatim>\<open>scan_prefix_at\<close> at a snapshot.\<close>

abbreviation kv_get :: "kv \<Rightarrow> bytes \<Rightarrow> bytes option" where
  "kv_get m k \<equiv> map_of m k"

definition kv_scan :: "kv \<Rightarrow> bytes \<Rightarrow> (bytes \<times> bytes) list" where
  "kv_scan m p = filter (\<lambda>e. prefix p (fst e)) m"

text \<open>A buffered write is a value or a tombstone; the last write of a key wins.\<close>

type_synonym writes = "(bytes \<times> bytes option) list"

definition kv_write :: "kv \<Rightarrow> bytes \<times> bytes option \<Rightarrow> kv" where
  "kv_write m w = (case snd w of Some v \<Rightarrow> kv_put (fst w) v m | None \<Rightarrow> kv_del (fst w) m)"

definition kv_apply :: "writes \<Rightarrow> kv \<Rightarrow> kv" where
  "kv_apply ws m = foldl kv_write m ws"

definition puts :: "(bytes \<times> bytes) list \<Rightarrow> writes" where
  "puts l = map (\<lambda>(k, v). (k, Some v)) l"

definition tombstones :: "bytes list \<Rightarrow> writes" where
  "tombstones ks = map (\<lambda>k. (k, None)) ks"

lemma batch_Nil [simp]: "puts l = [] \<longleftrightarrow> l = []" "tombstones ks = [] \<longleftrightarrow> ks = []"
  by (simp_all add: puts_def tombstones_def)

section \<open>Laws\<close>

lemma kv_ok_Cons: "kv_ok (e # m) \<longleftrightarrow> (\<forall>e' \<in> set m. fst e < fst e') \<and> kv_ok m"
  by (simp add: kv_ok_def)

lemma kv_ok_Nil [simp]: "kv_ok []"
  by (simp add: kv_ok_def)

lemma kv_put_Nil [simp]: "kv_put k v [] = [(k, v)]"
  by (simp add: kv_put_def)

lemma kv_put_Cons:
  "kv_put k v (e # m) = (if fst e < k then e # kv_put k v m else if fst e = k then (k, v) # dropWhile (\<lambda>e. fst e \<le> k) m else (k, v) # e # m)"
  by (auto simp: kv_put_def not_less)

lemma dropWhile_above: "\<forall>e' \<in> set m. k < fst e' \<Longrightarrow> dropWhile (\<lambda>e. fst e \<le> k) m = m" for k :: bytes
  by (cases m) auto

lemma set_kv_put: "kv_ok m \<Longrightarrow> set (kv_put k v m) = insert (k, v) {e \<in> set m. fst e \<noteq> k}"
proof (induction m)
  case (Cons e m)
  then have above: "\<forall>e' \<in> set m. fst e < fst e'" and ok: "kv_ok m" by (simp_all add: kv_ok_Cons)
  consider "fst e < k" | "fst e = k" | "k < fst e" by fastforce
  then show ?case
  proof cases
    case 1
    then show ?thesis using Cons.IH [OF ok] by (auto simp: kv_put_Cons)
  next
    case 2
    then show ?thesis using above by (auto simp: kv_put_Cons dropWhile_above)
  next
    case 3
    then show ?thesis using above by (auto simp: kv_put_Cons)
  qed
qed simp

lemma kv_ok_put [simp]: "kv_ok m \<Longrightarrow> kv_ok (kv_put k v m)"
proof (induction m)
  case (Cons e m)
  then have above: "\<forall>e' \<in> set m. fst e < fst e'" and ok: "kv_ok m" by (simp_all add: kv_ok_Cons)
  consider "fst e < k" | "fst e = k" | "k < fst e" by fastforce
  then show ?case
  proof cases
    case 1
    then show ?thesis using Cons.IH [OF ok] above set_kv_put [OF ok] by (auto simp: kv_put_Cons kv_ok_Cons)
  next
    case 2
    then show ?thesis using above ok by (simp add: kv_put_Cons kv_ok_Cons dropWhile_above)
  next
    case 3
    then show ?thesis using above ok by (auto simp: kv_put_Cons kv_ok_Cons)
  qed
qed (simp add: kv_ok_def)

lemma kv_ok_del [simp]: "kv_ok m \<Longrightarrow> kv_ok (kv_del k m)"
  by (simp add: kv_ok_def kv_del_def sorted_wrt_filter)

lemma kv_ok_distinct: "kv_ok m \<Longrightarrow> distinct (map fst m)"
  by (induction m) (auto simp: kv_ok_Cons)

lemma kv_get_iff: "kv_ok m \<Longrightarrow> kv_get m k = Some v \<longleftrightarrow> (k, v) \<in> set m"
  using kv_ok_distinct by (simp add: map_of_eq_Some_iff)

lemma kv_get_put [simp]: "kv_ok m \<Longrightarrow> kv_get (kv_put k v m) k' = (if k' = k then Some v else kv_get m k')"
proof (cases "k' = k")
  case False
  assume ok: "kv_ok m"
  have "kv_get (kv_put k v m) k' = Some w \<longleftrightarrow> kv_get m k' = Some w" for w
    using ok False by (simp add: kv_get_iff set_kv_put)
  then show ?thesis using False by (metis not_Some_eq)
qed (simp add: kv_get_iff set_kv_put)

lemma kv_get_del [simp]: "kv_get (kv_del k m) k' = (if k' = k then None else kv_get m k')"
  by (induction m) (auto simp: kv_del_def)

lemma kv_write_ok [simp]: "kv_ok m \<Longrightarrow> kv_ok (kv_write m w)"
  by (simp add: kv_write_def split: option.split)

lemma kv_apply_ok [simp]: "kv_ok m \<Longrightarrow> kv_ok (kv_apply ws m)"
  unfolding kv_apply_def by (induction ws arbitrary: m) simp_all

lemma kv_apply_Nil [simp]: "kv_apply [] m = m"
  by (simp add: kv_apply_def)

lemma kv_apply_Cons: "kv_apply (w # ws) m = kv_apply ws (kv_write m w)"
  by (simp add: kv_apply_def)

lemma kv_apply_append: "kv_apply (ws @ vs) m = kv_apply vs (kv_apply ws m)"
  by (simp add: kv_apply_def)

text \<open>The effect of a batch on one key is its last write to it.\<close>

lemma kv_get_apply: "kv_ok m \<Longrightarrow> kv_get (kv_apply ws m) k = (case map_of (rev ws) k of Some w \<Rightarrow> w | None \<Rightarrow> kv_get m k)"
proof (induction ws arbitrary: m)
  case (Cons w ws)
  then show ?case
    by (cases w) (auto simp: kv_apply_Cons kv_write_def map_add_def split: option.splits)
qed (simp add: kv_apply_def)

lemma kv_get_apply_other: "kv_ok m \<Longrightarrow> k \<notin> fst ` set ws \<Longrightarrow> kv_get (kv_apply ws m) k = kv_get m k"
  by (simp add: kv_get_apply map_of_eq_None_iff [THEN iffD2])

lemma kv_get_tombstones:
  assumes "kv_ok m"
  shows "kv_get (kv_apply (tombstones ks) m) k = (if k \<in> set ks then None else kv_get m k)"
proof -
  have "map_of (rev (tombstones ks)) k = (if k \<in> set ks then Some None else None)"
    by (induction ks) (auto simp: tombstones_def map_add_def split: option.splits if_splits)
  then show ?thesis using assms by (simp add: kv_get_apply)
qed

lemma kv_scan_iff: "kv_ok m \<Longrightarrow> (k, v) \<in> set (kv_scan m p) \<longleftrightarrow> prefix p k \<and> kv_get m k = Some v"
  by (auto simp: kv_scan_def kv_get_iff)

end
