(* ===== verification/Fulltext_Posting.thy ===== *)
theory Fulltext_Posting
  imports Engine_Kv
begin

text \<open>
  The rows of a full-text index, \<^verbatim>\<open>rhypedb-engine/src/fulltext/posting.rs\<close> and \<^verbatim>\<open>mod.rs\<close>: the payload of a
  posting, one per term of a field of an object, the row with the length of the field, and the corpus statistics. A term is its
  UTF-8 bytes; the analyzer is a component of the field, the function from a text to its tokens.

  A posting is read back as written, whatever decodes is a well-formed posting, and the two decoders agree.
\<close>

section \<open>Varints\<close>

datatype PostingError = Truncated | Overflow | Inconsistent | TrailingBytes

function put_varint :: "u32 \<Rightarrow> bytes" where
  "put_varint v = (if 128 \<le> v then (ucast v OR 128) # put_varint (drop_bit 7 v) else [ucast v])"
  by pat_completeness auto
termination
proof (relation "measure unat")
  fix v :: u32
  assume "128 \<le> v"
  then have "unat v \<noteq> 0" by (auto simp: unat_eq_0)
  then show "(drop_bit 7 v, v) \<in> measure unat" by (simp add: drop_bit_eq_div unat_div)
qed simp

declare put_varint.simps [simp del]

fun get_varint_loop :: "nat \<Rightarrow> nat \<Rightarrow> u32 \<Rightarrow> bytes \<Rightarrow> PostingError + u32 \<times> bytes" where
  "get_varint_loop 0 i result cur = Inl Overflow"
| "get_varint_loop (Suc n) i result [] = Inl Truncated"
| "get_varint_loop (Suc n) i result (b # cur) =
     (let payload = ucast (b AND 127) in
      if i = 4 \<and> 15 < payload then Inl Overflow
      else let result' = result OR push_bit (7 * i) payload in
        if b AND 128 = 0 then Inr (result', cur) else get_varint_loop n (Suc i) result' cur)"

definition get_varint :: "bytes \<Rightarrow> PostingError + u32 \<times> bytes" where
  "get_varint cur = get_varint_loop 5 0 0 cur"

section \<open>Postings\<close>

record Posting =
  p_doc_len :: u32
  p_tf :: u32
  p_positions :: "u32 list"

fun put_deltas :: "u32 option \<Rightarrow> u32 list \<Rightarrow> bytes" where
  "put_deltas prev [] = []"
| "put_deltas prev (p # ps) = put_varint (case prev of None \<Rightarrow> p | Some q \<Rightarrow> p - q) @ put_deltas (Some p) ps"

definition encode_posting :: "u32 \<Rightarrow> u32 list \<Rightarrow> bool \<Rightarrow> bytes" where
  "encode_posting doc_len positions store_positions =
     put_varint doc_len @ put_varint (of_nat (length positions)) @ (if store_positions then put_deltas None positions else [])"

fun get_deltas :: "nat \<Rightarrow> u32 option \<Rightarrow> bytes \<Rightarrow> PostingError + u32 list \<times> bytes" where
  "get_deltas 0 prev cur = Inr ([], cur)"
| "get_deltas (Suc n) prev cur =
     rbind (get_varint cur) (\<lambda>(delta, cur).
     rbind (case prev of
         None \<Rightarrow> Inr delta
       | Some q \<Rightarrow>
           if delta = 0 then Inl Inconsistent
           else if unat q + unat delta < 2 ^ 32 then Inr (q + delta) else Inl Overflow) (\<lambda>p.
     rbind (get_deltas n (Some p) cur) (\<lambda>(ps, cur). Inr (p # ps, cur))))"

definition decode_posting :: "bytes \<Rightarrow> PostingError + Posting" where
  "decode_posting bs =
     rbind (get_varint bs) (\<lambda>(doc_len, cur).
     rbind (get_varint cur) (\<lambda>(tf, cur).
     if tf = 0 then Inl Inconsistent
     else if cur = [] then Inr \<lparr>p_doc_len = doc_len, p_tf = tf, p_positions = []\<rparr>
     else rbind (get_deltas (unat tf) None cur) (\<lambda>(positions, cur).
       if cur \<noteq> [] then Inl TrailingBytes
       else Inr \<lparr>p_doc_len = doc_len, p_tf = tf, p_positions = positions\<rparr>)))"

definition decode_posting_header :: "bytes \<Rightarrow> PostingError + u32 \<times> u32" where
  "decode_posting_header bs =
     rbind (get_varint bs) (\<lambda>(doc_len, cur).
     rbind (get_varint cur) (\<lambda>(tf, _). if tf = 0 then Inl Inconsistent else Inr (doc_len, tf)))"

definition encode_doc_len :: "u32 \<Rightarrow> bytes" where
  "encode_doc_len doc_len = put_varint doc_len"

definition decode_doc_len :: "bytes \<Rightarrow> PostingError + u32" where
  "decode_doc_len bs = rbind (get_varint bs) (\<lambda>(v, cur). if cur \<noteq> [] then Inl TrailingBytes else Inr v)"

section \<open>Documents\<close>

record Token =
  tok_term :: bytes
  tok_position :: u32

text \<open>\<^verbatim>\<open>term_map\<close>: a \<^verbatim>\<open>BTreeMap\<close>, in the order of its keys.\<close>

fun entry_push :: "bytes \<Rightarrow> u32 \<Rightarrow> (bytes \<times> u32 list) list \<Rightarrow> (bytes \<times> u32 list) list" where
  "entry_push t p [] = [(t, [p])]"
| "entry_push t p ((k, ps) # m) =
     (if t < k then (t, [p]) # (k, ps) # m
      else if t = k then (k, ps @ [p]) # m
      else (k, ps) # entry_push t p m)"

definition term_map :: "Token list \<Rightarrow> (bytes \<times> u32 list) list" where
  "term_map tokens = foldl (\<lambda>m t. entry_push (tok_term t) (tok_position t) m) [] tokens"

record FulltextField =
  ff_name :: rtext
  ff_field_id :: u64
  ff_generation :: u32
  ff_analyze :: "bytes \<Rightarrow> Token list"
  ff_positions :: bool

record IndexedDoc =
  d_doc_len :: u32
  d_terms :: "(bytes \<times> u32 list) list"

definition tokenize_for_index :: "FulltextField \<Rightarrow> bytes \<Rightarrow> IndexedDoc" where
  "tokenize_for_index ff txt = (let tokens = ff_analyze ff txt in
     \<lparr>d_doc_len = of_nat (length tokens), d_terms = term_map tokens\<rparr>)"

definition posting_key :: "u64 \<Rightarrow> FulltextField \<Rightarrow> u64 \<Rightarrow> bytes \<Rightarrow> bytes" where
  "posting_key ti ff i t = kb_fulltext_posting ti (ff_field_id ff) (ff_generation ff) (encode_term t) i"

definition doc_key :: "u64 \<Rightarrow> FulltextField \<Rightarrow> u64 \<Rightarrow> bytes" where
  "doc_key ti ff i = kb_fulltext_doc ti (ff_field_id ff) (ff_generation ff) i"

definition stage_doc_puts :: "u64 \<Rightarrow> FulltextField \<Rightarrow> u64 \<Rightarrow> IndexedDoc \<Rightarrow> (bytes \<times> bytes) list" where
  "stage_doc_puts ti ff i doc =
     map (\<lambda>(t, ps). (posting_key ti ff i t, encode_posting (d_doc_len doc) ps (ff_positions ff))) (d_terms doc) @
     [(doc_key ti ff i, encode_doc_len (d_doc_len doc))]"

section \<open>Corpus statistics\<close>

record CorpusStats =
  doc_count :: u64
  total_tokens :: u64

text \<open>\<^verbatim>\<open>FulltextStats::apply\<close>, which computes in \<^verbatim>\<open>i128\<close> and clamps at zero.\<close>

definition stat_add :: "u64 \<Rightarrow> int \<Rightarrow> u64" where
  "stat_add counter delta = (if delta = 0 then counter else word_of_int (max 0 (uint counter + delta)))"

definition stats_apply :: "CorpusStats \<Rightarrow> int \<Rightarrow> int \<Rightarrow> CorpusStats" where
  "stats_apply s docs tokens = \<lparr>doc_count = stat_add (doc_count s) docs, total_tokens = stat_add (total_tokens s) tokens\<rparr>"

type_synonym StatsDelta = "u64 \<times> u64 \<rightharpoonup> int \<times> int"

definition delta_add :: "u64 \<Rightarrow> u64 \<Rightarrow> int \<Rightarrow> int \<Rightarrow> StatsDelta \<Rightarrow> StatsDelta" where
  "delta_add ti fi docs tokens \<delta> =
     (if docs = 0 \<and> tokens = 0 then \<delta>
      else let e = (case \<delta> (ti, fi) of Some e \<Rightarrow> e | None \<Rightarrow> (0, 0)) in
        \<delta>((ti, fi) \<mapsto> (fst e + docs, snd e + tokens)))"

definition apply_fulltext_delta :: "StatsDelta \<Rightarrow> (u64 \<times> u64 \<rightharpoonup> CorpusStats) \<Rightarrow> (u64 \<times> u64 \<rightharpoonup> CorpusStats)" where
  "apply_fulltext_delta \<delta> stats = (\<lambda>k. case stats k of
      None \<Rightarrow> None
    | Some s \<Rightarrow> (case \<delta> k of None \<Rightarrow> Some s | Some (docs, tokens) \<Rightarrow> Some (stats_apply s docs tokens)))"

section \<open>Updating a document\<close>

text \<open>
  \<^verbatim>\<open>stage_fulltext_update\<close> of \<^verbatim>\<open>rhypedb-engine/src/database.rs\<close>: the writes that turn the rows of the old value into
  those of the new one, and the change of the statistics. \<open>m\<close> is the snapshot.
\<close>

definition doc_terms :: "IndexedDoc option \<Rightarrow> (bytes \<times> u32 list) list" where
  "doc_terms doc = (case doc of Some dc \<Rightarrow> d_terms dc | None \<Rightarrow> [])"

definition indexed_doc :: "kv \<Rightarrow> u64 \<Rightarrow> FulltextField \<Rightarrow> u64 \<Rightarrow> bytes option \<Rightarrow> IndexedDoc option" where
  "indexed_doc m ti ff i txt = (if kv_get m (doc_key ti ff i) \<noteq> None then map_option (tokenize_for_index ff) txt else None)"

definition dropped_postings :: "u64 \<Rightarrow> FulltextField \<Rightarrow> u64 \<Rightarrow> IndexedDoc option \<Rightarrow> IndexedDoc option \<Rightarrow> bytes list" where
  "dropped_postings ti ff i old_doc new_doc =
     map (posting_key ti ff i) (filter (\<lambda>t. t \<notin> fst ` set (doc_terms new_doc)) (map fst (doc_terms old_doc)))"

definition changed_postings :: "u64 \<Rightarrow> FulltextField \<Rightarrow> u64 \<Rightarrow> IndexedDoc option \<Rightarrow> IndexedDoc option \<Rightarrow> (bytes \<times> bytes) list" where
  "changed_postings ti ff i old_doc new_doc = (case new_doc of
      None \<Rightarrow> []
    | Some nd \<Rightarrow>
        map (\<lambda>(t, ps). (posting_key ti ff i t, encode_posting (d_doc_len nd) ps (ff_positions ff)))
          (filter (\<lambda>(t, ps). \<not> (map_of (doc_terms old_doc) t = Some ps \<and> map_option d_doc_len old_doc = Some (d_doc_len nd))) (d_terms nd)))"

definition doc_row_write :: "u64 \<Rightarrow> FulltextField \<Rightarrow> u64 \<Rightarrow> bool \<Rightarrow> u32 option \<Rightarrow> u32 option \<Rightarrow> writes" where
  "doc_row_write ti ff i old_had_string old_len new_len = (case new_len of
      Some len \<Rightarrow> if old_len \<noteq> new_len then [(doc_key ti ff i, Some (encode_doc_len len))] else []
    | None \<Rightarrow> if old_had_string then [(doc_key ti ff i, None)] else [])"

definition len_of :: "IndexedDoc option \<Rightarrow> int" where
  "len_of doc = (case doc of Some dc \<Rightarrow> uint (d_doc_len dc) | None \<Rightarrow> 0)"

definition stage_fulltext_update ::
    "kv \<Rightarrow> u64 \<Rightarrow> FulltextField \<Rightarrow> u64 \<Rightarrow> bytes option \<Rightarrow> bytes option \<Rightarrow> StatsDelta \<Rightarrow> writes \<times> StatsDelta" where
  "stage_fulltext_update m ti ff i old_text new_text \<delta> =
     (let old_doc = indexed_doc m ti ff i old_text; new_doc = map_option (tokenize_for_index ff) new_text in
      (tombstones (dropped_postings ti ff i old_doc new_doc) @ puts (changed_postings ti ff i old_doc new_doc) @
         doc_row_write ti ff i (old_text \<noteq> None) (map_option d_doc_len old_doc) (map_option d_doc_len new_doc),
       delta_add ti (ff_field_id ff) (of_bool (new_doc \<noteq> None) - of_bool (old_doc \<noteq> None)) (len_of new_doc - len_of old_doc) \<delta>))"

section \<open>Varints are read back\<close>

lemma bit_128: "bit (128 :: byte) n \<longleftrightarrow> n = 7"
proof -
  have "(128 :: byte) = 2 ^ 7" by simp
  then show ?thesis by (simp only: bit_exp_iff) auto
qed

lemma and_127: "b AND 127 = take_bit 7 b" for b :: byte
proof -
  have "(127 :: byte) = mask 7" by (simp add: mask_eq_exp_minus_1)
  then show ?thesis by (simp only: take_bit_eq_mask)
qed

lemma small_u32_bits: "v < 128 \<Longrightarrow> bit v n \<Longrightarrow> n < 7" for v :: u32
proof (rule ccontr)
  assume v: "v < 128" "bit v n" and "\<not> n < 7"
  have "unat (take_bit 7 v) = unat v"
    using v(1) by (simp add: unsigned_take_bit_eq take_bit_nat_eq_self_iff word_less_nat_alt)
  then have "take_bit 7 v = v" by (simp only: word_unat_eq_iff)
  then have "bit (take_bit 7 v) n" using v(2) by simp
  then show False using \<open>\<not> n < 7\<close> by (simp add: bit_take_bit_iff)
qed

lemma varint_byte:
  fixes v :: u32
  shows "(ucast v OR 128 :: byte) AND 128 \<noteq> 0" "ucast ((ucast v OR 128 :: byte) AND 127) = take_bit 7 v"
    "v < 128 \<Longrightarrow> (ucast v :: byte) AND 128 = 0" "v < 128 \<Longrightarrow> ucast ((ucast v :: byte) AND 127) = v"
proof -
  have "(ucast v OR 128 :: byte) AND 128 = 128"
    by (rule bit_word_eqI) (auto simp: bit_simps bit_128)
  then show "(ucast v OR 128 :: byte) AND 128 \<noteq> 0" by simp
  show "ucast ((ucast v OR 128 :: byte) AND 127) = take_bit 7 v"
    by (rule bit_word_eqI) (auto simp: and_127 bit_simps bit_128)
  show "(ucast v :: byte) AND 128 = 0" if "v < 128"
  proof (rule bit_word_eqI)
    show "bit ((ucast v :: byte) AND 128) n = bit (0 :: byte) n" for n
      using small_u32_bits [OF that, of 7] by (auto simp only: bit_and_iff bit_128 bit_unsigned_iff bit_0_eq)
  qed
  show "ucast ((ucast v :: byte) AND 127) = v" if "v < 128"
    by (rule bit_word_eqI) (auto simp: and_127 bit_simps dest: small_u32_bits [OF that] intro: less_trans)
qed

lemma split_varint: "(r OR push_bit (7 * i) (take_bit 7 v)) OR push_bit (7 * Suc i) (drop_bit 7 v) = r OR push_bit (7 * i) v" for v :: u32
proof (rule bit_word_eqI)
  fix n
  have "7 * Suc i \<le> n \<Longrightarrow> 7 + (n - 7 * Suc i) = n - 7 * i" "7 * i \<le> n \<Longrightarrow> \<not> 7 * Suc i \<le> n \<longleftrightarrow> n - 7 * i < 7" by auto
  then show "n < LENGTH(32) \<Longrightarrow>
      bit ((r OR push_bit (7 * i) (take_bit 7 v)) OR push_bit (7 * Suc i) (drop_bit 7 v)) n = bit (r OR push_bit (7 * i) v) n"
    by (auto simp: bit_simps simp del: mult_Suc_right)
qed

lemma get_varint_step:
  "b AND 128 \<noteq> 0 \<Longrightarrow> i \<noteq> 4 \<Longrightarrow>
     get_varint_loop (Suc n) i r (b # cur) = get_varint_loop n (Suc i) (r OR push_bit (7 * i) (ucast (b AND 127))) cur"
  "b AND 128 = 0 \<Longrightarrow> \<not> (i = 4 \<and> 15 < (ucast (b AND 127) :: u32)) \<Longrightarrow>
     get_varint_loop (Suc n) i r (b # cur) = Inr (r OR push_bit (7 * i) (ucast (b AND 127)), cur)"
  by (simp_all only: get_varint_loop.simps Let_def if_False if_True simp_thms)

lemma get_put_loop:
  "unat v < 2 ^ (32 - 7 * i) \<Longrightarrow> n + i = 5 \<Longrightarrow> i \<le> 4 \<Longrightarrow>
   get_varint_loop n i r (put_varint v @ rest) = Inr (r OR push_bit (7 * i) v, rest)"
proof (induction n arbitrary: i r v)
  case (Suc n)
  show ?case
  proof (cases "128 \<le> v")
    case True
    then have big: "128 \<le> unat v" by (simp add: word_le_nat_alt)
    have i: "i \<noteq> 4"
    proof
      assume "i = 4"
      then have "unat v < 16" using Suc.prems(1) by simp
      then show False using big by simp
    qed
    have "unat (drop_bit 7 v) = unat v div 2 ^ 7" by (simp add: drop_bit_eq_div unat_div)
    also have "\<dots> < 2 ^ (32 - 7 * Suc i)"
    proof (rule less_mult_imp_div_less)
      have "32 - 7 * i = (32 - 7 * Suc i) + 7" using i Suc.prems(3) by simp
      then have "(2 :: nat) ^ (32 - 7 * i) = 2 ^ (32 - 7 * Suc i) * 2 ^ 7" by (simp only: power_add)
      then show "unat v < 2 ^ (32 - 7 * Suc i) * 2 ^ 7" using Suc.prems(1) by (simp only:)
    qed
    finally have ih: "get_varint_loop n (Suc i) r' (put_varint (drop_bit 7 v) @ rest) = Inr (r' OR push_bit (7 * Suc i) (drop_bit 7 v), rest)" for r'
      using Suc.IH i Suc.prems by simp
    have "put_varint v = (ucast v OR 128) # put_varint (drop_bit 7 v)" using True by (subst put_varint.simps) simp
    then have "get_varint_loop (Suc n) i r (put_varint v @ rest) =
        get_varint_loop n (Suc i) (r OR push_bit (7 * i) (take_bit 7 v)) (put_varint (drop_bit 7 v) @ rest)"
      by (simp only: append_Cons get_varint_step(1) [OF varint_byte(1) i] varint_byte(2))
    then show ?thesis by (simp only: ih split_varint)
  next
    case False
    then have v: "v < 128" by simp
    moreover have "\<not> (i = 4 \<and> 15 < v)"
    proof
      assume i: "i = 4 \<and> 15 < v"
      then have "unat v < 16" using Suc.prems(1) by simp
      then show False using i by (simp add: word_less_nat_alt)
    qed
    moreover have "put_varint v = [ucast v]" using False by (subst put_varint.simps) simp
    ultimately show ?thesis using get_varint_step(2) [of "ucast v" i n r rest] varint_byte(3,4) [OF v] by simp
  qed
qed simp

lemma get_put_varint [simp]: "get_varint (put_varint v @ rest) = Inr (v, rest)"
proof -
  have "unat v < 2 ^ 32" using unsigned_less [of v] by simp
  then show ?thesis using get_put_loop [of v 0 5 0 rest] by (simp add: get_varint_def)
qed

section \<open>Postings are read back\<close>

lemma get_put_deltas:
  "sorted_wrt (<) (case prev of Some q \<Rightarrow> q # ps | None \<Rightarrow> ps) \<Longrightarrow>
   get_deltas (length ps) prev (put_deltas prev ps @ rest) = Inr (ps, rest)"
proof (induction ps arbitrary: prev)
  case (Cons p ps)
  then have ih: "get_deltas (length ps) (Some p) (put_deltas (Some p) ps @ rest) = Inr (ps, rest)"
    by (auto split: option.splits)
  show ?case
  proof (cases prev)
    case None
    then show ?thesis using ih by simp
  next
    case (Some q)
    then have less: "q < p" using Cons.prems by simp
    then have "p - q \<noteq> 0" "unat q + unat (p - q) = unat p"
      by (auto simp: unat_sub word_le_nat_alt word_less_nat_alt)
    moreover have "unat p < 2 ^ 32" using unsigned_less [of p] by simp
    ultimately show ?thesis using ih Some by simp
  qed
qed simp

lemma put_varint_not_Nil [simp]: "put_varint v \<noteq> []"
  by (subst put_varint.simps) simp

lemma get_deltas_sound:
  "get_deltas n prev cur = Inr (ps, cur') \<Longrightarrow> length ps = n \<and> sorted_wrt (<) (case prev of Some q \<Rightarrow> q # ps | None \<Rightarrow> ps)"
proof (induction n arbitrary: prev cur ps)
  case (Suc n)
  then obtain delta c1 p qs where d: "get_varint cur = Inr (delta, c1)" and ps: "ps = p # qs"
    and p: "(case prev of None \<Rightarrow> Inr delta | Some q \<Rightarrow> if delta = 0 then Inl Inconsistent
        else if unat q + unat delta < 2 ^ 32 then Inr (q + delta) else Inl Overflow) = Inr p"
    and rest: "get_deltas n (Some p) c1 = Inr (qs, cur')"
    by (auto simp: rbind_inr)
  note ih = Suc.IH [OF rest]
  show ?case
  proof (cases prev)
    case None
    then show ?thesis using ih ps by simp
  next
    case (Some q)
    then have "delta \<noteq> 0" "unat q + unat delta < 2 ^ 32" "p = q + delta" using p by (auto split: if_splits)
    then have "q < p"
      by (simp add: word_less_nat_alt unat_word_ariths unat_gt_0)
    then show ?thesis using ih ps Some by auto
  qed
qed (simp split: option.split)

lemma decode_posting_sound:
  assumes "decode_posting bs = Inr p"
  shows "p_tf p \<noteq> 0 \<and> (p_positions p = [] \<or> length (p_positions p) = unat (p_tf p)) \<and> sorted_wrt (<) (p_positions p) \<and>
    decode_posting_header bs = Inr (p_doc_len p, p_tf p)"
proof -
  obtain dl c1 tf c2 where h: "get_varint bs = Inr (dl, c1)" "get_varint c1 = Inr (tf, c2)" "tf \<noteq> 0"
    and b: "(if c2 = [] then Inr \<lparr>p_doc_len = dl, p_tf = tf, p_positions = []\<rparr>
      else rbind (get_deltas (unat tf) None c2) (\<lambda>(positions, cur).
        if cur \<noteq> [] then Inl TrailingBytes else Inr \<lparr>p_doc_len = dl, p_tf = tf, p_positions = positions\<rparr>)) = Inr p"
    using assms unfolding decode_posting_def by (auto simp: rbind_inr split: if_split_asm)
  have header: "decode_posting_header bs = Inr (dl, tf)" using h by (simp add: decode_posting_header_def)
  show ?thesis
  proof (cases "c2 = []")
    case True
    then show ?thesis using b h header by auto
  next
    case False
    then obtain ps where "get_deltas (unat tf) None c2 = Inr (ps, [])" and p: "p = \<lparr>p_doc_len = dl, p_tf = tf, p_positions = ps\<rparr>"
      using b by (auto simp: rbind_inr split: if_split_asm)
    then have "length ps = unat tf \<and> sorted_wrt (<) ps" using get_deltas_sound by fastforce
    then show ?thesis using p h header by simp
  qed
qed

lemma decode_encode_posting:
  assumes "positions \<noteq> []" "sorted_wrt (<) positions" "length positions < 2 ^ 32"
  shows "decode_posting (encode_posting doc_len positions store_positions) =
    Inr \<lparr>p_doc_len = doc_len, p_tf = of_nat (length positions), p_positions = (if store_positions then positions else [])\<rparr>"
proof -
  have tf: "unat (of_nat (length positions) :: u32) = length positions" using assms(3) by (simp add: unat_of_nat)
  then have nz: "(of_nat (length positions) :: u32) \<noteq> 0" using assms(1) by (metis length_0_conv unat_0)
  have "put_deltas None positions \<noteq> []" using assms(1) by (cases positions) simp_all
  moreover have "get_deltas (length positions) None (put_deltas None positions) = Inr (positions, [])"
    using get_put_deltas [where prev = None and ps = positions and rest = "[]"] assms(2) by simp
  ultimately show ?thesis using nz tf get_put_varint [of "of_nat (length positions)" "[]"]
    by (simp add: decode_posting_def encode_posting_def)
qed

lemma decode_encode_doc_len [simp]: "decode_doc_len (encode_doc_len n) = Inr n"
  using get_put_varint [of n "[]"] by (simp add: decode_doc_len_def encode_doc_len_def)

section \<open>Terms of a document\<close>

definition positions_of :: "bytes \<Rightarrow> Token list \<Rightarrow> u32 list" where
  "positions_of t tokens = map tok_position (filter (\<lambda>k. tok_term k = t) tokens)"

lemma entry_push_get:
  "sorted_wrt (<) (map fst m) \<Longrightarrow>
   map_of (entry_push t p m) k = (if k = t then Some ((case map_of m t of Some ps \<Rightarrow> ps | None \<Rightarrow> []) @ [p]) else map_of m k)"
proof (induction t p m rule: entry_push.induct)
  case (2 t p k' ps m)
  have "map_of m t = None" if "t < k'"
    using that 2(2) by (force simp: map_of_eq_None_iff)
  then show ?case using 2 by auto
qed simp

lemma entry_push_sorted:
  "sorted_wrt (<) (map fst m) \<Longrightarrow> sorted_wrt (<) (map fst (entry_push t p m)) \<and> fst ` set (entry_push t p m) = insert t (fst ` set m)"
  by (induction t p m rule: entry_push.induct) auto

lemma term_map_snoc: "term_map (tokens @ [t]) = entry_push (tok_term t) (tok_position t) (term_map tokens)"
  by (simp add: term_map_def)

lemma term_map_sorted: "sorted_wrt (<) (map fst (term_map tokens))"
  by (induction tokens rule: rev_induct) (simp_all add: term_map_snoc entry_push_sorted, simp add: term_map_def)

lemma term_map_get:
  "map_of (term_map tokens) t = (if positions_of t tokens = [] then None else Some (positions_of t tokens))"
proof (induction tokens rule: rev_induct)
  case (snoc k tokens)
  then show ?case by (auto simp: term_map_snoc entry_push_get [OF term_map_sorted] positions_of_def)
qed (simp add: term_map_def positions_of_def)

lemma term_map_distinct: "distinct (map fst (term_map tokens))"
  using term_map_sorted [of tokens] by (simp add: strict_sorted_iff)

lemma term_map_positions:
  assumes "sorted_wrt (<) (map tok_position tokens)" "(t, ps) \<in> set (term_map tokens)"
  shows "ps \<noteq> [] \<and> sorted_wrt (<) ps"
proof -
  have "map_of (term_map tokens) t = Some ps" using assms(2) term_map_distinct by simp
  then have "ps = positions_of t tokens" "ps \<noteq> []" by (auto simp: term_map_get split: if_splits)
  then show ?thesis using assms(1) by (auto simp: positions_of_def sorted_wrt_map intro!: sorted_wrt_filter)
qed

section \<open>An update is a reindexing\<close>

lemma posting_key_inject [simp]: "posting_key ti ff i t = posting_key ti ff i t' \<longleftrightarrow> t = t'"
  by (simp add: posting_key_def layout encode_term_def encode_str_for_index_def)

lemma posting_key_doc_key [simp]: "posting_key ti ff i t \<noteq> doc_key ti' ff' i'" "doc_key ti' ff' i' \<noteq> posting_key ti ff i t"
  by (simp_all add: posting_key_def doc_key_def layout)

text \<open>The rows that a document should have, and no others under its keys.\<close>

definition indexed_as :: "kv \<Rightarrow> u64 \<Rightarrow> FulltextField \<Rightarrow> u64 \<Rightarrow> IndexedDoc option \<Rightarrow> bool" where
  "indexed_as m ti ff i doc \<longleftrightarrow>
     (\<forall>t. kv_get m (posting_key ti ff i t) = (case doc of
        None \<Rightarrow> None
      | Some dc \<Rightarrow> map_option (\<lambda>ps. encode_posting (d_doc_len dc) ps (ff_positions ff)) (map_of (d_terms dc) t))) \<and>
     kv_get m (doc_key ti ff i) = map_option (\<lambda>dc. encode_doc_len (d_doc_len dc)) doc"

definition reindex :: "u64 \<Rightarrow> FulltextField \<Rightarrow> u64 \<Rightarrow> IndexedDoc option \<Rightarrow> IndexedDoc option \<Rightarrow> writes" where
  "reindex ti ff i old_doc new_doc =
     tombstones (case old_doc of Some dc \<Rightarrow> map fst (stage_doc_puts ti ff i dc) | None \<Rightarrow> []) @
     puts (case new_doc of Some dc \<Rightarrow> stage_doc_puts ti ff i dc | None \<Rightarrow> [])"

lemma kv_get_puts:
  assumes "kv_ok m" "distinct (map fst l)"
  shows "kv_get (kv_apply (puts l) m) k = (case map_of l k of Some v \<Rightarrow> Some v | None \<Rightarrow> kv_get m k)"
proof -
  have "map_of (rev (puts l)) k = map_option Some (map_of l k)"
  proof -
    have "distinct (map fst (puts l))" using assms(2) by (simp add: puts_def comp_def split_beta)
    then have "map_of (rev (puts l)) k = map_of (puts l) k" by (metis distinct_rev map_of_inject_set rev_map set_rev)
    also have "map_of (puts l) k = map_option Some (map_of l k)" unfolding puts_def by (induction l) auto
    finally show ?thesis by simp
  qed
  then show ?thesis using assms(1) by (simp add: kv_get_apply split: option.split)
qed

lemma map_of_keyed:
  assumes "inj g"
  shows "map_of (map (\<lambda>(t, ps). (g t, f ps)) l) (g t) = map_option f (map_of l t)"
  using assms by (induction l) (auto dest: injD)

lemma map_of_keyed_other: "k \<notin> range g \<Longrightarrow> map_of (map (\<lambda>(t, ps). (g t, f ps)) l) k = None"
  by (induction l) auto

lemma map_of_keyed_doc [simp]: "map_of (map (\<lambda>(t, ps). (posting_key ti ff i t, f ps)) l) (doc_key ti' ff' i') = None"
  by (rule map_of_keyed_other) auto

lemma map_of_filter_distinct:
  "distinct (map fst l) \<Longrightarrow> map_of (filter (\<lambda>(t, ps). P t ps) l) t = (case map_of l t of Some ps \<Rightarrow> if P t ps then Some ps else None | None \<Rightarrow> None)"
proof (induction l)
  case (Cons e l)
  moreover have "map_of l (fst e) = None" using Cons.prems by (simp add: map_of_eq_None_iff)
  ultimately show ?case by (auto split: option.splits)
qed simp

lemma kv_get_write_at: "kv_ok m \<Longrightarrow> kv_get (kv_apply [(k, w)] m) k' = (if k' = k then w else kv_get m k')"
  by (simp add: kv_get_apply)

lemma inj_posting_key: "inj (posting_key ti ff i)"
  by (rule injI) simp

definition doc_distinct :: "IndexedDoc option \<Rightarrow> bool" where
  "doc_distinct doc \<longleftrightarrow> distinct (map fst (doc_terms doc))"

lemma tokenized_distinct [simp]: "doc_distinct (map_option (tokenize_for_index ff) txt)" "doc_distinct (indexed_doc m ti ff i txt)"
  by (auto simp: doc_distinct_def doc_terms_def indexed_doc_def tokenize_for_index_def term_map_distinct Let_def split: option.splits)

lemma changed_postings_get:
  assumes "doc_distinct new_doc"
  shows "map_of (changed_postings ti ff i old_doc new_doc) (posting_key ti ff i t) = (case new_doc of
      None \<Rightarrow> None
    | Some nd \<Rightarrow> (case map_of (d_terms nd) t of
        Some ps \<Rightarrow> if map_of (doc_terms old_doc) t = Some ps \<and> map_option d_doc_len old_doc = Some (d_doc_len nd) then None
          else Some (encode_posting (d_doc_len nd) ps (ff_positions ff))
      | None \<Rightarrow> None))"
  using assms
  by (auto simp: changed_postings_def map_of_keyed [OF inj_posting_key] map_of_filter_distinct doc_distinct_def doc_terms_def split: option.splits)

lemma keyed_distinct:
  assumes "distinct (map fst l)"
  shows "distinct (map fst (map (\<lambda>(t, ps). (posting_key ti ff i t, f ps)) l))"
proof -
  have "map fst (map (\<lambda>(t, ps). (posting_key ti ff i t, f ps)) l) = map (posting_key ti ff i) (map fst l)" by auto
  moreover have "distinct (map (posting_key ti ff i) (map fst l))"
    unfolding distinct_map [of "posting_key ti ff i"] using assms inj_on_subset [OF inj_posting_key] by blast
  ultimately show ?thesis by (simp only:)
qed

lemma changed_postings_distinct:
  assumes "doc_distinct new_doc"
  shows "distinct (map fst (changed_postings ti ff i old_doc new_doc))"
proof (cases new_doc)
  case (Some nd)
  then have "distinct (map fst (d_terms nd))" using assms by (simp add: doc_distinct_def doc_terms_def)
  then show ?thesis unfolding changed_postings_def Some option.case by (intro keyed_distinct distinct_map_filter)
qed (simp add: changed_postings_def)

lemma changed_postings_doc [simp]: "map_of (changed_postings ti ff i old_doc new_doc) (doc_key ti' ff' i') = None"
  by (auto simp: changed_postings_def map_of_keyed_other split: option.split)

lemma staged_rows:
  fixes old_doc new_doc and old_text :: "bytes option" and ti i :: u64 and ff
  defines "W \<equiv> doc_row_write ti ff i (old_text \<noteq> None) (map_option d_doc_len old_doc) (map_option d_doc_len new_doc)"
  assumes m: "kv_ok m" "indexed_as m ti ff i old_doc" and old: "old_text = None \<Longrightarrow> old_doc = None" and dist: "doc_distinct new_doc"
  shows "indexed_as (kv_apply (tombstones (dropped_postings ti ff i old_doc new_doc) @ puts (changed_postings ti ff i old_doc new_doc) @ W) m)
    ti ff i new_doc"
proof -
  let ?D = "dropped_postings ti ff i old_doc new_doc" and ?C = "changed_postings ti ff i old_doc new_doc"
  let ?m1 = "kv_apply (tombstones ?D) m" and ?m2 = "kv_apply (puts ?C) (kv_apply (tombstones ?D) m)"
  have g2: "kv_get ?m2 k = (case map_of ?C k of Some v \<Rightarrow> Some v | None \<Rightarrow> if k \<in> set ?D then None else kv_get m k)" for k
    using m changed_postings_distinct [OF dist] by (simp add: kv_get_puts kv_get_tombstones split: option.split)
  have W: "kv_get (kv_apply W m') (posting_key ti ff i t) = kv_get m' (posting_key ti ff i t)" if "kv_ok m'" for m' t
    using that by (auto simp: W_def doc_row_write_def kv_get_write_at split: option.split)
  have D: "posting_key ti ff i t \<in> set ?D \<longleftrightarrow> t \<in> fst ` set (doc_terms old_doc) \<and> t \<notin> fst ` set (doc_terms new_doc)"
    "doc_key ti ff i \<notin> set ?D" for t
    by (force simp: dropped_postings_def)+
  have post: "kv_get (kv_apply W ?m2) (posting_key ti ff i t) = (case new_doc of
        None \<Rightarrow> None
      | Some dc \<Rightarrow> map_option (\<lambda>ps. encode_posting (d_doc_len dc) ps (ff_positions ff)) (map_of (d_terms dc) t))" for t
  proof -
    have absent: "map_of (doc_terms dc) t = None \<longleftrightarrow> t \<notin> fst ` set (doc_terms dc)" for dc by (rule map_of_eq_None_iff)
    have "kv_get m (posting_key ti ff i t) = (case old_doc of
        None \<Rightarrow> None
      | Some dc \<Rightarrow> map_option (\<lambda>ps. encode_posting (d_doc_len dc) ps (ff_positions ff)) (map_of (d_terms dc) t))"
      using m(2) by (simp add: indexed_as_def)
    then show ?thesis using m(1) absent [of old_doc] absent [of new_doc]
      by (auto simp: W g2 changed_postings_get [OF dist] D doc_terms_def split: option.splits)
  qed
  have doc: "kv_get (kv_apply W ?m2) (doc_key ti ff i) = map_option (\<lambda>dc. encode_doc_len (d_doc_len dc)) new_doc"
  proof -
    have "kv_get ?m2 (doc_key ti ff i) = map_option (\<lambda>dc. encode_doc_len (d_doc_len dc)) old_doc"
      using m(2) D(2) by (simp add: g2 indexed_as_def)
    moreover have "kv_get (kv_apply W m') (doc_key ti ff i) = (case new_doc of
        Some nd \<Rightarrow> if map_option d_doc_len old_doc \<noteq> Some (d_doc_len nd) then Some (encode_doc_len (d_doc_len nd)) else kv_get m' (doc_key ti ff i)
      | None \<Rightarrow> if old_text \<noteq> None then None else kv_get m' (doc_key ti ff i))" if "kv_ok m'" for m'
      using that by (auto simp: W_def doc_row_write_def kv_get_write_at split: option.splits)
    ultimately show ?thesis using m(1) old by (simp split: option.split) auto
  qed
  show ?thesis using post doc by (simp add: indexed_as_def kv_apply_append)
qed

lemma stage_doc_puts_get:
  "map_of (stage_doc_puts ti ff i dc) (posting_key ti ff i t) =
     map_option (\<lambda>ps. encode_posting (d_doc_len dc) ps (ff_positions ff)) (map_of (d_terms dc) t)"
  "map_of (stage_doc_puts ti ff i dc) (doc_key ti ff i) = Some (encode_doc_len (d_doc_len dc))"
  by (simp_all add: stage_doc_puts_def map_add_def map_of_keyed [OF inj_posting_key] map_of_keyed_other split: option.split)

lemma stage_doc_puts_distinct:
  "doc_distinct (Some dc) \<Longrightarrow> distinct (map fst (stage_doc_puts ti ff i dc))"
  using keyed_distinct [of "d_terms dc" ti ff i "\<lambda>ps. encode_posting (d_doc_len dc) ps (ff_positions ff)"]
  by (auto simp: stage_doc_puts_def doc_distinct_def doc_terms_def)

lemma reindex_rows:
  assumes m: "kv_ok m" "indexed_as m ti ff i old_doc" and dist: "doc_distinct new_doc"
  shows "indexed_as (kv_apply (reindex ti ff i old_doc new_doc) m) ti ff i new_doc"
proof -
  let ?K = "case old_doc of Some dc \<Rightarrow> map fst (stage_doc_puts ti ff i dc) | None \<Rightarrow> []"
  let ?P = "case new_doc of Some dc \<Rightarrow> stage_doc_puts ti ff i dc | None \<Rightarrow> []"
  have "distinct (map fst ?P)" using dist stage_doc_puts_distinct by (auto split: option.split)
  then have g: "kv_get (kv_apply (reindex ti ff i old_doc new_doc) m) k =
      (case map_of ?P k of Some v \<Rightarrow> Some v | None \<Rightarrow> if k \<in> set ?K then None else kv_get m k)" for k
    unfolding reindex_def kv_apply_append by (simp only: kv_get_puts kv_get_tombstones kv_apply_ok m(1))
  have gone: "(if k \<in> set ?K then None else kv_get m k) = None" if "k = doc_key ti ff i \<or> (\<exists>t. k = posting_key ti ff i t)" for k
  proof (cases old_doc)
    case None
    then show ?thesis using that m(2) by (auto simp: indexed_as_def)
  next
    case (Some dc)
    have "map_of (stage_doc_puts ti ff i dc) k \<noteq> None" if "kv_get m k \<noteq> None"
      using that \<open>k = doc_key ti ff i \<or> (\<exists>t. k = posting_key ti ff i t)\<close> m(2) Some
      by (auto simp: indexed_as_def stage_doc_puts_get)
    then show ?thesis using Some by (auto simp: map_of_eq_None_iff)
  qed
  show ?thesis unfolding indexed_as_def
  proof (intro conjI allI)
    show "kv_get (kv_apply (reindex ti ff i old_doc new_doc) m) (posting_key ti ff i t) = (case new_doc of
        None \<Rightarrow> None
      | Some dc \<Rightarrow> map_option (\<lambda>ps. encode_posting (d_doc_len dc) ps (ff_positions ff)) (map_of (d_terms dc) t))" for t
      unfolding g gone [OF disjI2 [OF exI [of _ t, OF refl]]] by (auto simp: stage_doc_puts_get split: option.split)
    show "kv_get (kv_apply (reindex ti ff i old_doc new_doc) m) (doc_key ti ff i) = map_option (\<lambda>dc. encode_doc_len (d_doc_len dc)) new_doc"
      unfolding g gone [OF disjI1 [OF refl]] by (auto simp: stage_doc_puts_get split: option.split)
  qed
qed

lemma other_rows_kept:
  assumes "kv_ok m" "k \<noteq> doc_key ti ff i" "k \<notin> range (posting_key ti ff i)"
  shows "kv_get (kv_apply (fst (stage_fulltext_update m ti ff i old_text new_text \<delta>)) m) k = kv_get m k"
    "kv_get (kv_apply (reindex ti ff i old_doc new_doc) m) k = kv_get m k"
proof -
  show "kv_get (kv_apply (fst (stage_fulltext_update m ti ff i old_text new_text \<delta>)) m) k = kv_get m k"
    by (rule kv_get_apply_other [OF assms(1)])
      (use assms in \<open>auto simp: stage_fulltext_update_def Let_def tombstones_def puts_def dropped_postings_def changed_postings_def
        doc_row_write_def split: option.splits\<close>)
  show "kv_get (kv_apply (reindex ti ff i old_doc new_doc) m) k = kv_get m k"
    by (rule kv_get_apply_other [OF assms(1)])
      (use assms in \<open>auto simp: reindex_def tombstones_def puts_def stage_doc_puts_def split: option.splits\<close>)
qed

section \<open>Properties\<close>

text \<open>C36: A posting is read back: for the ascending, non-empty positions of a term, the decoder returns the document length, the
  number of occurrences and the positions when the field stores them, and the decoder of the header alone returns
  the same header.\<close>

theorem posting_roundtrip:
  assumes "positions \<noteq> []" "sorted_wrt (<) positions" "length positions < 2 ^ 32"
  shows "decode_posting (encode_posting doc_len positions store_positions) =
      Inr \<lparr>p_doc_len = doc_len, p_tf = of_nat (length positions), p_positions = (if store_positions then positions else [])\<rparr> \<and>
    decode_posting_header (encode_posting doc_len positions store_positions) = Inr (doc_len, of_nat (length positions)) \<and>
    decode_doc_len (encode_doc_len doc_len) = Inr doc_len"
  using decode_encode_posting [OF assms] decode_posting_sound [OF decode_encode_posting [OF assms]] by simp

theorem posting_roundtrip_witness:
  "decode_posting (encode_posting 300 [3, 200, 70000] True) = Inr \<lparr>p_doc_len = 300, p_tf = 3, p_positions = [3, 200, 70000]\<rparr>"
  using posting_roundtrip [of "[3, 200, 70000]" 300 True] by simp

text \<open>C7: Updating a value by the difference of its old and new terms leaves the index as deleting every row of the old document and
  writing every row of the new one would, key by key, whatever the field analyzer; that also holds when the old value was not
  indexed yet.\<close>

theorem fulltext_update_is_reindex:
  assumes "kv_ok m" "indexed_as m ti ff i (indexed_doc m ti ff i old_text)"
  shows "kv_get (kv_apply (fst (stage_fulltext_update m ti ff i old_text new_text \<delta>)) m) k =
    kv_get (kv_apply (reindex ti ff i (indexed_doc m ti ff i old_text) (map_option (tokenize_for_index ff) new_text)) m) k"
proof -
  let ?old = "indexed_doc m ti ff i old_text" and ?new = "map_option (tokenize_for_index ff) new_text"
  have "indexed_as (kv_apply (fst (stage_fulltext_update m ti ff i old_text new_text \<delta>)) m) ti ff i ?new"
    using staged_rows [OF assms, of old_text ?new] by (simp add: stage_fulltext_update_def Let_def indexed_doc_def)
  moreover have "indexed_as (kv_apply (reindex ti ff i ?old ?new) m) ti ff i ?new"
    using reindex_rows [OF assms, of ?new] by simp
  ultimately have "kv_get (kv_apply (fst (stage_fulltext_update m ti ff i old_text new_text \<delta>)) m) k =
      kv_get (kv_apply (reindex ti ff i ?old ?new) m) k" if "k = doc_key ti ff i \<or> k \<in> range (posting_key ti ff i)"
    using that by (auto simp: indexed_as_def)
  then show ?thesis using other_rows_kept [OF assms(1), of k ti ff i] by metis
qed

text \<open>One word per byte, for the witness.\<close>

definition byte_words :: "bytes \<Rightarrow> Token list" where
  "byte_words txt = map (\<lambda>(b, n). \<lparr>tok_term = [b], tok_position = of_nat n\<rparr>) (zip txt [0..<length txt])"

definition sample_ff :: FulltextField where
  "sample_ff = \<lparr>ff_name = lit ''body'', ff_field_id = 4, ff_generation = 1, ff_analyze = byte_words, ff_positions = True\<rparr>"

theorem fulltext_update_is_reindex_witness:
  "kv_get (kv_apply (fst (stage_fulltext_update (kv_apply (puts (stage_doc_puts 1 sample_ff 7 (tokenize_for_index sample_ff [97, 98]))) [])
       1 sample_ff 7 (Some [97, 98]) (Some [98, 99, 97]) Map.empty))
      (kv_apply (puts (stage_doc_puts 1 sample_ff 7 (tokenize_for_index sample_ff [97, 98]))) [])) (posting_key 1 sample_ff 7 [97]) =
    kv_get (kv_apply (reindex 1 sample_ff 7
       (indexed_doc (kv_apply (puts (stage_doc_puts 1 sample_ff 7 (tokenize_for_index sample_ff [97, 98]))) []) 1 sample_ff 7 (Some [97, 98]))
       (Some (tokenize_for_index sample_ff [98, 99, 97])))
      (kv_apply (puts (stage_doc_puts 1 sample_ff 7 (tokenize_for_index sample_ff [97, 98]))) [])) (posting_key 1 sample_ff 7 [97])"
proof -
  let ?dc = "tokenize_for_index sample_ff [97, 98]"
  let ?m = "kv_apply (puts (stage_doc_puts 1 sample_ff 7 ?dc)) []"
  have "indexed_as (kv_apply (reindex 1 sample_ff 7 None (Some ?dc)) []) 1 sample_ff 7 (Some ?dc)"
    using tokenized_distinct(1) [of sample_ff "Some [97, 98]"] by (intro reindex_rows) (simp_all add: indexed_as_def)
  then have rows: "indexed_as ?m 1 sample_ff 7 (Some ?dc)" by (simp add: reindex_def tombstones_def)
  then have "indexed_doc ?m 1 sample_ff 7 (Some [97, 98]) = Some ?dc" by (simp add: indexed_doc_def indexed_as_def)
  with rows show ?thesis
    using fulltext_update_is_reindex [of ?m 1 sample_ff 7 "Some [97, 98]" "Some [98, 99, 97]" Map.empty "posting_key 1 sample_ff 7 [97]"]
    by simp
qed

end
