(* ===== verification/Engine_Catalog.thy ===== *)
theory Engine_Catalog
  imports Fulltext_Posting Schema
begin

text \<open>
  What an open \<^verbatim>\<open>Database\<close> of \<^verbatim>\<open>rhypedb-engine/src/database.rs\<close> knows: the schema, the numeric ids of types, fields
  and relations, the retired ones, and the tables derived from them for deletes and indexes, with the
  checks of names and values that every operation starts with; and the state that operations change: the
  store, the next object id, the generation counters and the published change events. The catalog itself is
  read-only here, as it is between migrations. The operations are modelled for a database with no field-type
  migration in flight.

  A \<^verbatim>\<open>String\<close> of the schema is a list of code points, a field name in a \<^verbatim>\<open>FieldMap\<close> its UTF-8 bytes.
  Results are \<open>None\<close> for a panic, an error or a value.
\<close>

section \<open>Results\<close>

datatype 'j EngineError =
    EStorage
  | TypeNotFound rtext
  | ObjectNotFound rtext u64
  | FieldNotFound rtext bytes
  | TypeMismatch rtext rtext string
  | UniqueViolation rtext bytes "'j Value"
  | DeleteDenied rtext u64 rtext rtext
  | EWriteConflict
  | TypeRetired rtext u64 u64
  | FieldRetired rtext rtext u64 u64
  | RelationRetired rtext rtext u64 u64
  | DatabaseMigratedAway

type_synonym ('j, 'a) eres = "('j EngineError + 'a) option"

abbreviation ok :: "'a \<Rightarrow> ('j, 'a) eres" where
  "ok x \<equiv> Some (Inr x)"

abbreviation err :: "'j EngineError \<Rightarrow> ('j, 'a) eres" where
  "err e \<equiv> Some (Inl e)"

definition dbind :: "('j, 'a) eres \<Rightarrow> ('a \<Rightarrow> ('j, 'b) eres) \<Rightarrow> ('j, 'b) eres" where
  "dbind m k = (case m of None \<Rightarrow> None | Some (Inl e) \<Rightarrow> Some (Inl e) | Some (Inr x) \<Rightarrow> k x)"

lemma dbind_simps [simp]: "dbind (ok x) k = k x" "dbind (err e) k = err e" "dbind None k = None"
  by (simp_all add: dbind_def)

lemma dbind_ok: "dbind m k = ok y \<longleftrightarrow> (\<exists>x. m = ok x \<and> k x = ok y)"
  by (auto simp: dbind_def split: option.splits sum.splits)

lemma dbind_cong [fundef_cong]: "m = m' \<Longrightarrow> (\<And>x. m' = ok x \<Longrightarrow> k x = k' x) \<Longrightarrow> dbind m k = dbind m' k'"
  by (auto simp: dbind_def split: option.splits sum.splits)

text \<open>Over a list, up to the first failure.\<close>

fun each :: "('a \<Rightarrow> ('j, 'b) eres) \<Rightarrow> 'a list \<Rightarrow> ('j, 'b list) eres" where
  "each f [] = ok []"
| "each f (x # xs) = dbind (f x) (\<lambda>y. dbind (each f xs) (\<lambda>ys. ok (y # ys)))"

text \<open>\<^verbatim>\<open>deserialize_fields\<close>, which panics on malformed bytes.\<close>

definition stored_fields :: "'j json_lib \<Rightarrow> bytes \<Rightarrow> ('j, 'j FieldMap) eres" where
  "stored_fields lib data = (case deserialize_fields lib data of Return m \<Rightarrow> ok m | _ \<Rightarrow> None)"

section \<open>The catalog\<close>

datatype IndexedKind = KInteger | KBool | KFloat | KString | KBytes

record IndexedField =
  ifd_name :: rtext
  ifd_field_id :: u64
  ifd_kind :: IndexedKind

record IncomingRelation =
  inc_source_type_id :: u64
  inc_source_type :: rtext
  inc_source_field :: rtext
  inc_rel_id :: u64
  inc_is_many :: bool
  inc_policy :: OnDeletePolicy

record ForwardRelMeta =
  fwd_field_name :: rtext
  fwd_rel_id :: u64
  fwd_is_many :: bool

record CascadeMeta =
  cm_type_name :: rtext
  cm_has_unique :: bool
  cm_has_indexed :: bool
  cm_has_scalar :: bool
  cm_forward_relations :: "ForwardRelMeta list"

text \<open>
  What a handle knows. \<open>c_type_ids\<close> has retired types too. \<open>storage_get\<close> is the point read of \<^verbatim>\<open>self.storage\<close>: given
  the committed state of the snapshot, what the read returns for a key. It is not the lookup in that state for every key: an SST
  file does not find a key that another stored key continues (\<open>Sst_Read\<close>), and which keys that hits depends on the files.
  The keys of objects, of the rows of one document and of counters have a fixed length for their first byte, so none is continued by another, and reads of them
  are lookups; the keys of the unique index end with a value of any length, and their reads go through \<open>storage_get\<close>.
\<close>

record catalog =
  c_schema :: Schema
  c_type_ids :: "(rtext \<times> u64) list"
  field_ids :: "rtext \<rightharpoonup> u64"
  rel_ids :: "rtext \<rightharpoonup> u64"
  tombstoned_type_ids :: "u64 set"
  tombstoned_rel_ids :: "u64 set"
  tombstoned_field_quals :: "rtext set"
  retired_field_names_by_type :: "rtext \<Rightarrow> rtext list"
  retired_at_ms_by_type_id :: "u64 \<rightharpoonup> u64"
  retired_at_ms_by_field_id :: "u64 \<rightharpoonup> u64"
  retired_at_ms_by_rel_id :: "u64 \<rightharpoonup> u64"
  migrated :: bool
  fulltext_fields :: "rtext \<Rightarrow> FulltextField list"
  storage_get :: "kv \<Rightarrow> bytes \<Rightarrow> bytes option"

abbreviation type_ids :: "catalog \<Rightarrow> rtext \<rightharpoonup> u64" where
  "type_ids c \<equiv> map_of (c_type_ids c)"

text \<open>The name \<^verbatim>\<open>Type.field\<close>.\<close>

definition qual :: "rtext \<Rightarrow> rtext \<Rightarrow> rtext" where
  "qual tn f = tn @ lit ''.'' @ f"

definition or_zero :: "u64 option \<Rightarrow> u64" where
  "or_zero x = (case x of Some n \<Rightarrow> n | None \<Rightarrow> 0)"

definition resolve_type_id :: "catalog \<Rightarrow> rtext \<Rightarrow> ('j, u64) eres" where
  "resolve_type_id c tn =
     (if migrated c then err DatabaseMigratedAway
      else case type_ids c tn of
        None \<Rightarrow> err (TypeNotFound tn)
      | Some i \<Rightarrow>
          if i \<in> tombstoned_type_ids c then err (TypeRetired tn i (or_zero (retired_at_ms_by_type_id c i))) else ok i)"

definition field_retired_error :: "catalog \<Rightarrow> rtext \<Rightarrow> rtext \<Rightarrow> 'j EngineError option" where
  "field_retired_error c tn f =
     (if qual tn f \<notin> tombstoned_field_quals c then None
      else let i = or_zero (field_ids c (qual tn f)) in
        Some (FieldRetired tn f i (or_zero (retired_at_ms_by_field_id c i))))"

definition schema_type :: "catalog \<Rightarrow> rtext \<Rightarrow> ('j, TypeDef) eres" where
  "schema_type c tn = (case get_type (c_schema c) tn of Some td \<Rightarrow> ok td | None \<Rightarrow> err (TypeNotFound tn))"

definition live_field :: "catalog \<Rightarrow> rtext \<Rightarrow> TypeDef \<Rightarrow> rtext \<Rightarrow> ('j, FieldDef) eres" where
  "live_field c tn td f = (case get_field td f of
      Some fd \<Rightarrow> ok fd
    | None \<Rightarrow> (case field_retired_error c tn f of
        Some e \<Rightarrow> err e
      | None \<Rightarrow> err (FieldNotFound tn (utf8 f))))"

definition field_relation :: "rtext \<Rightarrow> FieldDef \<Rightarrow> ('j, RelationType) eres" where
  "field_relation tn fd = (case fd_field_type fd of Relation rel \<Rightarrow> ok rel | _ \<Rightarrow> err (FieldNotFound tn (utf8 (fd_name fd))))"

definition rel_id_of :: "catalog \<Rightarrow> rtext \<Rightarrow> rtext \<Rightarrow> ('j, u64) eres" where
  "rel_id_of c tn f = (case rel_ids c (qual tn f) of
      Some i \<Rightarrow> ok i
    | None \<Rightarrow> err (FieldNotFound tn (utf8 f)))"

definition live_rel :: "catalog \<Rightarrow> rtext \<Rightarrow> rtext \<Rightarrow> u64 \<Rightarrow> ('j, unit) eres" where
  "live_rel c tn f i =
     (if i \<in> tombstoned_rel_ids c then err (RelationRetired tn f i (or_zero (retired_at_ms_by_rel_id c i))) else ok ())"

section \<open>Derived tables\<close>

text \<open>
  \<^verbatim>\<open>open\<close> builds these from the schema and the ids; it panics when an id is missing, which the catalog
  excludes, and here such a field is left out.
\<close>

definition forward_field :: "FieldDef \<Rightarrow> RelationType option" where
  "forward_field fd = (case fd_field_type fd of
      Relation rel \<Rightarrow> if fd_inverse fd = None then Some rel else None
    | _ \<Rightarrow> None)"

definition default_policy :: "FieldDef \<Rightarrow> RelationType \<Rightarrow> OnDeletePolicy" where
  "default_policy fd rel = (case fd_on_delete fd of
      Some p \<Rightarrow> p
    | None \<Rightarrow> if is_many rel then Remove else Deny)"

definition incoming_of_field :: "catalog \<Rightarrow> u64 \<Rightarrow> rtext \<Rightarrow> FieldDef \<Rightarrow> IncomingRelation list" where
  "incoming_of_field c target tn fd = (case forward_field fd of
      None \<Rightarrow> []
    | Some rel \<Rightarrow> (case (type_ids c tn, rel_ids c (qual tn (fd_name fd))) of
        (Some ti, Some ri) \<Rightarrow>
          if type_ids c (target_type rel) = Some target
          then [\<lparr>inc_source_type_id = ti, inc_source_type = tn, inc_source_field = fd_name fd, inc_rel_id = ri,
                 inc_is_many = is_many rel, inc_policy = default_policy fd rel\<rparr>]
          else []
      | _ \<Rightarrow> []))"

definition incoming_relations :: "catalog \<Rightarrow> u64 \<Rightarrow> IncomingRelation list" where
  "incoming_relations c target =
     concat (map (\<lambda>(tn, td). concat (map (incoming_of_field c target tn) (td_fields td))) (c_schema c))"

definition forward_meta :: "catalog \<Rightarrow> rtext \<Rightarrow> FieldDef \<Rightarrow> ForwardRelMeta option" where
  "forward_meta c tn fd = (case (forward_field fd, rel_ids c (qual tn (fd_name fd))) of
      (Some rel, Some ri) \<Rightarrow> Some \<lparr>fwd_field_name = fd_name fd, fwd_rel_id = ri, fwd_is_many = is_many rel\<rparr>
    | _ \<Rightarrow> None)"

definition is_scalar_field :: "FieldDef \<Rightarrow> bool" where
  "is_scalar_field fd \<longleftrightarrow> (case fd_field_type fd of Scalar _ \<Rightarrow> True | _ \<Rightarrow> False)"

definition type_meta :: "catalog \<Rightarrow> rtext \<Rightarrow> TypeDef \<Rightarrow> CascadeMeta" where
  "type_meta c tn td = \<lparr>cm_type_name = tn, cm_has_unique = list_ex is_unique (td_fields td),
     cm_has_indexed = list_ex is_indexed (td_fields td), cm_has_scalar = list_ex is_scalar_field (td_fields td),
     cm_forward_relations = List.map_filter (forward_meta c tn) (td_fields td)\<rparr>"

definition cascade_meta_by_id :: "catalog \<Rightarrow> u64 \<Rightarrow> CascadeMeta option" where
  "cascade_meta_by_id c i = find_map (\<lambda>(tn, td). if type_ids c tn = Some i then Some (type_meta c tn td) else None) (c_schema c)"

definition type_name_by_id :: "catalog \<Rightarrow> u64 \<Rightarrow> rtext option" where
  "type_name_by_id c i = find_map (\<lambda>(tn, ti). if ti = i then Some tn else None) (c_type_ids c)"

definition index_kind :: "FieldType \<Rightarrow> IndexedKind" where
  "index_kind ft = (case ft of
      Scalar ST_String \<Rightarrow> KString
    | Scalar ST_Bytes \<Rightarrow> KBytes
    | Scalar ST_Bool \<Rightarrow> KBool
    | Scalar ST_F32 \<Rightarrow> KFloat
    | Scalar ST_F64 \<Rightarrow> KFloat
    | _ \<Rightarrow> KInteger)"

definition indexed_fields :: "catalog \<Rightarrow> rtext \<Rightarrow> IndexedField list" where
  "indexed_fields c tn = (case get_type (c_schema c) tn of
      None \<Rightarrow> []
    | Some td \<Rightarrow> List.map_filter (\<lambda>fd.
        if is_indexed fd then map_option (\<lambda>i. \<lparr>ifd_name = fd_name fd, ifd_field_id = i, ifd_kind = index_kind (fd_field_type fd)\<rparr>)
          (field_ids c (qual tn (fd_name fd)))
        else None) (td_fields td))"

section \<open>Values\<close>

primrec scalar_of :: "'j Value \<Rightarrow> ScalarType option" where
  "scalar_of (VString _) = Some ST_String"
| "scalar_of (VU32 _) = Some ST_U32"
| "scalar_of (VU64 _) = Some ST_U64"
| "scalar_of (VI32 _) = Some ST_I32"
| "scalar_of (VI64 _) = Some ST_I64"
| "scalar_of (VF32 _) = Some ST_F32"
| "scalar_of (VF64 _) = Some ST_F64"
| "scalar_of (VBool _) = Some ST_Bool"
| "scalar_of (VBytes _) = Some ST_Bytes"
| "scalar_of (VDateTime _) = Some ST_DateTime"
| "scalar_of (VJson _) = Some ST_Json"
| "scalar_of VNull = None"

definition scalar_accepts :: "ScalarType \<Rightarrow> 'j Value \<Rightarrow> bool" where
  "scalar_accepts s v \<longleftrightarrow> scalar_of v = Some s"

text \<open>\<^verbatim>\<open>Debug\<close> of \<^verbatim>\<open>ScalarType\<close>.\<close>

primrec scalar_debug :: "ScalarType \<Rightarrow> string" where
  "scalar_debug ST_String = ''String''"
| "scalar_debug ST_U32 = ''U32''"
| "scalar_debug ST_U64 = ''U64''"
| "scalar_debug ST_I32 = ''I32''"
| "scalar_debug ST_I64 = ''I64''"
| "scalar_debug ST_F32 = ''F32''"
| "scalar_debug ST_F64 = ''F64''"
| "scalar_debug ST_Bool = ''Bool''"
| "scalar_debug ST_Bytes = ''Bytes''"
| "scalar_debug ST_DateTime = ''DateTime''"
| "scalar_debug ST_Json = ''Json''"

definition validate_edge_value :: "EdgeFieldDef \<Rightarrow> 'j Value \<Rightarrow> ('j, unit) eres" where
  "validate_edge_value d v =
     (if v = VNull \<or> scalar_accepts (ef_scalar_type d) v then ok ()
      else err (TypeMismatch (ef_name d) (lit (scalar_debug (ef_scalar_type d))) (type_name v)))"

fun is_integer :: "'j Value \<Rightarrow> bool" where
  "is_integer (VU64 _) = True"
| "is_integer (VU32 _) = True"
| "is_integer (VI32 _) = True"
| "is_integer (VI64 _) = True"
| "is_integer _ = False"

definition validate_value :: "FieldDef \<Rightarrow> 'j Value \<Rightarrow> ('j, unit) eres" where
  "validate_value fd v =
     (if v = VNull then ok ()
      else case fd_field_type fd of
        Scalar s \<Rightarrow> if scalar_accepts s v then ok () else err (TypeMismatch (fd_name fd) (lit (scalar_debug s)) (type_name v))
      | Relation _ \<Rightarrow>
          if is_integer v then ok () else err (TypeMismatch (fd_name fd) (lit ''relation target id (integer)'') (type_name v))
      | Schema.Vector _ \<Rightarrow> err (TypeMismatch (fd_name fd) (lit ''scalar'') (type_name v)))"

text \<open>The fields a caller may see: not retired ones, and never the shadows of a migration.\<close>

definition is_shadow_sibling_key :: "bytes \<Rightarrow> bool" where
  "is_shadow_sibling_key k \<longleftrightarrow> suffix (utf8 (lit ''__shadow'')) k \<or> suffix (utf8 (lit ''__shadow_cv'')) k"

definition strip_tombstoned_fields :: "catalog \<Rightarrow> rtext \<Rightarrow> 'j FieldMap \<Rightarrow> 'j FieldMap" where
  "strip_tombstoned_fields c tn fs =
     filter (\<lambda>f. fst f \<notin> utf8 ` set (retired_field_names_by_type c tn) \<and> \<not> is_shadow_sibling_key (fst f)) fs"

section \<open>The state of a database\<close>

datatype ChangeKind = ChCreate | ChUpdate | ChDelete

record 'j ChangeEvent =
  ce_version :: u64
  ce_kind :: ChangeKind
  ce_type_name :: rtext
  ce_object_id :: u64
  ce_fields :: "'j FieldMap option"
  ce_origin :: "u64 option"

record 'j db =
  store :: kv
  store_version :: u64
  next_object_id :: u64
  version_counters :: "u64 \<times> u64 \<rightharpoonup> u64"
  published :: "'j ChangeEvent list"
  fulltext_stats :: "u64 \<times> u64 \<rightharpoonup> CorpusStats"
  cover_refresh :: "(u64 \<times> u64) list"

text \<open>
  How a commit ends: it lands, another transaction got there first, or the log fails. An empty batch takes no version
  and always succeeds.
\<close>

datatype commit_io = Lands | Conflicts | LogFails

definition commit :: "commit_io \<Rightarrow> writes \<Rightarrow> 'j db \<Rightarrow> ('j, 'j db) eres" where
  "commit io ws d = (if ws = [] then ok d else case io of
      Lands \<Rightarrow> ok (d\<lparr>store := kv_apply ws (store d), store_version := store_version d + 1\<rparr>)
    | Conflicts \<Rightarrow> err EWriteConflict
    | LogFails \<Rightarrow> err EStorage)"

definition object_version :: "catalog \<Rightarrow> 'j db \<Rightarrow> rtext \<Rightarrow> u64 \<Rightarrow> u64" where
  "object_version c d tn i = (case type_ids c tn of None \<Rightarrow> 0 | Some ti \<Rightarrow> or_zero (version_counters d (ti, i)))"

definition bump_version :: "u64 \<Rightarrow> u64 \<Rightarrow> 'j db \<Rightarrow> 'j db" where
  "bump_version ti i d = d\<lparr>version_counters := (version_counters d)((ti, i) \<mapsto> or_zero (version_counters d (ti, i)) + 1)\<rparr>"

definition rollback_version :: "u64 \<Rightarrow> u64 \<Rightarrow> 'j db \<Rightarrow> 'j db" where
  "rollback_version ti i d = (case version_counters d (ti, i) of
      None \<Rightarrow> d
    | Some v \<Rightarrow> let v' = (if 0 < v then v - 1 else v) in
        d\<lparr>version_counters := (version_counters d)((ti, i) := (if v' = 0 then None else Some v'))\<rparr>)"

definition forget_version :: "u64 \<Rightarrow> u64 \<Rightarrow> 'j db \<Rightarrow> 'j db" where
  "forget_version ti i d = d\<lparr>version_counters := (version_counters d)((ti, i) := None)\<rparr>"

section \<open>Lookups that succeed\<close>

definition type_live :: "catalog \<Rightarrow> rtext \<Rightarrow> u64 \<Rightarrow> bool" where
  "type_live c tn i \<longleftrightarrow> \<not> migrated c \<and> type_ids c tn = Some i \<and> i \<notin> tombstoned_type_ids c"

lemma lookup_ok [simp]:
  "resolve_type_id c tn = ok i \<longleftrightarrow> type_live c tn i"
  "schema_type c tn = ok td \<longleftrightarrow> get_type (c_schema c) tn = Some td"
  "live_field c tn td f = ok fd \<longleftrightarrow> get_field td f = Some fd"
  "field_relation tn fd = ok rel \<longleftrightarrow> fd_field_type fd = Relation rel"
  "rel_id_of c tn f = ok r \<longleftrightarrow> rel_ids c (qual tn f) = Some r"
  "live_rel c tn f r = ok u \<longleftrightarrow> r \<notin> tombstoned_rel_ids c"
  by (auto simp: resolve_type_id_def type_live_def schema_type_def live_field_def field_relation_def rel_id_of_def live_rel_def
    split: option.splits FieldType.splits)

lemma type_live_unique: "type_live c tn i \<Longrightarrow> type_live c tn j \<Longrightarrow> i = j"
  by (simp add: type_live_def)

end
