(* ===== verification/Engine_Links.thy ===== *)
theory Engine_Links
  imports Engine_Catalog
begin

text \<open>
  Relationships: \<^verbatim>\<open>link\<close>, \<^verbatim>\<open>unlink\<close>, \<^verbatim>\<open>get_links\<close> and \<^verbatim>\<open>get_links_many\<close> of \<^verbatim>\<open>rhypedb-engine/src/database.rs\<close>, and the covering
  values of reverse edges. A link is a pair of keys, the edge from the source and the reverse edge from the
  target; the value of a reverse edge repeats the fields of the source and of its other single targets, so that
  a query that walks through it needs no further reads.

  The two keys of a link always come and go together, a link is read back with its fields, and a
  link through an inverse field is written where no read looks.
\<close>

section \<open>Reading edges\<close>

definition tail_id :: "bytes \<Rightarrow> u64" where
  "tail_id k = be_u64 (drop (length k - 8) k)"

definition scan_prefix_raw :: "kv \<Rightarrow> bytes \<Rightarrow> (u64 \<times> bytes) list" where
  "scan_prefix_raw m p = map (\<lambda>(k, v). (tail_id k, v)) (filter (\<lambda>e. 8 \<le> length (fst e)) (kv_scan m p))"

definition edge_value :: "'j json_lib \<Rightarrow> bytes \<Rightarrow> ('j, 'j FieldMap) eres" where
  "edge_value lib v = (if v = [] then ok [] else stored_fields lib v)"

definition decode_edge_entries :: "'j json_lib \<Rightarrow> (bytes \<times> bytes) list \<Rightarrow> ('j, (u64 \<times> 'j FieldMap) list) eres" where
  "decode_edge_entries lib es =
     each (\<lambda>(k, v). dbind (edge_value lib v) (\<lambda>fs. ok (tail_id k, fs)))
       (filter (\<lambda>e. 8 \<le> length (fst e)) es)"

definition scan_prefix :: "'j json_lib \<Rightarrow> kv \<Rightarrow> bytes \<Rightarrow> ('j, (u64 \<times> 'j FieldMap) list) eres" where
  "scan_prefix lib m p = decode_edge_entries lib (kv_scan m p)"

text \<open>The relation whose edges a field reads, and whether it reads them backwards.\<close>

definition read_relation :: "catalog \<Rightarrow> rtext \<Rightarrow> FieldDef \<Rightarrow> ('j, u64 \<times> bool) eres" where
  "read_relation c tn fd = (case fd_inverse fd of
      Some iv \<Rightarrow> dbind (rel_id_of c (inv_type_name iv) (inv_field_name iv)) (\<lambda>i. ok (i, True))
    | None \<Rightarrow> dbind (rel_id_of c tn (fd_name fd)) (\<lambda>i. ok (i, False)))"

definition link_prefix :: "u64 \<Rightarrow> u64 \<times> bool \<Rightarrow> bytes" where
  "link_prefix i rel = (if snd rel then kb_reverse_edge_prefix i (fst rel) else kb_edge_prefix i (fst rel))"

definition get_links :: "'j json_lib \<Rightarrow> catalog \<Rightarrow> 'j db \<Rightarrow> rtext \<Rightarrow> u64 \<Rightarrow> rtext \<Rightarrow> ('j, (u64 \<times> 'j FieldMap) list) eres" where
  "get_links lib c d tn i f =
     dbind (resolve_type_id c tn) (\<lambda>_.
     dbind (schema_type c tn) (\<lambda>td.
     dbind (live_field c tn td f) (\<lambda>fd.
     dbind (read_relation c tn fd) (\<lambda>rel.
     scan_prefix lib (store d) (link_prefix i rel)))))"

definition get_links_many :: "catalog \<Rightarrow> 'j db \<Rightarrow> rtext \<Rightarrow> u64 list \<Rightarrow> rtext \<Rightarrow> ('j, (u64 \<times> bytes) list list) eres" where
  "get_links_many c d tn ids f =
     (if ids = [] then ok []
      else dbind (schema_type c tn) (\<lambda>td.
        dbind (case get_field td f of Some fd \<Rightarrow> ok fd | None \<Rightarrow> err (FieldNotFound tn (utf8 f))) (\<lambda>fd.
        dbind (read_relation c tn fd) (\<lambda>rel.
        ok (map (\<lambda>i. scan_prefix_raw (store d) (link_prefix i rel)) ids)))))"

section \<open>Covering values\<close>

definition cover_name :: "rtext \<Rightarrow> bytes" where
  "cover_name f = utf8 (f @ lit ''__cover'')"

definition cover_v_name :: "rtext \<Rightarrow> bytes" where
  "cover_v_name f = utf8 (f @ lit ''__cover_v'')"

definition single_forward :: "FieldDef \<Rightarrow> RelationType option" where
  "single_forward fd = (case forward_field fd of Some rel \<Rightarrow> if is_many rel then None else Some rel | None \<Rightarrow> None)"

text \<open>The first target of a single relation.\<close>

definition first_target :: "'j json_lib \<Rightarrow> kv \<Rightarrow> u64 \<Rightarrow> u64 \<Rightarrow> ('j, u64 option) eres" where
  "first_target lib m i rel = dbind (scan_prefix lib m (kb_edge_prefix i rel)) (\<lambda>es.
     ok (case es of [] \<Rightarrow> None | (t, _) # _ \<Rightarrow> Some t))"

text \<open>One more hop, for the single relations of a target.\<close>

fun nested_covers ::
    "'j json_lib \<Rightarrow> catalog \<Rightarrow> 'j db \<Rightarrow> rtext \<Rightarrow> u64 \<Rightarrow> FieldDef list \<Rightarrow> 'j FieldMap \<times> bool \<Rightarrow> ('j, 'j FieldMap \<times> bool) eres" where
  "nested_covers lib c d tn i [] acc = ok acc"
| "nested_covers lib c d tn i (fd # fds) acc =
     (case (single_forward fd, rel_ids c (qual tn (fd_name fd))) of
        (Some rel, Some ri) \<Rightarrow>
          dbind (first_target lib (store d) i ri) (\<lambda>nt. case nt of
            None \<Rightarrow> nested_covers lib c d tn i fds acc
          | Some next_tid \<Rightarrow> (case type_ids c (target_type rel) of
              None \<Rightarrow> nested_covers lib c d tn i fds acc
            | Some nti \<Rightarrow> (case kv_get (store d) (kb_object nti next_tid) of
                None \<Rightarrow> nested_covers lib c d tn i fds acc
              | Some next_data \<Rightarrow>
                  nested_covers lib c d tn i fds
                    (AList.update (cover_v_name (fd_name fd)) (VU64 (object_version c d (target_type rel) next_tid))
                      (AList.update (cover_name (fd_name fd)) (VBytes next_data)
                        (AList.update (utf8 (fd_name fd)) (VU64 next_tid) (fst acc))), True))))
      | _ \<Rightarrow> nested_covers lib c d tn i fds acc)"

definition with_nested_forward_covers ::
    "'j json_lib \<Rightarrow> catalog \<Rightarrow> 'j db \<Rightarrow> rtext \<Rightarrow> bytes \<Rightarrow> u64 \<Rightarrow> ('j, bytes) eres" where
  "with_nested_forward_covers lib c d tn data i = (case get_type (c_schema c) tn of
      None \<Rightarrow> ok data
    | Some td \<Rightarrow>
        if \<not> list_ex (\<lambda>fd. single_forward fd \<noteq> None) (td_fields td) then ok data
        else dbind (stored_fields lib data) (\<lambda>fs.
          dbind (nested_covers lib c d tn i (td_fields td) (fs, False)) (\<lambda>(fs', wrote_any).
          ok (if wrote_any then serialize_fields lib fs' else data))))"

text \<open>The other single relations of a source that are linked, with their targets.\<close>

fun other_targets ::
    "'j json_lib \<Rightarrow> catalog \<Rightarrow> kv \<Rightarrow> rtext \<Rightarrow> u64 \<Rightarrow> rtext \<Rightarrow> FieldDef list \<Rightarrow> ('j, (FieldDef \<times> RelationType \<times> u64) list) eres" where
  "other_targets lib c m tn i f [] = ok []"
| "other_targets lib c m tn i f (fd # fds) =
     dbind (if fd_name fd = f then ok None
       else case (single_forward fd, rel_ids c (qual tn (fd_name fd))) of
         (Some rel, Some ri) \<Rightarrow> dbind (first_target lib m i ri) (\<lambda>t. ok (map_option (\<lambda>t. (fd, rel, t)) t))
       | _ \<Rightarrow> ok None) (\<lambda>o1.
     dbind (other_targets lib c m tn i f fds) (\<lambda>os. ok (case o1 of Some x \<Rightarrow> x # os | None \<Rightarrow> os)))"

fun peer_covers ::
    "'j json_lib \<Rightarrow> catalog \<Rightarrow> 'j db \<Rightarrow> (FieldDef \<times> RelationType \<times> u64) list \<Rightarrow> 'j FieldMap \<Rightarrow> ('j, 'j FieldMap) eres" where
  "peer_covers lib c d [] fs = ok fs"
| "peer_covers lib c d ((fd, rel, t) # os) fs =
     (case type_ids c (target_type rel) of
        None \<Rightarrow> peer_covers lib c d os fs
      | Some ti \<Rightarrow> (case kv_get (store d) (kb_object ti t) of
          None \<Rightarrow> peer_covers lib c d os fs
        | Some data \<Rightarrow>
            dbind (with_nested_forward_covers lib c d (target_type rel) data t) (\<lambda>nested.
            peer_covers lib c d os
              (AList.update (cover_v_name (fd_name fd)) (VU64 (object_version c d (target_type rel) t))
                (AList.update (cover_name (fd_name fd)) (VBytes nested) fs)))))"

definition build_covering_rev_value ::
    "'j json_lib \<Rightarrow> catalog \<Rightarrow> 'j db \<Rightarrow> rtext \<Rightarrow> u64 \<Rightarrow> bytes option \<Rightarrow> rtext \<Rightarrow> u64 \<Rightarrow> ('j, bytes) eres" where
  "build_covering_rev_value lib c d tn i data f t =
     dbind (case get_type (c_schema c) tn of
         Some td \<Rightarrow> other_targets lib c (store d) tn i f (td_fields td)
       | None \<Rightarrow> ok []) (\<lambda>others.
     if others = [] then ok []
     else dbind (case data of Some bs \<Rightarrow> stored_fields lib bs | None \<Rightarrow> ok []) (\<lambda>fs.
       let fs1 = AList.update (utf8 f) (VU64 t) fs;
           fs2 = foldl (\<lambda>m (fd, _, o1). AList.update (utf8 (fd_name fd)) (VU64 o1) m) fs1 others in
       dbind (peer_covers lib c d others fs2) (\<lambda>fs3. ok (serialize_fields lib fs3))))"

section \<open>Writing edges\<close>

fun check_edge_fields :: "RelationType \<Rightarrow> rtext \<Rightarrow> 'j FieldMap \<Rightarrow> ('j, unit) eres" where
  "check_edge_fields rel q [] = ok ()"
| "check_edge_fields rel q ((n, v) # fs) =
     (case find (\<lambda>e. utf8 (ef_name e) = n) (edge_fields rel) of
        None \<Rightarrow> err (FieldNotFound q n)
      | Some e \<Rightarrow> dbind (validate_edge_value e v) (\<lambda>_. check_edge_fields rel q fs))"

definition link_stage ::
    "'j json_lib \<Rightarrow> catalog \<Rightarrow> 'j db \<Rightarrow> rtext \<Rightarrow> u64 \<Rightarrow> rtext \<Rightarrow> u64 \<Rightarrow> 'j FieldMap option \<Rightarrow> ('j, writes) eres" where
  "link_stage lib c d tn i f t ef =
     dbind (resolve_type_id c tn) (\<lambda>source_ti.
     dbind (schema_type c tn) (\<lambda>td.
     dbind (live_field c tn td f) (\<lambda>fd.
     dbind (field_relation tn fd) (\<lambda>rel.
     dbind (case ef of Some fs \<Rightarrow> check_edge_fields rel (qual tn f) fs | None \<Rightarrow> ok ()) (\<lambda>_.
     dbind (resolve_type_id c (target_type rel)) (\<lambda>target_ti.
     case kv_get (store d) (kb_object source_ti i) of
       None \<Rightarrow> err (ObjectNotFound tn i)
     | Some data \<Rightarrow>
         if kv_get (store d) (kb_object target_ti t) = None then err (ObjectNotFound (target_type rel) t)
         else case rel_ids c (qual tn f) of
           None \<Rightarrow> None
         | Some ri \<Rightarrow>
             dbind (live_rel c tn f ri) (\<lambda>_.
             dbind (build_covering_rev_value lib c d tn i (Some data) f t) (\<lambda>rev_value.
             ok [(kb_edge i ri t, Some (case ef of Some fs \<Rightarrow> serialize_fields lib fs | None \<Rightarrow> [])),
                 (kb_reverse_edge t ri i, Some rev_value)]))))))))"

definition link ::
    "commit_io \<Rightarrow> 'j json_lib \<Rightarrow> catalog \<Rightarrow> 'j db \<Rightarrow> rtext \<Rightarrow> u64 \<Rightarrow> rtext \<Rightarrow> u64 \<Rightarrow> 'j FieldMap option \<Rightarrow> ('j, 'j db) eres" where
  "link io lib c d tn i f t ef = dbind (link_stage lib c d tn i f t ef) (\<lambda>ws. commit io ws d)"

definition unlink_stage :: "catalog \<Rightarrow> rtext \<Rightarrow> u64 \<Rightarrow> rtext \<Rightarrow> u64 \<Rightarrow> ('j, writes) eres" where
  "unlink_stage c tn i f t =
     dbind (resolve_type_id c tn) (\<lambda>_.
     dbind (rel_id_of c tn f) (\<lambda>ri.
     dbind (live_rel c tn f ri) (\<lambda>_.
     ok (tombstones [kb_edge i ri t, kb_reverse_edge t ri i]))))"

definition unlink :: "commit_io \<Rightarrow> catalog \<Rightarrow> 'j db \<Rightarrow> rtext \<Rightarrow> u64 \<Rightarrow> rtext \<Rightarrow> u64 \<Rightarrow> ('j, 'j db) eres" where
  "unlink io c d tn i f t = dbind (unlink_stage c tn i f t) (\<lambda>ws. commit io ws d)"


section \<open>Edge keys\<close>

lemmas edge_key_defs = layout SEPARATOR_def

lemma edge_keys_inject [simp]:
  "kb_edge s r t = kb_edge s' r' t' \<longleftrightarrow> s = s' \<and> r = r' \<and> t = t'"
  "kb_reverse_edge t r s = kb_reverse_edge t' r' s' \<longleftrightarrow> t = t' \<and> r = r' \<and> s = s'"
  "kb_edge s r t \<noteq> kb_reverse_edge t' r' s'"
  "kb_reverse_edge t' r' s' \<noteq> kb_edge s r t"
  by (auto simp: edge_key_defs)

lemma edge_key_prefix [simp]:
  "prefix (kb_edge_prefix s r) (kb_edge s' r' t) \<longleftrightarrow> s = s' \<and> r = r'"
  "prefix (kb_reverse_edge_prefix t r) (kb_reverse_edge t' r' s') \<longleftrightarrow> t = t' \<and> r = r'"
  by (auto simp: edge_key_defs)

lemma edge_key_length [simp]: "length (kb_edge s r t) = 28" "length (kb_reverse_edge t r s) = 28"
  by (simp_all add: edge_key_defs)

lemma tail_id_edge [simp]: "tail_id (kb_edge s r t) = t" "tail_id (kb_reverse_edge t r s) = s"
  by (simp_all add: tail_id_def edge_key_defs)

text \<open>The keys of a store under the edge prefixes are edge keys.\<close>

definition edge_key_ok :: "bytes \<Rightarrow> bool" where
  "edge_key_ok k \<longleftrightarrow>
     (\<forall>s r. prefix (kb_edge_prefix s r) k \<longrightarrow> (\<exists>t. k = kb_edge s r t)) \<and>
     (\<forall>t r. prefix (kb_reverse_edge_prefix t r) k \<longrightarrow> (\<exists>s. k = kb_reverse_edge t r s))"

definition edge_keys_ok :: "kv \<Rightarrow> bool" where
  "edge_keys_ok m \<longleftrightarrow> (\<forall>k. kv_get m k \<noteq> None \<longrightarrow> edge_key_ok k)"

definition store_ok :: "kv \<Rightarrow> bool" where
  "store_ok m \<longleftrightarrow> kv_ok m \<and> edge_keys_ok m"

text \<open>The two halves of a link.\<close>

definition present :: "kv \<Rightarrow> bytes \<Rightarrow> bool" where
  "present m k \<longleftrightarrow> kv_get m k \<noteq> None"

definition linked :: "kv \<Rightarrow> u64 \<Rightarrow> u64 \<Rightarrow> u64 \<Rightarrow> bool" where
  "linked m s r t \<longleftrightarrow> present m (kb_edge s r t)"

definition rev_linked :: "kv \<Rightarrow> u64 \<Rightarrow> u64 \<Rightarrow> u64 \<Rightarrow> bool" where
  "rev_linked m s r t \<longleftrightarrow> present m (kb_reverse_edge t r s)"

definition edges_paired :: "kv \<Rightarrow> bool" where
  "edges_paired m \<longleftrightarrow> (\<forall>s r t. linked m s r t \<longleftrightarrow> rev_linked m s r t)"

lemma forward_scan_ids:
  assumes "store_ok m"
  shows "t \<in> fst ` set (scan_prefix_raw m (kb_edge_prefix s r)) \<longleftrightarrow> linked m s r t"
proof
  assume "t \<in> fst ` set (scan_prefix_raw m (kb_edge_prefix s r))"
  then obtain k v where k: "(k, v) \<in> set (kv_scan m (kb_edge_prefix s r))" "t = tail_id k"
    by (auto simp: scan_prefix_raw_def)
  then have "prefix (kb_edge_prefix s r) k" and g: "kv_get m k = Some v"
    using assms by (simp_all add: kv_scan_iff store_ok_def)
  then have "\<exists>t. k = kb_edge s r t" using assms by (simp add: store_ok_def edge_keys_ok_def edge_key_ok_def)
  then show "linked m s r t" using k g by (auto simp: linked_def present_def)
next
  assume "linked m s r t"
  then obtain v where "kv_get m (kb_edge s r t) = Some v" by (auto simp: linked_def present_def)
  then have "(kb_edge s r t, v) \<in> set (kv_scan m (kb_edge_prefix s r))"
    using assms by (simp add: kv_scan_iff store_ok_def)
  then show "t \<in> fst ` set (scan_prefix_raw m (kb_edge_prefix s r))"
    by (force simp: scan_prefix_raw_def)
qed

lemma reverse_scan_ids:
  assumes "store_ok m"
  shows "s \<in> fst ` set (scan_prefix_raw m (kb_reverse_edge_prefix t r)) \<longleftrightarrow> rev_linked m s r t"
proof
  assume "s \<in> fst ` set (scan_prefix_raw m (kb_reverse_edge_prefix t r))"
  then obtain k v where k: "(k, v) \<in> set (kv_scan m (kb_reverse_edge_prefix t r))" "s = tail_id k"
    by (auto simp: scan_prefix_raw_def)
  then have "prefix (kb_reverse_edge_prefix t r) k" and g: "kv_get m k = Some v"
    using assms by (simp_all add: kv_scan_iff store_ok_def)
  then have "\<exists>s. k = kb_reverse_edge t r s" using assms by (simp add: store_ok_def edge_keys_ok_def edge_key_ok_def)
  then show "rev_linked m s r t" using k g by (auto simp: rev_linked_def present_def)
next
  assume "rev_linked m s r t"
  then obtain v where "kv_get m (kb_reverse_edge t r s) = Some v" by (auto simp: rev_linked_def present_def)
  then have "(kb_reverse_edge t r s, v) \<in> set (kv_scan m (kb_reverse_edge_prefix t r))"
    using assms by (simp add: kv_scan_iff store_ok_def)
  then show "s \<in> fst ` set (scan_prefix_raw m (kb_reverse_edge_prefix t r))"
    by (force simp: scan_prefix_raw_def)
qed


lemma edge_keys_are_ok [simp]: "edge_key_ok (kb_edge s r t)" "edge_key_ok (kb_reverse_edge t r s)"
  by (auto simp: edge_key_ok_def edge_key_defs)

section \<open>Batches that keep edges in pairs\<close>

text \<open>What a batch does to a key: nothing, a value, or a tombstone.\<close>

definition batch_at :: "writes \<Rightarrow> bytes \<Rightarrow> bool option" where
  "batch_at ws k = map_option (\<lambda>w. w \<noteq> None) (map_of (rev ws) k)"

definition paired_batch :: "writes \<Rightarrow> bool" where
  "paired_batch ws \<longleftrightarrow> (\<forall>s r t. batch_at ws (kb_edge s r t) = batch_at ws (kb_reverse_edge t r s))"

definition keys_batch :: "writes \<Rightarrow> bool" where
  "keys_batch ws \<longleftrightarrow> (\<forall>w \<in> set ws. snd w \<noteq> None \<longrightarrow> edge_key_ok (fst w))"

lemma present_after:
  "kv_ok m \<Longrightarrow> present (kv_apply ws m) k = (case batch_at ws k of Some b \<Rightarrow> b | None \<Rightarrow> present m k)"
  by (auto simp: present_def kv_get_apply batch_at_def split: option.splits)

lemma paired_batch_apply: "kv_ok m \<Longrightarrow> edges_paired m \<Longrightarrow> paired_batch ws \<Longrightarrow> edges_paired (kv_apply ws m)"
  by (simp add: edges_paired_def linked_def rev_linked_def present_after paired_batch_def split: option.split)

lemma store_ok_apply:
  assumes "store_ok m" "keys_batch ws"
  shows "store_ok (kv_apply ws m)"
proof -
  have "edge_key_ok k" if "kv_get (kv_apply ws m) k = Some v" for k v
  proof (cases "map_of (rev ws) k")
    case None
    then show ?thesis using that assms(1) by (auto simp: kv_get_apply store_ok_def edge_keys_ok_def)
  next
    case (Some w)
    then have "(k, Some v) \<in> set ws" using that assms(1) map_of_SomeD [OF Some] by (simp add: kv_get_apply store_ok_def)
    then show ?thesis using assms(2) by (force simp: keys_batch_def)
  qed
  then show ?thesis using assms(1) by (auto simp: store_ok_def edge_keys_ok_def)
qed

lemma batch_at_tombstones: "batch_at (tombstones ks) k = (if k \<in> set ks then Some False else None)"
  by (induction ks) (auto simp: batch_at_def tombstones_def map_add_def split: option.splits if_splits)

lemma batch_at_append: "batch_at (vs @ ws) k = (case batch_at ws k of Some b \<Rightarrow> Some b | None \<Rightarrow> batch_at vs k)"
  by (simp add: batch_at_def map_add_def split: option.split)

lemma paired_tombstones:
  "paired_batch (tombstones ks) \<longleftrightarrow> (\<forall>s r t. kb_edge s r t \<in> set ks \<longleftrightarrow> kb_reverse_edge t r s \<in> set ks)"
  by (auto simp: paired_batch_def batch_at_tombstones split: if_splits)

lemma keys_tombstones [simp]: "keys_batch (tombstones ks)"
  by (auto simp: keys_batch_def tombstones_def)

definition landed :: "writes \<Rightarrow> 'j db \<Rightarrow> 'j db" where
  "landed ws d = d\<lparr>store := kv_apply ws (store d), store_version := store_version d + (if ws = [] then 0 else 1)\<rparr>"

lemma landed_fields [simp]:
  "store (landed ws d) = kv_apply ws (store d)" "next_object_id (landed ws d) = next_object_id d"
  "version_counters (landed ws d) = version_counters d"
  by (simp_all add: landed_def)

definition lands :: "commit_io \<Rightarrow> writes \<Rightarrow> bool" where
  "lands io ws \<longleftrightarrow> (ws \<noteq> [] \<longrightarrow> io = Lands)"

lemma commit_ok: "commit io ws d = ok d' \<longleftrightarrow> lands io ws \<and> d' = landed ws d"
  by (auto simp: commit_def landed_def lands_def split: commit_io.split)

lemma paired_batch_link: "paired_batch [(kb_edge s r t, Some v), (kb_reverse_edge t r s, Some w)]"
  by (simp add: paired_batch_def batch_at_def)

lemma link_stage_okE:
  assumes "link_stage lib c d tn i f t ef = ok ws"
  obtains ti td fd rel tti ri v where "type_live c tn ti" "get_type (c_schema c) tn = Some td"
    "get_field td f = Some fd" "fd_field_type fd = Relation rel" "present (store d) (kb_object ti i)"
    "type_live c (target_type rel) tti" "present (store d) (kb_object tti t)" "rel_ids c (qual tn f) = Some ri"
    "ws = [(kb_edge i ri t, Some (case ef of Some fs \<Rightarrow> serialize_fields lib fs | None \<Rightarrow> [])), (kb_reverse_edge t ri i, Some v)]"
proof -
  obtain ti td fd rel tti where 1: "type_live c tn ti" "get_type (c_schema c) tn = Some td" "get_field td f = Some fd"
      "fd_field_type fd = Relation rel"
      "type_live c (target_type rel) tti"
    and rest: "(case kv_get (store d) (kb_object ti i) of
       None \<Rightarrow> err (ObjectNotFound tn i)
     | Some data \<Rightarrow>
         if kv_get (store d) (kb_object tti t) = None then err (ObjectNotFound (target_type rel) t)
         else case rel_ids c (qual tn f) of
           None \<Rightarrow> None
         | Some ri \<Rightarrow>
             dbind (live_rel c tn f ri) (\<lambda>_.
             dbind (build_covering_rev_value lib c d tn i (Some data) f t) (\<lambda>rev_value.
             ok [(kb_edge i ri t, Some (case ef of Some fs \<Rightarrow> serialize_fields lib fs | None \<Rightarrow> [])),
                 (kb_reverse_edge t ri i, Some rev_value)]))) = ok ws"
    using assms unfolding link_stage_def dbind_ok lookup_ok by blast
  obtain data ri where 3: "kv_get (store d) (kb_object ti i) = Some data" "kv_get (store d) (kb_object tti t) \<noteq> None"
      "rel_ids c (qual tn f) = Some ri"
    using rest by (auto split: option.splits if_splits)
  then obtain v where
    "ws = [(kb_edge i ri t, Some (case ef of Some fs \<Rightarrow> serialize_fields lib fs | None \<Rightarrow> [])), (kb_reverse_edge t ri i, Some v)]"
    using rest by (auto simp: dbind_ok)
  with 1 3 show thesis by (intro that) (auto simp: present_def)
qed

lemma link_keeps_edges:
  assumes "store_ok (store d)" "edges_paired (store d)" "link io lib c d tn i f t ef = ok d'"
  shows "store_ok (store d') \<and> edges_paired (store d')"
proof -
  obtain ws where ws: "link_stage lib c d tn i f t ef = ok ws" and d': "store d' = kv_apply ws (store d)"
    using assms(3) by (auto simp: link_def dbind_ok commit_ok)
  from ws have "keys_batch ws" "paired_batch ws"
    by (auto elim!: link_stage_okE simp: keys_batch_def paired_batch_link)
  then show ?thesis using assms d' by (simp add: store_ok_apply paired_batch_apply store_ok_def [THEN iffD1])
qed

lemma unlink_keeps_edges:
  assumes "store_ok (store d)" "edges_paired (store d)" "unlink io c d tn i f t = ok d'"
  shows "store_ok (store d') \<and> edges_paired (store d')"
proof -
  obtain ri where d': "store d' = kv_apply (tombstones [kb_edge i ri t, kb_reverse_edge t ri i]) (store d)"
    using assms(3) by (auto simp: unlink_def unlink_stage_def dbind_ok commit_ok)
  have "paired_batch (tombstones [kb_edge i ri t, kb_reverse_edge t ri i])"
    by (auto simp: paired_tombstones)
  then show ?thesis using assms d' by (simp add: store_ok_apply paired_batch_apply store_ok_def [THEN iffD1])
qed

section \<open>Reading links\<close>

lemma each_ok: "each f xs = ok ys \<longleftrightarrow> list_all2 (\<lambda>x y. f x = ok y) xs ys"
  by (induction xs arbitrary: ys) (auto simp: dbind_ok list_all2_Cons1)

lemma each_set: "each f xs = ok ys \<Longrightarrow> y \<in> set ys \<longleftrightarrow> (\<exists>x \<in> set xs. f x = ok y)"
  by (induction xs arbitrary: ys) (auto simp: dbind_ok)

lemma each_total: "(\<exists>ys. each f xs = ok ys) \<longleftrightarrow> (\<forall>x \<in> set xs. \<exists>y. f x = ok y)"
  by (induction xs) (auto simp: dbind_ok)

lemma forward_entries:
  assumes "store_ok m"
  shows "(k, v) \<in> set (filter (\<lambda>e. 8 \<le> length (fst e)) (kv_scan m (kb_edge_prefix s r))) \<longleftrightarrow>
    (\<exists>t. k = kb_edge s r t \<and> kv_get m k = Some v)"
proof -
  have "(\<exists>t. k = kb_edge s r t) \<longleftrightarrow> prefix (kb_edge_prefix s r) k" if "kv_get m k = Some v"
    using that assms by (auto simp: store_ok_def edge_keys_ok_def edge_key_ok_def)
  then show ?thesis using assms by (auto simp: kv_scan_iff store_ok_def)
qed

lemma scan_links:
  assumes "store_ok m" "scan_prefix lib m (kb_edge_prefix s r) = ok l"
  shows "(t, fs) \<in> set l \<longleftrightarrow> (\<exists>v. kv_get m (kb_edge s r t) = Some v \<and> edge_value lib v = ok fs)"
proof -
  have "(t, fs) \<in> set l \<longleftrightarrow> (\<exists>(k, v) \<in> set (filter (\<lambda>e. 8 \<le> length (fst e)) (kv_scan m (kb_edge_prefix s r))).
      dbind (edge_value lib v) (\<lambda>fs. ok (tail_id k, fs)) = ok (t, fs))"
    using each_set [OF assms(2) [unfolded scan_prefix_def decode_edge_entries_def]] by (auto simp: split_beta)
  also have "\<dots> \<longleftrightarrow> (\<exists>k v. (\<exists>t. k = kb_edge s r t \<and> kv_get m k = Some v) \<and> edge_value lib v = ok fs \<and> tail_id k = t)"
    unfolding forward_entries [OF assms(1), symmetric] by (auto simp: dbind_ok)
  also have "\<dots> \<longleftrightarrow> (\<exists>v. kv_get m (kb_edge s r t) = Some v \<and> edge_value lib v = ok fs)"
    by (metis tail_id_edge(1))
  finally show ?thesis .
qed

lemma scan_links_total:
  assumes "store_ok m"
  shows "(\<exists>l. scan_prefix lib m (kb_edge_prefix s r) = ok l) \<longleftrightarrow>
    (\<forall>t v. kv_get m (kb_edge s r t) = Some v \<longrightarrow> (\<exists>fs. edge_value lib v = ok fs))"
proof -
  have "(\<exists>l. scan_prefix lib m (kb_edge_prefix s r) = ok l) \<longleftrightarrow>
      (\<forall>k v. (\<exists>t. k = kb_edge s r t \<and> kv_get m k = Some v) \<longrightarrow> (\<exists>fs. edge_value lib v = ok fs))"
    unfolding forward_entries [OF assms, symmetric] scan_prefix_def decode_edge_entries_def each_total
    by (auto simp: dbind_ok)
  then show ?thesis by metis
qed

lemma get_links_forward:
  assumes "get_type (c_schema c) tn = Some td" "get_field td f = Some fd" "fd_inverse fd = None" "type_live c tn ti"
    "rel_ids c (qual tn f) = Some r"
  shows "get_links lib c d tn i f = scan_prefix lib (store d) (kb_edge_prefix i r)"
proof -
  have "fd_name fd = f" using assms(2) by (auto simp: get_field_def find_Some_iff)
  then show ?thesis using assms
    by (simp add: get_links_def read_relation_def link_prefix_def iffD2 [OF lookup_ok(1)] schema_type_def live_field_def rel_id_of_def)
qed

lemma edge_value_written:
  assumes "case ef of Some fs \<Rightarrow> fields_ok lib fs \<and> length (serialize_fields lib fs) < 2 ^ 64 | None \<Rightarrow> True"
  shows "edge_value lib (case ef of Some fs \<Rightarrow> serialize_fields lib fs | None \<Rightarrow> []) = ok (case ef of Some fs \<Rightarrow> fs | None \<Rightarrow> [])"
proof (cases ef)
  case (Some fs)
  then have "2 \<le> length (serialize_fields lib fs)" using assms read_count(2) by auto
  then have "serialize_fields lib fs \<noteq> []" by auto
  then show ?thesis using assms Some by (simp add: edge_value_def stored_fields_def deserialize_serialize)
qed (simp add: edge_value_def)

lemma link_read_back:
  assumes ok: "store_ok (store d)" and l: "link Lands lib c d tn i f t ef = ok d'"
    and td: "get_type (c_schema c) tn = Some td" "get_field td f = Some fd" "fd_inverse fd = None"
    and before: "get_links lib c d tn i f = ok l"
    and ef: "case ef of Some fs \<Rightarrow> fields_ok lib fs \<and> length (serialize_fields lib fs) < 2 ^ 64 | None \<Rightarrow> True"
  shows "\<exists>l'. get_links lib c d' tn i f = ok l' \<and>
    set l' = insert (t, case ef of Some fs \<Rightarrow> fs | None \<Rightarrow> []) {e \<in> set l. fst e \<noteq> t}"
proof -
  obtain ws where ws: "link_stage lib c d tn i f t ef = ok ws" and d': "store d' = kv_apply ws (store d)"
    using l by (auto simp: link_def dbind_ok commit_ok)
  from ws obtain ti r v where c: "type_live c tn ti" "rel_ids c (qual tn f) = Some r"
    and ws: "ws = [(kb_edge i r t, Some (case ef of Some fs \<Rightarrow> serialize_fields lib fs | None \<Rightarrow> [])), (kb_reverse_edge t r i, Some v)]"
    by (elim link_stage_okE) blast
  note gl = get_links_forward [OF td c, of lib _ i]
  have ok': "store_ok (store d')" using ok ws d' by (auto simp: keys_batch_def intro!: store_ok_apply)
  have g: "kv_get (store d') (kb_edge i r u) =
      (if u = t then Some (case ef of Some fs \<Rightarrow> serialize_fields lib fs | None \<Rightarrow> []) else kv_get (store d) (kb_edge i r u))" for u
    using ok ws d' by (simp add: store_ok_def kv_get_apply)
  have "\<exists>l'. get_links lib c d' tn i f = ok l'"
    using before edge_value_written [OF ef] scan_links_total [OF ok, of lib i r] unfolding gl scan_links_total [OF ok'] g by auto
  then obtain l' where l': "get_links lib c d' tn i f = ok l'" ..
  have "(u, fs) \<in> set l' \<longleftrightarrow> (u, fs) \<in> insert (t, case ef of Some fs \<Rightarrow> fs | None \<Rightarrow> []) {e \<in> set l. fst e \<noteq> t}" for u fs
    using scan_links [OF ok' l' [unfolded gl], of u fs] scan_links [OF ok before [unfolded gl], of u fs] edge_value_written [OF ef]
    by (auto simp: g split: if_splits)
  then show ?thesis using l' by auto
qed

section \<open>Inverse fields\<close>

lemma kv_scan_put_other:
  assumes "\<not> prefix p k" "kv_ok m"
  shows "kv_scan (kv_put k v m) p = kv_scan m p"
  using assms(2)
proof (induction m)
  case (Cons e m)
  then have "\<forall>e' \<in> set m. fst e < fst e'" "kv_scan (kv_put k v m) p = kv_scan m p" by (simp_all add: kv_ok_Cons)
  then show ?case using assms(1) by (auto simp: kv_put_Cons kv_scan_def dropWhile_above)
qed (simp add: kv_scan_def assms(1))

lemma link_through_inverse:
  assumes ok: "store_ok (store d)" and l: "link io lib c d tn i f t ef = ok d'"
    and fd: "get_type (c_schema c) tn = Some td" "get_field td f = Some fd" "fd_inverse fd = Some iv"
    and r: "rel_ids c (qual tn f) = Some r" "rel_ids c (qual (inv_type_name iv) (inv_field_name iv)) = Some r'" "r \<noteq> r'"
  shows "get_links lib c d' tn i f = get_links lib c d tn i f"
proof -
  obtain ws where ws: "link_stage lib c d tn i f t ef = ok ws" and d': "store d' = kv_apply ws (store d)"
    using l by (auto simp: link_def dbind_ok commit_ok)
  from ws r(1) obtain v w where ws: "ws = [(kb_edge i r t, Some v), (kb_reverse_edge t r i, Some w)]"
    by (elim link_stage_okE) auto
  have np: "\<not> prefix (kb_reverse_edge_prefix i r') (kb_edge i r t)" by (auto simp: edge_key_defs)
  have "kv_scan (store d') (kb_reverse_edge_prefix i r') = kv_scan (store d) (kb_reverse_edge_prefix i r')"
    using ok r(3) by (simp add: d' ws kv_apply_Cons kv_write_def kv_scan_put_other np store_ok_def)
  then have "scan_prefix lib (store d') (kb_reverse_edge_prefix i r') = scan_prefix lib (store d) (kb_reverse_edge_prefix i r')"
    by (simp add: scan_prefix_def)
  moreover have "read_relation c tn fd = (ok (r', True) :: ('a, _) eres)" using fd(3) r(2) by (simp add: read_relation_def rel_id_of_def)
  ultimately show ?thesis
    by (cases "resolve_type_id c tn :: ('a, _) eres" rule: option.exhaust)
      (auto simp: get_links_def dbind_def schema_type_def live_field_def fd(1,2) link_prefix_def split: option.splits sum.splits)
qed

end
