(* ===== verification/Engine_Objects.thy ===== *)
theory Engine_Objects
  imports Engine_Links
begin

text \<open>
  Objects: \<^verbatim>\<open>create\<close>, \<^verbatim>\<open>create_batch\<close>, \<^verbatim>\<open>get\<close>, \<^verbatim>\<open>get_many\<close>, \<^verbatim>\<open>update\<close> and the background refresh of covers of
  \<^verbatim>\<open>rhypedb-engine/src/database.rs\<close>, with the unique, secondary and full-text index rows they maintain. An
  operation that changes memory before its commit returns the state beside its result.
\<close>

section \<open>Index keys\<close>

text \<open>The cast of an \<^verbatim>\<open>f32\<close> to \<^verbatim>\<open>f64\<close>, on bit patterns: it is exact.\<close>

definition widen_f32 :: "u32 \<Rightarrow> u64" where
  "widen_f32 v = (let s = push_bit 63 (ucast (drop_bit 31 v)); e = take_bit 8 (drop_bit 23 v); m = take_bit 23 v in
     s OR (if e = 255 then push_bit 52 2047 OR push_bit 29 (ucast m)
       else if e = 0 then (case find (\<lambda>k. bit m k) (rev [0..<23]) of
           None \<Rightarrow> 0
         | Some k \<Rightarrow> push_bit 52 (of_nat (874 + k)) OR push_bit (52 - k) (ucast (m - 2 ^ k)))
       else push_bit 52 (ucast e + 896) OR push_bit 29 (ucast m)))"

definition encode_float_for_index :: "'j Value \<Rightarrow> bytes option" where
  "encode_float_for_index v = (case v of
      VF32 n \<Rightarrow> Some (encode_f64_for_index (widen_f32 n))
    | VF64 n \<Rightarrow> Some (encode_f64_for_index n)
    | _ \<Rightarrow> None)"

definition build_field_index_key :: "u64 \<Rightarrow> u64 \<Rightarrow> IndexedKind \<Rightarrow> 'j Value \<Rightarrow> u64 \<Rightarrow> bytes option" where
  "build_field_index_key ti fi kind v i = (case kind of
      KInteger \<Rightarrow> map_option (\<lambda>e. kb_field_index ti fi e i) (encode_int_for_zone v)
    | KBool \<Rightarrow> map_option (\<lambda>e. kb_field_index ti fi e i) (encode_bool_for_index v)
    | KFloat \<Rightarrow> map_option (\<lambda>e. kb_field_index ti fi e i) (encode_float_for_index v)
    | KString \<Rightarrow> (case v of VString s \<Rightarrow> Some (kb_field_index_var ti fi (encode_str_for_index s) i) | _ \<Rightarrow> None)
    | KBytes \<Rightarrow> (case v of VBytes b \<Rightarrow> Some (kb_field_index_var ti fi (encode_bytes_for_index b) i) | _ \<Rightarrow> None))"

text \<open>The value of a field, when it is there and not null.\<close>

definition non_null :: "'j FieldMap \<Rightarrow> bytes \<Rightarrow> 'j Value option" where
  "non_null fs n = (case map_of fs n of Some v \<Rightarrow> if v = VNull then None else Some v | None \<Rightarrow> None)"

definition index_put :: "u64 \<Rightarrow> u64 \<Rightarrow> bytes \<Rightarrow> 'j FieldMap \<Rightarrow> IndexedField \<Rightarrow> (bytes \<times> bytes) option" where
  "index_put ti i covering fs ifd = Option.bind (non_null fs (utf8 (ifd_name ifd))) (\<lambda>v.
     map_option (\<lambda>k. (k, covering)) (build_field_index_key ti (ifd_field_id ifd) (ifd_kind ifd) v i))"

definition json_bytes :: "'j json_lib \<Rightarrow> 'j \<Rightarrow> bytes" where
  "json_bytes lib j = (case js_to_vec lib j of Some b \<Rightarrow> b | None \<Rightarrow> [])"

text \<open>The map \<^verbatim>\<open>field_ids\<close> panics on a missing name.\<close>

definition unique_key :: "'j json_lib \<Rightarrow> catalog \<Rightarrow> rtext \<Rightarrow> u64 \<Rightarrow> rtext \<Rightarrow> 'j Value \<Rightarrow> bytes option" where
  "unique_key lib c tn ti f v = map_option (\<lambda>fi. kb_unique_index ti fi (value_to_index_bytes (json_bytes lib) v)) (field_ids c (qual tn f))"

text \<open>\<open>staged\<close> holds the unique values claimed by the rows of this transaction.\<close>

type_synonym staging = "writes \<times> (bytes \<rightharpoonup> u64)"

definition check_unique_and_insert ::
    "'j json_lib \<Rightarrow> catalog \<Rightarrow> kv \<Rightarrow> rtext \<Rightarrow> u64 \<Rightarrow> rtext \<Rightarrow> 'j Value \<Rightarrow> u64 \<Rightarrow> staging \<Rightarrow> ('j, staging) eres" where
  "check_unique_and_insert lib c m tn ti f v i st = (case unique_key lib c tn ti f v of
      None \<Rightarrow> None
    | Some k \<Rightarrow>
        if (case snd st k of Some j \<Rightarrow> j \<noteq> i | None \<Rightarrow> False) then err (UniqueViolation tn (utf8 f) v)
        else case storage_get c m k of
          Some existing \<Rightarrow>
            if length existing < 8 then None
            else if be_u64 (take 8 existing) \<noteq> i then err (UniqueViolation tn (utf8 f) v)
            else ok (fst st @ [(k, Some (u64_be i))], (snd st)(k \<mapsto> i))
        | None \<Rightarrow> ok (fst st @ [(k, Some (u64_be i))], (snd st)(k \<mapsto> i)))"

definition remove_unique_index :: "'j json_lib \<Rightarrow> catalog \<Rightarrow> rtext \<Rightarrow> u64 \<Rightarrow> rtext \<Rightarrow> 'j Value \<Rightarrow> staging \<Rightarrow> ('j, staging) eres" where
  "remove_unique_index lib c tn ti f v st = (case unique_key lib c tn ti f v of
      None \<Rightarrow> None
    | Some k \<Rightarrow> ok (fst st @ [(k, None)], snd st))"

section \<open>Creating objects\<close>

record create_link =
  lk_field :: rtext
  lk_target :: u64
  lk_target_type :: rtext
  lk_target_data :: bytes
  lk_target_version :: u64
  lk_rel_id :: u64
  lk_is_1to1_forward :: bool

definition field_named :: "TypeDef \<Rightarrow> bytes \<Rightarrow> FieldDef option" where
  "field_named td n = find (\<lambda>fd. utf8 (fd_name fd) = n) (td_fields td)"

fun link_target :: "'j Value \<Rightarrow> u64 option" where
  "link_target (VU64 v) = Some v"
| "link_target (VU32 v) = Some (ucast v)"
| "link_target (VI32 v) = (if 0 \<le> sint v then Some (ucast v) else None)"
| "link_target (VI64 v) = (if 0 \<le> sint v then Some v else None)"
| "link_target _ = None"

definition inline_link :: "catalog \<Rightarrow> 'j db \<Rightarrow> rtext \<Rightarrow> FieldDef \<Rightarrow> RelationType \<Rightarrow> 'j Value \<Rightarrow> ('j, create_link) eres" where
  "inline_link c d tn fd rel v = (case link_target v of
      None \<Rightarrow> err (TypeMismatch (fd_name fd) (lit ''relation target id (non-negative integer)'') (type_name v))
    | Some t \<Rightarrow> (case type_ids c (target_type rel) of
        None \<Rightarrow> err (TypeNotFound (target_type rel))
      | Some tti \<Rightarrow> (case kv_get (store d) (kb_object tti t) of
          None \<Rightarrow> err (ObjectNotFound (target_type rel) t)
        | Some data \<Rightarrow> dbind (rel_id_of c tn (fd_name fd)) (\<lambda>ri.
            ok \<lparr>lk_field = fd_name fd, lk_target = t, lk_target_type = target_type rel, lk_target_data = data,
                lk_target_version = object_version c d (target_type rel) t, lk_rel_id = ri, lk_is_1to1_forward = \<not> is_many rel\<rparr>))))"

fun split_fields ::
    "catalog \<Rightarrow> 'j db \<Rightarrow> rtext \<Rightarrow> TypeDef \<Rightarrow> 'j FieldMap \<Rightarrow> 'j FieldMap \<times> create_link list \<Rightarrow> ('j, 'j FieldMap \<times> create_link list) eres" where
  "split_fields c d tn td [] acc = ok acc"
| "split_fields c d tn td ((n, v) # fs) acc = (case field_named td n of
      None \<Rightarrow> err (FieldNotFound tn n)
    | Some fd \<Rightarrow> dbind (validate_value fd v) (\<lambda>_. case fd_field_type fd of
        Relation rel \<Rightarrow>
          if fd_inverse fd \<noteq> None then err (TypeMismatch (fd_name fd) (lit ''scalar (inverse fields are virtual)'') (type_name v))
          else if v = VNull then split_fields c d tn td fs acc
          else dbind (inline_link c d tn fd rel v) (\<lambda>l. split_fields c d tn td fs (fst acc, snd acc @ [l]))
      | Scalar _ \<Rightarrow> split_fields c d tn td fs (AList.update n v (fst acc), snd acc)
      | Schema.Vector _ \<Rightarrow> err (TypeMismatch (fd_name fd) (lit ''scalar or relation'') (type_name v))))"

fun inflight_peers :: "'j json_lib \<Rightarrow> catalog \<Rightarrow> 'j db \<Rightarrow> create_link list \<Rightarrow> 'j FieldMap \<Rightarrow> ('j, 'j FieldMap) eres" where
  "inflight_peers lib c d [] fs = ok fs"
| "inflight_peers lib c d (l # ls) fs =
     dbind (with_nested_forward_covers lib c d (lk_target_type l) (lk_target_data l) (lk_target l)) (\<lambda>nested.
     inflight_peers lib c d ls
       (AList.update (cover_v_name (lk_field l)) (VU64 (lk_target_version l))
         (AList.update (cover_name (lk_field l)) (VBytes nested) fs)))"

definition build_inflight_cover ::
    "'j json_lib \<Rightarrow> catalog \<Rightarrow> 'j db \<Rightarrow> 'j FieldMap \<Rightarrow> create_link list \<Rightarrow> nat \<Rightarrow> ('j, bytes) eres" where
  "build_inflight_cover lib c d scalars links idx =
     (let others = map snd (filter (\<lambda>(j, l). j \<noteq> idx \<and> lk_is_1to1_forward l) (zip [0..<length links] links));
          this = links ! idx in
      if others = [] then ok []
      else let fs1 = AList.update (utf8 (lk_field this)) (VU64 (lk_target this)) scalars;
               fs2 = foldl (\<lambda>m l. AList.update (utf8 (lk_field l)) (VU64 (lk_target l)) m) fs1 others in
        dbind (inflight_peers lib c d others fs2) (\<lambda>fs3. ok (serialize_fields lib fs3)))"

definition inline_edges ::
    "'j json_lib \<Rightarrow> catalog \<Rightarrow> 'j db \<Rightarrow> u64 \<Rightarrow> 'j FieldMap \<Rightarrow> create_link list \<Rightarrow> ('j, (bytes \<times> bytes) list) eres" where
  "inline_edges lib c d i scalars links =
     dbind (each (\<lambda>(idx, l). dbind (build_inflight_cover lib c d scalars links idx) (\<lambda>rev_value.
         ok [(kb_edge i (lk_rel_id l) (lk_target l), []), (kb_reverse_edge (lk_target l) (lk_rel_id l) i, rev_value)]))
       (zip [0..<length links] links)) (\<lambda>es. ok (concat es))"

fun claim_unique ::
    "'j json_lib \<Rightarrow> catalog \<Rightarrow> kv \<Rightarrow> rtext \<Rightarrow> TypeDef \<Rightarrow> u64 \<Rightarrow> u64 \<Rightarrow> 'j FieldMap \<Rightarrow> staging \<Rightarrow> ('j, staging) eres" where
  "claim_unique lib c m tn td ti i [] st = ok st"
| "claim_unique lib c m tn td ti i ((n, v) # fs) st = (case field_named td n of
      None \<Rightarrow> None
    | Some fd \<Rightarrow>
        dbind (if is_unique fd \<and> v \<noteq> VNull then check_unique_and_insert lib c m tn ti (fd_name fd) v i st else ok st) (\<lambda>st.
        claim_unique lib c m tn td ti i fs st))"

definition text_of :: "'j FieldMap \<Rightarrow> bytes \<Rightarrow> bytes option" where
  "text_of fs n = (case map_of fs n of Some (VString s) \<Rightarrow> Some s | _ \<Rightarrow> None)"

definition fulltext_docs :: "catalog \<Rightarrow> rtext \<Rightarrow> 'j FieldMap \<Rightarrow> (FulltextField \<times> IndexedDoc) list" where
  "fulltext_docs c tn fs = List.map_filter (\<lambda>ff. map_option (\<lambda>txt. (ff, tokenize_for_index ff txt)) (text_of fs (utf8 (ff_name ff))))
     (fulltext_fields c tn)"

text \<open>The rows of a new object, in the order they are written, without the unique entries.\<close>

definition object_rows ::
    "catalog \<Rightarrow> rtext \<Rightarrow> u64 \<Rightarrow> u64 \<Rightarrow> bytes \<Rightarrow> 'j FieldMap \<Rightarrow> (bytes \<times> bytes) list" where
  "object_rows c tn ti i serialized scalars =
     List.map_filter (index_put ti i serialized scalars) (indexed_fields c tn) @
     concat (map (\<lambda>(ff, doc). stage_doc_puts ti ff i doc) (fulltext_docs c tn scalars)) @
     [(kb_object ti i, serialized)]"

definition stage_create_writes ::
    "'j json_lib \<Rightarrow> catalog \<Rightarrow> 'j db \<Rightarrow> rtext \<Rightarrow> TypeDef \<Rightarrow> u64 \<Rightarrow> u64 \<Rightarrow> 'j FieldMap \<Rightarrow> staging \<Rightarrow> StatsDelta \<Rightarrow>
     ('j, 'j FieldMap \<times> (bytes \<times> bytes) list \<times> staging \<times> StatsDelta) eres" where
  "stage_create_writes lib c d tn td ti i fs st \<delta> =
     dbind (split_fields c d tn td fs ([], [])) (\<lambda>(scalars, links).
     let serialized = serialize_fields lib scalars in
     dbind (claim_unique lib c (store d) tn td ti i scalars st) (\<lambda>st.
     dbind (inline_edges lib c d i scalars links) (\<lambda>edges.
     ok (scalars, object_rows c tn ti i serialized scalars @ edges, st,
         foldl (\<lambda>\<delta> (ff, doc). delta_add ti (ff_field_id ff) 1 (uint (d_doc_len doc)) \<delta>) \<delta> (fulltext_docs c tn scalars)))))"

text \<open>A result with the state it leaves.\<close>

definition sbind :: "('j, 'a) eres \<Rightarrow> 'j db \<Rightarrow> ('a \<Rightarrow> ('j, 'b) eres \<times> 'j db) \<Rightarrow> ('j, 'b) eres \<times> 'j db" where
  "sbind r d k = (case r of None \<Rightarrow> (None, d) | Some (Inl e) \<Rightarrow> (err e, d) | Some (Inr x) \<Rightarrow> k x)"

definition publish :: "'j ChangeEvent list \<Rightarrow> 'j db \<Rightarrow> 'j db" where
  "publish evs d = d\<lparr>published := published d @ evs\<rparr>"

definition settle_stats :: "StatsDelta \<Rightarrow> 'j db \<Rightarrow> 'j db" where
  "settle_stats \<delta> d = d\<lparr>fulltext_stats := apply_fulltext_delta \<delta> (fulltext_stats d)\<rparr>"

definition mk_object :: "rtext \<Rightarrow> u64 \<Rightarrow> 'j FieldMap \<Rightarrow> 'j Object" where
  "mk_object tn i fs = \<lparr>ob_type_name = utf8 tn, ob_id = i, ob_fields = fs, ob_raw_fields = None\<rparr>"

definition event :: "u64 \<Rightarrow> ChangeKind \<Rightarrow> rtext \<Rightarrow> u64 \<Rightarrow> 'j FieldMap option \<Rightarrow> u64 option \<Rightarrow> 'j ChangeEvent" where
  "event ver kind tn i fs origin =
     \<lparr>ce_version = ver, ce_kind = kind, ce_type_name = tn, ce_object_id = i, ce_fields = fs, ce_origin = origin\<rparr>"

definition create_with_origin ::
    "commit_io \<Rightarrow> 'j json_lib \<Rightarrow> catalog \<Rightarrow> rtext \<Rightarrow> 'j FieldMap \<Rightarrow> u64 option \<Rightarrow> 'j db \<Rightarrow> ('j, 'j Object) eres \<times> 'j db" where
  "create_with_origin io lib c tn fs origin d =
     sbind (resolve_type_id c tn) d (\<lambda>ti.
     sbind (schema_type c tn) d (\<lambda>td.
     let i = next_object_id d; d1 = d\<lparr>next_object_id := i + 1\<rparr> in
     sbind (stage_create_writes lib c d1 tn td ti i fs ([], Map.empty) Map.empty) d1 (\<lambda>(scalars, rows, st, \<delta>).
     let d2 = bump_version ti i d1 in
     sbind (commit io (fst st @ puts rows) d2) (rollback_version ti i d2) (\<lambda>d3.
     (ok (mk_object tn i scalars),
      publish [event (store_version d3) ChCreate tn i (Some scalars) origin] (settle_stats \<delta> d3))))))"

fun stage_rows ::
    "'j json_lib \<Rightarrow> catalog \<Rightarrow> rtext \<Rightarrow> TypeDef \<Rightarrow> u64 \<Rightarrow> 'j FieldMap list \<Rightarrow>
     (u64 \<times> 'j FieldMap) list \<times> (bytes \<times> bytes) list \<times> staging \<times> StatsDelta \<Rightarrow> 'j db \<Rightarrow>
     ('j, (u64 \<times> 'j FieldMap) list \<times> (bytes \<times> bytes) list \<times> staging \<times> StatsDelta) eres \<times> 'j db" where
  "stage_rows lib c tn td ti [] acc d = (ok acc, d)"
| "stage_rows lib c tn td ti (fs # rows) (done, ps, st, \<delta>) d =
     (let i = next_object_id d; d1 = d\<lparr>next_object_id := i + 1\<rparr> in
      sbind (stage_create_writes lib c d1 tn td ti i fs st \<delta>) (foldl (\<lambda>d j. rollback_version ti j d) d1 (map fst done)) (\<lambda>(scalars, ps', st', \<delta>').
      stage_rows lib c tn td ti rows (done @ [(i, scalars)], ps @ ps', st', \<delta>') (bump_version ti i d1)))"

definition create_batch_with_origin ::
    "commit_io \<Rightarrow> 'j json_lib \<Rightarrow> catalog \<Rightarrow> rtext \<Rightarrow> 'j FieldMap list \<Rightarrow> u64 option \<Rightarrow> 'j db \<Rightarrow> ('j, 'j Object list) eres \<times> 'j db" where
  "create_batch_with_origin io lib c tn rows origin d =
     (if rows = [] then (ok [], d)
      else sbind (resolve_type_id c tn) d (\<lambda>ti.
        sbind (schema_type c tn) d (\<lambda>td.
        case stage_rows lib c tn td ti rows ([], [], ([], Map.empty), Map.empty) d of
          (r, d1) \<Rightarrow> sbind r d1 (\<lambda>(done, ps, st, \<delta>).
            sbind (commit io (fst st @ puts ps) d1) (foldl (\<lambda>d j. rollback_version ti j d) d1 (map fst done)) (\<lambda>d2.
            (ok (map (\<lambda>(i, fs). mk_object tn i fs) done),
             publish (map (\<lambda>(i, fs). event (store_version d2) ChCreate tn i (Some fs) origin) done) (settle_stats \<delta> d2)))))))"

section \<open>Reading objects\<close>

definition get :: "'j json_lib \<Rightarrow> catalog \<Rightarrow> 'j db \<Rightarrow> rtext \<Rightarrow> u64 \<Rightarrow> ('j, 'j Object) eres" where
  "get lib c d tn i =
     dbind (resolve_type_id c tn) (\<lambda>ti.
     case kv_get (store d) (kb_object ti i) of
       None \<Rightarrow> err (ObjectNotFound tn i)
     | Some data \<Rightarrow> dbind (stored_fields lib data) (\<lambda>fs. ok (mk_object tn i (strip_tombstoned_fields c tn fs))))"

definition sorted_ids :: "u64 list \<Rightarrow> u64 list" where
  "sorted_ids ids = remdups_adj (sort ids)"

definition get_many_at :: "'j json_lib \<Rightarrow> catalog \<Rightarrow> 'j db \<Rightarrow> rtext \<Rightarrow> u64 list \<Rightarrow> ('j, 'j Object list) eres" where
  "get_many_at lib c d tn ids =
     dbind (resolve_type_id c tn) (\<lambda>ti.
     each (\<lambda>(i, data). dbind (stored_fields lib data) (\<lambda>fs. ok (mk_object tn i (strip_tombstoned_fields c tn fs))))
       (List.map_filter (\<lambda>i. map_option (Pair i) (kv_get (store d) (kb_object ti i))) (sorted_ids ids)))"

definition get_many_lazy :: "'j json_lib \<Rightarrow> catalog \<Rightarrow> 'j db \<Rightarrow> rtext \<Rightarrow> u64 list \<Rightarrow> ('j, 'j Object list) eres" where
  "get_many_lazy lib c d tn ids =
     dbind (resolve_type_id c tn) (\<lambda>ti.
     each (\<lambda>(i, data).
         if retired_field_names_by_type c tn \<noteq> [] then
           dbind (stored_fields lib data) (\<lambda>fs. ok (mk_object tn i (strip_tombstoned_fields c tn fs)))
         else ok (from_raw (utf8 tn) i data))
       (List.map_filter (\<lambda>i. map_option (Pair i) (kv_get (store d) (kb_object ti i))) (sorted_ids ids)))"

section \<open>Updating objects\<close>

text \<open>\<^verbatim>\<open>PartialEq\<close> of \<^verbatim>\<open>Value\<close>: floats compare as IEEE numbers. A document compares by \<open>=\<close>.\<close>

fun value_eq :: "'j Value \<Rightarrow> 'j Value \<Rightarrow> bool" where
  "value_eq (VF64 a) v = (case v of VF64 b \<Rightarrow> f64_eq a b | _ \<Rightarrow> False)"
| "value_eq (VF32 a) v = (case v of VF32 b \<Rightarrow> f64_eq (widen_f32 a) (widen_f32 b) | _ \<Rightarrow> False)"
| "value_eq u v = (u = v)"

definition value_opt_eq :: "'j Value option \<Rightarrow> 'j Value option \<Rightarrow> bool" where
  "value_opt_eq a b \<longleftrightarrow> (case (a, b) of (Some u, Some v) \<Rightarrow> value_eq u v | (None, None) \<Rightarrow> True | _ \<Rightarrow> False)"

definition index_key_of :: "u64 \<Rightarrow> u64 \<Rightarrow> IndexedField \<Rightarrow> 'j Value option \<Rightarrow> bytes option" where
  "index_key_of ti i ifd vo = (case vo of
      Some v \<Rightarrow> if v = VNull then None else build_field_index_key ti (ifd_field_id ifd) (ifd_kind ifd) v i
    | None \<Rightarrow> None)"

definition index_writes :: "u64 \<Rightarrow> u64 \<Rightarrow> bytes \<Rightarrow> 'j FieldMap \<Rightarrow> 'j FieldMap \<Rightarrow> bool \<Rightarrow> IndexedField \<Rightarrow> writes" where
  "index_writes ti i serialized old_fs new_fs any_update ifd =
     (let old_v = map_of old_fs (utf8 (ifd_name ifd)); new_v = map_of new_fs (utf8 (ifd_name ifd));
          new_put = (case index_key_of ti i ifd new_v of Some k \<Rightarrow> [(k, Some serialized)] | None \<Rightarrow> []) in
      if \<not> value_opt_eq old_v new_v then
        (case index_key_of ti i ifd old_v of Some k \<Rightarrow> [(k, None)] | None \<Rightarrow> []) @ new_put
      else if any_update then new_put
      else [])"

definition refresh_outbound_rev_edges ::
    "'j json_lib \<Rightarrow> catalog \<Rightarrow> 'j db \<Rightarrow> rtext \<Rightarrow> u64 \<Rightarrow> bytes \<Rightarrow> ('j, writes) eres" where
  "refresh_outbound_rev_edges lib c d tn i data = (case get_type (c_schema c) tn of
      None \<Rightarrow> ok []
    | Some td \<Rightarrow>
        if \<not> list_ex (\<lambda>fd. single_forward fd \<noteq> None) (td_fields td) then ok []
        else dbind (each (\<lambda>fd. case (forward_field fd, rel_ids c (qual tn (fd_name fd))) of
              (Some _, Some ri) \<Rightarrow>
                dbind (scan_prefix lib (store d) (kb_edge_prefix i ri)) (\<lambda>entries.
                each (\<lambda>(t, _). dbind (build_covering_rev_value lib c d tn i (Some data) (fd_name fd) t) (\<lambda>rev_value.
                    ok (kb_reverse_edge t ri i, Some rev_value))) entries)
            | _ \<Rightarrow> ok []) (td_fields td)) (\<lambda>ws. ok (concat ws)))"

fun update_unique ::
    "'j json_lib \<Rightarrow> catalog \<Rightarrow> kv \<Rightarrow> rtext \<Rightarrow> TypeDef \<Rightarrow> u64 \<Rightarrow> u64 \<Rightarrow> 'j FieldMap \<Rightarrow> 'j FieldMap \<Rightarrow> staging \<Rightarrow> ('j, staging) eres" where
  "update_unique lib c m tn td ti i old_fs [] st = ok st"
| "update_unique lib c m tn td ti i old_fs ((n, v) # us) st = (case field_named td n of
      None \<Rightarrow> None
    | Some fd \<Rightarrow>
        dbind (if \<not> is_unique fd then ok st
          else dbind (case non_null old_fs n of
                Some old_v \<Rightarrow> remove_unique_index lib c tn ti (fd_name fd) old_v st
              | None \<Rightarrow> ok st) (\<lambda>st.
            if v \<noteq> VNull then check_unique_and_insert lib c m tn ti (fd_name fd) v i st else ok st)) (\<lambda>st.
        update_unique lib c m tn td ti i old_fs us st))"

fun update_fulltext ::
    "kv \<Rightarrow> u64 \<Rightarrow> u64 \<Rightarrow> 'j FieldMap \<Rightarrow> 'j FieldMap \<Rightarrow> FulltextField list \<Rightarrow> writes \<times> StatsDelta \<Rightarrow> writes \<times> StatsDelta" where
  "update_fulltext m ti i old_fs us [] acc = acc"
| "update_fulltext m ti i old_fs us (ff # ffs) acc =
     (if map_of us (utf8 (ff_name ff)) = None then update_fulltext m ti i old_fs us ffs acc
      else case stage_fulltext_update m ti ff i (text_of old_fs (utf8 (ff_name ff))) (text_of us (utf8 (ff_name ff))) (snd acc) of
        (ws, \<delta>) \<Rightarrow> update_fulltext m ti i old_fs us ffs (fst acc @ ws, \<delta>))"

fun check_updates :: "catalog \<Rightarrow> rtext \<Rightarrow> TypeDef \<Rightarrow> 'j FieldMap \<Rightarrow> ('j, unit) eres" where
  "check_updates c tn td [] = ok ()"
| "check_updates c tn td ((n, v) # us) = (case field_named td n of
      None \<Rightarrow> err (case find_map (\<lambda>f. if utf8 f = n then field_retired_error c tn f else None) (retired_field_names_by_type c tn) of
          Some e \<Rightarrow> e
        | None \<Rightarrow> FieldNotFound tn n)
    | Some fd \<Rightarrow> dbind (validate_value fd v) (\<lambda>_. check_updates c tn td us))"

definition merge :: "'j FieldMap \<Rightarrow> 'j FieldMap \<Rightarrow> 'j FieldMap" where
  "merge fs us = foldl (\<lambda>m (n, v). AList.update n v m) fs us"

text \<open>The writes of an update, except the new generation, and the merged fields.\<close>

definition stage_update ::
    "'j json_lib \<Rightarrow> catalog \<Rightarrow> 'j db \<Rightarrow> rtext \<Rightarrow> TypeDef \<Rightarrow> u64 \<Rightarrow> u64 \<Rightarrow> 'j FieldMap \<Rightarrow>
     ('j, 'j FieldMap \<times> writes \<times> StatsDelta) eres" where
  "stage_update lib c d tn td ti i us =
     dbind (check_updates c tn td us) (\<lambda>_.
     case kv_get (store d) (kb_object ti i) of
       None \<Rightarrow> err (ObjectNotFound tn i)
     | Some data \<Rightarrow>
         dbind (stored_fields lib data) (\<lambda>old_fs.
         dbind (update_unique lib c (store d) tn td ti i old_fs us ([], Map.empty)) (\<lambda>st.
         case update_fulltext (store d) ti i old_fs us (fulltext_fields c tn) ([], Map.empty) of
           (ft, \<delta>) \<Rightarrow>
             let new_fs = merge old_fs us; serialized = serialize_fields lib new_fs in
             dbind (refresh_outbound_rev_edges lib c d tn i serialized) (\<lambda>revs.
             ok (new_fs, fst st @ ft @ concat (map (index_writes ti i serialized old_fs new_fs (us \<noteq> [])) (indexed_fields c tn)) @ revs @
               [(kb_object_version ti i, Some (u64_be (or_zero (version_counters d (ti, i)) + 1))), (kb_object ti i, Some serialized)], \<delta>)))))"

definition update_with_origin ::
    "commit_io \<Rightarrow> 'j json_lib \<Rightarrow> catalog \<Rightarrow> rtext \<Rightarrow> u64 \<Rightarrow> 'j FieldMap \<Rightarrow> u64 option \<Rightarrow> 'j db \<Rightarrow> ('j, 'j Object) eres \<times> 'j db" where
  "update_with_origin io lib c tn i us origin d =
     sbind (resolve_type_id c tn) d (\<lambda>ti.
     sbind (schema_type c tn) d (\<lambda>td.
     sbind (stage_update lib c d tn td ti i us) d (\<lambda>(new_fs, ws, \<delta>).
     let d1 = bump_version ti i d in
     sbind (commit io ws d1) (rollback_version ti i d1) (\<lambda>d2.
     (ok (mk_object tn i new_fs),
      publish [event (store_version d2) ChUpdate tn i (Some new_fs) origin]
        ((settle_stats \<delta> d2)\<lparr>cover_refresh := cover_refresh d2 @ [(ti, i)]\<rparr>))))))"

section \<open>The refresh of covers\<close>

definition refresh_sources :: "catalog \<Rightarrow> 'j db \<Rightarrow> u64 \<Rightarrow> u64 \<Rightarrow> (u64 \<times> u64) list" where
  "refresh_sources c d ti i = concat (map (\<lambda>inc.
     if inc_is_many inc then []
     else map (\<lambda>(s, _). (inc_source_type_id inc, s)) (scan_prefix_raw (store d) (kb_reverse_edge_prefix i (inc_rel_id inc))))
     (incoming_relations c ti))"

text \<open>The rewrites, in a fresh transaction, for the sources that an earlier read transaction found.\<close>

definition refresh_stage :: "'j json_lib \<Rightarrow> catalog \<Rightarrow> 'j db \<Rightarrow> (u64 \<times> u64) list \<Rightarrow> ('j, writes) eres" where
  "refresh_stage lib c d sources =
     dbind (each (\<lambda>(sti, s). case type_name_by_id c sti of
         None \<Rightarrow> ok []
       | Some stn \<Rightarrow> (case kv_get (store d) (kb_object sti s) of
           None \<Rightarrow> ok []
         | Some data \<Rightarrow> refresh_outbound_rev_edges lib c d stn s data)) sources) (\<lambda>ws. ok (concat ws))"

text \<open>\<open>d0\<close> is the state of the read transaction, \<open>d\<close> the one in which the writing transaction starts and commits.\<close>

definition refresh_covers_for_target :: "commit_io \<Rightarrow> 'j json_lib \<Rightarrow> catalog \<Rightarrow> 'j db \<Rightarrow> 'j db \<Rightarrow> u64 \<Rightarrow> u64 \<Rightarrow> ('j, 'j db) eres" where
  "refresh_covers_for_target io lib c d0 d ti i =
     (case refresh_sources c d0 ti i of
        [] \<Rightarrow> ok d
      | sources \<Rightarrow> dbind (refresh_stage lib c d sources) (\<lambda>ws. commit io ws d))"

end
