(* ===== verification/Engine_Delete.thy ===== *)
theory Engine_Delete
  imports Engine_Objects
begin

text \<open>
  \<^verbatim>\<open>delete_with_origin\<close> and \<^verbatim>\<open>delete_inner\<close> of \<^verbatim>\<open>rhypedb-engine/src/database.rs\<close>: a delete checks and follows the policies of the
  relations that point at the object, and stages one tombstone per row of every object it removes. The walk is
  recursive; it has a fuel argument, and the fuel that \<open>delete_with_origin\<close> passes is enough. The arena of
  tombstones is the list of its keys, and a denied delete returns an error and commits nothing.
\<close>

section \<open>The rows of one object\<close>

text \<open>What the walk accumulates: the deleted objects with the payload of their events, the tombstones, the statistics.\<close>

type_synonym 'j del_state = "((u64 \<times> u64) \<times> 'j FieldMap option) list \<times> bytes list \<times> StatsDelta"

definition unique_tombstone :: "'j json_lib \<Rightarrow> catalog \<Rightarrow> rtext \<Rightarrow> u64 \<Rightarrow> 'j FieldMap \<Rightarrow> FieldDef \<Rightarrow> ('j, bytes list) eres" where
  "unique_tombstone lib c tn ti fs fd =
     (if \<not> is_unique fd then ok []
      else case non_null fs (utf8 (fd_name fd)) of
        None \<Rightarrow> ok []
      | Some v \<Rightarrow> (case unique_key lib c tn ti (fd_name fd) v of Some k \<Rightarrow> ok [k] | None \<Rightarrow> None))"

definition unique_tombstones :: "'j json_lib \<Rightarrow> catalog \<Rightarrow> CascadeMeta \<Rightarrow> u64 \<Rightarrow> 'j FieldMap \<Rightarrow> ('j, bytes list) eres" where
  "unique_tombstones lib c meta ti fs =
     (if \<not> cm_has_unique meta then ok []
      else case get_type (c_schema c) (cm_type_name meta) of
        None \<Rightarrow> ok []
      | Some td \<Rightarrow> dbind (each (unique_tombstone lib c (cm_type_name meta) ti fs) (td_fields td)) (\<lambda>ks. ok (concat ks)))"

definition index_tombstones :: "catalog \<Rightarrow> CascadeMeta \<Rightarrow> u64 \<Rightarrow> u64 \<Rightarrow> 'j FieldMap \<Rightarrow> bytes list" where
  "index_tombstones c meta ti i fs =
     List.map_filter (\<lambda>ifd. index_key_of ti i ifd (map_of fs (utf8 (ifd_name ifd)))) (indexed_fields c (cm_type_name meta))"

fun fulltext_tombstones ::
    "kv \<Rightarrow> u64 \<Rightarrow> u64 \<Rightarrow> 'j FieldMap \<Rightarrow> FulltextField list \<Rightarrow> bytes list \<times> StatsDelta \<Rightarrow> bytes list \<times> StatsDelta" where
  "fulltext_tombstones m ti i fs [] acc = acc"
| "fulltext_tombstones m ti i fs (ff # ffs) (ks, \<delta>) = fulltext_tombstones m ti i fs ffs (case text_of fs (utf8 (ff_name ff)) of
      None \<Rightarrow> (ks, \<delta>)
    | Some txt \<Rightarrow>
        if kv_get m (doc_key ti ff i) = None then (ks @ [doc_key ti ff i], \<delta>)
        else let doc = tokenize_for_index ff txt in
          (ks @ map (\<lambda>(t, _). posting_key ti ff i t) (d_terms doc) @ [doc_key ti ff i],
           delta_add ti (ff_field_id ff) (-1) (- uint (d_doc_len doc)) \<delta>))"

definition del_payload ::
    "'j json_lib \<Rightarrow> catalog \<Rightarrow> kv \<Rightarrow> CascadeMeta \<Rightarrow> u64 \<Rightarrow> u64 \<Rightarrow> bool \<Rightarrow> 'j del_state \<Rightarrow> ('j, 'j del_state) eres" where
  "del_payload lib c m meta ti i verify_exists st = (case st of (deleted, arena, \<delta>) \<Rightarrow>
     if \<not> (cm_has_unique meta \<or> cm_has_indexed meta \<or> cm_has_scalar meta \<or> verify_exists) then ok st
     else case kv_get m (kb_object ti i) of
       None \<Rightarrow> if verify_exists then err (ObjectNotFound (cm_type_name meta) i) else ok st
     | Some data \<Rightarrow>
         dbind (stored_fields lib data) (\<lambda>fs.
         dbind (unique_tombstones lib c meta ti fs) (\<lambda>uks.
         case fulltext_tombstones m ti i fs (fulltext_fields c (cm_type_name meta)) (arena @ uks @ index_tombstones c meta ti i fs, \<delta>) of
           (arena', \<delta>') \<Rightarrow>
             ok (if cm_has_scalar meta then AList.update (ti, i) (Some (strip_tombstoned_fields c (cm_type_name meta) fs)) deleted else deleted,
                 arena', \<delta>'))))"

section \<open>The edges of one object\<close>

definition edge_pair :: "u64 \<Rightarrow> u64 \<Rightarrow> u64 \<Rightarrow> bytes list" where
  "edge_pair s r t = [kb_edge s r t, kb_reverse_edge t r s]"

text \<open>The objects to cascade to: type, id, the relation and the value of the reverse edge.\<close>

type_synonym cascade_target = "u64 \<times> u64 \<times> u64 \<times> bytes"

fun del_inbound ::
    "kv \<Rightarrow> u64 \<Rightarrow> IncomingRelation list \<Rightarrow> bytes list \<times> cascade_target list \<Rightarrow> (rtext \<times> rtext) + bytes list \<times> cascade_target list" where
  "del_inbound m i [] acc = Inr acc"
| "del_inbound m i (inc # incs) (arena, cascades) =
     (let reverse_edges = scan_prefix_raw m (kb_reverse_edge_prefix i (inc_rel_id inc));
          arena' = arena @ concat (map (\<lambda>(s, _). edge_pair s (inc_rel_id inc) i) reverse_edges) in
      if reverse_edges = [] then del_inbound m i incs (arena, cascades)
      else case inc_policy inc of
        Deny \<Rightarrow> Inl (inc_source_type inc, inc_source_field inc)
      | Remove \<Rightarrow> del_inbound m i incs (arena', cascades)
      | Cascade \<Rightarrow> del_inbound m i incs
          (arena', cascades @ map (\<lambda>(s, cover). (inc_source_type_id inc, s, inc_rel_id inc, cover)) reverse_edges))"

text \<open>The targets that the cover of the parent's reverse edge gives, and the relations that are then not scanned.\<close>

definition cover_targets :: "CascadeMeta \<Rightarrow> (u64 \<times> bytes) option \<Rightarrow> (u64 \<times> u64) list" where
  "cover_targets meta ctx = (case ctx of
      None \<Rightarrow> []
    | Some (parent_rel_id, cover) \<Rightarrow>
        if cover = [] then []
        else List.map_filter (\<lambda>rel.
          if fwd_is_many rel \<or> fwd_rel_id rel = parent_rel_id then None
          else map_option (Pair (fwd_rel_id rel)) (find_u64_field_in_raw cover (utf8 (fwd_field_name rel))))
          (cm_forward_relations meta))"

definition covered_rel_ids :: "CascadeMeta \<Rightarrow> (u64 \<times> bytes) option \<Rightarrow> u64 list" where
  "covered_rel_ids meta ctx = (case ctx of
      None \<Rightarrow> []
    | Some (parent_rel_id, _) \<Rightarrow> parent_rel_id # map fst (cover_targets meta ctx))"

definition del_outbound :: "kv \<Rightarrow> CascadeMeta \<Rightarrow> u64 \<Rightarrow> (u64 \<times> bytes) option \<Rightarrow> bytes list" where
  "del_outbound m meta i ctx =
     concat (map (\<lambda>(r, t). edge_pair i r t) (cover_targets meta ctx)) @
     concat (map (\<lambda>rel.
       if fwd_rel_id rel \<in> set (covered_rel_ids meta ctx) then []
       else concat (map (\<lambda>(t, _). edge_pair i (fwd_rel_id rel) t) (scan_prefix_raw m (kb_edge_prefix i (fwd_rel_id rel)))))
       (cm_forward_relations meta))"

definition del_own :: "'j db \<Rightarrow> u64 \<Rightarrow> u64 \<Rightarrow> bytes list" where
  "del_own d ti i = [kb_object ti i] @
     (if (case version_counters d (ti, i) of Some v \<Rightarrow> 1 < v | None \<Rightarrow> False) then [kb_object_version ti i] else [])"

section \<open>The walk\<close>

text \<open>The outer \<open>None\<close> is the end of the fuel.\<close>

fun walk_all :: "('x \<Rightarrow> 's \<Rightarrow> ('j, 's) eres option) \<Rightarrow> 'x list \<Rightarrow> 's \<Rightarrow> ('j, 's) eres option" where
  "walk_all f [] st = Some (ok st)"
| "walk_all f (x # xs) st = (case f x st of
      Some (Some (Inr st')) \<Rightarrow> walk_all f xs st'
    | r \<Rightarrow> r)"

definition meta_of :: "catalog \<Rightarrow> u64 \<Rightarrow> ('j, CascadeMeta) eres" where
  "meta_of c ti = (case cascade_meta_by_id c ti of
      Some meta \<Rightarrow> ok meta
    | None \<Rightarrow> err (TypeNotFound (case type_name_by_id c ti of Some tn \<Rightarrow> tn | None \<Rightarrow> lit ''type_id='' @ dec (unat ti))))"

text \<open>One object up to its cascades: its own rows and its inbound edges.\<close>

definition del_before ::
    "'j json_lib \<Rightarrow> catalog \<Rightarrow> 'j db \<Rightarrow> u64 \<Rightarrow> u64 \<Rightarrow> bool \<Rightarrow> 'j del_state \<Rightarrow> ('j, CascadeMeta \<times> 'j del_state \<times> cascade_target list) eres" where
  "del_before lib c d ti i verify_exists st =
     dbind (meta_of c ti) (\<lambda>meta.
     dbind (del_payload lib c (store d) meta ti i verify_exists (((ti, i), None) # fst st, snd st)) (\<lambda>(deleted, arena, \<delta>).
     case del_inbound (store d) i (incoming_relations c ti) (arena, []) of
       Inl (ref_type, ref_field) \<Rightarrow> err (DeleteDenied (cm_type_name meta) i ref_type ref_field)
     | Inr (arena', cascades) \<Rightarrow> ok (meta, (deleted, arena', \<delta>), cascades)))"

primrec delete_inner ::
    "nat \<Rightarrow> 'j json_lib \<Rightarrow> catalog \<Rightarrow> 'j db \<Rightarrow> u64 \<Rightarrow> u64 \<Rightarrow> bool \<Rightarrow> (u64 \<times> bytes) option \<Rightarrow> 'j del_state \<Rightarrow> ('j, 'j del_state) eres option" where
  "delete_inner 0 = (\<lambda>lib c d ti i verify_exists ctx st. None)"
| "delete_inner (Suc n) = (\<lambda>lib c d ti i verify_exists ctx st.
     if (ti, i) \<in> fst ` set (fst st) then Some (ok st)
     else case del_before lib c d ti i verify_exists st of
       None \<Rightarrow> Some None
     | Some (Inl e) \<Rightarrow> Some (err e)
     | Some (Inr (meta, st1, cascades)) \<Rightarrow>
         (case walk_all (\<lambda>(cti, ci, cr, cover) st. delete_inner n lib c d cti ci False (Some (cr, cover)) st) cascades st1 of
            Some (Some (Inr (deleted, arena, \<delta>))) \<Rightarrow>
              Some (ok (deleted, arena @ del_outbound (store d) meta i ctx @ del_own d ti i, \<delta>))
          | r \<Rightarrow> r))"

definition delete_fuel :: "catalog \<Rightarrow> 'j db \<Rightarrow> nat" where
  "delete_fuel c d = length (c_schema c) * length (store d) + 2"

definition delete_stage :: "'j json_lib \<Rightarrow> catalog \<Rightarrow> 'j db \<Rightarrow> u64 \<Rightarrow> u64 \<Rightarrow> ('j, 'j del_state) eres" where
  "delete_stage lib c d ti i =
     (case delete_inner (delete_fuel c d) lib c d ti i True None ([], [], Map.empty) of Some r \<Rightarrow> r | None \<Rightarrow> None)"

definition deleted_event :: "catalog \<Rightarrow> u64 \<Rightarrow> u64 option \<Rightarrow> (u64 \<times> u64) \<times> 'j FieldMap option \<Rightarrow> 'j ChangeEvent" where
  "deleted_event c ver origin e =
     event ver ChDelete (case type_name_by_id c (fst (fst e)) of Some tn \<Rightarrow> tn | None \<Rightarrow> []) (snd (fst e)) (snd e) origin"

definition delete_with_origin ::
    "commit_io \<Rightarrow> 'j json_lib \<Rightarrow> catalog \<Rightarrow> rtext \<Rightarrow> u64 \<Rightarrow> u64 option \<Rightarrow> 'j db \<Rightarrow> ('j, unit) eres \<times> 'j db" where
  "delete_with_origin io lib c tn i origin d =
     sbind (resolve_type_id c tn) d (\<lambda>ti.
     sbind (delete_stage lib c d ti i) d (\<lambda>(deleted, arena, \<delta>).
     sbind (commit io (tombstones arena) d) d (\<lambda>d1.
     let d2 = foldl (\<lambda>d e. forget_version (fst (fst e)) (snd (fst e)) d) (settle_stats \<delta> d1) deleted in
     (ok (), publish (map (deleted_event c (store_version d1) origin) deleted) d2))))"

end
