(* ===== verification/Engine_Cascade.thy ===== *)
theory Engine_Cascade
  imports Engine_Delete
begin

text \<open>
  What a delete removes. The objects it deletes are the closure of the given one under the relations with the policy
  \<open>Cascade\<close>, none of them is referenced through a relation with the policy \<open>Deny\<close>, and the walk always
  ends. No edge of the object it was called for is left. Of the objects deleted with it edges can be left: the
  walk trusts the cover of the reverse edge it came by, which links and unlinks do not maintain.
\<close>

section \<open>Kinds of keys\<close>

definition plain_key :: "bytes \<Rightarrow> bool" where
  "plain_key k \<longleftrightarrow> (\<forall>t i. k \<noteq> kb_object t i) \<and> (\<forall>s r t. k \<noteq> kb_edge s r t) \<and> (\<forall>s r t. k \<noteq> kb_reverse_edge t r s)"

lemma object_key_inject [simp]: "kb_object t i = kb_object t' i' \<longleftrightarrow> t = t' \<and> i = i'"
  by (auto simp: edge_key_defs)

lemma object_edge_keys [simp]:
  "kb_object t i \<noteq> kb_edge s r u" "kb_object t i \<noteq> kb_reverse_edge u r s" "kb_edge s r u \<noteq> kb_object t i" "kb_reverse_edge u r s \<noteq> kb_object t i"
  by (simp_all add: edge_key_defs)

lemma plain_keys [simp]:
  "plain_key (kb_unique_index t f b)" "plain_key (kb_field_index t f b i)" "plain_key (kb_field_index_var t f b i)"
  "plain_key (kb_fulltext_posting t f g b i)" "plain_key (kb_fulltext_doc t f g i)" "plain_key (kb_object_version t i)"
  by (simp_all add: plain_key_def edge_key_defs)

lemma unique_tombstone_plain: "unique_tombstone lib c tn ti fs fd = ok xs \<Longrightarrow> k \<in> set xs \<Longrightarrow> plain_key k"
  by (auto simp: unique_tombstone_def unique_key_def split: option.split_asm if_split_asm)

lemma unique_tombstones_plain:
  assumes "unique_tombstones lib c meta ti fs = ok ks" "k \<in> set ks"
  shows "plain_key k"
proof -
  obtain td :: TypeDef and kss where e: "each (unique_tombstone lib c (cm_type_name meta) ti fs) (td_fields td) = ok kss" and ks: "ks = concat kss"
    using assms by (auto simp: unique_tombstones_def dbind_ok split: if_splits option.splits)
  obtain xs where xs: "xs \<in> set kss" "k \<in> set xs" using ks assms(2) by auto
  then show ?thesis using each_set [OF e, of xs] unique_tombstone_plain by blast
qed

lemma index_key_plain: "index_key_of ti i ifd vo = Some k \<Longrightarrow> plain_key k"
  by (auto simp: index_key_of_def build_field_index_key_def split: option.splits if_splits IndexedKind.splits Value.splits)

lemma index_tombstones_plain: "k \<in> set (index_tombstones c meta ti i fs) \<Longrightarrow> plain_key k"
  by (auto simp: index_tombstones_def map_filter_def dest: index_key_plain)

lemma posting_keys_plain [simp]: "plain_key (posting_key ti ff i t)" "plain_key (doc_key ti ff i)"
  by (simp_all add: posting_key_def doc_key_def)

lemma fulltext_tombstones_plain:
  "set (fst (fulltext_tombstones m ti i fs ffs acc)) \<supseteq> set (fst acc) \<and>
   (\<forall>k \<in> set (fst (fulltext_tombstones m ti i fs ffs acc)). k \<in> set (fst acc) \<or> plain_key k)"
proof (induction m ti i fs ffs acc rule: fulltext_tombstones.induct)
  case (2 m ti i fs ff ffs ks \<delta>)
  then show ?case by (fastforce simp: Let_def split: option.splits if_splits)
qed simp

lemma del_payload_okE:
  assumes "del_payload lib c m meta ti i verify_exists (deleted, arena, \<delta>) = ok st'"
  obtains "st' = (deleted, arena, \<delta>)"
  | fs uks where "unique_tombstones lib c meta ti fs = ok uks"
    "fst st' = (if cm_has_scalar meta then AList.update (ti, i) (Some (strip_tombstoned_fields c (cm_type_name meta) fs)) deleted else deleted)"
    "fst (snd st') = fst (fulltext_tombstones m ti i fs (fulltext_fields c (cm_type_name meta)) (arena @ uks @ index_tombstones c meta ti i fs, \<delta>))"
proof (cases "cm_has_unique meta \<or> cm_has_indexed meta \<or> cm_has_scalar meta \<or> verify_exists")
  case False
  then show thesis using assms that(1) by (simp add: del_payload_def)
next
  case True
  show thesis
  proof (cases "kv_get m (kb_object ti i)")
    case None
    then show thesis using assms that(1) True by (auto simp: del_payload_def split: if_splits)
  next
    case (Some data)
    then obtain fs uks where "unique_tombstones lib c meta ti fs = ok uks"
      "(case fulltext_tombstones m ti i fs (fulltext_fields c (cm_type_name meta)) (arena @ uks @ index_tombstones c meta ti i fs, \<delta>) of
           (arena', \<delta>') \<Rightarrow>
             (ok (if cm_has_scalar meta then AList.update (ti, i) (Some (strip_tombstoned_fields c (cm_type_name meta) fs)) deleted else deleted,
                 arena', \<delta>') :: ('a, _) eres)) = ok st'"
      using assms True by (auto simp: del_payload_def dbind_ok)
    then show thesis by (intro that(2)) (auto split: prod.splits)
  qed
qed

lemma del_payload_arena:
  assumes "del_payload lib c m meta ti i verify_exists (deleted, arena, \<delta>) = ok st'" "(ti, i) \<in> fst ` set deleted"
  shows "fst ` set (fst st') = fst ` set deleted \<and> set arena \<subseteq> set (fst (snd st')) \<and>
    (\<forall>k \<in> set (fst (snd st')). k \<in> set arena \<or> plain_key k)"
  using assms(1)
proof (cases rule: del_payload_okE)
  case (2 fs uks)
  have "fst ` set (fst st') = fst ` set deleted"
    using assms(2) 2(2) by (simp add: dom_update insert_absorb)
  then show ?thesis
    using fulltext_tombstones_plain [where m = m and ti = ti and i = i and fs = fs and ffs = "fulltext_fields c (cm_type_name meta)"
        and acc = "(arena @ uks @ index_tombstones c meta ti i fs, \<delta>)"]
      unique_tombstones_plain [OF 2(1)] index_tombstones_plain [of _ c meta ti i fs] 2(3) by auto
qed auto

section \<open>Cascades\<close>

text \<open>The objects that reference an object through a relation with the policy \<open>Cascade\<close>.\<close>

definition cascade_sources :: "catalog \<Rightarrow> kv \<Rightarrow> u64 \<times> u64 \<Rightarrow> (u64 \<times> u64) set" where
  "cascade_sources c m x = {(inc_source_type_id inc, s) | inc s.
     inc \<in> set (incoming_relations c (fst x)) \<and> inc_policy inc = Cascade \<and> rev_linked m s (inc_rel_id inc) (snd x)}"

definition denied :: "catalog \<Rightarrow> kv \<Rightarrow> u64 \<times> u64 \<Rightarrow> bool" where
  "denied c m x \<longleftrightarrow> (\<exists>inc s. inc \<in> set (incoming_relations c (fst x)) \<and> inc_policy inc = Deny \<and> rev_linked m s (inc_rel_id inc) (snd x))"

inductive_set cascaded :: "catalog \<Rightarrow> kv \<Rightarrow> u64 \<times> u64 \<Rightarrow> (u64 \<times> u64) set" for c m x where
  cascaded_root: "x \<in> cascaded c m x"
| cascaded_step: "y \<in> cascaded c m x \<Longrightarrow> z \<in> cascade_sources c m y \<Longrightarrow> z \<in> cascaded c m x"

lemma edge_pair_set [simp]: "set (edge_pair s r t) = {kb_edge s r t, kb_reverse_edge t r s}"
  by (auto simp: edge_pair_def)

lemma scan_nonempty: "store_ok m \<Longrightarrow> scan_prefix_raw m (kb_reverse_edge_prefix i r) = [] \<longleftrightarrow> (\<forall>s. \<not> rev_linked m s r i)"
  using reverse_scan_ids [of m _ i r] by (metis empty_iff image_is_empty list.set(1) ex_in_conv set_empty)

text \<open>The edges staged by \<open>del_inbound\<close>, and the objects it finds.\<close>

lemma del_inbound_ok:
  assumes "store_ok m" "del_inbound m i incs (arena, cascades) = Inr (arena', cascades')"
  shows "(\<forall>inc \<in> set incs. \<forall>s. inc_policy inc = Deny \<longrightarrow> \<not> rev_linked m s (inc_rel_id inc) i) \<and>
    set arena' = set arena \<union> {k. \<exists>inc s. inc \<in> set incs \<and> rev_linked m s (inc_rel_id inc) i \<and> k \<in> set (edge_pair s (inc_rel_id inc) i)} \<and>
    (\<lambda>(t, s, _). (t, s)) ` set cascades' = (\<lambda>(t, s, _). (t, s)) ` set cascades \<union>
      {(inc_source_type_id inc, s) | inc s. inc \<in> set incs \<and> inc_policy inc = Cascade \<and> rev_linked m s (inc_rel_id inc) i}"
  using assms(2)
proof (induction incs arbitrary: arena cascades)
  case (Cons inc incs)
  let ?es = "scan_prefix_raw m (kb_reverse_edge_prefix i (inc_rel_id inc))"
  have ids: "s \<in> fst ` set ?es \<longleftrightarrow> rev_linked m s (inc_rel_id inc) i" for s by (rule reverse_scan_ids [OF assms(1)])
  have edges: "set (concat (map (\<lambda>(s, _). edge_pair s (inc_rel_id inc) i) ?es)) =
      {k. \<exists>s. rev_linked m s (inc_rel_id inc) i \<and> k \<in> set (edge_pair s (inc_rel_id inc) i)}"
    unfolding ids [symmetric] by force
  have found: "(\<lambda>(t, s, _). (t, s)) ` set (map (\<lambda>(s, cover). (inc_source_type_id inc, s, inc_rel_id inc, cover)) ?es) =
      {(inc_source_type_id inc, s) | s. rev_linked m s (inc_rel_id inc) i}"
    unfolding ids [symmetric] by force
  show ?case
  proof (cases "?es = []")
    case True
    then have none: "\<not> rev_linked m s (inc_rel_id inc) i" for s using ids by force
    then show ?thesis using Cons True by simp blast
  next
    case False
    show ?thesis
    proof (cases "inc_policy inc")
      case Deny
      then show ?thesis using Cons.prems False by (simp add: Let_def)
    next
      case Remove
      then have "del_inbound m i incs (arena @ concat (map (\<lambda>(s, _). edge_pair s (inc_rel_id inc) i) ?es), cascades) = Inr (arena', cascades')"
        using Cons.prems False by (simp add: Let_def)
      note ih = Cons.IH [OF this]
      have "set arena' = set arena \<union> {k. \<exists>inc' s. inc' \<in> set (inc # incs) \<and> rev_linked m s (inc_rel_id inc') i \<and> k \<in> set (edge_pair s (inc_rel_id inc') i)}"
        using ih edges by (simp only: set_append) auto
      then show ?thesis using ih Remove by auto
    next
      case Cascade
      then have "del_inbound m i incs (arena @ concat (map (\<lambda>(s, _). edge_pair s (inc_rel_id inc) i) ?es),
          cascades @ map (\<lambda>(s, cover). (inc_source_type_id inc, s, inc_rel_id inc, cover)) ?es) = Inr (arena', cascades')"
        using Cons.prems False by (simp add: Let_def)
      note ih = Cons.IH [OF this]
      have a: "set arena' = set arena \<union> {k. \<exists>inc' s. inc' \<in> set (inc # incs) \<and> rev_linked m s (inc_rel_id inc') i \<and> k \<in> set (edge_pair s (inc_rel_id inc') i)}"
        using ih edges by (simp only: set_append) auto
      have b: "(\<lambda>(t, s, _). (t, s)) ` set cascades' = (\<lambda>(t, s, _). (t, s)) ` set cascades \<union>
          {(inc_source_type_id inc', s) | inc' s. inc' \<in> set (inc # incs) \<and> inc_policy inc' = Cascade \<and> rev_linked m s (inc_rel_id inc') i}"
        using ih found Cascade by (simp only: set_append image_Un) auto
      show ?thesis using ih Cascade a b by auto
    qed
  qed
qed simp

section \<open>What a walk adds\<close>

definition del_ids :: "'j del_state \<Rightarrow> (u64 \<times> u64) set" where
  "del_ids st = fst ` set (fst st)"

definition del_keys :: "'j del_state \<Rightarrow> bytes set" where
  "del_keys st = set (fst (snd st))"

definition paired_keys :: "bytes set \<Rightarrow> bool" where
  "paired_keys K \<longleftrightarrow> (\<forall>s r t. kb_edge s r t \<in> K \<longleftrightarrow> kb_reverse_edge t r s \<in> K)"

definition grows :: "catalog \<Rightarrow> kv \<Rightarrow> 'j del_state \<Rightarrow> 'j del_state \<Rightarrow> bool" where
  "grows c m st st' \<longleftrightarrow> del_ids st \<subseteq> del_ids st' \<and> del_keys st \<subseteq> del_keys st' \<and>
     (\<forall>x \<in> del_ids st' - del_ids st. cascade_sources c m x \<subseteq> del_ids st' \<and> \<not> denied c m x \<and> kb_object (fst x) (snd x) \<in> del_keys st') \<and>
     (\<forall>t i. kb_object t i \<in> del_keys st' \<longrightarrow> kb_object t i \<in> del_keys st \<or> (t, i) \<in> del_ids st') \<and>
     (paired_keys (del_keys st) \<longrightarrow> paired_keys (del_keys st'))"

lemma walk_grows_refl [simp]: "grows c m st st"
  by (simp add: grows_def)

lemma walk_grows_trans:
  assumes a: "grows c m st st1" and b: "grows c m st1 st2"
  shows "grows c m st st2"
proof -
  have "cascade_sources c m x \<subseteq> del_ids st2 \<and> \<not> denied c m x \<and> kb_object (fst x) (snd x) \<in> del_keys st2" if "x \<in> del_ids st2 - del_ids st" for x
  proof (cases "x \<in> del_ids st1")
    case True
    then have "cascade_sources c m x \<subseteq> del_ids st1 \<and> \<not> denied c m x \<and> kb_object (fst x) (snd x) \<in> del_keys st1"
      using a that by (simp add: grows_def)
    then show ?thesis using b by (auto simp: grows_def)
  next
    case False
    then show ?thesis using b that by (simp add: grows_def)
  qed
  moreover have "kb_object t i \<in> del_keys st \<or> (t, i) \<in> del_ids st2" if "kb_object t i \<in> del_keys st2" for t i
    using a b that unfolding grows_def by (meson subsetD)
  moreover have "del_ids st \<subseteq> del_ids st2" "del_keys st \<subseteq> del_keys st2" "paired_keys (del_keys st) \<longrightarrow> paired_keys (del_keys st2)"
    using a b by (auto simp: grows_def)
  ultimately show ?thesis by (simp add: grows_def)
qed

lemma walk_all_grows:
  assumes "\<And>x st st'. x \<in> set xs \<Longrightarrow> f x st = Some (ok st') \<Longrightarrow> grows c m st st' \<and> key x \<in> del_ids st' \<and> del_ids st' \<subseteq> del_ids st \<union> R"
    "walk_all f xs st = Some (ok st')"
  shows "grows c m st st' \<and> key ` set xs \<subseteq> del_ids st' \<and> del_ids st' \<subseteq> del_ids st \<union> R"
  using assms
proof (induction xs arbitrary: st)
  case (Cons x xs)
  obtain st1 where st1: "f x st = Some (ok st1)" "walk_all f xs st1 = Some (ok st')"
    using Cons.prems(2) by (auto split: option.splits sum.splits)
  have a: "grows c m st st1" "key x \<in> del_ids st1" "del_ids st1 \<subseteq> del_ids st \<union> R" using Cons.prems(1) [OF _ st1(1)] by auto
  have b: "grows c m st1 st' \<and> key ` set xs \<subseteq> del_ids st' \<and> del_ids st' \<subseteq> del_ids st1 \<union> R"
    by (rule Cons.IH [OF _ st1(2)]) (meson Cons.prems(1) list.set_intros(2))
  have "key x \<in> del_ids st'" using a(2) b by (auto simp: grows_def)
  then show ?case using a b walk_grows_trans [OF a(1)] by auto
qed simp

lemma cascaded_trans:
  assumes "y \<in> cascade_sources c m x" "z \<in> cascaded c m y"
  shows "z \<in> cascaded c m x"
  using assms(2)
proof induction
  case cascaded_root
  then show ?case using assms(1) by (blast intro: cascaded.intros)
next
  case (cascaded_step y z)
  then show ?case by (blast intro: cascaded.intros)
qed

lemma delete_inner_okE:
  assumes "delete_inner (Suc n) lib c d ti i v ctx st = Some (ok st')" "(ti, i) \<notin> del_ids st"
  obtains meta st1 cascades st2 where "del_before lib c d ti i v st = ok (meta, st1, cascades)"
    "walk_all (\<lambda>(cti, ci, cr, cover) st. delete_inner n lib c d cti ci False (Some (cr, cover)) st) cascades st1 = Some (ok st2)"
    "st' = (fst st2, fst (snd st2) @ del_outbound (store d) meta i ctx @ del_own d ti i, snd (snd st2))"
  using assms by (auto simp: del_ids_def split: option.split_asm sum.split_asm prod.split_asm if_split_asm)

lemma del_before_okE:
  fixes lib :: "'j json_lib"
  assumes "del_before lib c d ti i v st = ok (meta, st1, cascades)" "store_ok (store d)"
  shows "cascade_meta_by_id c ti = Some meta \<and> del_ids st1 = insert (ti, i) (del_ids st) \<and> \<not> denied c (store d) (ti, i) \<and>
    (\<lambda>(t, s, _). (t, s)) ` set cascades = cascade_sources c (store d) (ti, i) \<and>
    del_keys st \<subseteq> del_keys st1 \<and>
    (\<forall>k \<in> del_keys st1. k \<in> del_keys st \<or> plain_key k \<or>
       (\<exists>inc s. inc \<in> set (incoming_relations c ti) \<and> rev_linked (store d) s (inc_rel_id inc) i \<and> k \<in> set (edge_pair s (inc_rel_id inc) i))) \<and>
    (\<forall>inc s. inc \<in> set (incoming_relations c ti) \<longrightarrow> rev_linked (store d) s (inc_rel_id inc) i \<longrightarrow> set (edge_pair s (inc_rel_id inc) i) \<subseteq> del_keys st1)"
proof -
  obtain meta' deleted arena \<delta> where meta': "cascade_meta_by_id c ti = Some meta'"
    and p: "del_payload lib c (store d) meta' ti i v (((ti, i), None) # fst st, snd st) = ok (deleted, arena, \<delta>)"
    and r: "(case del_inbound (store d) i (incoming_relations c ti) (arena, []) of
       Inl (ref_type, ref_field) \<Rightarrow> err (DeleteDenied (cm_type_name meta') i ref_type ref_field)
     | Inr (arena', cascades) \<Rightarrow> ok (meta', (deleted, arena', \<delta>), cascades)) = (ok (meta, st1, cascades) :: ('j, _) eres)"
    using assms(1) by (auto simp: del_before_def meta_of_def dbind_ok split: option.split_asm)
  obtain arena' where meta: "cascade_meta_by_id c ti = Some meta" "meta' = meta"
    and inb: "del_inbound (store d) i (incoming_relations c ti) (arena, []) = Inr (arena', cascades)"
    and st1: "st1 = (deleted, arena', \<delta>)"
    using r meta' by (auto split: sum.split_asm prod.split_asm)
  have p': "fst ` set deleted = insert (ti, i) (del_ids st) \<and> del_keys st \<subseteq> set arena \<and> (\<forall>k \<in> set arena. k \<in> del_keys st \<or> plain_key k)"
    using p del_payload_arena [of lib c "store d" meta ti i v "((ti, i), None) # fst st" "fst (snd st)" "snd (snd st)" "(deleted, arena, \<delta>)"]
    by (simp add: del_ids_def del_keys_def meta(2))
  note q = del_inbound_ok [OF assms(2) inb]
  have "del_ids st1 = insert (ti, i) (del_ids st)" using p' st1 by (simp add: del_ids_def)
  moreover have "\<not> denied c (store d) (ti, i)" using q by (auto simp: denied_def)
  moreover have "(\<lambda>(t, s, _). (t, s)) ` set cascades = cascade_sources c (store d) (ti, i)" using q by (auto simp: cascade_sources_def)
  moreover have keys: "del_keys st1 = set arena \<union> {k. \<exists>inc s. inc \<in> set (incoming_relations c ti) \<and> rev_linked (store d) s (inc_rel_id inc) i \<and>
      k \<in> set (edge_pair s (inc_rel_id inc) i)}"
    using q st1 by (simp add: del_keys_def)
  ultimately show ?thesis using meta(1) p' unfolding keys by blast
qed

definition out_targets :: "kv \<Rightarrow> CascadeMeta \<Rightarrow> u64 \<Rightarrow> (u64 \<times> bytes) option \<Rightarrow> (u64 \<times> u64) set" where
  "out_targets m meta i ctx = set (cover_targets meta ctx) \<union>
     {(fwd_rel_id rel, t) | rel t. rel \<in> set (cm_forward_relations meta) \<and> fwd_rel_id rel \<notin> set (covered_rel_ids meta ctx) \<and>
        linked m i (fwd_rel_id rel) t}"

lemma in_concat_unless: "k \<in> set (concat (map (\<lambda>x. if P x then [] else g x) xs)) \<longleftrightarrow> (\<exists>x. x \<in> set xs \<and> \<not> P x \<and> k \<in> set (g x))"
  by (induction xs) auto

lemma set_del_outbound:
  assumes "store_ok m"
  shows "k \<in> set (del_outbound m meta i ctx) \<longleftrightarrow> (\<exists>r t. (r, t) \<in> out_targets m meta i ctx \<and> k \<in> set (edge_pair i r t))"
proof -
  have "k \<in> set (concat (map (\<lambda>(t, _). edge_pair i r t) (scan_prefix_raw m (kb_edge_prefix i r)))) \<longleftrightarrow>
      (\<exists>t. t \<in> fst ` set (scan_prefix_raw m (kb_edge_prefix i r)) \<and> k \<in> set (edge_pair i r t))" for r
    by force
  then have s: "k \<in> set (concat (map (\<lambda>(t, _). edge_pair i r t) (scan_prefix_raw m (kb_edge_prefix i r)))) \<longleftrightarrow>
      (\<exists>t. linked m i r t \<and> k \<in> set (edge_pair i r t))" for r
    unfolding forward_scan_ids [OF assms] .
  have "k \<in> set (concat (map (\<lambda>rel. if fwd_rel_id rel \<in> set (covered_rel_ids meta ctx) then []
       else concat (map (\<lambda>(t, _). edge_pair i (fwd_rel_id rel) t) (scan_prefix_raw m (kb_edge_prefix i (fwd_rel_id rel)))))
       (cm_forward_relations meta))) \<longleftrightarrow>
    (\<exists>rel t. rel \<in> set (cm_forward_relations meta) \<and> fwd_rel_id rel \<notin> set (covered_rel_ids meta ctx) \<and>
        linked m i (fwd_rel_id rel) t \<and> k \<in> set (edge_pair i (fwd_rel_id rel) t))"
    unfolding in_concat_unless s by blast
  moreover have "k \<in> set (concat (map (\<lambda>(r, t). edge_pair i r t) (cover_targets meta ctx))) \<longleftrightarrow>
      (\<exists>r t. (r, t) \<in> set (cover_targets meta ctx) \<and> k \<in> set (edge_pair i r t))"
    by auto
  ultimately show ?thesis unfolding del_outbound_def set_append Un_iff out_targets_def by blast
qed

lemma paired_keys_Un: "paired_keys K \<Longrightarrow> paired_keys L \<Longrightarrow> paired_keys (K \<union> L)"
  by (simp add: paired_keys_def)

lemma paired_outbound: "store_ok m \<Longrightarrow> paired_keys (set (del_outbound m meta i ctx))"
  by (auto simp: paired_keys_def set_del_outbound)

lemma del_own_set: "k \<in> set (del_own d ti i) \<Longrightarrow> k = kb_object ti i \<or> plain_key k" "kb_object ti i \<in> set (del_own d ti i)"
  by (auto simp: del_own_def split: if_splits)

lemma delete_inner_grows:
  assumes "store_ok (store d)" "delete_inner n lib c d ti i v ctx st = Some (ok st')"
  shows "grows c (store d) st st' \<and> (ti, i) \<in> del_ids st' \<and> del_ids st' \<subseteq> del_ids st \<union> cascaded c (store d) (ti, i)"
  using assms(2)
proof (induction n arbitrary: ti i v ctx st st')
  case (Suc n)
  show ?case
  proof (cases "(ti, i) \<in> del_ids st")
    case True
    then show ?thesis using Suc.prems by (simp add: del_ids_def)
  next
    case False
    from Suc.prems False obtain meta st1 cascades st2 where b: "del_before lib c d ti i v st = ok (meta, st1, cascades)"
      and w: "walk_all (\<lambda>(cti, ci, cr, cover) st. delete_inner n lib c d cti ci False (Some (cr, cover)) st) cascades st1 = Some (ok st2)"
      and st': "st' = (fst st2, fst (snd st2) @ del_outbound (store d) meta i ctx @ del_own d ti i, snd (snd st2))"
      by (rule delete_inner_okE)
    note B = del_before_okE [OF b assms(1)]
    have found: "(\<lambda>(t, s, _). (t, s)) ` set cascades = cascade_sources c (store d) (ti, i)" using B by (simp only:)
    have "grows c (store d) st1 st2 \<and> (\<lambda>(t, s, _). (t, s)) ` set cascades \<subseteq> del_ids st2 \<and>
        del_ids st2 \<subseteq> del_ids st1 \<union> cascaded c (store d) (ti, i)"
    proof (rule walk_all_grows [OF _ w])
      fix x st st'
      assume x: "x \<in> set cascades" and r: "(case x of (cti, ci, cr, cover) \<Rightarrow> delete_inner n lib c d cti ci False (Some (cr, cover))) st = Some (ok st')"
      obtain cti ci cr cover where xe: "x = (cti, ci, cr, cover)" by (cases x)
      then have "(cti, ci) \<in> cascade_sources c (store d) (ti, i)" unfolding found [symmetric] using x by force
      then have "cascaded c (store d) (cti, ci) \<subseteq> cascaded c (store d) (ti, i)" using cascaded_trans by blast
      then show "grows c (store d) st st' \<and> (case x of (t, s, _) \<Rightarrow> (t, s)) \<in> del_ids st' \<and> del_ids st' \<subseteq> del_ids st \<union> cascaded c (store d) (ti, i)"
        using Suc.IH [of cti ci False "Some (cr, cover)" st st'] r xe by auto
    qed
    then have w: "grows c (store d) st1 st2" "cascade_sources c (store d) (ti, i) \<subseteq> del_ids st2"
      "del_ids st2 \<subseteq> del_ids st1 \<union> cascaded c (store d) (ti, i)" using B by auto
    have ids: "del_ids st' = del_ids st2" "del_ids st1 = insert (ti, i) (del_ids st)" using st' B by (simp_all add: del_ids_def)
    have keys: "del_keys st' = del_keys st2 \<union> set (del_outbound (store d) meta i ctx) \<union> set (del_own d ti i)"
      using st' by (auto simp: del_keys_def)
    have "cascade_sources c (store d) x \<subseteq> del_ids st' \<and> \<not> denied c (store d) x \<and> kb_object (fst x) (snd x) \<in> del_keys st'"
      if "x \<in> del_ids st' - del_ids st" for x
    proof (cases "x = (ti, i)")
      case True
      then show ?thesis using w(2) B del_own_set(2) [where d = d] by (simp add: ids keys)
    next
      case False
      then have "x \<in> del_ids st2 - del_ids st1" using that ids by simp
      then show ?thesis using w(1) ids keys by (auto simp: grows_def)
    qed
    moreover have "kb_object t j \<in> del_keys st \<or> (t, j) \<in> del_ids st'" if "kb_object t j \<in> del_keys st'" for t j
    proof -
      have np: "\<not> plain_key (kb_object t j)" by (auto simp: plain_key_def)
      have "kb_object t j \<notin> set (del_outbound (store d) meta i ctx)" by (auto simp: set_del_outbound [OF assms(1)])
      then have "kb_object t j \<in> del_keys st2 \<or> kb_object t j \<in> set (del_own d ti i)" using that keys by simp
      then consider "kb_object t j \<in> del_keys st2" | "(t, j) = (ti, i)" using del_own_set(1) [where d = d] np by fastforce
      then show ?thesis
      proof cases
        case 1
        then have "kb_object t j \<in> del_keys st1 \<or> (t, j) \<in> del_ids st2" using w(1) by (simp add: grows_def)
        moreover have "kb_object t j \<in> del_keys st" if "kb_object t j \<in> del_keys st1" using that B np by auto
        ultimately show ?thesis using ids by auto
      next
        case 2
        then show ?thesis using w(1) ids by (auto simp: grows_def)
      qed
    qed
    moreover have "paired_keys (del_keys st')" if "paired_keys (del_keys st)"
    proof -
      have "paired_keys (del_keys st1)"
        using that B by (fastforce simp: paired_keys_def plain_key_def)
      then have "paired_keys (del_keys st2)" using w(1) by (simp add: grows_def)
      moreover have "paired_keys (set (del_own d ti i))" using del_own_set(1) [of _ d ti i] by (fastforce simp: paired_keys_def plain_key_def)
      ultimately show ?thesis unfolding keys by (intro paired_keys_Un paired_outbound assms(1))
    qed
    moreover have "del_ids st \<subseteq> del_ids st'" "del_keys st \<subseteq> del_keys st'" using w(1) ids B keys by (auto simp: grows_def)
    moreover have "(ti, i) \<in> del_ids st'" using w(1) ids by (auto simp: grows_def)
    moreover have "del_ids st' \<subseteq> del_ids st \<union> cascaded c (store d) (ti, i)" using w(3) ids cascaded_root by auto
    ultimately show ?thesis by (simp add: grows_def)
  qed
qed simp

section \<open>The fuel is enough\<close>

definition source_ids :: "catalog \<Rightarrow> u64 set" where
  "source_ids c = (\<lambda>(tn, td). or_zero (type_ids c tn)) ` set (c_schema c)"

definition walk_space :: "catalog \<Rightarrow> kv \<Rightarrow> u64 \<times> u64 \<Rightarrow> (u64 \<times> u64) set" where
  "walk_space c m x = insert x (source_ids c \<times> (\<lambda>e. tail_id (fst e)) ` set m)"

lemma incoming_source_ids: "inc \<in> set (incoming_relations c ti) \<Longrightarrow> inc_source_type_id inc \<in> source_ids c"
  by (force simp: incoming_relations_def incoming_of_field_def source_ids_def or_zero_def split: option.splits if_splits)

lemma cascade_sources_space: "cascade_sources c m y \<subseteq> walk_space c m x"
proof
  fix z
  assume "z \<in> cascade_sources c m y"
  then obtain inc s where z: "z = (inc_source_type_id inc, s)" "inc \<in> set (incoming_relations c (fst y))" "rev_linked m s (inc_rel_id inc) (snd y)"
    by (auto simp: cascade_sources_def)
  then obtain w where "(kb_reverse_edge (snd y) (inc_rel_id inc) s, w) \<in> set m" by (auto simp: rev_linked_def present_def dest: map_of_SomeD)
  then have "s \<in> (\<lambda>e. tail_id (fst e)) ` set m" by (force intro!: image_eqI)
  then show "z \<in> walk_space c m x" using z incoming_source_ids by (simp add: walk_space_def)
qed

lemma walk_space_card: "finite (walk_space c m x)" "card (walk_space c m x) \<le> length (c_schema c) * length m + 1"
proof -
  have "card (source_ids c) \<le> length (c_schema c)" "card ((\<lambda>e. tail_id (fst e)) ` set m) \<le> length m"
    unfolding source_ids_def by (rule order_trans [OF card_image_le card_length]; simp)+
  then have "card (source_ids c \<times> (\<lambda>e. tail_id (fst e)) ` set m) \<le> length (c_schema c) * length m"
    by (simp add: card_cartesian_product mult_le_mono)
  moreover have "finite (source_ids c \<times> (\<lambda>e. tail_id (fst e)) ` set m)" by (simp add: source_ids_def)
  ultimately show "finite (walk_space c m x)" "card (walk_space c m x) \<le> length (c_schema c) * length m + 1"
    unfolding walk_space_def by (simp_all add: card_insert_if)
qed

lemma walk_all_ends:
  assumes "\<And>x st. x \<in> set xs \<Longrightarrow> D \<subseteq> del_ids st \<Longrightarrow> f x st \<noteq> None"
    "\<And>x st st'. x \<in> set xs \<Longrightarrow> f x st = Some (ok st') \<Longrightarrow> del_ids st \<subseteq> del_ids st'" "D \<subseteq> del_ids st"
  shows "walk_all f xs st \<noteq> None"
  using assms
proof (induction xs arbitrary: st)
  case (Cons x xs)
  obtain r where r: "f x st = Some r" using Cons.prems(1) [of x st] Cons.prems(3) by auto
  show ?case
  proof (cases "\<exists>st'. r = ok st'")
    case True
    then obtain st' where st': "r = ok st'" ..
    have "walk_all f xs st' \<noteq> None"
    proof (rule Cons.IH)
      show "D \<subseteq> del_ids st'" using Cons.prems(2) [of x st st'] Cons.prems(3) r st' by auto
      show "f y s \<noteq> None" if "y \<in> set xs" "D \<subseteq> del_ids s" for y s using Cons.prems(1) [of y s] that by simp
      show "del_ids s \<subseteq> del_ids s'" if "y \<in> set xs" "f y s = Some (ok s')" for y s s' using Cons.prems(2) [of y s s'] that by simp
    qed
    then show ?thesis using r st' by simp
  next
    case False
    then show ?thesis using r by (auto split: option.splits sum.splits)
  qed
qed simp

lemma delete_inner_ends:
  fixes lib :: "'j json_lib"
  assumes "store_ok (store d)"
  shows "(ti, i) \<in> walk_space c (store d) x \<Longrightarrow> card (walk_space c (store d) x - del_ids st) < n \<Longrightarrow>
    delete_inner n lib c d ti i v ctx st \<noteq> None"
proof (induction n arbitrary: ti i v ctx st)
  case (Suc n)
  let ?U = "walk_space c (store d) x"
  show ?case
  proof (cases "(ti, i) \<in> del_ids st \<or> (\<nexists>y. del_before lib c d ti i v st = ok y)")
    case True
    then show ?thesis by (auto simp: del_ids_def split: option.splits sum.splits prod.splits)
  next
    case False
    then obtain meta st1 cascades where b: "del_before lib c d ti i v st = ok (meta, st1, cascades)" and new: "(ti, i) \<notin> del_ids st" by auto
    note B = del_before_okE [OF b assms]
    have found: "(\<lambda>(t, s, _). (t, s)) ` set cascades = cascade_sources c (store d) (ti, i)" using B by (simp only:)
    have ids: "del_ids st1 = insert (ti, i) (del_ids st)" using B by (simp only:)
    have "card (?U - del_ids st1) < card (?U - del_ids st)"
      using Suc.prems(1) new walk_space_card(1) by (intro psubset_card_mono) (auto simp: ids)
    then have small: "card (?U - del_ids st1) < n" using Suc.prems(2) by simp
    let ?f = "\<lambda>(cti, ci, cr, cover) st. delete_inner n lib c d cti ci False (Some (cr, cover)) st"
    have "walk_all ?f cascades st1 \<noteq> None"
    proof (rule walk_all_ends [where D = "del_ids st1"])
      fix y and s :: "'j del_state"
      assume y: "y \<in> set cascades" and s: "del_ids st1 \<subseteq> del_ids s"
      obtain cti ci cr cover where ye: "y = (cti, ci, cr, cover)" by (cases y)
      then have "(cti, ci) \<in> cascade_sources c (store d) (ti, i)" unfolding found [symmetric] using y by force
      then have "(cti, ci) \<in> ?U" using cascade_sources_space by blast
      moreover have "card (?U - del_ids s) \<le> card (?U - del_ids st1)" using s walk_space_card(1) by (intro card_mono) auto
      ultimately show "?f y s \<noteq> None" using Suc.IH [of cti ci s False "Some (cr, cover)"] small ye by simp
    next
      fix y and s s' :: "'j del_state"
      assume "?f y s = Some (ok s')"
      then show "del_ids s \<subseteq> del_ids s'" using delete_inner_grows [OF assms] by (cases y) (fastforce simp: grows_def)
    qed simp
    then show ?thesis using b new by (auto simp: del_ids_def split: option.splits sum.splits)
  qed
qed simp

lemma delete_stage_walks:
  fixes lib :: "'j json_lib"
  assumes "store_ok (store d)"
  shows "\<exists>r. delete_inner (delete_fuel c d) lib c d ti i True None ([], [], Map.empty) = Some r \<and> delete_stage lib c d ti i = r"
proof -
  have "del_ids (([], [], Map.empty) :: 'j del_state) = {}" by (simp add: del_ids_def)
  then have "card (walk_space c (store d) (ti, i) - del_ids (([], [], Map.empty) :: 'j del_state)) < delete_fuel c d"
    using walk_space_card(2) [of c "store d" "(ti, i)"] by (simp add: delete_fuel_def)
  moreover have "(ti, i) \<in> walk_space c (store d) (ti, i)" by (simp add: walk_space_def)
  ultimately show ?thesis using delete_inner_ends [OF assms] by (fastforce simp: delete_stage_def)
qed

section \<open>The whole delete\<close>

lemma store_forget [simp]: "store (foldl (\<lambda>d e. forget_version (f e) (g e) d) d es) = store d"
  by (induction es arbitrary: d) (simp_all add: forget_version_def)

lemma store_publish [simp]: "store (publish evs d) = store d"
  by (simp add: publish_def)

lemma store_settle [simp]: "store (settle_stats \<delta> d) = store d"
  by (simp add: settle_stats_def)

lemma sbind_ok: "sbind r d k = (ok y, d') \<longleftrightarrow> (\<exists>x. r = ok x \<and> k x = (ok y, d'))"
  by (auto simp: sbind_def split: option.splits sum.splits)

lemma delete_okE:
  assumes "delete_with_origin io lib c tn i origin d = (ok (), d')" "store_ok (store d)"
  obtains ti st where "type_live c tn ti"
    "delete_inner (delete_fuel c d) lib c d ti i True None ([], [], Map.empty) = Some (ok st)"
    "store d' = kv_apply (tombstones (fst (snd st))) (store d)"
proof -
  obtain ti deleted arena \<delta> where "type_live c tn ti" "delete_stage lib c d ti i = ok (deleted, arena, \<delta>)"
    "store d' = kv_apply (tombstones arena) (store d)"
    using assms(1) by (auto simp: delete_with_origin_def sbind_ok commit_ok Let_def)
  then show thesis using delete_stage_walks [OF assms(2), of c lib ti i] that [of ti "(deleted, arena, \<delta>)"] by auto
qed

lemma delete_failed:
  assumes "delete_with_origin io lib c tn i origin d = (r, d')" "r \<noteq> ok ()"
  shows "d' = d"
  using assms by (auto simp: delete_with_origin_def sbind_def Let_def split: option.splits sum.splits prod.splits)

lemma delete_walk_facts:
  assumes ok: "store_ok (store d)" and w: "delete_inner n lib c d ti i True None ([], [], Map.empty) = Some (ok st)"
  shows "del_ids st = cascaded c (store d) (ti, i)" "x \<in> cascaded c (store d) (ti, i) \<Longrightarrow> \<not> denied c (store d) x"
    "kb_object t j \<in> del_keys st \<longleftrightarrow> (t, j) \<in> cascaded c (store d) (ti, i)" "paired_keys (del_keys st)"
proof -
  let ?st0 = "([], [], Map.empty) :: 'a del_state"
  have z: "del_ids ?st0 = {}" "del_keys ?st0 = {}" "paired_keys {}" by (simp_all add: del_ids_def del_keys_def paired_keys_def)
  note g = delete_inner_grows [OF ok w]
  have sub: "x \<in> del_ids st" if "x \<in> cascaded c (store d) (ti, i)" for x
    using that
  proof induction
    case cascaded_root
    then show ?case using g by simp
  next
    case (cascaded_step y x)
    then show ?case using g z by (auto simp: grows_def)
  qed
  show ids: "del_ids st = cascaded c (store d) (ti, i)" using sub g z by auto
  show "\<not> denied c (store d) x" if "x \<in> cascaded c (store d) (ti, i)" using g z that sub by (auto simp: grows_def)
  show "kb_object t j \<in> del_keys st \<longleftrightarrow> (t, j) \<in> cascaded c (store d) (ti, i)"
  proof
    assume "kb_object t j \<in> del_keys st"
    then have "(t, j) \<in> del_ids st" using g z by (auto simp: grows_def)
    then show "(t, j) \<in> cascaded c (store d) (ti, i)" using ids by simp
  next
    assume "(t, j) \<in> cascaded c (store d) (ti, i)"
    then have "(t, j) \<in> del_ids st - del_ids ?st0" using ids z by simp
    moreover have "\<forall>x \<in> del_ids st - del_ids ?st0. kb_object (fst x) (snd x) \<in> del_keys st"
      using g by (simp only: grows_def) blast
    ultimately show "kb_object t j \<in> del_keys st" by (metis fst_conv snd_conv)
  qed
  show "paired_keys (del_keys st)" using g z by (auto simp: grows_def)
qed

lemma delete_keeps_edges:
  assumes ok: "store_ok (store d)" "edges_paired (store d)" and r: "delete_with_origin io lib c tn i origin d = (ok (), d')"
  shows "store_ok (store d') \<and> edges_paired (store d')"
proof -
  from r ok(1) obtain ti st where w: "delete_inner (delete_fuel c d) lib c d ti i True None ([], [], Map.empty) = Some (ok st)"
    and d': "store d' = kv_apply (tombstones (fst (snd st))) (store d)"
    by (rule delete_okE)
  have "paired_batch (tombstones (fst (snd st)))"
    using delete_walk_facts(4) [OF ok(1) w] by (simp add: paired_tombstones paired_keys_def del_keys_def)
  then show ?thesis using ok d' by (simp add: store_ok_apply paired_batch_apply store_ok_def [THEN iffD1])
qed

lemma delete_unlinks:
  assumes ok: "store_ok (store d)" "edges_paired (store d)"
    and w: "delete_inner (Suc n) lib c d ti i True None ([], [], Map.empty) = Some (ok st)" and meta: "cascade_meta_by_id c ti = Some meta"
  shows "inc \<in> set (incoming_relations c ti) \<Longrightarrow> rev_linked (store d) s (inc_rel_id inc) i \<Longrightarrow>
      {kb_edge s (inc_rel_id inc) i, kb_reverse_edge i (inc_rel_id inc) s} \<subseteq> del_keys st"
    "rel \<in> set (cm_forward_relations meta) \<Longrightarrow> linked (store d) i (fwd_rel_id rel) t \<Longrightarrow>
      {kb_edge i (fwd_rel_id rel) t, kb_reverse_edge t (fwd_rel_id rel) i} \<subseteq> del_keys st"
proof -
  have "(ti, i) \<notin> del_ids (([], [], Map.empty) :: 'a del_state)" by (simp add: del_ids_def)
  with w obtain meta' st1 cascades st2 where b: "del_before lib c d ti i True ([], [], Map.empty) = ok (meta', st1, cascades)"
    and wk: "walk_all (\<lambda>(cti, ci, cr, cover) st. delete_inner n lib c d cti ci False (Some (cr, cover)) st) cascades st1 = Some (ok st2)"
    and st: "st = (fst st2, fst (snd st2) @ del_outbound (store d) meta' i None @ del_own d ti i, snd (snd st2))"
    by (rule delete_inner_okE)
  note B = del_before_okE [OF b ok(1)]
  have meta': "meta' = meta" using B meta by simp
  have "grows c (store d) st1 st2 \<and> (\<lambda>_. (ti, i)) ` {} \<subseteq> del_ids st2 \<and> del_ids st2 \<subseteq> del_ids st1 \<union> UNIV"
  proof -
    have "grows c (store d) s s' \<and> (\<lambda>(t, s, _). (t, s)) x \<in> del_ids s' \<and> del_ids s' \<subseteq> del_ids s \<union> UNIV"
      if "(case x of (cti, ci, cr, cover) \<Rightarrow> delete_inner n lib c d cti ci False (Some (cr, cover))) s = Some (ok s')" for x s s'
      using delete_inner_grows [OF ok(1)] that by (cases x) fastforce
    then show ?thesis using walk_all_grows [OF _ wk, where key = "\<lambda>(t, s, _). (t, s)" and R = UNIV] by blast
  qed
  then have k: "del_keys st1 \<subseteq> del_keys st" "set (del_outbound (store d) meta i None) \<subseteq> del_keys st"
    using st meta' by (auto simp: grows_def del_keys_def)
  show "{kb_edge s (inc_rel_id inc) i, kb_reverse_edge i (inc_rel_id inc) s} \<subseteq> del_keys st"
    if "inc \<in> set (incoming_relations c ti)" "rev_linked (store d) s (inc_rel_id inc) i"
  proof -
    have "\<forall>inc s. inc \<in> set (incoming_relations c ti) \<longrightarrow> rev_linked (store d) s (inc_rel_id inc) i \<longrightarrow> set (edge_pair s (inc_rel_id inc) i) \<subseteq> del_keys st1"
      using B by (elim conjE)
    then have "set (edge_pair s (inc_rel_id inc) i) \<subseteq> del_keys st1" using that by blast
    then show ?thesis using k(1) by (simp only: edge_pair_set)
  qed
  show "{kb_edge i (fwd_rel_id rel) t, kb_reverse_edge t (fwd_rel_id rel) i} \<subseteq> del_keys st"
    if "rel \<in> set (cm_forward_relations meta)" "linked (store d) i (fwd_rel_id rel) t"
  proof -
    have "(fwd_rel_id rel, t) \<in> out_targets (store d) meta i None" using that by (auto simp: out_targets_def covered_rel_ids_def)
    then show ?thesis using k(2) by (force simp: set_del_outbound [OF ok(1)] subset_iff)
  qed
qed

end
