(* ===== verification/Engine_Sample.thy ===== *)
theory Engine_Sample
  imports Engine_Cascade
begin

text \<open>
  A small database on which the properties of the engine are instantiated and its errors shown: users, movies, and ratings that
  link one user to one movie, where a rating goes with its user and a movie that has ratings cannot be deleted. Every state is
  what the operations return, evaluated with the keys kept symbolic.
\<close>

named_theorems run \<open>evaluation of operations on the sample\<close>

section \<open>Evaluation\<close>

lemma film_key_order [run]:
  "kb_object t i < kb_object t' i' \<longleftrightarrow> t < t' \<or> t = t' \<and> i < i'"
  "kb_edge s r u < kb_edge s' r' u' \<longleftrightarrow> s < s' \<or> s = s' \<and> (r < r' \<or> r = r' \<and> u < u')"
  "kb_reverse_edge u r s < kb_reverse_edge u' r' s' \<longleftrightarrow> u < u' \<or> u = u' \<and> (r < r' \<or> r = r' \<and> s < s')"
  "kb_edge s r u < kb_object t i" "\<not> kb_object t i < kb_edge s r u"
  "kb_object t i < kb_reverse_edge u r s" "\<not> kb_reverse_edge u r s < kb_object t i"
  "kb_edge s r u < kb_reverse_edge u' r' s'" "\<not> kb_reverse_edge u' r' s' < kb_edge s r u"
  by (auto simp: edge_key_defs less_append_eqlen)

lemma key_prefixes [run]:
  "\<not> prefix (kb_edge_prefix s r) (kb_object t i)" "\<not> prefix (kb_edge_prefix s r) (kb_reverse_edge u r' s')"
  "\<not> prefix (kb_reverse_edge_prefix u r) (kb_object t i)" "\<not> prefix (kb_reverse_edge_prefix u r) (kb_edge s r' u')"
  by (auto simp: edge_key_defs)

lemma utf8_lit [run]: "utf8 (lit s) = map (\<lambda>ch. of_nat (of_char ch)) s" if "\<forall>ch \<in> set s. (of_char ch :: nat) < 128"
  using that by (induction s) (auto simp: utf8_def lit_def utf8_char_def)

lemma qual_lit [run]: "qual (lit s) (lit t) = lit (s @ ''.'' @ t)"
  by (simp add: qual_def lit_def)

lemma kv_scan_eval [run]: "kv_scan [] p = []" "kv_scan ((k, v) # m) p = (if prefix p k then (k, v) # kv_scan m p else kv_scan m p)"
  by (simp_all add: kv_scan_def)

lemma kv_put_eval [run]:
  "kv_ok ((k', v') # m) \<Longrightarrow> kv_put k v ((k', v') # m) = (if k' < k then (k', v') # kv_put k v m else if k' = k then (k, v) # m else (k, v) # (k', v') # m)"
  by (auto simp: kv_put_Cons kv_ok_Cons dropWhile_above)

lemma kv_del_eval [run]: "kv_del k [] = []" "kv_del k ((k', v') # m) = (if k' = k then kv_del k m else (k', v') # kv_del k m)"
  by (simp_all add: kv_del_def)

lemma kv_write_eval [run]: "kv_write m (k, Some v) = kv_put k v m" "kv_write m (k, None) = kv_del k m"
  by (simp_all add: kv_write_def)

lemma find_u64_serialized:
  assumes "fields_ok lib fs"
  shows "find_u64_field_in_raw (serialize_fields lib fs) k = Option.bind (map_of fs k) as_u64"
  using read_count [OF assms] find_u64_loop_fields [OF read_count(3,4) [OF assms]] by (simp add: find_u64_field_in_raw_def)

lemma serialized_not_Nil: "serialize_fields lib fs \<noteq> []"
proof -
  have "2 \<le> length (serialize_fields lib fs)" by (simp add: serialize_fields_bytes)
  then show ?thesis by auto
qed

lemma utf8_ok_ascii: "\<forall>b \<in> set bs. b < 128 \<Longrightarrow> utf8_ok bs"
  by (induction bs) (simp_all add: utf8_ok.simps utf8_step_def)

lemmas run_store [run] = kv_apply_Cons kv_ok_Cons puts_def tombstones_def

section \<open>The catalog\<close>

definition rel_field :: "string \<Rightarrow> string \<Rightarrow> bool \<Rightarrow> Directive list \<Rightarrow> FieldDef" where
  "rel_field n target many ds =
     \<lparr>fd_name = lit n, fd_field_type = Relation \<lparr>target_type = lit target, is_many = many, edge_fields = []\<rparr>, fd_directives = ds\<rparr>"

definition user_type :: TypeDef where
  "user_type = \<lparr>td_name = lit ''User'',
     td_fields = [rel_field ''ratings'' ''Rating'' True [Inverse \<lparr>inv_type_name = lit ''Rating'', inv_field_name = lit ''user''\<rparr>]]\<rparr>"

definition movie_type :: TypeDef where
  "movie_type = \<lparr>td_name = lit ''Movie'', td_fields = []\<rparr>"

definition rating_type :: TypeDef where
  "rating_type = \<lparr>td_name = lit ''Rating'',
     td_fields = [rel_field ''user'' ''User'' False [OnDelete Cascade], rel_field ''movie'' ''Movie'' False []]\<rparr>"

definition film_catalog :: catalog where
  "film_catalog = \<lparr>c_schema = [(lit ''User'', user_type), (lit ''Movie'', movie_type), (lit ''Rating'', rating_type)],
     c_type_ids = [(lit ''User'', 1), (lit ''Movie'', 2), (lit ''Rating'', 3)],
     field_ids = Map.empty,
     rel_ids = map_of [(lit ''User.ratings'', 1), (lit ''Rating.user'', 2), (lit ''Rating.movie'', 3)],
     tombstoned_type_ids = {}, tombstoned_rel_ids = {}, tombstoned_field_quals = {}, retired_field_names_by_type = (\<lambda>_. []),
     retired_at_ms_by_type_id = Map.empty, retired_at_ms_by_field_id = Map.empty, retired_at_ms_by_rel_id = Map.empty,
     migrated = False, fulltext_fields = (\<lambda>_. []), storage_get = map_of\<rparr>"

lemma film_fields [run]:
  "fd_name (rel_field n t m ds) = lit n" "fd_field_type (rel_field n t m ds) = Relation \<lparr>target_type = lit t, is_many = m, edge_fields = []\<rparr>"
  "is_unique (rel_field n t m ds) = (Schema.Unique \<in> set ds)" "is_indexed (rel_field n t m ds) = (Indexed \<in> set ds)"
  "td_fields user_type = [rel_field ''ratings'' ''Rating'' True [Inverse \<lparr>inv_type_name = lit ''Rating'', inv_field_name = lit ''user''\<rparr>]]"
  "td_fields movie_type = []"
  "td_fields rating_type = [rel_field ''user'' ''User'' False [OnDelete Cascade], rel_field ''movie'' ''Movie'' False []]"
  by (auto simp: rel_field_def user_type_def movie_type_def rating_type_def is_unique_def is_indexed_def)

lemma film_inverse [run]:
  "forward_field (rel_field n t m (Inverse iv # ds)) = None"
  "forward_field (rel_field n t m [OnDelete p]) = Some \<lparr>target_type = lit t, is_many = m, edge_fields = []\<rparr>"
  "forward_field (rel_field n t m []) = Some \<lparr>target_type = lit t, is_many = m, edge_fields = []\<rparr>"
  "fd_inverse (rel_field n t m (Inverse iv # ds)) = Some iv" "fd_inverse (rel_field n t m [OnDelete p]) = None" "fd_inverse (rel_field n t m []) = None"
  "default_policy (rel_field n t m [OnDelete p]) rel = p" "default_policy (rel_field n t m []) rel = (if is_many rel then Remove else Deny)"
  by (simp_all add: forward_field_def fd_inverse_def rel_field_def default_policy_def fd_on_delete_def)

lemma film_lookup [run]:
  "type_ids film_catalog = map_of [(lit ''User'', 1), (lit ''Movie'', 2), (lit ''Rating'', 3)]"
  "rel_ids film_catalog = map_of [(lit ''User.ratings'', 1), (lit ''Rating.user'', 2), (lit ''Rating.movie'', 3)]"
  "c_schema film_catalog = [(lit ''User'', user_type), (lit ''Movie'', movie_type), (lit ''Rating'', rating_type)]"
  "tombstoned_rel_ids film_catalog = {}" "fulltext_fields film_catalog tn = []" "retired_field_names_by_type film_catalog tn = []"
  by (simp_all add: film_catalog_def)

lemma film_types [run]:
  "resolve_type_id film_catalog (lit ''User'') = ok 1" "resolve_type_id film_catalog (lit ''Movie'') = ok 2" "resolve_type_id film_catalog (lit ''Rating'') = ok 3"
  "schema_type film_catalog (lit ''User'') = ok user_type" "schema_type film_catalog (lit ''Movie'') = ok movie_type"
  "schema_type film_catalog (lit ''Rating'') = ok rating_type"
  by (simp_all add: resolve_type_id_def schema_type_def film_catalog_def get_type_def)

lemma film_indexed [run]: "indexed_fields film_catalog (lit tn) = []"
  by (auto simp: indexed_fields_def run get_type_def map_filter_def split: option.split)

lemma film_meta [run]:
  "cascade_meta_by_id film_catalog 1 = Some \<lparr>cm_type_name = lit ''User'', cm_has_unique = False, cm_has_indexed = False, cm_has_scalar = False,
     cm_forward_relations = []\<rparr>"
  "cascade_meta_by_id film_catalog 2 = Some \<lparr>cm_type_name = lit ''Movie'', cm_has_unique = False, cm_has_indexed = False, cm_has_scalar = False,
     cm_forward_relations = []\<rparr>"
  "cascade_meta_by_id film_catalog 3 = Some \<lparr>cm_type_name = lit ''Rating'', cm_has_unique = False, cm_has_indexed = False, cm_has_scalar = False,
     cm_forward_relations = [\<lparr>fwd_field_name = lit ''user'', fwd_rel_id = 2, fwd_is_many = False\<rparr>, \<lparr>fwd_field_name = lit ''movie'', fwd_rel_id = 3, fwd_is_many = False\<rparr>]\<rparr>"
  by (simp_all add: cascade_meta_by_id_def run type_meta_def is_scalar_field_def forward_meta_def map_filter_def)

lemma film_incoming [run]:
  "incoming_relations film_catalog 1 = [\<lparr>inc_source_type_id = 3, inc_source_type = lit ''Rating'', inc_source_field = lit ''user'', inc_rel_id = 2,
     inc_is_many = False, inc_policy = Cascade\<rparr>]"
  "incoming_relations film_catalog 2 = [\<lparr>inc_source_type_id = 3, inc_source_type = lit ''Rating'', inc_source_field = lit ''movie'', inc_rel_id = 3,
     inc_is_many = False, inc_policy = Deny\<rparr>]"
  "incoming_relations film_catalog 3 = []"
  by (simp_all add: incoming_relations_def incoming_of_field_def run)

section \<open>Creating the objects\<close>

definition empty_db :: "bytes db" where
  "empty_db = \<lparr>store = [], store_version = 0, next_object_id = 1, version_counters = Map.empty, published = [],
     fulltext_stats = Map.empty, cover_refresh = []\<rparr>"

definition created :: "string \<Rightarrow> bytes FieldMap \<Rightarrow> bytes db \<Rightarrow> bytes db" where
  "created tn fs d = snd (create_with_origin Lands text_json film_catalog (lit tn) fs None d)"

definition blank :: bytes where
  "blank = serialize_fields text_json []"

lemma blank_fields [run]: "stored_fields text_json blank = ok []" "blank \<noteq> []"
proof -
  have f: "fields_ok text_json ([] :: bytes FieldMap)" by (simp add: fields_ok_def)
  then have "length (serialize_fields text_json ([] :: bytes FieldMap)) < 2 ^ 64" by (simp add: serialize_fields_bytes)
  then show "stored_fields text_json blank = ok []" by (simp add: stored_fields_def blank_def deserialize_serialize [OF f])
  have "length blank = 2" by (simp add: blank_def serialize_fields_bytes)
  then show "blank \<noteq> []" by auto
qed

text \<open>An object without fields is one row.\<close>

lemma create_blank:
  assumes "resolve_type_id film_catalog (lit tn) = (ok ti :: (bytes, u64) eres)" "schema_type film_catalog (lit tn) = (ok td :: (bytes, TypeDef) eres)"
  shows "store (created tn [] d) = kv_put (kb_object ti (next_object_id d)) blank (store d)"
    "next_object_id (created tn [] d) = next_object_id d + 1"
    "version_counters (created tn [] d) = version_counters (bump_version ti (next_object_id d) d)"
  using assms
  by (simp_all add: created_def create_with_origin_def sbind_def Let_def stage_create_writes_def inline_edges_def object_rows_def
      fulltext_docs_def run map_filter_def commit_def publish_def settle_stats_def bump_version_def blank_def del: lookup_ok)

definition films0 :: "bytes db" where
  "films0 = created ''Movie'' [] (created ''Movie'' [] (created ''User'' [] empty_db))"

lemma films0_state [run]:
  "store films0 = [(kb_object 1 1, blank), (kb_object 2 2, blank), (kb_object 2 3, blank)]"
  "next_object_id films0 = 4" "version_counters films0 = [(1, 1) \<mapsto> 1, (2, 2) \<mapsto> 1, (2, 3) \<mapsto> 1]"
  by (simp_all add: films0_def create_blank [OF film_types(1,4)] create_blank [OF film_types(2,5)] empty_db_def run bump_version_def or_zero_def)

text \<open>The rating of the first user for the first movie, and the covers of its reverse edges.\<close>

definition rating_fields :: "bytes FieldMap" where
  "rating_fields = [(utf8 (lit ''user''), VU64 1), (utf8 (lit ''movie''), VU64 2)]"

definition films :: "bytes db" where
  "films = created ''Rating'' rating_fields films0"

definition user_cover :: "bytes FieldMap" where
  "user_cover = [(utf8 (lit ''user''), VU64 1), (utf8 (lit ''movie''), VU64 2), (cover_name (lit ''movie''), VBytes blank),
     (cover_v_name (lit ''movie''), VU64 1)]"

definition movie_cover :: "bytes FieldMap" where
  "movie_cover = [(utf8 (lit ''movie''), VU64 2), (utf8 (lit ''user''), VU64 1), (cover_name (lit ''user''), VBytes blank),
     (cover_v_name (lit ''user''), VU64 1)]"

lemma cover_names [run]: "cover_name (lit f) = utf8 (lit (f @ ''__cover''))" "cover_v_name (lit f) = utf8 (lit (f @ ''__cover_v''))"
  by (simp_all add: cover_name_def cover_v_name_def lit_def)

lemma rating_links [run]:
  "split_fields film_catalog (films0\<lparr>next_object_id := 5\<rparr>) (lit ''Rating'') rating_type rating_fields ([], []) = ok ([],
     [\<lparr>lk_field = lit ''user'', lk_target = 1, lk_target_type = lit ''User'', lk_target_data = blank, lk_target_version = 1, lk_rel_id = 2, lk_is_1to1_forward = True\<rparr>,
      \<lparr>lk_field = lit ''movie'', lk_target = 2, lk_target_type = lit ''Movie'', lk_target_data = blank, lk_target_version = 1, lk_rel_id = 3, lk_is_1to1_forward = True\<rparr>])"
  by (simp add: rating_fields_def field_named_def run validate_value_def inline_link_def object_version_def or_zero_def rel_id_of_def)

lemma no_nested [run]: "with_nested_forward_covers text_json film_catalog d (lit ''User'') data i = ok data"
  "with_nested_forward_covers text_json film_catalog d (lit ''Movie'') data i = ok data"
  by (simp_all add: with_nested_forward_covers_def run get_type_def single_forward_def)

abbreviation link_user :: create_link where
  "link_user \<equiv> \<lparr>lk_field = lit ''user'', lk_target = 1, lk_target_type = lit ''User'', lk_target_data = blank, lk_target_version = 1, lk_rel_id = 2, lk_is_1to1_forward = True\<rparr>"

abbreviation link_movie :: create_link where
  "link_movie \<equiv> \<lparr>lk_field = lit ''movie'', lk_target = 2, lk_target_type = lit ''Movie'', lk_target_data = blank, lk_target_version = 1, lk_rel_id = 3, lk_is_1to1_forward = True\<rparr>"

lemma rating_covers [run]:
  "build_inflight_cover text_json film_catalog d [] [link_user, link_movie] 0 = ok (serialize_fields text_json user_cover)"
  "build_inflight_cover text_json film_catalog d [] [link_user, link_movie] (Suc 0) = ok (serialize_fields text_json movie_cover)"
  by (simp_all add: build_inflight_cover_def upt_conv_Cons run user_cover_def movie_cover_def)

lemma rating_edges [run]:
  "inline_edges text_json film_catalog d 4 [] [link_user, link_movie] =
     ok [(kb_edge 4 2 1, []), (kb_reverse_edge 1 2 4, serialize_fields text_json user_cover),
         (kb_edge 4 3 2, []), (kb_reverse_edge 2 3 4, serialize_fields text_json movie_cover)]"
  by (simp add: inline_edges_def upt_conv_Cons rating_covers)

lemma films_eq:
  "films = publish [event (store_version films0 + 1) ChCreate (lit ''Rating'') 4 (Some []) None] (settle_stats Map.empty
     (films0\<lparr>next_object_id := 5, version_counters := (version_counters films0)((3, 4) \<mapsto> 1),
       store := kv_apply (puts [(kb_object 3 4, blank), (kb_edge 4 2 1, []), (kb_reverse_edge 1 2 4, serialize_fields text_json user_cover),
         (kb_edge 4 3 2, []), (kb_reverse_edge 2 3 4, serialize_fields text_json movie_cover)]) (store films0),
       store_version := store_version films0 + 1\<rparr>))"
  by (simp add: films_def created_def create_with_origin_def sbind_def film_types films0_state stage_create_writes_def rating_links rating_edges
      object_rows_def film_indexed map_filter_def fulltext_docs_def film_lookup blank_def [symmetric] commit_def bump_version_def or_zero_def
      del: lookup_ok)

lemma films_state [run]:
  "store films = [(kb_edge 4 2 1, []), (kb_edge 4 3 2, []), (kb_object 1 1, blank), (kb_object 2 2, blank), (kb_object 2 3, blank), (kb_object 3 4, blank),
     (kb_reverse_edge 1 2 4, serialize_fields text_json user_cover), (kb_reverse_edge 2 3 4, serialize_fields text_json movie_cover)]"
  "next_object_id films = 5" "version_counters films = [(1, 1) \<mapsto> 1, (2, 2) \<mapsto> 1, (2, 3) \<mapsto> 1, (3, 4) \<mapsto> 1]"
  by (simp_all add: films_eq publish_def settle_stats_def films0_state run_store film_key_order kv_write_eval kv_put_eval)

section \<open>A rating moves to another movie\<close>

definition unlinked_films :: "bytes db" where
  "unlinked_films = (case unlink Lands film_catalog films (lit ''Rating'') 4 (lit ''movie'') 2 of Some (Inr d) \<Rightarrow> d | _ \<Rightarrow> films)"

definition moved_films :: "bytes db" where
  "moved_films = (case link Lands text_json film_catalog unlinked_films (lit ''Rating'') 4 (lit ''movie'') 3 None of Some (Inr d) \<Rightarrow> d | _ \<Rightarrow> films)"

definition moved_cover :: "bytes FieldMap" where
  "moved_cover = [(utf8 (lit ''movie''), VU64 3), (utf8 (lit ''user''), VU64 1), (cover_name (lit ''user''), VBytes blank),
     (cover_v_name (lit ''user''), VU64 1)]"

lemma unlink_films: "unlink Lands film_catalog films (lit ''Rating'') 4 (lit ''movie'') 2 =
   ok (films\<lparr>store := [(kb_edge 4 2 1, []), (kb_object 1 1, blank), (kb_object 2 2, blank), (kb_object 2 3, blank), (kb_object 3 4, blank),
     (kb_reverse_edge 1 2 4, serialize_fields text_json user_cover)], store_version := store_version films + 1\<rparr>)"
  by (simp add: unlink_def unlink_stage_def film_types rel_id_of_def live_rel_def qual_lit film_lookup commit_def films_state run_store
      kv_write_eval kv_del_eval del: lookup_ok)

lemma unlinked_films_state [run]:
  "store unlinked_films = [(kb_edge 4 2 1, []), (kb_object 1 1, blank), (kb_object 2 2, blank), (kb_object 2 3, blank), (kb_object 3 4, blank),
     (kb_reverse_edge 1 2 4, serialize_fields text_json user_cover)]"
  "version_counters unlinked_films = version_counters films"
  by (simp_all add: unlinked_films_def unlink_films)

lemma moved_rev_value [run]:
  "build_covering_rev_value text_json film_catalog unlinked_films (lit ''Rating'') 4 (Some blank) (lit ''movie'') 3 = ok (serialize_fields text_json moved_cover)"
  by (simp add: build_covering_rev_value_def get_type_def film_lookup film_fields film_inverse single_forward_def qual_lit first_target_def scan_prefix_def
      decode_edge_entries_def unlinked_films_state kv_scan_eval key_prefixes edge_value_def blank_fields no_nested object_version_def films_state or_zero_def
      moved_cover_def utf8_lit cover_names Let_def)

lemma link_films: "link Lands text_json film_catalog unlinked_films (lit ''Rating'') 4 (lit ''movie'') 3 None =
   ok (unlinked_films\<lparr>store := [(kb_edge 4 2 1, []), (kb_edge 4 3 3, []), (kb_object 1 1, blank), (kb_object 2 2, blank), (kb_object 2 3, blank), (kb_object 3 4, blank),
     (kb_reverse_edge 1 2 4, serialize_fields text_json user_cover), (kb_reverse_edge 3 3 4, serialize_fields text_json moved_cover)],
     store_version := store_version unlinked_films + 1\<rparr>)"
  by (simp add: link_def link_stage_def film_types live_field_def field_relation_def get_field_def film_fields qual_lit film_lookup unlinked_films_state
      live_rel_def moved_rev_value commit_def run_store kv_write_eval kv_put_eval film_key_order del: lookup_ok)

lemma moved_films_state [run]:
  "store moved_films = [(kb_edge 4 2 1, []), (kb_edge 4 3 3, []), (kb_object 1 1, blank), (kb_object 2 2, blank), (kb_object 2 3, blank), (kb_object 3 4, blank),
     (kb_reverse_edge 1 2 4, serialize_fields text_json user_cover), (kb_reverse_edge 3 3 4, serialize_fields text_json moved_cover)]"
  "version_counters moved_films = version_counters films"
  by (simp_all add: moved_films_def link_films unlinked_films_state)

section \<open>The user is deleted\<close>

lemma user_cover_movie [run]: "find_u64_field_in_raw (serialize_fields text_json user_cover) (utf8 (lit ''movie'')) = Some 2"
proof -
  have "length blank = 2" by (simp add: blank_def serialize_fields_bytes)
  then have "fields_ok text_json user_cover"
    by (simp add: fields_ok_def field_ok_def user_cover_def cover_names utf8_lit utf8_ok_ascii)
  then show ?thesis by (simp add: find_u64_serialized) (simp add: user_cover_def cover_names utf8_lit)
qed

lemma scan_raw_eval [run]: "scan_prefix_raw m p = map (\<lambda>(k, v). (tail_id k, v)) (filter (\<lambda>e. 8 \<le> length (fst e)) (kv_scan m p))"
  by (rule scan_prefix_raw_def)

lemma del_rating:
  "delete_inner (Suc n) text_json film_catalog moved_films 3 4 False (Some (2, serialize_fields text_json user_cover)) ([((1, 1), None)], arena, \<delta>) =
     Some (ok ([((3, 4), None), ((1, 1), None)], arena @ [kb_edge 4 3 2, kb_reverse_edge 2 3 4, kb_object 3 4], \<delta>))"
  by (simp add: del_before_def meta_of_def film_meta del_payload_def film_incoming del_outbound_def cover_targets_def covered_rel_ids_def
      serialized_not_Nil user_cover_movie map_filter_def edge_pair_def del_own_def moved_films_state films_state)

lemma del_user:
  "delete_inner (Suc (Suc n)) text_json film_catalog moved_films 1 1 True None ([], [], Map.empty) =
     Some (ok ([((3, 4), None), ((1, 1), None)],
       [kb_edge 4 2 1, kb_reverse_edge 1 2 4, kb_edge 4 3 2, kb_reverse_edge 2 3 4, kb_object 3 4, kb_object 1 1], Map.empty))"
  by (subst delete_inner.simps(2)) (simp add: del_before_def meta_of_def film_meta del_payload_def film_incoming moved_films_state films_state blank_fields
      unique_tombstones_def index_tombstones_def film_indexed map_filter_def film_lookup scan_raw_eval kv_scan_eval key_prefixes edge_pair_def
      del_rating del_outbound_def cover_targets_def del_own_def del: delete_inner.simps)

definition stale_films :: "bytes db" where
  "stale_films = snd (delete_with_origin Lands text_json film_catalog (lit ''User'') 1 None moved_films)"

lemma delete_user:
  "fst (delete_with_origin Lands text_json film_catalog (lit ''User'') 1 None moved_films) = ok ()"
  "store stale_films = [(kb_edge 4 3 3, []), (kb_object 2 2, blank), (kb_object 2 3, blank), (kb_reverse_edge 3 3 4, serialize_fields text_json moved_cover)]"
proof -
  have st: "delete_stage text_json film_catalog moved_films 1 1 = ok ([((3, 4), None), ((1, 1), None)],
       [kb_edge 4 2 1, kb_reverse_edge 1 2 4, kb_edge 4 3 2, kb_reverse_edge 2 3 4, kb_object 3 4, kb_object 1 1], Map.empty)"
    unfolding delete_stage_def delete_fuel_def by (simp add: del_user del: delete_inner.simps)
  show "fst (delete_with_origin Lands text_json film_catalog (lit ''User'') 1 None moved_films) = ok ()"
    by (simp add: delete_with_origin_def film_types sbind_def st commit_def Let_def del: lookup_ok)
  show "store stale_films = [(kb_edge 4 3 3, []), (kb_object 2 2, blank), (kb_object 2 3, blank), (kb_reverse_edge 3 3 4, serialize_fields text_json moved_cover)]"
    by (simp add: stale_films_def delete_with_origin_def film_types sbind_def st commit_def Let_def moved_films_state run_store kv_write_eval kv_del_eval
        forget_version_def del: lookup_ok)
qed

lemma delete_movie:
  "fst (delete_with_origin Lands text_json film_catalog (lit ''Movie'') 3 None stale_films) = err (DeleteDenied (lit ''Movie'') 3 (lit ''Rating'') (lit ''movie''))"
  by (simp add: delete_with_origin_def film_types sbind_def delete_stage_def delete_fuel_def del_before_def meta_of_def film_meta del_payload_def
      film_incoming delete_user(2) blank_fields unique_tombstones_def index_tombstones_def film_indexed map_filter_def film_lookup scan_raw_eval kv_scan_eval
      key_prefixes del: lookup_ok)

section \<open>A link and a delete at the same snapshot\<close>

lemma raced_rev_value:
  "build_covering_rev_value text_json film_catalog films (lit ''Rating'') 4 (Some blank) (lit ''movie'') 3 = ok (serialize_fields text_json moved_cover)"
  by (simp add: build_covering_rev_value_def get_type_def film_lookup film_fields film_inverse single_forward_def qual_lit first_target_def scan_prefix_def
      decode_edge_entries_def films_state kv_scan_eval key_prefixes edge_value_def blank_fields no_nested object_version_def or_zero_def
      moved_cover_def utf8_lit cover_names Let_def)

definition race_link :: writes where
  "race_link = [(kb_edge 4 3 3, Some []), (kb_reverse_edge 3 3 4, Some (serialize_fields text_json moved_cover))]"

lemma raced_link: "link_stage text_json film_catalog films (lit ''Rating'') 4 (lit ''movie'') 3 None = ok race_link"
  by (simp add: link_stage_def film_types live_field_def field_relation_def get_field_def film_fields qual_lit film_lookup films_state
      live_rel_def raced_rev_value race_link_def del: lookup_ok)

lemma raced_delete: "delete_stage text_json film_catalog films 2 3 = ok ([((2, 3), None)], [kb_object 2 3], Map.empty)"
  by (simp add: delete_stage_def delete_fuel_def del_before_def meta_of_def film_meta del_payload_def
      film_incoming films_state blank_fields unique_tombstones_def index_tombstones_def film_indexed map_filter_def film_lookup scan_raw_eval kv_scan_eval
      key_prefixes del_outbound_def cover_targets_def del_own_def)

section \<open>The sample is well-formed\<close>

lemma object_key_ok [simp]: "edge_key_ok (kb_object t i)"
  by (auto simp: edge_key_ok_def edge_key_defs)

lemma list_store_ok: "kv_ok m \<Longrightarrow> \<forall>e \<in> set m. edge_key_ok (fst e) \<Longrightarrow> store_ok m"
  by (force simp: store_ok_def edge_keys_ok_def dest: map_of_SomeD)

lemma films_ok: "store_ok (store films)" "store_ok (store moved_films)" "store_ok (store unlinked_films)"
  by (rule list_store_ok; simp add: run)+

lemma films_paired: "edges_paired (store films)" "edges_paired (store moved_films)"
  by (auto simp: edges_paired_def linked_def rev_linked_def present_def films_state moved_films_state)

lemma film_live: "type_live film_catalog (lit ''User'') 1" "type_live film_catalog (lit ''Movie'') 2"
  by (simp_all add: type_live_def film_catalog_def)

end
