(* ===== verification/Engine_Unique.thy ===== *)
theory Engine_Unique
  imports Engine_Cascade
begin

text \<open>
  What the batches of the engine's operations keep, whatever other transactions commit between the snapshot of
  an operation and its own commit: every non-null value of a unique field of a stored object has its entry in the unique
  index, with the id of that object, and the two keys of an edge are stored together. A batch was staged from the snapshot \<open>m0\<close>;
  it lands on a state \<open>m\<close> in which the keys it writes have the values they had (\<open>unchanged\<close>), which \<open>Engine_Run\<close> derives from the conflict check.
\<close>

section \<open>Kinds of keys\<close>

lemma key_kind [simp]:
  "hd (kb_object t i) = 111" "hd (kb_edge s r u) = 101" "hd (kb_reverse_edge u r s) = 114" "hd (kb_unique_index t f b) = 117"
  "hd (kb_field_index t f b i) = 105" "hd (kb_field_index_var t f b i) = 105" "hd (kb_fulltext_posting t f g b i) = 102"
  "hd (kb_fulltext_doc t f g i) = 108" "hd (kb_object_version t i) = 103" "hd (posting_key ti ff i tm) = 102" "hd (doc_key ti ff i) = 108"
  by (simp_all add: edge_key_defs posting_key_def doc_key_def)

lemma unique_key_inject: "kb_unique_index t f b = kb_unique_index t' f' b' \<longleftrightarrow> t = t' \<and> f = f' \<and> b = b'"
  by (auto simp: edge_key_defs)

lemma unique_object_keys [simp]: "kb_unique_index t f b \<noteq> kb_object t' i" "kb_object t' i \<noteq> kb_unique_index t f b"
  by (simp_all add: edge_key_defs)

lemma key_not_Nil [simp]: "kb_object t i \<noteq> []" "kb_unique_index t f b \<noteq> []" "posting_key ti ff i tm \<noteq> []" "doc_key ti ff i \<noteq> []" "kb_object_version t i \<noteq> []"
  by (simp_all add: edge_key_defs posting_key_def doc_key_def)

lemma other_kind_ok: "k \<noteq> [] \<Longrightarrow> hd k \<noteq> 101 \<Longrightarrow> hd k \<noteq> 114 \<Longrightarrow> edge_key_ok k"
  by (cases k) (auto simp: edge_key_ok_def edge_key_defs)

text \<open>Rows that are neither objects, edges nor unique entries.\<close>

definition side_key :: "bytes \<Rightarrow> bool" where
  "side_key k \<longleftrightarrow> k \<noteq> [] \<and> hd k \<in> {102, 103, 105, 108}"

lemma side_key_other [simp]:
  "side_key k \<Longrightarrow> k \<noteq> kb_object t i" "side_key k \<Longrightarrow> k \<noteq> kb_edge s r u" "side_key k \<Longrightarrow> k \<noteq> kb_reverse_edge u r s"
  "side_key k \<Longrightarrow> k \<noteq> kb_unique_index t f b" "side_key k \<Longrightarrow> edge_key_ok k"
  by (auto simp: side_key_def intro: other_kind_ok)

lemma side_keys [simp]:
  "side_key (kb_field_index t f b i)" "side_key (kb_field_index_var t f b i)" "side_key (kb_fulltext_posting t f g b i)"
  "side_key (kb_fulltext_doc t f g i)" "side_key (kb_object_version t i)" "side_key (posting_key ti ff i tm)" "side_key (doc_key ti ff i)"
  by (simp_all add: side_key_def edge_key_defs posting_key_def doc_key_def)

lemma field_index_side: "build_field_index_key ti fi kind v i = Some k \<Longrightarrow> side_key k"
  by (auto simp: build_field_index_key_def split: IndexedKind.splits Value.splits)

lemma index_key_side: "index_key_of ti i ifd vo = Some k \<Longrightarrow> side_key k"
  by (auto simp: index_key_of_def dest: field_index_side split: option.splits if_splits)

section \<open>The unique index\<close>

text \<open>The unique entry that a field of an object of type \<open>ti\<close> asks for.\<close>

definition needs :: "'j json_lib \<Rightarrow> catalog \<Rightarrow> u64 \<Rightarrow> 'j FieldMap \<Rightarrow> bytes \<Rightarrow> bool" where
  "needs lib c ti fs k \<longleftrightarrow> (\<exists>tn td fd v. type_ids c tn = Some ti \<and> get_type (c_schema c) tn = Some td \<and> fd \<in> set (td_fields td) \<and>
     is_unique fd \<and> non_null fs (utf8 (fd_name fd)) = Some v \<and> unique_key lib c tn ti (fd_name fd) v = Some k)"

definition owns :: "'j json_lib \<Rightarrow> catalog \<Rightarrow> kv \<Rightarrow> u64 \<Rightarrow> u64 \<Rightarrow> bytes \<Rightarrow> bool" where
  "owns lib c m ti i k \<longleftrightarrow> (\<exists>data fs. kv_get m (kb_object ti i) = Some data \<and> stored_fields lib data = ok fs \<and> needs lib c ti fs k)"

definition unique_ok :: "'j json_lib \<Rightarrow> catalog \<Rightarrow> kv \<Rightarrow> bool" where
  "unique_ok lib c m \<longleftrightarrow> (\<forall>ti i k. owns lib c m ti i k \<longrightarrow> kv_get m k = Some (u64_be i))"

text \<open>The entries of the unique index are found when they are stored.\<close>

definition exact_unique :: "catalog \<Rightarrow> kv \<Rightarrow> bool" where
  "exact_unique c m \<longleftrightarrow> (\<forall>k v. hd k = 117 \<longrightarrow> kv_get m k = Some v \<longrightarrow> storage_get c m k = Some v)"

text \<open>Ids are given once, and the names of the fields of a type are distinct.\<close>

definition catalog_ok :: "catalog \<Rightarrow> bool" where
  "catalog_ok c \<longleftrightarrow> (\<forall>tn tn' ti. type_ids c tn = Some ti \<longrightarrow> type_ids c tn' = Some ti \<longrightarrow> tn = tn') \<and>
     (\<forall>tn td. get_type (c_schema c) tn = Some td \<longrightarrow> distinct (map (\<lambda>fd. utf8 (fd_name fd)) (td_fields td)) \<and>
       (\<forall>fd fd'. fd \<in> set (td_fields td) \<longrightarrow> fd' \<in> set (td_fields td) \<longrightarrow>
         field_ids c (qual tn (fd_name fd)) \<noteq> None \<longrightarrow> field_ids c (qual tn (fd_name fd)) = field_ids c (qual tn (fd_name fd')) \<longrightarrow> fd = fd'))"

lemma needs_key: "needs lib c ti fs k \<Longrightarrow> \<exists>f b. k = kb_unique_index ti f b"
  by (auto simp: needs_def unique_key_def)

section \<open>Batches\<close>

abbreviation final_at :: "writes \<Rightarrow> bytes \<Rightarrow> bytes option option" where
  "final_at ws k \<equiv> map_of (rev ws) k"

text \<open>What a successful conflict check implies for the keys of a batch (\<open>Engine_Run\<close>).\<close>

definition unchanged :: "writes \<Rightarrow> kv \<Rightarrow> kv \<Rightarrow> bool" where
  "unchanged ws m0 m \<longleftrightarrow> (\<forall>w \<in> set ws. kv_get m (fst w) = kv_get m0 (fst w))"

lemma unchanged_at: "unchanged ws m0 m \<Longrightarrow> final_at ws k = Some w \<Longrightarrow> kv_get m k = kv_get m0 k"
  by (fastforce simp: unchanged_def dest: map_of_SomeD)

text \<open>
  A batch that stores an object writes the unique entries it asks for or keeps those of the old version; a batch that writes
  a unique entry keeps its owner or writes the object that owned it.
\<close>

definition unique_batch :: "'j json_lib \<Rightarrow> catalog \<Rightarrow> kv \<Rightarrow> writes \<Rightarrow> bool" where
  "unique_batch lib c m0 ws \<longleftrightarrow>
     (\<forall>ti i data fs k. final_at ws (kb_object ti i) = Some (Some data) \<longrightarrow> stored_fields lib data = ok fs \<longrightarrow> needs lib c ti fs k \<longrightarrow>
        final_at ws k = Some (Some (u64_be i)) \<or> final_at ws k = None \<and> owns lib c m0 ti i k) \<and>
     (\<forall>ti f b j w. final_at ws (kb_unique_index ti f b) = Some w \<longrightarrow> kv_get m0 (kb_unique_index ti f b) = Some (u64_be j) \<longrightarrow>
        w = Some (u64_be j) \<or> final_at ws (kb_object ti j) \<noteq> None)"

lemma unique_batch_object:
  "unique_batch lib c m0 ws \<Longrightarrow> final_at ws (kb_object ti i) = Some (Some data) \<Longrightarrow> stored_fields lib data = ok fs \<Longrightarrow> needs lib c ti fs k \<Longrightarrow>
    final_at ws k = Some (Some (u64_be i)) \<or> final_at ws k = None \<and> owns lib c m0 ti i k"
  by (simp add: unique_batch_def)

lemma unique_batch_entry:
  "unique_batch lib c m0 ws \<Longrightarrow> final_at ws (kb_unique_index ti f b) = Some w \<Longrightarrow> kv_get m0 (kb_unique_index ti f b) = Some (u64_be j) \<Longrightarrow>
    w = Some (u64_be j) \<or> final_at ws (kb_object ti j) \<noteq> None"
  by (simp add: unique_batch_def)

definition edge_batch :: "kv \<Rightarrow> writes \<Rightarrow> bool" where
  "edge_batch m0 ws \<longleftrightarrow> (\<forall>s r t. batch_at ws (kb_edge s r t) = batch_at ws (kb_reverse_edge t r s) \<or>
     batch_at ws (kb_edge s r t) = None \<and> batch_at ws (kb_reverse_edge t r s) = Some True \<and> rev_linked m0 s r t)"

lemma unique_batch_apply:
  assumes m: "kv_ok m" "unique_ok lib c m" and u: "unchanged ws m0 m" and b: "unique_batch lib c m0 ws"
  shows "unique_ok lib c (kv_apply ws m)"
proof -
  have "kv_get (kv_apply ws m) k = Some (u64_be i)"
    if o: "kv_get (kv_apply ws m) (kb_object ti i) = Some data" "stored_fields lib data = ok fs" "needs lib c ti fs k" for ti i data fs k
  proof (cases "final_at ws (kb_object ti i)")
    case None
    then have "owns lib c m ti i k" using o m(1) by (auto simp: owns_def kv_get_apply)
    then have k: "kv_get m k = Some (u64_be i)" using m(2) by (simp add: unique_ok_def)
    obtain f v where kv: "k = kb_unique_index ti f v" using needs_key o(3) by blast
    have "w = Some (u64_be i)" if "final_at ws k = Some w" for w
    proof -
      have "kv_get m0 k = Some (u64_be i)" using unchanged_at [OF u that] k by simp
      then show ?thesis using that None kv unique_batch_entry [OF b] by blast
    qed
    then show ?thesis using k m(1) by (auto simp: kv_get_apply split: option.splits)
  next
    case (Some w)
    then have w: "final_at ws (kb_object ti i) = Some (Some data)" using o(1) m(1) by (simp add: kv_get_apply)
    then consider "final_at ws k = Some (Some (u64_be i))" | "final_at ws k = None" "owns lib c m0 ti i k"
      using unique_batch_object [OF b w o(2,3)] by argo
    then show ?thesis
    proof cases
      case 2
      then have "owns lib c m ti i k" using unchanged_at [OF u Some] by (simp add: owns_def)
      then show ?thesis using 2 m by (simp add: unique_ok_def kv_get_apply)
    qed (use m(1) in \<open>simp add: kv_get_apply\<close>)
  qed
  then show ?thesis by (auto simp: unique_ok_def owns_def)
qed

lemma edge_batch_apply:
  assumes "kv_ok m" "edges_paired m" "unchanged ws m0 m" "edge_batch m0 ws"
  shows "edges_paired (kv_apply ws m)"
proof -
  have "linked (kv_apply ws m) s r t \<longleftrightarrow> rev_linked (kv_apply ws m) s r t" for s r t
  proof (cases "batch_at ws (kb_edge s r t) = batch_at ws (kb_reverse_edge t r s)")
    case True
    then show ?thesis using assms(1,2) by (simp add: edges_paired_def linked_def rev_linked_def present_after split: option.split)
  next
    case False
    then have b: "batch_at ws (kb_edge s r t) = None" "batch_at ws (kb_reverse_edge t r s) = Some True" "rev_linked m0 s r t"
      using assms(4) unfolding edge_batch_def by blast+
    then obtain w where "final_at ws (kb_reverse_edge t r s) = Some w" by (auto simp: batch_at_def)
    then have "rev_linked m s r t" using unchanged_at [OF assms(3)] b(3) by (simp add: rev_linked_def present_def)
    then show ?thesis using assms(1,2) b by (simp add: edges_paired_def linked_def rev_linked_def present_after)
  qed
  then show ?thesis by (simp add: edges_paired_def)
qed

text \<open>
  A batch that keeps the pairs of edge keys and the form of keys; it keeps the unique index too when the state it was staged from
  had it and its entries were found there.
\<close>

definition sound_batch :: "'j json_lib \<Rightarrow> catalog \<Rightarrow> kv \<Rightarrow> writes \<Rightarrow> bool" where
  "sound_batch lib c m0 ws \<longleftrightarrow> (exact_unique c m0 \<and> unique_ok lib c m0 \<longrightarrow> unique_batch lib c m0 ws) \<and> edge_batch m0 ws \<and> keys_batch ws"

definition sound_store :: "kv \<Rightarrow> bool" where
  "sound_store m \<longleftrightarrow> store_ok m \<and> edges_paired m"

lemma sound_batch_apply:
  "sound_store m \<Longrightarrow> unchanged ws m0 m \<Longrightarrow> sound_batch lib c m0 ws \<Longrightarrow> sound_store (kv_apply ws m)"
  "sound_store m \<Longrightarrow> unchanged ws m0 m \<Longrightarrow> sound_batch lib c m0 ws \<Longrightarrow> exact_unique c m0 \<Longrightarrow> unique_ok lib c m0 \<Longrightarrow> unique_ok lib c m \<Longrightarrow>
    unique_ok lib c (kv_apply ws m)"
  by (auto simp: sound_store_def sound_batch_def store_ok_def [of m] intro!: unique_batch_apply edge_batch_apply store_ok_apply)

section \<open>Batches of edges\<close>

lemma final_at_None: "final_at ws k = None \<longleftrightarrow> k \<notin> fst ` set ws"
  by (simp add: map_of_eq_None_iff)

lemma final_at_puts: "final_at (puts ps) k = map_option Some (map_of (rev ps) k)"
  unfolding puts_def rev_map by (induction ps rule: rev_induct) auto

lemma unique_batch_side:
  assumes "\<And>k w. (k, w) \<in> set ws \<Longrightarrow> hd k \<noteq> 111 \<and> hd k \<noteq> 117"
  shows "unique_batch lib c m0 ws"
proof -
  have "final_at ws (kb_object ti i) = None" "final_at ws (kb_unique_index ti f b) = None" for ti i f b
    using assms by (force simp: final_at_None)+
  then show ?thesis by (simp add: unique_batch_def)
qed

lemma edge_batch_puts:
  assumes "\<And>k w. (k, w) \<in> set ws \<Longrightarrow> w \<noteq> None" "paired_keys (fst ` set ws)"
  shows "edge_batch m0 ws"
proof -
  have "batch_at ws k = (if k \<in> fst ` set ws then Some True else None)" for k
  proof (cases "final_at ws k")
    case None
    then show ?thesis by (simp add: batch_at_def final_at_None)
  next
    case (Some w)
    then have "(k, w) \<in> set ws" using map_of_SomeD by fastforce
    then show ?thesis using assms(1) Some by (force simp: batch_at_def)
  qed
  then show ?thesis using assms(2) by (simp add: edge_batch_def paired_keys_def)
qed

lemma edge_batch_tombstones: "paired_keys (set ks) \<Longrightarrow> edge_batch m0 (tombstones ks)"
  by (simp add: edge_batch_def batch_at_tombstones paired_keys_def)

text \<open>Batches that rewrite covers: they write no edge, and only the reverse edges of stored edges.\<close>

definition cover_writes :: "kv \<Rightarrow> writes \<Rightarrow> bool" where
  "cover_writes m0 ws \<longleftrightarrow> (\<forall>k w. (k, w) \<in> set ws \<longrightarrow> (\<exists>s r t v. k = kb_reverse_edge t r s \<and> w = Some v \<and> linked m0 s r t))"

lemma edge_batch_covers:
  assumes "edges_paired m0" "cover_writes m0 (filter (\<lambda>w. hd (fst w) = 101 \<or> hd (fst w) = 114) ws)"
  shows "edge_batch m0 ws"
proof -
  have ws: "\<exists>s r t v. k = kb_reverse_edge t r s \<and> w = Some v \<and> linked m0 s r t" if "(k, w) \<in> set ws" "hd k = 101 \<or> hd k = 114" for k w
    using assms(2) that by (simp add: cover_writes_def)
  have "kb_edge s r t \<notin> fst ` set ws" for s r t
    using ws by force
  then have e: "batch_at ws (kb_edge s r t) = None" for s r t by (simp add: batch_at_def final_at_None)
  have "batch_at ws (kb_reverse_edge t r s) = None \<or> batch_at ws (kb_reverse_edge t r s) = Some True \<and> rev_linked m0 s r t" for s r t
  proof (cases "final_at ws (kb_reverse_edge t r s)")
    case (Some w)
    then have "(kb_reverse_edge t r s, w) \<in> set ws" using map_of_SomeD by fastforce
    then show ?thesis using ws [of "kb_reverse_edge t r s" w] Some assms(1) by (auto simp: batch_at_def edges_paired_def)
  qed (simp add: batch_at_def)
  then show ?thesis unfolding edge_batch_def e by metis
qed

lemma link_stage_sound:
  assumes "link_stage lib c d tn i f t ef = ok ws"
  shows "sound_batch lib c m0 ws"
proof -
  from assms obtain r v w where ws: "ws = [(kb_edge i r t, Some v), (kb_reverse_edge t r i, Some w)]"
    by (elim link_stage_okE) blast
  have "edge_batch m0 ws" by (rule edge_batch_puts) (auto simp: ws paired_keys_def)
  moreover have "unique_batch lib c m0 ws" by (rule unique_batch_side) (auto simp: ws)
  ultimately show ?thesis by (simp add: sound_batch_def keys_batch_def ws)
qed

lemma unlink_stage_sound:
  assumes "unlink_stage c tn i f t = (ok ws :: ('j, _) eres)"
  shows "sound_batch (lib :: 'j json_lib) c m0 ws"
proof -
  from assms obtain r where ws: "ws = tombstones [kb_edge i r t, kb_reverse_edge t r i]"
    by (auto simp: unlink_stage_def dbind_ok)
  have "edge_batch m0 ws" unfolding ws by (rule edge_batch_tombstones) (auto simp: paired_keys_def)
  moreover have "unique_batch lib c m0 ws" by (rule unique_batch_side) (auto simp: ws tombstones_def)
  ultimately show ?thesis by (simp add: sound_batch_def ws)
qed

section \<open>Covers\<close>

lemma each_concat: "each f xs = ok yss \<Longrightarrow> y \<in> set (concat yss) \<Longrightarrow> \<exists>x ys. x \<in> set xs \<and> f x = ok ys \<and> y \<in> set ys"
  by (metis UN_E each_set set_concat)

lemma cover_writes_concat:
  assumes "each f xs = ok wss" "\<And>x ws. x \<in> set xs \<Longrightarrow> f x = ok ws \<Longrightarrow> cover_writes m ws"
  shows "cover_writes m (concat wss)"
  unfolding cover_writes_def
proof (intro allI impI)
  fix k w
  assume "(k, w) \<in> set (concat wss)"
  then obtain x ws where "x \<in> set xs" "f x = ok ws" "(k, w) \<in> set ws" using each_concat [OF assms(1)] by blast
  then show "\<exists>s r t v. k = kb_reverse_edge t r s \<and> w = Some v \<and> linked m s r t" using assms(2) by (auto simp: cover_writes_def)
qed

lemma cover_writes_scan:
  assumes ok: "store_ok m" and l: "scan_prefix lib m (kb_edge_prefix i r) = ok l"
    and e: "each (\<lambda>(t, _). dbind (val t) (\<lambda>v. ok (kb_reverse_edge t r i, Some v))) l = (ok ws :: ('j, _) eres)"
  shows "cover_writes m ws"
  unfolding cover_writes_def
proof (intro allI impI)
  fix k w
  assume "(k, w) \<in> set ws"
  then obtain t fs where tl: "(t, fs) \<in> set l" and x: "dbind (val t) (\<lambda>v. ok (kb_reverse_edge t r i, Some v)) = ok (k, w)"
    using each_set [OF e, of "(k, w)"] by auto
  then have "linked m i r t" using scan_links [OF ok l] by (auto simp: linked_def present_def)
  then show "\<exists>s r t v. k = kb_reverse_edge t r s \<and> w = Some v \<and> linked m s r t" using x by (auto simp: dbind_ok)
qed

lemma refresh_outbound_covers:
  fixes lib :: "'j json_lib"
  assumes ok: "store_ok (store d)" and r: "refresh_outbound_rev_edges lib c d tn i data = ok ws"
  shows "cover_writes (store d) ws"
proof (cases "ws = []")
  case False
  let ?f = "\<lambda>fd. case (forward_field fd, rel_ids c (qual tn (fd_name fd))) of
              (Some _, Some ri) \<Rightarrow>
                dbind (scan_prefix lib (store d) (kb_edge_prefix i ri)) (\<lambda>entries.
                each (\<lambda>(t, _). dbind (build_covering_rev_value lib c d tn i (Some data) (fd_name fd) t) (\<lambda>rev_value.
                    ok (kb_reverse_edge t ri i, Some rev_value))) entries)
            | _ \<Rightarrow> ok []"
  obtain td :: TypeDef and wss where e: "each ?f (td_fields td) = ok wss" and ws: "ws = concat wss"
    using r False by (auto simp: refresh_outbound_rev_edges_def dbind_ok split: option.split_asm if_split_asm)
  have "cover_writes (store d) xs" if x: "?f fd = ok xs" for fd xs
  proof (cases "xs = []")
    case False
    then obtain rel ri where ri: "forward_field fd = Some rel" "rel_ids c (qual tn (fd_name fd)) = Some ri"
      using x by (cases "forward_field fd"; cases "rel_ids c (qual tn (fd_name fd))") simp_all
    then have "dbind (scan_prefix lib (store d) (kb_edge_prefix i ri)) (\<lambda>entries.
        each (\<lambda>(t, _). dbind (build_covering_rev_value lib c d tn i (Some data) (fd_name fd) t) (\<lambda>v. ok (kb_reverse_edge t ri i, Some v))) entries) = ok xs"
      using x by simp
    then obtain l where "scan_prefix lib (store d) (kb_edge_prefix i ri) = ok l"
      "each (\<lambda>(t, _). dbind (build_covering_rev_value lib c d tn i (Some data) (fd_name fd) t) (\<lambda>v. ok (kb_reverse_edge t ri i, Some v))) l = ok xs"
      unfolding dbind_ok by (elim exE conjE)
    then show ?thesis by (rule cover_writes_scan [OF ok])
  qed (simp add: cover_writes_def)
  then show ?thesis unfolding ws by (rule cover_writes_concat [OF e])
qed (simp add: cover_writes_def)

lemma cover_writes_sound:
  assumes "edges_paired m0" "cover_writes m0 ws"
  shows "sound_batch lib c m0 ws"
proof -
  have "edge_batch m0 ws" by (rule edge_batch_covers [OF assms(1)]) (use assms(2) in \<open>auto simp: cover_writes_def\<close>)
  moreover have "unique_batch lib c m0 ws" by (rule unique_batch_side) (use assms(2) in \<open>force simp: cover_writes_def\<close>)
  moreover have "keys_batch ws" using assms(2) by (force simp: cover_writes_def keys_batch_def)
  ultimately show ?thesis by (simp add: sound_batch_def)
qed

section \<open>Deletes\<close>

definition owned_keys :: "'j json_lib \<Rightarrow> catalog \<Rightarrow> kv \<Rightarrow> 'j del_state \<Rightarrow> bool" where
  "owned_keys lib c m st \<longleftrightarrow> (\<forall>k \<in> del_keys st. hd k = 117 \<longrightarrow> (\<exists>(t, i) \<in> del_ids st. owns lib c m t i k))"

lemma find_map_Some: "find_map f xs = Some y \<Longrightarrow> \<exists>x \<in> set xs. f x = Some y"
  by (induction xs) (auto split: option.split_asm)

lemma meta_type: "cascade_meta_by_id c ti = Some meta \<Longrightarrow> type_ids c (cm_type_name meta) = Some ti"
  unfolding cascade_meta_by_id_def by (auto simp: type_meta_def dest!: find_map_Some split: if_split_asm)

lemma unique_tombstone_needs:
  assumes "unique_tombstone lib c tn ti fs fd = ok ks" "k \<in> set ks" "type_ids c tn = Some ti" "get_type (c_schema c) tn = Some td" "fd \<in> set (td_fields td)"
  shows "needs lib c ti fs k"
proof -
  from assms(1,2) obtain v where "is_unique fd" "non_null fs (utf8 (fd_name fd)) = Some v" "unique_key lib c tn ti (fd_name fd) v = Some k"
    by (auto simp: unique_tombstone_def split: option.split_asm if_split_asm)
  then show ?thesis using assms(3-5) unfolding needs_def by blast
qed

lemma unique_tombstones_needs:
  assumes "unique_tombstones lib c meta ti fs = ok ks" "k \<in> set ks" "cascade_meta_by_id c ti = Some meta"
  shows "needs lib c ti fs k"
proof -
  obtain td kss where td: "get_type (c_schema c) (cm_type_name meta) = Some td"
    and e: "each (unique_tombstone lib c (cm_type_name meta) ti fs) (td_fields td) = ok kss" and ks: "ks = concat kss"
    using assms(1,2) by (auto simp: unique_tombstones_def dbind_ok split: if_splits option.splits)
  obtain fd xs where "fd \<in> set (td_fields td)" "unique_tombstone lib c (cm_type_name meta) ti fs fd = ok xs" "k \<in> set xs"
    using each_concat [OF e] ks assms(2) by blast
  then show ?thesis using unique_tombstone_needs meta_type [OF assms(3)] td by blast
qed

lemma fulltext_tombstones_side:
  "\<forall>k \<in> set (fst (fulltext_tombstones m ti i fs ffs acc)). k \<in> set (fst acc) \<or> side_key k"
proof (induction m ti i fs ffs acc rule: fulltext_tombstones.induct)
  case (2 m ti i fs ff ffs ks \<delta>)
  then show ?case by (fastforce simp: Let_def split: option.splits if_splits)
qed simp

lemma del_payload_owned:
  assumes p: "del_payload lib c m meta ti i v (deleted, arena, \<delta>) = ok st'" and meta: "cascade_meta_by_id c ti = Some meta"
    and k: "k \<in> set (fst (snd st'))" "hd k = 117"
  shows "k \<in> set arena \<or> owns lib c m ti i k"
proof (cases "kv_get m (kb_object ti i)")
  case None
  then show ?thesis using p k by (auto simp: del_payload_def split: if_splits)
next
  case (Some data)
  show ?thesis
  proof (cases "cm_has_unique meta \<or> cm_has_indexed meta \<or> cm_has_scalar meta \<or> v")
    case True
    from p Some True obtain fs uks where fs: "stored_fields lib data = ok fs" and u: "unique_tombstones lib c meta ti fs = ok uks"
      and a: "fst (snd st') = fst (fulltext_tombstones m ti i fs (fulltext_fields c (cm_type_name meta)) (arena @ uks @ index_tombstones c meta ti i fs, \<delta>))"
      by (auto simp: del_payload_def dbind_ok split: prod.split_asm)
    have "k \<in> set (arena @ uks @ index_tombstones c meta ti i fs) \<or> side_key k"
      using fulltext_tombstones_side [where m = m and ti = ti and i = i and fs = fs and ffs = "fulltext_fields c (cm_type_name meta)"
        and acc = "(arena @ uks @ index_tombstones c meta ti i fs, \<delta>)"] k(1) unfolding a by auto
    moreover have "\<not> side_key k" using k(2) by (auto simp: side_key_def)
    moreover have "k \<notin> set (index_tombstones c meta ti i fs)"
      using \<open>\<not> side_key k\<close> by (auto simp: index_tombstones_def map_filter_def dest: index_key_side)
    ultimately consider "k \<in> set arena" | "k \<in> set uks" by auto
    then show ?thesis
    proof cases
      case 2
      then show ?thesis using unique_tombstones_needs [OF u _ meta] Some fs by (auto simp: owns_def)
    qed simp
  qed (use p k in \<open>auto simp: del_payload_def\<close>)
qed

lemma del_before_owned:
  fixes lib :: "'j json_lib"
  assumes ok: "store_ok (store d)" and b: "del_before lib c d ti i v st = ok (meta, st1, cascades)" and o: "owned_keys lib c (store d) st"
  shows "owned_keys lib c (store d) st1"
proof -
  have meta: "cascade_meta_by_id c ti = Some meta" and ids: "del_ids st1 = insert (ti, i) (del_ids st)"
    using del_before_okE [OF b ok] by blast+
  obtain deleted arena \<delta> where
    p: "del_payload lib c (store d) meta ti i v (((ti, i), None) # fst st, snd st) = ok (deleted, arena, \<delta>)"
    and r: "(case del_inbound (store d) i (incoming_relations c ti) (arena, []) of
       Inl (ref_type, ref_field) \<Rightarrow> err (DeleteDenied (cm_type_name meta) i ref_type ref_field)
     | Inr (arena', cascades) \<Rightarrow> ok (meta, (deleted, arena', \<delta>), cascades)) = (ok (meta, st1, cascades) :: ('j, _) eres)"
    using b meta by (auto simp: del_before_def meta_of_def dbind_ok)
  obtain arena' where inb: "del_inbound (store d) i (incoming_relations c ti) (arena, []) = Inr (arena', cascades)" and st1: "st1 = (deleted, arena', \<delta>)"
    using r by (auto split: sum.split_asm prod.split_asm)
  have "\<exists>(t, j) \<in> del_ids st1. owns lib c (store d) t j k" if k: "k \<in> del_keys st1" "hd k = 117" for k
  proof -
    have "k \<in> set arena" using del_inbound_ok [OF ok inb] k st1 by (auto simp: del_keys_def)
    then have "k \<in> del_keys st \<or> owns lib c (store d) ti i k"
      using del_payload_owned [of lib c "store d" meta ti i v "((ti, i), None) # fst st" "fst (snd st)" "snd (snd st)" "(deleted, arena, \<delta>)" k] p meta k(2)
      by (simp add: del_keys_def)
    then show ?thesis using o k(2) unfolding owned_keys_def ids by fastforce
  qed
  then show ?thesis by (simp add: owned_keys_def)
qed

lemma walk_all_owned:
  assumes "\<And>x st st'. f x st = Some (ok st') \<Longrightarrow> P st \<Longrightarrow> P st'" "walk_all f xs st = Some (ok st')" "P st"
  shows "P st'"
  using assms(2,3) by (induction xs arbitrary: st) (auto split: option.split_asm sum.split_asm intro: assms(1))

lemma delete_inner_owned:
  assumes "store_ok (store d)" "delete_inner n lib c d ti i v ctx st = Some (ok st')" "owned_keys lib c (store d) st"
  shows "owned_keys lib c (store d) st'"
  using assms(2,3)
proof (induction n arbitrary: ti i v ctx st st')
  case (Suc n)
  show ?case
  proof (cases "(ti, i) \<in> del_ids st")
    case True
    then show ?thesis using Suc.prems by (simp add: del_ids_def)
  next
    case False
    from Suc.prems(1) False obtain meta st1 cascades st2 where b: "del_before lib c d ti i v st = ok (meta, st1, cascades)"
      and w: "walk_all (\<lambda>(cti, ci, cr, cover) st. delete_inner n lib c d cti ci False (Some (cr, cover)) st) cascades st1 = Some (ok st2)"
      and st': "st' = (fst st2, fst (snd st2) @ del_outbound (store d) meta i ctx @ del_own d ti i, snd (snd st2))"
      by (rule delete_inner_okE)
    have "owned_keys lib c (store d) st2"
      by (rule walk_all_owned [where P = "owned_keys lib c (store d)", OF _ w del_before_owned [OF assms(1) b Suc.prems(2)]]) (auto intro: Suc.IH)
    moreover have "hd k \<noteq> 117" if "k \<in> set (del_outbound (store d) meta i ctx @ del_own d ti i)" for k
      using that by (auto simp: set_del_outbound [OF assms(1)] del_own_def split: if_splits)
    ultimately show ?thesis using st' by (auto simp: owned_keys_def del_keys_def del_ids_def)
  qed
qed simp

lemma delete_stage_sound:
  assumes s: "store_ok (store d)" and r: "delete_stage lib c d ti i = ok (deleted, arena, \<delta>)"
  shows "sound_batch lib c (store d) (tombstones arena)"
proof -
  obtain st where w: "delete_inner (delete_fuel c d) lib c d ti i True None ([], [], Map.empty) = Some (ok st)" and st: "st = (deleted, arena, \<delta>)"
    using delete_stage_walks [OF s, of c lib ti i] r by auto
  note f = delete_walk_facts [OF s w]
  have o: "owned_keys lib c (store d) st"
    by (rule delete_inner_owned [OF s w]) (simp add: owned_keys_def del_keys_def)
  have arena: "del_keys st = set arena" using st by (simp add: del_keys_def)
  have at: "final_at (tombstones arena) k = (if k \<in> set arena then Some None else None)" for k
    by (induction arena) (auto simp: tombstones_def map_add_def split: option.splits if_splits)
  have "kb_object t j \<in> set arena" if u: "unique_ok lib c (store d)" and k: "kb_unique_index t fi b \<in> set arena"
      "kv_get (store d) (kb_unique_index t fi b) = Some (u64_be j)" for t fi b j
  proof -
    obtain t' j' where o': "(t', j') \<in> del_ids st" "owns lib c (store d) t' j' (kb_unique_index t fi b)"
      using o k(1) arena by (force simp: owned_keys_def)
    then have "kv_get (store d) (kb_unique_index t fi b) = Some (u64_be j')" "t' = t"
      using u by (auto simp: unique_ok_def owns_def unique_key_inject dest!: needs_key)
    then have "(t, j) \<in> del_ids st" using k(2) o'(1) by (metis be_u64_u64_be option.inject)
    then show ?thesis using f(1,3) arena by simp
  qed
  then have "unique_ok lib c (store d) \<longrightarrow> unique_batch lib c (store d) (tombstones arena)" by (auto simp: unique_batch_def at)
  moreover have "edge_batch (store d) (tombstones arena)" using f(4) arena by (intro edge_batch_tombstones) simp
  ultimately show ?thesis by (simp add: sound_batch_def)
qed

end
