(* ===== verification/Engine_Run.thy ===== *)
theory Engine_Run
  imports Engine_Unique Mvcc
begin

text \<open>
  The batches of creates and updates, and the runs of the engine: transactions of any of its operations, whose steps interleave as
  those of the transaction manager of \<open>Mvcc\<close> do, each reading the committed state of its snapshot and landing when the manager's conflict check lets
  its write set pass. In every state of a run the two keys of every edge are stored together, and the unique index has every value, provided that the entries
  it has are found.
\<close>

section \<open>Claims of unique values\<close>

text \<open>Rows that the format can hold: what is read back is what was written.\<close>

definition fits :: "'j json_lib \<Rightarrow> 'j FieldMap \<Rightarrow> bool" where
  "fits lib fs \<longleftrightarrow> fields_ok lib fs \<and> length (serialize_fields lib fs) < 2 ^ 64"

lemma stored_fits: "fits lib fs \<Longrightarrow> stored_fields lib (serialize_fields lib fs) = ok fs"
  by (simp add: fits_def stored_fields_def deserialize_serialize)

text \<open>
  The entries claimed so far, as writes and as a map, none of which another object has in the snapshot if the entries there are found.
\<close>

definition staged_ok :: "catalog \<Rightarrow> kv \<Rightarrow> staging \<Rightarrow> bool" where
  "staged_ok c m0 st \<longleftrightarrow> (\<forall>k. final_at (fst st) k = map_option (\<lambda>j. Some (u64_be j)) (snd st k)) \<and>
     (\<forall>k w. (k, w) \<in> set (fst st) \<longrightarrow> hd k = 117 \<and> k \<noteq> [] \<and> w \<noteq> None) \<and>
     (exact_unique c m0 \<longrightarrow> (\<forall>k j j'. snd st k = Some j \<longrightarrow> kv_get m0 k = Some (u64_be j') \<longrightarrow> j' = j))"

lemma staged_ok_empty [simp]: "staged_ok c m0 ([], Map.empty)"
  by (simp add: staged_ok_def)

lemma check_unique_okE:
  assumes "check_unique_and_insert lib c m0 tn ti f v i st = ok st'"
  obtains k where "unique_key lib c tn ti f v = Some k" "st' = (fst st @ [(k, Some (u64_be i))], (snd st)(k \<mapsto> i))"
    "\<And>j. snd st k = Some j \<Longrightarrow> j = i" "\<And>j. exact_unique c m0 \<Longrightarrow> kv_get m0 k = Some (u64_be j) \<Longrightarrow> j = i"
proof -
  obtain k where k: "unique_key lib c tn ti f v = Some k" using assms by (auto simp: check_unique_and_insert_def split: option.splits)
  have u: "be_u64 (take 8 (u64_be j)) = j" for j by (simp add: take_all)
  have "hd k = 117" using k by (auto simp: unique_key_def)
  then have "storage_get c m0 k = Some (u64_be j)" if "exact_unique c m0" "kv_get m0 k = Some (u64_be j)" for j
    using that by (auto simp: exact_unique_def)
  then show thesis using assms k u
    by (intro that [OF k]) (auto simp: check_unique_and_insert_def split: option.split_asm if_split_asm)
qed

lemma check_unique_staged:
  assumes "check_unique_and_insert lib c m0 tn ti f v i st = ok st'" "staged_ok c m0 st"
  shows "staged_ok c m0 st' \<and> snd st \<subseteq>\<^sub>m snd st' \<and> (\<forall>k. unique_key lib c tn ti f v = Some k \<longrightarrow> snd st' k = Some i)"
  using assms(1)
proof (rule check_unique_okE)
  fix k
  assume k: "unique_key lib c tn ti f v = Some k" "st' = (fst st @ [(k, Some (u64_be i))], (snd st)(k \<mapsto> i))"
    "\<And>j. snd st k = Some j \<Longrightarrow> j = i" "\<And>j. exact_unique c m0 \<Longrightarrow> kv_get m0 k = Some (u64_be j) \<Longrightarrow> j = i"
  have "hd k = 117 \<and> k \<noteq> []" using k(1) by (auto simp: unique_key_def)
  then show ?thesis using assms(2) k by (auto simp: staged_ok_def map_le_def)
qed

lemma claim_unique_staged:
  assumes "claim_unique lib c m0 tn td ti i fs st = ok st'" "staged_ok c m0 st"
  shows "staged_ok c m0 st' \<and> snd st \<subseteq>\<^sub>m snd st' \<and>
    (\<forall>n v fd k. (n, v) \<in> set fs \<longrightarrow> field_named td n = Some fd \<longrightarrow> is_unique fd \<longrightarrow> v \<noteq> VNull \<longrightarrow>
      unique_key lib c tn ti (fd_name fd) v = Some k \<longrightarrow> snd st' k = Some i)"
  using assms
proof (induction lib c m0 tn td ti i fs st rule: claim_unique.induct)
  case (2 lib c m tn td ti i n v fs st)
  obtain fd where fd: "field_named td n = Some fd" using "2.prems"(1) by (auto split: option.splits)
  obtain st1 where st1: "(if is_unique fd \<and> v \<noteq> VNull then check_unique_and_insert lib c m tn ti (fd_name fd) v i st else ok st) = ok st1"
    and r: "claim_unique lib c m tn td ti i fs st1 = ok st'"
    using "2.prems"(1) fd by (auto simp: dbind_ok)
  have s: "staged_ok c m st1 \<and> snd st \<subseteq>\<^sub>m snd st1 \<and>
      (is_unique fd \<longrightarrow> v \<noteq> VNull \<longrightarrow> (\<forall>k. unique_key lib c tn ti (fd_name fd) v = Some k \<longrightarrow> snd st1 k = Some i))"
    using st1 check_unique_staged [of lib c m tn ti "fd_name fd" v i st st1] "2.prems"(2) by (auto split: if_split_asm)
  have t: "staged_ok c m st' \<and> snd st1 \<subseteq>\<^sub>m snd st' \<and>
    (\<forall>n v fd k. (n, v) \<in> set fs \<longrightarrow> field_named td n = Some fd \<longrightarrow> is_unique fd \<longrightarrow> v \<noteq> VNull \<longrightarrow>
      unique_key lib c tn ti (fd_name fd) v = Some k \<longrightarrow> snd st' k = Some i)"
    using "2.IH" [OF fd st1 r] s by blast
  have "snd st' k = Some i" if "snd st1 k = Some i" for k using t that by (auto simp: map_le_def dom_def)
  then show ?case using s t fd map_le_trans by fastforce
qed simp

lemma field_named_unique:
  assumes "catalog_ok c" "get_type (c_schema c) tn = Some td" "fd \<in> set (td_fields td)"
  shows "field_named td (utf8 (fd_name fd)) = Some fd"
proof -
  have d: "distinct (map (\<lambda>fd. utf8 (fd_name fd)) (td_fields td))" using assms(1,2) by (simp add: catalog_ok_def)
  have "find (\<lambda>x. utf8 (fd_name x) = utf8 (fd_name fd)) xs = Some fd" if "distinct (map (\<lambda>fd. utf8 (fd_name fd)) xs)" "fd \<in> set xs" for xs
    using that by (induction xs) auto
  then show ?thesis using d assms(3) by (simp add: field_named_def)
qed

lemma needs_here:
  assumes "catalog_ok c" "type_ids c tn = Some ti" "get_type (c_schema c) tn = Some td" "needs lib c ti fs k"
  obtains fd v where "fd \<in> set (td_fields td)" "is_unique fd" "map_of fs (utf8 (fd_name fd)) = Some v" "v \<noteq> VNull"
    "unique_key lib c tn ti (fd_name fd) v = Some k" "field_named td (utf8 (fd_name fd)) = Some fd"
proof -
  obtain tn' td' fd v where n: "type_ids c tn' = Some ti" "get_type (c_schema c) tn' = Some td'" "fd \<in> set (td_fields td')"
     "is_unique fd" "non_null fs (utf8 (fd_name fd)) = Some v" "unique_key lib c tn' ti (fd_name fd) v = Some k"
    using assms(4) unfolding needs_def by blast
  have "tn' = tn" using assms(1,2) n(1) unfolding catalog_ok_def by blast
  then have "td' = td" using assms(3) n(2) by simp
  have "map_of fs (utf8 (fd_name fd)) = Some v" "v \<noteq> VNull" using n(5) by (auto simp: non_null_def split: option.splits if_splits)
  then show thesis using n \<open>tn' = tn\<close> \<open>td' = td\<close> field_named_unique [OF assms(1,3)] by (intro that) auto
qed

section \<open>Creates\<close>

text \<open>The keys of a new object's rows.\<close>

lemma index_put_side: "index_put ti i covering fs ifd = Some (k, v) \<Longrightarrow> side_key k"
  by (auto simp: index_put_def bind_eq_Some_conv dest: field_index_side)

lemma doc_puts_side: "(k, v) \<in> set (stage_doc_puts ti ff i doc) \<Longrightarrow> side_key k"
  by (auto simp: stage_doc_puts_def)

lemma object_rows_keys:
  assumes "(k, v) \<in> set (object_rows c tn ti i serialized scalars)"
  shows "side_key k \<or> k = kb_object ti i \<and> v = serialized"
proof -
  consider ifd where "index_put ti i serialized scalars ifd = Some (k, v)" | ff doc where "(k, v) \<in> set (stage_doc_puts ti ff i doc)"
    | "k = kb_object ti i \<and> v = serialized"
    using assms by (auto simp: object_rows_def map_filter_def)
  then show ?thesis by cases (auto dest: index_put_side doc_puts_side)
qed

lemma inline_edges_pairs:
  assumes "inline_edges lib c d i scalars links = ok es"
  shows "(k, v) \<in> set es \<Longrightarrow> \<exists>r t. k = kb_edge i r t \<or> k = kb_reverse_edge t r i" "paired_keys (fst ` set es)"
proof -
  let ?f = "\<lambda>(idx, l :: create_link). dbind (build_inflight_cover lib c d scalars links idx) (\<lambda>rev_value.
         ok [(kb_edge i (lk_rel_id l) (lk_target l), []), (kb_reverse_edge (lk_target l) (lk_rel_id l) i, rev_value)])"
  obtain ess where e: "each ?f (zip [0..<length links] links) = ok ess" and es: "es = concat ess"
    using assms unfolding inline_edges_def dbind_ok by (elim exE conjE) simp
  have p: "\<exists>r t w. xs = [(kb_edge i r t, []), (kb_reverse_edge t r i, w)]" if "xs \<in> set ess" for xs
  proof -
    obtain x where "?f x = ok xs" using each_set [OF e, of xs, THEN iffD1, OF \<open>xs \<in> set ess\<close>] by (elim bexE)
    then show ?thesis by (cases x) (auto simp: dbind_ok)
  qed
  show "\<exists>r t. k = kb_edge i r t \<or> k = kb_reverse_edge t r i" if "(k, v) \<in> set es"
    using that p unfolding es by fastforce
  have "paired_keys (fst ` set xs)" if "xs \<in> set ess" for xs using p [OF that] by (auto simp: paired_keys_def)
  then show "paired_keys (fst ` set es)" unfolding es paired_keys_def by (simp add: image_UN)
qed

text \<open>One row of a create or of a batch.\<close>

lemma stage_create_row:
  assumes c: "catalog_ok c" "type_ids c tn = Some ti" "get_type (c_schema c) tn = Some td"
    and r: "stage_create_writes lib c d tn td ti i fs st \<delta> = ok (scalars, rows, st', \<delta>')" and st: "staged_ok c (store d) st"
  shows "staged_ok c (store d) st' \<and> snd st \<subseteq>\<^sub>m snd st' \<and> paired_keys (fst ` set rows) \<and>
    (\<forall>k v. (k, v) \<in> set rows \<longrightarrow> edge_key_ok k \<and> hd k \<noteq> 117) \<and>
    (\<forall>t j. map_of (rev rows) (kb_object t j) = (if t = ti \<and> j = i then Some (serialize_fields lib scalars) else None)) \<and>
    (\<forall>k. needs lib c ti scalars k \<longrightarrow> snd st' k = Some i)"
proof -
  obtain links edges where cl: "claim_unique lib c (store d) tn td ti i scalars st = ok st'"
    and ed: "inline_edges lib c d i scalars links = ok edges"
    and rows: "rows = object_rows c tn ti i (serialize_fields lib scalars) scalars @ edges"
    using r unfolding stage_create_writes_def Let_def dbind_ok split_paired_Ex prod.case by (elim exE conjE) simp
  note cs = claim_unique_staged [OF cl st]
  let ?rs = "object_rows c tn ti i (serialize_fields lib scalars) scalars"
  have k: "side_key k \<or> k = kb_object ti i \<and> v = serialize_fields lib scalars \<or> (\<exists>r t. k = kb_edge i r t \<or> k = kb_reverse_edge t r i)"
    if "(k, v) \<in> set rows" for k v
    using that object_rows_keys inline_edges_pairs(1) [OF ed] unfolding rows by fastforce
  have "kb_edge s r t \<notin> fst ` set ?rs" "kb_reverse_edge t r s \<notin> fst ` set ?rs" for s r t
    using object_rows_keys [of _ _ c tn ti i] by (force dest: side_key_other(2,3))+
  then have "paired_keys (fst ` set ?rs)" by (simp add: paired_keys_def)
  then have "paired_keys (fst ` set rows)" using inline_edges_pairs(2) [OF ed] by (simp add: rows image_Un paired_keys_Un)
  moreover have "edge_key_ok k \<and> hd k \<noteq> 117" if "(k, v) \<in> set rows" for k v
    using k [OF that] by (auto intro: other_kind_ok simp: side_key_def)
  moreover have "map_of (rev rows) (kb_object t j) = (if t = ti \<and> j = i then Some (serialize_fields lib scalars) else None)" for t j
  proof (cases "map_of (rev rows) (kb_object t j)")
    case None
    then have "kb_object t j \<notin> fst ` set rows" by (simp add: map_of_eq_None_iff)
    moreover have "kb_object ti i \<in> fst ` set rows" by (simp add: rows object_rows_def)
    ultimately show ?thesis using None by auto
  next
    case (Some v)
    then have "(kb_object t j, v) \<in> set rows" using map_of_SomeD by fastforce
    from k [OF this] have "t = ti \<and> j = i \<and> v = serialize_fields lib scalars" by (auto dest: side_key_other(1))
    then show ?thesis using Some by simp
  qed
  moreover have "snd st' k = Some i" if "needs lib c ti scalars k" for k
    using needs_here [OF c that] cs map_of_SomeD by metis
  ultimately show ?thesis using cs by blast
qed

text \<open>The rows staged so far: every object among them has its unique values claimed.\<close>

definition rows_ok :: "'j json_lib \<Rightarrow> catalog \<Rightarrow> kv \<Rightarrow> (bytes \<times> bytes) list \<times> staging \<Rightarrow> bool" where
  "rows_ok lib c m0 = (\<lambda>(ps, st). staged_ok c m0 st \<and> paired_keys (fst ` set ps) \<and> (\<forall>k v. (k, v) \<in> set ps \<longrightarrow> edge_key_ok k \<and> hd k \<noteq> 117) \<and>
     (\<forall>t j data fs k. map_of (rev ps) (kb_object t j) = Some data \<longrightarrow> stored_fields lib data = ok fs \<longrightarrow> needs lib c t fs k \<longrightarrow> snd st k = Some j))"

lemma rows_ok_add:
  assumes c: "catalog_ok c" "type_ids c tn = Some ti" "get_type (c_schema c) tn = Some td"
    and r: "stage_create_writes lib c d tn td ti i fs st \<delta> = ok (scalars, rows, st', \<delta>')" and fit: "fits lib scalars"
    and I: "rows_ok lib c (store d) (ps, st)"
  shows "rows_ok lib c (store d) (ps @ rows, st')"
proof -
  have st: "staged_ok c (store d) st" using I by (simp add: rows_ok_def)
  note R = stage_create_row [OF c r st]
  have obj: "map_of (rev rows) (kb_object t j) = (if t = ti \<and> j = i then Some (serialize_fields lib scalars) else None)" for t j
    using R by blast
  have "snd st' k = Some j" if d: "map_of (rev (ps @ rows)) (kb_object t j) = Some data" "stored_fields lib data = ok fs" "needs lib c t fs k" for t j data fs k
  proof (cases "t = ti \<and> j = i")
    case True
    then have "fs = scalars" using d(1,2) obj stored_fits [OF fit] by simp
    then show ?thesis using R d(3) True by blast
  next
    case False
    then have "map_of (rev ps) (kb_object t j) = Some data" using d(1) obj by (auto simp: map_add_def split: option.split_asm)
    then have "snd st k = Some j" using I d(2,3) by (auto simp: rows_ok_def)
    then show ?thesis using R by (auto simp: map_le_def dom_def)
  qed
  moreover have "paired_keys (fst ` set (ps @ rows))" using I R by (simp add: rows_ok_def image_Un paired_keys_Un)
  moreover have "edge_key_ok k \<and> hd k \<noteq> 117" if "(k, v) \<in> set (ps @ rows)" for k v using that I R by (auto simp: rows_ok_def)
  ultimately show ?thesis using R unfolding rows_ok_def prod.case by blast
qed

lemma keys_puts: "fst ` set (puts ps) = fst ` set ps"
  by (force simp: puts_def)

lemma rows_sound:
  assumes "rows_ok lib c m0 (ps, st)"
  shows "sound_batch lib c m0 (fst st @ puts ps)"
proof -
  have st: "final_at (fst st) k = map_option (\<lambda>j. Some (u64_be j)) (snd st k)" "(k, w) \<in> set (fst st) \<Longrightarrow> hd k = 117 \<and> k \<noteq> []"
    "exact_unique c m0 \<Longrightarrow> snd st k = Some j \<Longrightarrow> kv_get m0 k = Some (u64_be j') \<Longrightarrow> j' = j" for k w j j'
    using assms by (auto simp: rows_ok_def staged_ok_def)
  have ps: "(k, v) \<in> set ps \<Longrightarrow> edge_key_ok k \<and> hd k \<noteq> 117" for k v using assms by (auto simp: rows_ok_def)
  have uk: "final_at (fst st @ puts ps) k = final_at (fst st) k" if "hd k = 117" for k
  proof -
    have "k \<notin> fst ` set ps" using ps that by fastforce
    then have "final_at (puts ps) k = None" by (simp add: final_at_puts map_of_eq_None_iff)
    then show ?thesis by (simp add: map_add_def)
  qed
  have ok: "final_at (fst st @ puts ps) k = map_option Some (map_of (rev ps) k)" if "hd k \<noteq> 117" for k
  proof -
    have "final_at (fst st) k = None" using st(2) that by (force simp: final_at_None)
    then show ?thesis by (simp add: map_add_def final_at_puts split: option.split)
  qed
  have u: "unique_batch lib c m0 (fst st @ puts ps)" if exact: "exact_unique c m0"
    unfolding unique_batch_def
  proof (intro conjI allI impI)
    fix ti i data fs k
    assume d: "final_at (fst st @ puts ps) (kb_object ti i) = Some (Some data)" "stored_fields lib data = ok fs" "needs lib c ti fs k"
    then have "map_of (rev ps) (kb_object ti i) = Some data" using ok [of "kb_object ti i"] by (simp del: rev_append)
    then have "snd st k = Some i" using d(2,3) assms by (auto simp: rows_ok_def)
    moreover have "hd k = 117" using needs_key [OF d(3)] by auto
    ultimately show "final_at (fst st @ puts ps) k = Some (Some (u64_be i)) \<or> final_at (fst st @ puts ps) k = None \<and> owns lib c m0 ti i k"
      by (simp add: uk st(1) del: rev_append)
  next
    fix ti f b j w
    assume "final_at (fst st @ puts ps) (kb_unique_index ti f b) = Some w" "kv_get m0 (kb_unique_index ti f b) = Some (u64_be j)"
    then show "w = Some (u64_be j) \<or> final_at (fst st @ puts ps) (kb_object ti j) \<noteq> None"
      using st(3) [OF exact] by (auto simp: uk st(1) simp del: rev_append)
  qed
  have some: "w \<noteq> None" if "(k, w) \<in> set (fst st @ puts ps)" for k w
    using that assms by (auto simp: rows_ok_def staged_ok_def puts_def)
  have "kb_edge s r t \<notin> fst ` set (fst st)" "kb_reverse_edge t r s \<notin> fst ` set (fst st)" for s r t using st(2) by force+
  then have "paired_keys (fst ` set (fst st @ puts ps))"
    using assms by (simp add: rows_ok_def paired_keys_def keys_puts image_Un)
  then have "edge_batch m0 (fst st @ puts ps)" using some by (intro edge_batch_puts)
  moreover have "keys_batch (fst st @ puts ps)"
    using st(2) ps by (auto simp: keys_batch_def puts_def intro: other_kind_ok)
  ultimately show ?thesis using u by (simp add: sound_batch_def)
qed

lemma create_sound:
  assumes c: "catalog_ok c" "type_ids c tn = Some ti" "get_type (c_schema c) tn = Some td"
    and r: "stage_create_writes lib c d tn td ti i fs ([], Map.empty) Map.empty = ok (scalars, rows, st, \<delta>)" and fit: "fits lib scalars"
  shows "sound_batch lib c (store d) (fst st @ puts rows)"
  by (rule rows_sound, rule rows_ok_add [OF c r fit, of "[]", simplified]) (simp add: rows_ok_def paired_keys_def)

lemma stage_rows_done:
  assumes "stage_rows lib c tn td ti rows (done, ps, st, \<delta>) d = (ok (done', ps', st', \<delta>'), d')"
  shows "set done \<subseteq> set done' \<and> store d' = store d"
  using assms
proof (induction rows arbitrary: "done" ps st \<delta> d)
  case (Cons fs rows)
  then show ?case by (fastforce simp: Let_def sbind_ok bump_version_def)
qed simp

lemma stage_rows_ok:
  assumes c: "catalog_ok c" "type_ids c tn = Some ti" "get_type (c_schema c) tn = Some td"
    and r: "stage_rows lib c tn td ti rows (done, ps, st, \<delta>) d = (ok (done', ps', st', \<delta>'), d')"
    and fit: "\<And>i fs. (i, fs) \<in> set done' \<Longrightarrow> fits lib fs" and I: "rows_ok lib c (store d) (ps, st)"
  shows "rows_ok lib c (store d) (ps', st') \<and> set done \<subseteq> set done'"
  using r fit I
proof (induction rows arbitrary: "done" ps st \<delta> d)
  case (Cons fs rows)
  let ?i = "next_object_id d" and ?d = "d\<lparr>next_object_id := next_object_id d + 1\<rparr>"
  obtain scalars ps1 st1 \<delta>1 where s: "stage_create_writes lib c ?d tn td ti ?i fs st \<delta> = ok (scalars, ps1, st1, \<delta>1)"
    and rest: "stage_rows lib c tn td ti rows (done @ [(?i, scalars)], ps @ ps1, st1, \<delta>1) (bump_version ti ?i ?d) = (ok (done', ps', st', \<delta>'), d')"
    using Cons.prems(1) by (auto simp: Let_def sbind_ok)
  have sd: "store (bump_version ti ?i ?d) = store d" by (simp add: bump_version_def)
  have sub: "set (done @ [(?i, scalars)]) \<subseteq> set done'" using stage_rows_done [OF rest] by simp
  then have "fits lib scalars" using Cons.prems(2) by auto
  then have "rows_ok lib c (store (bump_version ti ?i ?d)) (ps @ ps1, st1)"
    using rows_ok_add [OF c s] Cons.prems(3) sd by simp
  from Cons.IH [OF rest Cons.prems(2) this] show ?case using sd sub by auto
qed simp

section \<open>Updates\<close>

lemma field_named_okD: "field_named td n = Some fd \<Longrightarrow> fd \<in> set (td_fields td) \<and> utf8 (fd_name fd) = n"
  by (auto simp: field_named_def find_Some_iff)

lemma map_of_merge: "distinct (map fst us) \<Longrightarrow> map_of (merge fs us) n = (case map_of us n of Some v \<Rightarrow> Some v | None \<Rightarrow> map_of fs n)"
proof (induction us arbitrary: fs)
  case (Cons u us)
  obtain k v where u: "u = (k, v)" by (cases u)
  have "map_of (merge fs (u # us)) n = (case map_of us n of Some v \<Rightarrow> Some v | None \<Rightarrow> map_of (AList.update k v fs) n)"
    using Cons by (simp add: merge_def u)
  moreover have "map_of us k = None" using Cons.prems by (simp add: u map_of_eq_None_iff)
  ultimately show ?case by (simp add: u update_conv' split: option.split)
qed (simp add: merge_def)

text \<open>A write of \<open>update_unique\<close>, for one of the updated fields.\<close>

definition unique_write :: "'j json_lib \<Rightarrow> catalog \<Rightarrow> kv \<Rightarrow> rtext \<Rightarrow> TypeDef \<Rightarrow> u64 \<Rightarrow> u64 \<Rightarrow> 'j FieldMap \<Rightarrow> 'j FieldMap \<Rightarrow> bytes \<Rightarrow> bytes option \<Rightarrow> bool" where
  "unique_write lib c m tn td ti i old_fs us k w \<longleftrightarrow> (\<exists>n v fd x. (n, v) \<in> set us \<and> field_named td n = Some fd \<and> is_unique fd \<and>
     unique_key lib c tn ti (fd_name fd) x = Some k \<and>
     (w = None \<and> non_null old_fs n = Some x \<or> w = Some (u64_be i) \<and> (exact_unique c m \<longrightarrow> (\<forall>j. kv_get m k = Some (u64_be j) \<longrightarrow> j = i))))"

lemma unique_write_mono: "unique_write lib c m tn td ti i old_fs us k w \<Longrightarrow> set us \<subseteq> set us' \<Longrightarrow> unique_write lib c m tn td ti i old_fs us' k w"
  unfolding unique_write_def by blast

lemma unique_write_field:
  assumes "catalog_ok c" "get_type (c_schema c) tn = Some td" "unique_write lib c m tn td ti i old_fs us k w"
    "fd \<in> set (td_fields td)" "unique_key lib c tn ti (fd_name fd) v = Some k"
  shows "utf8 (fd_name fd) \<in> fst ` set us"
proof -
  obtain n u fd' x where w: "(n, u) \<in> set us" "field_named td n = Some fd'" "unique_key lib c tn ti (fd_name fd') x = Some k"
    using assms(3) unfolding unique_write_def by blast
  have "field_ids c (qual tn (fd_name fd)) \<noteq> None" "field_ids c (qual tn (fd_name fd)) = field_ids c (qual tn (fd_name fd'))"
    using assms(5) w(3) by (auto simp: unique_key_def unique_key_inject)
  then have "fd = fd'" using assms(1,2,4) field_named_okD [OF w(2)] unfolding catalog_ok_def by blast
  then show ?thesis using w(1) field_named_okD [OF w(2)] by force
qed

lemma update_unique_head:
  assumes fd: "field_named td n = Some fd"
    and h: "(if \<not> is_unique fd then ok st
      else dbind (case non_null old_fs n of Some old_v \<Rightarrow> remove_unique_index lib c tn ti (fd_name fd) old_v st | None \<Rightarrow> ok st)
        (\<lambda>st. if v \<noteq> VNull then check_unique_and_insert lib c m tn ti (fd_name fd) v i st else ok st)) = ok st1"
  shows "\<exists>H. fst st1 = fst st @ H \<and> (\<forall>k w. (k, w) \<in> set H \<longrightarrow> unique_write lib c m tn td ti i old_fs [(n, v)] k w) \<and>
      (is_unique fd \<longrightarrow> v \<noteq> VNull \<longrightarrow> (\<forall>k. unique_key lib c tn ti (fd_name fd) v = Some k \<longrightarrow> final_at H k = Some (Some (u64_be i))))"
proof (cases "is_unique fd")
  case True
  obtain st0 where a: "(case non_null old_fs n of Some old_v \<Rightarrow> remove_unique_index lib c tn ti (fd_name fd) old_v st | None \<Rightarrow> ok st) = ok st0"
    and b: "(if v \<noteq> VNull then check_unique_and_insert lib c m tn ti (fd_name fd) v i st0 else ok st0) = ok st1"
    using h True by (auto simp: dbind_ok)
  have "\<exists>T. fst st0 = fst st @ T \<and> (\<forall>k w. (k, w) \<in> set T \<longrightarrow> unique_write lib c m tn td ti i old_fs [(n, v)] k w)"
  proof (cases "non_null old_fs n")
    case None
    then show ?thesis using a by simp
  next
    case (Some x)
    then obtain k where "unique_key lib c tn ti (fd_name fd) x = Some k" "fst st0 = fst st @ [(k, None)]"
      using a by (auto simp: remove_unique_index_def split: option.split_asm)
    then show ?thesis using Some fd True by (auto simp: unique_write_def)
  qed
  then obtain T where T: "fst st0 = fst st @ T" "\<And>k w. (k, w) \<in> set T \<Longrightarrow> unique_write lib c m tn td ti i old_fs [(n, v)] k w" by blast
  show ?thesis
  proof (cases "v = VNull")
    case True
    then show ?thesis using b T by auto
  next
    case False
    then have "check_unique_and_insert lib c m tn ti (fd_name fd) v i st0 = ok st1" using b by simp
    then show ?thesis
    proof (rule check_unique_okE)
      fix k
      assume k: "unique_key lib c tn ti (fd_name fd) v = Some k" "st1 = (fst st0 @ [(k, Some (u64_be i))], (snd st0)(k \<mapsto> i))"
        "\<And>j. exact_unique c m \<Longrightarrow> kv_get m k = Some (u64_be j) \<Longrightarrow> j = i"
      then have "unique_write lib c m tn td ti i old_fs [(n, v)] k (Some (u64_be i))" using fd True unfolding unique_write_def by auto
      then show ?thesis using k T by (intro exI [of _ "T @ [(k, Some (u64_be i))]"]) auto
    qed
  qed
qed (use h in simp)

lemma update_unique_writes:
  assumes c: "catalog_ok c" "get_type (c_schema c) tn = Some td" and us: "distinct (map fst us)"
    and r: "update_unique lib c m tn td ti i old_fs us st = ok st'"
  shows "\<exists>W. fst st' = fst st @ W \<and> (\<forall>k w. (k, w) \<in> set W \<longrightarrow> unique_write lib c m tn td ti i old_fs us k w) \<and>
    (\<forall>n v fd k. (n, v) \<in> set us \<longrightarrow> field_named td n = Some fd \<longrightarrow> is_unique fd \<longrightarrow> v \<noteq> VNull \<longrightarrow>
      unique_key lib c tn ti (fd_name fd) v = Some k \<longrightarrow> final_at W k = Some (Some (u64_be i)))"
  using us r
proof (induction us arbitrary: st)
  case (Cons u us)
  obtain n v where u: "u = (n, v)" by (cases u)
  obtain fd where fd: "field_named td n = Some fd" using Cons.prems(2) by (auto simp: u split: option.splits)
  let ?rm = "case non_null old_fs n of Some old_v \<Rightarrow> remove_unique_index lib c tn ti (fd_name fd) old_v st | None \<Rightarrow> ok st"
  obtain st1 where h: "(if \<not> is_unique fd then ok st else dbind ?rm (\<lambda>st. if v \<noteq> VNull then check_unique_and_insert lib c m tn ti (fd_name fd) v i st else ok st)) = ok st1"
    and rest: "update_unique lib c m tn td ti i old_fs us st1 = ok st'"
    using Cons.prems(2) fd by (auto simp: u dbind_ok)
  have "\<exists>H. fst st1 = fst st @ H \<and> (\<forall>k w. (k, w) \<in> set H \<longrightarrow> unique_write lib c m tn td ti i old_fs [u] k w) \<and>
      (is_unique fd \<longrightarrow> v \<noteq> VNull \<longrightarrow> (\<forall>k. unique_key lib c tn ti (fd_name fd) v = Some k \<longrightarrow> final_at H k = Some (Some (u64_be i))))"
    using update_unique_head [OF fd h] by (simp add: u)
  then obtain H where H: "fst st1 = fst st @ H" "\<And>k w. (k, w) \<in> set H \<Longrightarrow> unique_write lib c m tn td ti i old_fs [u] k w"
      "\<And>k. is_unique fd \<Longrightarrow> v \<noteq> VNull \<Longrightarrow> unique_key lib c tn ti (fd_name fd) v = Some k \<Longrightarrow> final_at H k = Some (Some (u64_be i))" by blast
  obtain W where W: "fst st' = fst st1 @ W" "\<And>k w. (k, w) \<in> set W \<Longrightarrow> unique_write lib c m tn td ti i old_fs us k w"
    "\<And>n v fd k. (n, v) \<in> set us \<Longrightarrow> field_named td n = Some fd \<Longrightarrow> is_unique fd \<Longrightarrow> v \<noteq> VNull \<Longrightarrow>
      unique_key lib c tn ti (fd_name fd) v = Some k \<Longrightarrow> final_at W k = Some (Some (u64_be i))"
    using Cons.IH [OF _ rest] Cons.prems(1) by auto
  have "final_at (H @ W) k = Some (Some (u64_be i))"
    if x: "(n', v') \<in> set (u # us)" "field_named td n' = Some fd'" "is_unique fd'" "v' \<noteq> VNull" "unique_key lib c tn ti (fd_name fd') v' = Some k" for n' v' fd' k
  proof (cases "(n', v') \<in> set us")
    case True
    then show ?thesis using W(3) x by simp
  next
    case False
    then have nv: "n' = n" "v' = v" "fd' = fd" using x u fd by auto
    have "final_at W k = None"
    proof (rule ccontr)
      assume "final_at W k \<noteq> None"
      then obtain w where "(k, w) \<in> set W" by (auto dest!: map_of_SomeD)
      from unique_write_field [OF c W(2) [OF this] _ x(5)] field_named_okD [OF x(2)] have "n \<in> fst ` set us" by (simp add: nv)
      then show False using Cons.prems(1) u by auto
    qed
    then show ?thesis using H(3) x nv by (simp add: map_add_def)
  qed
  moreover have "unique_write lib c m tn td ti i old_fs (u # us) k w" if "(k, w) \<in> set (H @ W)" for k w
    using that H(2) W(2) unique_write_mono [of lib c m tn td ti i old_fs _ k w "u # us"] by fastforce
  ultimately show ?case using H(1) W(1) by (intro exI [of _ "H @ W"]) auto
qed simp

lemma fulltext_update_side: "(k, w) \<in> set (fst (stage_fulltext_update m ti ff i old_text new_text \<delta>)) \<Longrightarrow> side_key k"
  by (auto simp: stage_fulltext_update_def Let_def tombstones_def puts_def dropped_postings_def changed_postings_def doc_row_write_def
    split: option.split_asm if_split_asm)

lemma update_fulltext_side:
  "(\<And>k w. (k, w) \<in> set (fst acc) \<Longrightarrow> side_key k) \<Longrightarrow> (k, w) \<in> set (fst (update_fulltext m ti i old_fs us ffs acc)) \<Longrightarrow> side_key k"
proof (induction ffs arbitrary: acc)
  case (Cons ff ffs)
  show ?case
  proof (cases "map_of us (utf8 (ff_name ff)) = None")
    case True
    then show ?thesis using Cons.prems Cons.IH [of acc] by simp
  next
    case False
    obtain ws \<delta> where f: "stage_fulltext_update m ti ff i (text_of old_fs (utf8 (ff_name ff))) (text_of us (utf8 (ff_name ff))) (snd acc) = (ws, \<delta>)"
      by fastforce
    have "side_key k" if "(k, w) \<in> set (fst acc @ ws)" for k w
      using that Cons.prems(1) fulltext_update_side [of k w m ti ff i "text_of old_fs (utf8 (ff_name ff))" "text_of us (utf8 (ff_name ff))" "snd acc"] f by auto
    then show ?thesis using Cons.IH [of "(fst acc @ ws, \<delta>)"] Cons.prems(2) False f by simp
  qed
qed simp

lemma index_writes_side: "(k, w) \<in> set (index_writes ti i serialized old_fs new_fs any_update ifd) \<Longrightarrow> side_key k"
  by (cases "index_key_of ti i ifd (map_of old_fs (utf8 (ifd_name ifd)))"; cases "index_key_of ti i ifd (map_of new_fs (utf8 (ifd_name ifd)))";
      cases "value_opt_eq (map_of old_fs (utf8 (ifd_name ifd))) (map_of new_fs (utf8 (ifd_name ifd)))"; cases any_update)
    (auto simp: index_writes_def Let_def dest: index_key_side)

text \<open>The parts of an update's batch.\<close>

lemma stage_update_okE:
  fixes lib :: "'j json_lib"
  assumes "stage_update lib c d tn td ti i us = ok (new_fs, ws, \<delta>)" "store_ok (store d)"
  obtains data old_fs st side revs where "kv_get (store d) (kb_object ti i) = Some data" "stored_fields lib data = ok old_fs"
    "update_unique lib c (store d) tn td ti i old_fs us ([], Map.empty) = ok st" "new_fs = merge old_fs us"
    "ws = fst st @ side @ revs @ [(kb_object_version ti i, Some (u64_be (or_zero (version_counters d (ti, i)) + 1))), (kb_object ti i, Some (serialize_fields lib new_fs))]"
    "\<And>k w. (k, w) \<in> set side \<Longrightarrow> side_key k" "cover_writes (store d) revs"
proof -
  obtain data old_fs where o: "kv_get (store d) (kb_object ti i) = Some data" "stored_fields lib data = ok old_fs"
    using assms(1) by (auto simp: stage_update_def dbind_ok split: option.split_asm)
  obtain st where st: "update_unique lib c (store d) tn td ti i old_fs us ([], Map.empty) = ok st"
    using assms(1) o by (auto simp: stage_update_def dbind_ok)
  obtain ft \<delta>' where ft: "update_fulltext (store d) ti i old_fs us (fulltext_fields c tn) ([], Map.empty) = (ft, \<delta>')" by fastforce
  let ?idx = "concat (map (index_writes ti i (serialize_fields lib (merge old_fs us)) old_fs (merge old_fs us) (us \<noteq> [])) (indexed_fields c tn))"
  obtain revs where revs: "refresh_outbound_rev_edges lib c d tn i (serialize_fields lib (merge old_fs us)) = ok revs"
    and e: "new_fs = merge old_fs us" "ws = fst st @ ft @ ?idx @ revs @
      [(kb_object_version ti i, Some (u64_be (or_zero (version_counters d (ti, i)) + 1))), (kb_object ti i, Some (serialize_fields lib (merge old_fs us)))]"
    using assms(1) o st ft by (auto simp: stage_update_def dbind_ok Let_def)
  have "side_key k" if "(k, w) \<in> set (ft @ ?idx)" for k w
    using that update_fulltext_side [where acc = "([], Map.empty)" and k = k and w = w and m = "store d" and ti = ti and i = i and old_fs = old_fs
      and us = us and ffs = "fulltext_fields c tn"] ft by (auto dest: index_writes_side)
  then show thesis using that [OF o st e(1), of "ft @ ?idx" revs] e refresh_outbound_covers [OF assms(2) revs] by auto
qed

text \<open>Which part of such a batch writes a key.\<close>

lemma update_batch_parts:
  assumes ws: "ws = W @ side @ revs @ [(kb_object_version ti i, Some g), (kb_object ti i, Some data)]"
    and W: "\<And>k w. (k, w) \<in> set W \<Longrightarrow> hd k = 117 \<and> k \<noteq> []" and side: "\<And>k w. (k, w) \<in> set side \<Longrightarrow> side_key k"
    and revs: "cover_writes m0 revs" and m0: "edges_paired m0"
  shows "final_at ws (kb_object t j) = (if t = ti \<and> j = i then Some (Some data) else None)"
    "hd k = 117 \<Longrightarrow> final_at ws k = final_at W k" "edge_batch m0 ws" "keys_batch ws"
proof -
  have rk: "hd k = 114 \<and> edge_key_ok k" if "(k, w) \<in> set revs" for k w using revs that by (force simp: cover_writes_def)
  have sk: "hd k \<in> {102, 103, 105, 108}" if "(k, w) \<in> set side" for k w using side [OF that] by (simp add: side_key_def)
  show "final_at ws (kb_object t j) = (if t = ti \<and> j = i then Some (Some data) else None)"
  proof (cases "t = ti \<and> j = i")
    case False
    have "hd k = 111 \<longrightarrow> k = kb_object ti i" if "(k, w) \<in> set ws" for k w using that W rk sk unfolding ws by fastforce
    then have "kb_object t j \<notin> fst ` set ws" using False by fastforce
    then show ?thesis using False final_at_None by metis
  qed (simp add: ws)
  show "final_at ws k = final_at W k" if "hd k = 117"
  proof -
    have "k \<notin> fst ` set (side @ revs @ [(kb_object_version ti i, Some g), (kb_object ti i, Some data)])"
      using that rk sk by fastforce
    then have "final_at (side @ revs @ [(kb_object_version ti i, Some g), (kb_object ti i, Some data)]) k = None" using final_at_None by metis
    then show ?thesis unfolding ws rev_append [of W] map_of_append by (simp add: map_add_def)
  qed
  have "filter (\<lambda>w. hd (fst w) = 101 \<or> hd (fst w) = 114) ws = filter (\<lambda>w. hd (fst w) = 101 \<or> hd (fst w) = 114) revs"
    using W sk by (fastforce simp: ws filter_empty_conv)
  then have "cover_writes m0 (filter (\<lambda>w. hd (fst w) = 101 \<or> hd (fst w) = 114) ws)" using revs by (simp add: cover_writes_def)
  then show "edge_batch m0 ws" by (rule edge_batch_covers [OF m0])
  show "keys_batch ws" using W side rk by (auto simp: keys_batch_def ws intro: other_kind_ok)
qed

text \<open>The unique entries an updated object asks for are claimed, or were its own and stay.\<close>

lemma update_claims:
  fixes lib :: "'j json_lib"
  assumes c: "catalog_ok c" "type_ids c tn = Some ti" "get_type (c_schema c) tn = Some td" and us: "distinct (map fst us)"
    and o: "kv_get m0 (kb_object ti i) = Some data" "stored_fields lib data = ok old_fs"
    and W: "\<And>k w. (k, w) \<in> set W \<Longrightarrow> unique_write lib c m0 tn td ti i old_fs us k w"
      "\<And>n v fd k. (n, v) \<in> set us \<Longrightarrow> field_named td n = Some fd \<Longrightarrow> is_unique fd \<Longrightarrow> v \<noteq> VNull \<Longrightarrow>
        unique_key lib c tn ti (fd_name fd) v = Some k \<Longrightarrow> final_at W k = Some (Some (u64_be i))"
    and n: "needs lib c ti (merge old_fs us) k"
  shows "final_at W k = Some (Some (u64_be i)) \<or> final_at W k = None \<and> owns lib c m0 ti i k"
  using c n
proof (rule needs_here)
  fix fd v
  assume f: "fd \<in> set (td_fields td)" "is_unique fd" "map_of (merge old_fs us) (utf8 (fd_name fd)) = Some v" "v \<noteq> VNull"
    "unique_key lib c tn ti (fd_name fd) v = Some k" "field_named td (utf8 (fd_name fd)) = Some fd"
  show ?thesis
  proof (cases "map_of us (utf8 (fd_name fd))")
    case None
    then have "non_null old_fs (utf8 (fd_name fd)) = Some v" using f(3,4) by (simp add: map_of_merge [OF us] non_null_def)
    then have "owns lib c m0 ti i k" using o f c(2,3) unfolding owns_def needs_def by blast
    moreover have "final_at W k = None"
    proof (rule ccontr)
      assume "final_at W k \<noteq> None"
      then obtain w where "(k, w) \<in> set W" by (auto dest!: map_of_SomeD)
      from unique_write_field [OF c(1,3) W(1) [OF this] f(1,5)] None show False by (simp add: map_of_eq_None_iff)
    qed
    ultimately show ?thesis by simp
  next
    case (Some x)
    then have "(utf8 (fd_name fd), v) \<in> set us" using f(3) by (auto simp: map_of_merge [OF us] dest: map_of_SomeD)
    then show ?thesis using W(2) [OF _ f(6,2,4,5)] by simp
  qed
qed

text \<open>It writes no entry of another object.\<close>

lemma unique_write_mine:
  assumes s: "unique_ok lib c m0" "exact_unique c m0" and c: "type_ids c tn = Some ti" "get_type (c_schema c) tn = Some td"
    and o: "kv_get m0 (kb_object ti i) = Some data" "stored_fields lib data = ok old_fs"
    and w: "unique_write lib c m0 tn td ti i old_fs us k w" and k: "kv_get m0 k = Some (u64_be j)"
  shows "j = i"
proof -
  from w obtain n v fd x where f: "field_named td n = Some fd" "is_unique fd" "unique_key lib c tn ti (fd_name fd) x = Some k"
    "non_null old_fs n = Some x \<or> (\<forall>j. kv_get m0 k = Some (u64_be j) \<longrightarrow> j = i)" using s(2) unfolding unique_write_def by blast
  show ?thesis
  proof (cases "non_null old_fs n = Some x")
    case True
    then have "needs lib c ti old_fs k" using f c field_named_okD [OF f(1)] unfolding needs_def by blast
    then have "owns lib c m0 ti i k" using o unfolding owns_def by blast
    then have "kv_get m0 k = Some (u64_be i)" using s(1) by (simp add: unique_ok_def)
    then show ?thesis using k by (metis be_u64_u64_be option.inject)
  qed (use f k in blast)
qed

lemma update_sound:
  fixes lib :: "'j json_lib"
  assumes c: "catalog_ok c" "type_ids c tn = Some ti" "get_type (c_schema c) tn = Some td" and us: "distinct (map fst us)"
    and ok: "sound_store (store d)"
    and r: "stage_update lib c d tn td ti i us = ok (new_fs, ws, \<delta>)" and fit: "fits lib new_fs"
  shows "sound_batch lib c (store d) ws"
proof -
  have s: "store_ok (store d)" "edges_paired (store d)" using ok by (simp_all add: sound_store_def)
  from r s(1) obtain data old_fs st side revs where o: "kv_get (store d) (kb_object ti i) = Some data" "stored_fields lib data = ok old_fs"
    and uu: "update_unique lib c (store d) tn td ti i old_fs us ([], Map.empty) = ok st" and new: "new_fs = merge old_fs us"
    and ws: "ws = fst st @ side @ revs @ [(kb_object_version ti i, Some (u64_be (or_zero (version_counters d (ti, i)) + 1))), (kb_object ti i, Some (serialize_fields lib new_fs))]"
    and side: "\<And>k w. (k, w) \<in> set side \<Longrightarrow> side_key k" and revs: "cover_writes (store d) revs"
    by (rule stage_update_okE) blast
  obtain W where st: "fst st = W" and W: "\<And>k w. (k, w) \<in> set W \<Longrightarrow> unique_write lib c (store d) tn td ti i old_fs us k w"
    "\<And>n v fd k. (n, v) \<in> set us \<Longrightarrow> field_named td n = Some fd \<Longrightarrow> is_unique fd \<Longrightarrow> v \<noteq> VNull \<Longrightarrow>
      unique_key lib c tn ti (fd_name fd) v = Some k \<Longrightarrow> final_at W k = Some (Some (u64_be i))"
    using update_unique_writes [OF c(1,3) us uu] by auto
  have Wk: "hd k = 117 \<and> k \<noteq> []" if "(k, w) \<in> set W" for k w
    using W(1) [OF that] by (auto simp: unique_write_def unique_key_def)
  note p = update_batch_parts [OF ws [unfolded st] Wk side revs s(2)]
  have "final_at ws k = Some (Some (u64_be i)) \<or> final_at ws k = None \<and> owns lib c (store d) ti i k" if "needs lib c ti new_fs k" for k
  proof -
    have "hd k = 117" using needs_key [OF that] by auto
    then show ?thesis using update_claims [OF c us o W that [unfolded new]] p(2) by simp
  qed
  moreover have "t = ti \<and> j = i" if u: "unique_ok lib c (store d)" "exact_unique c (store d)" and f: "final_at W (kb_unique_index t f b) = Some w" "kv_get (store d) (kb_unique_index t f b) = Some (u64_be j)" for t f b w j
  proof -
    have w: "unique_write lib c (store d) tn td ti i old_fs us (kb_unique_index t f b) w" using W(1) f(1) map_of_SomeD by fastforce
    then have "t = ti" by (auto simp: unique_write_def unique_key_def unique_key_inject)
    then show ?thesis using unique_write_mine [OF u c(2,3) o w f(2)] by simp
  qed
  ultimately have "exact_unique c (store d) \<and> unique_ok lib c (store d) \<longrightarrow> unique_batch lib c (store d) ws"
    using stored_fits [OF fit] by (auto simp: unique_batch_def p(1,2) split: if_split_asm)
  then show ?thesis using p(3,4) by (simp add: sound_batch_def)
qed

section \<open>Refreshes\<close>

lemma refresh_sound:
  fixes lib :: "'j json_lib"
  assumes ok: "sound_store (store d)" and r: "refresh_stage lib c d sources = ok ws"
  shows "sound_batch lib c (store d) ws"
proof -
  let ?f = "\<lambda>(sti, s). case type_name_by_id c sti of
         None \<Rightarrow> ok []
       | Some stn \<Rightarrow> (case kv_get (store d) (kb_object sti s) of
           None \<Rightarrow> ok []
         | Some data \<Rightarrow> refresh_outbound_rev_edges lib c d stn s data)"
  have s: "store_ok (store d)" "edges_paired (store d)" using ok by (simp_all add: sound_store_def)
  obtain wss where e: "each ?f sources = ok wss" and ws: "ws = concat wss"
    using r unfolding refresh_stage_def dbind_ok by (elim exE conjE) simp
  have "cover_writes (store d) xs" if x: "?f p = ok xs" for p xs
  proof (cases "xs = []")
    case False
    obtain sti j where p: "p = (sti, j)" by (cases p)
    from x False obtain stn data where "refresh_outbound_rev_edges lib c d stn j data = ok xs"
      unfolding p by (auto split: option.split_asm)
    then show ?thesis by (rule refresh_outbound_covers [OF s(1)])
  qed (simp add: cover_writes_def)
  then have "cover_writes (store d) ws" unfolding ws by (rule cover_writes_concat [OF e])
  then show ?thesis by (rule cover_writes_sound [OF s(2)])
qed

section \<open>Runs\<close>

text \<open>The batch that an operation stages when it starts from the state \<open>d\<close>.\<close>

inductive staged :: "'j json_lib \<Rightarrow> catalog \<Rightarrow> 'j db \<Rightarrow> writes \<Rightarrow> bool" for lib c d where
  staged_create: "type_live c tn ti \<Longrightarrow> get_type (c_schema c) tn = Some td \<Longrightarrow>
    stage_create_writes lib c d tn td ti i fs ([], Map.empty) Map.empty = ok (scalars, rows, st, \<delta>) \<Longrightarrow> fits lib scalars \<Longrightarrow>
    staged lib c d (fst st @ puts rows)"
| staged_create_batch: "type_live c tn ti \<Longrightarrow> get_type (c_schema c) tn = Some td \<Longrightarrow>
    stage_rows lib c tn td ti rows ([], [], ([], Map.empty), Map.empty) d = (ok (done, ps, st, \<delta>), d1) \<Longrightarrow>
    (\<And>i fs. (i, fs) \<in> set done \<Longrightarrow> fits lib fs) \<Longrightarrow> staged lib c d (fst st @ puts ps)"
| staged_update: "type_live c tn ti \<Longrightarrow> get_type (c_schema c) tn = Some td \<Longrightarrow> distinct (map fst us) \<Longrightarrow>
    stage_update lib c d tn td ti i us = ok (new_fs, ws, \<delta>) \<Longrightarrow> fits lib new_fs \<Longrightarrow> staged lib c d ws"
| staged_delete: "delete_stage lib c d ti i = ok (deleted, arena, \<delta>) \<Longrightarrow> staged lib c d (tombstones arena)"
| staged_link: "link_stage lib c d tn i f t ef = ok ws \<Longrightarrow> staged lib c d ws"
| staged_unlink: "unlink_stage c tn i f t = (ok ws :: ('j, writes) eres) \<Longrightarrow> staged lib c d ws"
| staged_refresh: "refresh_stage lib c d sources = ok ws \<Longrightarrow> staged lib c d ws"

lemma staged_sound:
  assumes "staged lib c d ws" "catalog_ok c" "sound_store (store d)"
  shows "sound_batch lib c (store d) ws"
  using assms(1)
proof cases
  case (staged_create tn ti td i fs scalars rows st \<delta>)
  then show ?thesis using create_sound [OF assms(2) _ staged_create(3-5)] by (simp add: type_live_def)
next
  case (staged_create_batch tn ti td rows "done" ps st \<delta> d1)
  have "rows_ok lib c (store d) ([], ([], Map.empty))" by (simp add: rows_ok_def paired_keys_def)
  then have "rows_ok lib c (store d) (ps, st)"
    using stage_rows_ok [OF assms(2) _ staged_create_batch(3,4,5)] staged_create_batch(2) by (auto simp: type_live_def)
  then show ?thesis using rows_sound staged_create_batch(1) by blast
next
  case (staged_update tn ti td us i new_fs \<delta>)
  then show ?thesis using update_sound [OF assms(2) _ _ _ assms(3)] by (auto simp: type_live_def)
next
  case (staged_delete ti i deleted arena \<delta>)
  then show ?thesis using delete_stage_sound [of d lib c ti i deleted arena \<delta>] assms(3) by (simp add: sound_store_def)
next
  case (staged_link tn i f t ef)
  then show ?thesis by (rule link_stage_sound)
next
  case (staged_unlink tn i f t)
  then show ?thesis by (rule unlink_stage_sound)
next
  case (staged_refresh sources)
  then show ?thesis by (rule refresh_sound [OF assms(3)])
qed



text \<open>The buffer of a transaction that a batch was written to.\<close>

definition batch_buffer :: "writes \<Rightarrow> (bytes \<times> bytes option) list" where
  "batch_buffer ws = tx_writes (buffer_all \<lparr>tx_snapshot = 0, tx_writes = [], tx_index = Map.empty, tx_hold = True\<rparr> ws)"

text \<open>
  What the conflict check needs to be complete: no commit came between the two steps of the begin of the transaction, and none of the commits
  since its snapshot has been pushed out of the log of 1024 entries.
\<close>

definition timely :: "sys \<Rightarrow> nat \<Rightarrow> bool" where
  "timely S i \<longleftrightarrow> sys_registered S i = tx_snapshot (sys_txns S ! i) \<and>
     (\<forall>c \<in> set (sys_history S). tx_snapshot (sys_txns S ! i) < ct_version c \<longrightarrow> newer_commits (sys_history S) c < 1024)"

text \<open>
  A run: a state of the transaction manager's system and the committed states of the store by version. The steps of begins, buffered
  writes, aborts, refused and failed commits are those of \<open>Mvcc\<close>; a commit that lands goes through \<^verbatim>\<open>commit\<close> of the manager with the batch that an
  operation staged from the state of its snapshot, with any counters in memory.
\<close>

inductive engine_run :: "'j json_lib \<Rightarrow> catalog \<Rightarrow> sys \<Rightarrow> (u64 \<rightharpoonup> kv) \<Rightarrow> bool" for lib c where
  run_start: "initial S \<Longrightarrow> engine_run lib c S [visible_version (sys_tm S) \<mapsto> []]"
| run_other: "engine_run lib c S M \<Longrightarrow> step S S' \<Longrightarrow> sys_history S' = sys_history S \<Longrightarrow> engine_run lib c S' M"
| run_commit: "engine_run lib c S M \<Longrightarrow> i < length (sys_txns S) \<Longrightarrow> tx_hold (sys_txns S ! i) \<Longrightarrow> next_version (sys_tm S) < - 1 \<Longrightarrow> timely S i \<Longrightarrow>
    M (tx_snapshot (sys_txns S ! i)) = Some (store d) \<Longrightarrow> staged lib c d ws \<Longrightarrow> ws \<noteq> [] \<Longrightarrow> tx_writes (sys_txns S ! i) = batch_buffer ws \<Longrightarrow>
    M (visible_version (sys_tm S)) = Some m \<Longrightarrow>
    tm_commit (sys_tm S) (sys_txns S ! i) (\<lambda>v b M. (Inr (), M(v \<mapsto> kv_apply b m))) M = (Inr v, tm, t, M') \<Longrightarrow>
    engine_run lib c (S\<lparr>sys_tm := tm, sys_txns := (sys_txns S)[i := t],
      sys_history := sys_history S @ [\<lparr>ct_version = v, ct_write_set = write_keys (sys_txns S ! i)\<rparr>]\<rparr>) M'"

text \<open>Every key that a commit of the run wrote.\<close>

definition written :: "sys \<Rightarrow> bytes set" where
  "written S = \<Union> (ct_write_set ` set (sys_history S))"

section \<open>What runs keep\<close>

lemma kv_ext:
  assumes "kv_ok a" "kv_ok b" "kv_get a = kv_get b"
  shows "a = b"
proof -
  have "set a = set b" using map_of_inject_set [of a b] kv_ok_distinct assms by blast
  moreover have "sorted (map fst m)" "inj_on fst (set m)" if "kv_ok m" for m :: kv
    using that kv_ok_distinct [OF that] by (auto simp: kv_ok_def distinct_map sorted_map elim: sorted_wrt_mono_rel [rotated])
  ultimately show ?thesis using map_sorted_distinct_set_unique [of fst a b] kv_ok_distinct assms(1,2) by simp
qed

lemma batch_buffer:
  "distinct (map fst (batch_buffer ws))" "map_of (batch_buffer ws) = map_of (rev ws)" "fst ` set (batch_buffer ws) = fst ` set ws"
  "kv_ok m \<Longrightarrow> kv_apply (batch_buffer ws) m = kv_apply ws m"
proof -
  let ?t = "\<lparr>tx_snapshot = 0, tx_writes = [], tx_index = Map.empty, tx_hold = True\<rparr>"
  have "buffer_inv ?t" by (simp add: buffer_inv_def)
  then show d: "distinct (map fst (batch_buffer ws))" and m: "map_of (batch_buffer ws) = map_of (rev ws)"
    using buffer_all_inv [of ?t ws] by (simp_all add: batch_buffer_def buffer_inv_def)
  show "fst ` set (batch_buffer ws) = fst ` set ws" using arg_cong [OF m, of dom] by (simp add: dom_map_of_conv_image_fst)
  have "map_of (rev (batch_buffer ws)) = map_of (rev ws)"
    using m map_of_inject_set [of "rev (batch_buffer ws)" "batch_buffer ws"] d by (simp add: rev_map [symmetric])
  then show "kv_ok m \<Longrightarrow> kv_apply (batch_buffer ws) m = kv_apply ws m" by (intro kv_ext) (simp_all add: fun_eq_iff kv_get_apply)
qed

text \<open>A commit that lands, as a step of the manager's system.\<close>

lemma landed_step:
  assumes "i < length (sys_txns S)" "tx_hold (sys_txns S ! i)" "next_version (sys_tm S) < - 1" "tx_writes (sys_txns S ! i) \<noteq> []"
    "tm_commit (sys_tm S) (sys_txns S ! i) (\<lambda>v b s. (Inr (), f v b s)) s0 = (Inr v, tm, t, s1)"
  shows "step S (S\<lparr>sys_tm := tm, sys_txns := (sys_txns S)[i := t],
      sys_history := sys_history S @ [\<lparr>ct_version = v, ct_write_set = write_keys (sys_txns S ! i)\<rparr>]\<rparr>)"
    and "v = next_version (sys_tm S)" and "visible_version tm = v" and "s1 = f v (tx_writes (sys_txns S ! i)) s0"
    and "\<not> conflicts (sys_tm S) (sys_txns S ! i)"
proof -
  have c: "commit_unit (sys_tm S) (sys_txns S ! i) (Inr ()) = (Inr v, tm, t, ())"
    and v: "v = next_version (sys_tm S)"
    using assms(4,5) by (auto simp: commit_unit_def tm_commit_def Let_def split: if_split_asm prod.split_asm)
  show "v = next_version (sys_tm S)" by (fact v)
  show "visible_version tm = v" "s1 = f v (tx_writes (sys_txns S ! i)) s0" "\<not> conflicts (sys_tm S) (sys_txns S ! i)"
    using assms(4,5) by (auto simp: tm_commit_def Let_def tx_release_def split: if_split_asm prod.split_asm)
  show "step S (S\<lparr>sys_tm := tm, sys_txns := (sys_txns S)[i := t],
      sys_history := sys_history S @ [\<lparr>ct_version = v, ct_write_set = write_keys (sys_txns S ! i)\<rparr>]\<rparr>)"
    using step_commit [OF assms(1-3) c] assms(4) by (simp add: v write_keys_def)
qed

text \<open>
  The states of a run: their versions are not above the visible one, and a key that no commit after a version wrote has in the newest state the value it had there.
\<close>

definition run_inv :: "sys \<Rightarrow> (u64 \<rightharpoonup> kv) \<Rightarrow> bool" where
  "run_inv S M \<longleftrightarrow> reachable S \<and> (\<exists>m. M (visible_version (sys_tm S)) = Some m) \<and>
     (\<forall>v m. M v = Some m \<longrightarrow> v \<le> visible_version (sys_tm S) \<and> sound_store m \<and> fst ` set m \<subseteq> written S \<and>
       (\<forall>k m'. M (visible_version (sys_tm S)) = Some m' \<longrightarrow> (\<forall>c \<in> set (sys_history S). v < ct_version c \<longrightarrow> k \<notin> ct_write_set c) \<longrightarrow>
          kv_get m' k = kv_get m k))"

lemma run_invD:
  assumes "run_inv S M" "M v = Some m"
  shows "reachable S" "v \<le> visible_version (sys_tm S)" "sound_store m" "fst ` set m \<subseteq> written S"
    "M (visible_version (sys_tm S)) = Some m' \<Longrightarrow> \<forall>c \<in> set (sys_history S). v < ct_version c \<longrightarrow> k \<notin> ct_write_set c \<Longrightarrow> kv_get m' k = kv_get m k"
  using assms by (simp_all add: run_inv_def)

lemma sound_empty: "sound_store []"
  by (simp add: sound_store_def store_ok_def edge_keys_ok_def edges_paired_def linked_def rev_linked_def present_def)

text \<open>The keys of a batch that lands have the values they had in the snapshot.\<close>

lemma landed_unchanged:
  assumes inv: "run_inv S M" and i: "i < length (sys_txns S)" "tx_hold (sys_txns S ! i)" and t: "timely S i"
    and m0: "M (tx_snapshot (sys_txns S ! i)) = Some m0" and ws: "tx_writes (sys_txns S ! i) = batch_buffer ws"
    and m: "M (visible_version (sys_tm S)) = Some m" and nc: "\<not> conflicts (sys_tm S) (sys_txns S ! i)"
  shows "unchanged ws m0 m"
proof -
  have r: "reachable S" using inv by (simp add: run_inv_def)
  have "k \<notin> ct_write_set c" if "c \<in> set (sys_history S)" "tx_snapshot (sys_txns S ! i) < ct_version c" "k \<in> fst ` set ws" for c k
  proof -
    have "k \<in> write_keys (sys_txns S ! i)" using that(3) batch_buffer(3) ws by (simp add: write_keys_def)
    moreover have "sys_registered S i < ct_version c" "newer_commits (sys_history S) c < 1024" using t that(1,2) by (auto simp: timely_def)
    ultimately show ?thesis using recent_conflict [OF r i that(1)] nc by blast
  qed
  then show ?thesis using run_invD(5) [OF inv m0 m] unfolding unchanged_def by (metis image_eqI)
qed

lemma run_inv_commit:
  assumes inv: "run_inv S M" and i: "i < length (sys_txns S)" "tx_hold (sys_txns S ! i)" and lim: "next_version (sys_tm S) < - 1"
    and t: "timely S i" and d: "M (tx_snapshot (sys_txns S ! i)) = Some (store d)" "staged lib c d ws" "catalog_ok c" "ws \<noteq> []"
    and ws: "tx_writes (sys_txns S ! i) = batch_buffer ws" and m: "M (visible_version (sys_tm S)) = Some m"
    and com: "tm_commit (sys_tm S) (sys_txns S ! i) (\<lambda>v b M. (Inr (), M(v \<mapsto> kv_apply b m))) M = (Inr v, tm, t', M')"
  shows "run_inv (S\<lparr>sys_tm := tm, sys_txns := (sys_txns S)[i := t'],
      sys_history := sys_history S @ [\<lparr>ct_version = v, ct_write_set = write_keys (sys_txns S ! i)\<rparr>]\<rparr>) M'" (is "run_inv ?S M'")
    and "M' = M(v \<mapsto> kv_apply ws m)" and "M v = None" and "unchanged ws (store d) m"
proof -
  have ne: "tx_writes (sys_txns S ! i) \<noteq> []" using ws d(4) batch_buffer(3) [of ws] by auto
  note L = landed_step [OF i lim ne com]
  have ok: "sound_store m" "sound_store (store d)" and keys: "fst ` set m \<subseteq> written S" and r: "reachable S"
    using run_invD [OF inv m] run_invD(3) [OF inv d(1)] by simp_all
  have mok: "kv_ok m" using ok(1) by (simp add: sound_store_def store_ok_def)
  have "visible_version (sys_tm S) < v" using sys_inv_reachable [OF r] L(2) by (simp add: sys_inv_def versions_inv_def)
  then have above: "u < v" if "M u = Some x" for u x by (rule order.strict_trans1 [OF run_invD(2) [OF inv that]])
  then show new: "M v = None" by (metis less_irrefl not_None_eq)
  show M': "M' = M(v \<mapsto> kv_apply ws m)" using L(4) ws batch_buffer(4) [OF mok] by simp
  show un: "unchanged ws (store d) m" by (rule landed_unchanged [OF inv i t d(1) ws m L(5)])
  have "sound_batch lib c (store d) ws" by (rule staged_sound [OF d(2,3) ok(2)])
  then have snd': "sound_store (kv_apply ws m)" by (rule sound_batch_apply(1) [OF ok(1) un])
  have wk: "write_keys (sys_txns S ! i) = fst ` set ws" using ws batch_buffer(3) by (simp add: write_keys_def)
  have W: "written ?S = written S \<union> fst ` set ws" by (auto simp: written_def wk)
  have "fst ` set (kv_apply ws m) \<subseteq> written S \<union> fst ` set ws"
  proof
    fix k assume "k \<in> fst ` set (kv_apply ws m)"
    then have "kv_get (kv_apply ws m) k \<noteq> None" by (simp add: map_of_eq_None_iff)
    then have "kv_get m k \<noteq> None \<or> k \<in> fst ` set ws" using kv_get_apply_other [OF mok] by fastforce
    then show "k \<in> written S \<union> fst ` set ws" using keys by (auto simp: map_of_eq_None_iff)
  qed
  then have keys': "fst ` set (kv_apply ws m) \<subseteq> written ?S" by (simp add: W)
  have "u \<le> v \<and> sound_store x \<and> fst ` set x \<subseteq> written ?S \<and>
      (\<forall>k. (\<forall>c \<in> set (sys_history ?S). u < ct_version c \<longrightarrow> k \<notin> ct_write_set c) \<longrightarrow> kv_get (kv_apply ws m) k = kv_get x k)"
    if x: "M' u = Some x" for u x
  proof (cases "u = v")
    case True
    then show ?thesis using x snd' keys' by (simp add: M')
  next
    case False
    then have u: "M u = Some x" using x by (simp add: M')
    have "kv_get (kv_apply ws m) k = kv_get x k"
      if "\<forall>c \<in> set (sys_history S). u < ct_version c \<longrightarrow> k \<notin> ct_write_set c" "k \<notin> fst ` set ws" for k
      using run_invD(5) [OF inv u m that(1)] kv_get_apply_other [OF mok that(2)] by simp
    then show ?thesis using above [OF u] run_invD(3,4) [OF inv u] W by (auto simp: wk)
  qed
  moreover have "reachable ?S" by (rule reachable.more [OF r L(1)])
  moreover have "visible_version (sys_tm ?S) = v" "M' v = Some (kv_apply ws m)" using L(3) by (simp_all add: M')
  ultimately show "run_inv ?S M'" unfolding run_inv_def by simp
qed

lemma run_inv:
  assumes "engine_run lib c S M" "catalog_ok c"
  shows "run_inv S M"
  using assms(1)
proof induction
  case (run_start S)
  then show ?case using reachable.start [OF run_start] by (auto simp: run_inv_def sound_empty initial_def)
next
  case (run_other S M S')
  then have v: "visible_version (sys_tm S') = visible_version (sys_tm S)" by (intro step_quiet)
  have "reachable S'" using run_other reachable.more by (auto simp: run_inv_def)
  then show ?case using run_other.IH run_other.hyps(3) by (simp add: run_inv_def v written_def)
next
  case (run_commit S M i d ws m v tm t M')
  show ?case by (rule run_inv_commit(1) [OF run_commit.IH run_commit.hyps(2-7) assms(2) run_commit.hyps(8-11)])
qed

lemma run_sound: "engine_run lib c S M \<Longrightarrow> catalog_ok c \<Longrightarrow> M v = Some m \<Longrightarrow> sound_store m"
  using run_inv unfolding run_inv_def by blast

lemma run_unique:
  assumes "engine_run lib c S M" "catalog_ok c" "\<And>v m. M v = Some m \<Longrightarrow> exact_unique c m"
  shows "M v = Some m \<Longrightarrow> unique_ok lib c m"
  using assms(1,3)
proof (induction arbitrary: v m)
  case (run_start S)
  then show ?case by (auto simp: unique_ok_def owns_def split: if_split_asm)
next
  case (run_commit S M i d ws m' u tm t M')
  note inv = run_inv [OF run_commit.hyps(1) assms(2)]
  note L = run_inv_commit [OF inv run_commit.hyps(2-7) assms(2) run_commit.hyps(8-11)]
  have old: "M x = Some y \<Longrightarrow> M' x = Some y" for x y using L(2,3) by (auto split: if_split_asm)
  then have ex: "exact_unique c y" if "M x = Some y" for x y using that run_commit.prems(2) by blast
  have uo: "unique_ok lib c y" if "M x = Some y" for x y using run_commit.IH [OF that] ex by blast
  have m': "sound_store m'" "sound_store (store d)" using run_sound [OF run_commit.hyps(1) assms(2)] run_commit.hyps(6,10) by blast+
  have "sound_batch lib c (store d) ws" by (rule staged_sound [OF run_commit.hyps(7) assms(2) m'(2)])
  then have "unique_ok lib c (kv_apply ws m')"
    using sound_batch_apply(2) [OF m'(1) L(4)] ex [OF run_commit.hyps(6)] uo run_commit.hyps(6,10) by blast
  then show ?case using run_commit.prems(1) uo L(2) by (auto split: if_split_asm)
qed blast

text \<open>
  The entries of the unique index are found, when the point read of the storage is exact for keys that no written key continues and that continue no
  written key with \<open>0xFF\<close>, and of two written keys, one of a unique entry, neither continues the other.
\<close>

lemma run_exact:
  assumes "engine_run lib c S M" "catalog_ok c" "M v = Some m"
    and reads: "\<And>k. \<forall>j \<in> written S. \<not> strict_prefix k j \<and> \<not> prefix (j @ [255]) k \<Longrightarrow> storage_get c m k = kv_get m k"
    and free: "\<forall>j \<in> written S. \<forall>k \<in> written S. hd k = 117 \<longrightarrow> \<not> strict_prefix j k \<and> \<not> strict_prefix k j"
  shows "exact_unique c m"
  unfolding exact_unique_def
proof (intro allI impI)
  fix k x
  assume k: "hd k = 117" "kv_get m k = Some x"
  have "fst ` set m \<subseteq> written S" using run_inv [OF assms(1,2)] assms(3) by (simp add: run_inv_def)
  then have kw: "k \<in> written S" using map_of_SomeD [OF k(2)] by force
  have "\<not> strict_prefix k j \<and> \<not> prefix (j @ [255]) k" if "j \<in> written S" for j
    using free k(1) kw that by (auto simp: strict_prefix_def prefix_def)
  then show "storage_get c m k = Some x" using reads k(2) by simp
qed

section \<open>Operations as transactions of a run\<close>

text \<open>A begin, the writes of a batch, and a commit that meets no conflict.\<close>

lemma run_begin:
  assumes "engine_run lib c S M" "Suc (length (sys_txns S)) < 2 ^ 64"
  obtains S' where "engine_run lib c S' M" "sys_history S' = sys_history S"
    "sys_txns S' = sys_txns S @ [\<lparr>tx_snapshot = visible_version (sys_tm S), tx_writes = [], tx_index = Map.empty, tx_hold = True\<rparr>]"
    "visible_version (sys_tm S') = visible_version (sys_tm S)" "next_version (sys_tm S') = next_version (sys_tm S)"
    "sys_registered S' = (sys_registered S)(length (sys_txns S) := visible_version (sys_tm S))"
proof -
  let ?v = "visible_version (sys_tm S)" and ?S1 = "S\<lparr>sys_pending := begin_load (sys_tm S) # sys_pending S\<rparr>"
  obtain m t where b: "begin_register (sys_tm ?S1) ?v = (m, t)" by fastforce
  have "engine_run lib c ?S1 M" by (rule run_other [OF assms(1) step_load]) simp
  from run_other [OF this step_register [OF _ _ b]] assms(2)
  have "engine_run lib c (?S1\<lparr>sys_tm := m, sys_txns := sys_txns S @ [t], sys_pending := sys_pending S,
      sys_registered := (sys_registered S)(length (sys_txns S) := ?v)\<rparr>) M" by (simp add: begin_load_def)
  from that [OF this] show thesis using b by (auto simp: begin_register_def)
qed

lemma run_buffer:
  assumes "engine_run lib c S M" "i < length (sys_txns S)"
  shows "engine_run lib c (S\<lparr>sys_txns := (sys_txns S)[i := buffer_all (sys_txns S ! i) ws]\<rparr>) M"
  using assms
proof (induction ws arbitrary: S)
  case (Cons w ws)
  obtain k x where w: "w = (k, x)" by (cases w)
  let ?S = "S\<lparr>sys_txns := (sys_txns S)[i := upsert (sys_txns S ! i) k x]\<rparr>"
  have "step S ?S" using step_put [OF Cons.prems(2), of k] step_delete [OF Cons.prems(2), of k]
    by (cases x) (simp_all add: record_put_def record_delete_def)
  then have "engine_run lib c ?S M" by (rule run_other [OF Cons.prems(1)]) simp
  from Cons.IH [OF this] Cons.prems(2) show ?case by (simp add: w buffer_all_Cons)
qed simp

lemma batch_buffer_fresh:
  "tx_writes (buffer_all \<lparr>tx_snapshot = s, tx_writes = [], tx_index = Map.empty, tx_hold = h\<rparr> ws) = batch_buffer ws"
proof -
  have e: "tx_writes t = tx_writes t' \<Longrightarrow> tx_index t = tx_index t' \<Longrightarrow> tx_writes (buffer_all t ws) = tx_writes (buffer_all t' ws)" for t t'
  proof (induction ws arbitrary: t t')
    case (Cons w ws)
    obtain k x where w: "w = (k, x)" by (cases w)
    have "tx_writes (upsert t k x) = tx_writes (upsert t' k x)" "tx_index (upsert t k x) = tx_index (upsert t' k x)"
      using Cons.prems by (auto simp: upsert_def split: option.split)
    then show ?case unfolding w buffer_all_Cons by (rule Cons.IH)
  qed simp
  show ?thesis unfolding batch_buffer_def by (rule e) simp_all
qed

lemma run_land:
  assumes run: "engine_run lib c S M" "catalog_ok c" and i: "i < length (sys_txns S)"
    and t: "sys_txns S ! i = buffer_all \<lparr>tx_snapshot = s, tx_writes = [], tx_index = Map.empty, tx_hold = True\<rparr> ws"
    and reg: "sys_registered S i = s" and few: "length (sys_history S) < 1024" and lim: "next_version (sys_tm S) < - 1"
    and d: "M s = Some (store d)" "staged lib c d ws" "ws \<noteq> []" and m: "M (visible_version (sys_tm S)) = Some m"
    and nc: "\<forall>e \<in> set (sys_history S). s < ct_version e \<longrightarrow> ct_write_set e \<inter> fst ` set ws = {}"
  obtains S' where "engine_run lib c S' (M(next_version (sys_tm S) \<mapsto> kv_apply ws m))"
    "sys_history S' = sys_history S @ [\<lparr>ct_version = next_version (sys_tm S), ct_write_set = fst ` set ws\<rparr>]"
    "visible_version (sys_tm S') = next_version (sys_tm S)" "next_version (sys_tm S') = next_version (sys_tm S) + 1"
    "length (sys_txns S') = length (sys_txns S)" "\<forall>j. j \<noteq> i \<longrightarrow> j < length (sys_txns S) \<longrightarrow> sys_txns S' ! j = sys_txns S ! j"
    "sys_registered S' = sys_registered S"
proof -
  have inv: "run_inv S M" by (rule run_inv [OF run])
  have ws: "tx_writes (sys_txns S ! i) = batch_buffer ws" "tx_hold (sys_txns S ! i)" "tx_snapshot (sys_txns S ! i) = s"
    by (simp_all add: t batch_buffer_fresh)
  have wk: "write_keys (sys_txns S ! i) = fst ` set ws" using ws(1) batch_buffer(3) by (simp add: write_keys_def)
  have ne: "tx_writes (sys_txns S ! i) \<noteq> []" using ws(1) d(3) batch_buffer(3) [of ws] by auto
  obtain h where h: "sys_history S = h @ committed_log (sys_tm S)"
    using inv sys_inv_reachable [of S] by (auto simp: run_inv_def sys_inv_def log_inv_def)
  have nc': "\<not> conflicts (sys_tm S) (sys_txns S ! i)" using nc h ws(3) by (auto simp: conflicts_iff wk)
  have "newer_commits (sys_history S) e < 1024" for e
    using few length_filter_le [of _ "sys_history S"] unfolding newer_commits_def by (rule le_less_trans [rotated])
  then have ti: "timely S i" using reg ws(3) by (simp add: timely_def)
  obtain r tm t' M' where com: "tm_commit (sys_tm S) (sys_txns S ! i) (\<lambda>v b M. (Inr (), M(v \<mapsto> kv_apply b m))) M = (r, tm, t', M')"
    by (metis prod_cases4)
  have r: "r = Inr (next_version (sys_tm S))" "next_version tm = next_version (sys_tm S) + 1"
    using com ne nc' by (auto simp: tm_commit_def Let_def tx_release_def split: if_split_asm prod.split_asm)
  note com = com [unfolded r(1)]
  note L = run_inv_commit [OF inv i ws(2) lim ti _ d(2) run(2) d(3) ws(1) m com]
  have "engine_run lib c (S\<lparr>sys_tm := tm, sys_txns := (sys_txns S)[i := t'],
      sys_history := sys_history S @ [\<lparr>ct_version = next_version (sys_tm S), ct_write_set = fst ` set ws\<rparr>]\<rparr>) (M(next_version (sys_tm S) \<mapsto> kv_apply ws m))"
    using run_commit [OF run(1) i ws(2) lim ti _ d(2,3) ws(1) m com] L(2) d(1) by (simp add: ws(3) wk)
  from that [OF this] show thesis using landed_step(3) [OF i ws(2) lim ne com] r(2) by simp
qed

text \<open>One transaction alone: it begins, writes its batch and commits.\<close>

lemma run_alone:
  assumes run: "engine_run lib c S M" "catalog_ok c" and m: "M (visible_version (sys_tm S)) = Some m"
    and lim: "length (sys_txns S) = n" "length (sys_history S) = n" "next_version (sys_tm S) = of_nat (Suc n)" "n < 1000"
    and d: "store d = m" "staged lib c d ws" "ws \<noteq> []"
  obtains S' where "engine_run lib c S' (M(next_version (sys_tm S) \<mapsto> kv_apply ws m))" "visible_version (sys_tm S') = next_version (sys_tm S)"
    "length (sys_txns S') = Suc n" "length (sys_history S') = Suc n" "next_version (sys_tm S') = of_nat (Suc (Suc n))"
proof -
  let ?v = "visible_version (sys_tm S)"
  have "Suc (length (sys_txns S)) < 2 ^ 64" using lim by simp
  from run(1) this obtain S1 where S1: "engine_run lib c S1 M" "sys_history S1 = sys_history S"
    "sys_txns S1 = sys_txns S @ [\<lparr>tx_snapshot = ?v, tx_writes = [], tx_index = Map.empty, tx_hold = True\<rparr>]"
    "visible_version (sys_tm S1) = ?v" "next_version (sys_tm S1) = next_version (sys_tm S)"
    "sys_registered S1 = (sys_registered S)(length (sys_txns S) := ?v)" by (rule run_begin)
  let ?S2 = "S1\<lparr>sys_txns := (sys_txns S1)[length (sys_txns S) := buffer_all (sys_txns S1 ! length (sys_txns S)) ws]\<rparr>"
  have S2: "engine_run lib c ?S2 M" by (rule run_buffer [OF S1(1)]) (simp add: S1(3))
  have old: "\<forall>e \<in> set (sys_history S). ct_version e \<le> ?v"
    using run_inv [OF run] sys_inv_reachable [of S] by (auto simp: run_inv_def sys_inv_def versions_inv_def)
  have "unat (of_nat (Suc n) :: u64) = Suc n" using lim(4) by (simp add: unat_of_nat del: of_nat_Suc)
  then have top: "next_version (sys_tm S) < - 1" using lim(3,4) by (simp add: word_less_nat_alt unat_max)
  from S2 run(2) obtain S' where "engine_run lib c S' (M(next_version (sys_tm ?S2) \<mapsto> kv_apply ws m))"
    "sys_history S' = sys_history ?S2 @ [\<lparr>ct_version = next_version (sys_tm ?S2), ct_write_set = fst ` set ws\<rparr>]"
    "visible_version (sys_tm S') = next_version (sys_tm ?S2)" "next_version (sys_tm S') = next_version (sys_tm ?S2) + 1"
    "length (sys_txns S') = length (sys_txns ?S2)"
    by (rule run_land [where i = "length (sys_txns S)" and s = ?v and d = d and ws = ws and m = m])
      (use S1 old d m top lim in \<open>auto dest: order.strict_trans1\<close>)
  then show thesis using S1 lim by (intro that [of S']) (simp_all add: add.commute)
qed

lemma create_staged:
  assumes "create_with_origin io lib c tn fs origin d = (ok ob, d')" "fits lib (ob_fields ob)"
  obtains d1 ws where "staged lib c d1 ws" "store d1 = store d" "store d' = kv_apply ws (store d)"
proof -
  let ?d = "d\<lparr>next_object_id := next_object_id d + 1\<rparr>"
  obtain ti td scalars rows st \<delta> where r: "type_live c tn ti" "get_type (c_schema c) tn = Some td"
    "stage_create_writes lib c ?d tn td ti (next_object_id d) fs ([], Map.empty) Map.empty = ok (scalars, rows, st, \<delta>)"
    and e: "ob = mk_object tn (next_object_id d) scalars" "store d' = kv_apply (fst st @ puts rows) (store d)"
    using assms(1) by (auto simp: create_with_origin_def Let_def sbind_ok commit_ok bump_version_def)
  have "fits lib scalars" using assms(2) e(1) by (simp add: mk_object_def)
  then show thesis using that [OF staged_create [OF r]] e(2) by simp
qed

lemma create_batch_staged:
  assumes "create_batch_with_origin io lib c tn rows origin d = (ok obs, d')" "rows \<noteq> []" "\<And>ob. ob \<in> set obs \<Longrightarrow> fits lib (ob_fields ob)"
  obtains ws where "staged lib c d ws" "store d' = kv_apply ws (store d)"
proof -
  obtain ti td where t: "type_live c tn ti" "get_type (c_schema c) tn = Some td"
    and k: "(case stage_rows lib c tn td ti rows ([], [], ([], Map.empty), Map.empty) d of
          (r, d1) \<Rightarrow> sbind r d1 (\<lambda>(done, ps, st, \<delta>).
            sbind (commit io (fst st @ puts ps) d1) (foldl (\<lambda>d j. rollback_version ti j d) d1 (map fst done)) (\<lambda>d2.
            (ok (map (\<lambda>(i, fs). mk_object tn i fs) done),
             publish (map (\<lambda>(i, fs). event (store_version d2) ChCreate tn i (Some fs) origin) done) (settle_stats \<delta> d2))))) = (ok obs, d')"
    using assms(1,2) unfolding create_batch_with_origin_def by (simp add: sbind_ok) blast
  obtain x d1 where x: "stage_rows lib c tn td ti rows ([], [], ([], Map.empty), Map.empty) d = (x, d1)" by fastforce
  obtain "done" ps st \<delta> where "x = ok (done, ps, st, \<delta>)"
    and e: "obs = map (\<lambda>(i, fs). mk_object tn i fs) done" "store d' = kv_apply (fst st @ puts ps) (store d1)"
    using k by (auto simp: x sbind_ok commit_ok)
  note r = t x [unfolded this(1)]
  have "fits lib fs" if "(i, fs) \<in> set done" for i fs
  proof -
    have "mk_object tn i fs \<in> set obs" using e(1) that by force
    then show ?thesis using assms(3) by (force simp: mk_object_def)
  qed
  then show thesis using that [OF staged_create_batch [OF r]] e(2) stage_rows_done [OF r(3)] by simp
qed

lemma update_staged:
  assumes "update_with_origin io lib c tn i us origin d = (ok ob, d')" "fits lib (ob_fields ob)" "distinct (map fst us)"
  obtains ws where "staged lib c d ws" "store d' = kv_apply ws (store d)"
proof -
  obtain ti td new_fs ws \<delta> where r: "type_live c tn ti" "get_type (c_schema c) tn = Some td" "stage_update lib c d tn td ti i us = ok (new_fs, ws, \<delta>)"
    and e: "ob = mk_object tn i new_fs" "store d' = kv_apply ws (store d)"
    using assms(1) by (auto simp: update_with_origin_def Let_def sbind_ok commit_ok bump_version_def)
  have "fits lib new_fs" using assms(2) e(1) by (simp add: mk_object_def)
  then show thesis using that [OF staged_update [OF r(1,2) assms(3) r(3)]] e(2) by simp
qed

lemma delete_staged:
  assumes "delete_with_origin io lib c tn i origin d = (ok u, d')"
  obtains ws where "staged lib c d ws" "store d' = kv_apply ws (store d)"
proof -
  obtain ti deleted arena \<delta> where "delete_stage lib c d ti i = ok (deleted, arena, \<delta>)" "store d' = kv_apply (tombstones arena) (store d)"
    using assms(1) by (auto simp: delete_with_origin_def sbind_ok commit_ok Let_def)
  then show thesis using that staged_delete by blast
qed

lemma link_staged:
  assumes "link io lib c d tn i f t ef = ok d'"
  obtains ws where "staged lib c d ws" "store d' = kv_apply ws (store d)"
proof -
  obtain ws where "link_stage lib c d tn i f t ef = ok ws" "store d' = kv_apply ws (store d)"
    using assms by (auto simp: link_def dbind_ok commit_ok)
  then show thesis using that staged_link by blast
qed

lemma unlink_staged:
  fixes d :: "'j db"
  assumes "unlink io c d tn i f t = ok d'"
  obtains ws where "staged (lib :: 'j json_lib) c d ws" "store d' = kv_apply ws (store d)"
proof -
  obtain ws where "unlink_stage c tn i f t = (ok ws :: ('j, writes) eres)" "store d' = kv_apply ws (store d)"
    using assms by (auto simp: unlink_def dbind_ok commit_ok)
  then show thesis using that staged_unlink by blast
qed

lemma refresh_staged:
  assumes "refresh_covers_for_target io lib c d0 d ti i = ok d'" "refresh_sources c d0 ti i \<noteq> []"
  obtains ws where "staged lib c d ws" "store d' = kv_apply ws (store d)"
proof -
  obtain sources ws where "refresh_stage lib c d sources = ok ws" "store d' = kv_apply ws (store d)"
    using assms by (auto simp: refresh_covers_for_target_def dbind_ok commit_ok split: list.split_asm)
  then show thesis using that staged_refresh by blast
qed

section \<open>What a run shows to readers\<close>

lemma map_of_filter_keys: "map_of (filter (\<lambda>f. Q (fst f)) fs) n = (if Q n then map_of fs n else None)"
  by (induction fs) auto

lemma map_of_strip: "map_of (strip_tombstoned_fields c tn fs) n = Some v \<Longrightarrow> map_of fs n = Some v"
  using map_of_filter_keys [of "\<lambda>k. k \<notin> utf8 ` set (retired_field_names_by_type c tn) \<and> \<not> is_shadow_sibling_key k" fs n]
  by (simp add: strip_tombstoned_fields_def split: if_split_asm)

lemma get_okE:
  assumes "get lib c d tn i = ok ob"
  obtains ti data fs where "type_live c tn ti" "kv_get (store d) (kb_object ti i) = Some data" "stored_fields lib data = ok fs"
    "ob = mk_object tn i (strip_tombstoned_fields c tn fs)"
  using assms unfolding get_def dbind_ok lookup_ok by (auto simp: dbind_ok split: option.split_asm)

lemma unique_owner:
  assumes g: "get lib c d tn i = ok ob" and v: "map_of (ob_fields ob) (utf8 (fd_name fd)) = Some v" "v \<noteq> VNull"
    and fd: "get_type (c_schema c) tn = Some td" "fd \<in> set (td_fields td)" "is_unique fd" "field_ids c (qual tn (fd_name fd)) = Some fi"
    and u: "unique_ok lib c (store d)" and ti: "type_ids c tn = Some ti"
  shows "kv_get (store d) (kb_unique_index ti fi (value_to_index_bytes (json_bytes lib) v)) = Some (u64_be i)"
proof -
  from g ti obtain data fs where o: "kv_get (store d) (kb_object ti i) = Some data" "stored_fields lib data = ok fs"
    and ob: "ob = mk_object tn i (strip_tombstoned_fields c tn fs)"
    by (elim get_okE) (auto simp: type_live_def)
  have "non_null fs (utf8 (fd_name fd)) = Some v" using v ob map_of_strip by (fastforce simp: mk_object_def non_null_def)
  then have "needs lib c ti fs (kb_unique_index ti fi (value_to_index_bytes (json_bytes lib) v))"
    using fd ti unfolding needs_def unique_key_def by fastforce
  then have "owns lib c (store d) ti i (kb_unique_index ti fi (value_to_index_bytes (json_bytes lib) v))" using o unfolding owns_def by blast
  then show ?thesis using u by (simp add: unique_ok_def)
qed

lemma scan_ids:
  assumes "scan_prefix lib m p = ok l"
  shows "map fst l = map (\<lambda>(k, v). tail_id k) (filter (\<lambda>e. 8 \<le> length (fst e)) (kv_scan m p))"
proof -
  have "list_all2 (\<lambda>e y. tail_id (fst e) = fst y) (filter (\<lambda>e. 8 \<le> length (fst e)) (kv_scan m p)) l"
    using assms unfolding scan_prefix_def decode_edge_entries_def each_ok
    by (rule list_all2_mono) (auto simp: dbind_ok)
  then show ?thesis by (induction rule: list_all2_induct) auto
qed

lemma forward_ids:
  assumes "store_ok m" "scan_prefix lib m (kb_edge_prefix s r) = ok l"
  shows "t \<in> fst ` set l \<longleftrightarrow> linked m s r t"
proof -
  have "fst ` set l = fst ` set (scan_prefix_raw m (kb_edge_prefix s r))"
    using arg_cong [OF scan_ids [OF assms(2)], of set] by (simp add: scan_prefix_raw_def image_image split_beta)
  then show ?thesis using forward_scan_ids [OF assms(1)] by simp
qed

lemma reverse_ids:
  assumes "store_ok m" "scan_prefix lib m (kb_reverse_edge_prefix t r) = ok l"
  shows "s \<in> fst ` set l \<longleftrightarrow> rev_linked m s r t"
proof -
  have "fst ` set l = fst ` set (scan_prefix_raw m (kb_reverse_edge_prefix t r))"
    using arg_cong [OF scan_ids [OF assms(2)], of set] by (simp add: scan_prefix_raw_def image_image split_beta)
  then show ?thesis using reverse_scan_ids [OF assms(1)] by simp
qed

lemma get_links_okE:
  assumes "get_links lib c d tn i f = ok l" "get_type (c_schema c) tn = Some td" "get_field td f = Some fd"
  obtains r where "rel_ids c (case fd_inverse fd of None \<Rightarrow> qual tn f | Some iv \<Rightarrow> qual (inv_type_name iv) (inv_field_name iv)) = Some r"
    "scan_prefix lib (store d) (link_prefix i (r, fd_inverse fd \<noteq> None)) = ok l"
proof -
  have "fd_name fd = f" using assms(3) by (auto simp: get_field_def find_Some_iff)
  then show thesis using assms that
    by (cases "fd_inverse fd") (auto simp: get_links_def dbind_ok read_relation_def)
qed

end
