(* ===== verification/Engine_System.thy ===== *)
theory Engine_System
  imports Engine_Sample Engine_Run
begin

text \<open>
  The properties of the engine's operations, with the sample database as their witness.
\<close>

section \<open>Runs of the sample\<close>

text \<open>A run of at most \<open>n\<close> transactions, one after the other, that leaves the state \<open>m\<close>.\<close>

definition run_at :: "'j json_lib \<Rightarrow> catalog \<Rightarrow> nat \<Rightarrow> kv \<Rightarrow> bool" where
  "run_at lib c n m \<longleftrightarrow> (\<exists>S M k. engine_run lib c S M \<and> M (visible_version (sys_tm S)) = Some m \<and> k \<le> n \<and>
     length (sys_txns S) = k \<and> length (sys_history S) = k \<and> next_version (sys_tm S) = of_nat (Suc k))"

definition new_sys :: sys where
  "new_sys = \<lparr>sys_tm = recover_at_version 0, sys_txns = [], sys_history = [], sys_pending = [], sys_registered = (\<lambda>_. 0)\<rparr>"

lemma new_sys_run: "engine_run lib c new_sys [0 \<mapsto> []]"
proof -
  have "initial new_sys" using one_less_max by (auto simp: initial_def new_sys_def intro!: exI [of _ "0 :: u64"] dest: order.strict_trans1 [OF word_zero_le])
  from run_start [OF this] show ?thesis by (simp add: new_sys_def recover_at_version_def)
qed

lemma run_at_start: "run_at lib c 0 []"
  unfolding run_at_def
  by (rule exI [of _ new_sys], rule exI [of _ "[0 \<mapsto> []]"], rule exI [of _ 0])
    (simp add: new_sys_run, simp add: new_sys_def recover_at_version_def)

lemma run_at_op:
  assumes "run_at lib c n (store d)" "catalog_ok c" "n < 1000" "staged lib c d1 ws" "store d1 = store d" "store d' = kv_apply ws (store d)"
  shows "run_at lib c (Suc n) (store d')"
proof (cases "ws = []")
  case True
  then show ?thesis using assms(1,6) unfolding run_at_def by (metis kv_apply_Nil le_SucI)
next
  case False
  obtain S M k where S: "engine_run lib c S M" "M (visible_version (sys_tm S)) = Some (store d)" "k \<le> n"
    "length (sys_txns S) = k" "length (sys_history S) = k" "next_version (sys_tm S) = of_nat (Suc k)"
    using assms(1) unfolding run_at_def by blast
  have "k < 1000" using S(3) assms(3) by simp
  from S(1) assms(2) S(2,4-6) this assms(5,4) False
  obtain S' where "engine_run lib c S' (M(next_version (sys_tm S) \<mapsto> kv_apply ws (store d)))" "visible_version (sys_tm S') = next_version (sys_tm S)"
    "length (sys_txns S') = Suc k" "length (sys_history S') = Suc k" "next_version (sys_tm S') = of_nat (Suc (Suc k))"
    by (rule run_alone)
  then show ?thesis unfolding run_at_def using S(3) assms(6)
    by (intro exI [of _ S'] exI [of _ "M(next_version (sys_tm S) \<mapsto> kv_apply ws (store d))"] exI [of _ "Suc k"]) simp
qed

lemma fits_blank: "fits text_json []"
  by (simp add: fits_def fields_ok_def serialize_fields_bytes)

lemma blank_created:
  assumes "resolve_type_id film_catalog (lit tn) = (ok ti :: (bytes, u64) eres)" "schema_type film_catalog (lit tn) = (ok td :: (bytes, TypeDef) eres)"
  shows "create_with_origin Lands text_json film_catalog (lit tn) [] None d = (ok (mk_object (lit tn) (next_object_id d) []), created tn [] d)"
  using assms
  by (simp add: created_def create_with_origin_def sbind_def Let_def stage_create_writes_def inline_edges_def commit_def del: lookup_ok)

lemma film_catalog_ok: "catalog_ok film_catalog"
  by (auto simp: catalog_ok_def get_type_def film_lookup film_fields utf8_lit film_catalog_def split: if_split_asm)

lemma run_created:
  assumes "run_at text_json film_catalog n (store d)" "n < 1000"
    "create_with_origin Lands text_json film_catalog tn fs None d = (ok (mk_object tn i []), d')"
  shows "run_at text_json film_catalog (Suc n) (store d')"
proof -
  have "fits text_json (ob_fields (mk_object tn i []) :: bytes FieldMap)" using fits_blank by (simp add: mk_object_def)
  with assms(3) obtain d1 ws where "staged text_json film_catalog d1 ws" "store d1 = store d" "store d' = kv_apply ws (store d)" by (rule create_staged)
  then show ?thesis by (rule run_at_op [OF assms(1) film_catalog_ok assms(2)])
qed

lemma films_created: "create_with_origin Lands text_json film_catalog (lit ''Rating'') rating_fields None films0 = (ok (mk_object (lit ''Rating'') 4 []), films)"
  by (simp add: films_def created_def create_with_origin_def sbind_def film_types films0_state stage_create_writes_def rating_links rating_edges
      object_rows_def film_indexed map_filter_def fulltext_docs_def film_lookup commit_def Let_def del: lookup_ok)

lemma films_run: "run_at text_json film_catalog 4 (store films)"
proof -
  let ?d1 = "created ''User'' [] empty_db" and ?d2 = "created ''Movie'' [] (created ''User'' [] empty_db)"
  have "run_at text_json film_catalog 0 (store (empty_db :: bytes db))" using run_at_start by (simp add: empty_db_def)
  then have "run_at text_json film_catalog (Suc 0) (store ?d1)"
    by (rule run_created [OF _ _ blank_created [OF film_types(1,4)]]) simp
  then have "run_at text_json film_catalog (Suc (Suc 0)) (store ?d2)"
    by (rule run_created [OF _ _ blank_created [OF film_types(2,5)]]) simp
  then have "run_at text_json film_catalog (Suc (Suc (Suc 0))) (store films0)"
    unfolding films0_def by (rule run_created [OF _ _ blank_created [OF film_types(2,5)]]) simp
  then have "run_at text_json film_catalog (Suc (Suc (Suc (Suc 0)))) (store films)"
    by (rule run_created [OF _ _ films_created]) simp
  then show ?thesis by (simp add: numeral_eq_Suc)
qed

lemma user_cover_fits: "fits text_json user_cover"
proof -
  have "length blank = 2" by (simp add: blank_def serialize_fields_bytes)
  then show ?thesis
    by (simp add: fits_def fields_ok_def field_ok_def user_cover_def cover_names utf8_lit utf8_ok_ascii serialize_fields_bytes field_bytes_def len_prefix_def)
qed

text \<open>Tags with a unique name, two of which are created beside each other, both from the empty store.\<close>

definition tag_type :: TypeDef where
  "tag_type = \<lparr>td_name = lit ''Tag'', td_fields = [\<lparr>fd_name = lit ''name'', fd_field_type = Scalar ST_String, fd_directives = [Schema.Unique]\<rparr>]\<rparr>"

definition tag_catalog :: catalog where
  "tag_catalog = film_catalog\<lparr>c_schema := [(lit ''Tag'', tag_type)], c_type_ids := [(lit ''Tag'', 1)], field_ids := [lit ''Tag.name'' \<mapsto> 1]\<rparr>"

definition tag :: "bytes \<Rightarrow> bytes FieldMap" where
  "tag b = [(utf8 (lit ''name''), VString b)]"

definition tag_writes :: "u64 \<Rightarrow> bytes \<Rightarrow> writes" where
  "tag_writes i b = [(kb_unique_index 1 1 b, Some (u64_be i)), (kb_object 1 i, Some (serialize_fields text_json (tag b)))]"

definition tags :: kv where
  "tags = kv_apply (tag_writes 2 [98]) (kv_apply (tag_writes 1 [97]) [])"

lemma tag_storage: "storage_get tag_catalog = map_of"
  by (simp add: tag_catalog_def film_catalog_def)

lemma tag_catalog_lookup:
  "type_live tag_catalog (lit ''Tag'') 1" "get_type (c_schema tag_catalog) (lit ''Tag'') = Some tag_type" "indexed_fields tag_catalog (lit ''Tag'') = []"
  "fulltext_fields tag_catalog tn = []" "field_ids tag_catalog (qual (lit ''Tag'') (lit ''name'')) = Some 1" "retired_field_names_by_type tag_catalog tn = []"
  by (simp_all add: tag_catalog_def tag_type_def film_catalog_def type_live_def get_type_def indexed_fields_def map_filter_def is_indexed_def qual_lit)

lemma tag_catalog_ok: "catalog_ok tag_catalog"
  by (auto simp: catalog_ok_def tag_catalog_def tag_type_def get_type_def split: if_split_asm)

lemma tag_fits: "length b = 1 \<Longrightarrow> utf8_ok b \<Longrightarrow> fits text_json (tag b)"
  by (simp add: fits_def fields_ok_def field_ok_def tag_def utf8_lit utf8_ok_ascii serialize_fields_bytes field_bytes_def len_prefix_def)

lemma tag_staged:
  assumes "store d = []" "length b = 1" "utf8_ok b"
  shows "staged text_json tag_catalog d (tag_writes i b)"
proof -
  have "stage_create_writes text_json tag_catalog d (lit ''Tag'') tag_type 1 i (tag b) ([], Map.empty) Map.empty =
      ok (tag b, [(kb_object 1 i, serialize_fields text_json (tag b))], ([(kb_unique_index 1 1 b, Some (u64_be i))], [kb_unique_index 1 1 b \<mapsto> i]), Map.empty)"
    using assms(1) by (simp add: stage_create_writes_def tag_def field_named_def tag_type_def validate_value_def scalar_accepts_def is_unique_def
      check_unique_and_insert_def tag_storage unique_key_def tag_catalog_lookup value_to_index_bytes_def inline_edges_def object_rows_def fulltext_docs_def map_filter_def)
  from staged_create [OF tag_catalog_lookup(1,2) this tag_fits [OF assms(2,3)]] show ?thesis by (simp add: tag_writes_def puts_def)
qed

lemma tag_keys: "fst ` set (tag_writes i b) = {kb_unique_index 1 1 b, kb_object 1 i}"
  by (auto simp: tag_writes_def)

text \<open>Both transactions begin before either commits.\<close>

lemma tags_run:
  obtains S M where "engine_run text_json tag_catalog S M" "M 2 = Some tags"
    "written S = {kb_unique_index 1 1 [97], kb_object 1 1, kb_unique_index 1 1 [98], kb_object 1 2}"
proof -
  let ?w1 = "tag_writes 1 [97]" and ?w2 = "tag_writes 2 [98]" and ?t = "\<lparr>tx_snapshot = 0, tx_writes = [], tx_index = Map.empty, tx_hold = True\<rparr>"
  let ?M1 = "[0 :: u64 \<mapsto> [], 1 \<mapsto> kv_apply ?w1 []]"
  have n: "sys_txns new_sys = []" "sys_history new_sys = []" "visible_version (sys_tm new_sys) = 0" "next_version (sys_tm new_sys) = 1"
    by (simp_all add: new_sys_def recover_at_version_def)
  have l0: "Suc (length (sys_txns new_sys)) < 2 ^ 64" by (simp add: n)
  from new_sys_run [of text_json tag_catalog] l0 obtain S1 where S1: "engine_run text_json tag_catalog S1 [0 \<mapsto> []]" "sys_history S1 = sys_history new_sys"
    "sys_txns S1 = sys_txns new_sys @ [\<lparr>tx_snapshot = visible_version (sys_tm new_sys), tx_writes = [], tx_index = Map.empty, tx_hold = True\<rparr>]"
    "visible_version (sys_tm S1) = visible_version (sys_tm new_sys)" "next_version (sys_tm S1) = next_version (sys_tm new_sys)"
    "sys_registered S1 = (sys_registered new_sys)(length (sys_txns new_sys) := visible_version (sys_tm new_sys))"
    by (rule run_begin)
  have l1: "Suc (length (sys_txns S1)) < 2 ^ 64" by (simp add: S1(3) n)
  from S1(1) l1 obtain S2 where S2': "engine_run text_json tag_catalog S2 [0 \<mapsto> []]" "sys_history S2 = sys_history S1"
    "sys_txns S2 = sys_txns S1 @ [\<lparr>tx_snapshot = visible_version (sys_tm S1), tx_writes = [], tx_index = Map.empty, tx_hold = True\<rparr>]"
    "visible_version (sys_tm S2) = visible_version (sys_tm S1)" "next_version (sys_tm S2) = next_version (sys_tm S1)"
    "sys_registered S2 = (sys_registered S1)(length (sys_txns S1) := visible_version (sys_tm S1))"
    by (rule run_begin)
  have S2: "engine_run text_json tag_catalog S2 [0 \<mapsto> []]" "sys_history S2 = []" "sys_txns S2 = [?t, ?t]" "visible_version (sys_tm S2) = 0"
    "next_version (sys_tm S2) = 1" "sys_registered S2 0 = 0" "sys_registered S2 1 = 0"
    using S2'(1) by (simp_all add: S2'(2-) S1(2-) n)
  let ?S3 = "S2\<lparr>sys_txns := [buffer_all ?t ?w1, ?t]\<rparr>" and ?S4 = "S2\<lparr>sys_txns := [buffer_all ?t ?w1, buffer_all ?t ?w2]\<rparr>"
  have "engine_run text_json tag_catalog ?S3 [0 \<mapsto> []]" using run_buffer [OF S2(1), of 0 ?w1] by (simp add: S2(3))
  from run_buffer [OF this, of 1 ?w2] have S4: "engine_run text_json tag_catalog ?S4 [0 \<mapsto> []]" by simp
  have e: "store (empty_db :: bytes db) = []" by (simp add: empty_db_def)
  have st: "staged text_json tag_catalog empty_db ?w1" "staged text_json tag_catalog empty_db ?w2"
    by (rule tag_staged; simp add: e utf8_ok_ascii)+
  have ne: "?w1 \<noteq> []" "?w2 \<noteq> []" by (simp_all add: tag_writes_def)
  have two: "(2 :: u64) < - 1" "(1 :: u64) < - 1" by (simp_all add: word_less_nat_alt unat_max)
  have v4: "sys_history ?S4 = []" "next_version (sys_tm ?S4) = 1" "visible_version (sys_tm ?S4) = 0" "length (sys_txns ?S4) = 2"
    "sys_txns ?S4 ! 0 = buffer_all ?t ?w1" "sys_txns ?S4 ! 1 = buffer_all ?t ?w2" "sys_registered ?S4 0 = 0" "sys_registered ?S4 1 = 0"
    using S2 by simp_all
  define S4 where "S4 = ?S4"
  note v4 = v4 [folded S4_def] and run4 = S4 [folded S4_def]
  have p4: "0 < length (sys_txns S4)" "length (sys_history S4) < 1024" "next_version (sys_tm S4) < - 1" "[0 \<mapsto> []] (0 :: u64) = Some (store (empty_db :: bytes db))"
    "[0 \<mapsto> []] (visible_version (sys_tm S4)) = Some []" "\<forall>e \<in> set (sys_history S4). 0 < ct_version e \<longrightarrow> ct_write_set e \<inter> fst ` set ?w1 = {}"
    using two by (simp_all add: v4 e)
  from run4 tag_catalog_ok p4(1) v4(5,7) p4(2-4) st(1) ne(1) p4(5,6)
  obtain S5 where S5: "engine_run text_json tag_catalog S5 ([0 \<mapsto> []](next_version (sys_tm S4) \<mapsto> kv_apply ?w1 []))"
    "sys_history S5 = sys_history S4 @ [\<lparr>ct_version = next_version (sys_tm S4), ct_write_set = fst ` set ?w1\<rparr>]"
    "visible_version (sys_tm S5) = next_version (sys_tm S4)" "next_version (sys_tm S5) = next_version (sys_tm S4) + 1"
    "length (sys_txns S5) = length (sys_txns S4)" "\<forall>j. j \<noteq> 0 \<longrightarrow> j < length (sys_txns S4) \<longrightarrow> sys_txns S5 ! j = sys_txns S4 ! j"
    "sys_registered S5 = sys_registered S4" by (rule run_land)
  have v5: "sys_history S5 = [\<lparr>ct_version = 1, ct_write_set = fst ` set ?w1\<rparr>]" "visible_version (sys_tm S5) = 1" "next_version (sys_tm S5) = 2"
    "sys_txns S5 ! 1 = buffer_all ?t ?w2" "sys_registered S5 1 = 0" using S5 v4 by simp_all
  have run5: "engine_run text_json tag_catalog S5 ?M1" using S5(1) by (simp add: v4)
  have p5: "1 < length (sys_txns S5)" "length (sys_history S5) < 1024" "next_version (sys_tm S5) < - 1" "?M1 0 = Some (store (empty_db :: bytes db))"
    "?M1 (visible_version (sys_tm S5)) = Some (kv_apply ?w1 [])" "\<forall>e \<in> set (sys_history S5). 0 < ct_version e \<longrightarrow> ct_write_set e \<inter> fst ` set ?w2 = {}"
    using two S5(5) v4(4) by (simp_all add: v5 e tag_keys unique_key_inject unique_object_keys)
  from run5 tag_catalog_ok p5(1) v5(4,5) p5(2-4) st(2) ne(2) p5(5,6)
  obtain S6 where S6: "engine_run text_json tag_catalog S6 (?M1(next_version (sys_tm S5) \<mapsto> kv_apply ?w2 (kv_apply ?w1 [])))"
    "sys_history S6 = sys_history S5 @ [\<lparr>ct_version = next_version (sys_tm S5), ct_write_set = fst ` set ?w2\<rparr>]" by (rule run_land)
  show thesis by (rule that [OF S6(1)]) (auto simp: tags_def written_def S6(2) v5 tag_keys)
qed

lemma tag_get:
  assumes "i = 1 \<and> b = [97] \<or> i = 2 \<and> b = [98]"
  shows "get text_json tag_catalog (empty_db\<lparr>store := tags\<rparr>) (lit ''Tag'') i = ok (mk_object (lit ''Tag'') i (tag b))"
proof -
  have "kv_get tags (kb_object 1 i) = Some (serialize_fields text_json (tag b))"
    using assms by (auto simp: tags_def tag_writes_def kv_get_apply unique_object_keys)
  moreover have "stored_fields text_json (serialize_fields text_json (tag b)) = ok (tag b)"
    using assms by (intro stored_fits tag_fits) (auto simp: utf8_ok_ascii)
  moreover have "strip_tombstoned_fields tag_catalog (lit ''Tag'') (tag b) = tag b"
    by (simp add: strip_tombstoned_fields_def tag_catalog_lookup tag_def is_shadow_sibling_key_def utf8_lit suffix_def)
  moreover have "resolve_type_id tag_catalog (lit ''Tag'') = (ok 1 :: (bytes, u64) eres)" using tag_catalog_lookup(1) by simp
  ultimately show ?thesis by (simp add: get_def del: lookup_ok)
qed

section \<open>Properties\<close>

text \<open>C5: A delete that succeeds removes exactly the objects that are reached from the one it was called for by going from a referenced object to the
  objects that reference it, over inbound relations whose policy is cascade; none of them is referenced through a relation that denies its deletion, and every other
  object, the targets of its own relations included, keeps its bytes; a delete that does not succeed changes nothing.\<close>

theorem delete_removes_cascade:
  assumes "store_ok (store d)" "delete_with_origin io lib c tn i origin d = (r, d')" "type_live c tn ti"
  shows "if r = ok ()
    then (\<forall>t j. kv_get (store d') (kb_object t j) =
        (if (t, j) \<in> cascaded c (store d) (ti, i) then None else kv_get (store d) (kb_object t j))) \<and>
      (\<forall>x. x \<in> cascaded c (store d) (ti, i) \<longrightarrow> \<not> denied c (store d) x)
    else d' = d"
proof (cases "r = ok ()")
  case True
  with assms(1,2) obtain tj st where tj: "type_live c tn tj"
    and w: "delete_inner (delete_fuel c d) lib c d tj i True None ([], [], Map.empty) = Some (ok st)"
    and d': "store d' = kv_apply (tombstones (fst (snd st))) (store d)"
    by (metis delete_okE)
  note f = delete_walk_facts [OF assms(1) w [unfolded type_live_unique [OF tj assms(3)]]]
  have "kv_get (store d') k = (if k \<in> del_keys st then None else kv_get (store d) k)" for k
    using d' assms(1) by (simp add: kv_get_tombstones del_keys_def store_ok_def)
  then show ?thesis using True f(2,3) by auto
qed (use delete_failed [OF assms(2)] in simp)

theorem delete_removes_cascade_witness:
  "kv_get (store stale_films) (kb_object 3 4) =
     (if (3, 4) \<in> cascaded film_catalog (store moved_films) (1, 1) then None else kv_get (store moved_films) (kb_object 3 4)) \<and>
   kv_get (store stale_films) (kb_object 2 2) =
     (if (2, 2) \<in> cascaded film_catalog (store moved_films) (1, 1) then None else kv_get (store moved_films) (kb_object 2 2)) \<and>
   \<not> denied film_catalog (store moved_films) (1, 1)"
proof -
  have "delete_with_origin Lands text_json film_catalog (lit ''User'') 1 None moved_films = (ok (), stale_films)"
    using delete_user(1) by (metis stale_films_def prod.collapse)
  then show ?thesis
    using delete_removes_cascade [of moved_films Lands text_json film_catalog "lit ''User''" 1 None "ok ()" stale_films 1] films_ok film_live cascaded_root by simp
qed

text \<open>C6: A delete that succeeds leaves no edge of the object it was called for in the relations that are declared without an inverse directive,
  neither to it (the inbound relations of its type) nor from it (the forward relations of its type), and keeps edges and reverse edges in pairs. Edges that a link through a field with
  an inverse directive wrote are not removed.\<close>

theorem delete_leaves_no_edge:
  assumes "store_ok (store d)" "edges_paired (store d)" "delete_with_origin io lib c tn i origin d = (ok (), d')"
    "type_live c tn ti" "cascade_meta_by_id c ti = Some meta"
  shows "(\<forall>inc s. inc \<in> set (incoming_relations c ti) \<longrightarrow> \<not> linked (store d') s (inc_rel_id inc) i) \<and>
    (\<forall>rel t. rel \<in> set (cm_forward_relations meta) \<longrightarrow> \<not> linked (store d') i (fwd_rel_id rel) t) \<and>
    edges_paired (store d')"
proof -
  from assms(3,1) obtain tj st where tj: "type_live c tn tj"
    and w: "delete_inner (delete_fuel c d) lib c d tj i True None ([], [], Map.empty) = Some (ok st)"
    and d': "store d' = kv_apply (tombstones (fst (snd st))) (store d)"
    by (rule delete_okE)
  obtain n where "delete_fuel c d = Suc n" by (simp add: delete_fuel_def)
  note u = delete_unlinks [OF assms(1,2) w [unfolded type_live_unique [OF tj assms(4)] this] assms(5)]
  have g: "linked (store d') s r t \<longleftrightarrow> kb_edge s r t \<notin> del_keys st \<and> linked (store d) s r t" for s r t
    using d' assms(1) by (simp add: linked_def present_def kv_get_tombstones del_keys_def store_ok_def)
  have "\<not> linked (store d') s (inc_rel_id inc) i" if "inc \<in> set (incoming_relations c ti)" for inc s
    using u(1) [OF that, of s] assms(2) g by (auto simp: edges_paired_def)
  moreover have "\<not> linked (store d') i (fwd_rel_id rel) t" if "rel \<in> set (cm_forward_relations meta)" for rel t
    using u(2) [OF that, of t] g by auto
  ultimately show ?thesis using delete_keeps_edges [OF assms(1-3)] by blast
qed

theorem delete_leaves_no_edge_witness:
  "\<not> linked (store stale_films) 4 2 1 \<and> edges_paired (store stale_films)"
proof -
  have "delete_with_origin Lands text_json film_catalog (lit ''User'') 1 None moved_films = (ok (), stale_films)"
    using delete_user(1) by (metis stale_films_def prod.collapse)
  from delete_leaves_no_edge [OF films_ok(2) films_paired(2) this film_live(1) film_meta(1)]
  show ?thesis by (simp add: film_incoming)
qed

text \<open>C34: The walk over the cascades ends: with the fuel that a delete passes, \<open>delete_inner\<close> returns, whatever
  cycles the relations form.\<close>

theorem delete_ends:
  assumes "store_ok (store d)"
  shows "\<exists>r. delete_inner (delete_fuel c d) lib c d ti i True None ([], [], Map.empty) = Some r"
  using delete_stage_walks [OF assms] by blast


theorem delete_ends_witness:
  "\<exists>r. delete_inner (delete_fuel film_catalog films) text_json film_catalog films 1 1 True None ([], [], Map.empty) = Some r"
  by (rule delete_ends [OF films_ok(1)])

text \<open>C37: A rating of user 1 is moved from movie 2 to movie 3, which writes no new cover on the reverse edge to its user. Deleting the
  user then deletes the rating with it, but looks for the edge to movie 2: the edge to movie 3 stays, although its source is
  gone, and movie 3 can no longer be deleted.\<close>

theorem cascade_leaves_edge:
  "fst (delete_with_origin Lands text_json film_catalog (lit ''User'') 1 None moved_films) = ok () \<and>
   (case delete_with_origin Lands text_json film_catalog (lit ''User'') 1 None moved_films of (_, d) \<Rightarrow>
      kv_get (store d) (kb_object 3 4) = None \<and> linked (store d) 4 3 3 \<and>
      fst (delete_with_origin Lands text_json film_catalog (lit ''Movie'') 3 None d) =
        err (DeleteDenied (lit ''Movie'') 3 (lit ''Rating'') (lit ''movie'')))"
  using delete_user delete_movie by (simp add: stale_films_def linked_def present_def split_beta)



text \<open>C39: A link through a field with an inverse directive succeeds, and the same field of the same object reads as before: the edge is stored under the relation of the field itself, while the field is read from
  the reverse edges of the relation that it is the inverse of.\<close>

theorem link_through_inverse_is_lost:
  assumes "store_ok (store d)" "link io lib c d tn i f t ef = ok d'"
    "get_type (c_schema c) tn = Some td" "get_field td f = Some fd" "fd_inverse fd = Some iv"
    "rel_ids c (qual tn f) = Some r" "rel_ids c (qual (inv_type_name iv) (inv_field_name iv)) = Some r'" "r \<noteq> r'"
  shows "get_links lib c d' tn i f = get_links lib c d tn i f"
  using assms by (rule link_through_inverse)

lemma link_ratings: "\<exists>d'. link Lands text_json film_catalog films (lit ''User'') 1 (lit ''ratings'') 4 None = ok d'"
  by (simp add: link_def link_stage_def film_types live_field_def field_relation_def get_field_def film_fields qual_lit film_lookup films_state
      live_rel_def build_covering_rev_value_def get_type_def film_inverse single_forward_def commit_def del: lookup_ok)

theorem link_through_inverse_is_lost_witness:
  "\<exists>d'. link Lands text_json film_catalog films (lit ''User'') 1 (lit ''ratings'') 4 None = ok d' \<and>
     get_links text_json film_catalog d' (lit ''User'') 1 (lit ''ratings'') = get_links text_json film_catalog films (lit ''User'') 1 (lit ''ratings'')"
proof -
  obtain d' where l: "link Lands text_json film_catalog films (lit ''User'') 1 (lit ''ratings'') 4 None = ok d'" using link_ratings ..
  from link_through_inverse_is_lost [OF films_ok(1) l, of user_type _ _ 1 2] l show ?thesis
    by (simp add: film_lookup get_type_def get_field_def film_fields film_inverse qual_lit)
qed

text \<open>C35: A link through a forward field (one without an inverse directive) is read back: after it, the field reads as before with the new target and
  its edge fields added, or replaced if it was there. The edge fields fit the format.\<close>

theorem link_reads_back:
  assumes "store_ok (store d)" "link Lands lib c d tn i f t ef = ok d'"
    "get_type (c_schema c) tn = Some td" "get_field td f = Some fd" "fd_inverse fd = None" "get_links lib c d tn i f = ok l"
    "case ef of Some fs \<Rightarrow> fields_ok lib fs \<and> length (serialize_fields lib fs) < 2 ^ 64 | None \<Rightarrow> True"
  shows "\<exists>l'. get_links lib c d' tn i f = ok l' \<and>
    set l' = insert (t, case ef of Some fs \<Rightarrow> fs | None \<Rightarrow> []) {e \<in> set l. fst e \<noteq> t}"
  using assms by (rule link_read_back)

theorem link_reads_back_witness:
  "\<exists>l'. get_links text_json film_catalog moved_films (lit ''Rating'') 4 (lit ''movie'') = ok l' \<and> set l' = {(3, [])}"
proof -
  have "get_links text_json film_catalog unlinked_films (lit ''Rating'') 4 (lit ''movie'') = ok []"
    by (simp add: get_links_def film_types live_field_def get_field_def film_fields read_relation_def film_inverse rel_id_of_def qual_lit film_lookup
        link_prefix_def scan_prefix_def unlinked_films_state kv_scan_eval key_prefixes decode_edge_entries_def del: lookup_ok)
  from link_reads_back [OF films_ok(3) link_films _ _ _ this] show ?thesis
    by (simp add: film_lookup get_type_def get_field_def film_fields film_inverse moved_films_def link_films)
qed

text \<open>C3: Unique fields are unique, whatever transactions run beside each other: in no committed state of a run do two objects of a type have the same
  non-null value in a unique field. A run is any interleaving of begins, buffered writes, commits and aborts of the transaction manager, from an empty database, in which a commit that lands carries the batch of a create, update, delete, link,
  unlink or cover refresh that was staged from the state of its snapshot, was begun with no commit between the two steps of its begin, and sees at most 1024 commits since its snapshot. The point read of the storage
  is exact for keys that no written key continues and that continue no written key with \<open>0xFF\<close>, and of two written keys one of which is a unique entry, neither continues the other: this excludes two values
  of one string field one of which begins with the other.\<close>

theorem unique_values_never_shared:
  assumes "catalog_ok c" "engine_run lib c S M" "M n = Some (store d)"
    and "\<forall>n m k. M n = Some m \<longrightarrow> (\<forall>j \<in> written S. \<not> strict_prefix k j \<and> \<not> prefix (j @ [255]) k) \<longrightarrow> storage_get c m k = kv_get m k"
    and "\<forall>j \<in> written S. \<forall>k \<in> written S. hd k = 117 \<longrightarrow> \<not> strict_prefix j k \<and> \<not> strict_prefix k j"
    and "get lib c d tn i = ok ob" "get lib c d tn j = ok ob'" "i \<noteq> j"
    and "get_type (c_schema c) tn = Some td" "fd \<in> set (td_fields td)" "is_unique fd" "field_ids c (qual tn (fd_name fd)) = Some fi"
    and "non_null (ob_fields ob) (utf8 (fd_name fd)) = Some v"
  shows "non_null (ob_fields ob') (utf8 (fd_name fd)) \<noteq> Some v"
proof
  assume v': "non_null (ob_fields ob') (utf8 (fd_name fd)) = Some v"
  have "exact_unique c m" if "M n = Some m" for n m by (rule run_exact [OF assms(2,1) that _ assms(5)]) (use assms(4) that in blast)
  then have u: "unique_ok lib c (store d)" using run_unique [OF assms(2,1)] assms(3) by blast
  obtain ti where ti: "type_ids c tn = Some ti" using assms(6) by (auto simp: type_live_def elim!: get_okE)
  have v: "map_of (ob_fields ob) (utf8 (fd_name fd)) = Some v" "map_of (ob_fields ob') (utf8 (fd_name fd)) = Some v" "v \<noteq> VNull"
    using assms(13) v' by (auto simp: non_null_def split: option.splits if_splits)
  have "Some (u64_be i) = Some (u64_be j)"
    using unique_owner [OF assms(6) v(1,3) assms(9-12) u ti] unique_owner [OF assms(7) v(2,3) assms(9-12) u ti] by simp
  then show False using assms(8) by (metis be_u64_u64_be option.inject)
qed

theorem unique_values_never_shared_witness:
  "non_null (tag [98]) (utf8 (lit ''name'')) \<noteq> Some (VString [97])"
proof (rule tags_run)
  fix S M
  assume run: "engine_run text_json tag_catalog S M" "M 2 = Some tags"
    and w: "written S = {kb_unique_index 1 1 [97], kb_object 1 1, kb_unique_index 1 1 [98], kb_object 1 2}"
  have free: "\<forall>j \<in> written S. \<forall>k \<in> written S. hd k = 117 \<longrightarrow> \<not> strict_prefix j k \<and> \<not> strict_prefix k j"
    by (auto simp: w edge_key_defs strict_prefix_def dest!: prefix_same_length)
  from unique_values_never_shared [OF tag_catalog_ok run(1) _ _ free tag_get tag_get, of 2 1 "[97]" 2 "[98]" tag_type
      "\<lparr>fd_name = lit ''name'', fd_field_type = Scalar ST_String, fd_directives = [Schema.Unique]\<rparr>" 1 "VString [97]"] tag_catalog_lookup run(2)
  show ?thesis by (simp add: tag_storage tag_type_def is_unique_def mk_object_def tag_def non_null_def)
qed

text \<open>C4: The two ends of a relation agree in every committed state of a run: a target is read from its source through the relation exactly when the source
  is read from the target through the inverse field. The runs are those of the uniqueness property above, with no condition on keys.\<close>

theorem both_ends_agree:
  assumes "catalog_ok c" "engine_run lib c S M" "M n = Some (store d)"
    "get_type (c_schema c) tn = Some td" "get_field td f = Some fd" "fd_inverse fd = None"
    "get_type (c_schema c) tn' = Some td'" "get_field td' g = Some gd" "fd_inverse gd = Some \<lparr>inv_type_name = tn, inv_field_name = f\<rparr>"
    "get_links lib c d tn s f = ok l" "get_links lib c d tn' t g = ok l'"
  shows "t \<in> fst ` set l \<longleftrightarrow> s \<in> fst ` set l'"
proof -
  have ok: "store_ok (store d)" "edges_paired (store d)" using run_sound [OF assms(2,1,3)] by (simp_all add: sound_store_def)
  obtain r where r: "rel_ids c (qual tn f) = Some r" "scan_prefix lib (store d) (kb_edge_prefix s r) = ok l"
    using get_links_okE [OF assms(10,4,5)] assms(6) by (auto simp: link_prefix_def)
  have "scan_prefix lib (store d) (kb_reverse_edge_prefix t r) = ok l'"
    using get_links_okE [OF assms(11,7,8)] assms(9) r(1) by (auto simp: link_prefix_def)
  from reverse_ids [OF ok(1) this] show ?thesis using forward_ids [OF ok(1) r(2)] ok(2) by (simp add: edges_paired_def)
qed

theorem both_ends_agree_witness:
  "\<exists>l l'. get_links text_json film_catalog films (lit ''Rating'') 4 (lit ''user'') = ok l \<and>
     get_links text_json film_catalog films (lit ''User'') 1 (lit ''ratings'') = ok l' \<and> 1 \<in> fst ` set l \<and> 4 \<in> fst ` set l'"
proof -
  obtain S M where H: "engine_run text_json film_catalog S M" "M (visible_version (sys_tm S)) = Some (store films)"
    using films_run unfolding run_at_def by blast
  have f: "get_links text_json film_catalog films (lit ''Rating'') 4 (lit ''user'') = ok [(1, [])]"
    by (simp add: get_links_def film_types live_field_def get_field_def film_fields read_relation_def film_inverse rel_id_of_def qual_lit film_lookup
        link_prefix_def scan_prefix_def films_state kv_scan_eval key_prefixes decode_edge_entries_def edge_value_def del: lookup_ok)
  have r: "get_links text_json film_catalog films (lit ''User'') 1 (lit ''ratings'') = ok [(4, user_cover)]"
    by (simp add: get_links_def film_types live_field_def get_field_def film_fields read_relation_def film_inverse rel_id_of_def qual_lit film_lookup
        link_prefix_def scan_prefix_def films_state kv_scan_eval key_prefixes decode_edge_entries_def edge_value_def serialized_not_Nil
        stored_fits [OF user_cover_fits] del: lookup_ok)
  have "1 \<in> fst ` set [(1 :: u64, [] :: bytes FieldMap)] \<longleftrightarrow> 4 \<in> fst ` set [(4 :: u64, user_cover)]"
    by (rule both_ends_agree [where td = rating_type and fd = "rel_field ''user'' ''User'' False [OnDelete Cascade]" and td' = user_type
        and gd = "rel_field ''ratings'' ''Rating'' True [Inverse \<lparr>inv_type_name = lit ''Rating'', inv_field_name = lit ''user''\<rparr>]",
        OF film_catalog_ok H _ _ _ _ _ _ f r])
      (simp_all add: film_lookup get_type_def get_field_def film_fields film_inverse)
  then show ?thesis using f r by auto
qed

end
