(* ===== verification/Spec2Isabelle.thy ===== *)
theory Spec2Isabelle
  imports Keyspace Index_Encoding Store_System Wire_Object Schema_Emit Query_Exec Engine_System
begin

text \<open>
  A verification library for rhypedb, an object database in Rust: its storage engine, the objects and relations
  above it, the wire form of its objects, its schema language, and the security rules and resource limits around its queries.

  \<^bold>\<open>The program.\<close> The database keeps its objects, relations, indexes and catalog in one log-structured
  merge tree. \<^verbatim>\<open>rhypedb-storage\<close> is that tree: \<^verbatim>\<open>key.rs\<close> encodes every kind of record to bytes,
  \<^verbatim>\<open>mvcc.rs\<close> numbers commits and detects conflicts, \<^verbatim>\<open>wal.rs\<close> is the redo log, \<^verbatim>\<open>memtable.rs\<close> the sorted
  buffer in memory, \<^verbatim>\<open>sst.rs\<close> the immutable sorted files with \<^verbatim>\<open>bloom.rs\<close> and \<^verbatim>\<open>zone.rs\<close> to skip work in
  them, \<^verbatim>\<open>lock.rs\<close> the guard against a second writer, and \<^verbatim>\<open>lsm.rs\<close> composes them: a commit appends to the
  log and applies to the memtable, a flush turns the memtable into an SST file and starts a new log, a
  compaction merges the files, opening a directory rebuilds the tree. \<^verbatim>\<open>rhypedb-engine\<close> and the crates
  above use the tree through snapshots, point reads, prefix scans and commits. \<^verbatim>\<open>rhypedb-wire\<close> encodes the fields
  of objects, \<^verbatim>\<open>rhypedb-schema\<close> parses, checks and prints the types of a database. A query of \<^verbatim>\<open>rhypedb-query\<close> runs as
  a pipeline of steps under a governor that bounds its cost and under the security rules of \<^verbatim>\<open>rhypedb-authz\<close>,
  which gate the objects a write lists and filter the rows a query returns.

  \<^bold>\<open>Theories\<close>, in the order of their imports:
  \<^item> \<open>Prelude\<close>: bytes, machine words, errors (\<open>error\<close>, \<open>outcome\<close>), lexicographic order of byte strings,
    sorted maps, shared list lemmas and the named collections.
  \<^item> \<open>Keys\<close>, \<open>Keyspace\<close>: \<^verbatim>\<open>KeyBuilder\<close> and \<^verbatim>\<open>InternalKey\<close> of \<^verbatim>\<open>key.rs\<close>, one definition per constructor. The
    constructors never collide, every scan prefix, that of a prefix search included, selects exactly its family, arena encoders agree with
    the allocating ones, accessors read back what was written.
  \<^item> \<open>Index_Encoding\<close>: the order-preserving encodings of index and zone values in \<^verbatim>\<open>database.rs\<close> and
    \<^verbatim>\<open>object.rs\<close>, and of the terms of \<^verbatim>\<open>fulltext/mod.rs\<close>.
  \<^item> \<open>Versions\<close>: the specification of versioned reads. \<open>visible es k v\<close> is the newest version of \<open>k\<close> not
    above \<open>v\<close> among the entries \<open>es\<close>; \<open>scan_spec\<close> the matching scan. Locales state what a sorted map and a
    versioned layer promise.
  \<^item> \<open>Memtable\<close>: \<^verbatim>\<open>memtable.rs\<close>; the skip list is its sorted contents.
  \<^item> \<open>Wal\<close>: \<^verbatim>\<open>wal.rs\<close>, byte for byte, with the buffered writer and failing system calls. A log torn at any
    byte replays the wholly contained transactions.
  \<^item> \<open>Mvcc\<close>: \<^verbatim>\<open>mvcc.rs\<close> and a step relation of a system of transactions; begin is two steps. First committer wins from the
    registration on, among the last 1024 commits; the floor of active snapshots is exact.
  \<^item> \<open>Bloom\<close>, \<open>Zone\<close>: \<^verbatim>\<open>bloom.rs\<close>, \<^verbatim>\<open>zone.rs\<close>; no false negatives, no wrong skip.
  \<^item> \<open>Sst\<close>, \<open>Sst_Format\<close>, \<open>Sst_Read\<close>: writer, file formats 1 to 6 and reader of \<^verbatim>\<open>sst.rs\<close>. A written file
    opens and holds its entries (\<open>sst_repr\<close>), point reads and scans meet the specification.
  \<^item> \<open>Lock\<close>: \<^verbatim>\<open>lock.rs\<close>.
  \<^item> \<open>Layers\<close>: the interface \<open>versioned_layer\<close> of one layer of the tree, interpreted for memtables and for
    SST files, and the probing and merging of layers.
  \<^item> \<open>Lsm\<close>: the state \<open>lsm\<close> and every operation of \<^verbatim>\<open>lsm.rs\<close> listed below as modelled.
  \<^item> \<open>Lsm_Read\<close>, \<open>Lsm_Maint\<close>: under the invariant \<open>lsm_inv\<close> (every layer well-formed, newer layers on top)
    point reads of keys that no stored key continues (\<open>readable\<close>) and scans meet the specification over the entries of all layers;
    flush and compaction keep the invariant and what the entries show, whichever system call fails.
  \<^item> \<open>Lsm_Commit\<close>, \<open>Store\<close>, \<open>Recovery\<close>, \<open>Store_System\<close>: the life of a store. \<open>store_step\<close> has the commits,
    aborts, flushes, compactions, crashes and reopenings of one directory; \<open>store_inv\<close> ties the tree and
    the log to the history of committed transactions (\<open>state_at\<close>). In every reachable state a transaction
    reads the history up to its snapshot, by readable keys and safe prefixes, and opening after a crash succeeds; a log with a torn
    header loses later commits.
  \<^item> \<open>Wire_Object\<close>: the field maps of \<^verbatim>\<open>rhypedb-wire/src/object.rs\<close>; round trip, agreement of all readers and
    safety of the checked decoder, whose slices panic when they are out of range. \<^verbatim>\<open>serde_json\<close> is the parameter \<open>json_lib\<close>.
  \<^item> \<open>Text\<close>: Rust's characters and strings as code points, with the Unicode classes as tables.
  \<^item> \<open>Schema\<close>, \<open>Schema_Parser\<close>, \<open>Schema_Emit\<close>: \<^verbatim>\<open>types.rs\<close> with the validation of a schema, the parser, and the
    printer of \<^verbatim>\<open>rhypedb-schema\<close>. A printed schema parses back to itself, a parsed schema satisfies what the validator checks; the locale
    \<open>closing_loop\<close> carries the parser's loops up to a closing character.
  \<^item> \<open>Rules_Parse\<close>, \<open>Rules\<close>: lexer, parser, compiler and three-valued evaluator of the security rules. Compiled
    rules are well-formed, allow exactly what the source says (\<open>sem\<close>), and never more when data is missing.
  \<^item> \<open>Governor\<close>: the limits of one query; charges add up without wrap-around and exhaustion is final.
  \<^item> \<open>Query_Ast\<close>, \<open>Rules_Gate\<close>, \<open>Query_Exec\<close>: the syntax of queries, the gates and filters of \<^verbatim>\<open>authz.rs\<close>, and the
    pipeline \<^verbatim>\<open>execute\<close>. The locale \<open>budgeted\<close> relates an evaluation under a budget to one that sees every answer
    of the engine's reads (\<open>engine_facts\<close>), partial relations included; the reads are the record \<open>Engine\<close>, the bodies of the steps the record \<open>Stages\<close>.
  \<^item> \<open>Engine_Kv\<close>: the storage contents an operation of the engine sees, a sorted map, and the batch of writes it commits.
  \<^item> \<open>Fulltext_Posting\<close>: postings, document rows and corpus counters of \<^verbatim>\<open>fulltext/\<close>, and the maintenance of a document on
    an update (\<^verbatim>\<open>stage_fulltext_update\<close>). A posting decodes to what was encoded; the update leaves the rows of a fresh indexing.
  \<^item> \<open>Engine_Catalog\<close>: the state of a handle of \<^verbatim>\<open>Database\<close>, as \<open>catalog\<close> (schema, numeric ids, retired names) and \<open>db\<close>
    (contents, generations, counters, published events), the tables that opening derives, validation of values, and commits.
  \<^item> \<open>Engine_Links\<close>, \<open>Engine_Objects\<close>, \<open>Engine_Delete\<close>: \<^verbatim>\<open>link\<close>, \<^verbatim>\<open>unlink\<close>, \<^verbatim>\<open>get_links\<close> and the covers of reverse edges;
    \<^verbatim>\<open>create\<close>, \<^verbatim>\<open>create_batch\<close>, \<^verbatim>\<open>get\<close>, \<^verbatim>\<open>update\<close> with the unique, field and full-text indexes; \<^verbatim>\<open>delete\<close> with its cascade.
    An operation reads the contents at its snapshot and gives a batch; whether the commit of the batch lands, conflicts or
    fails is an argument (\<open>commit_io\<close>). The recursion of a cascade is on fuel, one more than the number of ids that edges name;
    \<open>delete_ends\<close> shows that this is enough.
  \<^item> \<open>Engine_Cascade\<close>, \<open>Engine_Sample\<close>, \<open>Engine_System\<close>: the set of objects a delete reaches (\<open>cascaded\<close>), that a delete
    deletes exactly it, keeps the two rows of every edge in step (\<open>edges_paired\<close>), and what goes wrong.
  \<^item> \<open>Engine_Unique\<close>, \<open>Engine_Run\<close>: the runs of the engine. \<open>staged\<close> are the batches of its operations; \<open>engine_run\<close> interleaves
    transactions of the manager of \<open>Mvcc\<close>, and a commit that lands carries a batch staged from the state of its snapshot. It is \<open>timely\<close>: no commit
    fell between the two steps of its begin and at most 1024 came since, the conditions under which the conflict check is
    complete. The unique check reads through \<open>storage_get\<close>, for which the theorem on unique values assumes what the point read of the
    tree guarantees. Every batch keeps the unique index exact and edges in pairs (\<open>sound_batch\<close>).

  \<^bold>\<open>How the state corresponds.\<close> A record of the model has the fields of the struct of the same name;
  locks, reference counts and condition variables have no field, since every operation is one step under
  the lock the code holds for it. Where the code releases a lock in the middle, the operation is split: \<^verbatim>\<open>begin\<close> is
  \<open>begin_load\<close> and \<open>begin_register\<close>, and the system of transactions of \<open>Mvcc\<close>, on which the runs of the engine rest, interleaves
  other steps between them; \<^verbatim>\<open>compact_inner\<close> reads its files (\<open>job_for\<close>) and installs the result (\<open>compact_install\<close>), and the
  theorem on compaction lets flushes happen in between. The life of one store (\<open>store_step\<close>) is coarser: its begin and its compaction are
  one step each, and it has only successful operations, in which the files that a compaction replaces are removed. A read of the tree is
  one step everywhere, although the code takes the locks of the active memtable, the older ones and the files one after the other. A 64-bit integer is a \<open>64 word\<close>, a \<^verbatim>\<open>usize\<close> length a \<open>nat\<close>. Errors are
  values of \<open>error\<close>; an \<open>outcome\<close> is a result, an error or a panic. A system call that can fail is a boolean
  of \<open>wal_io\<close> or \<open>store_io\<close>; the re-creation of the log can fail before or after it truncated the file (\<open>fresh_io\<close>), and
  the removal of a file can fail silently. The I/O errors of opening a log are not modelled. The hash functions, the checksum and LZ4 are parameters; \<open>lz4_ok\<close> is the one
  law assumed of them, that decompression inverts compression. The theorems on files assume that lengths
  fit the 32-bit fields of the format (\<open>sst_fits\<close>).

  \<^bold>\<open>Recursion.\<close> Loops over bytes and entries recurse on the remaining input and have termination proofs.
  The expression parser of the security rules recurses on fuel, seven units for each token and some to
  start; \<open>expr_returns\<close> shows that this is always enough and \<open>compile_returns\<close> that compiling returns.

  \<^bold>\<open>What goes wrong.\<close> Theorems named after a defect show it, in general or on a concrete state: a bounded scan that
  resurrects deleted rows, a flush after a failed flush that hides newer data, a point read that misses
  a key because a longer key sorts before it, a failed append that is replayed, a torn log header that
  loses commits, a race in \<^verbatim>\<open>begin\<close> that misses a conflict, a compaction under an unregistered snapshot, a deny list that
  admits when a linked object cannot be read, an inequality that grants on a type mismatch, a cascade that trusts a stale
  cover and leaves an edge to a deleted object, a link that races a delete, a link through an inverse field that the field does not read back.

  \<^bold>\<open>Not modelled.\<close> The batched cursor walks of \<^verbatim>\<open>sst.rs\<close> and \<^verbatim>\<open>lsm.rs\<close>, thread scheduling beyond the steps above,
  files and directories beyond their contents, \<^verbatim>\<open>crash_inject.rs\<close> (a test harness), the filter scans, exports,
  backups, restores and field migrations of the engine (no migration is in flight in the model) and its catalog rows, the
  analyzer and the ranking of full-text search (Unicode segmentation and a stemmer from other packages), the query parser and the bodies of the query steps, the frames of \<^verbatim>\<open>protocol.rs\<close>,
  subscriptions, the vector index, tokens, the server and the clients.
\<close>

end
